(* ===== verification/Prelude.thy ===== *)
theory Prelude
  imports Main "HOL-Library.Word"
begin

unbundle bit_operations_syntax

section \<open>Shared vocabulary: bytes, endianness, I/O errors\<close>

text \<open>
  The prelude holds what every component of the proxy uses: the types of machine bytes and
  buffers, Rust's fixed-width integer conversions (\<open>to_le_bytes\<close>, \<open>from_le_bytes\<close> and their
  big-endian forms), the slice operations of the standard library that the sources use
  (\<open>chunks\<close>, slice assignment), the \<open>std::io::Error\<close> values and the outcome of a poll.
  A \<open>usize\<close> is a natural number; the sources target 64-bit machines and every length that
  is computed stays far below \<open>2 ^ 64\<close>, and the one checked multiplication is written out
  with that bound.
\<close>

type_synonym byte = "8 word"
type_synonym bytes = "byte list"
type_synonym u16 = "16 word"
type_synonym u32 = "32 word"
type_synonym u64 = "64 word"
type_synonym u128 = "128 word"

named_theorems codec_simps \<open>equations that evaluate encoders and decoders\<close>
named_theorems len_simps \<open>lengths of encoded byte strings\<close>

subsection \<open>Integers as byte strings\<close>

text \<open>
  \<open>to_le n v\<close> is the little-endian byte string of \<open>v mod 256 ^ n\<close>, \<open>from_le bs\<close> the number a
  little-endian byte string stands for. The fixed-width conversions of Rust are instances.
\<close>

primrec to_le :: "nat \<Rightarrow> nat \<Rightarrow> bytes" where
  "to_le 0 v = []"
| "to_le (Suc n) v = word_of_nat v # to_le n (v div 256)"

primrec from_le :: "bytes \<Rightarrow> nat" where
  "from_le [] = 0"
| "from_le (b # bs) = unat b + 256 * from_le bs"

definition to_be :: "nat \<Rightarrow> nat \<Rightarrow> bytes" where
  "to_be n v = rev (to_le n v)"

definition from_be :: "bytes \<Rightarrow> nat" where
  "from_be bs = from_le (rev bs)"

definition u16_to_le_bytes :: "u16 \<Rightarrow> bytes" where
  "u16_to_le_bytes w = to_le 2 (unat w)"

definition u32_to_le_bytes :: "u32 \<Rightarrow> bytes" where
  "u32_to_le_bytes w = to_le 4 (unat w)"

definition u64_to_le_bytes :: "u64 \<Rightarrow> bytes" where
  "u64_to_le_bytes w = to_le 8 (unat w)"

definition u16_to_be_bytes :: "u16 \<Rightarrow> bytes" where
  "u16_to_be_bytes w = to_be 2 (unat w)"

definition u32_to_be_bytes :: "u32 \<Rightarrow> bytes" where
  "u32_to_be_bytes w = to_be 4 (unat w)"

definition u128_to_be_bytes :: "u128 \<Rightarrow> bytes" where
  "u128_to_be_bytes w = to_be 16 (unat w)"

definition u16_from_le_bytes :: "bytes \<Rightarrow> u16" where
  "u16_from_le_bytes bs = word_of_nat (from_le bs)"

definition u32_from_le_bytes :: "bytes \<Rightarrow> u32" where
  "u32_from_le_bytes bs = word_of_nat (from_le bs)"

definition u64_from_le_bytes :: "bytes \<Rightarrow> u64" where
  "u64_from_le_bytes bs = word_of_nat (from_le bs)"

definition u16_from_be_bytes :: "bytes \<Rightarrow> u16" where
  "u16_from_be_bytes bs = word_of_nat (from_be bs)"

definition u128_from_be_bytes :: "bytes \<Rightarrow> u128" where
  "u128_from_be_bytes bs = word_of_nat (from_be bs)"

lemma length_to_le [simp, len_simps]: "length (to_le n v) = n"
  by (induction n arbitrary: v) auto

lemma length_to_be [simp, len_simps]: "length (to_be n v) = n"
  by (simp add: to_be_def)

lemma length_int_bytes [simp, len_simps]:
  "length (u16_to_le_bytes a) = 2" "length (u32_to_le_bytes b) = 4"
  "length (u64_to_le_bytes c) = 8" "length (u16_to_be_bytes a) = 2"
  "length (u32_to_be_bytes b) = 4" "length (u128_to_be_bytes d) = 16"
  by (simp_all add: u16_to_le_bytes_def u32_to_le_bytes_def u64_to_le_bytes_def
      u16_to_be_bytes_def u32_to_be_bytes_def u128_to_be_bytes_def)

lemma byte_bound: "unat (b :: byte) < 256"
  using unsigned_less [of b] by simp

lemma from_le_bound: "from_le bs < 256 ^ length bs"
proof (induction bs)
  case Nil
  then show ?case by simp
next
  case (Cons b bs)
  have "unat b < 256"
    using byte_bound [of b] by simp
  moreover have "256 * Suc (from_le bs) \<le> 256 * 256 ^ length bs"
    using Cons.IH by (intro mult_le_mono2) simp
  ultimately show ?case by simp
qed

lemma from_le_to_le: "from_le (to_le n v) = v mod 256 ^ n"
proof (induction n arbitrary: v)
  case 0
  then show ?case by simp
next
  case (Suc n)
  have "unat (word_of_nat v :: byte) = v mod 256"
    by (simp add: unat_of_nat)
  then have "from_le (to_le (Suc n) v) = v mod 256 + 256 * (v div 256 mod 256 ^ n)"
    by (simp add: Suc.IH)
  also have "\<dots> = v mod (256 * 256 ^ n)"
    by (simp add: mod_mult2_eq)
  finally show ?case by simp
qed

lemma to_le_from_le: "length bs = n \<Longrightarrow> to_le n (from_le bs) = bs"
proof (induction bs arbitrary: n)
  case Nil
  then show ?case by simp
next
  case (Cons b bs)
  have b: "unat b < 256"
    using byte_bound [of b] by simp
  have "word_of_nat (unat b + 256 * from_le bs) = (b :: byte)"
    using b by (simp add: word_unat_eq_iff unat_of_nat del: of_nat_add of_nat_mult)
  moreover have "(unat b + 256 * from_le bs) div 256 = from_le bs"
    using b by simp
  ultimately show ?case
    using Cons by (cases n) auto
qed

lemma from_le_to_le_small: "v < 256 ^ n \<Longrightarrow> from_le (to_le n v) = v"
  by (simp add: from_le_to_le)

lemma from_be_to_be: "from_be (to_be n v) = v mod 256 ^ n"
  by (simp add: from_be_def to_be_def from_le_to_le)

lemma from_be_bound: "from_be bs < 256 ^ length bs"
  using from_le_bound [of "rev bs"] by (simp add: from_be_def)

lemma to_be_from_be: "length bs = n \<Longrightarrow> to_be n (from_be bs) = bs"
  by (simp add: to_be_def from_be_def to_le_from_le)


lemma numeral_4: "(4::nat) = Suc (Suc (Suc (Suc 0)))"
  by simp

text \<open>Explicit bytes, for evaluating concrete encodings.\<close>

lemma to_le_explicit:
  "to_le 1 v = [word_of_nat v]"
  "to_le 2 v = [word_of_nat v, word_of_nat (v div 256)]"
  "to_le 3 v = [word_of_nat v, word_of_nat (v div 256), word_of_nat (v div 256 div 256)]"
  "to_le 4 v = [word_of_nat v, word_of_nat (v div 256), word_of_nat (v div 256 div 256),
     word_of_nat (v div 256 div 256 div 256)]"
  by (simp_all only: numeral_2_eq_2 numeral_3_eq_3 numeral_4 One_nat_def to_le.simps)

lemma unat_from_le_bytes [simp]:
  "length bs = 2 \<Longrightarrow> unat (u16_from_le_bytes bs) = from_le bs"
  "length bs = 4 \<Longrightarrow> unat (u32_from_le_bytes bs) = from_le bs"
  "length bs = 8 \<Longrightarrow> unat (u64_from_le_bytes bs) = from_le bs"
  using from_le_bound [of bs]
  by (simp_all add: u16_from_le_bytes_def u32_from_le_bytes_def u64_from_le_bytes_def
      unat_of_nat)

lemma unat_from_be_bytes [simp]:
  "length bs = 2 \<Longrightarrow> unat (u16_from_be_bytes bs) = from_be bs"
  "length bs = 16 \<Longrightarrow> unat (u128_from_be_bytes bs) = from_be bs"
  using from_be_bound [of bs]
  by (simp_all add: u16_from_be_bytes_def u128_from_be_bytes_def unat_of_nat)

lemma word_bound:
  "unat (a :: u16) < 256 ^ 2" "unat (b :: u32) < 256 ^ 4" "unat (c :: u64) < 256 ^ 8"
  "unat (d :: u128) < 256 ^ 16"
  using unsigned_less [of a] unsigned_less [of b] unsigned_less [of c] unsigned_less [of d]
  by simp_all

lemma int_bytes_roundtrip [simp, codec_simps]:
  "u16_from_le_bytes (u16_to_le_bytes a) = a" "u32_from_le_bytes (u32_to_le_bytes b) = b"
  "u64_from_le_bytes (u64_to_le_bytes c) = c" "u16_from_be_bytes (u16_to_be_bytes a) = a"
  "u128_from_be_bytes (u128_to_be_bytes d) = d"
  using word_bound(1) [of a] word_bound(2) [of b] word_bound(3) [of c] word_bound(4) [of d]
  by (simp_all add: u16_from_le_bytes_def u32_from_le_bytes_def u64_from_le_bytes_def
      u16_from_be_bytes_def u128_from_be_bytes_def u16_to_le_bytes_def u32_to_le_bytes_def
      u64_to_le_bytes_def u16_to_be_bytes_def u128_to_be_bytes_def from_le_to_le
      from_be_to_be)

lemma int_bytes_roundtrip':
  "length bs = 2 \<Longrightarrow> u16_to_le_bytes (u16_from_le_bytes bs) = bs"
  "length bs = 4 \<Longrightarrow> u32_to_le_bytes (u32_from_le_bytes bs) = bs"
  "length bs = 8 \<Longrightarrow> u64_to_le_bytes (u64_from_le_bytes bs) = bs"
  "length bs = 2 \<Longrightarrow> u16_to_be_bytes (u16_from_be_bytes bs) = bs"
  "length bs = 16 \<Longrightarrow> u128_to_be_bytes (u128_from_be_bytes bs) = bs"
  by (simp_all add: u16_to_le_bytes_def u32_to_le_bytes_def u64_to_le_bytes_def
      u16_to_be_bytes_def u128_to_be_bytes_def to_le_from_le to_be_from_be)

text \<open>Setting a flag bit above a length, as the QuickACK flag does, and reading the two back.\<close>

lemma and_pow_zero: "n < 2 ^ k \<Longrightarrow> word_of_nat n AND (2 ^ k :: 'a::len word) = 0"
proof (rule bit_eqI)
  fix i
  assume n: "n < 2 ^ k" and "possible_bit TYPE('a word) i"
  have "\<not> bit n k" using n by (simp add: bit_iff_odd)
  then show "bit (word_of_nat n AND (2 ^ k :: 'a word)) i = bit (0 :: 'a word) i"
    unfolding bit_and_iff bit_exp_iff by (auto simp: bit_simps)
qed

lemma unat_or_pow:
  assumes "k < LENGTH('a::len)" "n < 2 ^ k"
  shows "unat (word_of_nat n OR (2 ^ k :: 'a word)) = n + 2 ^ k"
proof -
  have "word_of_nat n OR (2 ^ k :: 'a word) = word_of_nat n + 2 ^ k"
    using word_plus_and_or [of "word_of_nat n" "2 ^ k :: 'a word"] and_pow_zero [OF assms(2), where 'a = 'a]
    by (simp only: add_0)
  also have "\<dots> = word_of_nat (n + 2 ^ k)" by simp
  also have "unat \<dots> = n + 2 ^ k"
  proof -
    have "n + 2 ^ k < 2 * 2 ^ k" using assms(2) by simp
    also have "2 * 2 ^ k = (2::nat) ^ Suc k" by simp
    also have "\<dots> \<le> 2 ^ LENGTH('a)" using assms(1) by (intro power_increasing) auto
    finally show ?thesis by (simp only: unat_of_nat mod_less)
  qed
  finally show ?thesis .
qed

lemma unat_or_top_bit: "n < 2 ^ 31 \<Longrightarrow> unat (word_of_nat n OR (0x80000000 :: u32)) = n + 2 ^ 31"
  using unat_or_pow [where 'a = 32, of 31 n] by simp

lemma header_byte:
  assumes "n < 0x80"
  shows "unat ((word_of_nat n :: byte) AND 0x7f) = n" "\<not> 0x80 \<le> (word_of_nat n :: byte)"
    "unat (((word_of_nat n :: byte) OR 0x80) AND 0x7f) = n" "0x80 \<le> (word_of_nat n :: byte) OR 0x80"
proof -
  have m: "(0x7f :: byte) = mask 7" by (simp add: mask_eq_exp_minus_1)
  show a: "unat ((word_of_nat n :: byte) AND 0x7f) = n"
  proof -
    have "unat ((word_of_nat n :: byte) AND mask 7) = take_bit 7 (unat (word_of_nat n :: byte))"
      by (simp add: unsigned_take_bit_eq flip: take_bit_eq_mask)
    also have "\<dots> = n"
      using assms by (simp add: unat_of_nat take_bit_nat_def)
    finally show ?thesis unfolding m .
  qed
  show "\<not> 0x80 \<le> (word_of_nat n :: byte)"
    using assms by (simp add: word_le_nat_alt unat_of_nat)
  have "((word_of_nat n :: byte) OR 0x80) AND 0x7f = (word_of_nat n AND 0x7f) OR (0x80 AND 0x7f)"
    by (rule bit.conj_disj_distrib2)
  then show "unat (((word_of_nat n :: byte) OR 0x80) AND 0x7f) = n"
    using a by simp
  show "0x80 \<le> (word_of_nat n :: byte) OR 0x80"
    using unat_or_pow [where 'a = 8, of 7 n] assms by (simp add: word_le_nat_alt)
qed
subsection \<open>Slices\<close>

text \<open>\<open>subslice xs i j\<close> is \<open>&xs[i..j]\<close> where it is in range, \<open>put xs i ys\<close> is
  \<open>xs[i..i + ys.len()].copy_from_slice(&ys)\<close>, \<open>chunks n xs\<close> the iterator \<open>xs.chunks(n)\<close>.\<close>

definition subslice :: "'a list \<Rightarrow> nat \<Rightarrow> nat \<Rightarrow> 'a list" where
  "subslice xs i j = take (j - i) (drop i xs)"

definition put :: "'a list \<Rightarrow> nat \<Rightarrow> 'a list \<Rightarrow> 'a list" where
  "put xs i ys = take i xs @ ys @ drop (i + length ys) xs"

fun chunks :: "nat \<Rightarrow> 'a list \<Rightarrow> 'a list list" where
  "chunks n xs = (if n = 0 \<or> xs = [] then [] else take n xs # chunks n (drop n xs))"

declare chunks.simps [simp del]

lemma length_subslice: "j \<le> length xs \<Longrightarrow> length (subslice xs i j) = j - i"
  by (simp add: subslice_def)

lemma length_put [simp]: "i + length ys \<le> length xs \<Longrightarrow> length (put xs i ys) = length xs"
  by (simp add: put_def)

lemma subslice_put_same: "i + length ys \<le> length xs \<Longrightarrow> subslice (put xs i ys) i (i + length ys) = ys"
  by (simp add: subslice_def put_def)

lemma take_drop_append [simp]:
  "take n (drop i xs) @ drop (n + i) xs = drop i xs" "take n (drop i xs) @ drop (i + n) xs = drop i xs"
  by (metis append_take_drop_id drop_drop) (metis append_take_drop_id drop_drop add.commute)

lemma append_same_length: "xs @ ys = zs \<Longrightarrow> length xs = length zs \<Longrightarrow> xs = zs \<and> ys = []"
  by (auto simp: append_eq_conv_conj)

text \<open>Writing and reading fields of a record that is laid out as a concatenation.\<close>

lemma put_append: "length xs \<le> i \<Longrightarrow> put (xs @ ys) i zs = xs @ put ys (i - length xs) zs"
  by (simp add: put_def)

lemma put_replicate: "put (replicate n z) 0 zs = zs @ replicate (n - length zs) z"
  by (simp add: put_def)

lemma subslice_skip: "length xs \<le> i \<Longrightarrow> subslice (xs @ ys) i j = subslice ys (i - length xs) (j - length xs)"
  by (simp add: subslice_def)

lemma subslice_head: "length xs = j \<Longrightarrow> subslice (xs @ ys) 0 j = xs" "length xs = j \<Longrightarrow> subslice xs 0 j = xs"
  by (simp_all add: subslice_def)



lemma chunks_append:
  "0 < n \<Longrightarrow> length xs = n * k \<Longrightarrow> chunks n (xs @ ys) = chunks n xs @ chunks n ys"
proof (induction k arbitrary: xs)
  case 0
  then show ?case by (simp add: chunks.simps [of n "[]"])
next
  case (Suc k)
  then have ne: "xs \<noteq> []" and len: "n \<le> length xs" by auto
  have "chunks n (drop n xs @ ys) = chunks n (drop n xs) @ chunks n ys"
    using Suc by simp
  with ne len Suc.prems(1) show ?case
    by (subst (1 2) chunks.simps) simp
qed

lemma chunks_exact:
  "0 < n \<Longrightarrow> n dvd length xs \<Longrightarrow> c \<in> set (chunks n xs) \<Longrightarrow> length c = n"
proof (induction n xs rule: chunks.induct)
  case (1 n xs)
  show ?case
  proof (cases "xs = []")
    case True
    with 1 show ?thesis by (simp add: chunks.simps)
  next
    case False
    then have len: "n \<le> length xs"
      using 1 by (simp add: dvd_imp_le)
    then have "n dvd length (drop n xs)"
      using 1 by (simp add: dvd_diff_nat)
    with 1 False len show ?thesis
      by (subst (asm) (2) chunks.simps) auto
  qed
qed

lemma concat_chunks: "0 < n \<Longrightarrow> concat (chunks n xs) = xs"
proof (induction n xs rule: chunks.induct)
  case (1 n xs)
  then show ?case
    by (cases "xs = []") (simp_all add: chunks.simps [of n xs] chunks.simps [of n "[]"])
qed

subsection \<open>Addresses\<close>

text \<open>\<open>std::net\<close> addresses: an IPv4 address is 32 bits, an IPv6 address 128 bits, both read
  through their octets in network order.\<close>

datatype ip_addr = IpV4 u32 | IpV6 u128

datatype socket_addr = SocketAddr (sa_ip: ip_addr) (sa_port: u16)

definition v4_octets :: "u32 \<Rightarrow> bytes" where
  "v4_octets a = u32_to_be_bytes a"

definition v4_of_octets :: "bytes \<Rightarrow> u32" where
  "v4_of_octets bs = word_of_nat (from_be bs)"

definition v6_octets :: "u128 \<Rightarrow> bytes" where
  "v6_octets a = u128_to_be_bytes a"

definition v6_of_octets :: "bytes \<Rightarrow> u128" where
  "v6_of_octets bs = u128_from_be_bytes bs"

lemma length_octets [simp, len_simps]: "length (v4_octets a) = 4" "length (v6_octets b) = 16"
  by (simp_all add: v4_octets_def v6_octets_def)

lemma octets_roundtrip [simp, codec_simps]:
  "v4_of_octets (v4_octets a) = a" "v6_of_octets (v6_octets b) = b"
  using word_bound(2) [of a]
  by (simp_all add: v4_of_octets_def v4_octets_def v6_of_octets_def v6_octets_def
      u32_to_be_bytes_def from_be_to_be)

subsection \<open>I/O errors and polls\<close>

text \<open>
  An \<open>io::Error\<close> is its \<open>ErrorKind\<close> together with the message: the format string of the source
  and the numbers it is applied to. \<open>io::Result\<close> is a sum with the error on the left.
\<close>

datatype error_kind =
    InvalidData | InvalidInput | UnexpectedEof | WriteZero | WouldBlock | Interrupted | TimedOut
  | BrokenPipe | ConnectionReset | ConnectionAborted | NotConnected | OutOfMemory | OtherKind

datatype message = Msg string "nat list"

datatype io_error = IoError (kind: error_kind) (io_msg: message)

type_synonym 'a io_result = "io_error + 'a"

text \<open>\<open>std::task::Poll\<close>.\<close>

datatype 'a poll = Pending | Ready 'a

abbreviation io_err :: "error_kind \<Rightarrow> string \<Rightarrow> nat list \<Rightarrow> io_error" where
  "io_err k m ns \<equiv> IoError k (Msg m ns)"

end
