(* ===== verification/Errors.thy ===== *)
theory Errors
  imports Prelude
begin

section \<open>Error types of the proxy (\<open>error.rs\<close>)\<close>

text \<open>
  The error enumerations of \<open>src/error.rs\<close>: \<open>StreamError\<close>, \<open>ProxyError\<close> and the three-way
  \<open>HandshakeResult\<close>, with the \<open>Recoverable\<close> trait that classifies them and the conversions
  between them. Messages are format strings with their numeric arguments.
\<close>

datatype stream_error =
    PartialRead nat nat
  | PartialWrite nat nat
  | StreamPoisoned message
  | BufferOverflow nat nat
  | InvalidFrame message
  | StreamUnexpectedEof
  | StreamIo io_error

datatype proxy_error =
    Crypto message
  | InvalidKeyLength nat nat
  | Stream stream_error
  | InvalidHandshake message
  | InvalidProtoTag bytes
  | InvalidTlsRecord byte bytes
  | ReplayAttack socket_addr
  | TimeSkew u32 u32
  | InvalidMessageLength nat nat nat
  | ChecksumMismatch u32 u32
  | SeqNoMismatch int int
  | TlsHandshakeFailed message
  | TgHandshakeTimeout
  | ConnectionTimeout string
  | ConnectionRefused string
  | ProxyIo io_error
  | InvalidProxyProtocol
  | ProxyMsg message
  | Config message
  | InvalidSecret string message
  | UserExpired string
  | ConnectionLimitExceeded string
  | DataQuotaExceeded string
  | UnknownUser
  | RateLimited
  | Internal message

type_synonym 'a result = "proxy_error + 'a"

datatype ('t, 'r, 'w) handshake_result =
  HsSuccess 't | HsBadClient 'r 'w | HsError proxy_error

text \<open>\<open>impl Recoverable for std::io::Error\<close>.\<close>

definition io_is_recoverable :: "io_error \<Rightarrow> bool" where
  "io_is_recoverable e \<longleftrightarrow> kind e \<in> {WouldBlock, Interrupted, TimedOut}"

definition io_can_continue :: "io_error \<Rightarrow> bool" where
  "io_can_continue e \<longleftrightarrow>
     kind e \<notin> {BrokenPipe, ConnectionReset, ConnectionAborted, NotConnected}"

text \<open>\<open>impl Recoverable for StreamError\<close>.\<close>

fun stream_is_recoverable :: "stream_error \<Rightarrow> bool" where
  "stream_is_recoverable (PartialRead _ _) = True"
| "stream_is_recoverable (PartialWrite _ _) = True"
| "stream_is_recoverable (StreamIo e) = (kind e \<in> {WouldBlock, Interrupted, TimedOut})"
| "stream_is_recoverable (StreamPoisoned _) = False"
| "stream_is_recoverable (BufferOverflow _ _) = False"
| "stream_is_recoverable (InvalidFrame _) = False"
| "stream_is_recoverable StreamUnexpectedEof = False"

fun stream_can_continue :: "stream_error \<Rightarrow> bool" where
  "stream_can_continue (StreamPoisoned _) = False"
| "stream_can_continue StreamUnexpectedEof = False"
| "stream_can_continue (BufferOverflow _ _) = False"
| "stream_can_continue _ = True"

text \<open>\<open>impl From<StreamError> for std::io::Error\<close>. The new error carries the stream error as its
  payload; its message is the one \<open>Display\<close> prints.\<close>

fun stream_error_display :: "stream_error \<Rightarrow> message" where
  "stream_error_display (PartialRead e g) = Msg ''partial read: expected {} bytes, got {}'' [e, g]"
| "stream_error_display (PartialWrite e w) = Msg ''partial write: expected {} bytes, wrote {}'' [e, w]"
| "stream_error_display (StreamPoisoned (Msg r ns)) = Msg (''stream poisoned: '' @ r) ns"
| "stream_error_display (BufferOverflow l a) = Msg ''buffer overflow: limit {}, attempted {}'' [l, a]"
| "stream_error_display (InvalidFrame (Msg d ns)) = Msg (''invalid frame: '' @ d) ns"
| "stream_error_display StreamUnexpectedEof = Msg ''unexpected end of stream'' []"
| "stream_error_display (StreamIo (IoError k (Msg m ns))) = Msg (''I/O error: '' @ m) ns"

fun io_error_of_stream :: "stream_error \<Rightarrow> io_error" where
  "io_error_of_stream (StreamIo e) = e"
| "io_error_of_stream StreamUnexpectedEof =
     IoError UnexpectedEof (stream_error_display StreamUnexpectedEof)"
| "io_error_of_stream (StreamPoisoned r) =
     IoError OtherKind (stream_error_display (StreamPoisoned r))"
| "io_error_of_stream (BufferOverflow l a) =
     IoError OutOfMemory (stream_error_display (BufferOverflow l a))"
| "io_error_of_stream (InvalidFrame d) =
     IoError InvalidData (stream_error_display (InvalidFrame d))"
| "io_error_of_stream (PartialRead e g) =
     IoError OtherKind (stream_error_display (PartialRead e g))"
| "io_error_of_stream (PartialWrite e w) =
     IoError OtherKind (stream_error_display (PartialWrite e w))"

text \<open>\<open>impl Recoverable for ProxyError\<close>.\<close>

fun proxy_is_recoverable :: "proxy_error \<Rightarrow> bool" where
  "proxy_is_recoverable (Stream e) = stream_is_recoverable e"
| "proxy_is_recoverable (ProxyIo e) = io_is_recoverable e"
| "proxy_is_recoverable (ConnectionTimeout _) = True"
| "proxy_is_recoverable RateLimited = True"
| "proxy_is_recoverable _ = False"

fun proxy_can_continue :: "proxy_error \<Rightarrow> bool" where
  "proxy_can_continue (Stream e) = stream_can_continue e"
| "proxy_can_continue (ProxyIo e) = io_can_continue e"
| "proxy_can_continue _ = False"

text \<open>\<open>HandshakeResult\<close> and its helpers.\<close>

fun hs_is_success :: "('t, 'r, 'w) handshake_result \<Rightarrow> bool" where
  "hs_is_success (HsSuccess _) = True"
| "hs_is_success _ = False"

fun hs_is_bad_client :: "('t, 'r, 'w) handshake_result \<Rightarrow> bool" where
  "hs_is_bad_client (HsBadClient _ _) = True"
| "hs_is_bad_client _ = False"

fun hs_map :: "('t \<Rightarrow> 'u) \<Rightarrow> ('t, 'r, 'w) handshake_result \<Rightarrow> ('u, 'r, 'w) handshake_result" where
  "hs_map f (HsSuccess v) = HsSuccess (f v)"
| "hs_map f (HsBadClient r w) = HsBadClient r w"
| "hs_map f (HsError e) = HsError e"

text \<open>Wrapping an I/O error in a stream error never changes how it is classified as
  recoverable, and an error that may be retried never forbids continuing.\<close>

lemma stream_io_recoverable: "stream_is_recoverable (StreamIo e) = io_is_recoverable e"
  by (simp add: io_is_recoverable_def)

lemma recoverable_can_continue:
  "stream_is_recoverable e \<Longrightarrow> stream_can_continue e"
  by (cases e) auto

lemma proxy_recoverable_can_continue:
  "proxy_is_recoverable e \<Longrightarrow> proxy_can_continue e \<or> e = RateLimited \<or> (\<exists>a. e = ConnectionTimeout a)"
  by (cases e) (auto simp: recoverable_can_continue io_is_recoverable_def io_can_continue_def)

end
