(* ===== verification/Aes.thy ===== *)
theory Aes
  imports Errors
begin

section \<open>AES-CTR and AES-CBC (\<open>crypto/aes.rs\<close>)\<close>

text \<open>
  The block cipher and the CTR keystream come from the crates \<open>aes\<close> and \<open>ctr\<close> and are
  parameters here: \<open>ks key iv i\<close> is byte \<open>i\<close> of the CTR keystream, \<open>E key\<close> and \<open>D key\<close>
  encrypt and decrypt one 16-byte block. What the code relies on of the block cipher is
  \<open>block_cipher_ok\<close>. The chaining, the padding checks, the in-place loops and the key
  length checks are the program's own and are written out.
\<close>

subsection \<open>AES-256-CTR\<close>

text \<open>The opaque \<open>Aes256Ctr\<close> object: its keystream and how far it has been consumed.\<close>

record aes_ctr =
  keystream :: "nat \<Rightarrow> byte"
  ctr_pos :: nat

type_synonym ctr_cipher = "bytes \<Rightarrow> bytes \<Rightarrow> nat \<Rightarrow> byte"

definition aes_ctr_new :: "ctr_cipher \<Rightarrow> bytes \<Rightarrow> u128 \<Rightarrow> aes_ctr" where
  "aes_ctr_new ks key iv = \<lparr>keystream = ks key (u128_to_be_bytes iv), ctr_pos = 0\<rparr>"

definition aes_ctr_from_key_iv :: "ctr_cipher \<Rightarrow> bytes \<Rightarrow> bytes \<Rightarrow> aes_ctr result" where
  "aes_ctr_from_key_iv ks key iv =
     (if length key \<noteq> 32 then Inl (InvalidKeyLength 32 (length key))
      else if length iv \<noteq> 16 then Inl (InvalidKeyLength 16 (length iv))
      else Inr (aes_ctr_new ks key (u128_from_be_bytes iv)))"

text \<open>\<open>apply\<close> XORs the data with the next keystream bytes and advances the position.\<close>

definition aes_ctr_apply :: "aes_ctr \<Rightarrow> bytes \<Rightarrow> bytes \<times> aes_ctr" where
  "aes_ctr_apply c xs =
     (map2 (XOR) xs (map (keystream c) [ctr_pos c ..< ctr_pos c + length xs]),
      c\<lparr>ctr_pos := ctr_pos c + length xs\<rparr>)"

definition aes_ctr_encrypt :: "aes_ctr \<Rightarrow> bytes \<Rightarrow> bytes \<times> aes_ctr" where
  "aes_ctr_encrypt c xs = aes_ctr_apply c xs"

definition aes_ctr_decrypt :: "aes_ctr \<Rightarrow> bytes \<Rightarrow> bytes \<times> aes_ctr" where
  "aes_ctr_decrypt c xs = aes_ctr_encrypt c xs"

text \<open>The \<open>PassthroughEncryptor\<close> of fast mode.\<close>

definition passthrough_encrypt :: "unit \<Rightarrow> bytes \<Rightarrow> bytes \<times> unit" where
  "passthrough_encrypt u xs = (xs, u)"

subsubsection \<open>The stream cipher contract\<close>

text \<open>
  Both encryptors of the \<open>Encryptor\<close>/\<open>Decryptor\<close> traits are length-preserving stream ciphers:
  applying the cipher to data in pieces is applying it to the whole, and a second cipher in
  the same state undoes it. The stream wrappers rely on exactly this.
\<close>

locale stream_cipher =
  fixes apply_c :: "'c \<Rightarrow> bytes \<Rightarrow> bytes \<times> 'c"
  assumes apply_length: "length (fst (apply_c c xs)) = length xs"
    and apply_append: "apply_c c (xs @ ys) =
      (let (a, c') = apply_c c xs; (b, c'') = apply_c c' ys in (a @ b, c''))"
    and apply_inverse: "fst (apply_c c (fst (apply_c c xs))) = xs"
    and apply_state: "length xs = length ys \<Longrightarrow> snd (apply_c c xs) = snd (apply_c c ys)"
begin

lemma apply_Nil: "apply_c c [] = ([], c')" if "snd (apply_c c []) = c'"
  using apply_length [of c "[]"] that by (cases "apply_c c []") auto

text \<open>Encrypting a message in any sequence of pieces gives the ciphertext of the whole.\<close>

primrec run :: "'c \<Rightarrow> bytes list \<Rightarrow> bytes list \<times> 'c" where
  "run c [] = ([], c)"
| "run c (p # ps) = (let (x, c') = apply_c c p; (xs, c'') = run c' ps in (x # xs, c''))"

lemma run_snd_append: "snd (apply_c c (xs @ ys)) = snd (apply_c (snd (apply_c c xs)) ys)"
  by (simp add: apply_append split: prod.splits)

lemma run_concat: "concat (fst (run c (p # ps))) = fst (apply_c c (p @ concat ps))"
proof (induction ps arbitrary: c p)
  case Nil
  then show ?case by (simp split: prod.splits)
next
  case (Cons q ps)
  have "concat (fst (run (snd (apply_c c p)) (q # ps))) =
    fst (apply_c (snd (apply_c c p)) (q @ concat ps))"
    by (rule Cons.IH)
  then show ?case
    by (simp add: apply_append [of c p] case_prod_unfold Let_def)
qed

lemma run_inverse:
  "fst (run c (fst (run c ps))) = ps"
proof (induction ps arbitrary: c)
  case Nil
  then show ?case by simp
next
  case (Cons p ps)
  have "snd (apply_c c (fst (apply_c c p))) = snd (apply_c c p)"
    by (rule apply_state) (simp add: apply_length)
  with Cons.IH [of "snd (apply_c c p)"] apply_inverse [of c p] show ?case
    by (simp add: case_prod_unfold Let_def)
qed

end

lemma xor_byte_self: "(a XOR b) XOR b = (a :: byte)"
  by (simp add: xor.assoc)

lemma aes_ctr_apply_length [simp]: "length (fst (aes_ctr_apply c xs)) = length xs"
  by (simp add: aes_ctr_apply_def)

lemma aes_ctr_apply_pos [simp]:
  "ctr_pos (snd (aes_ctr_apply c xs)) = ctr_pos c + length xs"
  "keystream (snd (aes_ctr_apply c xs)) = keystream c"
  by (simp_all add: aes_ctr_apply_def)

lemma aes_ctr_apply_append:
  "aes_ctr_apply c (xs @ ys) =
     (let (a, c') = aes_ctr_apply c xs; (b, c'') = aes_ctr_apply c' ys in (a @ b, c''))"
proof -
  let ?i = "ctr_pos c"
  have "[?i ..< ?i + (length xs + length ys)] =
    [?i ..< ?i + length xs] @ [?i + length xs ..< ?i + length xs + length ys]"
    using upt_add_eq_append [of ?i "?i + length xs" "length ys"] by (simp add: add.assoc)
  then show ?thesis
    by (simp add: aes_ctr_apply_def zip_append add.assoc)
qed

lemma map2_xor_self: "length xs = length ks \<Longrightarrow> map2 (XOR) (map2 (XOR) xs ks) ks = (xs :: bytes)"
  by (induction xs ks rule: list_induct2) (simp_all add: xor_byte_self)

lemma aes_ctr_apply_inverse: "fst (aes_ctr_apply c (fst (aes_ctr_apply c xs))) = xs"
  by (simp add: aes_ctr_apply_def map2_xor_self)

interpretation ctr: stream_cipher aes_ctr_apply
proof
  show "\<And>c xs. length (fst (aes_ctr_apply c xs)) = length xs"
    by simp
  show "\<And>c xs ys. aes_ctr_apply c (xs @ ys) =
     (let (a, c') = aes_ctr_apply c xs; (b, c'') = aes_ctr_apply c' ys in (a @ b, c''))"
    by (rule aes_ctr_apply_append)
  show "\<And>c xs. fst (aes_ctr_apply c (fst (aes_ctr_apply c xs))) = xs"
    by (rule aes_ctr_apply_inverse)
  show "\<And>xs ys c. length xs = length ys \<Longrightarrow> snd (aes_ctr_apply c xs) = snd (aes_ctr_apply c ys)"
    by (simp add: aes_ctr_apply_def)
qed

interpretation pass: stream_cipher passthrough_encrypt
  by unfold_locales (auto simp: passthrough_encrypt_def)


subsection \<open>AES-256-CBC\<close>

text \<open>One block of the underlying cipher: \<open>E key b\<close> and \<open>D key b\<close>.\<close>

type_synonym block_cipher = "bytes \<Rightarrow> bytes \<Rightarrow> bytes"

definition block_cipher_ok :: "block_cipher \<Rightarrow> block_cipher \<Rightarrow> bool" where
  "block_cipher_ok E D \<longleftrightarrow>
     (\<forall>k b. length k = 32 \<longrightarrow> length b = 16 \<longrightarrow>
        length (E k b) = 16 \<and> length (D k b) = 16 \<and> D k (E k b) = b \<and> E k (D k b) = b)"

record aes_cbc =
  cbc_key :: bytes
  cbc_iv :: bytes

definition aes_cbc_new :: "bytes \<Rightarrow> bytes \<Rightarrow> aes_cbc" where
  "aes_cbc_new key iv = \<lparr>cbc_key = key, cbc_iv = iv\<rparr>"

definition aes_cbc_from_slices :: "bytes \<Rightarrow> bytes \<Rightarrow> aes_cbc result" where
  "aes_cbc_from_slices key iv =
     (if length key \<noteq> 32 then Inl (InvalidKeyLength 32 (length key))
      else if length iv \<noteq> 16 then Inl (InvalidKeyLength 16 (length iv))
      else Inr \<lparr>cbc_key = key, cbc_iv = iv\<rparr>)"

text \<open>The type invariant of \<open>AesCbc\<close>: a 32-byte key and a 16-byte IV.\<close>

definition cbc_wf :: "aes_cbc \<Rightarrow> bool" where
  "cbc_wf c \<longleftrightarrow> length (cbc_key c) = 32 \<and> length (cbc_iv c) = 16"

definition xor_blocks :: "bytes \<Rightarrow> bytes \<Rightarrow> bytes" where
  "xor_blocks a b = map (\<lambda>i. a ! i XOR b ! i) [0 ..< 16]"

definition cbc_alignment_error :: "nat \<Rightarrow> proxy_error" where
  "cbc_alignment_error n = Crypto (Msg ''CBC data must be aligned to 16 bytes, got {}'' [n])"

text \<open>The loops of \<open>encrypt\<close> and \<open>decrypt\<close> over \<open>data.chunks(16)\<close>.\<close>

primrec cbc_encrypt_chunks :: "block_cipher \<Rightarrow> bytes \<Rightarrow> bytes \<Rightarrow> bytes list \<Rightarrow> bytes" where
  "cbc_encrypt_chunks E k prev [] = []"
| "cbc_encrypt_chunks E k prev (p # ps) =
     (let c = E k (xor_blocks p prev) in c @ cbc_encrypt_chunks E k c ps)"

primrec cbc_decrypt_chunks :: "block_cipher \<Rightarrow> bytes \<Rightarrow> bytes \<Rightarrow> bytes list \<Rightarrow> bytes" where
  "cbc_decrypt_chunks D k prev [] = []"
| "cbc_decrypt_chunks D k prev (c # cs) =
     xor_blocks (D k c) prev @ cbc_decrypt_chunks D k c cs"

definition aes_cbc_encrypt :: "block_cipher \<Rightarrow> aes_cbc \<Rightarrow> bytes \<Rightarrow> bytes result" where
  "aes_cbc_encrypt E c data =
     (if \<not> 16 dvd length data then Inl (cbc_alignment_error (length data))
      else if data = [] then Inr []
      else Inr (cbc_encrypt_chunks E (cbc_key c) (cbc_iv c) (chunks 16 data)))"

definition aes_cbc_decrypt :: "block_cipher \<Rightarrow> aes_cbc \<Rightarrow> bytes \<Rightarrow> bytes result" where
  "aes_cbc_decrypt D c data =
     (if \<not> 16 dvd length data then Inl (cbc_alignment_error (length data))
      else if data = [] then Inr []
      else Inr (cbc_decrypt_chunks D (cbc_key c) (cbc_iv c) (chunks 16 data)))"

text \<open>
  The in-place variants run an index over the buffer and overwrite one block at a time; the
  buffer is state. \<open>xor_prefix\<close> is the inner loop \<open>block[j] ^= prev[j]\<close>.
\<close>

definition xor_prefix :: "bytes \<Rightarrow> bytes \<Rightarrow> bytes" where
  "xor_prefix block prev = map2 (XOR) block prev"

function cbc_encrypt_loop :: "block_cipher \<Rightarrow> bytes \<Rightarrow> bytes \<Rightarrow> nat \<Rightarrow> bytes \<Rightarrow> bytes" where
  "cbc_encrypt_loop E k prev i data =
     (if i < length data then
        let block = xor_prefix (subslice data i (i + 16)) prev; c = E k block
        in if length c = 16 \<and> i + 16 \<le> length data
           then cbc_encrypt_loop E k c (i + 16) (put data i c) else data
      else data)"
  by pat_completeness auto
termination
  by (relation "measure (\<lambda>(E, k, prev, i, data). length data - i)") auto

function cbc_decrypt_loop :: "block_cipher \<Rightarrow> bytes \<Rightarrow> bytes \<Rightarrow> nat \<Rightarrow> bytes \<Rightarrow> bytes" where
  "cbc_decrypt_loop D k prev i data =
     (if i < length data then
        let c = subslice data i (i + 16); p = xor_prefix (D k c) prev
        in if length p = 16 \<and> i + 16 \<le> length data
           then cbc_decrypt_loop D k c (i + 16) (put data i p) else data
      else data)"
  by pat_completeness auto
termination
  by (relation "measure (\<lambda>(D, k, prev, i, data). length data - i)") auto

declare cbc_encrypt_loop.simps [simp del]
declare cbc_decrypt_loop.simps [simp del]

definition aes_cbc_encrypt_in_place :: "block_cipher \<Rightarrow> aes_cbc \<Rightarrow> bytes \<Rightarrow> bytes result" where
  "aes_cbc_encrypt_in_place E c data =
     (if \<not> 16 dvd length data then Inl (cbc_alignment_error (length data))
      else if data = [] then Inr []
      else Inr (cbc_encrypt_loop E (cbc_key c) (cbc_iv c) 0 data))"

definition aes_cbc_decrypt_in_place :: "block_cipher \<Rightarrow> aes_cbc \<Rightarrow> bytes \<Rightarrow> bytes result" where
  "aes_cbc_decrypt_in_place D c data =
     (if \<not> 16 dvd length data then Inl (cbc_alignment_error (length data))
      else if data = [] then Inr []
      else Inr (cbc_decrypt_loop D (cbc_key c) (cbc_iv c) 0 data))"


subsubsection \<open>Lemmas on blocks\<close>

lemma xor_blocks_map2: "length a = 16 \<Longrightarrow> length b = 16 \<Longrightarrow> xor_blocks a b = map2 (XOR) a b"
  by (rule nth_equalityI) (auto simp: xor_blocks_def)

lemma length_xor_blocks [simp, len_simps]: "length (xor_blocks a b) = 16"
  by (simp add: xor_blocks_def)

lemma xor_blocks_cancel:
  "length a = 16 \<Longrightarrow> length b = 16 \<Longrightarrow> xor_blocks (xor_blocks a b) b = a"
  by (simp add: xor_blocks_map2 map2_xor_self)

lemma block_cipher_okD:
  assumes "block_cipher_ok E D" "length k = 32" "length b = 16"
  shows "length (E k b) = 16" "length (D k b) = 16" "D k (E k b) = b" "E k (D k b) = b"
  using assms by (simp_all add: block_cipher_ok_def)

lemma chunks_block: "length b = 16 \<Longrightarrow> chunks 16 (b @ rest) = b # chunks 16 rest"
  by (subst chunks.simps) auto

lemma chunks_Nil [simp]: "chunks n [] = []"
  by (simp add: chunks.simps)

lemma cbc_encrypt_chunks_length:
  assumes "block_cipher_ok E D" "length k = 32"
  shows "length (cbc_encrypt_chunks E k prev ps) = 16 * length ps"
  by (induction ps arbitrary: prev) (simp_all add: Let_def block_cipher_okD [OF assms])

lemma cbc_decrypt_encrypt_chunks:
  assumes ok: "block_cipher_ok E D" "length k = 32"
  shows "length prev = 16 \<Longrightarrow> \<forall>p \<in> set ps. length p = 16 \<Longrightarrow>
    cbc_decrypt_chunks D k prev (chunks 16 (cbc_encrypt_chunks E k prev ps)) = concat ps"
proof (induction ps arbitrary: prev)
  case Nil
  then show ?case by simp
next
  case (Cons p ps)
  then show ?case
    by (simp add: Let_def chunks_block block_cipher_okD [OF ok] xor_blocks_cancel)
qed

lemma cbc_encrypt_decrypt_chunks:
  assumes ok: "block_cipher_ok E D" "length k = 32"
  shows "length prev = 16 \<Longrightarrow> \<forall>c \<in> set cs. length c = 16 \<Longrightarrow>
    cbc_encrypt_chunks E k prev (chunks 16 (cbc_decrypt_chunks D k prev cs)) = concat cs"
proof (induction cs arbitrary: prev)
  case Nil
  then show ?case by simp
next
  case (Cons c cs)
  then show ?case
    by (simp add: Let_def chunks_block block_cipher_okD [OF ok] xor_blocks_cancel)
qed

text \<open>Encryption of a longer message continues with the last ciphertext block as IV.\<close>

lemma cbc_encrypt_chunks_append:
  assumes ok: "block_cipher_ok E D" "length k = 32" and ne: "ps \<noteq> []"
  shows "cbc_encrypt_chunks E k prev (ps @ qs) = cbc_encrypt_chunks E k prev ps @
    cbc_encrypt_chunks E k (drop (16 * length ps - 16) (cbc_encrypt_chunks E k prev ps)) qs"
  using ne
proof (induction ps arbitrary: prev rule: list_nonempty_induct)
  case (single p)
  then show ?case by (simp add: Let_def)
next
  case (cons p ps)
  define c where "c = E k (xor_blocks p prev)"
  have "length c = 16" by (simp add: c_def block_cipher_okD [OF ok])
  moreover have "16 \<le> 16 * length ps" using cons.hyps(1) by (cases ps) auto
  ultimately show ?case
    using cons.IH [of c] by (simp add: Let_def flip: c_def)
qed

lemma cbc_decrypt_chunks_append:
  assumes "ps \<noteq> []"
  shows "cbc_decrypt_chunks D k prev (ps @ qs) =
    cbc_decrypt_chunks D k prev ps @ cbc_decrypt_chunks D k (last ps) qs"
  using assms by (induction ps arbitrary: prev rule: list_nonempty_induct) simp_all

text \<open>One step of the in-place loops, seen on the untouched prefix and the rest.\<close>

lemma put_at: "length c = 16 \<Longrightarrow> i + 16 \<le> length data \<Longrightarrow>
  take (i + 16) (put data i c) = take i data @ c \<and> drop (i + 16) (put data i c) = drop (i + 16) data"
  by (simp add: put_def)

lemma aligned_step:
  assumes "16 dvd length (drop i data)" "i < length data"
  shows "i + 16 \<le> length data" "length (subslice data i (i + 16)) = 16"
    "16 dvd length (drop (i + 16) data)"
    "chunks 16 (drop i data) = subslice data i (i + 16) # chunks 16 (drop (i + 16) data)"
proof -
  have "16 \<le> length (drop i data)"
    using assms by (intro dvd_imp_le) auto
  then show le: "i + 16 \<le> length data" by simp
  then show "length (subslice data i (i + 16)) = 16"
    by (simp add: subslice_def)
  have "length (drop (i + 16) data) = length (drop i data) - 16" by simp
  then show "16 dvd length (drop (i + 16) data)"
    using assms(1) by (simp only: dvd_diff_nat dvd_refl)
  show "chunks 16 (drop i data) = subslice data i (i + 16) # chunks 16 (drop (i + 16) data)"
    using assms(2) by (subst chunks.simps) (simp add: subslice_def add.commute)
qed

lemma cbc_encrypt_loop_eq:
  assumes ok: "block_cipher_ok E D" "length k = 32"
  shows "length prev = 16 \<Longrightarrow> 16 dvd length (drop i data) \<Longrightarrow>
    cbc_encrypt_loop E k prev i data =
      take i data @ cbc_encrypt_chunks E k prev (chunks 16 (drop i data))"
proof (induction "length data - i" arbitrary: prev i data rule: less_induct)
  case less
  show ?case
  proof (cases "i < length data")
    case True
    note st = aligned_step [OF less.prems(2) True]
    define c where "c = E k (xor_blocks (subslice data i (i + 16)) prev)"
    have x: "xor_prefix (subslice data i (i + 16)) prev = xor_blocks (subslice data i (i + 16)) prev"
      using st(2) less.prems(1) by (simp add: xor_prefix_def xor_blocks_map2)
    have c: "length c = 16"
      by (simp add: c_def block_cipher_okD [OF ok])
    have "cbc_encrypt_loop E k prev i data = cbc_encrypt_loop E k c (i + 16) (put data i c)"
      using True st(1) c by (subst cbc_encrypt_loop.simps) (simp add: x c_def Let_def)
    also have "\<dots> = take (i + 16) (put data i c) @
        cbc_encrypt_chunks E k c (chunks 16 (drop (i + 16) (put data i c)))"
      using True st c put_at [OF c st(1)] by (intro less.hyps) (auto simp del: length_drop)
    finally show ?thesis
      using put_at [OF c st(1)] by (simp add: st(4) Let_def c_def)
  next
    case False
    then show ?thesis by (simp add: cbc_encrypt_loop.simps)
  qed
qed

lemma cbc_decrypt_loop_eq:
  assumes ok: "block_cipher_ok E D" "length k = 32"
  shows "length prev = 16 \<Longrightarrow> 16 dvd length (drop i data) \<Longrightarrow>
    cbc_decrypt_loop D k prev i data =
      take i data @ cbc_decrypt_chunks D k prev (chunks 16 (drop i data))"
proof (induction "length data - i" arbitrary: prev i data rule: less_induct)
  case less
  show ?case
  proof (cases "i < length data")
    case True
    note st = aligned_step [OF less.prems(2) True]
    define c where "c = subslice data i (i + 16)"
    define p where "p = xor_blocks (D k c) prev"
    have x: "xor_prefix (D k c) prev = p"
      using st(2) less.prems(1)
      by (simp add: xor_prefix_def xor_blocks_map2 p_def c_def block_cipher_okD [OF ok])
    have p: "length p = 16" by (simp add: p_def)
    have "cbc_decrypt_loop D k prev i data = cbc_decrypt_loop D k c (i + 16) (put data i p)"
      using True st(1) p by (subst cbc_decrypt_loop.simps) (simp add: x Let_def flip: c_def)
    also have "\<dots> = take (i + 16) (put data i p) @
        cbc_decrypt_chunks D k c (chunks 16 (drop (i + 16) (put data i p)))"
      using True st p put_at [OF p st(1)]
      by (intro less.hyps) (auto simp: c_def simp del: length_drop)
    finally show ?thesis
      using put_at [OF p st(1)] by (simp add: st(4) p_def flip: c_def)
  next
    case False
    then show ?thesis by (simp add: cbc_decrypt_loop.simps)
  qed
qed

subsection \<open>Correctness of CBC\<close>

lemma aes_cbc_encrypt_in_place_eq:
  assumes "block_cipher_ok E D" "cbc_wf c"
  shows "aes_cbc_encrypt_in_place E c data = aes_cbc_encrypt E c data"
  using assms cbc_encrypt_loop_eq [of E D "cbc_key c" "cbc_iv c" 0 data]
  by (simp add: aes_cbc_encrypt_in_place_def aes_cbc_encrypt_def cbc_wf_def)

lemma aes_cbc_decrypt_in_place_eq:
  assumes "block_cipher_ok E D" "cbc_wf c"
  shows "aes_cbc_decrypt_in_place D c data = aes_cbc_decrypt D c data"
  using assms cbc_decrypt_loop_eq [of E D "cbc_key c" "cbc_iv c" 0 data]
  by (simp add: aes_cbc_decrypt_in_place_def aes_cbc_decrypt_def cbc_wf_def)

lemma aes_cbc_encrypt_Inr:
  "16 dvd length data \<Longrightarrow> aes_cbc_encrypt E c data =
     Inr (cbc_encrypt_chunks E (cbc_key c) (cbc_iv c) (chunks 16 data))"
  by (simp add: aes_cbc_encrypt_def)

lemma aes_cbc_decrypt_Inr:
  "16 dvd length data \<Longrightarrow> aes_cbc_decrypt D c data =
     Inr (cbc_decrypt_chunks D (cbc_key c) (cbc_iv c) (chunks 16 data))"
  by (simp add: aes_cbc_decrypt_def)

lemma length_chunks: "16 dvd length data \<Longrightarrow> 16 * length (chunks 16 data) = length data"
proof -
  assume al: "16 dvd length data"
  have "length (concat (chunks 16 data)) = 16 * length (chunks 16 data)"
    using chunks_exact [OF _ al] by (simp add: length_concat sum_list_triv cong: map_cong)
  then show ?thesis by (simp add: concat_chunks)
qed

text \<open>C23: AES-CBC decryption inverts encryption: for every 16-byte aligned message and every
  well-formed cipher, encrypting succeeds with a ciphertext of the same length and decrypting
  the ciphertext with the same key and IV gives the message back.\<close>

theorem aes_cbc_roundtrip:
  assumes "block_cipher_ok E D" and "cbc_wf c" and "16 dvd length data"
  shows "\<exists>ct. aes_cbc_encrypt E c data = Inr ct \<and> length ct = length data \<and>
    aes_cbc_decrypt D c ct = Inr data"
proof -
  let ?k = "cbc_key c" and ?iv = "cbc_iv c"
  let ?ct = "cbc_encrypt_chunks E ?k ?iv (chunks 16 data)"
  have k: "length ?k = 32" and iv: "length ?iv = 16"
    using assms(2) by (simp_all add: cbc_wf_def)
  have blk: "\<forall>p \<in> set (chunks 16 data). length p = 16"
    using chunks_exact [OF _ assms(3)] by simp
  have len: "length ?ct = length data"
    by (simp add: cbc_encrypt_chunks_length [OF assms(1) k] length_chunks [OF assms(3)])
  with assms(3) have "aes_cbc_decrypt D c ?ct = Inr data"
    using cbc_decrypt_encrypt_chunks [OF assms(1) k iv blk]
    by (simp add: aes_cbc_decrypt_Inr concat_chunks)
  with len show ?thesis by (simp add: aes_cbc_encrypt_Inr [OF assms(3)])
qed

text \<open>The in-place CBC loops, which overwrite the caller's buffer one block at a time, compute
  exactly what the copying loops compute, on every input (misaligned ones included), both for
  encryption and for decryption.\<close>

theorem aes_cbc_in_place_equiv:
  assumes "block_cipher_ok E D" and "cbc_wf c"
  shows "aes_cbc_encrypt_in_place E c data = aes_cbc_encrypt E c data \<and>
    aes_cbc_decrypt_in_place D c data = aes_cbc_decrypt D c data"
  using assms by (simp add: aes_cbc_encrypt_in_place_eq [OF assms]
      aes_cbc_decrypt_in_place_eq [OF assms])


subsection \<open>Witnesses\<close>

text \<open>A concrete block cipher, for witnesses: XOR with the first half of the key.\<close>

definition xor_cipher :: block_cipher where
  "xor_cipher k b = map2 (XOR) b (take 16 k)"

lemma xor_cipher_ok: "block_cipher_ok xor_cipher xor_cipher"
  by (simp add: block_cipher_ok_def xor_cipher_def map2_xor_self)

theorem aes_cbc_roundtrip_witness:
  "\<exists>ct. aes_cbc_encrypt xor_cipher (aes_cbc_new (replicate 32 5) (replicate 16 1)) (replicate 32 7) = Inr ct \<and>
     length ct = length (replicate 32 (7 :: byte)) \<and>
     aes_cbc_decrypt xor_cipher (aes_cbc_new (replicate 32 5) (replicate 16 1)) ct = Inr (replicate 32 7)"
  by (rule aes_cbc_roundtrip [OF xor_cipher_ok]) (simp_all add: cbc_wf_def aes_cbc_new_def)

theorem aes_cbc_in_place_equiv_witness:
  "aes_cbc_encrypt_in_place xor_cipher (aes_cbc_new (replicate 32 5) (replicate 16 1)) (replicate 32 7) =
     aes_cbc_encrypt xor_cipher (aes_cbc_new (replicate 32 5) (replicate 16 1)) (replicate 32 7)"
  using aes_cbc_in_place_equiv [OF xor_cipher_ok,
      of "aes_cbc_new (replicate 32 5) (replicate 16 1)" "replicate 32 7"]
  by (simp add: cbc_wf_def aes_cbc_new_def)

end
