(* ===== verification/Secure_Random.thy ===== *)
theory Secure_Random
  imports Aes "HOL-Library.Multiset"
begin

section \<open>The random source (\<open>crypto/random.rs\<close>)\<close>

text \<open>
  \<open>SecureRandom\<close> wraps the generator \<open>StdRng\<close> of the \<open>rand\<close> crate, a parameter here: a state
  \<open>'r\<close> with \<open>fill_bytes r n\<close>, which overwrites every byte of an \<open>n\<close>-byte slice (byte \<open>i\<close> becomes
  \<open>f i\<close>), and \<open>gen_range r n\<close>, a draw from \<open>[0, n)\<close>. The bytes are whitened with an AES-CTR
  cipher and handed out from a 512-byte buffer.
\<close>

record 'r std_rng =
  fill_bytes :: "'r \<Rightarrow> nat \<Rightarrow> (nat \<Rightarrow> byte) \<times> 'r"
  gen_range :: "'r \<Rightarrow> nat \<Rightarrow> nat \<times> 'r"

definition std_rng_ok :: "'r std_rng \<Rightarrow> bool" where
  "std_rng_ok R \<longleftrightarrow> (\<forall>r n. 0 < n \<longrightarrow> fst (gen_range R r n) < n)"

record 'r secure_random =
  sr_rng :: 'r
  sr_cipher :: aes_ctr
  sr_buffer :: bytes

definition sr_refill :: "'r std_rng \<Rightarrow> 'r secure_random \<Rightarrow> 'r secure_random" where
  "sr_refill R s =
     (if sr_buffer s = [] then
        let (f, r') = fill_bytes R (sr_rng s) 512;
            (chunk, c') = aes_ctr_apply (sr_cipher s) (map f [0 ..< 512])
        in s\<lparr>sr_rng := r', sr_cipher := c', sr_buffer := chunk\<rparr>
      else s)"

lemma sr_refill_nonempty: "sr_buffer (sr_refill R s) \<noteq> []"
proof (cases "sr_buffer s = []")
  case True
  have "length (sr_buffer (sr_refill R s)) = 512"
    using True by (simp add: sr_refill_def aes_ctr_apply_def case_prod_unfold Let_def)
  then show ?thesis by auto
next
  case False
  then show ?thesis by (simp add: sr_refill_def)
qed

text \<open>\<open>fill\<close>: the loop that copies from the buffer until \<open>n\<close> bytes are written.\<close>

function sr_fill :: "'r std_rng \<Rightarrow> 'r secure_random \<Rightarrow> nat \<Rightarrow> bytes \<times> 'r secure_random" where
  "sr_fill R s n =
     (if n = 0 then ([], s)
      else let s1 = sr_refill R s; k = min n (length (sr_buffer s1));
               (rest, s2) = sr_fill R (s1\<lparr>sr_buffer := drop k (sr_buffer s1)\<rparr>) (n - k)
           in (take k (sr_buffer s1) @ rest, s2))"
  by pat_completeness auto
termination
  by (relation "measure (\<lambda>(R, s, n). n)") (auto simp: sr_refill_nonempty)

declare sr_fill.simps [simp del]

definition sr_bytes :: "'r std_rng \<Rightarrow> 'r secure_random \<Rightarrow> nat \<Rightarrow> bytes \<times> 'r secure_random" where
  "sr_bytes R s n = sr_fill R s n"

definition sr_range :: "'r std_rng \<Rightarrow> 'r secure_random \<Rightarrow> nat \<Rightarrow> nat \<times> 'r secure_random" where
  "sr_range R s n =
     (if n = 0 then (0, s)
      else let (v, r') = gen_range R (sr_rng s) n in (v, s\<lparr>sr_rng := r'\<rparr>))"

text \<open>\<open>bits(k)\<close>: the loop ORs byte \<open>i\<close> shifted by \<open>8 * i\<close> into a 64-bit result.\<close>

definition bits_of_bytes :: "bytes \<Rightarrow> u64" where
  "bits_of_bytes bs = foldl (OR) 0
     (map (\<lambda>(i, b). push_bit (i * 8) (ucast b)) (enumerate 0 (take 8 bs)))"

definition sr_bits :: "'r std_rng \<Rightarrow> 'r secure_random \<Rightarrow> nat \<Rightarrow> u64 \<times> 'r secure_random" where
  "sr_bits R s k =
     (if k = 0 then (0, s)
      else let (bs, s') = sr_bytes R s (min ((k + 7) div 8) 8); v = bits_of_bytes bs
           in (if k < 64 then v AND (push_bit k 1 - 1) else v, s'))"

definition sr_choose :: "'r std_rng \<Rightarrow> 'r secure_random \<Rightarrow> 'a list \<Rightarrow> 'a option \<times> 'r secure_random" where
  "sr_choose R s xs =
     (if xs = [] then (None, s)
      else let (i, s') = sr_range R s (length xs) in (Some (xs ! i), s'))"

text \<open>\<open>shuffle\<close>: \<open>for i in (1..len).rev()\<close>, swapping \<open>i\<close> with a draw from \<open>[0, i]\<close>.\<close>

definition swap :: "'a list \<Rightarrow> nat \<Rightarrow> nat \<Rightarrow> 'a list" where
  "swap xs i j = xs[i := xs ! j, j := xs ! i]"

fun sr_shuffle_from :: "'r std_rng \<Rightarrow> 'r secure_random \<Rightarrow> nat \<Rightarrow> 'a list \<Rightarrow> 'a list \<times> 'r secure_random" where
  "sr_shuffle_from R s 0 xs = (xs, s)"
| "sr_shuffle_from R s (Suc i) xs =
     (let (j, r') = gen_range R (sr_rng s) (Suc i + 1)
      in sr_shuffle_from R (s\<lparr>sr_rng := r'\<rparr>) i (swap xs (Suc i) j))"

definition sr_shuffle :: "'r std_rng \<Rightarrow> 'r secure_random \<Rightarrow> 'a list \<Rightarrow> 'a list \<times> 'r secure_random" where
  "sr_shuffle R s xs = sr_shuffle_from R s (length xs - 1) xs"

subsection \<open>What the random source guarantees\<close>

lemma length_sr_fill [simp, len_simps]: "length (fst (sr_fill R s n)) = n"
proof (induction R s n rule: sr_fill.induct)
  case (1 R s n)
  show ?case
  proof (cases "n = 0")
    case True
    then show ?thesis by (simp add: sr_fill.simps)
  next
    case False
    then show ?thesis
      using 1 [OF False refl refl]
      by (subst sr_fill.simps) (simp add: Let_def case_prod_unfold min_def)
  qed
qed

lemma length_sr_bytes [simp, len_simps]: "length (fst (sr_bytes R s n)) = n"
  by (simp add: sr_bytes_def)

lemma sr_range_bound: "std_rng_ok R \<Longrightarrow> 0 < n \<Longrightarrow> fst (sr_range R s n) < n"
  by (simp add: sr_range_def std_rng_ok_def case_prod_unfold Let_def)

lemma sr_choose_mem: "std_rng_ok R \<Longrightarrow> fst (sr_choose R s xs) = Some x \<Longrightarrow> x \<in> set xs"
  using sr_range_bound [of R "length xs" s]
  by (auto simp: sr_choose_def case_prod_unfold Let_def split: if_splits)

lemma mset_swap': "i < length xs \<Longrightarrow> j < length xs \<Longrightarrow> mset (swap xs i j) = mset xs"
  unfolding swap_def by (rule mset_swap)

lemma sr_shuffle_from_mset:
  "std_rng_ok R \<Longrightarrow> i < length xs \<or> i = 0 \<Longrightarrow> mset (fst (sr_shuffle_from R s i xs)) = mset xs"
proof (induction R s i xs rule: sr_shuffle_from.induct)
  case (1 R s xs)
  then show ?case by simp
next
  case (2 R s i xs)
  obtain j r' where g: "gen_range R (sr_rng s) (Suc i + 1) = (j, r')"
    by (cases "gen_range R (sr_rng s) (Suc i + 1)")
  have "fst (gen_range R (sr_rng s) (Suc i + 1)) < Suc i + 1"
    using 2(2) unfolding std_rng_ok_def by blast
  then have j: "j < length xs" using g 2(3) by simp
  have l: "length (swap xs (Suc i) j) = length xs" by (simp add: swap_def)
  have "mset (fst (sr_shuffle_from R (s\<lparr>sr_rng := r'\<rparr>) i (swap xs (Suc i) j))) =
    mset (swap xs (Suc i) j)"
    using 2(2,3) l by (intro 2(1) [OF g [symmetric] refl]) auto
  also have "\<dots> = mset xs"
    using 2(3) j by (intro mset_swap') auto
  finally show ?case using g by simp
qed

lemma masked_bound: "k < 64 \<Longrightarrow> unat (v AND (push_bit k 1 - 1) :: u64) < 2 ^ k"
proof -
  assume k: "k < 64"
  have "v AND (push_bit k 1 - 1) = take_bit k v"
    by (simp add: take_bit_eq_mask mask_eq_exp_minus_1)
  moreover have "unat (take_bit k v) < 2 ^ k"
    by (simp add: unsigned_take_bit_eq take_bit_nat_less_exp)
  ultimately show ?thesis by simp
qed

text \<open>The random source keeps its contract whatever the generator returns: \<open>bytes\<close> has exactly
  the requested length, \<open>range\<close> stays below its bound, \<open>choose\<close> returns an element of the slice,
  \<open>bits(k)\<close> fits in \<open>k\<close> bits, and \<open>shuffle\<close> returns a permutation of the slice.\<close>

theorem secure_random_contract:
  assumes "std_rng_ok R" and "0 < n" and "k < 64" and "xs \<noteq> []"
  shows "length (fst (sr_bytes R s m)) = m \<and> fst (sr_range R s n) < n \<and>
    unat (fst (sr_bits R s k)) < 2 ^ k \<and>
    (\<exists>x \<in> set xs. fst (sr_choose R s xs) = Some x) \<and>
    mset (fst (sr_shuffle R s xs)) = mset xs"
proof (intro conjI)
  show "length (fst (sr_bytes R s m)) = m" by simp
  show "fst (sr_range R s n) < n" using assms by (intro sr_range_bound)
  show "unat (fst (sr_bits R s k)) < 2 ^ k"
    using assms(3) masked_bound [OF assms(3)]
    by (simp add: sr_bits_def case_prod_unfold Let_def)
  show "\<exists>x \<in> set xs. fst (sr_choose R s xs) = Some x"
    using assms(4) sr_range_bound [OF assms(1), of "length xs" s]
    by (auto simp: sr_choose_def case_prod_unfold Let_def)
  show "mset (fst (sr_shuffle R s xs)) = mset xs"
    unfolding sr_shuffle_def using assms(1,4) by (intro sr_shuffle_from_mset) auto
qed


text \<open>A concrete generator, for witnesses: it always draws 0.\<close>

definition zero_rng :: "unit std_rng" where
  "zero_rng = \<lparr>fill_bytes = (\<lambda>r n. (\<lambda>i. 0, r)), gen_range = (\<lambda>r n. (0, r))\<rparr>"

definition zero_sr :: "unit secure_random" where
  "zero_sr = \<lparr>sr_rng = (), sr_cipher = \<lparr>keystream = (\<lambda>i. 0), ctr_pos = 0\<rparr>, sr_buffer = []\<rparr>"

lemma zero_rng_ok: "std_rng_ok zero_rng"
  by (simp add: std_rng_ok_def zero_rng_def)

theorem secure_random_contract_witness:
  "length (fst (sr_bytes zero_rng zero_sr 3)) = 3 \<and> fst (sr_range zero_rng zero_sr 3) < 3 \<and>
   unat (fst (sr_bits zero_rng zero_sr 5)) < 2 ^ 5 \<and>
   (\<exists>x \<in> set [7, 8, 9 :: nat]. fst (sr_choose zero_rng zero_sr [7, 8, 9]) = Some x) \<and>
   mset (fst (sr_shuffle zero_rng zero_sr [7, 8, 9 :: nat])) = mset [7, 8, 9]"
  using secure_random_contract [OF zero_rng_ok, of 3 5 "[7, 8, 9 :: nat]" zero_sr 3] by simp

end
