(* ===== verification/Constants.thy ===== *)
theory Constants
  imports Secure_Random
begin

section \<open>Protocol constants (\<open>protocol/constants.rs\<close>)\<close>

text \<open>
  Datacenter addresses, transport tags, handshake layout, size limits, TLS record types and the
  RPC words of the middle proxy, as the source lists them, with the length arithmetic of the
  secure transport.
\<close>

subsection \<open>Datacenters\<close>

definition v4 :: "byte \<Rightarrow> byte \<Rightarrow> byte \<Rightarrow> byte \<Rightarrow> ip_addr" where
  "v4 a b c d = IpV4 (v4_of_octets [a, b, c, d])"

definition TG_DATACENTER_PORT :: u16 where "TG_DATACENTER_PORT = 443"

definition TG_DATACENTERS_V4 :: "ip_addr list" where
  "TG_DATACENTERS_V4 =
     [v4 149 154 175 50, v4 149 154 167 51, v4 149 154 175 100, v4 149 154 167 91,
      v4 149 154 171 5]"

definition TG_DATACENTERS_V6 :: "ip_addr list" where
  "TG_DATACENTERS_V6 =
     [IpV6 0x20010b28f23df001000000000000000a, IpV6 0x2001067c04e8f002000000000000000a,
      IpV6 0x20010b28f23df003000000000000000a, IpV6 0x2001067c04e8f004000000000000000a,
      IpV6 0x20010b28f23ff005000000000000000a]"

definition TG_MIDDLE_PROXIES_V4 :: "(int \<times> (ip_addr \<times> u16) list) list" where
  "TG_MIDDLE_PROXIES_V4 =
     [(1, [(v4 149 154 175 50, 8888)]), (-1, [(v4 149 154 175 50, 8888)]),
      (2, [(v4 149 154 161 144, 8888)]), (-2, [(v4 149 154 161 144, 8888)]),
      (3, [(v4 149 154 175 100, 8888)]), (-3, [(v4 149 154 175 100, 8888)]),
      (4, [(v4 91 108 4 136, 8888)]), (-4, [(v4 149 154 165 109, 8888)]),
      (5, [(v4 91 108 56 183, 8888)]), (-5, [(v4 91 108 56 183, 8888)])]"

definition TG_MIDDLE_PROXIES_V6 :: "(int \<times> (ip_addr \<times> u16) list) list" where
  "TG_MIDDLE_PROXIES_V6 =
     [(1, [(IpV6 0x20010b28f23df001000000000000000d, 8888)]),
      (-1, [(IpV6 0x20010b28f23df001000000000000000d, 8888)]),
      (2, [(IpV6 0x2001067c04e8f002000000000000000d, 80)]),
      (-2, [(IpV6 0x2001067c04e8f002000000000000000d, 80)]),
      (3, [(IpV6 0x20010b28f23df003000000000000000d, 8888)]),
      (-3, [(IpV6 0x20010b28f23df003000000000000000d, 8888)]),
      (4, [(IpV6 0x2001067c04e8f004000000000000000d, 8888)]),
      (-4, [(IpV6 0x2001067c04e8f004000000000000000d, 8888)]),
      (5, [(IpV6 0x20010b28f23ff005000000000000000d, 8888)]),
      (-5, [(IpV6 0x20010b28f23ff005000000000000000d, 8888)])]"

definition TG_MIDDLE_PROXIES_FLAT_V4 :: "(ip_addr \<times> u16) list" where
  "TG_MIDDLE_PROXIES_FLAT_V4 =
     [(v4 149 154 175 50, 8888), (v4 149 154 161 144, 8888), (v4 149 154 175 100, 8888),
      (v4 91 108 4 136, 8888), (v4 91 108 56 183, 8888)]"

subsection \<open>Transport tags\<close>

datatype proto_tag = Abridged | Intermediate | Secure

fun proto_tag_u32 :: "proto_tag \<Rightarrow> u32" where
  "proto_tag_u32 Abridged = 0xefefefef"
| "proto_tag_u32 Intermediate = 0xeeeeeeee"
| "proto_tag_u32 Secure = 0xdddddddd"

definition proto_tag_from_bytes :: "bytes \<Rightarrow> proto_tag option" where
  "proto_tag_from_bytes bs =
     (let v = u32_from_le_bytes bs in
      if v = 0xefefefef then Some Abridged
      else if v = 0xeeeeeeee then Some Intermediate
      else if v = 0xdddddddd then Some Secure
      else None)"

definition proto_tag_to_bytes :: "proto_tag \<Rightarrow> bytes" where
  "proto_tag_to_bytes t = u32_to_le_bytes (proto_tag_u32 t)"

definition PROTO_TAG_ABRIDGED :: bytes where "PROTO_TAG_ABRIDGED = [0xef, 0xef, 0xef, 0xef]"
definition PROTO_TAG_INTERMEDIATE :: bytes where "PROTO_TAG_INTERMEDIATE = [0xee, 0xee, 0xee, 0xee]"
definition PROTO_TAG_SECURE :: bytes where "PROTO_TAG_SECURE = [0xdd, 0xdd, 0xdd, 0xdd]"

fun proto_tag_as_bytes :: "proto_tag \<Rightarrow> bytes" where
  "proto_tag_as_bytes Abridged = PROTO_TAG_ABRIDGED"
| "proto_tag_as_bytes Intermediate = PROTO_TAG_INTERMEDIATE"
| "proto_tag_as_bytes Secure = PROTO_TAG_SECURE"

subsection \<open>Layout and limits\<close>

definition SKIP_LEN :: nat where "SKIP_LEN = 8"
definition PREKEY_LEN :: nat where "PREKEY_LEN = 32"
definition KEY_LEN :: nat where "KEY_LEN = 32"
definition IV_LEN :: nat where "IV_LEN = 16"
definition HANDSHAKE_LEN :: nat where "HANDSHAKE_LEN = 64"
definition PROTO_TAG_POS :: nat where "PROTO_TAG_POS = 56"
definition DC_IDX_POS :: nat where "DC_IDX_POS = 60"

lemmas layout_defs = SKIP_LEN_def PREKEY_LEN_def KEY_LEN_def IV_LEN_def HANDSHAKE_LEN_def
  PROTO_TAG_POS_def DC_IDX_POS_def

definition MIN_MSG_LEN :: nat where "MIN_MSG_LEN = 12"
definition MAX_MSG_LEN :: nat where "MAX_MSG_LEN = 2 ^ 24"
definition CBC_PADDING :: nat where "CBC_PADDING = 16"
definition PADDING_FILLER :: bytes where "PADDING_FILLER = [0x04, 0x00, 0x00, 0x00]"

definition TLS_VERSION :: bytes where "TLS_VERSION = [0x03, 0x03]"
definition TLS_RECORD_HANDSHAKE :: byte where "TLS_RECORD_HANDSHAKE = 0x16"
definition TLS_RECORD_CHANGE_CIPHER :: byte where "TLS_RECORD_CHANGE_CIPHER = 0x14"
definition TLS_RECORD_APPLICATION :: byte where "TLS_RECORD_APPLICATION = 0x17"
definition TLS_RECORD_ALERT :: byte where "TLS_RECORD_ALERT = 0x15"
definition MAX_TLS_RECORD_SIZE :: nat where "MAX_TLS_RECORD_SIZE = 16384"
definition MAX_TLS_CHUNK_SIZE :: nat where "MAX_TLS_CHUNK_SIZE = 16384 + 256"

lemmas tls_const_defs = TLS_VERSION_def TLS_RECORD_HANDSHAKE_def TLS_RECORD_CHANGE_CIPHER_def
  TLS_RECORD_APPLICATION_def TLS_RECORD_ALERT_def MAX_TLS_CHUNK_SIZE_def

subsection \<open>Secure transport lengths\<close>

definition is_valid_secure_payload_len :: "nat \<Rightarrow> bool" where
  "is_valid_secure_payload_len n \<longleftrightarrow> 4 dvd n"

definition secure_payload_len_from_wire_len :: "nat \<Rightarrow> nat option" where
  "secure_payload_len_from_wire_len wire_len =
     (if wire_len < 4 then None else Some (wire_len - wire_len mod 4))"

definition secure_padding_len :: "'r std_rng \<Rightarrow> nat \<Rightarrow> 'r secure_random \<Rightarrow> nat \<times> 'r secure_random" where
  "secure_padding_len R data_len s = (let (v, s') = sr_range R s 3 in (v + 1, s'))"

subsection \<open>Reserved nonces\<close>

definition RESERVED_NONCE_FIRST_BYTES :: bytes where "RESERVED_NONCE_FIRST_BYTES = [0xef]"

definition RESERVED_NONCE_BEGINNINGS :: "bytes list" where
  "RESERVED_NONCE_BEGINNINGS =
     [[0x48, 0x45, 0x41, 0x44], [0x50, 0x4F, 0x53, 0x54], [0x47, 0x45, 0x54, 0x20],
      [0xee, 0xee, 0xee, 0xee], [0xdd, 0xdd, 0xdd, 0xdd], [0x16, 0x03, 0x01, 0x02]]"

definition RESERVED_NONCE_CONTINUES :: "bytes list" where
  "RESERVED_NONCE_CONTINUES = [[0x00, 0x00, 0x00, 0x00]]"

subsection \<open>RPC words\<close>

definition RPC_FLAG_NOT_ENCRYPTED :: u32 where "RPC_FLAG_NOT_ENCRYPTED = 0x2"
definition RPC_FLAG_HAS_AD_TAG :: u32 where "RPC_FLAG_HAS_AD_TAG = 0x8"
definition RPC_FLAG_MAGIC :: u32 where "RPC_FLAG_MAGIC = 0x1000"
definition RPC_FLAG_EXTMODE2 :: u32 where "RPC_FLAG_EXTMODE2 = 0x20000"
definition RPC_FLAG_PAD :: u32 where "RPC_FLAG_PAD = 0x8000000"
definition RPC_FLAG_INTERMEDIATE :: u32 where "RPC_FLAG_INTERMEDIATE = 0x20000000"
definition RPC_FLAG_ABRIDGED :: u32 where "RPC_FLAG_ABRIDGED = 0x40000000"
definition RPC_FLAG_QUICKACK :: u32 where "RPC_FLAG_QUICKACK = 0x80000000"

lemmas rpc_flag_defs = RPC_FLAG_NOT_ENCRYPTED_def RPC_FLAG_HAS_AD_TAG_def RPC_FLAG_MAGIC_def
  RPC_FLAG_EXTMODE2_def RPC_FLAG_PAD_def RPC_FLAG_INTERMEDIATE_def RPC_FLAG_ABRIDGED_def
  RPC_FLAG_QUICKACK_def

definition RPC_NONCE_U32 :: u32 where "RPC_NONCE_U32 = 0x7acb87aa"
definition RPC_HANDSHAKE_U32 :: u32 where "RPC_HANDSHAKE_U32 = 0x7682eef5"
definition RPC_HANDSHAKE_ERROR_U32 :: u32 where "RPC_HANDSHAKE_ERROR_U32 = 0x6a27beda"
definition TL_PROXY_TAG_U32 :: u32 where "TL_PROXY_TAG_U32 = 0xdb1e26ae"
definition RPC_PROXY_REQ_U32 :: u32 where "RPC_PROXY_REQ_U32 = 0x36cef1ee"
definition RPC_PROXY_ANS_U32 :: u32 where "RPC_PROXY_ANS_U32 = 0x4403da0d"
definition RPC_CLOSE_CONN_U32 :: u32 where "RPC_CLOSE_CONN_U32 = 0x1fcf425d"
definition RPC_CLOSE_EXT_U32 :: u32 where "RPC_CLOSE_EXT_U32 = 0x5eb634a2"
definition RPC_SIMPLE_ACK_U32 :: u32 where "RPC_SIMPLE_ACK_U32 = 0x3bac409b"
definition RPC_PING_U32 :: u32 where "RPC_PING_U32 = 0x5730a2df"
definition RPC_PONG_U32 :: u32 where "RPC_PONG_U32 = 0x8430eaa7"
definition RPC_CRYPTO_NONE_U32 :: u32 where "RPC_CRYPTO_NONE_U32 = 0"
definition RPC_CRYPTO_AES_U32 :: u32 where "RPC_CRYPTO_AES_U32 = 1"
definition USE_CRC32C :: u32 where "USE_CRC32C = 0x800"

lemmas rpc_word_defs = RPC_NONCE_U32_def RPC_HANDSHAKE_U32_def RPC_HANDSHAKE_ERROR_U32_def
  TL_PROXY_TAG_U32_def RPC_PROXY_REQ_U32_def RPC_PROXY_ANS_U32_def RPC_CLOSE_CONN_U32_def
  RPC_CLOSE_EXT_U32_def RPC_SIMPLE_ACK_U32_def RPC_PING_U32_def RPC_PONG_U32_def
  RPC_CRYPTO_NONE_U32_def RPC_CRYPTO_AES_U32_def USE_CRC32C_def

subsection \<open>Lemmas\<close>

lemma secure_padding_len_bounds:
  "std_rng_ok R \<Longrightarrow> 1 \<le> fst (secure_padding_len R n s) \<and> fst (secure_padding_len R n s) \<le> 3"
  using sr_range_bound [of R 3 s] by (simp add: secure_padding_len_def case_prod_unfold Let_def)

text \<open>Stripping the padding of a secure frame gives back the aligned payload length, whenever the
  payload is not empty.\<close>

lemma secure_payload_len_padded:
  "4 dvd n \<Longrightarrow> 0 < n \<Longrightarrow> p \<le> 3 \<Longrightarrow> secure_payload_len_from_wire_len (n + p) = Some n"
  by (auto simp: secure_payload_len_from_wire_len_def elim!: dvdE)

lemma secure_payload_len_bounds:
  "secure_payload_len_from_wire_len w = Some n \<Longrightarrow> 4 dvd n \<and> 4 \<le> n \<and> n \<le> w \<and> w - n \<le> 3"
  by (auto simp: secure_payload_len_from_wire_len_def split: if_splits) presburger

text \<open>Transport tags round-trip through their four bytes: every tag is recovered from its bytes,
  the static byte constants agree with the numeric tags, and four bytes that parse are the bytes
  of the parsed tag.\<close>

theorem proto_tag_roundtrip:
  "proto_tag_from_bytes (proto_tag_to_bytes t) = Some t \<and> proto_tag_to_bytes t = proto_tag_as_bytes t \<and>
   (length bs = 4 \<longrightarrow> proto_tag_from_bytes bs = Some t' \<longrightarrow> bs = proto_tag_to_bytes t')"
proof (intro conjI impI)
  show "proto_tag_from_bytes (proto_tag_to_bytes t) = Some t"
    by (cases t) (simp_all add: proto_tag_from_bytes_def proto_tag_to_bytes_def)
  show "proto_tag_to_bytes t = proto_tag_as_bytes t"
    by (cases t) (simp_all add: proto_tag_to_bytes_def u32_to_le_bytes_def PROTO_TAG_ABRIDGED_def
        PROTO_TAG_INTERMEDIATE_def PROTO_TAG_SECURE_def to_le_explicit)
  assume l: "length bs = 4" and p: "proto_tag_from_bytes bs = Some t'"
  then have "u32_from_le_bytes bs = proto_tag_u32 t'"
    by (auto simp: proto_tag_from_bytes_def Let_def split: if_splits)
  then show "bs = proto_tag_to_bytes t'"
    using int_bytes_roundtrip'(2) [OF l] by (simp add: proto_tag_to_bytes_def)
qed


theorem proto_tag_roundtrip_witness:
  "[0xee, 0xee, 0xee, 0xee] = proto_tag_to_bytes Intermediate"
  using proto_tag_roundtrip [of Secure "[0xee, 0xee, 0xee, 0xee]" Intermediate]
  by (simp add: proto_tag_from_bytes_def u32_from_le_bytes_def)

end
