(* ===== verification/Frame.thy ===== *)
theory Frame
  imports Constants
begin

section \<open>Frames (\<open>stream/frame.rs\<close>, \<open>protocol/frame.rs\<close>)\<close>

text \<open>
  The decoded MTProto frame with its metadata, the constructors of \<open>stream/frame.rs\<close>, the
  metadata of the older \<open>protocol/frame.rs\<close> and its frame modes.
\<close>

record frame_meta =
  quickack :: bool
  simple_ack :: bool
  padding_len :: byte

record frame =
  fr_data :: bytes
  fr_meta :: frame_meta

definition frame_meta_new :: frame_meta where
  "frame_meta_new = \<lparr>quickack = False, simple_ack = False, padding_len = 0\<rparr>"

definition meta_with_quickack :: "frame_meta \<Rightarrow> frame_meta" where
  "meta_with_quickack m = m\<lparr>quickack := True\<rparr>"

definition meta_with_simple_ack :: "frame_meta \<Rightarrow> frame_meta" where
  "meta_with_simple_ack m = m\<lparr>simple_ack := True\<rparr>"

definition meta_with_padding :: "frame_meta \<Rightarrow> byte \<Rightarrow> frame_meta" where
  "meta_with_padding m n = m\<lparr>padding_len := n\<rparr>"

definition meta_has_flags :: "frame_meta \<Rightarrow> bool" where
  "meta_has_flags m \<longleftrightarrow> quickack m \<or> simple_ack m"

definition frame_with_meta :: "bytes \<Rightarrow> frame_meta \<Rightarrow> frame" where
  "frame_with_meta d m = \<lparr>fr_data = d, fr_meta = m\<rparr>"

definition frame_new :: "bytes \<Rightarrow> frame" where
  "frame_new d = \<lparr>fr_data = d, fr_meta = frame_meta_new\<rparr>"

definition frame_empty :: frame where
  "frame_empty = frame_new []"

definition frame_is_empty :: "frame \<Rightarrow> bool" where
  "frame_is_empty f \<longleftrightarrow> fr_data f = []"

definition frame_len :: "frame \<Rightarrow> nat" where
  "frame_len f = length (fr_data f)"

definition frame_quickack :: "bytes \<Rightarrow> frame" where
  "frame_quickack d = \<lparr>fr_data = d, fr_meta = frame_meta_new\<lparr>quickack := True\<rparr>\<rparr>"

definition frame_simple_ack :: "bytes \<Rightarrow> frame" where
  "frame_simple_ack d = \<lparr>fr_data = d, fr_meta = frame_meta_new\<lparr>simple_ack := True\<rparr>\<rparr>"

text \<open>\<open>FrameMode\<close> of \<open>protocol/frame.rs\<close> and its length check.\<close>

datatype frame_mode = MAbridged | MIntermediate | MSecureIntermediate | MFull

fun max_overhead :: "frame_mode \<Rightarrow> nat" where
  "max_overhead MAbridged = 4"
| "max_overhead MIntermediate = 4"
| "max_overhead MSecureIntermediate = 4 + 3"
| "max_overhead MFull = 12 + 16"

definition validate_message_length :: "nat \<Rightarrow> bool" where
  "validate_message_length n \<longleftrightarrow>
     MIN_MSG_LEN \<le> n \<and> n \<le> MAX_MSG_LEN \<and> length PADDING_FILLER dvd n"

lemma validate_message_length_iff:
  "validate_message_length n \<longleftrightarrow> 12 \<le> n \<and> n \<le> 16777216 \<and> 4 dvd n"
  by (simp add: validate_message_length_def MIN_MSG_LEN_def MAX_MSG_LEN_def PADDING_FILLER_def flip: numeral_4)

end
