(* ===== verification/Frame_Codec.thy ===== *)
theory Frame_Codec
  imports Frame "HOL-Library.Sublist"
begin

section \<open>MTProto frame codecs (\<open>stream/frame_codec.rs\<close>)\<close>

text \<open>
  The three wire formats of the MTProto transport: abridged, intermediate and secure
  intermediate. A decoder takes the receive buffer \<open>src\<close> and returns its result together with
  the buffer it leaves behind: \<open>Inr None\<close> when more bytes are needed, \<open>Inr (Some f)\<close> with the
  consumed bytes removed, or an error. An encoder appends to \<open>dst\<close>. The typed codecs and the
  unified \<open>FrameCodec\<close> dispatch to them with their maximum frame size.
\<close>

type_synonym decode_result = "frame option io_result \<times> bytes"

definition checked_mul :: "nat \<Rightarrow> nat \<Rightarrow> nat option" where
  "checked_mul a b = (if a * b < 2 ^ 64 then Some (a * b) else None)"

definition frame_too_large :: "nat \<Rightarrow> nat \<Rightarrow> io_error" where
  "frame_too_large n m = io_err InvalidData ''frame too large: {} bytes (max {})'' [n, m]"

subsection \<open>Abridged\<close>

definition decode_abridged :: "bytes \<Rightarrow> nat \<Rightarrow> decode_result" where
  "decode_abridged src max_size =
     (if src = [] then (Inr None, src)
      else
        let first_byte = src ! 0;
            meta = (if first_byte \<ge> 0x80 then frame_meta_new\<lparr>quickack := True\<rparr> else frame_meta_new);
            len_words = unat (first_byte AND 0x7f)
        in if len_words = 0x7f \<and> length src < 4 then (Inr None, src)
        else
          let (len_words, header_len) =
                (if len_words = 0x7f
                 then (unat (u32_from_le_bytes [src ! 1, src ! 2, src ! 3, 0]), 4)
                 else (len_words, 1))
          in case checked_mul len_words 4 of
               None \<Rightarrow> (Inl (io_err InvalidData ''frame length overflow'' []), src)
             | Some byte_len \<Rightarrow>
                 if byte_len > max_size then (Inl (frame_too_large byte_len max_size), src)
                 else if length src < header_len + byte_len then (Inr None, src)
                 else (Inr (Some (frame_with_meta (take byte_len (drop header_len src)) meta)),
                       drop (header_len + byte_len) src))"

definition encode_abridged :: "frame \<Rightarrow> bytes \<Rightarrow> unit io_result \<times> bytes" where
  "encode_abridged f dst =
     (let data = fr_data f in
      if \<not> 4 dvd length data then
        (Inl (io_err InvalidInput ''abridged frame must be 4-byte aligned, got {} bytes''
           [length data]), dst)
      else if simple_ack (fr_meta f) then (Inr (), dst @ rev data)
      else
        let len_words = length data div 4 in
        if len_words < 0x7f then
          let len_byte = (word_of_nat len_words :: byte);
              len_byte = (if quickack (fr_meta f) then len_byte OR 0x80 else len_byte)
          in (Inr (), dst @ [len_byte] @ data)
        else if len_words < 2 ^ 24 then
          let first = (if quickack (fr_meta f) then 0x7f OR 0x80 else (0x7f :: byte))
          in (Inr (), dst @ [first] @ take 3 (u32_to_le_bytes (word_of_nat len_words)) @ data)
        else (Inl (io_err InvalidInput ''frame too large: {} bytes'' [length data]), dst))"

subsection \<open>Intermediate\<close>

definition decode_intermediate :: "bytes \<Rightarrow> nat \<Rightarrow> decode_result" where
  "decode_intermediate src max_size =
     (if length src < 4 then (Inr None, src)
      else
        let len = unat (u32_from_le_bytes [src ! 0, src ! 1, src ! 2, src ! 3]);
            (meta, len) =
              (if len \<ge> 0x80000000 then (frame_meta_new\<lparr>quickack := True\<rparr>, len - 0x80000000)
               else (frame_meta_new, len))
        in if len > max_size then (Inl (frame_too_large len max_size), src)
           else if length src < 4 + len then (Inr None, src)
           else (Inr (Some (frame_with_meta (take len (drop 4 src)) meta)), drop (4 + len) src))"

text \<open>The length field of intermediate frames: \<open>len as u32\<close> with the QuickACK bit set.\<close>

definition length_field :: "bool \<Rightarrow> nat \<Rightarrow> u32" where
  "length_field qa n = (if qa then word_of_nat n OR 0x80000000 else word_of_nat n)"

definition encode_intermediate :: "frame \<Rightarrow> bytes \<Rightarrow> unit io_result \<times> bytes" where
  "encode_intermediate f dst =
     (let data = fr_data f in
      if simple_ack (fr_meta f) then (Inr (), dst @ data)
      else (Inr (), dst @ u32_to_le_bytes (length_field (quickack (fr_meta f)) (length data)) @ data))"

subsection \<open>Secure intermediate\<close>

definition decode_secure :: "bytes \<Rightarrow> nat \<Rightarrow> decode_result" where
  "decode_secure src max_size =
     (if length src < 4 then (Inr None, src)
      else
        let len = unat (u32_from_le_bytes [src ! 0, src ! 1, src ! 2, src ! 3]);
            (meta, len) =
              (if len \<ge> 0x80000000 then (frame_meta_new\<lparr>quickack := True\<rparr>, len - 0x80000000)
               else (frame_meta_new, len))
        in if len > max_size then (Inl (frame_too_large len max_size), src)
           else if length src < 4 + len then (Inr None, src)
           else case secure_payload_len_from_wire_len len of
               None \<Rightarrow> (Inl (io_err InvalidData ''invalid secure frame length: {len}'' [len]), src)
             | Some data_len \<Rightarrow>
                 (Inr (Some (frame_with_meta (take data_len (take len (drop 4 src)))
                         (meta\<lparr>padding_len := word_of_nat (len - data_len)\<rparr>))),
                  drop (4 + len) src))"

definition encode_secure ::
  "'r std_rng \<Rightarrow> 'r secure_random \<Rightarrow> frame \<Rightarrow> bytes \<Rightarrow> unit io_result \<times> bytes \<times> 'r secure_random" where
  "encode_secure R s f dst =
     (let data = fr_data f in
      if simple_ack (fr_meta f) then (Inr (), dst @ data, s)
      else if \<not> is_valid_secure_payload_len (length data) then
        (Inl (io_err InvalidData ''secure payload must be 4-byte aligned, got {}'' [length data]),
         dst, s)
      else
        let (pad_len, s1) = secure_padding_len R (length data) s;
            total_len = length data + pad_len;
            dst1 = dst @ u32_to_le_bytes (length_field (quickack (fr_meta f)) total_len) @ data
        in if pad_len > 0 then let (padding, s2) = sr_bytes R s1 pad_len in (Inr (), dst1 @ padding, s2)
           else (Inr (), dst1, s1))"

subsection \<open>The unified codec\<close>

record frame_codec =
  fc_proto_tag :: proto_tag
  fc_max_frame_size :: nat

definition frame_codec_new :: "proto_tag \<Rightarrow> frame_codec" where
  "frame_codec_new t = \<lparr>fc_proto_tag = t, fc_max_frame_size = 16 * 1024 * 1024\<rparr>"

definition with_max_frame_size :: "frame_codec \<Rightarrow> nat \<Rightarrow> frame_codec" where
  "with_max_frame_size c n = c\<lparr>fc_max_frame_size := n\<rparr>"

definition codec_decode :: "frame_codec \<Rightarrow> bytes \<Rightarrow> decode_result" where
  "codec_decode c src =
     (case fc_proto_tag c of
        Abridged \<Rightarrow> decode_abridged src (fc_max_frame_size c)
      | Intermediate \<Rightarrow> decode_intermediate src (fc_max_frame_size c)
      | Secure \<Rightarrow> decode_secure src (fc_max_frame_size c))"

definition codec_encode ::
  "'r std_rng \<Rightarrow> frame_codec \<Rightarrow> 'r secure_random \<Rightarrow> frame \<Rightarrow> bytes \<Rightarrow> unit io_result \<times> bytes \<times> 'r secure_random" where
  "codec_encode R c s f dst =
     (case fc_proto_tag c of
        Abridged \<Rightarrow> (let (r, d) = encode_abridged f dst in (r, d, s))
      | Intermediate \<Rightarrow> (let (r, d) = encode_intermediate f dst in (r, d, s))
      | Secure \<Rightarrow> encode_secure R s f dst)"

text \<open>\<open>create_codec\<close> of \<open>stream/frame.rs\<close>: the typed codec for a tag. Every typed codec carries the
  16 MiB limit and calls the function of its format, so it is the unified codec of its tag; the
  trait's \<open>encode\<close> reports the number of bytes appended.\<close>

definition create_codec :: "proto_tag \<Rightarrow> frame_codec" where
  "create_codec t = (case t of
     Abridged \<Rightarrow> \<lparr>fc_proto_tag = Abridged, fc_max_frame_size = 16 * 1024 * 1024\<rparr>
   | Intermediate \<Rightarrow> \<lparr>fc_proto_tag = Intermediate, fc_max_frame_size = 16 * 1024 * 1024\<rparr>
   | Secure \<Rightarrow> \<lparr>fc_proto_tag = Secure, fc_max_frame_size = 16 * 1024 * 1024\<rparr>)"

definition trait_encode ::
  "'r std_rng \<Rightarrow> frame_codec \<Rightarrow> 'r secure_random \<Rightarrow> frame \<Rightarrow> bytes \<Rightarrow> nat io_result \<times> bytes \<times> 'r secure_random" where
  "trait_encode R c s f dst =
     (case codec_encode R c s f dst of
        (Inl e, dst', s') \<Rightarrow> (Inl e, dst', s')
      | (Inr _, dst', s') \<Rightarrow> (Inr (length dst' - length dst), dst', s'))"

fun min_header_size :: "proto_tag \<Rightarrow> nat" where
  "min_header_size Abridged = 1"
| "min_header_size Intermediate = 4"
| "min_header_size Secure = 4"


subsection \<open>Headers\<close>

lemma four_bytes: "length h = 4 \<Longrightarrow> [(h @ x) ! 0, (h @ x) ! 1, (h @ x) ! 2, (h @ x) ! 3] = h"
  by (auto simp: numeral_eq_Suc length_Suc_conv)

lemma drop4: "drop (4 + n) (a # b # c # d # xs) = drop n xs"
  by (simp add: numeral_4)

lemma from_le_append: "from_le (xs @ ys) = from_le xs + 256 ^ length xs * from_le ys"
  by (induction xs) (simp_all add: algebra_simps)

lemma take3_to_le: "take 3 (to_le 4 v) = to_le 3 v"
  by (simp add: to_le_explicit)

lemma length_field_value:
  "n < 2 ^ 31 \<Longrightarrow> unat (length_field qa n) = (if qa then n + 2 ^ 31 else n)"
  by (simp add: length_field_def unat_or_top_bit unat_of_nat)

text \<open>What a decoder reports of an encoded frame.\<close>

definition meta_of :: "bool \<Rightarrow> frame_meta" where
  "meta_of qa = frame_meta_new\<lparr>quickack := qa\<rparr>"

lemma meta_of_if: "(if b then frame_meta_new\<lparr>quickack := True\<rparr> else frame_meta_new) = meta_of b"
  by (simp add: meta_of_def frame_meta_new_def)

lemma meta_of_simps [simp]: "quickack (meta_of qa) = qa" "simple_ack (meta_of qa) = False"
  by (simp_all add: meta_of_def frame_meta_new_def)

subsubsection \<open>Abridged\<close>

lemma decode_abridged_short:
  assumes "n < 0x7f" and hb: "hb = (if qa then word_of_nat n OR 0x80 else word_of_nat n)"
  shows "decode_abridged (hb # xs) mx =
    (if 4 * n > mx then (Inl (frame_too_large (4 * n) mx), hb # xs)
     else if length xs < 4 * n then (Inr None, hb # xs)
     else (Inr (Some (frame_with_meta (take (4 * n) xs) (meta_of qa))), drop (4 * n) xs))"
proof -
  have a: "unat (hb AND 0x7f) = n" and b: "(0x80 \<le> hb) = qa"
    using header_byte [of n] assms by auto
  show ?thesis
    using assms(1) unfolding decode_abridged_def Let_def
    by (simp add: a b meta_of_if checked_mul_def mult.commute)
qed

lemma decode_abridged_long:
  assumes "n < 2 ^ 24" and hb: "hb = (if qa then 0x7f OR 0x80 else 0x7f)"
    and len: "to_le 3 n = [b1, b2, b3]"
  shows "decode_abridged (hb # b1 # b2 # b3 # xs) mx =
    (if 4 * n > mx then (Inl (frame_too_large (4 * n) mx), hb # b1 # b2 # b3 # xs)
     else if length xs < 4 * n then (Inr None, hb # b1 # b2 # b3 # xs)
     else (Inr (Some (frame_with_meta (take (4 * n) xs) (meta_of qa))), drop (4 * n) xs))"
proof -
  have a: "unat (hb AND 0x7f) = 0x7f" and b: "(0x80 \<le> hb) = qa"
    using header_byte [of "0x7f"] hb by auto
  have "from_le (to_le 3 n @ [0]) = n"
    using assms(1) by (simp add: from_le_append from_le_to_le)
  then have v: "unat (u32_from_le_bytes [b1, b2, b3, 0]) = n"
    by (simp add: len)
  show ?thesis
    using assms(1) unfolding decode_abridged_def Let_def
    by (simp add: a b v meta_of_if checked_mul_def mult.commute drop4)
qed

lemma decode_abridged_incomplete_header:
  "hb AND 0x7f = 0x7f \<Longrightarrow> length xs < 3 \<Longrightarrow> decode_abridged (hb # xs) mx = (Inr None, hb # xs)"
  by (simp add: decode_abridged_def Let_def)

text \<open>The encoder's output, as header and payload.\<close>

definition abridged_header :: "bool \<Rightarrow> nat \<Rightarrow> bytes" where
  "abridged_header qa n =
     (if n < 0x7f then [if qa then word_of_nat n OR 0x80 else word_of_nat n]
      else (if qa then 0x7f OR 0x80 else 0x7f) # to_le 3 n)"

lemma encode_abridged_data:
  assumes "\<not> simple_ack (fr_meta f)" "4 dvd length (fr_data f)" "length (fr_data f) div 4 < 2 ^ 24"
  shows "encode_abridged f dst =
    (Inr (), dst @ abridged_header (quickack (fr_meta f)) (length (fr_data f) div 4) @ fr_data f)"
proof -
  let ?n = "length (fr_data f) div 4"
  have "take 3 (u32_to_le_bytes (word_of_nat ?n)) = to_le 3 ?n"
    using assms(3) by (simp add: u32_to_le_bytes_def unat_of_nat take3_to_le)
  then show ?thesis
    using assms by (simp add: encode_abridged_def abridged_header_def Let_def)
qed

lemma decode_abridged_header:
  assumes "n < 2 ^ 24" "4 * n \<le> mx"
  shows "decode_abridged (abridged_header qa n @ xs) mx =
    (if length xs < 4 * n then (Inr None, abridged_header qa n @ xs)
     else (Inr (Some (frame_with_meta (take (4 * n) xs) (meta_of qa))), drop (4 * n) xs))"
proof (cases "n < 0x7f")
  case True
  then show ?thesis
    using assms(2) by (simp add: abridged_header_def decode_abridged_short [OF True refl])
next
  case False
  obtain b1 b2 b3 where len: "to_le 3 n = [b1, b2, b3]"
    by (simp add: to_le_explicit)
  show ?thesis
    using False assms(2)
    by (simp add: abridged_header_def len decode_abridged_long [OF assms(1) refl len])
qed

lemma decode_abridged_header_prefix:
  assumes "strict_prefix p (abridged_header qa n)"
  shows "decode_abridged p mx = (Inr None, p)"
proof (cases p)
  case Nil
  then show ?thesis by (simp add: decode_abridged_def)
next
  case (Cons hb xs)
  then have n: "\<not> n < 0x7f" and hb: "hb = (if qa then 0x7f OR 0x80 else 0x7f)"
    and xs: "length xs < 3"
    using assms prefix_length_less [OF assms] by (auto simp: abridged_header_def split: if_splits)
  then have "hb AND 0x7f = 0x7f" by simp
  then show ?thesis
    using xs Cons by (simp add: decode_abridged_incomplete_header)
qed

subsubsection \<open>Intermediate and secure\<close>

lemma decode_intermediate_header:
  assumes "n < 2 ^ 31" "n \<le> mx" and h: "h = u32_to_le_bytes (length_field qa n)"
  shows "decode_intermediate (h @ xs) mx =
    (if length xs < n then (Inr None, h @ xs)
     else (Inr (Some (frame_with_meta (take n xs) (meta_of qa))), drop n xs))"
proof -
  have l: "length h = 4" by (simp add: h)
  have v: "unat (u32_from_le_bytes h) = (if qa then n + 2 ^ 31 else n)"
    using length_field_value [OF assms(1)] by (simp add: h)
  show ?thesis
    using assms(1,2) l unfolding decode_intermediate_def Let_def four_bytes [OF l] v
    by (auto simp: meta_of_def frame_meta_new_def)
qed

lemma decode_secure_header:
  assumes "n + p < 2 ^ 31" "n + p \<le> mx" "4 dvd n" "0 < n" "p \<le> 3"
    and h: "h = u32_to_le_bytes (length_field qa (n + p))"
  shows "decode_secure (h @ xs) mx =
    (if length xs < n + p then (Inr None, h @ xs)
     else (Inr (Some (frame_with_meta (take n xs) (meta_of qa\<lparr>padding_len := word_of_nat p\<rparr>))),
           drop (n + p) xs))"
proof -
  have l: "length h = 4" by (simp add: h)
  have v: "unat (u32_from_le_bytes h) = (if qa then n + p + 2 ^ 31 else n + p)"
    using length_field_value [OF assms(1)] by (simp add: h)
  have w: "secure_payload_len_from_wire_len (n + p) = Some n"
    using assms(3-5) by (rule secure_payload_len_padded)
  show ?thesis
    using assms(1,2) l w unfolding decode_secure_def Let_def four_bytes [OF l] v
    by (auto simp: meta_of_def frame_meta_new_def)
qed

lemma decode_header_prefix:
  assumes "length p < 4"
  shows "decode_intermediate p mx = (Inr None, p)" "decode_secure p mx = (Inr None, p)"
  using assms by (simp_all add: decode_intermediate_def decode_secure_def)


subsection \<open>The framing contract\<close>

text \<open>
  \<open>drain\<close> calls a decoder until it asks for more bytes, \<open>feed\<close> does so after each chunk that
  arrives, keeping the undecoded bytes: the loop a framed reader runs. The fuel of \<open>drain\<close> is the
  length of the buffer, which is enough since every decoded frame consumes at least one byte.
\<close>

fun drain :: "(bytes \<Rightarrow> decode_result) \<Rightarrow> nat \<Rightarrow> bytes \<Rightarrow> frame list \<times> bytes" where
  "drain dec 0 src = ([], src)"
| "drain dec (Suc n) src =
     (case dec src of
        (Inr (Some f), rest) \<Rightarrow> (let (fs, r) = drain dec n rest in (f # fs, r))
      | _ \<Rightarrow> ([], src))"

fun feed :: "(bytes \<Rightarrow> decode_result) \<Rightarrow> bytes \<Rightarrow> bytes list \<Rightarrow> frame list \<times> bytes" where
  "feed dec buf [] = ([], buf)"
| "feed dec buf (c # cs) =
     (let (fs, r) = drain dec (length (buf @ c)) (buf @ c); (gs, r') = feed dec r cs
      in (fs @ gs, r'))"

text \<open>The payload and the QuickACK flag are what a frame means; the padding of a secure frame is
  transport detail.\<close>

definition same_frame :: "frame \<Rightarrow> frame \<Rightarrow> bool" where
  "same_frame f g \<longleftrightarrow> fr_data f = fr_data g \<and> quickack (fr_meta f) = quickack (fr_meta g)"

text \<open>
  A framing is a relation between frames and the byte strings the encoder may emit for them, with
  a decoder that recognises a complete encoding at the front of the buffer, leaves the rest, and
  waits on a proper prefix of one. Nothing else is needed to reassemble a stream however it is cut.
\<close>

locale framing =
  fixes wire :: "frame \<Rightarrow> bytes \<Rightarrow> bool"
    and dec :: "bytes \<Rightarrow> decode_result"
  assumes dec_wire: "wire f w \<Longrightarrow> \<exists>g. dec (w @ rest) = (Inr (Some g), rest) \<and> same_frame f g"
    and dec_prefix: "wire f w \<Longrightarrow> strict_prefix p w \<Longrightarrow> dec p = (Inr None, p)"
    and dec_Nil: "dec [] = (Inr None, [])"
    and wire_nonempty: "wire f w \<Longrightarrow> w \<noteq> []"
begin

lemma drain_wires:
  "list_all2 wire fs ws \<Longrightarrow> dec p = (Inr None, p) \<Longrightarrow> length ws \<le> n \<Longrightarrow>
   \<exists>gs. drain dec n (concat ws @ p) = (gs, p) \<and> list_all2 same_frame fs gs"
proof (induction fs ws arbitrary: n rule: list_all2_induct)
  case Nil
  then show ?case by (cases n) auto
next
  case (Cons f fs w ws)
  then obtain m where n: "n = Suc m" and m: "length ws \<le> m"
    by (cases n) auto
  obtain g where g: "dec (w @ concat ws @ p) = (Inr (Some g), concat ws @ p)" "same_frame f g"
    using dec_wire [OF Cons.hyps(1)] by blast
  obtain gs where gs: "drain dec m (concat ws @ p) = (gs, p)" "list_all2 same_frame fs gs"
    using Cons.IH [OF Cons.prems(1) m] by blast
  show ?case
    using g gs by (auto simp: n)
qed

lemma prefix_split:
  assumes "list_all2 wire fs ws" "prefix xs (concat ws)"
  shows "\<exists>k \<le> length ws. \<exists>p. xs = concat (take k ws) @ p \<and> dec p = (Inr None, p)"
  using assms
proof (induction fs ws arbitrary: xs rule: list_all2_induct)
  case Nil
  then show ?case by (simp add: dec_Nil)
next
  case (Cons f fs w ws)
  show ?case
  proof (cases "prefix w xs")
    case True
    then obtain ys where ys: "xs = w @ ys" by (auto elim: prefixE)
    then have "prefix ys (concat ws)" using Cons.prems by simp
    from Cons.IH [OF this] obtain k p where
      "k \<le> length ws" "ys = concat (take k ws) @ p" "dec p = (Inr None, p)" by blast
    then show ?thesis
      by (intro exI [of _ "Suc k"]) (auto simp: ys)
  next
    case False
    then have "strict_prefix xs w"
      using Cons.prems by (auto simp: prefix_append strict_prefix_def)
    then show ?thesis
      using dec_prefix [OF Cons.hyps(1)] by (intro exI [of _ 0]) auto
  qed
qed

lemma concat_length_ge: "list_all2 wire fs ws \<Longrightarrow> length ws \<le> length (concat ws)"
proof (induction fs ws rule: list_all2_induct)
  case (Cons f fs w ws)
  then show ?case using wire_nonempty [OF Cons.hyps(1)] by (cases w) auto
qed simp

text \<open>However the encodings of a sequence of frames are cut into chunks, feeding the chunks to
  the decoder yields exactly those frames, in order, and nothing is left over.\<close>

lemma feed_chunks:
  assumes "list_all2 wire fs ws" "buf @ concat cs = concat ws" "dec buf = (Inr None, buf)"
  shows "\<exists>gs. feed dec buf cs = (gs, []) \<and> list_all2 same_frame fs gs"
  using assms
proof (induction cs arbitrary: buf fs ws)
  case Nil
  then have "drain dec (length ws) (concat ws @ []) = ([], buf)"
    by (cases "length ws") auto
  moreover obtain gs where "drain dec (length ws) (concat ws @ []) = (gs, [])"
    "list_all2 same_frame fs gs"
    using drain_wires [OF Nil.prems(1) dec_Nil] by blast
  ultimately show ?case by auto
next
  case (Cons c cs)
  have "prefix (buf @ c) (concat ws)"
    using Cons.prems(2) by (auto intro: prefixI [of _ _ "concat cs"])
  from prefix_split [OF Cons.prems(1) this] obtain k p where
    k: "k \<le> length ws" and bc: "buf @ c = concat (take k ws) @ p" and p: "dec p = (Inr None, p)"
    by blast
  have w1: "list_all2 wire (take k fs) (take k ws)" and w2: "list_all2 wire (drop k fs) (drop k ws)"
    using Cons.prems(1) by (auto intro: list_all2_takeI list_all2_dropI)
  have "length (take k ws) \<le> length (buf @ c)"
    using concat_length_ge [OF w1] unfolding bc by simp
  from drain_wires [OF w1 p this] obtain gs1 where
    g1: "drain dec (length (buf @ c)) (buf @ c) = (gs1, p)" "list_all2 same_frame (take k fs) gs1"
    unfolding bc by blast
  have "concat (take k ws) @ p @ concat cs = concat (take k ws) @ concat (drop k ws)"
    using Cons.prems(2) bc by (metis append.assoc append_take_drop_id concat_append concat.simps(2))
  then have "p @ concat cs = concat (drop k ws)" by simp
  from Cons.IH [OF w2 this p] obtain gs2 where
    g2: "feed dec p cs = (gs2, [])" "list_all2 same_frame (drop k fs) gs2"
    by blast
  have "list_all2 same_frame fs (gs1 @ gs2)"
    using list_all2_appendI [OF g1(2) g2(2)] by simp
  with g1(1) g2(1) show ?case by simp
qed

lemma feed_stream:
  assumes "list_all2 wire fs ws" "concat cs = concat ws"
  shows "\<exists>gs. feed dec [] cs = (gs, []) \<and> list_all2 same_frame fs gs"
  using feed_chunks [OF assms(1) _ dec_Nil, of cs] assms(2) by simp

end


subsection \<open>The codecs satisfy the contract\<close>

text \<open>The frames a codec can carry: aligned where the format needs it, and within the limits of the
  length field and of the receiver. A secure frame must not be empty.\<close>

definition frame_fits :: "frame_codec \<Rightarrow> frame \<Rightarrow> bool" where
  "frame_fits c f \<longleftrightarrow> \<not> simple_ack (fr_meta f) \<and>
     (let n = length (fr_data f); mx = fc_max_frame_size c in
      case fc_proto_tag c of
        Abridged \<Rightarrow> n \<le> mx
      | Intermediate \<Rightarrow> n \<le> mx \<and> n < 2 ^ 31
      | Secure \<Rightarrow> 0 < n \<and> n + 3 \<le> mx \<and> n + 3 < 2 ^ 31)"

definition codec_wire :: "'r std_rng \<Rightarrow> frame_codec \<Rightarrow> frame \<Rightarrow> bytes \<Rightarrow> bool" where
  "codec_wire R c f w \<longleftrightarrow>
     std_rng_ok R \<and> frame_fits c f \<and> (\<exists>s s'. codec_encode R c s f [] = (Inr (), w, s'))"

text \<open>An encoding is a header followed by a body; the decoder reads the frame off a complete one
  and waits while the header or the body is incomplete.\<close>

definition shaped :: "(bytes \<Rightarrow> decode_result) \<Rightarrow> frame \<Rightarrow> bytes \<Rightarrow> bytes \<Rightarrow> (bytes \<Rightarrow> frame) \<Rightarrow> bool" where
  "shaped dec f h body g \<longleftrightarrow>
     h \<noteq> [] \<and> (\<forall>rest. same_frame f (g (body @ rest))) \<and>
     (\<forall>p. strict_prefix p h \<longrightarrow> dec p = (Inr None, p)) \<and>
     (\<forall>xs. dec (h @ xs) = (if length xs < length body then (Inr None, h @ xs)
                            else (Inr (Some (g xs)), drop (length body) xs)))"

lemma shaped_framing:
  assumes "shaped dec f h body g"
  shows "\<exists>g. dec ((h @ body) @ rest) = (Inr (Some g), rest) \<and> same_frame f g"
    and "strict_prefix p (h @ body) \<Longrightarrow> dec p = (Inr None, p)"
proof -
  show "\<exists>g. dec ((h @ body) @ rest) = (Inr (Some g), rest) \<and> same_frame f g"
    using assms by (auto simp: shaped_def)
  assume p: "strict_prefix p (h @ body)"
  show "dec p = (Inr None, p)"
  proof (cases "strict_prefix p h")
    case True
    then show ?thesis using assms by (simp add: shaped_def)
  next
    case False
    then have "prefix h p"
      using p by (auto simp: strict_prefix_def prefix_append)
    then obtain q where q: "p = h @ q" by (auto elim: prefixE)
    with p have "strict_prefix q body"
      by (simp add: strict_prefix_def)
    then have "length q < length body" by (simp add: prefix_length_less)
    then show ?thesis using assms q by (simp add: shaped_def)
  qed
qed

lemma encode_abridged_ok:
  assumes "encode_abridged f dst = (Inr (), w)" "\<not> simple_ack (fr_meta f)"
  shows "4 dvd length (fr_data f) \<and> length (fr_data f) div 4 < 2 ^ 24"
  using assms by (auto simp: encode_abridged_def Let_def split: if_splits)

lemma encode_secure_ok:
  assumes "encode_secure R s f dst = (Inr (), w, s')" "\<not> simple_ack (fr_meta f)" "std_rng_ok R"
  shows "\<exists>pad. 1 \<le> length pad \<and> length pad \<le> 3 \<and> 4 dvd length (fr_data f) \<and>
    w = dst @ u32_to_le_bytes (length_field (quickack (fr_meta f)) (length (fr_data f) + length pad)) @
        fr_data f @ pad"
proof -
  obtain pl s1 where p: "secure_padding_len R (length (fr_data f)) s = (pl, s1)"
    by (cases "secure_padding_len R (length (fr_data f)) s")
  obtain pad s2 where b: "sr_bytes R s1 pl = (pad, s2)"
    by (cases "sr_bytes R s1 pl")
  have pl: "1 \<le> pl \<and> pl \<le> 3"
    using secure_padding_len_bounds [OF assms(3), of "length (fr_data f)" s] p by simp
  have "length pad = pl" using length_sr_bytes [of R s1 pl] b by simp
  then show ?thesis
    using assms(1,2) p b pl
    by (auto simp: encode_secure_def Let_def is_valid_secure_payload_len_def split: if_splits)
qed

lemma abridged_shaped:
  assumes "4 dvd length (fr_data f)" "length (fr_data f) div 4 < 2 ^ 24" "length (fr_data f) \<le> mx"
  shows "shaped (\<lambda>src. decode_abridged src mx) f
    (abridged_header (quickack (fr_meta f)) (length (fr_data f) div 4)) (fr_data f)
    (\<lambda>xs. frame_with_meta (take (length (fr_data f)) xs) (meta_of (quickack (fr_meta f))))"
proof -
  have n: "4 * (length (fr_data f) div 4) = length (fr_data f)"
    using assms(1) by simp
  show ?thesis
    unfolding shaped_def
    using decode_abridged_header [OF assms(2), of mx "quickack (fr_meta f)"] assms(3)
    by (auto simp: n decode_abridged_header_prefix same_frame_def frame_with_meta_def)
      (simp add: abridged_header_def split: if_splits)
qed

lemma intermediate_shaped:
  assumes "length (fr_data f) < 2 ^ 31" "length (fr_data f) \<le> mx"
  shows "shaped (\<lambda>src. decode_intermediate src mx) f
    (u32_to_le_bytes (length_field (quickack (fr_meta f)) (length (fr_data f)))) (fr_data f)
    (\<lambda>xs. frame_with_meta (take (length (fr_data f)) xs) (meta_of (quickack (fr_meta f))))"
  unfolding shaped_def
  using decode_intermediate_header [OF assms refl, of "quickack (fr_meta f)"]
  by (auto simp: same_frame_def frame_with_meta_def decode_header_prefix dest!: prefix_length_less)
    (simp flip: length_0_conv)

lemma secure_shaped:
  assumes "4 dvd length (fr_data f)" "0 < length (fr_data f)" "length pad \<le> 3"
    "length (fr_data f) + length pad < 2 ^ 31" "length (fr_data f) + length pad \<le> mx"
  shows "shaped (\<lambda>src. decode_secure src mx) f
    (u32_to_le_bytes (length_field (quickack (fr_meta f)) (length (fr_data f) + length pad)))
    (fr_data f @ pad)
    (\<lambda>xs. frame_with_meta (take (length (fr_data f)) xs)
       (meta_of (quickack (fr_meta f))\<lparr>padding_len := word_of_nat (length pad)\<rparr>))"
  unfolding shaped_def
  using decode_secure_header [OF assms(4,5,1-3) refl, of "quickack (fr_meta f)"]
  by (auto simp: same_frame_def frame_with_meta_def decode_header_prefix dest!: prefix_length_less)
    (simp flip: length_0_conv)

lemma codec_wire_shaped:
  assumes "codec_wire R c f w"
  shows "\<exists>h body g. w = h @ body \<and> shaped (codec_decode c) f h body g"
proof -
  obtain s s' where e: "codec_encode R c s f [] = (Inr (), w, s')" and R: "std_rng_ok R"
    and fit: "frame_fits c f"
    using assms by (auto simp: codec_wire_def)
  have sa: "\<not> simple_ack (fr_meta f)" using fit by (simp add: frame_fits_def)
  show ?thesis
  proof (cases "fc_proto_tag c")
    case Abridged
    then have w: "encode_abridged f [] = (Inr (), w)"
      using e by (auto simp: codec_encode_def split: prod.splits)
    note ok = encode_abridged_ok [OF w sa]
    have d: "codec_decode c = (\<lambda>src. decode_abridged src (fc_max_frame_size c))"
      by (rule ext) (simp add: codec_decode_def Abridged)
    have "w = abridged_header (quickack (fr_meta f)) (length (fr_data f) div 4) @ fr_data f"
      using w encode_abridged_data [OF sa, of "[]"] ok by simp
    moreover have "length (fr_data f) \<le> fc_max_frame_size c"
      using fit Abridged by (simp add: frame_fits_def)
    ultimately show ?thesis
      using abridged_shaped [OF conjunct1 [OF ok] conjunct2 [OF ok]] unfolding d by blast
  next
    case Intermediate
    then have "w = u32_to_le_bytes (length_field (quickack (fr_meta f)) (length (fr_data f))) @ fr_data f"
      using e sa by (auto simp: codec_encode_def encode_intermediate_def Let_def)
    moreover have "codec_decode c = (\<lambda>src. decode_intermediate src (fc_max_frame_size c))"
      by (rule ext) (simp add: codec_decode_def Intermediate)
    moreover have "length (fr_data f) < 2 ^ 31" "length (fr_data f) \<le> fc_max_frame_size c"
      using fit Intermediate by (auto simp: frame_fits_def Let_def)
    ultimately show ?thesis
      using intermediate_shaped by (metis (no_types))
  next
    case Secure
    then have "encode_secure R s f [] = (Inr (), w, s')"
      using e by (simp add: codec_encode_def)
    from encode_secure_ok [OF this sa R] obtain pad where
      pad: "length pad \<le> 3" "4 dvd length (fr_data f)" and
      w: "w = u32_to_le_bytes (length_field (quickack (fr_meta f)) (length (fr_data f) + length pad)) @
        (fr_data f @ pad)"
      by auto
    have d: "codec_decode c = (\<lambda>src. decode_secure src (fc_max_frame_size c))"
      by (rule ext) (simp add: codec_decode_def Secure)
    have fits: "0 < length (fr_data f)" "length (fr_data f) + length pad < 2 ^ 31"
      "length (fr_data f) + length pad \<le> fc_max_frame_size c"
      using fit Secure pad(1) by (auto simp: frame_fits_def Let_def)
    show ?thesis
      using secure_shaped [OF pad(2) fits(1) pad(1) fits(2,3)] w unfolding d by blast
  qed
qed

interpretation codec: framing "codec_wire R c" "codec_decode c" for R :: "'r std_rng" and c
proof
  fix f w rest p
  assume w: "codec_wire R c f w"
  then obtain h body g where s: "w = h @ body" "shaped (codec_decode c) f h body g"
    using codec_wire_shaped by blast
  show "\<exists>g. codec_decode c (w @ rest) = (Inr (Some g), rest) \<and> same_frame f g"
    using shaped_framing(1) [OF s(2)] s(1) by blast
  show "w \<noteq> []"
    using s by (auto simp: shaped_def)
  assume "strict_prefix p w"
  then show "codec_decode c p = (Inr None, p)"
    using shaped_framing(2) [OF s(2)] s(1) by blast
next
  show "codec_decode c [] = (Inr None, [])"
    by (cases "fc_proto_tag c")
      (simp_all add: codec_decode_def decode_abridged_def decode_intermediate_def decode_secure_def)
qed


subsection \<open>Properties of the codecs\<close>

text \<open>C3: Stream reassembly. Encode any sequence of frames that fit with the codec of any transport
  tag, concatenate the encodings, and cut the result into chunks in any way: feeding the chunks to
  the decoder returns exactly those frames, in order, with the same payloads and QuickACK flags,
  and leaves nothing in the buffer.\<close>

theorem codec_stream_reassembly:
  assumes "list_all2 (codec_wire R c) fs ws" and "concat cs = concat ws"
  shows "\<exists>gs. feed (codec_decode c) [] cs = (gs, []) \<and> list_all2 same_frame fs gs"
  using assms by (rule codec.feed_stream)

text \<open>\<open>consumed src f rest\<close>: the frame's payload stands in the buffer after a non-empty header and is
  followed by at most three bytes of padding and then by what is left.\<close>

definition consumed :: "bytes \<Rightarrow> frame \<Rightarrow> bytes \<Rightarrow> bool" where
  "consumed src f rest \<longleftrightarrow>
     (\<exists>h pad. src = h @ fr_data f @ pad @ rest \<and> h \<noteq> [] \<and> length pad \<le> 3)"

lemma consumedI:
  assumes "0 < i" "i \<le> length src" "n \<le> m" "m - n \<le> 3" and rest: "rest = drop (i + m) src"
  shows "consumed src (frame_with_meta (take n (drop i src)) mt) rest"
proof -
  have "drop i src = take n (drop i src) @ drop n (drop i src)"
    by (simp only: append_take_drop_id)
  also have "drop n (drop i src) = take (m - n) (drop n (drop i src)) @ drop (m - n) (drop n (drop i src))"
    by (simp only: append_take_drop_id)
  also have "drop (m - n) (drop n (drop i src)) = rest"
    using assms(3) by (simp add: rest add.commute)
  finally have "src = take i src @ take n (drop i src) @ take (m - n) (drop n (drop i src)) @ rest"
    by (metis append_take_drop_id)
  moreover have "take i src \<noteq> []" using assms(1,2) by auto
  ultimately show ?thesis
    using assms(4) unfolding consumed_def
    by (intro exI [of _ "take i src"] exI [of _ "take (m - n) (drop n (drop i src))"])
      (auto simp: frame_with_meta_def)
qed

lemma consumed_exact:
  "0 < i \<Longrightarrow> i \<le> length src \<Longrightarrow> rest = drop (i + n) src \<Longrightarrow>
   consumed src (frame_with_meta (take n (drop i src)) mt) rest"
  by (rule consumedI [where m = n]) auto

lemma fr_data_with_meta [simp]: "fr_data (frame_with_meta d m) = d"
  by (simp add: frame_with_meta_def)

text \<open>The two four-byte formats with the length field named.\<close>

definition wire_len :: "bytes \<Rightarrow> nat \<times> frame_meta" where
  "wire_len src = (let len = unat (u32_from_le_bytes [src ! 0, src ! 1, src ! 2, src ! 3]) in
     if len \<ge> 0x80000000 then (len - 0x80000000, frame_meta_new\<lparr>quickack := True\<rparr>)
     else (len, frame_meta_new))"

lemma decode_intermediate_alt:
  "decode_intermediate src mx =
     (if length src < 4 then (Inr None, src)
      else let (len, meta) = wire_len src in
        if len > mx then (Inl (frame_too_large len mx), src)
        else if length src < 4 + len then (Inr None, src)
        else (Inr (Some (frame_with_meta (take len (drop 4 src)) meta)), drop (4 + len) src))"
  by (simp add: decode_intermediate_def wire_len_def Let_def)

lemma decode_secure_alt:
  "decode_secure src mx =
     (if length src < 4 then (Inr None, src)
      else let (len, meta) = wire_len src in
        if len > mx then (Inl (frame_too_large len mx), src)
        else if length src < 4 + len then (Inr None, src)
        else case secure_payload_len_from_wire_len len of
            None \<Rightarrow> (Inl (io_err InvalidData ''invalid secure frame length: {len}'' [len]), src)
          | Some n \<Rightarrow> (Inr (Some (frame_with_meta (take n (drop 4 src))
                        (meta\<lparr>padding_len := word_of_nat (len - n)\<rparr>))), drop (4 + len) src))"
proof -
  define len where "len = unat (u32_from_le_bytes [src ! 0, src ! 1, src ! 2, src ! 3])"
  have t: "secure_payload_len_from_wire_len k = Some n \<Longrightarrow> take n (take k xs) = take n xs"
    for k n and xs :: bytes
    using secure_payload_len_bounds [of k n] by (simp add: min_def)
  show ?thesis
    unfolding decode_secure_def wire_len_def Let_def len_def [symmetric]
    by (auto simp: t simp del: take_take split: option.split)
qed

lemma decode_abridged_conserves:
  assumes "decode_abridged src mx = (r, src')"
  shows "r = Inr (Some f) \<Longrightarrow> length (fr_data f) \<le> mx \<and> consumed src f src'"
    and "(\<forall>f. r \<noteq> Inr (Some f)) \<Longrightarrow> src' = src"
  using assms unfolding decode_abridged_def Let_def
  by (auto split: if_splits option.splits intro!: consumed_exact)

lemma decode_intermediate_conserves:
  assumes "decode_intermediate src mx = (r, src')"
  shows "r = Inr (Some f) \<Longrightarrow> length (fr_data f) \<le> mx \<and> consumed src f src'"
    and "(\<forall>f. r \<noteq> Inr (Some f)) \<Longrightarrow> src' = src"
  using assms unfolding decode_intermediate_alt
  by (auto split: if_splits prod.splits intro!: consumed_exact)

lemma decode_secure_conserves:
  assumes "decode_secure src mx = (r, src')"
  shows "r = Inr (Some f) \<Longrightarrow> length (fr_data f) \<le> mx \<and> consumed src f src'"
    and "(\<forall>f. r \<noteq> Inr (Some f)) \<Longrightarrow> src' = src"
proof -
  obtain len meta where w: "wire_len src = (len, meta)" by (cases "wire_len src")
  show "(\<forall>f. r \<noteq> Inr (Some f)) \<Longrightarrow> src' = src"
    using assms unfolding decode_secure_alt w
    by (auto split: if_splits option.splits)
  assume "r = Inr (Some f)"
  with assms obtain n where n: "secure_payload_len_from_wire_len len = Some n"
    and l: "4 + len \<le> length src" "len \<le> mx"
    and f: "f = frame_with_meta (take n (drop 4 src)) (meta\<lparr>padding_len := word_of_nat (len - n)\<rparr>)"
    and s: "src' = drop (4 + len) src"
    unfolding decode_secure_alt w by (auto split: if_splits option.splits)
  note b = secure_payload_len_bounds [OF n]
  show "length (fr_data f) \<le> mx \<and> consumed src f src'"
    using b l unfolding f s by (auto intro!: consumedI [where m = len])
qed

lemma decode_result_cases:
  "(\<And>f. r = Inr (Some f) \<Longrightarrow> P f) \<Longrightarrow> ((\<forall>f. r \<noteq> Inr (Some f)) \<Longrightarrow> Q) \<Longrightarrow>
   (case r of Inr (Some f) \<Rightarrow> P f | _ \<Rightarrow> Q)" for r :: "frame option io_result"
  by (auto split: sum.splits option.splits)

text \<open>A decoder never loses or invents bytes. When it returns a frame, the payload is within the
  configured maximum size and stands in the buffer behind a header, followed by at most three
  padding bytes and then exactly the bytes left in the buffer; when it asks for more input or
  reports an error, the buffer is unchanged.\<close>

theorem codec_decode_conserves:
  assumes "codec_decode c src = (r, src')"
  shows "(case r of
      Inr (Some f) \<Rightarrow> length (fr_data f) \<le> fc_max_frame_size c \<and> consumed src f src'
    | _ \<Rightarrow> src' = src)"
proof (cases "fc_proto_tag c")
  case Abridged
  then have "decode_abridged src (fc_max_frame_size c) = (r, src')"
    using assms by (simp add: codec_decode_def)
  from decode_abridged_conserves [OF this] show ?thesis by (rule decode_result_cases)
next
  case Intermediate
  then have "decode_intermediate src (fc_max_frame_size c) = (r, src')"
    using assms by (simp add: codec_decode_def)
  from decode_intermediate_conserves [OF this] show ?thesis by (rule decode_result_cases)
next
  case Secure
  then have "decode_secure src (fc_max_frame_size c) = (r, src')"
    using assms by (simp add: codec_decode_def)
  from decode_secure_conserves [OF this] show ?thesis by (rule decode_result_cases)
qed

text \<open>The secure transport cannot carry an empty frame although its encoder accepts one: the encoder
  reports success for an empty payload, and the decoder of the same codec rejects every encoding it
  emits as an invalid secure frame length.\<close>

theorem secure_empty_frame_rejected:
  assumes "std_rng_ok R" and "fr_data f = []" and "\<not> simple_ack (fr_meta f)" and "3 \<le> mx"
  shows "\<exists>w s' n. encode_secure R s f [] = (Inr (), w, s') \<and>
    decode_secure w mx = (Inl (io_err InvalidData ''invalid secure frame length: {len}'' [n]), w)"
proof -
  obtain r w s' where e: "encode_secure R s f [] = (r, w, s')"
    by (cases "encode_secure R s f []")
  then have r: "r = Inr ()"
    using assms(2,3) by (auto simp: encode_secure_def Let_def is_valid_secure_payload_len_def
        split: prod.splits if_splits)
  from encode_secure_ok [OF e [unfolded r] assms(3,1)] obtain pad where
    pad: "1 \<le> length pad" "length pad \<le> 3" and
    w: "w = u32_to_le_bytes (length_field (quickack (fr_meta f)) (length pad)) @ pad"
    by (auto simp: assms(2))
  let ?h = "u32_to_le_bytes (length_field (quickack (fr_meta f)) (length pad))"
  have l: "length ?h = 4" by simp
  have v: "unat (u32_from_le_bytes ?h) = (if quickack (fr_meta f) then length pad + 2 ^ 31 else length pad)"
    using length_field_value [of "length pad"] pad(2) by simp
  have "decode_secure w mx =
    (Inl (io_err InvalidData ''invalid secure frame length: {len}'' [length pad]), w)"
    using pad assms(4) l unfolding w decode_secure_def Let_def four_bytes [OF l] v
    by (auto simp: secure_payload_len_from_wire_len_def)
  then show ?thesis using e r by blast
qed


subsection \<open>Witnesses\<close>

lemma example_wire:
  "codec_wire zero_rng (frame_codec_new Intermediate) (frame_new [1, 2]) [2, 0, 0, 0, 1, 2]"
  "codec_wire zero_rng (frame_codec_new Intermediate) (frame_quickack [3]) [1, 0, 0, 0x80, 3]"
  by (simp_all add: codec_wire_def zero_rng_ok frame_fits_def frame_codec_new_def frame_new_def
      frame_quickack_def frame_meta_new_def codec_encode_def encode_intermediate_def
      length_field_def u32_to_le_bytes_def to_le_explicit)

theorem codec_stream_reassembly_witness:
  "\<exists>gs. feed (codec_decode (frame_codec_new Intermediate)) []
       [[2, 0], [0, 0, 1, 2, 1], [0, 0, 0x80], [3]] = (gs, []) \<and>
     list_all2 same_frame [frame_new [1, 2], frame_quickack [3]] gs"
  by (rule codec_stream_reassembly [where R = zero_rng and
        ws = "[[2, 0, 0, 0, 1, 2], [1, 0, 0, 0x80, 3]]"]) (simp_all add: example_wire)

theorem codec_decode_conserves_witness:
  "codec_decode (frame_codec_new Intermediate) [1, 0, 0, 0, 9, 7] =
     (Inr (Some (frame_new [9])), [7]) \<and> consumed [1, 0, 0, 0, 9, 7] (frame_new [9]) [7]"
proof -
  have d: "codec_decode (frame_codec_new Intermediate) [1, 0, 0, 0, 9, 7] =
     (Inr (Some (frame_new [9])), [7])"
    by (simp add: codec_decode_def frame_codec_new_def decode_intermediate_def frame_with_meta_def
        frame_new_def Let_def)
  show ?thesis using d codec_decode_conserves [OF d] by simp
qed

theorem secure_empty_frame_rejected_witness:
  "\<exists>w s' n. encode_secure zero_rng zero_sr frame_empty [] = (Inr (), w, s') \<and>
    decode_secure w 16 = (Inl (io_err InvalidData ''invalid secure frame length: {len}'' [n]), w)"
  by (rule secure_empty_frame_rejected [OF zero_rng_ok])
    (simp_all add: frame_empty_def frame_new_def frame_meta_new_def)

end
