(* ===== verification/Stream_State.thy ===== *)
theory Stream_State
  imports Errors
begin

section \<open>Buffers and states of the stream wrappers (\<open>stream/state.rs\<close>)\<close>

text \<open>
  The building blocks of the stateful streams: transition and poll results, the read buffer with a
  target, the bounded write buffer, the fixed-size header buffer and the yield buffer. A method
  that takes \<open>&mut self\<close> returns the new buffer. Capacities are allocation hints and carry no
  behaviour.
\<close>

subsection \<open>Transitions and poll results\<close>

datatype ('s, 'o) transition =
  TrSame | TrNext 's | TrComplete 'o | TrYield 'o 's | TrError io_error

fun tr_has_output :: "('s, 'o) transition \<Rightarrow> bool" where
  "tr_has_output (TrComplete _) = True"
| "tr_has_output (TrYield _ _) = True"
| "tr_has_output _ = False"

fun tr_map_output :: "('o \<Rightarrow> 'u) \<Rightarrow> ('s, 'o) transition \<Rightarrow> ('s, 'u) transition" where
  "tr_map_output f TrSame = TrSame"
| "tr_map_output f (TrNext s) = TrNext s"
| "tr_map_output f (TrComplete a) = TrComplete (f a)"
| "tr_map_output f (TrYield a s) = TrYield (f a) s"
| "tr_map_output f (TrError e) = TrError e"

fun tr_map_state :: "('s \<Rightarrow> 't) \<Rightarrow> ('s, 'o) transition \<Rightarrow> ('t, 'o) transition" where
  "tr_map_state f TrSame = TrSame"
| "tr_map_state f (TrNext s) = TrNext (f s)"
| "tr_map_state f (TrComplete a) = TrComplete a"
| "tr_map_state f (TrYield a s) = TrYield a (f s)"
| "tr_map_state f (TrError e) = TrError e"

datatype 'a poll_result = PrReady 'a | PrPending | PrNeedInput nat | PrEof | PrError io_error

fun pr_is_ready :: "'a poll_result \<Rightarrow> bool" where
  "pr_is_ready (PrReady _) = True"
| "pr_is_ready _ = False"

fun pr_is_eof :: "'a poll_result \<Rightarrow> bool" where
  "pr_is_eof PrEof = True"
| "pr_is_eof _ = False"

fun pr_ok :: "'a poll_result \<Rightarrow> 'a option" where
  "pr_ok (PrReady t) = Some t"
| "pr_ok _ = None"

fun pr_map :: "('a \<Rightarrow> 'b) \<Rightarrow> 'a poll_result \<Rightarrow> 'b poll_result" where
  "pr_map f (PrReady t) = PrReady (f t)"
| "pr_map f PrPending = PrPending"
| "pr_map f (PrNeedInput n) = PrNeedInput n"
| "pr_map f PrEof = PrEof"
| "pr_map f (PrError e) = PrError e"

fun pr_from_io :: "'a io_result \<Rightarrow> 'a poll_result" where
  "pr_from_io (Inr t) = PrReady t"
| "pr_from_io (Inl e) =
     (if kind e = WouldBlock then PrPending else if kind e = UnexpectedEof then PrEof else PrError e)"

subsection \<open>Read buffer\<close>

record read_buffer =
  rb_buffer :: bytes
  rb_target :: "nat option"

definition rb_new :: read_buffer where
  "rb_new = \<lparr>rb_buffer = [], rb_target = None\<rparr>"

definition rb_with_target :: "nat \<Rightarrow> read_buffer" where
  "rb_with_target n = \<lparr>rb_buffer = [], rb_target = Some n\<rparr>"

definition rb_is_complete :: "read_buffer \<Rightarrow> bool" where
  "rb_is_complete b = (case rb_target b of Some t \<Rightarrow> length (rb_buffer b) \<ge> t | None \<Rightarrow> False)"

definition rb_remaining :: "read_buffer \<Rightarrow> nat" where
  "rb_remaining b = (case rb_target b of Some t \<Rightarrow> t - length (rb_buffer b) | None \<Rightarrow> 0)"

definition rb_extend :: "read_buffer \<Rightarrow> bytes \<Rightarrow> read_buffer" where
  "rb_extend b xs = b\<lparr>rb_buffer := rb_buffer b @ xs\<rparr>"

definition rb_take :: "read_buffer \<Rightarrow> bytes \<times> read_buffer" where
  "rb_take b = (rb_buffer b, \<lparr>rb_buffer = [], rb_target = None\<rparr>)"

definition rb_take_exact :: "read_buffer \<Rightarrow> nat \<Rightarrow> bytes option \<times> read_buffer" where
  "rb_take_exact b n =
     (if length (rb_buffer b) \<ge> n
      then (Some (take n (rb_buffer b)), b\<lparr>rb_buffer := drop n (rb_buffer b)\<rparr>)
      else (None, b))"

definition rb_clear :: "read_buffer \<Rightarrow> read_buffer" where
  "rb_clear b = \<lparr>rb_buffer = [], rb_target = None\<rparr>"

definition rb_set_target :: "read_buffer \<Rightarrow> nat \<Rightarrow> read_buffer" where
  "rb_set_target b n = b\<lparr>rb_target := Some n\<rparr>"

subsection \<open>Write buffer\<close>

record write_buffer =
  wb_buffer :: bytes
  wb_position :: nat
  wb_max_size :: nat

definition wb_with_max_size :: "nat \<Rightarrow> write_buffer" where
  "wb_with_max_size n = \<lparr>wb_buffer = [], wb_position = 0, wb_max_size = n\<rparr>"

definition wb_new :: write_buffer where
  "wb_new = wb_with_max_size (256 * 1024)"

definition wb_len :: "write_buffer \<Rightarrow> nat" where
  "wb_len b = length (wb_buffer b) - wb_position b"

definition wb_is_empty :: "write_buffer \<Rightarrow> bool" where
  "wb_is_empty b \<longleftrightarrow> wb_position b \<ge> length (wb_buffer b)"

definition wb_is_full :: "write_buffer \<Rightarrow> bool" where
  "wb_is_full b \<longleftrightarrow> length (wb_buffer b) \<ge> wb_max_size b"

definition wb_remaining_capacity :: "write_buffer \<Rightarrow> nat" where
  "wb_remaining_capacity b = wb_max_size b - length (wb_buffer b)"

definition wb_extend :: "write_buffer \<Rightarrow> bytes \<Rightarrow> (unit + unit) \<times> write_buffer" where
  "wb_extend b xs =
     (if length (wb_buffer b) + length xs > wb_max_size b then (Inl (), b)
      else (Inr (), b\<lparr>wb_buffer := wb_buffer b @ xs\<rparr>))"

definition wb_pending :: "write_buffer \<Rightarrow> bytes" where
  "wb_pending b = drop (wb_position b) (wb_buffer b)"

definition wb_advance :: "write_buffer \<Rightarrow> nat \<Rightarrow> write_buffer" where
  "wb_advance b n =
     (let pos = wb_position b + n in
      if pos \<ge> length (wb_buffer b) then b\<lparr>wb_buffer := [], wb_position := 0\<rparr>
      else b\<lparr>wb_position := pos\<rparr>)"

definition wb_clear :: "write_buffer \<Rightarrow> write_buffer" where
  "wb_clear b = b\<lparr>wb_buffer := [], wb_position := 0\<rparr>"

text \<open>The invariant of a write buffer: the position is inside the buffer and the buffer within its
  bound. It makes \<open>len\<close> and \<open>pending\<close> total (neither subtraction nor slicing can panic).\<close>

definition wb_wf :: "write_buffer \<Rightarrow> bool" where
  "wb_wf b \<longleftrightarrow> wb_position b \<le> length (wb_buffer b) \<and> length (wb_buffer b) \<le> wb_max_size b"

subsection \<open>Header buffer\<close>

text \<open>\<open>HeaderBuffer<N>\<close>; \<open>hb_fill\<close> is a read into the slice \<open>unfilled_mut\<close> returns.\<close>

record header_buffer =
  hb_data :: bytes
  hb_filled :: nat

definition hb_new :: "nat \<Rightarrow> header_buffer" where
  "hb_new n = \<lparr>hb_data = replicate n 0, hb_filled = 0\<rparr>"

definition hb_unfilled :: "header_buffer \<Rightarrow> bytes" where
  "hb_unfilled h = drop (hb_filled h) (hb_data h)"

definition hb_fill :: "header_buffer \<Rightarrow> bytes \<Rightarrow> header_buffer" where
  "hb_fill h bs = h\<lparr>hb_data := put (hb_data h) (hb_filled h) bs\<rparr>"

definition hb_advance :: "header_buffer \<Rightarrow> nat \<Rightarrow> header_buffer" where
  "hb_advance h n = h\<lparr>hb_filled := min (hb_filled h + n) (length (hb_data h))\<rparr>"

definition hb_is_complete :: "header_buffer \<Rightarrow> bool" where
  "hb_is_complete h \<longleftrightarrow> hb_filled h \<ge> length (hb_data h)"

definition hb_remaining :: "header_buffer \<Rightarrow> nat" where
  "hb_remaining h = length (hb_data h) - hb_filled h"

definition hb_as_slice :: "header_buffer \<Rightarrow> bytes" where
  "hb_as_slice h = take (hb_filled h) (hb_data h)"

definition hb_as_array :: "header_buffer \<Rightarrow> bytes option" where
  "hb_as_array h = (if hb_is_complete h then Some (hb_data h) else None)"

definition hb_take :: "header_buffer \<Rightarrow> bytes \<times> header_buffer" where
  "hb_take h = (hb_data h, \<lparr>hb_data = replicate (length (hb_data h)) 0, hb_filled = 0\<rparr>)"

definition hb_reset :: "header_buffer \<Rightarrow> header_buffer" where
  "hb_reset h = h\<lparr>hb_filled := 0\<rparr>"

definition hb_wf :: "nat \<Rightarrow> header_buffer \<Rightarrow> bool" where
  "hb_wf n h \<longleftrightarrow> length (hb_data h) = n \<and> hb_filled h \<le> n"

subsection \<open>Yield buffer\<close>

record yield_buffer =
  yb_data :: bytes
  yb_position :: nat

definition yb_new :: "bytes \<Rightarrow> yield_buffer" where
  "yb_new d = \<lparr>yb_data = d, yb_position = 0\<rparr>"

definition yb_is_empty :: "yield_buffer \<Rightarrow> bool" where
  "yb_is_empty y \<longleftrightarrow> yb_position y \<ge> length (yb_data y)"

definition yb_remaining :: "yield_buffer \<Rightarrow> nat" where
  "yb_remaining y = length (yb_data y) - yb_position y"

definition yb_as_slice :: "yield_buffer \<Rightarrow> bytes" where
  "yb_as_slice y = drop (yb_position y) (yb_data y)"

text \<open>\<open>copy_to\<close> into a destination of \<open>n\<close> bytes: the bytes copied and the advanced buffer.\<close>

definition yb_copy_to :: "yield_buffer \<Rightarrow> nat \<Rightarrow> bytes \<times> yield_buffer" where
  "yb_copy_to y n =
     (let available = drop (yb_position y) (yb_data y); to_copy = min (length available) n
      in (take to_copy available, y\<lparr>yb_position := yb_position y + to_copy\<rparr>))"

subsection \<open>Lemmas\<close>

lemma wb_new_wf: "wb_wf (wb_with_max_size n)"
  by (simp add: wb_wf_def wb_with_max_size_def)

lemma wb_extend_wf: "wb_wf b \<Longrightarrow> wb_wf (snd (wb_extend b xs))"
  by (auto simp: wb_wf_def wb_extend_def)

lemma wb_advance_wf: "wb_wf b \<Longrightarrow> wb_wf (wb_advance b n)"
  by (auto simp: wb_wf_def wb_advance_def Let_def)

lemma wb_pending_extend: "wb_wf b \<Longrightarrow> wb_extend b xs = (Inr (), b') \<Longrightarrow> wb_pending b' = wb_pending b @ xs"
  by (auto simp: wb_wf_def wb_extend_def wb_pending_def split: if_splits)

lemma wb_pending_advance: "wb_wf b \<Longrightarrow> wb_pending (wb_advance b n) = drop n (wb_pending b)"
  by (auto simp: wb_wf_def wb_advance_def wb_pending_def Let_def add.commute)

lemma wb_is_empty_pending: "wb_is_empty b \<longleftrightarrow> wb_pending b = []"
  by (simp add: wb_is_empty_def wb_pending_def)

lemma wb_len_pending: "wb_len b = length (wb_pending b)"
  by (simp add: wb_len_def wb_pending_def)

lemma hb_new_wf: "hb_wf n (hb_new n)"
  by (simp add: hb_wf_def hb_new_def)

text \<open>A read of at most the unfilled bytes appends them to the filled part.\<close>

lemma hb_fill_advance:
  assumes "hb_wf n h" "length bs \<le> n - hb_filled h"
  shows "hb_as_slice (hb_advance (hb_fill h bs) (length bs)) = hb_as_slice h @ bs"
    "hb_filled (hb_advance (hb_fill h bs) (length bs)) = hb_filled h + length bs"
    "hb_wf n (hb_advance (hb_fill h bs) (length bs))"
  using assms by (auto simp: hb_wf_def hb_as_slice_def hb_advance_def hb_fill_def put_def)

lemma hb_complete_slice: "hb_wf n h \<Longrightarrow> hb_is_complete h \<Longrightarrow> hb_as_slice h = hb_data h"
  by (simp add: hb_wf_def hb_is_complete_def hb_as_slice_def)

lemma yb_copy_to_split:
  "yb_copy_to y n = (bs, y') \<Longrightarrow> yb_as_slice y = bs @ yb_as_slice y' \<and> length bs = min (yb_remaining y) n"
  by (auto simp: yb_copy_to_def yb_as_slice_def yb_remaining_def Let_def min_def add.commute)

lemma yb_is_empty_slice: "yb_is_empty y \<longleftrightarrow> yb_as_slice y = []"
  by (simp add: yb_is_empty_def yb_as_slice_def)

lemma length_yb_slice: "length (yb_as_slice y) = yb_remaining y"
  by (simp add: yb_as_slice_def yb_remaining_def)

text \<open>The bounded write buffer is a FIFO of pending bytes: on a well-formed buffer, extending
  appends (or refuses, leaving the buffer unchanged, exactly when the bound would be exceeded),
  advancing drops the written prefix, and both keep the buffer well formed, so the position never
  leaves the buffer and the buffer never exceeds its maximum size.\<close>

theorem write_buffer_fifo:
  assumes "wb_wf b"
  shows "wb_wf (snd (wb_extend b xs)) \<and> wb_wf (wb_advance b n) \<and>
    wb_pending (wb_advance b n) = drop n (wb_pending b) \<and>
    (fst (wb_extend b xs) = Inl () \<longleftrightarrow> wb_max_size b < length (wb_buffer b) + length xs) \<and>
    wb_pending (snd (wb_extend b xs)) =
      (if fst (wb_extend b xs) = Inl () then wb_pending b else wb_pending b @ xs)"
proof (intro conjI)
  show "wb_pending (snd (wb_extend b xs)) =
      (if fst (wb_extend b xs) = Inl () then wb_pending b else wb_pending b @ xs)"
    using assms by (simp add: wb_extend_def wb_pending_def wb_wf_def)
  show "fst (wb_extend b xs) = Inl () \<longleftrightarrow> wb_max_size b < length (wb_buffer b) + length xs"
    by (simp add: wb_extend_def)
qed (simp_all add: assms wb_extend_wf wb_advance_wf wb_pending_advance)

theorem write_buffer_fifo_witness:
  "wb_pending (wb_advance (wb_with_max_size 8\<lparr>wb_buffer := [1, 2, 3]\<rparr>) 2) = [3]"
  using write_buffer_fifo [of "wb_with_max_size 8\<lparr>wb_buffer := [1, 2, 3]\<rparr>" "[]" 2]
  by (simp add: wb_wf_def wb_with_max_size_def wb_pending_def)

end
