(* ===== verification/Async_Io.thy ===== *)
theory Async_Io
  imports Stream_State
begin

section \<open>Upstreams of the stream wrappers\<close>

text \<open>
  The wrappers are generic in an \<open>AsyncRead\<close> or \<open>AsyncWrite\<close> upstream. An upstream is given by
  the script of what its polls answer, one event per poll: it may be pending, fail, or have bytes;
  a read delivers at most what the caller's buffer has room for and keeps the rest, a write
  accepts at most the bytes offered. An exhausted reader is at end of file, an exhausted writer
  stays pending. Every behaviour of an upstream over a run of polls is such a script.
\<close>

datatype read_event = RdPending | RdErr io_error | RdBytes bytes

type_synonym source = "read_event list"

fun source_poll :: "nat \<Rightarrow> source \<Rightarrow> bytes io_result poll \<times> source" where
  "source_poll n [] = (Ready (Inr []), [])"
| "source_poll n (RdPending # u) = (Pending, u)"
| "source_poll n (RdErr e # u) = (Ready (Inl e), u)"
| "source_poll n (RdBytes bs # u) =
     (Ready (Inr (take n bs)), if drop n bs = [] then u else RdBytes (drop n bs) # u)"

text \<open>The bytes a source will deliver before it fails or ends.\<close>

fun source_bytes :: "source \<Rightarrow> bytes" where
  "source_bytes [] = []"
| "source_bytes (RdPending # u) = source_bytes u"
| "source_bytes (RdErr e # u) = []"
| "source_bytes (RdBytes bs # u) = bs @ source_bytes u"

text \<open>An empty read means end of file, so a source has none before its end.\<close>

definition source_wf :: "source \<Rightarrow> bool" where
  "source_wf u \<longleftrightarrow> RdBytes [] \<notin> set u"

fun source_meas :: "source \<Rightarrow> nat" where
  "source_meas [] = 0"
| "source_meas (RdBytes bs # u) = Suc (length bs) + source_meas u"
| "source_meas (_ # u) = Suc (source_meas u)"

lemma source_poll_wf: "source_wf u \<Longrightarrow> source_poll n u = (r, u') \<Longrightarrow> source_wf u'"
  by (cases "(n, u)" rule: source_poll.cases) (auto simp: source_wf_def split: if_splits)

lemma source_poll_bytes:
  "source_poll n u = (Ready (Inr bs), u') \<Longrightarrow> source_bytes u = bs @ source_bytes u' \<and> length bs \<le> n"
  by (cases "(n, u)" rule: source_poll.cases) (auto split: if_splits)

lemma source_poll_pending: "source_poll n u = (Pending, u') \<Longrightarrow> source_bytes u' = source_bytes u"
  by (cases "(n, u)" rule: source_poll.cases) (auto split: if_splits)

lemma source_poll_error: "source_poll n u = (Ready (Inl e), u') \<Longrightarrow> source_bytes u = []"
  by (cases "(n, u)" rule: source_poll.cases) (auto split: if_splits)

lemma source_poll_eof:
  "source_wf u \<Longrightarrow> 0 < n \<Longrightarrow> source_poll n u = (Ready (Inr []), u') \<Longrightarrow> u = [] \<and> u' = []"
  by (cases "(n, u)" rule: source_poll.cases) (auto simp: source_wf_def split: if_splits)

lemma source_poll_size: "source_poll n u = (r, u') \<Longrightarrow> source_meas u' \<le> source_meas u"
  by (cases "(n, u)" rule: source_poll.cases) (auto split: if_splits)

lemma source_poll_size_less:
  "source_poll n u = (Pending, u') \<Longrightarrow> source_meas u' < source_meas u"
  "source_poll n u = (Ready (Inr bs), u') \<Longrightarrow> bs \<noteq> [] \<Longrightarrow> source_meas u' < source_meas u"
  by (cases "(n, u)" rule: source_poll.cases; auto split: if_splits)+

lemmas source_poll_facts = source_poll_wf source_poll_bytes source_poll_pending source_poll_error

subsection \<open>Readers\<close>

text \<open>
  What a reader in the stack promises: every poll hands out the next bytes of its content and no
  others, a pending poll and a poll that fails lose nothing, and polls that do not fail shrink a
  measure unless they report end of file. The exact-read loops of the wrappers rest on this alone.
\<close>

locale byte_reader =
  fixes poll :: "'s \<Rightarrow> nat \<Rightarrow> bytes io_result poll \<times> 's"
    and content :: "'s \<Rightarrow> bytes"
    and inv :: "'s \<Rightarrow> bool"
    and meas :: "'s \<Rightarrow> nat"
  assumes poll_inv: "inv s \<Longrightarrow> poll s n = (r, s') \<Longrightarrow> inv s'"
    and poll_ready: "inv s \<Longrightarrow> poll s n = (Ready (Inr bs), s') \<Longrightarrow>
      content s = bs @ content s' \<and> length bs \<le> n"
    and poll_pending: "inv s \<Longrightarrow> poll s n = (Pending, s') \<Longrightarrow>
      content s' = content s \<and> meas s' < meas s"
    and poll_progress: "inv s \<Longrightarrow> poll s n = (Ready (Inr bs), s') \<Longrightarrow> bs \<noteq> [] \<Longrightarrow> meas s' < meas s"

text \<open>
  \<open>read_loop\<close> is the body of the asynchronous exact reads: keep reading into what is still
  missing, wait on a pending poll, fail on an error and on an empty read. \<open>None\<close> is a loop that is
  still waiting when its fuel ends.
\<close>

fun read_loop :: "('s \<Rightarrow> nat \<Rightarrow> bytes io_result poll \<times> 's) \<Rightarrow> nat \<Rightarrow> nat \<Rightarrow> bytes \<Rightarrow> 's \<Rightarrow>
    (bytes io_result \<times> 's) option" where
  "read_loop poll 0 n acc s = None"
| "read_loop poll (Suc fuel) n acc s =
     (if length acc \<ge> n then Some (Inr acc, s)
      else case poll s (n - length acc) of
          (Pending, s') \<Rightarrow> read_loop poll fuel n acc s'
        | (Ready (Inl e), s') \<Rightarrow> Some (Inl e, s')
        | (Ready (Inr bs), s') \<Rightarrow>
            if bs = [] then
              Some (Inl (io_err UnexpectedEof ''expected {} bytes, got {}'' [n, length acc]), s')
            else read_loop poll fuel n (acc @ bs) s')"

context byte_reader
begin

text \<open>The loop always ends within its measure.\<close>

lemma read_loop_ends:
  "inv s \<Longrightarrow> meas s < fuel \<Longrightarrow> \<exists>r s'. read_loop poll fuel n acc s = Some (r, s')"
proof (induction fuel arbitrary: acc s)
  case 0
  then show ?case by simp
next
  case (Suc fuel)
  obtain r s' where p: "poll s (n - length acc) = (r, s')"
    by (cases "poll s (n - length acc)")
  have i: "inv s'" using poll_inv [OF Suc.prems(1) p] .
  show ?case
  proof (cases r)
    case Pending
    then have "meas s' < fuel"
      using poll_pending [OF Suc.prems(1)] p Suc.prems(2) by force
    then show ?thesis using Suc.IH [OF i] p Pending by auto
  next
    case (Ready x)
    show ?thesis
    proof (cases x)
      case (Inl e)
      then show ?thesis using p Ready by simp
    next
      case (Inr bs)
      have "meas s' < fuel" if "bs \<noteq> []"
        using poll_progress [OF Suc.prems(1) p [unfolded Ready Inr] that] Suc.prems(2) by simp
      then show ?thesis using Suc.IH [OF i] p Ready Inr by auto
    qed
  qed
qed

text \<open>What it returns is the next \<open>n\<close> bytes of the content.\<close>

lemma read_loop_content:
  "inv s \<Longrightarrow> length acc \<le> n \<Longrightarrow> read_loop poll fuel n acc s = Some (Inr xs, s') \<Longrightarrow>
   acc @ content s = xs @ content s' \<and> length xs = n \<and> inv s'"
proof (induction fuel arbitrary: acc s)
  case 0
  then show ?case by simp
next
  case (Suc fuel)
  obtain r t where p: "poll s (n - length acc) = (r, t)"
    by (cases "poll s (n - length acc)")
  have i: "inv t" using poll_inv [OF Suc.prems(1) p] .
  show ?case
  proof (cases "length acc \<ge> n")
    case True
    then show ?thesis using Suc.prems by auto
  next
    case False
    show ?thesis
    proof (cases r)
      case Pending
      have c: "content t = content s"
        using poll_pending [OF Suc.prems(1) p [unfolded Pending]] by simp
      have "read_loop poll fuel n acc t = Some (Inr xs, s')"
        using Suc.prems(3) False p Pending by simp
      from Suc.IH [OF i Suc.prems(2) this] c show ?thesis by simp
    next
      case (Ready x)
      then obtain bs where x: "x = Inr bs" "bs \<noteq> []"
        using Suc.prems(3) False p by (cases x) (auto split: if_splits)
      have c: "content s = bs @ content t" "length bs \<le> n - length acc"
        using poll_ready [OF Suc.prems(1) p [unfolded Ready x(1)]] by auto
      have "read_loop poll fuel n (acc @ bs) t = Some (Inr xs, s')"
        using Suc.prems(3) False p Ready x by simp
      from Suc.IH [OF i _ this] c False show ?thesis by simp
    qed
  qed
qed

end

text \<open>A reader whose empty reads mean the end of its content: then an exact read of what is there
  succeeds.\<close>

locale complete_reader = byte_reader +
  assumes poll_eof: "inv s \<Longrightarrow> 0 < n \<Longrightarrow> poll s n = (Ready (Inr []), s') \<Longrightarrow> content s = []"
    and poll_fail: "inv s \<Longrightarrow> poll s n = (Ready (Inl e), s') \<Longrightarrow> content s = []"
begin

lemma read_loop_succeeds:
  "inv s \<Longrightarrow> meas s < fuel \<Longrightarrow> length acc \<le> n \<Longrightarrow> n \<le> length acc + length (content s) \<Longrightarrow>
   \<exists>xs s'. read_loop poll fuel n acc s = Some (Inr xs, s')"
proof (induction fuel arbitrary: acc s)
  case 0
  then show ?case by simp
next
  case (Suc fuel)
  obtain r t where p: "poll s (n - length acc) = (r, t)"
    by (cases "poll s (n - length acc)")
  have i: "inv t" using poll_inv [OF Suc.prems(1) p] .
  show ?case
  proof (cases "length acc \<ge> n")
    case True
    then show ?thesis by simp
  next
    case False
    then have ne: "content s \<noteq> []" using Suc.prems(4) by auto
    show ?thesis
    proof (cases r)
      case Pending
      have "content t = content s" "meas t < fuel"
        using poll_pending [OF Suc.prems(1) p [unfolded Pending]] Suc.prems(2) by auto
      with Suc.IH [OF i _ Suc.prems(3)] Suc.prems(4) p Pending False show ?thesis by auto
    next
      case (Ready x)
      then obtain bs where x: "x = Inr bs" "bs \<noteq> []"
        using poll_fail [OF Suc.prems(1), of "n - length acc"] ne False p
          poll_eof [OF Suc.prems(1), of "n - length acc"] by (cases x) auto
      have c: "content s = bs @ content t" "length bs \<le> n - length acc" "meas t < fuel"
        using poll_ready [OF Suc.prems(1) p [unfolded Ready x(1)]]
          poll_progress [OF Suc.prems(1) p [unfolded Ready x(1)] x(2)] Suc.prems(2) by auto
      with Suc.IH [OF i c(3), of "acc @ bs"] Suc.prems(4) False p Ready x show ?thesis by auto
    qed
  qed
qed

end

subsection \<open>Writers\<close>

datatype write_event = WrPending | WrErr io_error | WrOk nat

text \<open>A sink: the script of its answers and the bytes it has accepted.\<close>

record sink =
  sk_script :: "write_event list"
  sk_written :: bytes

fun sink_poll :: "sink \<Rightarrow> bytes \<Rightarrow> nat io_result poll \<times> sink" where
  "sink_poll k xs =
     (case sk_script k of
        [] \<Rightarrow> (Pending, k)
      | WrPending # es \<Rightarrow> (Pending, k\<lparr>sk_script := es\<rparr>)
      | WrErr e # es \<Rightarrow> (Ready (Inl e), k\<lparr>sk_script := es\<rparr>)
      | WrOk n # es \<Rightarrow>
          (Ready (Inr (min n (length xs))),
           k\<lparr>sk_script := es, sk_written := sk_written k @ take n xs\<rparr>))"

declare sink_poll.simps [simp del]

lemma sink_poll_ok:
  "sink_poll k xs = (Ready (Inr n), k') \<Longrightarrow>
   n \<le> length xs \<and> sk_written k' = sk_written k @ take n xs \<and>
   length (sk_script k') < length (sk_script k)"
  by (auto simp: sink_poll.simps min_def split: list.splits write_event.splits)

lemma sink_poll_not_ok:
  "sink_poll k xs = (Pending, k') \<Longrightarrow> sk_written k' = sk_written k"
  "sink_poll k xs = (Ready (Inl e), k') \<Longrightarrow> sk_written k' = sk_written k"
  by (auto simp: sink_poll.simps split: list.splits write_event.splits)

text \<open>\<open>poll_flush\<close> and \<open>poll_shutdown\<close> of the upstream take no bytes; their answer is the next event
  (any success).\<close>

fun sink_control :: "sink \<Rightarrow> unit io_result poll \<times> sink" where
  "sink_control k =
     (case sk_script k of
        [] \<Rightarrow> (Pending, k)
      | WrPending # es \<Rightarrow> (Pending, k\<lparr>sk_script := es\<rparr>)
      | WrErr e # es \<Rightarrow> (Ready (Inl e), k\<lparr>sk_script := es\<rparr>)
      | WrOk n # es \<Rightarrow> (Ready (Inr ()), k\<lparr>sk_script := es\<rparr>))"

lemma sink_control_written: "sink_control k = (r, k') \<Longrightarrow> sk_written k' = sk_written k"
  by (auto split: list.splits write_event.splits)

text \<open>A sink that keeps accepting: its script has no failure and no zero-length write; \<open>ok_count\<close> is
  the number of calls it will still accept.\<close>

fun event_ok :: "write_event \<Rightarrow> bool" where
  "event_ok WrPending = True"
| "event_ok (WrErr e) = False"
| "event_ok (WrOk n) = (0 < n)"

fun event_accepts :: "write_event \<Rightarrow> bool" where
  "event_accepts (WrOk n) = True"
| "event_accepts _ = False"

definition sink_live :: "sink \<Rightarrow> bool" where
  "sink_live k \<longleftrightarrow> list_all event_ok (sk_script k)"

definition ok_count :: "sink \<Rightarrow> nat" where
  "ok_count k = length (filter event_accepts (sk_script k))"

lemma sink_poll_live:
  assumes "sink_live k" "sink_poll k xs = (r, k')" "0 < ok_count k" "xs \<noteq> []"
  shows "sink_live k' \<and> (case r of
     Pending \<Rightarrow> ok_count k' = ok_count k \<and> length (sk_script k') < length (sk_script k)
   | Ready (Inl e) \<Rightarrow> False
   | Ready (Inr n) \<Rightarrow> 0 < n \<and> ok_count k = Suc (ok_count k'))"
  using assms
  by (auto simp: sink_poll.simps sink_live_def ok_count_def split: list.splits write_event.splits)

lemma sink_control_live:
  assumes "sink_live k" "sink_control k = (r, k')" "0 < ok_count k"
  shows "sink_live k' \<and> (case r of
     Pending \<Rightarrow> ok_count k' = ok_count k \<and> length (sk_script k') < length (sk_script k)
   | Ready (Inl e) \<Rightarrow> False
   | Ready (Inr n) \<Rightarrow> ok_count k = Suc (ok_count k'))"
  using assms
  by (auto simp: sink_live_def ok_count_def split: list.splits write_event.splits)

lemma sink_poll_script: "sink_poll k xs = (r, k') \<Longrightarrow> length (sk_script k') \<le> length (sk_script k)"
  by (auto simp: sink_poll.simps split: list.splits write_event.splits)

lemma sink_control_script: "sink_control k = (r, k') \<Longrightarrow> length (sk_script k') \<le> length (sk_script k)"
  by (auto split: list.splits write_event.splits)

declare sink_control.simps [simp del]

text \<open>
  What a writer in the stack promises, dually to a reader: \<open>plain\<close> is the plaintext it has taken
  responsibility for. A successful poll takes a prefix of the bytes offered, a pending poll takes
  none, and after a successful flush nothing is queued any more. A failed poll takes nothing either,
  unless it breaks the writer for good (a poisoned wrapper): a broken writer only fails.
\<close>

locale byte_writer =
  fixes poll :: "'s \<Rightarrow> bytes \<Rightarrow> nat io_result poll \<times> 's"
    and flush :: "'s \<Rightarrow> unit io_result poll \<times> 's"
    and plain :: "'s \<Rightarrow> bytes"
    and queued :: "'s \<Rightarrow> bytes"
    and broken :: "'s \<Rightarrow> bool"
    and inv :: "'s \<Rightarrow> bool"
  assumes poll_inv: "inv s \<Longrightarrow> poll s xs = (r, s') \<Longrightarrow> inv s'"
    and poll_ok: "inv s \<Longrightarrow> poll s xs = (Ready (Inr n), s') \<Longrightarrow>
      n \<le> length xs \<and> plain s' = plain s @ take n xs"
    and poll_pending: "inv s \<Longrightarrow> poll s xs = (Pending, s') \<Longrightarrow> plain s' = plain s"
    and flush_inv: "inv s \<Longrightarrow> flush s = (f, s') \<Longrightarrow> inv s'"
    and flush_ok: "inv s \<Longrightarrow> flush s = (Ready (Inr ()), s') \<Longrightarrow> plain s' = plain s \<and> queued s' = []"
    and flush_pending: "inv s \<Longrightarrow> flush s = (Pending, s') \<Longrightarrow> plain s' = plain s"
    and poll_error: "inv s \<Longrightarrow> poll s xs = (Ready (Inl e), s') \<Longrightarrow> broken s' \<or> plain s' = plain s"
    and flush_error: "inv s \<Longrightarrow> flush s = (Ready (Inl e), s') \<Longrightarrow> broken s' \<or> plain s' = plain s"
    and poll_alive: "inv s \<Longrightarrow> \<not> broken s \<Longrightarrow> poll s xs = (r, s') \<Longrightarrow> \<forall>e. r \<noteq> Ready (Inl e) \<Longrightarrow> \<not> broken s'"
    and flush_alive: "inv s \<Longrightarrow> \<not> broken s \<Longrightarrow> flush s = (f, s') \<Longrightarrow> \<forall>e. f \<noteq> Ready (Inl e) \<Longrightarrow> \<not> broken s'"
    and broken_poll: "inv s \<Longrightarrow> broken s \<Longrightarrow> xs \<noteq> [] \<Longrightarrow> poll s xs = (r, s') \<Longrightarrow>
      (\<exists>e. r = Ready (Inl e)) \<and> broken s'"
    and broken_flush: "inv s \<Longrightarrow> broken s \<Longrightarrow> flush s = (f, s') \<Longrightarrow> (\<exists>e. f = Ready (Inl e)) \<and> broken s'"

text \<open>\<open>AsyncWriteExt::write_all\<close> and \<open>flush\<close>, with fuel for the awaited polls.\<close>

fun write_loop :: "('s \<Rightarrow> bytes \<Rightarrow> nat io_result poll \<times> 's) \<Rightarrow> nat \<Rightarrow> bytes \<Rightarrow> 's \<Rightarrow>
    (unit io_result \<times> 's) option" where
  "write_loop poll 0 xs s = None"
| "write_loop poll (Suc fuel) xs s =
     (if xs = [] then Some (Inr (), s)
      else case poll s xs of
          (Pending, s') \<Rightarrow> write_loop poll fuel xs s'
        | (Ready (Inl e), s') \<Rightarrow> Some (Inl e, s')
        | (Ready (Inr n), s') \<Rightarrow>
            if n = 0 then Some (Inl (io_err WriteZero ''failed to write whole buffer'' []), s')
            else write_loop poll fuel (drop n xs) s')"

fun flush_loop :: "('s \<Rightarrow> unit io_result poll \<times> 's) \<Rightarrow> nat \<Rightarrow> 's \<Rightarrow> (unit io_result \<times> 's) option" where
  "flush_loop flush 0 s = None"
| "flush_loop flush (Suc fuel) s =
     (case flush s of
        (Pending, s') \<Rightarrow> flush_loop flush fuel s'
      | (Ready r, s') \<Rightarrow> Some (r, s'))"

context byte_writer
begin

lemma write_loop_plain:
  "inv s \<Longrightarrow> write_loop poll fuel xs s = Some (Inr (), s') \<Longrightarrow> inv s' \<and> plain s' = plain s @ xs"
proof (induction fuel arbitrary: xs s)
  case 0
  then show ?case by simp
next
  case (Suc fuel)
  obtain r t where p: "poll s xs = (r, t)" by (cases "poll s xs")
  have i: "inv t" using poll_inv [OF Suc.prems(1) p] .
  show ?case
  proof (cases "xs = []")
    case True
    then show ?thesis using Suc.prems by auto
  next
    case False
    show ?thesis
    proof (cases r)
      case Pending
      then show ?thesis
        using Suc.IH [OF i] Suc.prems False p poll_pending by fastforce
    next
      case (Ready x)
      then obtain n where x: "x = Inr n" "n \<noteq> 0"
        using Suc.prems(2) False p by (cases x) (auto split: if_splits)
      have c: "plain t = plain s @ take n xs"
        using poll_ok [OF Suc.prems(1)] p Ready x by blast
      have "write_loop poll fuel (drop n xs) t = Some (Inr (), s')"
        using Suc.prems(2) False p Ready x by simp
      from Suc.IH [OF i this] c show ?thesis by simp
    qed
  qed
qed

lemma flush_loop_plain:
  "inv s \<Longrightarrow> flush_loop flush fuel s = Some (Inr (), s') \<Longrightarrow>
   inv s' \<and> plain s' = plain s \<and> queued s' = []"
proof (induction fuel arbitrary: s)
  case 0
  then show ?case by simp
next
  case (Suc fuel)
  obtain r t where p: "flush s = (r, t)" by (cases "flush s")
  have i: "inv t" using flush_inv [OF Suc.prems(1) p] .
  show ?case
  proof (cases r)
    case Pending
    then show ?thesis using Suc.IH [OF i] Suc.prems p flush_pending by fastforce
  next
    case (Ready x)
    then show ?thesis using Suc.prems p i flush_ok by fastforce
  qed
qed

lemma write_loop_alive:
  "inv s \<Longrightarrow> \<not> broken s \<Longrightarrow> write_loop poll fuel xs s = Some (Inr (), s') \<Longrightarrow> \<not> broken s'"
proof (induction fuel arbitrary: xs s)
  case 0
  then show ?case by simp
next
  case (Suc fuel)
  obtain r t where p: "poll s xs = (r, t)" by (cases "poll s xs")
  have i: "inv t" using poll_inv [OF Suc.prems(1) p] .
  note alive = poll_alive [OF Suc.prems(1,2) p]
  show ?case
  proof (cases "xs = []")
    case True
    then show ?thesis using Suc.prems by auto
  next
    case False
    then show ?thesis
      using Suc.IH [OF i] Suc.prems(3) alive p by (cases r) (auto split: sum.splits if_splits)
  qed
qed

lemma flush_loop_alive:
  "inv s \<Longrightarrow> \<not> broken s \<Longrightarrow> flush_loop flush fuel s = Some (Inr (), s') \<Longrightarrow> \<not> broken s'"
proof (induction fuel arbitrary: s)
  case 0
  then show ?case by simp
next
  case (Suc fuel)
  obtain r t where p: "flush s = (r, t)" by (cases "flush s")
  have i: "inv t" using flush_inv [OF Suc.prems(1) p] .
  note alive = flush_alive [OF Suc.prems(1,2) p]
  show ?case using Suc.IH [OF i] Suc.prems(3) alive p by (cases r) auto
qed

end

text \<open>
  A writer that makes progress as long as its upstream does: \<open>live s b\<close> says that the upstream will
  accept \<open>b\<close> calls beyond those that drain the queue; a byte of plaintext costs at most \<open>rate\<close>
  of them.
\<close>

locale live_writer = byte_writer +
  fixes live :: "'a \<Rightarrow> nat \<Rightarrow> bool"
    and meas :: "'a \<Rightarrow> nat"
    and rate :: nat
  assumes live_pending: "inv s \<Longrightarrow> live s b \<Longrightarrow> rate * length xs < b \<Longrightarrow> xs \<noteq> [] \<Longrightarrow>
      poll s xs = (Pending, s') \<Longrightarrow> live s' b \<and> meas s' < meas s"
    and live_ready: "inv s \<Longrightarrow> live s b \<Longrightarrow> rate * length xs < b \<Longrightarrow> xs \<noteq> [] \<Longrightarrow>
      poll s xs = (Ready r, s') \<Longrightarrow> \<exists>n. r = Inr n \<and> 0 < n \<and> live s' (b - rate * n) \<and> meas s' \<le> meas s"
    and live_flush_pending: "inv s \<Longrightarrow> live s b \<Longrightarrow> 0 < b \<Longrightarrow> flush s = (Pending, s') \<Longrightarrow>
      live s' b \<and> meas s' < meas s"
    and live_flush_ready: "inv s \<Longrightarrow> live s b \<Longrightarrow> 0 < b \<Longrightarrow> flush s = (Ready f, s') \<Longrightarrow> f = Inr ()"
begin

lemma write_loop_live:
  "inv s \<Longrightarrow> live s b \<Longrightarrow> rate * length xs < b \<Longrightarrow> meas s + length xs < fuel \<Longrightarrow>
   \<exists>s'. write_loop poll fuel xs s = Some (Inr (), s') \<and> live s' (b - rate * length xs) \<and> meas s' \<le> meas s"
proof (induction fuel arbitrary: xs s b)
  case 0
  then show ?case by simp
next
  case (Suc fuel)
  obtain r t where p: "poll s xs = (r, t)" by (cases "poll s xs")
  have i: "inv t" using poll_inv [OF Suc.prems(1) p] .
  show ?case
  proof (cases "xs = []")
    case True
    then show ?thesis using Suc.prems by auto
  next
    case False
    show ?thesis
    proof (cases r)
      case Pending
      have "live t b" "meas t < meas s"
        using live_pending [OF Suc.prems(1-3) False p [unfolded Pending]] by simp_all
      with Suc.IH [OF i, of b xs] Suc.prems p Pending False show ?thesis by fastforce
    next
      case (Ready x)
      then obtain n where x: "x = Inr n" "live t (b - rate * n)" "meas t \<le> meas s" "0 < n"
        using live_ready [OF Suc.prems(1-3) False p [unfolded Ready]] by blast
      have n: "0 < n" "n \<le> length xs"
        using poll_ok [OF Suc.prems(1) p [unfolded Ready x(1)]] x(4) by auto
      have m: "rate * n + rate * length (drop n xs) = rate * length xs"
        using n by (simp flip: distrib_left)
      obtain s' where s': "write_loop poll fuel (drop n xs) t = Some (Inr (), s')"
        "live s' (b - rate * n - rate * length (drop n xs))" "meas s' \<le> meas t"
      proof (rule exE [OF Suc.IH [OF i x(2), of "drop n xs"]])
        show "rate * length (drop n xs) < b - rate * n" using Suc.prems(3) m by linarith
        show "meas t + length (drop n xs) < fuel" using Suc.prems(4) n x(3) by simp
      qed blast
      have "b - rate * n - rate * length (drop n xs) = b - rate * length xs" using m by linarith
      with s' p Ready x n False show ?thesis by simp
    qed
  qed
qed

lemma flush_loop_live:
  "inv s \<Longrightarrow> live s b \<Longrightarrow> 0 < b \<Longrightarrow> meas s < fuel \<Longrightarrow>
   \<exists>s'. flush_loop flush fuel s = Some (Inr (), s')"
proof (induction fuel arbitrary: s)
  case 0
  then show ?case by simp
next
  case (Suc fuel)
  obtain r t where p: "flush s = (r, t)" by (cases "flush s")
  show ?case
  proof (cases r)
    case Pending
    then have "live t b" "meas t < meas s" "inv t"
      using live_flush_pending [OF Suc.prems(1-3)] flush_inv [OF Suc.prems(1)] p by blast+
    with Suc.IH [of t] Suc.prems p Pending show ?thesis by simp
  next
    case (Ready x)
    then show ?thesis using live_flush_ready [OF Suc.prems(1-3)] p by auto
  qed
qed

end

text \<open>A plain sink, such as the socket half under the wrappers, fulfils the contract.\<close>

definition sink_ready :: "sink \<Rightarrow> nat \<Rightarrow> bool" where
  "sink_ready k b \<longleftrightarrow> sink_live k \<and> b \<le> ok_count k"

lemma sink_poll_ready:
  assumes "sink_ready k b" "0 < b" "xs \<noteq> []" "sink_poll k xs = (Ready r, k')"
  shows "\<exists>n. r = Inr n \<and> 0 < n \<and> n \<le> length xs \<and> sink_ready k' (b - n)"
proof -
  have L: "sink_live k'" "case Ready r of
     Pending \<Rightarrow> ok_count k' = ok_count k \<and> length (sk_script k') < length (sk_script k)
   | Ready (Inl e) \<Rightarrow> False
   | Ready (Inr n) \<Rightarrow> 0 < n \<and> ok_count k = Suc (ok_count k')"
    using sink_poll_live [OF _ assms(4) _ assms(3)] assms(1,2) by (auto simp: sink_ready_def)
  then obtain n where n: "r = Inr n" "0 < n" "ok_count k = Suc (ok_count k')"
    by (auto split: sum.splits)
  moreover have "n \<le> length xs" using sink_poll_ok assms(4) n(1) by blast
  ultimately show ?thesis using L(1) assms(1) by (auto simp: sink_ready_def)
qed

interpretation raw_out: live_writer sink_poll sink_control sk_written "\<lambda>k. []" "\<lambda>k. False" "\<lambda>k. True"
    sink_ready "\<lambda>k. length (sk_script k)" 1
proof (unfold_locales, goal_cases)
  case (13 k b xs k')
  then show ?case
    by (auto simp: sink_ready_def sink_poll.simps sink_live_def ok_count_def
        split: list.splits write_event.splits)
next
  case (14 k b xs r k')
  then show ?case
    using sink_poll_ready [of k b xs r k'] sink_poll_script [of k xs "Ready r" k'] by auto
next
  case (15 k b k')
  then show ?case using sink_control_live [of k Pending k'] by (auto simp: sink_ready_def)
next
  case (16 k b f k')
  then show ?case
    using sink_control_live [of k "Ready f" k'] by (auto simp: sink_ready_def split: sum.splits)
qed (auto dest: sink_poll_ok sink_poll_not_ok sink_control_written)

interpretation raw_in: complete_reader "\<lambda>u n. source_poll n u" source_bytes source_wf source_meas
proof (unfold_locales, goal_cases)
  case (5 u n u')
  then show ?case using source_poll_eof [of u n u'] by simp
qed (blast dest: source_poll_wf, simp add: source_poll_bytes, simp add: source_poll_pending source_poll_size_less,
    simp add: source_poll_size_less, blast dest: source_poll_error)

end
