(* ===== verification/Tls_Stream.thy ===== *)
theory Tls_Stream
  imports Async_Io Constants
begin

section \<open>The FakeTLS streams (\<open>stream/tls_stream.rs\<close>)\<close>

text \<open>
  The reader unwraps TLS records and hands out the payloads of application data records, skipping
  change-cipher records; the writer wraps outgoing bytes into application data records. Both are
  state machines that survive partial reads and writes of the upstream. The states, the header
  validation, the two inner read loops and the poll functions follow the source; the main loop of
  \<open>poll_read\<close> terminates because every round trip through its states consumes upstream bytes.
\<close>

subsection \<open>Record headers\<close>

definition TLS_HEADER_SIZE :: nat where "TLS_HEADER_SIZE = 5"
definition MAX_TLS_PAYLOAD :: nat where "MAX_TLS_PAYLOAD = 16384 + 256"
definition MAX_PENDING_WRITE :: nat where "MAX_PENDING_WRITE = 64 * 1024"

record tls_record_header =
  rh_type :: byte
  rh_version :: bytes
  rh_length :: u16

definition rh_parse :: "bytes \<Rightarrow> tls_record_header option" where
  "rh_parse h = Some \<lparr>rh_type = h ! 0, rh_version = [h ! 1, h ! 2],
     rh_length = u16_from_be_bytes [h ! 3, h ! 4]\<rparr>"

definition rh_validate :: "tls_record_header \<Rightarrow> unit io_result" where
  "rh_validate h =
     (if rh_version h \<noteq> [0x03, 0x01] \<and> rh_version h \<noteq> TLS_VERSION then
        Inl (io_err InvalidData ''Invalid TLS version: {:02x?}'' (map unat (rh_version h)))
      else
        let len = unat (rh_length h) in
        if rh_type h = TLS_RECORD_APPLICATION then
          if len > MAX_TLS_CHUNK_SIZE then
            Inl (io_err InvalidData ''TLS record too large: {} bytes (max {})'' [len, MAX_TLS_CHUNK_SIZE])
          else Inr ()
        else if len > MAX_TLS_PAYLOAD then
          Inl (io_err InvalidData ''TLS control record too large: {} bytes (max {})''
            [len, MAX_TLS_PAYLOAD])
        else Inr ())"

definition rh_to_bytes :: "tls_record_header \<Rightarrow> bytes" where
  "rh_to_bytes h =
     [rh_type h, rh_version h ! 0, rh_version h ! 1,
      ucast (drop_bit 8 (rh_length h)), ucast (rh_length h)]"

subsection \<open>Reader states\<close>

datatype tls_reader_state =
    TIdle
  | TReadingHeader header_buffer
  | TReadingBody byte nat bytes
  | TYielding yield_buffer
  | TPoisoned "io_error option"

fun tls_reader_is_poisoned :: "tls_reader_state \<Rightarrow> bool" where
  "tls_reader_is_poisoned (TPoisoned _) = True"
| "tls_reader_is_poisoned _ = False"

fun tls_reader_state_name :: "tls_reader_state \<Rightarrow> string" where
  "tls_reader_state_name TIdle = ''Idle''"
| "tls_reader_state_name (TReadingHeader _) = ''ReadingHeader''"
| "tls_reader_state_name (TReadingBody _ _ _) = ''ReadingBody''"
| "tls_reader_state_name (TYielding _) = ''Yielding''"
| "tls_reader_state_name (TPoisoned _) = ''Poisoned''"

record tls_reader =
  tr_upstream :: source
  tr_state :: tls_reader_state

definition tls_reader_new :: "source \<Rightarrow> tls_reader" where
  "tls_reader_new u = \<lparr>tr_upstream = u, tr_state = TIdle\<rparr>"

text \<open>\<open>take_poison_error\<close>: the stored error is handed out once.\<close>

fun tls_take_poison :: "tls_reader_state \<Rightarrow> io_error \<times> tls_reader_state" where
  "tls_take_poison (TPoisoned e) =
     ((case e of Some x \<Rightarrow> x | None \<Rightarrow> io_err OtherKind ''stream previously poisoned'' []), TPoisoned None)"
| "tls_take_poison s = (io_err OtherKind ''stream not poisoned'' [], s)"

subsection \<open>The inner read loops\<close>

datatype header_poll = HPending | HEof | HComplete tls_record_header | HError io_error

datatype body_poll = BPending | BComplete bytes | BError io_error

function poll_read_header :: "source \<Rightarrow> header_buffer \<Rightarrow> header_poll \<times> source \<times> header_buffer" where
  "poll_read_header u h =
     (if hb_is_complete h then
        case rh_parse (hb_data h) of
          Some p \<Rightarrow> (HComplete p, u, h)
        | None \<Rightarrow> (HError (io_err InvalidData ''failed to parse TLS header'' []), u, h)
      else
        case source_poll (length (hb_unfilled h)) u of
          (Pending, u') \<Rightarrow> (HPending, u', h)
        | (Ready (Inl e), u') \<Rightarrow> (HError e, u', h)
        | (Ready (Inr bs), u') \<Rightarrow>
            if bs = [] then
              (if hb_as_slice h = [] then HEof
               else HError (io_err UnexpectedEof ''unexpected EOF in TLS header (got {} of 5 bytes)''
                 [length (hb_as_slice h)]), u', h)
            else poll_read_header u' (hb_advance (hb_fill h bs) (length bs)))"
  by pat_completeness auto
termination
  by (relation "measure (\<lambda>(u, h). source_meas u)") (auto dest!: sym [THEN source_poll_size_less(2)])

function poll_read_body :: "source \<Rightarrow> bytes \<Rightarrow> nat \<Rightarrow> body_poll \<times> source \<times> bytes" where
  "poll_read_body u buf target =
     (if length buf < target then
        case source_poll (min (target - length buf) 8192) u of
          (Pending, u') \<Rightarrow> (BPending, u', buf)
        | (Ready (Inl e), u') \<Rightarrow> (BError e, u', buf)
        | (Ready (Inr bs), u') \<Rightarrow>
            if bs = [] then
              (BError (io_err UnexpectedEof ''unexpected EOF in TLS body (got {} of {} bytes)''
                 [length buf, target]), u', buf)
            else poll_read_body u' (buf @ bs) target
      else (BComplete buf, u, []))"
  by pat_completeness auto
termination
  by (relation "measure (\<lambda>(u, buf, target). source_meas u)") (auto dest!: sym [THEN source_poll_size_less(2)])

declare poll_read_header.simps [simp del]
declare poll_read_body.simps [simp del]

lemma poll_read_header_size: "source_meas (fst (snd (poll_read_header u h))) \<le> source_meas u"
proof (induction u h rule: poll_read_header.induct)
  case (1 u h)
  show ?case
  proof (cases "hb_is_complete h")
    case True
    then show ?thesis by (simp add: poll_read_header.simps [of u h] rh_parse_def)
  next
    case False
    obtain r u' where p: "source_poll (length (hb_unfilled h)) u = (r, u')"
      by (cases "source_poll (length (hb_unfilled h)) u")
    have "source_meas u' \<le> source_meas u" using source_poll_size [OF p] .
    with 1 [OF False p [symmetric]] False p show ?thesis
      by (fastforce simp: poll_read_header.simps [of u h] split: poll.splits sum.splits)
  qed
qed

lemma poll_read_header_size_less:
  assumes "poll_read_header u h = (HComplete p, u', h')" "\<not> hb_is_complete h"
  shows "source_meas u' < source_meas u"
proof -
  obtain r v where r: "source_poll (length (hb_unfilled h)) u = (r, v)"
    by (cases "source_poll (length (hb_unfilled h)) u")
  then obtain bs where bs: "r = Ready (Inr bs)" "bs \<noteq> []"
    and h: "poll_read_header v (hb_advance (hb_fill h bs) (length bs)) = (HComplete p, u', h')"
    using assms by (auto simp: poll_read_header.simps [of u h] split: poll.splits sum.splits if_splits)
  have "source_meas v < source_meas u"
    using source_poll_size_less(2) r bs by blast
  moreover have "source_meas u' \<le> source_meas v"
    using poll_read_header_size [of v "hb_advance (hb_fill h bs) (length bs)"] h by simp
  ultimately show ?thesis by simp
qed

lemma poll_read_body_size: "source_meas (fst (snd (poll_read_body u buf n))) \<le> source_meas u"
proof (induction u buf n rule: poll_read_body.induct)
  case (1 u buf n)
  show ?case
  proof (cases "length buf < n")
    case False
    then show ?thesis by (simp add: poll_read_body.simps [of u buf])
  next
    case True
    obtain r u' where p: "source_poll (min (n - length buf) 8192) u = (r, u')"
      by (cases "source_poll (min (n - length buf) 8192) u")
    have "source_meas u' \<le> source_meas u" using source_poll_size [OF p] .
    with 1 [OF True p [symmetric]] True p show ?thesis
      by (fastforce simp: poll_read_body.simps [of u buf] split: poll.splits sum.splits)
  qed
qed


subsection \<open>\<open>poll_read\<close>\<close>

text \<open>The caller's buffer has room for \<open>n\<close> bytes. The measure orders the states of one round: a
  fresh header must be filled from the upstream before a body is entered.\<close>

fun tls_state_rank :: "tls_reader_state \<Rightarrow> nat" where
  "tls_state_rank TIdle = 2"
| "tls_state_rank (TReadingHeader h) = (if hb_is_complete h then 4 else 1)"
| "tls_state_rank (TReadingBody _ _ _) = 3"
| "tls_state_rank _ = 0"

lemma hb_new_incomplete: "\<not> hb_is_complete (hb_new TLS_HEADER_SIZE)"
  by (simp add: hb_is_complete_def hb_new_def TLS_HEADER_SIZE_def)

lemma header_round:
  "(HComplete p, u', h') = poll_read_header u h \<Longrightarrow>
   source_meas u' < source_meas u \<or> hb_is_complete h \<and> source_meas u' \<le> source_meas u"
  using poll_read_header_size_less [of u h p u' h'] poll_read_header_size [of u h]
  by (metis fst_conv snd_conv)

lemma body_round: "(x, u', b') = poll_read_body u b k \<Longrightarrow> source_meas u' \<le> source_meas u"
  using poll_read_body_size [of u b k] by (metis fst_conv snd_conv)

function tls_poll_read :: "tls_reader \<Rightarrow> nat \<Rightarrow> bytes io_result poll \<times> tls_reader" where
  "tls_poll_read r n =
     (case tr_state r of
        TPoisoned error \<Rightarrow>
          (Ready (Inl (case error of Some e \<Rightarrow> e
             | None \<Rightarrow> io_err OtherKind ''stream previously poisoned'' [])),
           r\<lparr>tr_state := TPoisoned None\<rparr>)
      | TYielding buffer \<Rightarrow>
          if n = 0 then (Ready (Inr []), r)
          else let (copied, buffer') = yb_copy_to buffer (min (yb_remaining buffer) n)
               in (Ready (Inr copied),
                   r\<lparr>tr_state := (if yb_is_empty buffer' then TIdle else TYielding buffer')\<rparr>)
      | TIdle \<Rightarrow>
          if n = 0 then (Ready (Inr []), r)
          else tls_poll_read (r\<lparr>tr_state := TReadingHeader (hb_new TLS_HEADER_SIZE)\<rparr>) n
      | TReadingHeader header \<Rightarrow>
          (case poll_read_header (tr_upstream r) header of
             (HPending, u, header') \<Rightarrow> (Pending, \<lparr>tr_upstream = u, tr_state = TReadingHeader header'\<rparr>)
           | (HEof, u, header') \<Rightarrow> (Ready (Inr []), \<lparr>tr_upstream = u, tr_state = TIdle\<rparr>)
           | (HError e, u, header') \<Rightarrow>
               (Ready (Inl e), \<lparr>tr_upstream = u, tr_state = TPoisoned (Some e)\<rparr>)
           | (HComplete parsed, u, header') \<Rightarrow>
               (case rh_validate parsed of
                  Inl e \<Rightarrow> (Ready (Inl e), \<lparr>tr_upstream = u, tr_state = TPoisoned (Some e)\<rparr>)
                | Inr _ \<Rightarrow>
                    tls_poll_read \<lparr>tr_upstream = u,
                      tr_state = TReadingBody (rh_type parsed) (unat (rh_length parsed)) []\<rparr> n))
      | TReadingBody record_type len buffer \<Rightarrow>
          (case poll_read_body (tr_upstream r) buffer len of
             (BPending, u, buffer') \<Rightarrow>
               (Pending, \<lparr>tr_upstream = u, tr_state = TReadingBody record_type len buffer'\<rparr>)
           | (BError e, u, buffer') \<Rightarrow>
               (Ready (Inl e), \<lparr>tr_upstream = u, tr_state = TPoisoned (Some e)\<rparr>)
           | (BComplete data, u, buffer') \<Rightarrow>
               if record_type = TLS_RECORD_CHANGE_CIPHER then
                 tls_poll_read \<lparr>tr_upstream = u, tr_state = TIdle\<rparr> n
               else if record_type = TLS_RECORD_APPLICATION then
                 if data = [] then tls_poll_read \<lparr>tr_upstream = u, tr_state = TIdle\<rparr> n
                 else tls_poll_read \<lparr>tr_upstream = u, tr_state = TYielding (yb_new data)\<rparr> n
               else if record_type = TLS_RECORD_ALERT then
                 (Ready (Inr []), \<lparr>tr_upstream = u, tr_state = TIdle\<rparr>)
               else if record_type = TLS_RECORD_HANDSHAKE then
                 (let e = io_err InvalidData ''unexpected TLS handshake record'' []
                  in (Ready (Inl e), \<lparr>tr_upstream = u, tr_state = TPoisoned (Some e)\<rparr>))
               else
                 (let e = io_err InvalidData ''unknown TLS record type: 0x{:02x}'' [unat record_type]
                  in (Ready (Inl e), \<lparr>tr_upstream = u, tr_state = TPoisoned (Some e)\<rparr>))))"
  by pat_completeness auto
termination
  by (relation "measure (\<lambda>(r, n). 5 * source_meas (tr_upstream r) + tls_state_rank (tr_state r))")
    (auto simp: hb_new_incomplete dest!: header_round body_round)

declare tls_poll_read.simps [simp del]

subsection \<open>What a record stream carries\<close>

text \<open>
  \<open>tls_records\<close> cuts a byte stream into its complete records, up to the first header that does not
  validate; \<open>tls_payload\<close> is what a reader must deliver of them: application data in order,
  change-cipher and alert records carry nothing, any other type ends the stream.
\<close>

function tls_records :: "bytes \<Rightarrow> (byte \<times> bytes) list" where
  "tls_records s =
     (if length s < 5 then []
      else case rh_parse (take 5 s) of
          None \<Rightarrow> []
        | Some h \<Rightarrow>
            (case rh_validate h of
               Inl e \<Rightarrow> []
             | Inr _ \<Rightarrow>
                 if length (drop 5 s) < unat (rh_length h) then []
                 else (rh_type h, take (unat (rh_length h)) (drop 5 s)) #
                   tls_records (drop (unat (rh_length h)) (drop 5 s))))"
  by pat_completeness auto
termination
  by (relation "measure length") auto

declare tls_records.simps [simp del]

fun tls_payload :: "(byte \<times> bytes) list \<Rightarrow> bytes" where
  "tls_payload [] = []"
| "tls_payload ((ty, p) # rs) =
     (if ty = TLS_RECORD_APPLICATION then p @ tls_payload rs
      else if ty = TLS_RECORD_CHANGE_CIPHER \<or> ty = TLS_RECORD_ALERT then tls_payload rs
      else [])"

definition no_alert :: "(byte \<times> bytes) list \<Rightarrow> bool" where
  "no_alert rs \<longleftrightarrow> (\<forall>r\<in>set rs. fst r \<noteq> TLS_RECORD_ALERT)"

definition body_records :: "byte \<Rightarrow> nat \<Rightarrow> bytes \<Rightarrow> (byte \<times> bytes) list" where
  "body_records ty len s =
     (if length s < len then [] else (ty, take len s) # tls_records (drop len s))"

text \<open>The records a reader has still to go through, and the bytes it will deliver.\<close>

fun tls_pending_records :: "tls_reader_state \<Rightarrow> bytes \<Rightarrow> (byte \<times> bytes) list" where
  "tls_pending_records TIdle s = tls_records s"
| "tls_pending_records (TReadingHeader h) s = tls_records (hb_as_slice h @ s)"
| "tls_pending_records (TReadingBody ty len buf) s = body_records ty len (buf @ s)"
| "tls_pending_records (TYielding y) s = (TLS_RECORD_APPLICATION, yb_as_slice y) # tls_records s"
| "tls_pending_records (TPoisoned e) s = []"

definition tls_reader_records :: "tls_reader \<Rightarrow> (byte \<times> bytes) list" where
  "tls_reader_records r = tls_pending_records (tr_state r) (source_bytes (tr_upstream r))"

definition tls_content :: "tls_reader \<Rightarrow> bytes" where
  "tls_content r = tls_payload (tls_reader_records r)"

fun tls_state_wf :: "tls_reader_state \<Rightarrow> bool" where
  "tls_state_wf TIdle = True"
| "tls_state_wf (TReadingHeader h) = (hb_wf 5 h \<and> \<not> hb_is_complete h)"
| "tls_state_wf (TReadingBody ty len buf) = (length buf \<le> len \<and> len \<le> MAX_TLS_PAYLOAD)"
| "tls_state_wf (TYielding y) = (yb_as_slice y \<noteq> [] \<and> yb_remaining y \<le> MAX_TLS_PAYLOAD)"
| "tls_state_wf (TPoisoned e) = True"

definition tls_reader_wf :: "tls_reader \<Rightarrow> bool" where
  "tls_reader_wf r \<longleftrightarrow> source_wf (tr_upstream r) \<and> tls_state_wf (tr_state r)"

fun tls_state_buffered :: "tls_reader_state \<Rightarrow> nat" where
  "tls_state_buffered (TReadingBody _ _ buf) = length buf"
| "tls_state_buffered (TYielding y) = yb_remaining y"
| "tls_state_buffered _ = 0"

definition tls_reader_meas :: "tls_reader \<Rightarrow> nat" where
  "tls_reader_meas r = source_meas (tr_upstream r) + tls_state_buffered (tr_state r)"

lemma source_poll_meas:
  "source_poll n u = (Ready (Inr bs), u') \<Longrightarrow> source_meas u' + length bs \<le> source_meas u"
  by (cases "(n, u)" rule: source_poll.cases) (auto split: if_splits)

lemma rh_validate_bound: "rh_validate h = Inr x \<Longrightarrow> unat (rh_length h) \<le> MAX_TLS_PAYLOAD"
  by (auto simp: rh_validate_def MAX_TLS_PAYLOAD_def MAX_TLS_CHUNK_SIZE_def Let_def split: if_splits)

lemma tls_records_header:
  assumes "length hdr = 5" "rh_parse hdr = Some h"
  shows "tls_records (hdr @ s) =
    (if rh_validate h = Inr () then body_records (rh_type h) (unat (rh_length h)) s else [])"
  using assms by (simp add: tls_records.simps [of "hdr @ s"] body_records_def split: sum.splits)

lemma tls_records_short: "length s < 5 \<Longrightarrow> tls_records s = []"
  by (simp add: tls_records.simps)

lemma poll_read_header_spec:
  assumes "source_wf u" "hb_wf 5 h" "poll_read_header u h = (x, u', h')"
  shows "source_wf u' \<and> hb_wf 5 h' \<and>
    (case x of
       HPending \<Rightarrow> hb_as_slice h' @ source_bytes u' = hb_as_slice h @ source_bytes u \<and>
         \<not> hb_is_complete h' \<and> source_meas u' < source_meas u
     | HEof \<Rightarrow> hb_as_slice h @ source_bytes u = [] \<and> u' = []
     | HComplete p \<Rightarrow> (\<exists>hdr. length hdr = 5 \<and> rh_parse hdr = Some p \<and>
         hb_as_slice h @ source_bytes u = hdr @ source_bytes u')
     | HError e \<Rightarrow> length (hb_as_slice h @ source_bytes u) < 5)"
  using assms
proof (induction u h rule: poll_read_header.induct)
  case (1 u h)
  show ?case
  proof (cases "hb_is_complete h")
    case True
    then show ?thesis
      using 1(2-) by (auto simp: poll_read_header.simps [of u h] rh_parse_def hb_complete_slice hb_wf_def
          intro!: exI [of _ "hb_data h"])
  next
    case False
    obtain r v where p: "source_poll (length (hb_unfilled h)) u = (r, v)"
      by (cases "source_poll (length (hb_unfilled h)) u")
    have l: "length (hb_unfilled h) = 5 - hb_filled h" "length (hb_as_slice h) = hb_filled h"
      "hb_filled h < 5"
      using 1(3) False by (auto simp: hb_wf_def hb_unfilled_def hb_as_slice_def hb_is_complete_def)
    have wf: "source_wf v" using source_poll_wf [OF 1(2) p] .
    show ?thesis
    proof (cases r)
      case Pending
      then show ?thesis
        using 1(2-) False p wf source_poll_pending source_poll_size_less(1)
        by (fastforce simp: poll_read_header.simps [of u h])
    next
      case (Ready y)
      show ?thesis
      proof (cases y)
        case (Inl e)
        then show ?thesis
          using 1(2-) False p wf Ready source_poll_error l by (auto simp: poll_read_header.simps [of u h])
      next
        case (Inr bs)
        show ?thesis
        proof (cases "bs = []")
          case True
          then have "u = []" using source_poll_eof [OF 1(2) _ p [unfolded Ready Inr True]] l by simp
          then show ?thesis
            using 1(2-) False p wf Ready Inr True l
            by (auto simp: poll_read_header.simps [of "[]" h] split: if_splits)
        next
          case ne: False
          have b: "source_bytes u = bs @ source_bytes v" "length bs \<le> 5 - hb_filled h"
            using source_poll_bytes p Ready Inr l by fastforce+
          note f = hb_fill_advance [OF 1(3) b(2)]
          have eq: "poll_read_header v (hb_advance (hb_fill h bs) (length bs)) = (x, u', h')"
            using 1(4) False p Ready Inr ne by (simp add: poll_read_header.simps [of u h])
          have m: "source_meas v < source_meas u"
            using source_poll_size_less(2) p Ready Inr ne by blast
          from 1(1) [OF False p [symmetric] Ready Inr ne wf f(3) eq] f(1) b(1) m
          show ?thesis by (auto split: header_poll.splits)
        qed
      qed
    qed
  qed
qed

lemma poll_read_body_spec:
  assumes "source_wf u" "length buf \<le> len" "poll_read_body u buf len = (x, u', buf')"
  shows "source_wf u' \<and>
    (case x of
       BPending \<Rightarrow> buf' @ source_bytes u' = buf @ source_bytes u \<and> length buf' \<le> len \<and>
         source_meas u' + length buf' < source_meas u + length buf
     | BComplete d \<Rightarrow> length d = len \<and> buf @ source_bytes u = d @ source_bytes u' \<and>
         source_meas u' + len \<le> source_meas u + length buf
     | BError e \<Rightarrow> length (buf @ source_bytes u) < len)"
  using assms
proof (induction u buf len rule: poll_read_body.induct)
  case (1 u buf len)
  show ?case
  proof (cases "length buf < len")
    case False
    then show ?thesis using 1(2-) by (auto simp: poll_read_body.simps [of u buf])
  next
    case True
    define k where "k = min (len - length buf) 8192"
    obtain r v where p: "source_poll k u = (r, v)"
      by (cases "source_poll k u")
    have wf: "source_wf v" using source_poll_wf [OF 1(2) p] .
    note simps = poll_read_body.simps [of u buf len] k_def [symmetric]
    show ?thesis
    proof (cases r)
      case Pending
      then show ?thesis
        using 1(2-) True p wf source_poll_pending source_poll_size_less(1)
        by (fastforce simp: simps)
    next
      case (Ready y)
      show ?thesis
      proof (cases y)
        case (Inl e)
        then show ?thesis
          using 1(2-) True p wf Ready source_poll_error by (auto simp: simps)
      next
        case (Inr bs)
        show ?thesis
        proof (cases "bs = []")
          case emp: True
          then have "u = []"
            using source_poll_eof [OF 1(2) _ p [unfolded Ready Inr emp]] True by (simp add: k_def)
          then show ?thesis
            using 1(2-) True p wf Ready Inr emp by (auto simp: poll_read_body.simps [of "[]" buf])
        next
          case ne: False
          have b: "source_bytes u = bs @ source_bytes v" "length bs \<le> k"
            using source_poll_bytes p Ready Inr by fastforce+
          have eq: "poll_read_body v (buf @ bs) len = (x, u', buf')"
            using 1(4) True p Ready Inr ne by (simp add: simps)
          have m: "source_meas v + length bs \<le> source_meas u"
            using source_poll_meas p Ready Inr by blast
          have l: "length (buf @ bs) \<le> len" using b(2) True by (auto simp: k_def)
          from 1(1) [OF True p [unfolded k_def, symmetric] Ready Inr ne wf l eq] b(1) m
          show ?thesis by (auto split: body_poll.splits)
        qed
      qed
    qed
  qed
qed

text \<open>The contract of one poll, for every state of the reader.\<close>

definition tls_poll_ok :: "tls_reader \<Rightarrow> nat \<Rightarrow> bytes io_result poll \<Rightarrow> tls_reader \<Rightarrow> bool" where
  "tls_poll_ok r n x r' \<longleftrightarrow> tls_reader_wf r' \<and>
     (no_alert (tls_reader_records r) \<longrightarrow> no_alert (tls_reader_records r')) \<and>
     (case x of
        Pending \<Rightarrow> tls_content r' = tls_content r \<and> tls_reader_meas r' < tls_reader_meas r
      | Ready (Inl e) \<Rightarrow> tls_content r = [] \<and> tls_reader_is_poisoned (tr_state r')
      | Ready (Inr bs) \<Rightarrow> tls_content r = bs @ tls_content r' \<and> length bs \<le> n \<and>
          (bs \<noteq> [] \<longrightarrow> tls_reader_meas r' < tls_reader_meas r) \<and>
          (bs = [] \<and> 0 < n \<and> no_alert (tls_reader_records r) \<longrightarrow> tls_content r = []))"

text \<open>A step of the loop that keeps the content hands the contract on.\<close>

lemma tls_poll_ok_step:
  assumes "tls_poll_ok r1 n x r'" "tls_content r1 = tls_content r"
    "tls_reader_meas r1 \<le> tls_reader_meas r"
    "no_alert (tls_reader_records r) \<Longrightarrow> no_alert (tls_reader_records r1)"
  shows "tls_poll_ok r n x r'"
  using assms by (auto simp: tls_poll_ok_def split: poll.splits sum.splits)

lemmas tls_reader_defs = tls_content_def tls_reader_records_def tls_reader_meas_def tls_reader_wf_def

lemma tls_poll_yield:
  assumes "tls_reader_wf r" "tr_state r = TYielding y" "tls_poll_read r n = (x, r')"
  shows "tls_poll_ok r n x r'"
proof (cases "n = 0")
  case True
  then show ?thesis
    using assms by (auto simp: tls_poll_read.simps [of r] tls_poll_ok_def)
next
  case False
  obtain c y' where c: "yb_copy_to y (min (yb_remaining y) n) = (c, y')"
    by (cases "yb_copy_to y (min (yb_remaining y) n)")
  have s: "yb_as_slice y = c @ yb_as_slice y'" "length c = min (yb_remaining y) n"
    using yb_copy_to_split [OF c] by auto
  have ne: "c \<noteq> []" and len: "yb_remaining y = length c + yb_remaining y'"
    using assms(1,2) s False length_yb_slice [of y] length_yb_slice [of y']
    by (auto simp: tls_reader_defs min_def split: if_splits)
  have eq: "x = Ready (Inr c)"
    "r' = r\<lparr>tr_state := (if yb_is_empty y' then TIdle else TYielding y')\<rparr>"
    using assms(2,3) False c by (simp_all add: tls_poll_read.simps [of r] split: if_splits)
  have bs: "yb_remaining y' \<le> MAX_TLS_PAYLOAD" "source_wf (tr_upstream r)"
    using assms(1,2) len by (auto simp: tls_reader_defs)
  show ?thesis
  proof (cases "yb_is_empty y'")
    case True
    then show ?thesis
      using s ne len False assms(2) bs yb_is_empty_slice [of y']
      by (simp add: eq tls_poll_ok_def tls_reader_defs no_alert_def)
  next
    case nonempty: False
    then show ?thesis
      using s(1,2) ne len False assms(2) bs yb_is_empty_slice [of y']
      by (simp add: eq tls_poll_ok_def tls_reader_defs no_alert_def)
  qed
qed

lemma tls_poll_header:
  assumes wf: "tls_reader_wf r" and st: "tr_state r = TReadingHeader h"
    and poll: "tls_poll_read r n = (x, r')"
    and IH: "\<And>p u h' v. poll_read_header (tr_upstream r) h = (HComplete p, u, h') \<Longrightarrow>
      rh_validate p = Inr v \<Longrightarrow>
      tls_reader_wf \<lparr>tr_upstream = u, tr_state = TReadingBody (rh_type p) (unat (rh_length p)) []\<rparr> \<Longrightarrow>
      tls_poll_read \<lparr>tr_upstream = u, tr_state = TReadingBody (rh_type p) (unat (rh_length p)) []\<rparr> n = (x, r') \<Longrightarrow>
      tls_poll_ok \<lparr>tr_upstream = u, tr_state = TReadingBody (rh_type p) (unat (rh_length p)) []\<rparr> n x r'"
  shows "tls_poll_ok r n x r'"
proof -
  obtain y u h' where y: "poll_read_header (tr_upstream r) h = (y, u, h')"
    by (cases "poll_read_header (tr_upstream r) h")
  have spec: "source_wf u" "hb_wf 5 h'"
    and sp: "case y of
       HPending \<Rightarrow> hb_as_slice h' @ source_bytes u = hb_as_slice h @ source_bytes (tr_upstream r) \<and>
         \<not> hb_is_complete h' \<and> source_meas u < source_meas (tr_upstream r)
     | HEof \<Rightarrow> hb_as_slice h @ source_bytes (tr_upstream r) = [] \<and> u = []
     | HComplete p \<Rightarrow> (\<exists>hdr. length hdr = 5 \<and> rh_parse hdr = Some p \<and>
         hb_as_slice h @ source_bytes (tr_upstream r) = hdr @ source_bytes u)
     | HError e \<Rightarrow> length (hb_as_slice h @ source_bytes (tr_upstream r)) < 5"
    using poll_read_header_spec [OF _ _ y] wf st by (auto simp: tls_reader_defs)
  have m: "source_meas u \<le> source_meas (tr_upstream r)"
    using poll_read_header_size [of "tr_upstream r" h] y by simp
  note P = tls_poll_read.simps [of r n]
  show ?thesis
  proof (cases y)
    case HPending
    then show ?thesis
      using st poll y sp spec by (auto simp: P tls_poll_ok_def tls_reader_defs)
  next
    case HEof
    then show ?thesis
      using st poll y sp spec by (auto simp: P tls_poll_ok_def tls_reader_defs tls_records_short no_alert_def)
  next
    case (HError e)
    then show ?thesis
      using st poll y sp spec by (auto simp: P tls_poll_ok_def tls_reader_defs tls_records_short no_alert_def)
  next
    case (HComplete p)
    then obtain hdr where hdr: "length hdr = 5" "rh_parse hdr = Some p"
      "hb_as_slice h @ source_bytes (tr_upstream r) = hdr @ source_bytes u"
      using sp by auto
    note R = tls_records_header [OF hdr(1,2), of "source_bytes u"]
    show ?thesis
    proof (cases "rh_validate p")
      case (Inl e)
      then show ?thesis
        using st poll y HComplete spec hdr(3) R by (auto simp: P tls_poll_ok_def tls_reader_defs no_alert_def)
    next
      case (Inr v)
      let ?r1 = "\<lparr>tr_upstream = u, tr_state = TReadingBody (rh_type p) (unat (rh_length p)) []\<rparr>"
      have ok: "tls_poll_ok ?r1 n x r'"
        using st poll y HComplete Inr spec rh_validate_bound [OF Inr]
        by (intro IH [OF y [unfolded HComplete] Inr]) (auto simp: P tls_reader_defs)
      show ?thesis
        by (rule tls_poll_ok_step [OF ok]) (use st hdr(3) R Inr m in \<open>auto simp: tls_reader_defs\<close>)
    qed
  qed
qed

lemma record_types_distinct [simp]:
  "TLS_RECORD_CHANGE_CIPHER \<noteq> TLS_RECORD_APPLICATION" "TLS_RECORD_ALERT \<noteq> TLS_RECORD_APPLICATION"
  "TLS_RECORD_HANDSHAKE \<noteq> TLS_RECORD_APPLICATION" "TLS_RECORD_CHANGE_CIPHER \<noteq> TLS_RECORD_ALERT"
  "TLS_RECORD_HANDSHAKE \<noteq> TLS_RECORD_ALERT" "TLS_RECORD_HANDSHAKE \<noteq> TLS_RECORD_CHANGE_CIPHER"
  by (simp_all add: TLS_RECORD_CHANGE_CIPHER_def TLS_RECORD_APPLICATION_def TLS_RECORD_ALERT_def
      TLS_RECORD_HANDSHAKE_def)

lemma tls_poll_body:
  assumes wf: "tls_reader_wf r" and st: "tr_state r = TReadingBody ty len buf"
    and poll: "tls_poll_read r n = (x, r')"
    and IH: "\<And>d u b' s. poll_read_body (tr_upstream r) buf len = (BComplete d, u, b') \<Longrightarrow>
      s = TIdle \<and> ty = TLS_RECORD_CHANGE_CIPHER \<or> s = TIdle \<and> ty = TLS_RECORD_APPLICATION \<and> d = [] \<or>
      s = TYielding (yb_new d) \<and> ty = TLS_RECORD_APPLICATION \<and> d \<noteq> [] \<Longrightarrow>
      tls_reader_wf \<lparr>tr_upstream = u, tr_state = s\<rparr> \<Longrightarrow>
      tls_poll_read \<lparr>tr_upstream = u, tr_state = s\<rparr> n = (x, r') \<Longrightarrow>
      tls_poll_ok \<lparr>tr_upstream = u, tr_state = s\<rparr> n x r'"
  shows "tls_poll_ok r n x r'"
proof -
  obtain y u b' where y: "poll_read_body (tr_upstream r) buf len = (y, u, b')"
    by (cases "poll_read_body (tr_upstream r) buf len")
  have bounds: "length buf \<le> len" "len \<le> MAX_TLS_PAYLOAD" "source_wf (tr_upstream r)"
    using wf st by (auto simp: tls_reader_defs)
  note spec = poll_read_body_spec [OF bounds(3,1) y]
  note P = tls_poll_read.simps [of r n]
  show ?thesis
  proof (cases y)
    case BPending
    then show ?thesis
      using st poll y spec bounds by (auto simp: P tls_poll_ok_def tls_reader_defs body_records_def)
  next
    case (BError e)
    then show ?thesis
      using st poll y spec by (auto simp: P tls_poll_ok_def tls_reader_defs body_records_def no_alert_def)
  next
    case (BComplete d)
    have d: "length d = len" "buf @ source_bytes (tr_upstream r) = d @ source_bytes u"
      "source_meas u + len \<le> source_meas (tr_upstream r) + length buf" "source_wf u"
      using spec BComplete by auto
    have recs: "body_records ty len (d @ source_bytes u) = (ty, d) # tls_records (source_bytes u)"
      using d(1) by (simp add: body_records_def)
    define s where "s = (if ty = TLS_RECORD_APPLICATION \<and> d \<noteq> [] then TYielding (yb_new d) else TIdle)"
    show ?thesis
    proof (cases "ty = TLS_RECORD_CHANGE_CIPHER \<or> ty = TLS_RECORD_APPLICATION")
      case True
      have s: "s = TIdle \<and> ty = TLS_RECORD_CHANGE_CIPHER \<or> s = TIdle \<and> ty = TLS_RECORD_APPLICATION \<and> d = [] \<or>
        s = TYielding (yb_new d) \<and> ty = TLS_RECORD_APPLICATION \<and> d \<noteq> []"
        using True by (auto simp: s_def)
      have "tls_poll_read \<lparr>tr_upstream = u, tr_state = s\<rparr> n = (x, r')"
        using st poll y BComplete True by (auto simp: P s_def split: if_splits)
      moreover have "tls_reader_wf \<lparr>tr_upstream = u, tr_state = s\<rparr>"
        using d bounds(2) by (auto simp: tls_reader_defs s_def yb_new_def yb_as_slice_def yb_remaining_def)
      ultimately have ok: "tls_poll_ok \<lparr>tr_upstream = u, tr_state = s\<rparr> n x r'"
        using IH [OF y [unfolded BComplete] s] by blast
      show ?thesis
        by (rule tls_poll_ok_step [OF ok])
          (use st d recs True in \<open>auto simp: tls_reader_defs s_def no_alert_def yb_new_def yb_as_slice_def
            yb_remaining_def\<close>)
    next
      case False
      then show ?thesis
        using st poll y BComplete recs d
        by (auto simp: P tls_poll_ok_def tls_reader_defs no_alert_def Let_def split: if_splits)
    qed
  qed
qed

lemma tls_poll_read_ok:
  "tls_reader_wf r \<Longrightarrow> tls_poll_read r n = (x, r') \<Longrightarrow> tls_poll_ok r n x r'"
proof (induction r n rule: tls_poll_read.induct)
  case (1 r n)
  show ?case
  proof (cases "tr_state r")
    case TIdle
    let ?r1 = "r\<lparr>tr_state := TReadingHeader (hb_new TLS_HEADER_SIZE)\<rparr>"
    show ?thesis
    proof (cases "n = 0")
      case True
      then show ?thesis using 1(6,7) TIdle by (auto simp: tls_poll_read.simps [of r] tls_poll_ok_def)
    next
      case False
      have eq: "tls_poll_read ?r1 n = (x, r')"
        using 1(7) TIdle False by (simp add: tls_poll_read.simps [of r])
      have "tls_reader_wf ?r1"
        using 1(6) hb_new_wf [of 5] hb_new_incomplete by (simp add: tls_reader_defs TLS_HEADER_SIZE_def)
      from 1(1) [OF TIdle False this eq] show ?thesis
        by (rule tls_poll_ok_step) (use TIdle in \<open>auto simp: tls_reader_defs hb_new_def hb_as_slice_def\<close>)
    qed
  next
    case (TReadingHeader h)
    show ?thesis
      by (rule tls_poll_header [OF 1(6) TReadingHeader 1(7)])
        (rule 1(2) [OF TReadingHeader sym refl refl])
  next
    case (TReadingBody ty len buf)
    show ?thesis
    proof (rule tls_poll_body [OF 1(6) TReadingBody 1(7)], elim disjE conjE)
    qed (auto intro: 1(3) [OF TReadingBody sym refl refl] 1(4) [OF TReadingBody sym refl refl not_sym]
        1(5) [OF TReadingBody sym refl refl not_sym])
  next
    case (TYielding y)
    then show ?thesis using tls_poll_yield 1(6,7) by blast
  next
    case (TPoisoned e)
    then show ?thesis
      using 1(6,7) by (auto simp: tls_poll_read.simps [of r] tls_poll_ok_def tls_reader_defs)
  qed
qed

subsection \<open>The reader as a byte stream\<close>

text \<open>Reader states the upper layers see: the contract of \<open>byte_reader\<close> holds for every well-formed
  reader; a reader without alert records ahead also fulfils \<open>complete_reader\<close>.\<close>

definition tls_clean :: "tls_reader \<Rightarrow> bool" where
  "tls_clean r \<longleftrightarrow> tls_reader_wf r \<and> no_alert (tls_reader_records r)"

interpretation tls_in: byte_reader tls_poll_read tls_content tls_reader_wf tls_reader_meas
  by unfold_locales (auto dest!: tls_poll_read_ok simp: tls_poll_ok_def)

interpretation tls_full: complete_reader tls_poll_read tls_content tls_clean tls_reader_meas
  by unfold_locales (auto dest!: tls_poll_read_ok simp: tls_poll_ok_def tls_clean_def)

text \<open>\<open>FakeTlsReader::read_exact\<close>.\<close>

definition tls_read_exact :: "nat \<Rightarrow> tls_reader \<Rightarrow> nat \<Rightarrow> (bytes io_result \<times> tls_reader) option" where
  "tls_read_exact fuel r n =
     (if tls_reader_is_poisoned (tr_state r) then
        (case tls_take_poison (tr_state r) of (e, st) \<Rightarrow> Some (Inl e, r\<lparr>tr_state := st\<rparr>))
      else read_loop tls_poll_read fuel n [] r)"

lemma tls_reader_new_wf: "source_wf u \<Longrightarrow> tls_reader_wf (tls_reader_new u)"
  by (simp add: tls_reader_wf_def tls_reader_new_def)

lemma tls_reader_new_content: "tls_content (tls_reader_new u) = tls_payload (tls_records (source_bytes u))"
  by (simp add: tls_reader_defs tls_reader_new_def)

text \<open>C19: One poll of the FakeTLS reader, in any well-formed state and for any chunking of the
  upstream, keeps the reader well formed (so its buffers never hold more than one record of at most
  16640 bytes), hands out exactly the next bytes of the record payloads, and loses none: a pending
  poll keeps the content, a failing poll has nothing left to deliver and poisons the reader.\<close>

theorem tls_poll_read_conserves:
  assumes "tls_reader_wf r" "tls_poll_read r n = (x, r')"
  shows "tls_reader_wf r' \<and> tls_state_buffered (tr_state r') \<le> MAX_TLS_PAYLOAD \<and>
    (case x of
       Pending \<Rightarrow> tls_content r' = tls_content r
     | Ready (Inr bs) \<Rightarrow> tls_content r = bs @ tls_content r' \<and> length bs \<le> n
     | Ready (Inl e) \<Rightarrow> tls_content r = [] \<and> tls_reader_is_poisoned (tr_state r'))"
proof -
  have ok: "tls_poll_ok r n x r'" using tls_poll_read_ok assms by blast
  then have "tls_state_buffered (tr_state r') \<le> MAX_TLS_PAYLOAD"
    by (cases "tr_state r'") (auto simp: tls_poll_ok_def tls_reader_wf_def)
  with ok show ?thesis by (auto simp: tls_poll_ok_def split: poll.splits sum.splits)
qed

lemma tls_record_example:
  "tls_records [0x17, 3, 3, 0, 2, 7, 8] = [(TLS_RECORD_APPLICATION, [7, 8])]"
  by (simp add: tls_records.simps rh_parse_def rh_validate_def TLS_RECORD_APPLICATION_def TLS_VERSION_def
      u16_from_be_bytes_def from_be_def MAX_TLS_CHUNK_SIZE_def Let_def)

theorem tls_poll_read_conserves_witness:
  "\<exists>x r'. tls_poll_read (tls_reader_new [RdBytes [0x17, 3, 3], RdPending, RdBytes [0, 2, 7, 8]]) 1 = (x, r') \<and>
     tls_reader_wf r' \<and> tls_content r' = [7, 8]"
proof -
  let ?u = "[RdBytes [0x17, 3, 3 :: byte], RdPending, RdBytes [0, 2, 7, 8]]"
  have wf: "tls_reader_wf (tls_reader_new ?u)"
    by (rule tls_reader_new_wf) (simp add: source_wf_def)
  have c: "tls_content (tls_reader_new ?u) = [7, 8]"
    by (simp add: tls_reader_new_content tls_record_example)
  have "\<exists>r'. tls_poll_read (tls_reader_new ?u) 1 = (Pending, r')"
    by (simp add: tls_poll_read.simps poll_read_header.simps tls_reader_new_def hb_new_def hb_is_complete_def
        TLS_HEADER_SIZE_def hb_unfilled_def hb_fill_def hb_advance_def put_def)
  then obtain r' where r': "tls_poll_read (tls_reader_new ?u) 1 = (Pending, r')" by blast
  from tls_poll_read_conserves [OF wf r'] r' c show ?thesis by auto
qed

text \<open>C24: \<open>read_exact\<close> on the FakeTLS reader always ends (the fuel is bounded by what the upstream
  delivers); what it returns are exactly the next \<open>n\<close> payload bytes, whatever the record sizes and
  the chunking; and it succeeds when the stream carries \<open>n\<close> more bytes with no alert record ahead.\<close>

theorem tls_read_exact_correct:
  assumes "tls_reader_wf r" "\<not> tls_reader_is_poisoned (tr_state r)" "tls_reader_meas r < fuel"
  shows "\<exists>x r'. tls_read_exact fuel r n = Some (x, r') \<and>
    (\<forall>bs. x = Inr bs \<longrightarrow> tls_content r = bs @ tls_content r' \<and> length bs = n) \<and>
    (no_alert (tls_reader_records r) \<and> n \<le> length (tls_content r) \<longrightarrow> (\<exists>bs. x = Inr bs))"
proof -
  have eq: "tls_read_exact fuel r n = read_loop tls_poll_read fuel n [] r"
    using assms(2) by (simp add: tls_read_exact_def)
  obtain x r' where x: "read_loop tls_poll_read fuel n [] r = Some (x, r')"
    using tls_in.read_loop_ends [OF assms(1,3)] by blast
  have "tls_content r = bs @ tls_content r' \<and> length bs = n" if "x = Inr bs" for bs
    using tls_in.read_loop_content [OF assms(1), of "[]" n fuel bs r'] x that by simp
  moreover have "\<exists>bs. x = Inr bs" if "no_alert (tls_reader_records r)" "n \<le> length (tls_content r)"
    using tls_full.read_loop_succeeds [of r fuel "[]" n] assms that x by (auto simp: tls_clean_def)
  ultimately show ?thesis using eq x by simp
qed

theorem tls_read_exact_correct_witness:
  "\<exists>r'. tls_read_exact 20 (tls_reader_new [RdBytes [0x17, 3, 3], RdPending, RdBytes [0, 2, 7, 8]]) 2 =
     Some (Inr [7, 8], r')"
proof -
  let ?r = "tls_reader_new [RdBytes [0x17, 3, 3 :: byte], RdPending, RdBytes [0, 2, 7, 8]]"
  have wf: "tls_reader_wf ?r" by (rule tls_reader_new_wf) (simp add: source_wf_def)
  have m: "tls_reader_meas ?r < 20" "\<not> tls_reader_is_poisoned (tr_state ?r)"
    by (simp_all add: tls_reader_meas_def tls_reader_new_def)
  have c: "tls_content ?r = [7, 8]" "no_alert (tls_reader_records ?r)"
    by (simp_all add: tls_reader_new_content tls_record_example tls_reader_records_def tls_reader_new_def
        tls_content_def no_alert_def record_types_distinct [symmetric])
  obtain bs r' where r': "tls_read_exact 20 ?r 2 = Some (Inr bs, r')"
    "[7, 8] = bs @ tls_content r'" "length bs = 2"
    using tls_read_exact_correct [OF wf m(2,1), of 2] c by auto
  have "bs = [7, 8]" using r'(2,3) by (auto simp: Cons_eq_append_conv)
  with r'(1) show ?thesis by blast
qed

end
