(* ===== verification/Tls_Writer.thy ===== *)
theory Tls_Writer
  imports Tls_Stream "HOL-Library.Sublist"
begin

section \<open>The FakeTLS writer (\<open>stream/tls_stream.rs\<close>)\<close>

text \<open>
  \<open>FakeTlsWriter\<close> wraps each accepted chunk into one application data record. A record that the
  upstream takes only in part is kept and finished before new bytes are accepted, so the bytes sent
  followed by the bytes kept are always a sequence of complete records. The contract of
  \<open>byte_writer\<close> is interpreted on it with the plaintext of that sequence.
\<close>

subsection \<open>State and operations\<close>

datatype tls_writer_state =
    WIdle
  | WWritingRecord write_buffer nat
  | WPoisoned "io_error option"

fun tls_writer_is_poisoned :: "tls_writer_state \<Rightarrow> bool" where
  "tls_writer_is_poisoned (WPoisoned _) = True"
| "tls_writer_is_poisoned _ = False"

fun tls_writer_state_name :: "tls_writer_state \<Rightarrow> string" where
  "tls_writer_state_name WIdle = ''Idle''"
| "tls_writer_state_name (WWritingRecord _ _) = ''WritingRecord''"
| "tls_writer_state_name (WPoisoned _) = ''Poisoned''"

record tls_writer =
  tw_upstream :: sink
  tw_state :: tls_writer_state

definition tls_writer_new :: "sink \<Rightarrow> tls_writer" where
  "tls_writer_new k = \<lparr>tw_upstream = k, tw_state = WIdle\<rparr>"

fun tls_writer_has_pending :: "tls_writer_state \<Rightarrow> bool" where
  "tls_writer_has_pending (WWritingRecord rec _) = (\<not> wb_is_empty rec)"
| "tls_writer_has_pending _ = False"

definition build_record :: "bytes \<Rightarrow> bytes" where
  "build_record data =
     rh_to_bytes \<lparr>rh_type = TLS_RECORD_APPLICATION, rh_version = TLS_VERSION,
       rh_length = word_of_nat (length data)\<rparr> @ data"

datatype flush_result = FlComplete nat | FlPending | FlError io_error

function poll_flush_record_inner :: "sink \<Rightarrow> write_buffer \<Rightarrow> flush_result \<times> sink \<times> write_buffer" where
  "poll_flush_record_inner k rec =
     (if \<not> wb_is_empty rec then
        case sink_poll k (wb_pending rec) of
          (Pending, k') \<Rightarrow> (FlPending, k', rec)
        | (Ready (Inl e), k') \<Rightarrow> (FlError e, k', rec)
        | (Ready (Inr n), k') \<Rightarrow>
            if n = 0 then (FlError (io_err WriteZero ''upstream returned 0 bytes written'' []), k', rec)
            else poll_flush_record_inner k' (wb_advance rec n)
      else (FlComplete 0, k, rec))"
  by pat_completeness auto
termination
  by (relation "measure (\<lambda>(k, rec). length (sk_script k))") (auto dest!: sym [THEN sink_poll_ok])

declare poll_flush_record_inner.simps [simp del]

text \<open>The part of \<open>poll_write\<close> after the previous record is finished.\<close>

definition tls_write_record :: "sink \<Rightarrow> bytes \<Rightarrow> nat io_result poll \<times> tls_writer" where
  "tls_write_record k buf =
     (if buf = [] then (Ready (Inr 0), \<lparr>tw_upstream = k, tw_state = WIdle\<rparr>)
      else
        let chunk_size = min (length buf) MAX_TLS_PAYLOAD;
            chunk = take chunk_size buf;
            record_data = build_record chunk
        in case sink_poll k record_data of
             (Ready (Inr n), k') \<Rightarrow>
               if n = length record_data
               then (Ready (Inr chunk_size), \<lparr>tw_upstream = k', tw_state = WIdle\<rparr>)
               else (Ready (Inr chunk_size), \<lparr>tw_upstream = k', tw_state =
                 WWritingRecord (snd (wb_extend (wb_with_max_size MAX_PENDING_WRITE) (drop n record_data)))
                   chunk_size\<rparr>)
           | (Ready (Inl e), k') \<Rightarrow> (Ready (Inl e), \<lparr>tw_upstream = k', tw_state = WPoisoned (Some e)\<rparr>)
           | (Pending, k') \<Rightarrow>
               (Ready (Inr chunk_size), \<lparr>tw_upstream = k', tw_state =
                 WWritingRecord (snd (wb_extend (wb_with_max_size MAX_PENDING_WRITE) record_data))
                   chunk_size\<rparr>))"

definition tls_poll_write :: "tls_writer \<Rightarrow> bytes \<Rightarrow> nat io_result poll \<times> tls_writer" where
  "tls_poll_write w buf =
     (case tw_state w of
        WPoisoned error \<Rightarrow>
          (Ready (Inl (case error of Some e \<Rightarrow> e
             | None \<Rightarrow> io_err OtherKind ''stream previously poisoned'' [])),
           w\<lparr>tw_state := WPoisoned None\<rparr>)
      | WWritingRecord rec payload_size \<Rightarrow>
          (case poll_flush_record_inner (tw_upstream w) rec of
             (FlPending, k, rec') \<Rightarrow>
               (Pending, \<lparr>tw_upstream = k, tw_state = WWritingRecord rec' payload_size\<rparr>)
           | (FlError e, k, rec') \<Rightarrow>
               (Ready (Inl e), \<lparr>tw_upstream = k, tw_state = WPoisoned (Some e)\<rparr>)
           | (FlComplete _, k, rec') \<Rightarrow> tls_write_record k buf)
      | WIdle \<Rightarrow> tls_write_record (tw_upstream w) buf)"

definition tls_poll_flush :: "tls_writer \<Rightarrow> unit io_result poll \<times> tls_writer" where
  "tls_poll_flush w =
     (case tw_state w of
        WPoisoned error \<Rightarrow>
          (Ready (Inl (case error of Some e \<Rightarrow> e
             | None \<Rightarrow> io_err OtherKind ''stream previously poisoned'' [])),
           w\<lparr>tw_state := WPoisoned None\<rparr>)
      | WWritingRecord rec payload_size \<Rightarrow>
          (case poll_flush_record_inner (tw_upstream w) rec of
             (FlPending, k, rec') \<Rightarrow>
               (Pending, \<lparr>tw_upstream = k, tw_state = WWritingRecord rec' payload_size\<rparr>)
           | (FlError e, k, rec') \<Rightarrow>
               (Ready (Inl e), \<lparr>tw_upstream = k, tw_state = WPoisoned (Some e)\<rparr>)
           | (FlComplete _, k, rec') \<Rightarrow>
               (case sink_control k of (r, k') \<Rightarrow> (r, \<lparr>tw_upstream = k', tw_state = WIdle\<rparr>)))
      | WIdle \<Rightarrow> (case sink_control (tw_upstream w) of (r, k') \<Rightarrow> (r, \<lparr>tw_upstream = k', tw_state = WIdle\<rparr>)))"

definition tls_poll_shutdown :: "tls_writer \<Rightarrow> unit io_result poll \<times> tls_writer" where
  "tls_poll_shutdown w =
     (let k = (case tw_state w of
          WWritingRecord rec _ \<Rightarrow> fst (snd (poll_flush_record_inner (tw_upstream w) rec))
        | _ \<Rightarrow> tw_upstream w)
      in case sink_control k of (r, k') \<Rightarrow> (r, \<lparr>tw_upstream = k', tw_state = WIdle\<rparr>))"

text \<open>\<open>write_all_tls\<close>: chunk by chunk through \<open>write_all\<close>, then a flush. Each awaited loop has the
  given fuel.\<close>

function write_all_tls_from :: "nat \<Rightarrow> tls_writer \<Rightarrow> bytes \<Rightarrow> (unit io_result \<times> tls_writer) option" where
  "write_all_tls_from fuel w data =
     (if data = [] then Some (Inr (), w)
      else
        let chunk_size = min (length data) MAX_TLS_PAYLOAD in
        case write_loop tls_poll_write fuel (take chunk_size data) w of
          None \<Rightarrow> None
        | Some (Inl e, w') \<Rightarrow> Some (Inl e, w')
        | Some (Inr _, w') \<Rightarrow> write_all_tls_from fuel w' (drop chunk_size data))"
  by pat_completeness auto
termination
  by (relation "measure (\<lambda>(fuel, w, data). length data)") (auto simp: MAX_TLS_PAYLOAD_def)

declare write_all_tls_from.simps [simp del]

definition write_all_tls :: "nat \<Rightarrow> tls_writer \<Rightarrow> bytes \<Rightarrow> (unit io_result \<times> tls_writer) option" where
  "write_all_tls fuel w data =
     (case write_all_tls_from fuel w data of
        None \<Rightarrow> None
      | Some (Inl e, w') \<Rightarrow> Some (Inl e, w')
      | Some (Inr _, w') \<Rightarrow> flush_loop tls_poll_flush fuel w')"

subsection \<open>Records on the wire\<close>

lemma u16_be_split: "u16_from_be_bytes [ucast (drop_bit 8 w), ucast (w :: u16)] = w"
proof -
  have a: "unat (ucast (drop_bit 8 w) :: byte) = unat w div 256"
    using word_bound(1) [of w]
    by (simp add: unsigned_ucast_eq unsigned_drop_bit_eq take_bit_nat_def drop_bit_nat_def)
  have b: "unat (ucast w :: byte) = unat w mod 256"
    by (simp add: unsigned_ucast_eq take_bit_nat_def)
  have "from_be [ucast (drop_bit 8 w), ucast w] = unat w mod 256 + 256 * (unat w div 256)"
    by (simp add: from_be_def a b)
  then show ?thesis by (simp add: u16_from_be_bytes_def)
qed

lemma rh_roundtrip:
  "rh_version h = [a, b] \<Longrightarrow> rh_parse (rh_to_bytes h) = Some h \<and> length (rh_to_bytes h) = 5"
  by (cases h) (simp add: rh_parse_def rh_to_bytes_def u16_be_split)

lemma length_build_record: "length (build_record d) = 5 + length d"
  by (simp add: build_record_def rh_to_bytes_def)

lemma tls_records_build:
  assumes "length d \<le> MAX_TLS_PAYLOAD"
  shows "tls_records (build_record d @ s) = (TLS_RECORD_APPLICATION, d) # tls_records s"
proof -
  let ?h = "\<lparr>rh_type = TLS_RECORD_APPLICATION, rh_version = TLS_VERSION, rh_length = word_of_nat (length d) :: u16\<rparr>"
  have l: "unat (rh_length ?h) = length d"
    using assms by (simp add: unat_of_nat MAX_TLS_PAYLOAD_def)
  have p: "rh_parse (rh_to_bytes ?h) = Some ?h" "length (rh_to_bytes ?h) = 5"
    using rh_roundtrip [of ?h 3 3] by (simp_all add: TLS_VERSION_def)
  have "rh_validate ?h = Inr ()"
    using assms l by (simp add: rh_validate_def MAX_TLS_PAYLOAD_def MAX_TLS_CHUNK_SIZE_def Let_def)
  then show ?thesis
    using tls_records_header [OF p(2,1), of "d @ s"] l by (simp add: build_record_def body_records_def)
qed

definition chunk_ok :: "bytes \<Rightarrow> bool" where
  "chunk_ok c \<longleftrightarrow> c \<noteq> [] \<and> length c \<le> MAX_TLS_PAYLOAD"

lemma tls_records_chunks:
  "list_all chunk_ok cs \<Longrightarrow>
   tls_records (concat (map build_record cs) @ s) = map (Pair TLS_RECORD_APPLICATION) cs @ tls_records s"
  by (induction cs) (simp_all add: tls_records_build chunk_ok_def)

lemma tls_payload_chunks: "tls_payload (map (Pair TLS_RECORD_APPLICATION) cs @ rs) = concat cs @ tls_payload rs"
  by (induction cs) simp_all

lemma tls_plain_chunks:
  "list_all chunk_ok cs \<Longrightarrow> tls_payload (tls_records (concat (map build_record cs))) = concat cs"
  using tls_records_chunks [of cs "[]"] tls_payload_chunks [of cs "[]"] by (simp add: tls_records_short)

subsection \<open>Invariant and contract\<close>

fun tls_queued_of :: "tls_writer_state \<Rightarrow> bytes" where
  "tls_queued_of (WWritingRecord rec _) = wb_pending rec"
| "tls_queued_of _ = []"

definition tls_queued :: "tls_writer \<Rightarrow> bytes" where
  "tls_queued w = tls_queued_of (tw_state w)"

text \<open>Everything the writer has put on the wire since the first \<open>base\<close> bytes, including what it
  still keeps.\<close>

definition tls_wire :: "nat \<Rightarrow> tls_writer \<Rightarrow> bytes" where
  "tls_wire base w = drop base (sk_written (tw_upstream w)) @ tls_queued w"

definition tls_accepted :: "nat \<Rightarrow> tls_writer \<Rightarrow> bytes" where
  "tls_accepted base w = tls_payload (tls_records (tls_wire base w))"

fun tls_writer_state_wf :: "tls_writer_state \<Rightarrow> bool" where
  "tls_writer_state_wf (WWritingRecord rec n) = (wb_wf rec \<and> wb_max_size rec = MAX_PENDING_WRITE)"
| "tls_writer_state_wf _ = True"

definition tls_writer_inv :: "nat \<Rightarrow> tls_writer \<Rightarrow> bool" where
  "tls_writer_inv base w \<longleftrightarrow> base \<le> length (sk_written (tw_upstream w)) \<and>
     tls_writer_state_wf (tw_state w) \<and>
     (\<not> tls_writer_is_poisoned (tw_state w) \<longrightarrow>
        (\<exists>cs. list_all chunk_ok cs \<and> tls_wire base w = concat (map build_record cs)))"

lemma poll_flush_record_inner_spec:
  assumes "wb_wf rec" "poll_flush_record_inner k rec = (f, k', rec')"
  shows "wb_wf rec' \<and> wb_max_size rec' = wb_max_size rec \<and>
    sk_written k' @ wb_pending rec' = sk_written k @ wb_pending rec \<and>
    length (sk_written k) \<le> length (sk_written k') \<and> length (sk_script k') \<le> length (sk_script k) \<and>
    (\<forall>n. f = FlComplete n \<longrightarrow> wb_pending rec' = []) \<and>
    (sink_live k \<and> length (wb_pending rec) + b \<le> ok_count k \<and> 0 < b \<longrightarrow>
       sink_live k' \<and> length (wb_pending rec') + b \<le> ok_count k' \<and> (\<forall>e. f \<noteq> FlError e) \<and>
       (f = FlPending \<longrightarrow> length (sk_script k') < length (sk_script k)))"
  using assms
proof (induction k rec rule: poll_flush_record_inner.induct)
  case (1 k rec)
  show ?case
  proof (cases "wb_is_empty rec")
    case True
    then show ?thesis
      using 1(2-) by (auto simp: poll_flush_record_inner.simps [of k rec] wb_is_empty_pending)
  next
    case False
    obtain r v where p: "sink_poll k (wb_pending rec) = (r, v)" by (cases "sink_poll k (wb_pending rec)")
    have ne: "wb_pending rec \<noteq> []" using False by (simp add: wb_is_empty_pending)
    note eq = 1(3) [unfolded poll_flush_record_inner.simps [of k rec]]
    note live = sink_poll_live [OF _ p _ ne]
    note script = sink_poll_script [OF p]
    show ?thesis
    proof (cases r)
      case Pending
      then show ?thesis using eq 1(2) False p sink_poll_not_ok(1) live script by auto
    next
      case (Ready y)
      show ?thesis
      proof (cases y)
        case (Inl e)
        then show ?thesis using eq 1(2) False p Ready sink_poll_not_ok(2) live script by auto
      next
        case (Inr n)
        note sp = sink_poll_ok [OF p [unfolded Ready Inr]]
        show ?thesis
        proof (cases "n = 0")
          case True
          then show ?thesis using eq 1(2) False p Ready Inr live sp script by auto
        next
          case pos: False
          have eq': "poll_flush_record_inner v (wb_advance rec n) = (f, k', rec')"
            using eq False p Ready Inr pos by simp
          note IH = 1(1) [OF False p [symmetric] Ready Inr pos wb_advance_wf [OF 1(2)] eq']
          have adv: "wb_pending (wb_advance rec n) = drop n (wb_pending rec)"
            "wb_max_size (wb_advance rec n) = wb_max_size rec"
            using wb_pending_advance [OF 1(2)] by (auto simp: wb_advance_def Let_def)
          have "sink_live k \<Longrightarrow> 0 < ok_count k \<Longrightarrow> sink_live v \<and> ok_count k = Suc (ok_count v)"
            using live Ready Inr by auto
          then show ?thesis using IH adv sp script pos by auto
        qed
      qed
    qed
  qed
qed

text \<open>A record and what is kept of it after the upstream took \<open>n\<close> bytes.\<close>

lemma tls_keep_record:
  assumes "length d \<le> MAX_TLS_PAYLOAD" "wb_extend (wb_with_max_size MAX_PENDING_WRITE) (drop n (build_record d)) = (r, b)"
  shows "wb_wf b \<and> wb_max_size b = MAX_PENDING_WRITE \<and> wb_pending b = drop n (build_record d)"
  using assms wb_extend_wf [OF wb_new_wf, of MAX_PENDING_WRITE "drop n (build_record d)"]
  by (auto simp: wb_extend_def wb_with_max_size_def wb_pending_def length_build_record MAX_TLS_PAYLOAD_def
      MAX_PENDING_WRITE_def split: if_splits)

lemma tls_write_record_spec:
  assumes wf: "base \<le> length (sk_written k)" "list_all chunk_ok cs"
      "drop base (sk_written k) = concat (map build_record cs)"
    and eq: "tls_write_record k buf = (r, w')"
  shows "tls_writer_inv base w' \<and> r \<noteq> Pending \<and>
    (\<forall>n. r = Ready (Inr n) \<longrightarrow> n \<le> length buf \<and> (buf \<noteq> [] \<longrightarrow> 0 < n) \<and>
       tls_accepted base w' = concat cs @ take n buf) \<and>
    length (sk_script (tw_upstream w')) \<le> length (sk_script k)"
proof (cases "buf = []")
  case True
  then show ?thesis
    using assms by (auto simp: tls_write_record_def tls_writer_inv_def tls_wire_def tls_queued_def
        tls_accepted_def tls_plain_chunks)
next
  case False
  define n where "n = min (length buf) MAX_TLS_PAYLOAD"
  define c where "c = take n buf"
  have c: "chunk_ok c" "length c \<le> MAX_TLS_PAYLOAD" "0 < n" "n \<le> length buf"
    using False by (auto simp: c_def n_def chunk_ok_def MAX_TLS_PAYLOAD_def)
  obtain x k' where x: "sink_poll k (build_record c) = (x, k')" by (cases "sink_poll k (build_record c)")
  note E = eq [unfolded tls_write_record_def Let_def n_def [symmetric] c_def [symmetric]]
  note script = sink_poll_script [OF x]
  have new: "list_all chunk_ok (cs @ [c])" using wf(2) c(1) by simp
  have key: ?thesis
    if r: "r = Ready (Inr n)" and u: "tw_upstream w' = k'" and np: "\<not> tls_writer_is_poisoned (tw_state w')"
      and st: "tls_writer_state_wf (tw_state w')"
      and kw: "length (sk_written k) \<le> length (sk_written k')"
      and wire: "sk_written k' @ tls_queued w' = sk_written k @ build_record c"
  proof -
    have "drop base (sk_written k' @ tls_queued w') = drop base (sk_written k) @ build_record c"
      using wire wf(1) by simp
    then have w: "tls_wire base w' = concat (map build_record (cs @ [c]))"
      using wf kw u by (simp add: tls_wire_def)
    have inv: "tls_writer_inv base w'"
      unfolding tls_writer_inv_def using w wf(1) new st kw u by (metis order.trans)
    have acc: "tls_accepted base w' = concat cs @ take n buf"
      unfolding tls_accepted_def w using tls_plain_chunks [OF new] by (simp add: c_def)
    show ?thesis
      using inv acc r c(3,4) u script by simp
  qed
  show ?thesis
  proof (cases x)
    case Pending
    obtain r0 b where b: "wb_extend (wb_with_max_size MAX_PENDING_WRITE) (drop 0 (build_record c)) = (r0, b)"
      by fastforce
    show ?thesis
      using E False x Pending b tls_keep_record [OF c(2) b] sink_poll_not_ok(1) [of k _ k']
      by (intro key) (auto simp: tls_queued_def)
  next
    case (Ready y)
    show ?thesis
    proof (cases y)
      case (Inl e)
      then show ?thesis
        using E False x Ready wf(1) sink_poll_not_ok(2) script by (auto simp: tls_writer_inv_def)
    next
      case (Inr m)
      note sp = sink_poll_ok [OF x [unfolded Ready Inr]]
      obtain r0 b where b: "wb_extend (wb_with_max_size MAX_PENDING_WRITE) (drop m (build_record c)) = (r0, b)"
        by fastforce
      show ?thesis
        using E False x Ready Inr b tls_keep_record [OF c(2) b] sp
        by (intro key) (auto simp: tls_queued_def split: if_splits)
    qed
  qed
qed

text \<open>Liveness: a record of \<open>n\<close> payload bytes costs at most \<open>6 * n\<close> upstream calls.\<close>

definition tls_writer_live :: "tls_writer \<Rightarrow> nat \<Rightarrow> bool" where
  "tls_writer_live w b \<longleftrightarrow> \<not> tls_writer_is_poisoned (tw_state w) \<and> sink_live (tw_upstream w) \<and>
     length (tls_queued w) + b \<le> ok_count (tw_upstream w)"

definition tls_writer_meas :: "tls_writer \<Rightarrow> nat" where
  "tls_writer_meas w = length (sk_script (tw_upstream w))"

lemma tls_write_record_live:
  assumes live: "sink_live k" "b \<le> ok_count k" "6 * length buf < b" "buf \<noteq> []"
    and eq: "tls_write_record k buf = (Ready r, w')"
  shows "\<exists>n. r = Inr n \<and> tls_writer_live w' (b - 6 * n)"
proof -
  define n where "n = min (length buf) MAX_TLS_PAYLOAD"
  define c where "c = take n buf"
  have c: "length c \<le> MAX_TLS_PAYLOAD" "length c = n" "0 < n" "n \<le> length buf"
    using live(4) by (auto simp: c_def n_def MAX_TLS_PAYLOAD_def)
  have len: "length (build_record c) + (b - 6 * n) \<le> b"
    using c live(3) by (simp add: length_build_record)
  obtain x k' where x: "sink_poll k (build_record c) = (x, k')" by (cases "sink_poll k (build_record c)")
  note E = eq [unfolded tls_write_record_def Let_def n_def [symmetric] c_def [symmetric]]
  have ne: "build_record c \<noteq> []" using length_build_record [of c] by auto
  note L = sink_poll_live [OF live(1) x _ ne]
  have pos: "0 < ok_count k" "5 \<le> length (build_record c)" using live length_build_record [of c] by auto
  show ?thesis
  proof (cases x)
    case Pending
    obtain r0 q where q: "wb_extend (wb_with_max_size MAX_PENDING_WRITE) (drop 0 (build_record c)) = (r0, q)"
      by fastforce
    show ?thesis
      using E live(2,4) x Pending q tls_keep_record [OF c(1) q] L pos len
      by (auto simp: tls_queued_def tls_writer_live_def)
  next
    case (Ready y)
    show ?thesis
    proof (cases y)
      case (Inl e)
      then show ?thesis using L pos Ready by simp
    next
      case (Inr m)
      obtain r0 q where q: "wb_extend (wb_with_max_size MAX_PENDING_WRITE) (drop m (build_record c)) = (r0, q)"
        by fastforce
      show ?thesis
        using E live(2,4) x Ready Inr q tls_keep_record [OF c(1) q] L pos len
        by (auto simp: tls_queued_def tls_writer_live_def split: if_splits)
    qed
  qed
qed

text \<open>Finishing the kept record turns the invariant of the writer into the one of an idle writer.\<close>

lemma tls_flush_kept:
  assumes inv: "tls_writer_inv base w" and st: "tw_state w = WWritingRecord rec ps"
    and f: "poll_flush_record_inner (tw_upstream w) rec = (f, k, rec')"
  shows "tls_writer_inv base \<lparr>tw_upstream = k, tw_state = WWritingRecord rec' ps\<rparr>"
    "tls_wire base \<lparr>tw_upstream = k, tw_state = WWritingRecord rec' ps\<rparr> = tls_wire base w"
    "base \<le> length (sk_written k)"
    "f = FlComplete m \<Longrightarrow> drop base (sk_written k) = tls_wire base w"
    "length (sk_script k) \<le> length (sk_script (tw_upstream w))"
    "tls_writer_live w b \<Longrightarrow> 0 < b \<Longrightarrow>
       tls_writer_live \<lparr>tw_upstream = k, tw_state = WWritingRecord rec' ps\<rparr> b \<and> (\<forall>e. f \<noteq> FlError e) \<and>
       (f = FlPending \<longrightarrow> length (sk_script k) < length (sk_script (tw_upstream w)))"
proof -
  have wf: "wb_wf rec" "wb_max_size rec = MAX_PENDING_WRITE" "base \<le> length (sk_written (tw_upstream w))"
    using inv st by (auto simp: tls_writer_inv_def)
  note sp = poll_flush_record_inner_spec [OF wf(1) f]
  have "drop base (sk_written k @ wb_pending rec') = drop base (sk_written (tw_upstream w) @ wb_pending rec)"
    using sp [of b] by simp
  moreover have "base \<le> length (sk_written k)" using sp [of b] wf(3) by linarith
  ultimately have w: "drop base (sk_written k) @ wb_pending rec' = tls_wire base w"
    using wf(3) st by (simp add: tls_wire_def tls_queued_def)
  then show wire: "tls_wire base \<lparr>tw_upstream = k, tw_state = WWritingRecord rec' ps\<rparr> = tls_wire base w"
    by (simp add: tls_wire_def tls_queued_def)
  show "tls_writer_inv base \<lparr>tw_upstream = k, tw_state = WWritingRecord rec' ps\<rparr>"
    using inv wf sp [of b] st unfolding tls_writer_inv_def wire by auto
  show "base \<le> length (sk_written k)" using wf(3) sp [of b] by simp
  show "drop base (sk_written k) = tls_wire base w" if "f = FlComplete m"
    using w sp [of b] that by simp
  show "length (sk_script k) \<le> length (sk_script (tw_upstream w))" using sp [of b] by simp
  show "tls_writer_live \<lparr>tw_upstream = k, tw_state = WWritingRecord rec' ps\<rparr> b \<and> (\<forall>e. f \<noteq> FlError e) \<and>
       (f = FlPending \<longrightarrow> length (sk_script k) < length (sk_script (tw_upstream w)))"
    if "tls_writer_live w b" "0 < b"
    using sp [of b] that st by (simp add: tls_writer_live_def tls_queued_def)
qed

text \<open>The contract of \<open>poll_write\<close>.\<close>

lemma tls_poll_write_spec:
  assumes inv: "tls_writer_inv base w" and eq: "tls_poll_write w buf = (r, w')"
  shows "tls_writer_inv base w' \<and> tls_writer_meas w' \<le> tls_writer_meas w \<and>
    (r = Pending \<longrightarrow> tls_accepted base w' = tls_accepted base w) \<and>
    (\<forall>n. r = Ready (Inr n) \<longrightarrow> n \<le> length buf \<and> (buf \<noteq> [] \<longrightarrow> 0 < n) \<and>
       tls_accepted base w' = tls_accepted base w @ take n buf)"
proof (cases "tw_state w")
  case (WPoisoned e)
  then show ?thesis
    using inv eq by (auto simp: tls_poll_write_def tls_writer_inv_def tls_writer_meas_def)
next
  case WIdle
  obtain cs where cs: "list_all chunk_ok cs" "tls_wire base w = concat (map build_record cs)"
    using inv WIdle by (auto simp: tls_writer_inv_def)
  have d: "drop base (sk_written (tw_upstream w)) = concat (map build_record cs)"
    using cs(2) WIdle by (simp add: tls_wire_def tls_queued_def)
  have "tls_accepted base w = concat cs" using cs by (simp add: tls_accepted_def tls_plain_chunks)
  then show ?thesis
    using tls_write_record_spec [OF _ cs(1) d, of buf r w'] inv eq WIdle
    by (simp add: tls_poll_write_def tls_writer_inv_def tls_writer_meas_def)
next
  case (WWritingRecord rec ps)
  obtain f k rec' where f: "poll_flush_record_inner (tw_upstream w) rec = (f, k, rec')"
    by (cases "poll_flush_record_inner (tw_upstream w) rec")
  note F = tls_flush_kept [OF inv WWritingRecord f]
  obtain cs where cs: "list_all chunk_ok cs" "tls_wire base w = concat (map build_record cs)"
    using inv WWritingRecord by (auto simp: tls_writer_inv_def)
  have acc: "tls_accepted base w = concat cs" using cs by (simp add: tls_accepted_def tls_plain_chunks)
  show ?thesis
  proof (cases f)
    case FlPending
    then show ?thesis
      using eq WWritingRecord f F(1,2,5)
      by (auto simp: tls_poll_write_def tls_writer_meas_def tls_accepted_def)
  next
    case (FlError e)
    then show ?thesis
      using eq WWritingRecord f F(3,5) by (auto simp: tls_poll_write_def tls_writer_meas_def tls_writer_inv_def)
  next
    case (FlComplete m)
    have "drop base (sk_written k) = concat (map build_record cs)" using F(4) [OF FlComplete] cs(2) by simp
    from tls_write_record_spec [OF F(3) cs(1) this, of buf r w'] show ?thesis
      using eq WWritingRecord f FlComplete F(5) acc by (simp add: tls_poll_write_def tls_writer_meas_def)
  qed
qed

lemma tls_poll_write_live:
  assumes inv: "tls_writer_inv base w" and live: "tls_writer_live w b" "0 < b"
    and eq: "tls_poll_write w buf = (r, w')"
  shows "(r = Pending \<longrightarrow> tls_writer_live w' b \<and> tls_writer_meas w' < tls_writer_meas w) \<and>
    (buf \<noteq> [] \<and> 6 * length buf < b \<and> r \<noteq> Pending \<longrightarrow>
       (\<exists>n. r = Ready (Inr n) \<and> tls_writer_live w' (b - 6 * n)))"
proof -
  have rec: ?thesis
    if k: "sink_live k" "b \<le> ok_count k" "tls_write_record k buf = (r, w')" for k
  proof -
    have "r \<noteq> Pending"
      using k(3) by (auto simp: tls_write_record_def Let_def split: poll.splits sum.splits if_splits prod.splits)
    then show ?thesis
      using tls_write_record_live [OF k(1,2)] k(3) by (cases r) auto
  qed
  show ?thesis
  proof (cases "tw_state w")
    case (WPoisoned e)
    then show ?thesis using live by (simp add: tls_writer_live_def)
  next
    case WIdle
    then show ?thesis
      using live eq by (intro rec [of "tw_upstream w"]) (auto simp: tls_poll_write_def tls_writer_live_def)
  next
    case (WWritingRecord rec ps)
    obtain f k rec' where f: "poll_flush_record_inner (tw_upstream w) rec = (f, k, rec')"
      by (cases "poll_flush_record_inner (tw_upstream w) rec")
    note F = tls_flush_kept(6) [OF inv WWritingRecord f live]
    show ?thesis
    proof (cases f)
      case FlPending
      then show ?thesis
        using eq WWritingRecord f F by (auto simp: tls_poll_write_def tls_writer_meas_def)
    next
      case (FlError e)
      then show ?thesis using F by simp
    next
      case (FlComplete m)
      then show ?thesis
        using F eq f WWritingRecord
        by (intro rec [of k]) (auto simp: tls_poll_write_def tls_writer_live_def)
    qed
  qed
qed

definition tls_writer_broken :: "tls_writer \<Rightarrow> bool" where
  "tls_writer_broken w \<longleftrightarrow> tls_writer_is_poisoned (tw_state w)"

lemma tls_poll_write_error: "tls_poll_write w buf = (Ready (Inl e), w') \<Longrightarrow> tls_writer_broken w'"
  by (auto simp: tls_writer_broken_def tls_poll_write_def tls_write_record_def Let_def
      split: tls_writer_state.splits prod.splits flush_result.splits poll.splits sum.splits if_splits)

lemma tls_alive:
  "\<not> tls_writer_broken w \<Longrightarrow> tls_poll_write w buf = (r, w') \<Longrightarrow> \<forall>e. r \<noteq> Ready (Inl e) \<Longrightarrow> \<not> tls_writer_broken w'"
  "\<not> tls_writer_broken w \<Longrightarrow> tls_poll_flush w = (f, w') \<Longrightarrow> \<forall>e. f \<noteq> Ready (Inl e) \<Longrightarrow> \<not> tls_writer_broken w'"
  by (auto simp: tls_writer_broken_def tls_poll_write_def tls_write_record_def tls_poll_flush_def Let_def
      split: tls_writer_state.splits prod.splits flush_result.splits poll.splits sum.splits if_splits)

lemma tls_broken_fails:
  "tls_writer_broken w \<Longrightarrow> tls_poll_write w buf = (r, w') \<Longrightarrow> (\<exists>e. r = Ready (Inl e)) \<and> tls_writer_broken w'"
  "tls_writer_broken w \<Longrightarrow> tls_poll_flush w = (f, w') \<Longrightarrow> (\<exists>e. f = Ready (Inl e)) \<and> tls_writer_broken w'"
  by (cases "tw_state w"; auto simp: tls_writer_broken_def tls_poll_write_def tls_poll_flush_def)+

lemma tls_poll_flush_spec:
  assumes inv: "tls_writer_inv base w" and eq: "tls_poll_flush w = (r, w')"
  shows "tls_writer_inv base w' \<and>
    (r = Pending \<longrightarrow> tls_accepted base w' = tls_accepted base w) \<and>
    (r = Ready (Inr ()) \<longrightarrow> tls_accepted base w' = tls_accepted base w \<and> tls_queued w' = []) \<and>
    (\<not> tls_writer_broken w' \<longrightarrow> tls_accepted base w' = tls_accepted base w) \<and>
    (tls_writer_live w b \<and> 0 < b \<longrightarrow>
       (r = Pending \<longrightarrow> tls_writer_live w' b \<and> tls_writer_meas w' < tls_writer_meas w) \<and>
       (r \<noteq> Pending \<longrightarrow> r = Ready (Inr ())))"
proof -
  have idle: ?thesis
    if k: "drop base (sk_written k) = tls_wire base w" "base \<le> length (sk_written k)"
      "length (sk_script k) \<le> length (sk_script (tw_upstream w))"
      "tls_writer_live w b \<Longrightarrow> 0 < b \<Longrightarrow> sink_live k \<and> b \<le> ok_count k"
      and np: "\<not> tls_writer_is_poisoned (tw_state w)"
      and w': "sink_control k = (r, k')" "w' = \<lparr>tw_upstream = k', tw_state = WIdle\<rparr>" for k k'
  proof -
    have wire: "tls_wire base w' = tls_wire base w"
      using sink_control_written [OF w'(1)] k(1) w'(2) by (simp add: tls_wire_def tls_queued_def)
    have "tls_writer_inv base w'"
      using inv np sink_control_written [OF w'(1)] k(2) w'(2) unfolding tls_writer_inv_def wire by simp
    then show ?thesis
      using wire w'(2) sink_control_live [OF _ w'(1)] k(3,4)
      by (auto simp: tls_writer_broken_def tls_accepted_def tls_queued_def tls_writer_live_def tls_writer_meas_def
          split: poll.splits sum.splits)
  qed
  show ?thesis
  proof (cases "tw_state w")
    case (WPoisoned e)
    then show ?thesis
      using inv eq by (auto simp: tls_poll_flush_def tls_writer_inv_def tls_writer_live_def
          tls_writer_broken_def)
  next
    case WIdle
    obtain k' where "sink_control (tw_upstream w) = (r, k')" "w' = \<lparr>tw_upstream = k', tw_state = WIdle\<rparr>"
      using eq WIdle by (auto simp: tls_poll_flush_def split: prod.splits)
    then show ?thesis
      using inv WIdle
      by (intro idle) (auto simp: tls_wire_def tls_queued_def tls_writer_inv_def tls_writer_live_def)
  next
    case (WWritingRecord rec ps)
    obtain f k rec' where f: "poll_flush_record_inner (tw_upstream w) rec = (f, k, rec')"
      by (cases "poll_flush_record_inner (tw_upstream w) rec")
    note F = tls_flush_kept [OF inv WWritingRecord f]
    show ?thesis
    proof (cases f)
      case FlPending
      then show ?thesis
        using eq WWritingRecord f F(1,2) F(6) [of b]
        by (auto simp: tls_poll_flush_def tls_writer_meas_def tls_accepted_def)
    next
      case (FlError e)
      then show ?thesis
        using eq WWritingRecord f F(3) F(6) [of b]
        by (auto simp: tls_poll_flush_def tls_writer_inv_def tls_writer_broken_def)
    next
      case (FlComplete m)
      obtain k' where k': "sink_control k = (r, k')" "w' = \<lparr>tw_upstream = k', tw_state = WIdle\<rparr>"
        using eq WWritingRecord f FlComplete by (auto simp: tls_poll_flush_def split: prod.splits)
      show ?thesis
      proof (rule idle [OF F(4) [OF FlComplete] F(3,5) _ _ k'])
        show "sink_live k \<and> b \<le> ok_count k" if "tls_writer_live w b" "0 < b"
          using F(6) [OF that] by (simp add: tls_writer_live_def)
      qed (simp add: WWritingRecord)
    qed
  qed
qed

interpretation tls_out: live_writer tls_poll_write tls_poll_flush "tls_accepted base" tls_queued
    tls_writer_broken "tls_writer_inv base" tls_writer_live tls_writer_meas 6 for base
proof (unfold_locales, goal_cases)
  case 1
  then show ?case using tls_poll_write_spec by blast
next
  case 2
  then show ?case using tls_poll_write_spec by blast
next
  case 3
  then show ?case using tls_poll_write_spec by blast
next
  case 4
  then show ?case using tls_poll_flush_spec by blast
next
  case 5
  then show ?case using tls_poll_flush_spec by blast
next
  case 6
  then show ?case using tls_poll_flush_spec by blast
next
  case 7
  then show ?case using tls_poll_write_error by blast
next
  case (8 s e s')
  then show ?case using tls_poll_flush_spec [of base s "Ready (Inl e)" s'] by blast
next
  case 9
  then show ?case using tls_alive(1) by blast
next
  case 10
  then show ?case using tls_alive(2) by blast
next
  case 11
  then show ?case using tls_broken_fails(1) by blast
next
  case 12
  then show ?case using tls_broken_fails(2) by blast
next
  case (13 s b xs s')
  then show ?case using tls_poll_write_live [of base s b xs Pending s'] by simp
next
  case (14 s b xs r s')
  then show ?case
    using tls_poll_write_live [of base s b xs "Ready r" s'] tls_poll_write_spec [of base s xs "Ready r" s']
    by (auto split: if_splits)
next
  case (15 s b s')
  then show ?case using tls_poll_flush_spec [of base s Pending s' b] by blast
next
  case (16 s b f s')
  then show ?case using tls_poll_flush_spec [of base s "Ready f" s' b] by blast
qed

subsection \<open>\<open>write_all_tls\<close> and the round trip\<close>

lemma write_all_tls_from_plain:
  "tls_writer_inv base w \<Longrightarrow> write_all_tls_from fuel w data = Some (Inr (), w') \<Longrightarrow>
   tls_writer_inv base w' \<and> tls_accepted base w' = tls_accepted base w @ data"
proof (induction fuel w data rule: write_all_tls_from.induct)
  case (1 fuel w data)
  show ?case
  proof (cases "data = []")
    case True
    then show ?thesis using 1(2-) by (simp add: write_all_tls_from.simps [of fuel])
  next
    case False
    let ?n = "min (length data) MAX_TLS_PAYLOAD"
    obtain w1 where w1: "write_loop tls_poll_write fuel (take ?n data) w = Some (Inr (), w1)"
      "write_all_tls_from fuel w1 (drop ?n data) = Some (Inr (), w')"
      using 1(3) False
      by (auto simp: write_all_tls_from.simps [of fuel w] Let_def split: option.splits sum.splits prod.splits)
    have i: "tls_writer_inv base w1 \<and> tls_accepted base w1 = tls_accepted base w @ take ?n data"
      using tls_out.write_loop_plain [OF 1(2) w1(1)] .
    from 1(1) [OF False refl w1(1) refl refl conjunct1 [OF i] w1(2)] i show ?thesis
      by (metis append.assoc append_take_drop_id)
  qed
qed

lemma write_all_tls_from_live:
  "tls_writer_inv base w \<Longrightarrow> tls_writer_live w b \<Longrightarrow> 6 * length data < b \<Longrightarrow>
   tls_writer_meas w + length data < fuel \<Longrightarrow>
   \<exists>w'. write_all_tls_from fuel w data = Some (Inr (), w') \<and> tls_writer_live w' (b - 6 * length data) \<and>
     tls_writer_meas w' \<le> tls_writer_meas w"
proof (induction fuel w data arbitrary: b rule: write_all_tls_from.induct)
  case (1 fuel w data)
  show ?case
  proof (cases "data = []")
    case True
    then show ?thesis using 1(2-) by (simp add: write_all_tls_from.simps [of fuel])
  next
    case False
    let ?n = "min (length data) MAX_TLS_PAYLOAD"
    have n: "6 * length (take ?n data) < b" "length (take ?n data) = ?n" "?n \<le> length data"
      "tls_writer_meas w + length (take ?n data) < fuel" using 1(4,5) by auto
    obtain w1 where w1: "write_loop tls_poll_write fuel (take ?n data) w = Some (Inr (), w1)"
      "tls_writer_live w1 (b - 6 * length (take ?n data))" "tls_writer_meas w1 \<le> tls_writer_meas w"
      using tls_out.write_loop_live [OF 1(2,3) n(1,4)] by blast
    have i: "tls_writer_inv base w1" using tls_out.write_loop_plain [OF 1(2) w1(1)] by simp
    have "6 * length (drop ?n data) < b - 6 * length (take ?n data)"
      "tls_writer_meas w1 + length (drop ?n data) < fuel"
      using n 1(4,5) w1(3) by auto
    from 1(1) [OF False refl w1(1) refl refl i w1(2) this] obtain w' where
      "write_all_tls_from fuel w1 (drop ?n data) = Some (Inr (), w')"
      "tls_writer_live w' (b - 6 * length (take ?n data) - 6 * length (drop ?n data))"
      "tls_writer_meas w' \<le> tls_writer_meas w1" by blast
    moreover have "b - 6 * length (take ?n data) - 6 * length (drop ?n data) = b - 6 * length data"
      using n by simp
    ultimately show ?thesis
      using False w1 by (auto simp: write_all_tls_from.simps [of fuel w] Let_def)
  qed
qed

lemma tls_flush_idle: "flush_loop tls_poll_flush fuel w = Some (Inr (), w') \<Longrightarrow> tw_state w' = WIdle"
proof (induction fuel arbitrary: w)
  case 0
  then show ?case by simp
next
  case (Suc fuel)
  have "tls_poll_flush w = (Ready (Inr ()), v) \<Longrightarrow> tw_state v = WIdle" for v
    by (auto simp: tls_poll_flush_def split: tls_writer_state.splits prod.splits flush_result.splits)
  with Suc show ?case by (auto split: prod.splits poll.splits)
qed

lemma write_all_tls_result:
  assumes "tls_writer_inv base w" "tls_writer_live w b" "6 * length data < b"
    "tls_writer_meas w + length data < fuel"
  shows "\<exists>w'. write_all_tls fuel w data = Some (Inr (), w') \<and> tls_writer_inv base w' \<and>
    tw_state w' = WIdle \<and> tls_accepted base w' = tls_accepted base w @ data"
proof -
  obtain w1 where w1: "write_all_tls_from fuel w data = Some (Inr (), w1)"
    "tls_writer_live w1 (b - 6 * length data)" "tls_writer_meas w1 \<le> tls_writer_meas w"
    using write_all_tls_from_live [OF assms] by blast
  note p = write_all_tls_from_plain [OF assms(1) w1(1)]
  obtain w2 where w2: "flush_loop tls_poll_flush fuel w1 = Some (Inr (), w2)"
    using tls_out.flush_loop_live [OF conjunct1 [OF p] w1(2), of fuel] assms(3,4) w1(3) by auto
  then show ?thesis
    using tls_out.flush_loop_plain [OF conjunct1 [OF p] w2] tls_flush_idle [OF w2] p w1(1)
    by (simp add: write_all_tls_def)
qed

lemma tls_writer_new_inv: "tls_writer_inv (length (sk_written k)) (tls_writer_new k)"
  by (auto simp: tls_writer_inv_def tls_writer_new_def tls_wire_def tls_queued_def intro!: exI [of _ "[]"])

lemma tls_writer_new_accepted: "tls_accepted (length (sk_written k)) (tls_writer_new k) = []"
  by (simp add: tls_accepted_def tls_wire_def tls_queued_def tls_writer_new_def tls_records_short)

text \<open>A reader over what an intact writer has put on the wire delivers what the writer accepted.\<close>

lemma tls_wire_read:
  assumes "tls_writer_inv base w" "\<not> tls_writer_broken w" "source_wf u" "source_bytes u = tls_wire base w"
  shows "tls_clean (tls_reader_new u)" "tls_content (tls_reader_new u) = tls_accepted base w"
proof -
  show "tls_content (tls_reader_new u) = tls_accepted base w"
    using assms(4) by (simp add: tls_reader_new_content tls_accepted_def)
  have "no_alert (tls_reader_records (tls_reader_new u))"
    using assms(1,2,4) tls_records_chunks [of _ "[]"]
    by (auto simp: tls_writer_inv_def tls_writer_broken_def tls_reader_records_def tls_reader_new_def no_alert_def
        tls_records_short record_types_distinct [symmetric])
  then show "tls_clean (tls_reader_new u)" using tls_reader_new_wf [OF assms(3)] by (simp add: tls_clean_def)
qed

text \<open>End to end over FakeTLS: \<open>write_all_tls\<close> on a fresh writer whose upstream keeps accepting
  (in pieces of any size, with any number of pending polls in between) returns success with nothing
  left queued; and whatever way the bytes it sent are chunked on the reading side, the FakeTLS reader
  returns exactly the data written.\<close>

theorem tls_stream_roundtrip:
  assumes "sink_live k" "6 * length data < ok_count k" "length (sk_script k) + length data < fuel"
  shows "\<exists>w'. write_all_tls fuel (tls_writer_new k) data = Some (Inr (), w') \<and> tls_queued w' = [] \<and>
    (\<forall>u. source_wf u \<and> source_bytes u = drop (length (sk_written k)) (sk_written (tw_upstream w')) \<longrightarrow>
       (\<exists>r'. tls_read_exact (Suc (tls_reader_meas (tls_reader_new u))) (tls_reader_new u) (length data) =
          Some (Inr data, r')))"
proof -
  let ?b = "length (sk_written k)" and ?w = "tls_writer_new k"
  have l: "tls_writer_live ?w (ok_count k)"
    using assms(1) by (simp add: tls_writer_live_def tls_writer_new_def tls_queued_def)
  have m: "tls_writer_meas ?w + length data < fuel"
    using assms(3) by (simp add: tls_writer_meas_def tls_writer_new_def)
  obtain w' where w': "write_all_tls fuel ?w data = Some (Inr (), w')" "tls_writer_inv ?b w'"
    "tw_state w' = WIdle" "tls_accepted ?b w' = data"
    using write_all_tls_result [OF tls_writer_new_inv l assms(2) m] by (auto simp: tls_writer_new_accepted)
  have q: "tls_queued w' = []" using w'(3) by (simp add: tls_queued_def)
  have "\<exists>r'. tls_read_exact (Suc (tls_reader_meas (tls_reader_new u))) (tls_reader_new u) (length data) =
      Some (Inr data, r')"
    if u: "source_wf u" "source_bytes u = drop ?b (sk_written (tw_upstream w'))" for u
  proof -
    let ?r = "tls_reader_new u"
    have wire: "source_bytes u = tls_wire ?b w'" using u(2) q by (simp add: tls_wire_def)
    have nb: "\<not> tls_writer_broken w'" using w'(3) by (simp add: tls_writer_broken_def)
    have cl: "tls_clean ?r" using tls_wire_read(1) [OF w'(2) nb u(1) wire] .
    have c: "tls_content ?r = data" using tls_wire_read(2) [OF w'(2) nb u(1) wire] w'(4) by simp
    obtain xs r' where xs: "read_loop tls_poll_read (Suc (tls_reader_meas ?r)) (length data) [] ?r = Some (Inr xs, r')"
      using tls_full.read_loop_succeeds [OF cl lessI, of "[]" "length data"] c
      by (simp del: read_loop.simps) blast
    have rc: "[] @ tls_content ?r = xs @ tls_content r' \<and> length xs = length data \<and> tls_clean r'"
      by (rule tls_full.read_loop_content [OF cl _ xs]) simp
    have "xs @ tls_content r' = data" "length xs = length data"
      by (fact conjunct1 [OF rc, unfolded append_Nil c, symmetric], fact conjunct1 [OF conjunct2 [OF rc]])
    then have "xs = data" by (rule append_same_length [THEN conjunct1])
    with xs show ?thesis by (simp add: tls_read_exact_def tls_reader_new_def del: read_loop.simps)
  qed
  with w' q show ?thesis by blast
qed

theorem tls_stream_roundtrip_witness:
  "\<exists>w'. write_all_tls 40 (tls_writer_new \<lparr>sk_script = WrPending # replicate 20 (WrOk 1), sk_written = [0x16]\<rparr>) [7, 8] =
     Some (Inr (), w') \<and> tls_queued w' = []"
  using tls_stream_roundtrip [of "\<lparr>sk_script = WrPending # replicate 20 (WrOk 1), sk_written = [0x16]\<rparr>" "[7, 8]" 40]
  by (auto simp: sink_live_def ok_count_def list_all_iff)

text \<open>C20: For a FakeTLS writer that has put a sequence of complete records on the wire (the last one
  perhaps kept in part), any \<open>poll_write\<close> keeps it that way: a success has taken a non-empty prefix of
  the bytes offered and appended exactly them to the plaintext of the wire, a pending poll leaves that
  plaintext alone, and the bytes kept never exceed the bound of the pending buffer.\<close>

theorem tls_poll_write_records:
  assumes "tls_writer_inv base w" "tls_poll_write w buf = (r, w')"
  shows "tls_writer_inv base w' \<and> length (tls_queued w') \<le> MAX_PENDING_WRITE \<and>
    (r = Pending \<longrightarrow> tls_accepted base w' = tls_accepted base w) \<and>
    (\<forall>n. r = Ready (Inr n) \<longrightarrow> n \<le> length buf \<and> (buf \<noteq> [] \<longrightarrow> 0 < n) \<and>
       tls_accepted base w' = tls_accepted base w @ take n buf)"
proof -
  have "length (tls_queued w') \<le> MAX_PENDING_WRITE" if "tls_writer_inv base w'"
    using that by (cases "tw_state w'") (auto simp: tls_writer_inv_def tls_queued_def wb_wf_def wb_pending_def)
  then show ?thesis using tls_poll_write_spec [OF assms] by blast
qed

theorem tls_poll_write_records_witness:
  "\<exists>w'. tls_poll_write (tls_writer_new \<lparr>sk_script = [WrOk 3], sk_written = []\<rparr>) [7, 8] = (Ready (Inr 2), w') \<and>
     tls_accepted 0 w' = [7, 8] \<and> length (tls_queued w') = 4"
proof -
  let ?k = "\<lparr>sk_script = [WrOk 3], sk_written = []\<rparr>"
  obtain w' where w': "tls_poll_write (tls_writer_new ?k) [7, 8] = (Ready (Inr 2), w')" "length (tls_queued w') = 4"
    by (simp add: tls_poll_write_def tls_writer_new_def tls_write_record_def sink_poll.simps Let_def
        MAX_TLS_PAYLOAD_def length_build_record tls_queued_def wb_extend_def wb_with_max_size_def
        MAX_PENDING_WRITE_def wb_pending_def)
  have "tls_writer_inv 0 (tls_writer_new ?k)" "tls_accepted 0 (tls_writer_new ?k) = []"
    using tls_writer_new_inv [of ?k] tls_writer_new_accepted [of ?k] by simp_all
  with tls_poll_write_records [OF _ w'(1), of 0] w' show ?thesis by auto
qed

end
