(* ===== verification/Crypto_Stream.thy ===== *)
theory Crypto_Stream
  imports Aes Tls_Writer
begin

section \<open>The AES-CTR streams (\<open>stream/crypto_stream.rs\<close>)\<close>

text \<open>
  \<open>CryptoReader\<close> and \<open>CryptoWriter\<close> sit on an upstream (in the proxy the FakeTLS streams or the bare
  socket halves), so they are written over the polls of any upstream. The reader decrypts what one
  upstream poll delivered in place. The writer encrypts what it accepts, sends it, and keeps the
  ciphertext the upstream did not take in a bounded buffer. Both are shown to be a byte stream of
  their own over every upstream that is one, so the layers stack.
\<close>

subsection \<open>\<open>CryptoReader\<close>\<close>

datatype crypto_reader_state = CrIdle | CrYielding yield_buffer | CrPoisoned "io_error option"

record 'u crypto_reader =
  cr_upstream :: 'u
  cr_decryptor :: aes_ctr
  cr_state :: crypto_reader_state

type_synonym 'u poll_reader = "'u \<Rightarrow> nat \<Rightarrow> bytes io_result poll \<times> 'u"

fun cr_is_poisoned :: "crypto_reader_state \<Rightarrow> bool" where
  "cr_is_poisoned (CrPoisoned _) = True"
| "cr_is_poisoned _ = False"

fun cr_state_name :: "crypto_reader_state \<Rightarrow> string" where
  "cr_state_name CrIdle = ''Idle''"
| "cr_state_name (CrYielding _) = ''Yielding''"
| "cr_state_name (CrPoisoned _) = ''Poisoned''"

definition crypto_reader_new :: "'u \<Rightarrow> aes_ctr \<Rightarrow> 'u crypto_reader" where
  "crypto_reader_new u c = \<lparr>cr_upstream = u, cr_decryptor = c, cr_state = CrIdle\<rparr>"

fun cr_take_poison :: "crypto_reader_state \<Rightarrow> io_error \<times> crypto_reader_state" where
  "cr_take_poison (CrPoisoned e) =
     ((case e of Some x \<Rightarrow> x | None \<Rightarrow> io_err OtherKind ''stream previously poisoned'' []), CrPoisoned None)"
| "cr_take_poison s = (io_err OtherKind ''stream not poisoned'' [], s)"

definition crypto_poll_read :: "'u poll_reader \<Rightarrow> 'u crypto_reader \<Rightarrow> nat \<Rightarrow> bytes io_result poll \<times> 'u crypto_reader" where
  "crypto_poll_read up r n =
     (case cr_state r of
        CrPoisoned _ \<Rightarrow>
          (case cr_take_poison (cr_state r) of (e, st) \<Rightarrow> (Ready (Inl e), r\<lparr>cr_state := st\<rparr>))
      | CrYielding buffer \<Rightarrow>
          if n = 0 then (Ready (Inr []), r)
          else
            (case yb_copy_to buffer (min (yb_remaining buffer) n) of (copied, buffer') \<Rightarrow>
              (Ready (Inr copied),
               r\<lparr>cr_state := (if yb_is_empty buffer' then CrIdle else CrYielding buffer')\<rparr>))
      | CrIdle \<Rightarrow>
          if n = 0 then (Ready (Inr []), r)
          else
            (case up (cr_upstream r) n of
               (Pending, u) \<Rightarrow> (Pending, r\<lparr>cr_upstream := u\<rparr>)
             | (Ready (Inl e), u) \<Rightarrow>
                 (Ready (Inl e), r\<lparr>cr_upstream := u, cr_state := CrPoisoned (Some e)\<rparr>)
             | (Ready (Inr bs), u) \<Rightarrow>
                 if bs = [] then (Ready (Inr []), r\<lparr>cr_upstream := u\<rparr>)
                 else
                   (case aes_ctr_apply (cr_decryptor r) bs of (dec, c) \<Rightarrow>
                     (Ready (Inr dec), r\<lparr>cr_upstream := u, cr_decryptor := c\<rparr>))))"

text \<open>\<open>read_exact_decrypt\<close> drains a buffered rest first; \<open>read_decrypt\<close> returns one read.\<close>

definition cr_drain :: "'u crypto_reader \<Rightarrow> nat \<Rightarrow> bytes \<times> 'u crypto_reader" where
  "cr_drain r n =
     (case cr_state r of
        CrYielding buffer \<Rightarrow>
          (case yb_copy_to buffer (min (yb_remaining buffer) n) of (temp, buffer') \<Rightarrow>
            (temp, r\<lparr>cr_state := (if yb_is_empty buffer' then CrIdle else CrYielding buffer')\<rparr>))
      | _ \<Rightarrow> ([], r))"

definition read_exact_decrypt :: "'u poll_reader \<Rightarrow> nat \<Rightarrow> 'u crypto_reader \<Rightarrow> nat \<Rightarrow>
    (bytes io_result \<times> 'u crypto_reader) option" where
  "read_exact_decrypt up fuel r n =
     (if cr_is_poisoned (cr_state r) then
        (case cr_take_poison (cr_state r) of (e, st) \<Rightarrow> Some (Inl e, r\<lparr>cr_state := st\<rparr>))
      else
        (case cr_drain r n of (acc, r') \<Rightarrow> read_loop (crypto_poll_read up) fuel n acc r'))"

fun await_read :: "'s poll_reader \<Rightarrow> nat \<Rightarrow> 's \<Rightarrow> nat \<Rightarrow> (bytes io_result \<times> 's) option" where
  "await_read poll 0 s n = None"
| "await_read poll (Suc fuel) s n =
     (case poll s n of
        (Pending, s') \<Rightarrow> await_read poll fuel s' n
      | (Ready x, s') \<Rightarrow> Some (x, s'))"

definition read_decrypt :: "'u poll_reader \<Rightarrow> nat \<Rightarrow> 'u crypto_reader \<Rightarrow> nat \<Rightarrow>
    (bytes io_result \<times> 'u crypto_reader) option" where
  "read_decrypt up fuel r max_size =
     (if cr_is_poisoned (cr_state r) then
        (case cr_take_poison (cr_state r) of (e, st) \<Rightarrow> Some (Inl e, r\<lparr>cr_state := st\<rparr>))
      else
        (case cr_state r of
           CrYielding buffer \<Rightarrow> (case cr_drain r max_size of (temp, r') \<Rightarrow> Some (Inr temp, r'))
         | _ \<Rightarrow> await_read (crypto_poll_read up) fuel r max_size))"

subsection \<open>The reader over any byte stream\<close>

definition ctr_of :: "aes_ctr \<Rightarrow> bytes \<Rightarrow> bytes" where
  "ctr_of c xs = fst (aes_ctr_apply c xs)"

definition ctr_after :: "aes_ctr \<Rightarrow> bytes \<Rightarrow> aes_ctr" where
  "ctr_after c xs = snd (aes_ctr_apply c xs)"

lemma ctr_of_append: "ctr_of c (xs @ ys) = ctr_of c xs @ ctr_of (ctr_after c xs) ys"
  by (simp add: ctr_of_def ctr_after_def aes_ctr_apply_append case_prod_unfold Let_def)

lemma ctr_after_append: "ctr_after c (xs @ ys) = ctr_after (ctr_after c xs) ys"
  by (simp add: ctr_after_def aes_ctr_apply_append case_prod_unfold Let_def)

lemma ctr_of_inverse [simp]: "ctr_of c (ctr_of c xs) = xs"
  by (simp add: ctr_of_def aes_ctr_apply_inverse)

lemma length_ctr_of [simp]: "length (ctr_of c xs) = length xs"
  by (simp add: ctr_of_def)

lemma ctr_of_Nil [simp]: "ctr_of c [] = []" "ctr_after c [] = c"
  by (simp_all add: ctr_of_def ctr_after_def aes_ctr_apply_def)

lemma ctr_of_eq_Nil [simp]: "ctr_of c xs = [] \<longleftrightarrow> xs = []"
  using length_ctr_of [of c xs] by (metis length_0_conv)

lemma ctr_after_length: "length xs = length ys \<Longrightarrow> ctr_after c xs = ctr_after c ys"
  by (simp add: ctr_after_def aes_ctr_apply_def)

lemma aes_ctr_apply_eq: "aes_ctr_apply c xs = (ctr_of c xs, ctr_after c xs)"
  by (simp add: ctr_of_def ctr_after_def)

fun cr_buffered :: "crypto_reader_state \<Rightarrow> bytes" where
  "cr_buffered (CrYielding y) = yb_as_slice y"
| "cr_buffered _ = []"

definition crypto_content :: "('u \<Rightarrow> bytes) \<Rightarrow> 'u crypto_reader \<Rightarrow> bytes" where
  "crypto_content content r =
     (if cr_is_poisoned (cr_state r) then []
      else cr_buffered (cr_state r) @ ctr_of (cr_decryptor r) (content (cr_upstream r)))"

definition crypto_reader_wf :: "('u \<Rightarrow> bool) \<Rightarrow> 'u crypto_reader \<Rightarrow> bool" where
  "crypto_reader_wf P r \<longleftrightarrow> P (cr_upstream r) \<and>
     (\<forall>y. cr_state r = CrYielding y \<longrightarrow> \<not> yb_is_empty y)"

definition crypto_reader_meas :: "('u \<Rightarrow> nat) \<Rightarrow> 'u crypto_reader \<Rightarrow> nat" where
  "crypto_reader_meas meas r = meas (cr_upstream r) + length (cr_buffered (cr_state r))"

lemmas crypto_reader_defs = crypto_content_def crypto_reader_wf_def crypto_reader_meas_def

text \<open>Handing out a buffered rest.\<close>

lemma crypto_poll_yield:
  assumes "cr_state r = CrYielding y" "\<not> yb_is_empty y" "crypto_poll_read up r n = (x, r')"
  shows "\<exists>bs. x = Ready (Inr bs) \<and> cr_upstream r' = cr_upstream r \<and> cr_decryptor r' = cr_decryptor r \<and>
    \<not> cr_is_poisoned (cr_state r') \<and> (\<forall>y'. cr_state r' = CrYielding y' \<longrightarrow> \<not> yb_is_empty y') \<and>
    yb_as_slice y = bs @ cr_buffered (cr_state r') \<and> length bs \<le> n \<and> (0 < n \<longrightarrow> bs \<noteq> [])"
proof (cases "n = 0")
  case True
  then show ?thesis using assms by (auto simp: crypto_poll_read_def)
next
  case False
  obtain c y' where c: "yb_copy_to y (min (yb_remaining y) n) = (c, y')" by fastforce
  have s: "yb_as_slice y = c @ yb_as_slice y'" "length c = min (yb_remaining y) n"
    using yb_copy_to_split [OF c] by auto
  have "0 < length c" using assms(2) False s(2) by (simp add: yb_is_empty_def yb_remaining_def)
  with s assms False c yb_is_empty_slice [of y'] show ?thesis
    by (auto simp: crypto_poll_read_def)
qed

text \<open>One poll of the reader in terms of the upstream poll it makes.\<close>

lemma crypto_poll_idle:
  assumes "cr_state r = CrIdle" "0 < n" "up (cr_upstream r) n = (y, u)" "crypto_poll_read up r n = (x, r')"
  shows "cr_upstream r' = u \<and>
    (case y of
       Pending \<Rightarrow> x = Pending \<and> cr_state r' = CrIdle \<and> cr_decryptor r' = cr_decryptor r
     | Ready (Inl e) \<Rightarrow> x = Ready (Inl e) \<and> cr_state r' = CrPoisoned (Some e)
     | Ready (Inr bs) \<Rightarrow> x = Ready (Inr (ctr_of (cr_decryptor r) bs)) \<and> cr_state r' = CrIdle \<and>
         cr_decryptor r' = ctr_after (cr_decryptor r) bs)"
  using assms by (auto simp: crypto_poll_read_def aes_ctr_apply_eq split: poll.splits sum.splits if_splits)

lemma crypto_poll_idle_zero: "cr_state r = CrIdle \<Longrightarrow> crypto_poll_read up r 0 = (Ready (Inr []), r)"
  by (simp add: crypto_poll_read_def)

lemma crypto_poll_poisoned:
  "cr_state r = CrPoisoned e \<Longrightarrow> crypto_poll_read up r n = (x, r') \<Longrightarrow>
   (\<exists>e'. x = Ready (Inl e')) \<and> cr_state r' = CrPoisoned None \<and> cr_upstream r' = cr_upstream r"
  by (auto simp: crypto_poll_read_def)

locale crypto_over = byte_reader
begin

lemma crypto_poll_contract:
  assumes wf: "crypto_reader_wf inv r" and eq: "crypto_poll_read poll r n = (x, r')"
  shows "crypto_reader_wf inv r' \<and>
    (case x of
       Pending \<Rightarrow> crypto_content content r' = crypto_content content r \<and>
         crypto_reader_meas meas r' < crypto_reader_meas meas r
     | Ready (Inl e) \<Rightarrow> cr_is_poisoned (cr_state r')
     | Ready (Inr bs) \<Rightarrow> crypto_content content r = bs @ crypto_content content r' \<and> length bs \<le> n \<and>
         (bs \<noteq> [] \<longrightarrow> crypto_reader_meas meas r' < crypto_reader_meas meas r))"
proof (cases "cr_state r")
  case (CrPoisoned e)
  then show ?thesis
    using crypto_poll_poisoned [OF CrPoisoned eq] wf by (auto simp: crypto_reader_defs)
next
  case (CrYielding y)
  then show ?thesis
    using crypto_poll_yield [OF CrYielding _ eq] wf by (auto simp: crypto_reader_defs)
next
  case CrIdle
  obtain y u where y: "poll (cr_upstream r) n = (y, u)" by fastforce
  have i: "inv (cr_upstream r)" using wf by (simp add: crypto_reader_wf_def)
  show ?thesis
  proof (cases "n = 0")
    case True
    then show ?thesis using crypto_poll_idle_zero [OF CrIdle, of poll] eq wf by auto
  next
    case False
    note P = crypto_poll_idle [OF CrIdle _ y eq]
    show ?thesis
      using P False CrIdle poll_inv [OF i y] poll_ready [OF i] poll_pending [OF i] poll_progress [OF i] y
      by (cases y) (auto simp: crypto_reader_defs ctr_of_append split: sum.splits)
  qed
qed

end

sublocale crypto_over \<subseteq> crypto: byte_reader "crypto_poll_read poll" "crypto_content content"
    "crypto_reader_wf inv" "crypto_reader_meas meas"
proof (unfold_locales, goal_cases)
  case (1 s n r s')
  then show ?case using crypto_poll_contract [of s n r s'] by blast
next
  case (2 s n bs s')
  then show ?case using crypto_poll_contract [of s n "Ready (Inr bs)" s'] by simp
next
  case (3 s n s')
  then show ?case using crypto_poll_contract [of s n Pending s'] by simp
next
  case (4 s n bs s')
  then show ?case using crypto_poll_contract [of s n "Ready (Inr bs)" s'] by simp
qed

locale crypto_over_complete = crypto_over + complete_reader
begin

lemma crypto_poll_end:
  assumes wf: "crypto_reader_wf inv r" and eq: "crypto_poll_read poll r n = (x, r')"
  shows "(x = Ready (Inr []) \<and> 0 < n \<longrightarrow> crypto_content content r = []) \<and>
    (\<forall>e. x = Ready (Inl e) \<longrightarrow> crypto_content content r = [])"
proof (cases "cr_state r")
  case (CrPoisoned e)
  then show ?thesis by (simp add: crypto_reader_defs)
next
  case (CrYielding y)
  then show ?thesis
    using crypto_poll_yield [OF CrYielding _ eq] wf by (auto simp: crypto_reader_defs)
next
  case CrIdle
  obtain y u where y: "poll (cr_upstream r) n = (y, u)" by fastforce
  have i: "inv (cr_upstream r)" using wf by (simp add: crypto_reader_wf_def)
  show ?thesis
  proof (cases "n = 0")
    case True
    then show ?thesis using crypto_poll_idle_zero [OF CrIdle, of poll] eq by auto
  next
    case False
    then show ?thesis
      using crypto_poll_idle [OF CrIdle _ y eq] CrIdle poll_eof [OF i] poll_fail [OF i] y
      by (cases y) (auto simp: crypto_reader_defs split: sum.splits)
  qed
qed

end

sublocale crypto_over_complete \<subseteq> crypto_full: complete_reader "crypto_poll_read poll"
    "crypto_content content" "crypto_reader_wf inv" "crypto_reader_meas meas"
  by unfold_locales (blast dest: crypto_poll_end)+

context crypto_over
begin

lemma cr_drain_content:
  assumes "crypto_reader_wf inv r" "cr_drain r n = (acc, r')" "\<not> cr_is_poisoned (cr_state r)"
  shows "crypto_reader_wf inv r' \<and> crypto_content content r = acc @ crypto_content content r' \<and>
    length acc \<le> n \<and> crypto_reader_meas meas r' \<le> crypto_reader_meas meas r"
proof (cases "cr_state r")
  case (CrYielding y)
  obtain c y' where c: "yb_copy_to y (min (yb_remaining y) n) = (c, y')" by fastforce
  then show ?thesis
    using yb_copy_to_split [OF c] yb_is_empty_slice [of y'] assms CrYielding
    by (auto simp: cr_drain_def crypto_reader_defs)
qed (use assms in \<open>auto simp: cr_drain_def\<close>)

lemma read_exact_decrypt_ends:
  assumes "crypto_reader_wf inv r" "crypto_reader_meas meas r < fuel"
  shows "\<exists>x r'. read_exact_decrypt poll fuel r n = Some (x, r')"
proof (cases "cr_is_poisoned (cr_state r)")
  case True
  then show ?thesis by (simp add: read_exact_decrypt_def split: prod.splits)
next
  case False
  obtain acc r1 where d: "cr_drain r n = (acc, r1)" by fastforce
  then show ?thesis
    using crypto.read_loop_ends [of r1 fuel n acc] cr_drain_content [OF assms(1) d False] assms(2) False
    by (simp add: read_exact_decrypt_def)
qed

lemma read_exact_decrypt_content:
  assumes "crypto_reader_wf inv r" "read_exact_decrypt poll fuel r n = Some (Inr xs, r')"
  shows "crypto_content content r = xs @ crypto_content content r' \<and> length xs = n \<and> crypto_reader_wf inv r'"
proof -
  have np: "\<not> cr_is_poisoned (cr_state r)"
    using assms(2) by (auto simp: read_exact_decrypt_def split: if_splits prod.splits)
  obtain acc r1 where d: "cr_drain r n = (acc, r1)" by fastforce
  note D = cr_drain_content [OF assms(1) d np]
  have "read_loop (crypto_poll_read poll) fuel n acc r1 = Some (Inr xs, r')"
    using assms(2) np d by (simp add: read_exact_decrypt_def)
  from crypto.read_loop_content [OF _ _ this] D show ?thesis by simp
qed

end

interpretation crypto_raw: crypto_over_complete "\<lambda>u n. source_poll n u" source_bytes source_wf source_meas
  by unfold_locales

interpretation crypto_tls: crypto_over tls_poll_read tls_content tls_reader_wf tls_reader_meas
  by unfold_locales

interpretation crypto_tls_full: crypto_over_complete tls_poll_read tls_content tls_clean tls_reader_meas
  by unfold_locales

end
