(* ===== verification/Crypto_Writer.thy ===== *)
theory Crypto_Writer
  imports Crypto_Stream
begin

section \<open>The AES-CTR writer (\<open>stream/crypto_stream.rs\<close>)\<close>

text \<open>
  \<open>CryptoWriter\<close> encrypts accepted plaintext exactly once, in order, and keeps what the upstream has
  not taken in a \<open>PendingCiphertext\<close> of bounded size. The main invariant: what the upstream has
  accepted followed by what is pending is the encryption, from the start of the keystream, of all the
  plaintext accepted so far, so the CTR position never drifts from the bytes on the wire.
\<close>

subsection \<open>\<open>PendingCiphertext\<close>\<close>

record pending_ciphertext =
  pc_buf :: bytes
  pc_pos :: nat
  pc_max_len :: nat

definition pc_new :: "nat \<Rightarrow> pending_ciphertext" where
  "pc_new n = \<lparr>pc_buf = [], pc_pos = 0, pc_max_len = n\<rparr>"

definition pc_pending_len :: "pending_ciphertext \<Rightarrow> nat" where
  "pc_pending_len p = length (pc_buf p) - pc_pos p"

definition pc_is_empty :: "pending_ciphertext \<Rightarrow> bool" where
  "pc_is_empty p \<longleftrightarrow> pc_pending_len p = 0"

definition pc_pending_slice :: "pending_ciphertext \<Rightarrow> bytes" where
  "pc_pending_slice p = drop (pc_pos p) (pc_buf p)"

definition pc_remaining_capacity :: "pending_ciphertext \<Rightarrow> nat" where
  "pc_remaining_capacity p = pc_max_len p - pc_pending_len p"

definition pc_compact_consumed_prefix :: "pending_ciphertext \<Rightarrow> pending_ciphertext" where
  "pc_compact_consumed_prefix p =
     (if pc_pos p = 0 then p
      else if pc_pos p \<ge> length (pc_buf p) then p\<lparr>pc_buf := [], pc_pos := 0\<rparr>
      else p\<lparr>pc_buf := drop (pc_pos p) (pc_buf p), pc_pos := 0\<rparr>)"

definition pc_advance :: "pending_ciphertext \<Rightarrow> nat \<Rightarrow> pending_ciphertext" where
  "pc_advance p n =
     (let p' = p\<lparr>pc_pos := min (pc_pos p + n) (length (pc_buf p))\<rparr> in
      if pc_pos p' = length (pc_buf p') then pc_compact_consumed_prefix p'
      else if pc_pos p' \<ge> 16 * 1024 then pc_compact_consumed_prefix p'
      else p')"

definition pc_replace_with :: "pending_ciphertext \<Rightarrow> bytes \<Rightarrow> pending_ciphertext" where
  "pc_replace_with p src = p\<lparr>pc_buf := src, pc_pos := 0\<rparr>"

definition pc_push_encrypted :: "pending_ciphertext \<Rightarrow> aes_ctr \<Rightarrow> bytes \<Rightarrow>
    unit io_result \<times> pending_ciphertext \<times> aes_ctr" where
  "pc_push_encrypted p c plaintext =
     (if plaintext = [] then (Inr (), p, c)
      else if length plaintext > pc_remaining_capacity p then
        (Inl (io_err WouldBlock ''pending ciphertext buffer is full'' []), p, c)
      else
        let p' = (if pc_pos p > 0 \<and> length (pc_buf p) + length plaintext > pc_max_len p
                  then pc_compact_consumed_prefix p else p)
        in (case aes_ctr_apply c plaintext of (enc, c') \<Rightarrow>
              (Inr (), p'\<lparr>pc_buf := pc_buf p' @ enc\<rparr>, c')))"

text \<open>The whole buffer, not only its unsent part, stays within the bound.\<close>

definition pc_wf :: "pending_ciphertext \<Rightarrow> bool" where
  "pc_wf p \<longleftrightarrow> pc_pos p \<le> length (pc_buf p) \<and> length (pc_buf p) \<le> pc_max_len p"

lemma pc_pending_len_slice: "pc_pending_len p = length (pc_pending_slice p)"
  by (simp add: pc_pending_len_def pc_pending_slice_def)

lemma pc_compact:
  "pc_pending_slice (pc_compact_consumed_prefix p) = pc_pending_slice p"
  "pc_max_len (pc_compact_consumed_prefix p) = pc_max_len p"
  "pc_wf p \<Longrightarrow> pc_wf (pc_compact_consumed_prefix p)"
  by (auto simp: pc_compact_consumed_prefix_def pc_pending_slice_def pc_wf_def)

lemma pc_advance:
  assumes "pc_wf p"
  shows "pc_pending_slice (pc_advance p n) = drop n (pc_pending_slice p)"
    "pc_max_len (pc_advance p n) = pc_max_len p" "pc_wf (pc_advance p n)"
proof -
  define q where "q = p\<lparr>pc_pos := min (pc_pos p + n) (length (pc_buf p))\<rparr>"
  have a: "pc_pending_slice q = drop n (pc_pending_slice p)" "pc_wf q" "pc_max_len q = pc_max_len p"
    using assms by (auto simp: q_def pc_pending_slice_def pc_wf_def min_def add.commute)
  have "pc_advance p n = q \<or> pc_advance p n = pc_compact_consumed_prefix q"
    unfolding pc_advance_def Let_def q_def [symmetric] by (simp split: if_split)
  then show "pc_pending_slice (pc_advance p n) = drop n (pc_pending_slice p)"
    "pc_max_len (pc_advance p n) = pc_max_len p" "pc_wf (pc_advance p n)"
    using a pc_compact [of q] by auto
qed

lemma pc_advance_less: "\<not> pc_is_empty p \<Longrightarrow> 0 < n \<Longrightarrow> pc_pending_len (pc_advance p n) < pc_pending_len p"
  by (auto simp: pc_advance_def pc_pending_len_def pc_is_empty_def pc_compact_consumed_prefix_def Let_def)

lemma pc_push:
  assumes "pc_wf p" "length xs \<le> pc_remaining_capacity p"
  shows "\<exists>p'. pc_push_encrypted p c xs = (Inr (), p', ctr_after c xs) \<and> pc_wf p' \<and>
    pc_max_len p' = pc_max_len p \<and> pc_pending_slice p' = pc_pending_slice p @ ctr_of c xs"
proof (cases "xs = []")
  case True
  then show ?thesis using assms by (simp add: pc_push_encrypted_def)
next
  case False
  have cap: "pc_pending_len p + length xs \<le> pc_max_len p"
    using assms(2) False by (cases "pc_pending_len p \<le> pc_max_len p") (auto simp: pc_remaining_capacity_def)
  then show ?thesis
    using False assms
    by (auto simp: pc_push_encrypted_def aes_ctr_apply_eq pc_wf_def pc_compact_consumed_prefix_def
        pc_pending_slice_def pc_pending_len_def pc_remaining_capacity_def Let_def)
qed

subsection \<open>\<open>CryptoWriter\<close>\<close>

definition DEFAULT_MAX_PENDING_WRITE :: nat where "DEFAULT_MAX_PENDING_WRITE = 64 * 1024"

datatype crypto_writer_state = CwIdle | CwFlushing pending_ciphertext | CwPoisoned "io_error option"

fun cw_is_poisoned :: "crypto_writer_state \<Rightarrow> bool" where
  "cw_is_poisoned (CwPoisoned _) = True"
| "cw_is_poisoned _ = False"

fun cw_state_name :: "crypto_writer_state \<Rightarrow> string" where
  "cw_state_name CwIdle = ''Idle''"
| "cw_state_name (CwFlushing _) = ''Flushing''"
| "cw_state_name (CwPoisoned _) = ''Poisoned''"

record 'u crypto_writer =
  cw_upstream :: 'u
  cw_encryptor :: aes_ctr
  cw_state :: crypto_writer_state
  cw_scratch :: bytes
  cw_max_pending_write :: nat

type_synonym 'u poll_writer = "'u \<Rightarrow> bytes \<Rightarrow> nat io_result poll \<times> 'u"
type_synonym 'u poll_control = "'u \<Rightarrow> unit io_result poll \<times> 'u"

definition crypto_writer_new :: "'u \<Rightarrow> aes_ctr \<Rightarrow> nat \<Rightarrow> 'u crypto_writer" where
  "crypto_writer_new u c max_pending_write =
     (let max_pending = (if max_pending_write = 0 then DEFAULT_MAX_PENDING_WRITE else max_pending_write)
      in \<lparr>cw_upstream = u, cw_encryptor = c, cw_state = CwIdle, cw_scratch = [],
          cw_max_pending_write = max max_pending (4 * 1024)\<rparr>)"

fun cw_has_pending :: "crypto_writer_state \<Rightarrow> bool" where
  "cw_has_pending (CwFlushing _) = True"
| "cw_has_pending _ = False"

fun cw_pending_len :: "crypto_writer_state \<Rightarrow> nat" where
  "cw_pending_len (CwFlushing p) = pc_pending_len p"
| "cw_pending_len _ = 0"

fun cw_take_poison :: "crypto_writer_state \<Rightarrow> io_error \<times> crypto_writer_state" where
  "cw_take_poison (CwPoisoned e) =
     ((case e of Some x \<Rightarrow> x | None \<Rightarrow> io_err OtherKind ''stream previously poisoned'' []), CwPoisoned None)"
| "cw_take_poison s = (io_err OtherKind ''stream not poisoned'' [], s)"

text \<open>\<open>ensure_pending\<close>: \<open>None\<close> is its \<open>unreachable!\<close> arm.\<close>

fun cw_ensure_pending :: "crypto_writer_state \<Rightarrow> nat \<Rightarrow> pending_ciphertext option" where
  "cw_ensure_pending CwIdle max_pending = Some (pc_new max_pending)"
| "cw_ensure_pending (CwFlushing p) max_pending = Some p"
| "cw_ensure_pending (CwPoisoned _) max_pending = None"

definition cw_panic :: io_error where
  "cw_panic = io_err OtherKind ''ensure_pending guarantees Flushing state'' []"

fun select_to_accept_for_buffering :: "crypto_writer_state \<Rightarrow> nat \<Rightarrow> nat \<Rightarrow> nat" where
  "select_to_accept_for_buffering st buf_len max_pending =
     (if buf_len = 0 then 0
      else case st of
          CwFlushing p \<Rightarrow> min buf_len (pc_remaining_capacity p)
        | CwIdle \<Rightarrow> min buf_len max_pending
        | CwPoisoned _ \<Rightarrow> 0)"

function cw_poll_flush_pending :: "'u poll_writer \<Rightarrow> 'u crypto_writer \<Rightarrow> unit io_result poll \<times> 'u crypto_writer" where
  "cw_poll_flush_pending up w =
     (case cw_state w of
        CwPoisoned _ \<Rightarrow>
          (case cw_take_poison (cw_state w) of (e, st) \<Rightarrow> (Ready (Inl e), w\<lparr>cw_state := st\<rparr>))
      | CwIdle \<Rightarrow> (Ready (Inr ()), w)
      | CwFlushing pending \<Rightarrow>
          if pc_is_empty pending then (Ready (Inr ()), w\<lparr>cw_state := CwIdle\<rparr>)
          else
            (case up (cw_upstream w) (pc_pending_slice pending) of
               (Pending, u) \<Rightarrow> (Pending, w\<lparr>cw_upstream := u\<rparr>)
             | (Ready (Inl e), u) \<Rightarrow>
                 (Ready (Inl e), w\<lparr>cw_upstream := u, cw_state := CwPoisoned (Some e)\<rparr>)
             | (Ready (Inr n), u) \<Rightarrow>
                 if n = 0 then
                   (let e = io_err WriteZero ''upstream returned 0 bytes written'' []
                    in (Ready (Inl e), w\<lparr>cw_upstream := u, cw_state := CwPoisoned (Some e)\<rparr>))
                 else cw_poll_flush_pending up
                   (w\<lparr>cw_upstream := u, cw_state := CwFlushing (pc_advance pending n)\<rparr>)))"
  by pat_completeness auto
termination
  by (relation "measure (\<lambda>(up, w). cw_pending_len (cw_state w))") (auto intro: pc_advance_less)

declare cw_poll_flush_pending.simps [simp del]

text \<open>The write-through path of \<open>poll_write\<close>, with nothing pending.\<close>

definition cw_write_through :: "'u poll_writer \<Rightarrow> 'u crypto_writer \<Rightarrow> bytes \<Rightarrow> nat io_result poll \<times> 'u crypto_writer" where
  "cw_write_through up w buf =
     (let to_accept = min (length buf) (cw_max_pending_write w);
          plaintext = take to_accept buf
      in case aes_ctr_apply (cw_encryptor w) plaintext of (scratch, c) \<Rightarrow>
        let w1 = w\<lparr>cw_encryptor := c, cw_scratch := scratch\<rparr> in
        (case up (cw_upstream w1) scratch of
           (Pending, u) \<Rightarrow>
             (case cw_ensure_pending (cw_state w1) (cw_max_pending_write w1) of
                None \<Rightarrow> (Ready (Inl cw_panic), w1\<lparr>cw_upstream := u\<rparr>)
              | Some pending \<Rightarrow>
                  (Ready (Inr to_accept),
                   w1\<lparr>cw_upstream := u, cw_scratch := [], cw_state := CwFlushing (pc_replace_with pending scratch)\<rparr>))
         | (Ready (Inl e), u) \<Rightarrow>
             (Ready (Inl e), w1\<lparr>cw_upstream := u, cw_state := CwPoisoned (Some e)\<rparr>)
         | (Ready (Inr n), u) \<Rightarrow>
             if n = 0 then
               (let e = io_err WriteZero ''upstream returned 0 bytes written'' []
                in (Ready (Inl e), w1\<lparr>cw_upstream := u, cw_state := CwPoisoned (Some e)\<rparr>))
             else if n = length scratch then
               (Ready (Inr to_accept), w1\<lparr>cw_upstream := u, cw_scratch := []\<rparr>)
             else
               (case cw_ensure_pending (cw_state w1) (cw_max_pending_write w1) of
                  None \<Rightarrow> (Ready (Inl cw_panic), w1\<lparr>cw_upstream := u\<rparr>)
                | Some pending \<Rightarrow>
                    (Ready (Inr to_accept),
                     w1\<lparr>cw_upstream := u, cw_scratch := [],
                        cw_state := CwFlushing (pc_replace_with pending (drop n scratch))\<rparr>))))"

text \<open>The buffering path, taken when the upstream is blocked.\<close>

definition cw_buffer :: "'u crypto_writer \<Rightarrow> bytes \<Rightarrow> nat io_result poll \<times> 'u crypto_writer" where
  "cw_buffer w buf =
     (let to_accept = select_to_accept_for_buffering (cw_state w) (length buf) (cw_max_pending_write w) in
      if to_accept = 0 then (Pending, w)
      else
        (case cw_ensure_pending (cw_state w) (cw_max_pending_write w) of
           None \<Rightarrow> (Ready (Inl cw_panic), w)
         | Some pending \<Rightarrow>
             (case pc_push_encrypted pending (cw_encryptor w) (take to_accept buf) of
                (Inl e, pending', c) \<Rightarrow>
                  ((if kind e = WouldBlock then Pending else Ready (Inl e)),
                   w\<lparr>cw_encryptor := c, cw_state := CwFlushing pending'\<rparr>)
              | (Inr _, pending', c) \<Rightarrow>
                  (Ready (Inr to_accept), w\<lparr>cw_encryptor := c, cw_state := CwFlushing pending'\<rparr>))))"

definition cw_poll_write :: "'u poll_writer \<Rightarrow> 'u crypto_writer \<Rightarrow> bytes \<Rightarrow> nat io_result poll \<times> 'u crypto_writer" where
  "cw_poll_write up w buf =
     (if cw_is_poisoned (cw_state w) then
        (case cw_take_poison (cw_state w) of (e, st) \<Rightarrow> (Ready (Inl e), w\<lparr>cw_state := st\<rparr>))
      else if buf = [] then (Ready (Inr 0), w)
      else if cw_has_pending (cw_state w) then
        (case cw_poll_flush_pending up w of
           (Ready (Inr _), w1) \<Rightarrow> cw_write_through up w1 buf
         | (Ready (Inl e), w1) \<Rightarrow> (Ready (Inl e), w1)
         | (Pending, w1) \<Rightarrow> cw_buffer w1 buf)
      else cw_write_through up w buf)"

definition cw_poll_flush :: "'u poll_writer \<Rightarrow> 'u poll_control \<Rightarrow> 'u crypto_writer \<Rightarrow> unit io_result poll \<times> 'u crypto_writer" where
  "cw_poll_flush up up_flush w =
     (if cw_is_poisoned (cw_state w) then
        (case cw_take_poison (cw_state w) of (e, st) \<Rightarrow> (Ready (Inl e), w\<lparr>cw_state := st\<rparr>))
      else
        (case cw_poll_flush_pending up w of
           (Pending, w1) \<Rightarrow> (Pending, w1)
         | (Ready (Inl e), w1) \<Rightarrow> (Ready (Inl e), w1)
         | (Ready (Inr _), w1) \<Rightarrow>
             (case up_flush (cw_upstream w1) of (r, u) \<Rightarrow> (r, w1\<lparr>cw_upstream := u\<rparr>))))"

definition cw_poll_shutdown :: "'u poll_writer \<Rightarrow> 'u poll_control \<Rightarrow> 'u crypto_writer \<Rightarrow> unit io_result poll \<times> 'u crypto_writer" where
  "cw_poll_shutdown up up_shutdown w =
     (case cw_poll_flush_pending up w of (_, w1) \<Rightarrow>
        (case up_shutdown (cw_upstream w1) of (r, u) \<Rightarrow> (r, w1\<lparr>cw_upstream := u\<rparr>)))"

subsection \<open>The writer over any byte sink\<close>

fun cw_pending :: "crypto_writer_state \<Rightarrow> bytes" where
  "cw_pending (CwFlushing p) = pc_pending_slice p"
| "cw_pending _ = []"

definition cw_queued :: "'u crypto_writer \<Rightarrow> bytes" where
  "cw_queued w = cw_pending (cw_state w)"

text \<open>The ciphertext produced since the upstream had taken \<open>base\<close> bytes, and the plaintext it stands
  for under the initial cipher \<open>c\<close>.\<close>

definition cw_cipher :: "('u \<Rightarrow> bytes) \<Rightarrow> nat \<Rightarrow> 'u crypto_writer \<Rightarrow> bytes" where
  "cw_cipher plain base w = drop base (plain (cw_upstream w)) @ cw_queued w"

definition cw_plain :: "('u \<Rightarrow> bytes) \<Rightarrow> nat \<Rightarrow> aes_ctr \<Rightarrow> 'u crypto_writer \<Rightarrow> bytes" where
  "cw_plain plain base c w = ctr_of c (cw_cipher plain base w)"

fun cw_state_wf :: "nat \<Rightarrow> crypto_writer_state \<Rightarrow> bool" where
  "cw_state_wf m (CwFlushing p) = (pc_wf p \<and> pc_max_len p = m)"
| "cw_state_wf m _ = True"

text \<open>A sound writer has an upstream that works and a cipher position that matches the ciphertext; a
  broken writer is poisoned or sits on a broken upstream.\<close>

definition cw_shape :: "('u \<Rightarrow> bool) \<Rightarrow> 'u crypto_writer \<Rightarrow> bool" where
  "cw_shape P w \<longleftrightarrow> P (cw_upstream w) \<and> 0 < cw_max_pending_write w \<and>
     cw_state_wf (cw_max_pending_write w) (cw_state w)"

definition cw_broken :: "('u \<Rightarrow> bool) \<Rightarrow> 'u crypto_writer \<Rightarrow> bool" where
  "cw_broken broken w \<longleftrightarrow> cw_is_poisoned (cw_state w) \<or> broken (cw_upstream w)"

definition cw_sound :: "('u \<Rightarrow> bytes) \<Rightarrow> nat \<Rightarrow> aes_ctr \<Rightarrow> 'u crypto_writer \<Rightarrow> bool" where
  "cw_sound plain base c w \<longleftrightarrow>
     base \<le> length (plain (cw_upstream w)) \<and> cw_encryptor w = ctr_after c (cw_cipher plain base w)"

definition cw_inv :: "('u \<Rightarrow> bool) \<Rightarrow> ('u \<Rightarrow> bool) \<Rightarrow> ('u \<Rightarrow> bytes) \<Rightarrow> nat \<Rightarrow> aes_ctr \<Rightarrow> 'u crypto_writer \<Rightarrow> bool" where
  "cw_inv P broken plain base c w \<longleftrightarrow> cw_shape P w \<and> (\<not> cw_broken broken w \<longrightarrow> cw_sound plain base c w)"

lemmas cw_defs = cw_shape_def cw_broken_def cw_sound_def cw_cipher_def cw_queued_def

lemma cw_inv_bound: "cw_inv P broken plain base c w \<Longrightarrow> length (cw_queued w) \<le> cw_max_pending_write w"
  by (cases "cw_state w") (auto simp: cw_inv_def cw_shape_def cw_queued_def pc_wf_def pc_pending_slice_def)

locale crypto_out = byte_writer
begin

lemma upstream_took:
  assumes "inv u" "poll u xs = (Ready (Inr n), u')" "base \<le> length (plain u)"
  shows "drop base (plain u') @ drop n xs = drop base (plain u) @ xs" "base \<le> length (plain u')"
  using poll_ok [OF assms(1,2)] assms(3) by simp_all

definition good :: "nat \<Rightarrow> aes_ctr \<Rightarrow> 'a crypto_writer \<Rightarrow> bool" where
  "good base c w \<longleftrightarrow> cw_shape inv w \<and> \<not> cw_broken broken w \<and> cw_sound plain base c w"

definition dead :: "'a crypto_writer \<Rightarrow> bool" where
  "dead w \<longleftrightarrow> cw_shape inv w \<and> cw_broken broken w"

lemma inv_cases: "cw_inv inv broken plain base c w \<longleftrightarrow> good base c w \<or> dead w"
  by (auto simp: cw_inv_def good_def dead_def)

text \<open>Draining the pending ciphertext moves bytes from the queue to the upstream and changes
  nothing else.\<close>

lemma flush_pending_spec:
  assumes "good base c w" "cw_poll_flush_pending poll w = (r, w')"
  shows "cw_max_pending_write w' = cw_max_pending_write w \<and>
    (case r of
       Pending \<Rightarrow> good base c w' \<and> cw_has_pending (cw_state w') \<and> cw_cipher plain base w' = cw_cipher plain base w
     | Ready (Inl e) \<Rightarrow> dead w'
     | Ready (Inr x) \<Rightarrow> good base c w' \<and> cw_state w' = CwIdle \<and> cw_cipher plain base w' = cw_cipher plain base w)"
  using assms
proof (induction "cw_pending_len (cw_state w)" arbitrary: w rule: less_induct)
  case less
  show ?case
  proof (cases "cw_state w")
    case CwIdle
    then show ?thesis using less.prems by (auto simp: cw_poll_flush_pending.simps [of poll w])
  next
    case (CwPoisoned e)
    then show ?thesis using less.prems by (simp add: good_def cw_broken_def)
  next
    case (CwFlushing p)
    note E = less.prems(2) [unfolded cw_poll_flush_pending.simps [of poll w]]
    show ?thesis
    proof (cases "pc_is_empty p")
      case True
      then have "pc_pending_slice p = []" using pc_pending_len_slice [of p] by (simp add: pc_is_empty_def)
      then show ?thesis using E True CwFlushing less.prems(1) by (auto simp: good_def cw_defs)
    next
      case False
      obtain y u where y: "poll (cw_upstream w) (pc_pending_slice p) = (y, u)" by fastforce
      have i: "inv (cw_upstream w)" "pc_wf p" "base \<le> length (plain (cw_upstream w))"
        "pc_max_len p = cw_max_pending_write w" "\<not> broken (cw_upstream w)"
        using less.prems(1) CwFlushing by (auto simp: good_def cw_defs)
      have iu: "inv u" using poll_inv [OF i(1) y] .
      note alive = poll_alive [OF i(1,5) y]
      show ?thesis
      proof (cases y)
        case Pending
        then have "plain u = plain (cw_upstream w)" using poll_pending [OF i(1)] y by blast
        then show ?thesis
          using E False CwFlushing y Pending less.prems(1) iu alive by (auto simp: good_def cw_defs)
      next
        case (Ready z)
        show ?thesis
        proof (cases "\<exists>n. z = Inr n \<and> n \<noteq> 0")
          case False
          then show ?thesis
            using E \<open>\<not> pc_is_empty p\<close> CwFlushing y Ready less.prems(1) iu
            by (auto simp: good_def dead_def cw_defs Let_def split: sum.splits)
        next
          case True
          then obtain n where n: "z = Inr n" "n \<noteq> 0" by blast
          let ?w = "w\<lparr>cw_upstream := u, cw_state := CwFlushing (pc_advance p n)\<rparr>"
          note T = upstream_took [OF i(1) y [unfolded Ready n(1)] i(3)]
          have c: "cw_cipher plain base ?w = cw_cipher plain base w"
            using T(1) CwFlushing pc_advance(1) [OF i(2)] by (simp add: cw_cipher_def cw_queued_def)
          have g: "good base c ?w"
            using less.prems(1) CwFlushing iu T(2) i(4) pc_advance [OF i(2)] c alive Ready n
            by (simp add: good_def cw_shape_def cw_broken_def cw_sound_def)
          have eq: "cw_poll_flush_pending poll ?w = (r, w')"
            using E \<open>\<not> pc_is_empty p\<close> CwFlushing y Ready n by simp
          have "cw_pending_len (cw_state ?w) < cw_pending_len (cw_state w)"
            using pc_advance_less \<open>\<not> pc_is_empty p\<close> n CwFlushing by simp
          from less.hyps [OF this g eq] show ?thesis by (simp only: c) simp
        qed
      qed
    qed
  qed
qed

definition accepts :: "nat \<Rightarrow> aes_ctr \<Rightarrow> 'a crypto_writer \<Rightarrow> bytes \<Rightarrow> nat \<Rightarrow> 'a crypto_writer \<Rightarrow> bool" where
  "accepts base c w buf n w' \<longleftrightarrow> good base c w' \<and> 0 < n \<and> n \<le> length buf \<and>
     cw_cipher plain base w' = cw_cipher plain base w @ ctr_of (cw_encryptor w) (take n buf)"

lemma acceptsI:
  assumes "good base c w" "n \<le> length buf" "0 < n" "cw_shape inv w'" "\<not> cw_broken broken w'"
    "base \<le> length (plain (cw_upstream w'))"
    "cw_encryptor w' = ctr_after (cw_encryptor w) (take n buf)"
    "cw_cipher plain base w' = cw_cipher plain base w @ ctr_of (cw_encryptor w) (take n buf)"
  shows "accepts base c w buf n w'"
proof -
  have "cw_encryptor w' = ctr_after (cw_encryptor w) (ctr_of (cw_encryptor w) (take n buf))"
    using assms(7) ctr_after_length [of "take n buf" "ctr_of (cw_encryptor w) (take n buf)"] by simp
  then show ?thesis
    using assms by (simp add: accepts_def good_def cw_sound_def ctr_after_append)
qed

lemma write_through_spec:
  assumes g: "good base c w" and idle: "cw_state w = CwIdle" and ne: "buf \<noteq> []"
    and eq: "cw_write_through poll w buf = (r, w')"
  shows "case r of Pending \<Rightarrow> False | Ready (Inl e) \<Rightarrow> dead w' | Ready (Inr n) \<Rightarrow> accepts base c w buf n w'"
proof -
  define n where "n = min (length buf) (cw_max_pending_write w)"
  define s where "s = ctr_of (cw_encryptor w) (take n buf)"
  have n: "0 < n" "n \<le> length buf" "length s = n" "n \<le> cw_max_pending_write w"
    using g ne by (auto simp: n_def s_def good_def cw_shape_def)
  obtain y u where y: "poll (cw_upstream w) s = (y, u)" by fastforce
  have i: "inv (cw_upstream w)" "base \<le> length (plain (cw_upstream w))" "\<not> broken (cw_upstream w)"
    using g by (auto simp: good_def cw_defs)
  have iu: "inv u" using poll_inv [OF i(1) y] .
  note alive = poll_alive [OF i(1,3) y]
  note E = eq [unfolded cw_write_through_def n_def [symmetric] aes_ctr_apply_eq s_def [symmetric] Let_def]
  note S = cw_shape_def cw_broken_def cw_cipher_def cw_queued_def pc_new_def pc_replace_with_def pc_wf_def
    pc_pending_slice_def
  have g': "0 < cw_max_pending_write w" using g by (simp add: good_def cw_shape_def)
  show ?thesis
  proof (cases y)
    case Pending
    then have pl: "plain u = plain (cw_upstream w)" using poll_pending [OF i(1)] y by blast
    have w': "r = Ready (Inr n)" "w' = w\<lparr>cw_encryptor := ctr_after (cw_encryptor w) (take n buf), cw_upstream := u,
        cw_scratch := [], cw_state := CwFlushing (pc_replace_with (pc_new (cw_max_pending_write w)) s)\<rparr>"
      using E Pending y idle by auto
    have "accepts base c w buf n w'"
      by (rule acceptsI [OF g n(2,1)]) (use w'(2) pl i(2) iu alive Pending n g' idle in \<open>simp_all add: S s_def\<close>)
    then show ?thesis using w'(1) by simp
  next
    case (Ready z)
    show ?thesis
    proof (cases "\<exists>m. z = Inr m \<and> m \<noteq> 0")
      case False
      then show ?thesis
        using E y Ready g iu by (auto simp: good_def dead_def cw_defs split: sum.splits)
    next
      case True
      then obtain m where m: "z = Inr m" "m \<noteq> 0" by blast
      note T = upstream_took [OF i(1) y [unfolded Ready m(1)] i(2)]
      have ml: "m \<le> length s" using poll_ok [OF i(1)] y Ready m(1) by blast
      have r: "r = Ready (Inr n)" using E y Ready m idle by (auto split: if_splits)
      have w': "w' = w\<lparr>cw_encryptor := ctr_after (cw_encryptor w) (take n buf), cw_upstream := u, cw_scratch := [],
          cw_state := (if m = length s then CwIdle
            else CwFlushing (pc_replace_with (pc_new (cw_max_pending_write w)) (drop m s)))\<rparr>"
        using E y Ready m idle by (auto split: if_splits)
      have q: "cw_queued w' = drop m s" using w' ml by (simp add: S)
      have bd: "n - m \<le> cw_max_pending_write w" using n(4) by linarith
      have "accepts base c w buf n w'"
        by (rule acceptsI [OF g n(2,1)])
          (use w' T iu alive Ready m n g' idle q bd in \<open>simp_all add: S s_def\<close>)
      then show ?thesis using r by simp
    qed
  qed
qed

lemma buffer_spec:
  assumes g: "good base c w" and st: "cw_state w = CwFlushing p" and ne: "buf \<noteq> []"
    and eq: "cw_buffer w buf = (r, w')"
  shows "cw_upstream w' = cw_upstream w \<and>
    (case r of Pending \<Rightarrow> w' = w | Ready (Inl e) \<Rightarrow> False | Ready (Inr n) \<Rightarrow> accepts base c w buf n w')"
proof -
  define n where "n = min (length buf) (pc_remaining_capacity p)"
  have i: "pc_wf p" "pc_max_len p = cw_max_pending_write w" "base \<le> length (plain (cw_upstream w))"
    using g st by (auto simp: good_def cw_shape_def cw_sound_def)
  obtain p' where p': "pc_push_encrypted p (cw_encryptor w) (take n buf) =
      (Inr (), p', ctr_after (cw_encryptor w) (take n buf))"
    "pc_wf p'" "pc_max_len p' = pc_max_len p"
    "pc_pending_slice p' = pc_pending_slice p @ ctr_of (cw_encryptor w) (take n buf)"
    using pc_push [OF i(1), of "take n buf"] by (auto simp: n_def)
  have sel: "select_to_accept_for_buffering (cw_state w) (length buf) (cw_max_pending_write w) = n"
    using st ne by (simp add: n_def)
  have E: "cw_buffer w buf = (if n = 0 then (Pending, w)
     else (Ready (Inr n), w\<lparr>cw_encryptor := ctr_after (cw_encryptor w) (take n buf), cw_state := CwFlushing p'\<rparr>))"
    unfolding cw_buffer_def sel Let_def using st p'(1) by simp
  show ?thesis
  proof (cases "n = 0")
    case True
    then show ?thesis using E eq by auto
  next
    case False
    then have w': "r = Ready (Inr n)"
      "w' = w\<lparr>cw_encryptor := ctr_after (cw_encryptor w) (take n buf), cw_state := CwFlushing p'\<rparr>"
      using E eq by auto
    have "accepts base c w buf n w'"
    proof (rule acceptsI [OF g])
      show "n \<le> length buf" "0 < n" using False by (auto simp: n_def)
      show "cw_shape inv w'" "\<not> cw_broken broken w'"
        using g st w'(2) p'(2,3) i(2) by (auto simp: good_def cw_shape_def cw_broken_def)
    qed (use w'(2) i(3) p'(4) st in \<open>simp_all add: cw_cipher_def cw_queued_def\<close>)
    then show ?thesis using w' by simp
  qed
qed

text \<open>A broken writer fails on every write and stays broken.\<close>

lemma broken_through:
  assumes "cw_shape inv w" "broken (cw_upstream w)" "buf \<noteq> []" "cw_write_through poll w buf = (r, w')"
  shows "dead w' \<and> (\<exists>e. r = Ready (Inl e))"
proof -
  let ?s = "ctr_of (cw_encryptor w) (take (min (length buf) (cw_max_pending_write w)) buf)"
  obtain y u where y: "poll (cw_upstream w) ?s = (y, u)" by fastforce
  have i: "inv (cw_upstream w)" "?s \<noteq> []" using assms(1,3) by (auto simp: cw_shape_def)
  then obtain e where e: "y = Ready (Inl e)" using broken_poll [OF i(1) assms(2) i(2) y] by blast
  show ?thesis
    using assms(1,4) y e poll_inv [OF i(1) y]
    by (auto simp: cw_write_through_def aes_ctr_apply_eq Let_def dead_def cw_shape_def cw_broken_def)
qed

lemma broken_flush_pending:
  assumes "cw_shape inv w" "broken (cw_upstream w)" "\<not> cw_is_poisoned (cw_state w)"
    "cw_poll_flush_pending poll w = (r, w')"
  shows "dead w' \<and> ((\<exists>e. r = Ready (Inl e)) \<or>
     r = Ready (Inr ()) \<and> cw_state w' = CwIdle \<and> cw_upstream w' = cw_upstream w)"
proof (cases "cw_state w")
  case CwIdle
  then show ?thesis
    using assms by (auto simp: cw_poll_flush_pending.simps [of poll w] dead_def cw_broken_def)
next
  case (CwPoisoned e)
  then show ?thesis using assms(3) by simp
next
  case (CwFlushing p)
  show ?thesis
  proof (cases "pc_is_empty p")
    case True
    then show ?thesis
      using assms CwFlushing
      by (auto simp: cw_poll_flush_pending.simps [of poll w] dead_def cw_broken_def cw_shape_def)
  next
    case False
    obtain y u where y: "poll (cw_upstream w) (pc_pending_slice p) = (y, u)" by fastforce
    have i: "inv (cw_upstream w)" "pc_pending_slice p \<noteq> []"
      using assms(1) False pc_pending_len_slice [of p] by (auto simp: cw_shape_def pc_is_empty_def)
    then obtain e where "y = Ready (Inl e)" using broken_poll [OF i(1) assms(2) i(2) y] by blast
    then show ?thesis
      using assms(1,4) y False CwFlushing poll_inv [OF i(1) y]
      by (auto simp: cw_poll_flush_pending.simps [of poll w] dead_def cw_shape_def cw_broken_def)
  qed
qed

lemma dead_poisoned:
  assumes "dead w" "cw_is_poisoned (cw_state w)"
  shows "cw_poll_write poll w buf = (r, w') \<Longrightarrow> dead w' \<and> (\<exists>e. r = Ready (Inl e))"
    "cw_poll_flush poll flush w = (f, w') \<Longrightarrow> dead w' \<and> (\<exists>e. f = Ready (Inl e))"
  using assms by (cases "cw_state w"; auto simp: cw_poll_write_def cw_poll_flush_def dead_def cw_shape_def cw_broken_def)+

lemma dead_write:
  assumes "dead w" "buf \<noteq> []" "cw_poll_write poll w buf = (r, w')"
  shows "dead w' \<and> (\<exists>e. r = Ready (Inl e))"
proof (cases "cw_is_poisoned (cw_state w)")
  case True
  then show ?thesis using dead_poisoned(1) assms by blast
next
  case False
  have b: "cw_shape inv w" "broken (cw_upstream w)" using assms(1) False by (auto simp: dead_def cw_broken_def)
  obtain y w1 where y: "cw_poll_flush_pending poll w = (y, w1)" by fastforce
  note F = broken_flush_pending [OF b False y]
  show ?thesis
  proof (cases "cw_has_pending (cw_state w)")
    case pend: True
    show ?thesis
    proof (cases "\<exists>e. y = Ready (Inl e)")
      case True
      then show ?thesis using F assms(2,3) False pend y by (auto simp: cw_poll_write_def)
    next
      case no: False
      then have "cw_write_through poll w1 buf = (r, w')" "cw_shape inv w1" "broken (cw_upstream w1)"
        using F assms(2,3) False pend y b(2) by (auto simp: cw_poll_write_def dead_def)
      then show ?thesis using broken_through assms(2) by blast
    qed
  next
    case no: False
    then show ?thesis
      using broken_through [OF b assms(2)] assms(2,3) False by (simp add: cw_poll_write_def)
  qed
qed

lemma dead_flush:
  assumes "dead w" "cw_poll_flush poll flush w = (r, w')"
  shows "dead w' \<and> (\<exists>e. r = Ready (Inl e))"
proof (cases "cw_is_poisoned (cw_state w)")
  case True
  then show ?thesis using dead_poisoned(2) assms by blast
next
  case False
  have b: "cw_shape inv w" "broken (cw_upstream w)" using assms(1) False by (auto simp: dead_def cw_broken_def)
  obtain y w1 where y: "cw_poll_flush_pending poll w = (y, w1)" by fastforce
  note F = broken_flush_pending [OF b False y]
  show ?thesis
  proof (cases "\<exists>e. y = Ready (Inl e)")
    case True
    then show ?thesis using F assms(2) False y by (auto simp: cw_poll_flush_def)
  next
    case no: False
    obtain f u where f: "flush (cw_upstream w) = (f, u)" by fastforce
    have i: "inv (cw_upstream w)" using b(1) by (simp add: cw_shape_def)
    have "r = f" "w' = w1\<lparr>cw_upstream := u\<rparr>"
      using F no assms(2) False y f by (auto simp: cw_poll_flush_def)
    then show ?thesis
      using F no broken_flush [OF i b(2) f] flush_inv [OF i f] by (auto simp: dead_def cw_shape_def cw_broken_def)
  qed
qed

lemma poll_write_good:
  assumes g: "good base c w" and ne: "buf \<noteq> []" and eq: "cw_poll_write poll w buf = (r, w')"
  shows "case r of
     Pending \<Rightarrow> good base c w' \<and> cw_cipher plain base w' = cw_cipher plain base w
   | Ready (Inl e) \<Rightarrow> dead w'
   | Ready (Inr n) \<Rightarrow> accepts base c w buf n w'"
proof (cases "cw_has_pending (cw_state w)")
  case False
  then have st: "cw_state w = CwIdle"
    using g by (cases "cw_state w") (auto simp: good_def cw_broken_def)
  then show ?thesis
    using write_through_spec [OF g st ne, of r w'] eq ne by (auto simp: cw_poll_write_def split: poll.splits)
next
  case True
  have np: "\<not> cw_is_poisoned (cw_state w)" using True by (cases "cw_state w") auto
  obtain y w1 where y: "cw_poll_flush_pending poll w = (y, w1)" by fastforce
  note F = flush_pending_spec [OF g y]
  have same: "accepts base c w buf n w'"
    if "good base c w1" "cw_cipher plain base w1 = cw_cipher plain base w" "accepts base c w1 buf n w'" for n
    using that g by (simp add: accepts_def good_def cw_sound_def)
  show ?thesis
  proof (cases y)
    case Pending
    then have w1: "good base c w1" "cw_cipher plain base w1 = cw_cipher plain base w" "cw_has_pending (cw_state w1)"
      using F by auto
    then obtain p where p: "cw_state w1 = CwFlushing p" by (cases "cw_state w1") auto
    have "cw_buffer w1 buf = (r, w')" using eq np ne True y Pending by (simp add: cw_poll_write_def)
    from buffer_spec [OF w1(1) p ne this] show ?thesis
      using w1 same by (auto split: poll.splits sum.splits)
  next
    case (Ready z)
    show ?thesis
    proof (cases z)
      case (Inl e)
      then show ?thesis using eq ne np True y Ready F by (auto simp: cw_poll_write_def)
    next
      case (Inr v)
      then have w1: "good base c w1" "cw_state w1 = CwIdle" "cw_cipher plain base w1 = cw_cipher plain base w"
        using F Ready by auto
      have "cw_write_through poll w1 buf = (r, w')"
        using eq ne np True y Ready Inr by (simp add: cw_poll_write_def)
      from write_through_spec [OF w1(1,2) ne this] show ?thesis
        using w1 same by (auto split: poll.splits sum.splits)
    qed
  qed
qed

lemma poll_flush_good:
  assumes g: "good base c w" and eq: "cw_poll_flush poll flush w = (r, w')"
  shows "case r of
     Pending \<Rightarrow> good base c w' \<and> cw_cipher plain base w' = cw_cipher plain base w
   | Ready (Inl e) \<Rightarrow> dead w' \<or> good base c w' \<and> cw_cipher plain base w' = cw_cipher plain base w
   | Ready (Inr x) \<Rightarrow> good base c w' \<and> cw_cipher plain base w' = cw_cipher plain base w \<and>
       cw_queued w' = [] \<and> queued (cw_upstream w') = []"
proof -
  have np: "\<not> cw_is_poisoned (cw_state w)" using g by (simp add: good_def cw_broken_def)
  obtain y w1 where y: "cw_poll_flush_pending poll w = (y, w1)" by fastforce
  note F = flush_pending_spec [OF g y]
  show ?thesis
  proof (cases "\<exists>v. y = Ready (Inr v)")
    case False
    then show ?thesis
      using eq np y F by (cases y) (auto simp: cw_poll_flush_def split: sum.splits)
  next
    case True
    then have w1: "good base c w1" "cw_state w1 = CwIdle" "cw_cipher plain base w1 = cw_cipher plain base w"
      and y': "y = Ready (Inr ())" using F by auto
    obtain u where u: "flush (cw_upstream w1) = (r, u)" "w' = w1\<lparr>cw_upstream := u\<rparr>"
      using eq np y y' by (auto simp: cw_poll_flush_def split: prod.splits)
    have i: "inv (cw_upstream w1)" "\<not> broken (cw_upstream w1)"
      using w1(1) by (auto simp: good_def cw_shape_def cw_broken_def)
    have iu: "inv u" using flush_inv [OF i(1) u(1)] .
    have keep: "good base c w' \<and> cw_cipher plain base w' = cw_cipher plain base w \<and> cw_queued w' = []"
      if "plain u = plain (cw_upstream w1)" "\<not> broken u"
      using that w1 u(2) iu by (auto simp: good_def cw_defs)
    have dd: "dead w'" if "broken u"
      using that w1 u(2) iu by (auto simp: good_def dead_def cw_shape_def cw_broken_def)
    show ?thesis
      using keep dd flush_alive [OF i u(1)] flush_ok [OF i(1)] flush_pending [OF i(1)] flush_error [OF i(1)]
        u by (cases r) (auto split: sum.splits)
  qed
qed

lemma plain_accepts: "good base c w \<Longrightarrow> accepts base c w buf n w' \<Longrightarrow> cw_plain plain base c w' = cw_plain plain base c w @ take n buf"
  by (simp add: accepts_def good_def cw_sound_def cw_plain_def ctr_of_append)

lemma poll_write_spec:
  assumes inv: "cw_inv inv broken plain base c w" and eq: "cw_poll_write poll w buf = (r, w')"
  shows "cw_inv inv broken plain base c w' \<and>
    (case r of
       Pending \<Rightarrow> cw_plain plain base c w' = cw_plain plain base c w
     | Ready (Inl e) \<Rightarrow> cw_broken broken w'
     | Ready (Inr n) \<Rightarrow> n \<le> length buf \<and> cw_plain plain base c w' = cw_plain plain base c w @ take n buf) \<and>
    (cw_broken broken w \<and> buf \<noteq> [] \<longrightarrow> (\<exists>e. r = Ready (Inl e))) \<and>
    (\<not> cw_broken broken w \<and> (\<forall>e. r \<noteq> Ready (Inl e)) \<longrightarrow> \<not> cw_broken broken w')"
proof -
  have D: "cw_inv inv broken plain base c w' \<and> cw_broken broken w'" if "dead w'"
    using that by (simp add: inv_cases dead_def)
  consider (empty) "buf = []" "\<not> cw_is_poisoned (cw_state w)"
    | (pois) "dead w" "cw_is_poisoned (cw_state w)" | (dead) "dead w" "buf \<noteq> []" | (good) "good base c w" "buf \<noteq> []"
    using inv by (auto simp: inv_cases good_def dead_def cw_broken_def)
  then show ?thesis
  proof cases
    case empty
    then show ?thesis using eq inv by (auto simp: cw_poll_write_def)
  next
    case pois
    then show ?thesis using dead_poisoned(1) [OF pois eq] D by (auto simp: dead_def)
  next
    case dead
    then show ?thesis using dead_write [OF dead eq] D by (auto simp: dead_def)
  next
    case good
    then show ?thesis
      using poll_write_good [OF good eq] D plain_accepts [OF good(1)]
      by (auto simp: inv_cases cw_plain_def accepts_def good_def split: poll.splits sum.splits)
  qed
qed

lemma poll_flush_spec:
  assumes inv: "cw_inv inv broken plain base c w" and eq: "cw_poll_flush poll flush w = (r, w')"
  shows "cw_inv inv broken plain base c w' \<and>
    (case r of
       Pending \<Rightarrow> cw_plain plain base c w' = cw_plain plain base c w
     | Ready (Inl e) \<Rightarrow> cw_broken broken w' \<or> cw_plain plain base c w' = cw_plain plain base c w
     | Ready (Inr x) \<Rightarrow> cw_plain plain base c w' = cw_plain plain base c w \<and>
         cw_queued w' @ queued (cw_upstream w') = []) \<and>
    (cw_broken broken w \<longrightarrow> (\<exists>e. r = Ready (Inl e)) \<and> cw_broken broken w') \<and>
    (\<not> cw_broken broken w \<and> (\<forall>e. r \<noteq> Ready (Inl e)) \<longrightarrow> \<not> cw_broken broken w')"
proof -
  have D: "cw_inv inv broken plain base c w' \<and> cw_broken broken w'" if "dead w'"
    using that by (simp add: inv_cases dead_def)
  show ?thesis
  proof (cases "dead w")
    case True
    then show ?thesis using dead_flush [OF True eq] D by (auto simp: dead_def)
  next
    case False
    then have g: "good base c w" using inv by (simp add: inv_cases)
    show ?thesis
      using poll_flush_good [OF g eq] D g
      by (auto simp: inv_cases cw_plain_def good_def split: poll.splits sum.splits)
  qed
qed

end

sublocale crypto_out \<subseteq> crypto: byte_writer "cw_poll_write poll" "cw_poll_flush poll flush"
    "cw_plain plain base c" "\<lambda>w. cw_queued w @ queued (cw_upstream w)" "cw_broken broken"
    "cw_inv inv broken plain base c" for base c
proof (unfold_locales, goal_cases)
  case (1 s xs r s')
  then show ?case using poll_write_spec [of base c s xs r s'] by blast
next
  case (2 s xs n s')
  then show ?case using poll_write_spec [of base c s xs "Ready (Inr n)" s'] by simp
next
  case (3 s xs s')
  then show ?case using poll_write_spec [of base c s xs Pending s'] by simp
next
  case (4 s f s')
  then show ?case using poll_flush_spec [of base c s f s'] by blast
next
  case (5 s s')
  then show ?case using poll_flush_spec [of base c s "Ready (Inr ())" s'] by simp
next
  case (6 s s')
  then show ?case using poll_flush_spec [of base c s Pending s'] by simp
next
  case (7 s xs e s')
  then show ?case using poll_write_spec [of base c s xs "Ready (Inl e)" s'] by simp
next
  case (8 s e s')
  then show ?case using poll_flush_spec [of base c s "Ready (Inl e)" s'] by simp
next
  case (9 s xs r s')
  then show ?case using poll_write_spec [of base c s xs r s'] by blast
next
  case (10 s f s')
  then show ?case using poll_flush_spec [of base c s f s'] by blast
next
  case (11 s xs r s')
  then show ?case using poll_write_spec [of base c s xs r s'] by (auto split: poll.splits sum.splits)
next
  case (12 s f s')
  then show ?case using poll_flush_spec [of base c s f s'] by blast
qed

subsection \<open>Progress over a live upstream\<close>

definition cw_live :: "('u \<Rightarrow> nat \<Rightarrow> bool) \<Rightarrow> nat \<Rightarrow> 'u crypto_writer \<Rightarrow> nat \<Rightarrow> bool" where
  "cw_live live rate w b \<longleftrightarrow> \<not> cw_is_poisoned (cw_state w) \<and>
     live (cw_upstream w) (rate * length (cw_queued w) + b)"

definition cw_meas :: "('u \<Rightarrow> nat) \<Rightarrow> 'u crypto_writer \<Rightarrow> nat" where
  "cw_meas meas w = meas (cw_upstream w)"

lemma budget_split: "n \<le> k \<Longrightarrow> rate * k + b - rate * n = rate * (k - n) + (b :: nat)"
  by (metis Nat.diff_add_assoc2 diff_mult_distrib2 mult_le_mono2)

locale crypto_out_live = crypto_out + live_writer
begin

lemma flush_pending_live:
  assumes "cw_shape inv w" "cw_live live rate w b" "0 < b" "cw_poll_flush_pending poll w = (r, w')"
  shows "cw_shape inv w' \<and> cw_live live rate w' b \<and> (\<forall>e. r \<noteq> Ready (Inl e)) \<and>
    cw_meas meas w' \<le> cw_meas meas w \<and> (r = Pending \<longrightarrow> cw_meas meas w' < cw_meas meas w \<and> cw_has_pending (cw_state w')) \<and>
    (\<forall>x. r = Ready (Inr x) \<longrightarrow> cw_state w' = CwIdle)"
  using assms
proof (induction "cw_pending_len (cw_state w)" arbitrary: w rule: less_induct)
  case less
  note E = less.prems(4) [unfolded cw_poll_flush_pending.simps [of poll w]]
  show ?case
  proof (cases "cw_state w")
    case CwIdle
    then show ?thesis using E less.prems by auto
  next
    case (CwPoisoned e)
    then show ?thesis using less.prems(2) by (simp add: cw_live_def)
  next
    case (CwFlushing p)
    show ?thesis
    proof (cases "pc_is_empty p")
      case True
      then have "pc_pending_slice p = []" using pc_pending_len_slice [of p] by (simp add: pc_is_empty_def)
      then show ?thesis
        using E True CwFlushing less.prems
        by (auto simp: cw_live_def cw_meas_def cw_shape_def cw_queued_def)
    next
      case False
      let ?q = "pc_pending_slice p"
      obtain y u where y: "poll (cw_upstream w) ?q = (y, u)" by fastforce
      have i: "inv (cw_upstream w)" "pc_wf p" "pc_max_len p = cw_max_pending_write w" "?q \<noteq> []"
        "live (cw_upstream w) (rate * length ?q + b)"
        using less.prems CwFlushing False pc_pending_len_slice [of p]
        by (auto simp: cw_shape_def cw_live_def cw_queued_def pc_is_empty_def)
      have iu: "inv u" using poll_inv [OF i(1) y] .
      show ?thesis
      proof (cases y)
        case Pending
        then show ?thesis
          using E False CwFlushing y less.prems iu live_pending [OF i(1,5), of ?q u] i(4)
          by (auto simp: cw_live_def cw_meas_def cw_shape_def cw_queued_def)
      next
        case (Ready z)
        obtain n where n: "z = Inr n" "0 < n" "live u (rate * length ?q + b - rate * n)"
          "meas u \<le> meas (cw_upstream w)"
          using live_ready [OF i(1,5) _ i(4)] y Ready less.prems(3) by fastforce
        have nl: "n \<le> length ?q" using poll_ok [OF i(1)] y Ready n(1) by blast
        let ?w = "w\<lparr>cw_upstream := u, cw_state := CwFlushing (pc_advance p n)\<rparr>"
        have eq: "cw_poll_flush_pending poll ?w = (r, w')"
          using E False CwFlushing y Ready n by simp
        have l: "cw_live live rate ?w b"
          using n(3) nl pc_advance(1) [OF i(2)] by (simp add: cw_live_def cw_queued_def budget_split)
        have sh: "cw_shape inv ?w"
          using less.prems(1) CwFlushing iu i(3) pc_advance [OF i(2)] by (simp add: cw_shape_def)
        have "cw_pending_len (cw_state ?w) < cw_pending_len (cw_state w)"
          using pc_advance_less False n CwFlushing by simp
        from less.hyps [OF this sh l less.prems(3) eq] n(4) show ?thesis
          by (auto simp: cw_meas_def)
      qed
    qed
  qed
qed

lemma write_through_live:
  assumes sh: "cw_shape inv w" and idle: "cw_state w = CwIdle" and live: "live (cw_upstream w) b"
    and b: "rate * length buf < b" and ne: "buf \<noteq> []" and eq: "cw_write_through poll w buf = (r, w')"
  shows "\<exists>n. r = Ready (Inr n) \<and> 0 < n \<and> cw_live live rate w' (b - rate * n) \<and> cw_meas meas w' \<le> cw_meas meas w"
proof -
  define n where "n = min (length buf) (cw_max_pending_write w)"
  define s where "s = ctr_of (cw_encryptor w) (take n buf)"
  have n: "0 < n" "n \<le> length buf" "length s = n" "s \<noteq> []"
    using sh ne by (auto simp: n_def s_def cw_shape_def)
  have i: "inv (cw_upstream w)" using sh by (simp add: cw_shape_def)
  obtain y u where y: "poll (cw_upstream w) s = (y, u)" by fastforce
  note E = eq [unfolded cw_write_through_def n_def [symmetric] aes_ctr_apply_eq s_def [symmetric] Let_def]
  have rn: "rate * n \<le> rate * length buf" using n(2) by simp
  then have "rate * n < b" using b by (rule le_less_trans)
  then have rb: "rate * length s < b" "rate * n + (b - rate * n) = b" using n(3) by simp_all
  show ?thesis
  proof (cases y)
    case Pending
    then have "live u b" "meas u \<le> meas (cw_upstream w)"
      using live_pending [OF i live rb(1) n(4) y [unfolded Pending]] by auto
    then show ?thesis
      using E Pending y idle n rb(2)
      by (auto simp: cw_live_def cw_meas_def cw_queued_def pc_new_def pc_replace_with_def pc_pending_slice_def)
  next
    case (Ready z)
    obtain m where m: "z = Inr m" "0 < m" "live u (b - rate * m)" "meas u \<le> meas (cw_upstream w)"
      using live_ready [OF i live rb(1) n(4) y [unfolded Ready]] by blast
    have ml: "m \<le> n" using poll_ok [OF i y [unfolded Ready m(1)]] n(3) by simp
    have bs: "rate * (n - m) + (b - rate * n) = b - rate * m"
      using budget_split [of m n rate "b - rate * n"] ml rb(2) by simp
    show ?thesis
      using E y Ready m idle n bs
      by (auto simp: cw_live_def cw_meas_def cw_queued_def pc_new_def pc_replace_with_def pc_pending_slice_def
          split: if_splits)
  qed
qed

lemma buffer_live:
  assumes sh: "cw_shape inv w" and live: "cw_live live rate w b" and st: "cw_state w = CwFlushing p"
    and b: "rate * length buf < b" and ne: "buf \<noteq> []" and eq: "cw_buffer w buf = (r, w')"
  shows "cw_upstream w' = cw_upstream w \<and> (r = Pending \<longrightarrow> w' = w) \<and>
    (r \<noteq> Pending \<longrightarrow> (\<exists>n. r = Ready (Inr n) \<and> 0 < n \<and> cw_live live rate w' (b - rate * n)))"
proof -
  define n where "n = min (length buf) (pc_remaining_capacity p)"
  have wf: "pc_wf p" using sh st by (simp add: cw_shape_def)
  obtain p' where p': "pc_push_encrypted p (cw_encryptor w) (take n buf) =
      (Inr (), p', ctr_after (cw_encryptor w) (take n buf))"
    "pc_pending_slice p' = pc_pending_slice p @ ctr_of (cw_encryptor w) (take n buf)"
    using pc_push [OF wf, of "take n buf"] by (auto simp: n_def)
  have sel: "select_to_accept_for_buffering (cw_state w) (length buf) (cw_max_pending_write w) = n"
    using st ne by (simp add: n_def)
  have E: "cw_buffer w buf = (if n = 0 then (Pending, w)
     else (Ready (Inr n), w\<lparr>cw_encryptor := ctr_after (cw_encryptor w) (take n buf), cw_state := CwFlushing p'\<rparr>))"
    unfolding cw_buffer_def sel Let_def using st p'(1) by simp
  have "rate * n \<le> rate * length buf" by (simp add: n_def)
  then have "rate * n < b" using b by (rule le_less_trans)
  then have "rate * (length (pc_pending_slice p) + n) + (b - rate * n) = rate * length (pc_pending_slice p) + b"
    by (simp add: distrib_left)
  moreover have "length (take n buf) = n" by (simp add: n_def)
  ultimately show ?thesis
    using E eq live st p'(2) by (auto simp: cw_live_def cw_queued_def split: if_splits)
qed

lemma poll_write_live:
  assumes inv: "cw_inv inv broken plain base c w" and live: "cw_live live rate w b" and b: "0 < b"
    and eq: "cw_poll_write poll w buf = (r, w')" and ne: "buf \<noteq> []"
  shows "rate * length buf < b \<Longrightarrow>
    (r = Pending \<longrightarrow> cw_live live rate w' b \<and> cw_meas meas w' < cw_meas meas w) \<and>
    (r \<noteq> Pending \<longrightarrow> (\<exists>n. r = Ready (Inr n) \<and> 0 < n \<and> cw_live live rate w' (b - rate * n)) \<and>
       cw_meas meas w' \<le> cw_meas meas w)"
proof -
  assume rb: "rate * length buf < b"
  have sh: "cw_shape inv w" and np: "\<not> cw_is_poisoned (cw_state w)"
    using inv live by (auto simp: cw_inv_def cw_live_def)
  show ?thesis
  proof (cases "cw_has_pending (cw_state w)")
    case False
    then have st: "cw_state w = CwIdle" using np by (cases "cw_state w") auto
    then have "live (cw_upstream w) b" using live by (simp add: cw_live_def cw_queued_def)
    then show ?thesis
      using write_through_live [OF sh st _ rb ne, of r w'] eq ne st by (auto simp: cw_poll_write_def)
  next
    case True
    obtain y w1 where y: "cw_poll_flush_pending poll w = (y, w1)" by fastforce
    note F = flush_pending_live [OF sh live b y]
    show ?thesis
    proof (cases y)
      case Pending
      then obtain p where p: "cw_state w1 = CwFlushing p" using F by (cases "cw_state w1") auto
      have "cw_buffer w1 buf = (r, w')" using eq np ne True y Pending by (simp add: cw_poll_write_def)
      from buffer_live [OF _ _ p rb ne this] F Pending show ?thesis by (auto simp: cw_meas_def)
    next
      case (Ready z)
      then obtain x where x: "z = Inr x" using F by (cases z) auto
      have "cw_write_through poll w1 buf = (r, w')" using eq np ne True y Ready x by (simp add: cw_poll_write_def)
      then show ?thesis
        using write_through_live [of w1 b buf r w'] F Ready x rb ne by (auto simp: cw_live_def cw_queued_def)
    qed
  qed
qed

lemma poll_flush_live:
  assumes inv: "cw_inv inv broken plain base c w" and live: "cw_live live rate w b" and b: "0 < b"
    and eq: "cw_poll_flush poll flush w = (r, w')"
  shows "(r = Pending \<longrightarrow> cw_live live rate w' b \<and> cw_meas meas w' < cw_meas meas w) \<and>
    (r \<noteq> Pending \<longrightarrow> r = Ready (Inr ()))"
proof -
  have sh: "cw_shape inv w" and np: "\<not> cw_is_poisoned (cw_state w)"
    using inv live by (auto simp: cw_inv_def cw_live_def)
  obtain y w1 where y: "cw_poll_flush_pending poll w = (y, w1)" by fastforce
  note F = flush_pending_live [OF sh live b y]
  show ?thesis
  proof (cases y)
    case Pending
    then show ?thesis using eq np y F by (auto simp: cw_poll_flush_def)
  next
    case (Ready z)
    then obtain x where x: "z = Inr x" "cw_state w1 = CwIdle" using F by (cases z) auto
    obtain u where u: "flush (cw_upstream w1) = (r, u)" "w' = w1\<lparr>cw_upstream := u\<rparr>"
      using eq np y Ready x by (auto simp: cw_poll_flush_def split: prod.splits)
    have i: "inv (cw_upstream w1)" "live (cw_upstream w1) b"
      using F x by (auto simp: cw_shape_def cw_live_def cw_queued_def)
    show ?thesis
      using live_flush_pending [OF i b] live_flush_ready [OF i b] u F x
      by (cases r) (auto simp: cw_live_def cw_queued_def cw_meas_def)
  qed
qed

end

sublocale crypto_out_live \<subseteq> crypto_live: live_writer "cw_poll_write poll" "cw_poll_flush poll flush"
    "cw_plain plain base c" "\<lambda>w. cw_queued w @ queued (cw_upstream w)" "cw_broken broken"
    "cw_inv inv broken plain base c" "cw_live live rate" "cw_meas meas" rate for base c
proof (unfold_locales, goal_cases)
  case (1 s b xs s')
  then show ?case using poll_write_live [of base c s b xs Pending s'] by simp
next
  case (2 s b xs r s')
  then show ?case using poll_write_live [of base c s b xs "Ready r" s'] by auto
next
  case (3 s b s')
  then show ?case using poll_flush_live [of base c s b Pending s'] by simp
next
  case (4 s b f s')
  then show ?case using poll_flush_live [of base c s b "Ready f" s'] by simp
qed

interpretation crypto_raw_out: crypto_out_live sink_poll sink_control sk_written "\<lambda>k. []" "\<lambda>k. False" "\<lambda>k. True"
    sink_ready "\<lambda>k. length (sk_script k)" 1
  by unfold_locales

interpretation crypto_tls_out: crypto_out_live tls_poll_write tls_poll_flush "tls_accepted b" tls_queued
    tls_writer_broken "tls_writer_inv b" tls_writer_live tls_writer_meas 6 for b
  by unfold_locales

subsection \<open>Properties\<close>

lemma crypto_writer_new_inv:
  "P u \<Longrightarrow> cw_inv P broken plain (length (plain u)) c (crypto_writer_new u c m)"
  by (simp add: cw_inv_def cw_defs crypto_writer_new_def Let_def DEFAULT_MAX_PENDING_WRITE_def)

lemma crypto_writer_new_plain: "cw_plain plain (length (plain u)) c (crypto_writer_new u c m) = []"
  by (simp add: cw_plain_def cw_cipher_def cw_queued_def crypto_writer_new_def Let_def)

text \<open>A fresh stack to a client, over what its socket has taken before.\<close>

lemma stack_writer_new:
  "cw_inv (tls_writer_inv (length (sk_written k))) tls_writer_broken (tls_accepted (length (sk_written k))) 0 c (crypto_writer_new (tls_writer_new k) c m)"
  "\<not> cw_broken tls_writer_broken (crypto_writer_new (tls_writer_new k) c m)"
  "cw_queued (crypto_writer_new (tls_writer_new k) c m) @ tls_queued (cw_upstream (crypto_writer_new (tls_writer_new k) c m)) = []"
  "cw_plain (tls_accepted (length (sk_written k))) 0 c (crypto_writer_new (tls_writer_new k) c m) = []"
proof -
  let ?b = "length (sk_written k)"
  show "cw_inv (tls_writer_inv ?b) tls_writer_broken (tls_accepted ?b) 0 c (crypto_writer_new (tls_writer_new k) c m)"
    using crypto_writer_new_inv [of "tls_writer_inv ?b" "tls_writer_new k" tls_writer_broken "tls_accepted ?b" c m]
    by (simp add: tls_writer_new_inv tls_writer_new_accepted)
  show "cw_plain (tls_accepted ?b) 0 c (crypto_writer_new (tls_writer_new k) c m) = []"
    using crypto_writer_new_plain [of "tls_accepted ?b" "tls_writer_new k" c m] by (simp add: tls_writer_new_accepted)
qed (simp_all add: cw_broken_def cw_queued_def crypto_writer_new_def tls_writer_broken_def tls_writer_new_def tls_queued_def Let_def)

text \<open>A client that reads what has reached the socket gets the plaintext of the writer.\<close>

lemma stack_wire_content:
  assumes "cw_inv (tls_writer_inv b) tls_writer_broken (tls_accepted b) 0 c w" "\<not> cw_broken tls_writer_broken w"
    and "cw_queued w @ tls_queued (cw_upstream w) = []"
    and "source_wf u" "source_bytes u = drop b (sk_written (tw_upstream (cw_upstream w)))"
  shows "crypto_reader_wf tls_clean (crypto_reader_new (tls_reader_new u) c)"
    and "crypto_content tls_content (crypto_reader_new (tls_reader_new u) c) = cw_plain (tls_accepted b) 0 c w"
proof -
  have up: "tls_writer_inv b (cw_upstream w)" "\<not> tls_writer_broken (cw_upstream w)"
    using assms(1,2) by (auto simp: cw_inv_def cw_shape_def cw_broken_def)
  have wire: "source_bytes u = tls_wire b (cw_upstream w)" using assms(3,5) by (simp add: tls_wire_def)
  note R = tls_wire_read [OF up assms(4) wire]
  show "crypto_reader_wf tls_clean (crypto_reader_new (tls_reader_new u) c)"
    using R(1) by (simp add: crypto_reader_wf_def crypto_reader_new_def)
  show "crypto_content tls_content (crypto_reader_new (tls_reader_new u) c) = cw_plain (tls_accepted b) 0 c w"
    using R(2) assms(3) by (simp add: crypto_content_def crypto_reader_new_def cw_plain_def cw_cipher_def)
qed

text \<open>C18: The CTR writer never drifts. Over a FakeTLS upstream, after any \<open>poll_write\<close> of a sound
  writer, the ciphertext the upstream has accepted followed by the ciphertext still queued decrypts to
  the old plaintext followed by exactly the bytes the poll reported as accepted; the queue stays within
  the configured bound; and a poll that fails has poisoned the writer, so that nothing is ever sent
  after a gap.\<close>

theorem crypto_writer_no_drift:
  assumes "cw_inv (tls_writer_inv b) tls_writer_broken (tls_accepted b) base c w"
    "cw_poll_write tls_poll_write w buf = (r, w')"
  shows "cw_inv (tls_writer_inv b) tls_writer_broken (tls_accepted b) base c w' \<and>
    length (cw_queued w') \<le> cw_max_pending_write w' \<and>
    (case r of
       Pending \<Rightarrow> cw_plain (tls_accepted b) base c w' = cw_plain (tls_accepted b) base c w
     | Ready (Inr n) \<Rightarrow> n \<le> length buf \<and>
         cw_plain (tls_accepted b) base c w' = cw_plain (tls_accepted b) base c w @ take n buf
     | Ready (Inl e) \<Rightarrow> cw_broken tls_writer_broken w')"
  using crypto_tls_out.poll_write_spec [OF assms] cw_inv_bound [of "tls_writer_inv b" tls_writer_broken]
  by blast

theorem crypto_writer_no_drift_witness:
  "\<exists>r w'. cw_poll_write tls_poll_write
      (crypto_writer_new (tls_writer_new \<lparr>sk_script = [WrOk 3], sk_written = []\<rparr>)
         \<lparr>keystream = (\<lambda>i. 0x5a), ctr_pos = 0\<rparr> 0) [7, 8] = (r, w') \<and>
     length (cw_queued w') \<le> cw_max_pending_write w'"
proof -
  let ?k = "\<lparr>sk_script = [WrOk 3], sk_written = []\<rparr> :: sink"
  let ?c = "\<lparr>keystream = (\<lambda>i. 0x5a), ctr_pos = 0\<rparr>"
  let ?w = "crypto_writer_new (tls_writer_new ?k) ?c 0"
  obtain r w' where r: "cw_poll_write tls_poll_write ?w [7, 8] = (r, w')" by fastforce
  have "cw_inv (tls_writer_inv 0) tls_writer_broken (tls_accepted 0) 0 ?c ?w"
    using crypto_writer_new_inv [of "tls_writer_inv 0" "tls_writer_new ?k" tls_writer_broken "tls_accepted 0" ?c 0]
      tls_writer_new_inv [of ?k] tls_writer_new_accepted [of ?k] by simp
  from crypto_writer_no_drift [OF this r] r show ?thesis by blast
qed

end
