(* ===== verification/Rpc_Wire.thy ===== *)
theory Rpc_Wire
  imports Aes Constants
begin

section \<open>Proxy requests and key derivation (\<open>middle_proxy/wire.rs\<close>, \<open>crypto/hash.rs\<close>)\<close>

text \<open>
  The body of an \<open>RPC_PROXY_REQ\<close> in TL encoding, the protocol flags of a transport, and the key
  derivation of the middle-proxy handshake over the MD5 and SHA-1 parameters.
\<close>

subsection \<open>Addresses\<close>

datatype ip_material = MatV4 bytes | MatV6 bytes

text \<open>\<open>Ipv6Addr::to_ipv4_mapped\<close> of the standard library: the addresses \<open>::ffff:a.b.c.d\<close>.\<close>

definition to_ipv4_mapped :: "u128 \<Rightarrow> u32 option" where
  "to_ipv4_mapped a = (if drop_bit 32 a = 0xffff then Some (ucast a) else None)"

definition extract_ip_material :: "socket_addr \<Rightarrow> ip_material" where
  "extract_ip_material addr =
     (case sa_ip addr of
        IpV4 a \<Rightarrow> MatV4 (v4_octets a)
      | IpV6 a \<Rightarrow> (case to_ipv4_mapped a of
            Some b \<Rightarrow> MatV4 (v4_octets b)
          | None \<Rightarrow> MatV6 (v6_octets a)))"

definition ipv4_to_mapped_v6_c_compat :: "u32 \<Rightarrow> bytes" where
  "ipv4_to_mapped_v6_c_compat ip =
     (let buf = replicate 16 0;
          buf = put buf 8 (u32_to_le_bytes (- 0x10000))
      in put buf 12 (v4_octets ip))"

definition append_mapped_addr_and_port :: "bytes \<Rightarrow> socket_addr \<Rightarrow> bytes" where
  "append_mapped_addr_and_port buf addr =
     buf @ (case sa_ip addr of IpV4 a \<Rightarrow> ipv4_to_mapped_v6_c_compat a | IpV6 a \<Rightarrow> v6_octets a) @
     u32_to_le_bytes (ucast (sa_port addr))"

subsection \<open>\<open>RPC_PROXY_REQ\<close>\<close>

text \<open>The TL string of the advertising tag.\<close>

definition append_proxy_tag :: "bytes \<Rightarrow> bytes \<Rightarrow> bytes" where
  "append_proxy_tag b tag =
     (let b = b @ u32_to_le_bytes TL_PROXY_TAG_U32 in
      if length tag < 254 then
        b @ [word_of_nat (length tag)] @ tag @ replicate ((4 - (1 + length tag) mod 4) mod 4) 0
      else
        b @ [0xfe] @ take 3 (u32_to_le_bytes (word_of_nat (length tag))) @ tag @
        replicate ((4 - length tag mod 4) mod 4) 0)"

definition build_proxy_req_payload :: "u64 \<Rightarrow> socket_addr \<Rightarrow> socket_addr \<Rightarrow> bytes \<Rightarrow> bytes option \<Rightarrow> u32 \<Rightarrow> bytes" where
  "build_proxy_req_payload conn_id client_addr our_addr data proxy_tag proto_flags =
     (let b = u32_to_le_bytes RPC_PROXY_REQ_U32 @ u32_to_le_bytes proto_flags @ u64_to_le_bytes conn_id;
          b = append_mapped_addr_and_port b client_addr;
          b = append_mapped_addr_and_port b our_addr;
          b = (if proto_flags AND RPC_FLAG_HAS_AD_TAG \<noteq> 0 then
                 let extra_start = length b;
                     b = b @ u32_to_le_bytes 0;
                     b = (case proxy_tag of Some tag \<Rightarrow> append_proxy_tag b tag | None \<Rightarrow> b);
                     extra_bytes = word_of_nat (length b - extra_start - 4) :: u32
                 in put b extra_start (u32_to_le_bytes extra_bytes)
               else b)
      in b @ data)"

definition proto_flags_for_tag :: "proto_tag \<Rightarrow> bool \<Rightarrow> u32" where
  "proto_flags_for_tag tag has_proxy_tag =
     (let flags = RPC_FLAG_MAGIC OR RPC_FLAG_EXTMODE2;
          flags = (if has_proxy_tag then flags OR RPC_FLAG_HAS_AD_TAG else flags)
      in case tag of
           Abridged \<Rightarrow> flags OR RPC_FLAG_ABRIDGED
         | Intermediate \<Rightarrow> flags OR RPC_FLAG_INTERMEDIATE
         | Secure \<Rightarrow> flags OR RPC_FLAG_PAD OR RPC_FLAG_INTERMEDIATE)"

subsection \<open>Key derivation\<close>

definition build_middleproxy_prekey :: "bytes \<Rightarrow> bytes \<Rightarrow> bytes \<Rightarrow> bytes option \<Rightarrow> bytes \<Rightarrow> bytes \<Rightarrow>
    bytes option \<Rightarrow> bytes \<Rightarrow> bytes \<Rightarrow> bytes option \<Rightarrow> bytes option \<Rightarrow> bytes" where
  "build_middleproxy_prekey nonce_srv nonce_clt clt_ts srv_ip clt_port purpose clt_ip srv_port secret
     clt_ipv6 srv_ipv6 =
     (let srv_ip = (case srv_ip of Some x \<Rightarrow> x | None \<Rightarrow> [0, 0, 0, 0]);
          clt_ip = (case clt_ip of Some x \<Rightarrow> x | None \<Rightarrow> [0, 0, 0, 0]);
          s = nonce_srv @ nonce_clt @ clt_ts @ srv_ip @ clt_port @ purpose @ clt_ip @ srv_port @ secret @ nonce_srv;
          s = (case (clt_ipv6, srv_ipv6) of (Some clt_v6, Some srv_v6) \<Rightarrow> s @ clt_v6 @ srv_v6 | _ \<Rightarrow> s)
      in s @ nonce_clt)"

record hashes =
  h_md5 :: "bytes \<Rightarrow> bytes"
  h_sha1 :: "bytes \<Rightarrow> bytes"

text \<open>What the code relies on of the two hash crates: the length of their digests.\<close>

definition hashes_ok :: "hashes \<Rightarrow> bool" where
  "hashes_ok h \<longleftrightarrow> (\<forall>d. length (h_md5 h d) = 16) \<and> (\<forall>d. length (h_sha1 h d) = 20)"

definition derive_middleproxy_keys :: "hashes \<Rightarrow> bytes \<Rightarrow> bytes \<Rightarrow> bytes \<Rightarrow> bytes option \<Rightarrow> bytes \<Rightarrow> bytes \<Rightarrow>
    bytes option \<Rightarrow> bytes \<Rightarrow> bytes \<Rightarrow> bytes option \<Rightarrow> bytes option \<Rightarrow> bytes \<times> bytes" where
  "derive_middleproxy_keys h nonce_srv nonce_clt clt_ts srv_ip clt_port purpose clt_ip srv_port secret
     clt_ipv6 srv_ipv6 =
     (let s = build_middleproxy_prekey nonce_srv nonce_clt clt_ts srv_ip clt_port purpose clt_ip srv_port secret
            clt_ipv6 srv_ipv6;
          md5_1 = h_md5 h (drop 1 s);
          sha1_sum = h_sha1 h s;
          md5_2 = h_md5 h (drop 2 s);
          key = replicate 32 0;
          key = put key 0 (take 12 md5_1);
          key = put key 12 sha1_sum
      in (key, md5_2))"

subsection \<open>Lemmas\<close>

lemma mapped_layout:
  "ipv4_to_mapped_v6_c_compat ip = replicate 8 0 @ [0, 0, 0xff, 0xff] @ v4_octets ip"
proof -
  let ?m = "[0, 0, 0xff, 0xff] :: bytes"
  have r: "replicate 16 0 = replicate 8 0 @ replicate 8 (0 :: byte)" by (simp flip: replicate_add)
  have "(- 0x10000 :: u32) = 0xffff0000" by simp
  then have m: "u32_to_le_bytes (- 0x10000) = ?m"
    unfolding u32_to_le_bytes_def by (simp add: to_le_explicit)
  have a: "put (replicate 16 0) 8 ?m = replicate 8 0 @ ?m @ replicate 4 0"
    unfolding r by (subst put_append) (simp_all add: put_replicate)
  have b: "put (replicate 8 0 @ ?m @ replicate 4 0) 12 (v4_octets ip) = replicate 8 0 @ ?m @ v4_octets ip"
    using put_append [of "replicate 8 0 @ ?m" 12 "replicate 4 0" "v4_octets ip"] by (simp add: put_replicate)
  show ?thesis unfolding ipv4_to_mapped_v6_c_compat_def Let_def m a b ..
qed

lemma length_append_mapped [simp]: "length (append_mapped_addr_and_port b a) = length b + 20"
  by (simp add: append_mapped_addr_and_port_def mapped_layout split: ip_addr.splits)

lemma append_proxy_tag_prefix:
  "append_proxy_tag b tag = b @ append_proxy_tag [] tag"
  by (simp add: append_proxy_tag_def Let_def)

lemma pad4: "4 dvd x + (4 - x mod 4) mod 4" "(4 - x mod 4) mod 4 \<le> (3 :: nat)"
proof -
  have r: "x mod 4 = 0 \<or> x mod 4 = 1 \<or> x mod 4 = 2 \<or> x mod 4 = 3" by arith
  have "(x + (4 - x mod 4) mod 4) mod 4 = (x mod 4 + (4 - x mod 4) mod 4) mod 4" by (simp only: mod_add_left_eq)
  also have "\<dots> = 0" using r by (elim disjE) (simp_all only:, simp_all)
  finally show "4 dvd x + (4 - x mod 4) mod 4" by (simp only: mod_eq_0_iff_dvd)
  show "(4 - x mod 4) mod 4 \<le> 3" using r by (elim disjE) simp_all
qed

lemma append_proxy_tag_aligned: "4 dvd length (append_proxy_tag [] tag)"
proof (cases "length tag < 254")
  case True
  then have "length (append_proxy_tag [] tag) = 4 + ((1 + length tag) + (4 - (1 + length tag) mod 4) mod 4)"
    by (simp add: append_proxy_tag_def Let_def)
  then show ?thesis using pad4(1) [of "1 + length tag"] by (simp only: dvd_add dvd_refl)
next
  case False
  then have "length (append_proxy_tag [] tag) = 4 + (4 + (length tag + (4 - length tag mod 4) mod 4))"
    by (simp add: append_proxy_tag_def Let_def)
  then show ?thesis using pad4(1) [of "length tag"] by (simp only: dvd_add dvd_refl)
qed

text \<open>The bytes in front of the client's data.\<close>

definition proxy_req_fixed :: "u64 \<Rightarrow> socket_addr \<Rightarrow> socket_addr \<Rightarrow> u32 \<Rightarrow> bytes" where
  "proxy_req_fixed conn_id client_addr our_addr proto_flags =
     append_mapped_addr_and_port (append_mapped_addr_and_port
       (u32_to_le_bytes RPC_PROXY_REQ_U32 @ u32_to_le_bytes proto_flags @ u64_to_le_bytes conn_id) client_addr) our_addr"

definition proxy_req_extra :: "bytes option \<Rightarrow> bytes" where
  "proxy_req_extra tag = (case tag of None \<Rightarrow> [] | Some t \<Rightarrow> append_proxy_tag [] t)"

lemma proxy_req_layout:
  "build_proxy_req_payload cid ca oa data tag fl = proxy_req_fixed cid ca oa fl @
     (if fl AND RPC_FLAG_HAS_AD_TAG \<noteq> 0
      then u32_to_le_bytes (word_of_nat (length (proxy_req_extra tag))) @ proxy_req_extra tag else []) @ data"
proof (cases tag)
  case None
  then show ?thesis
    by (simp add: build_proxy_req_payload_def Let_def proxy_req_extra_def flip: proxy_req_fixed_def)
      (simp add: put_def)
next
  case (Some t)
  let ?e = "append_proxy_tag [] t"
  have "append_proxy_tag (proxy_req_fixed cid ca oa fl @ u32_to_le_bytes 0) t =
      proxy_req_fixed cid ca oa fl @ u32_to_le_bytes 0 @ ?e"
    by (subst append_proxy_tag_prefix) simp
  with Some show ?thesis
    by (simp add: build_proxy_req_payload_def Let_def proxy_req_extra_def flip: proxy_req_fixed_def)
      (simp add: put_def)
qed

lemma length_proxy_req_fixed [simp]: "length (proxy_req_fixed cid ca oa fl) = 56"
  by (simp add: proxy_req_fixed_def)

text \<open>An \<open>RPC_PROXY_REQ\<close> body is well laid out: it starts with the request word, the flags and the
  connection id; the client's data is its suffix; when the flags announce extra data, the word at
  offset 56 is exactly the number of bytes between it and the data, and that number is a multiple
  of four; so the payload is 4-byte aligned whenever the client's data is.\<close>

theorem proxy_req_payload_layout:
  assumes "\<forall>t. tag = Some t \<longrightarrow> length t < 2 ^ 24"
  shows "let p = build_proxy_req_payload cid ca oa data tag fl;
      extra = (if fl AND RPC_FLAG_HAS_AD_TAG \<noteq> 0 then 4 + from_le (subslice p 56 60) else 0)
    in subslice p 0 4 = u32_to_le_bytes RPC_PROXY_REQ_U32 \<and> subslice p 4 8 = u32_to_le_bytes fl \<and>
       subslice p 8 16 = u64_to_le_bytes cid \<and>
       drop (56 + extra) p = data \<and> length p = 56 + extra + length data \<and> 4 dvd extra \<and>
       (4 dvd length p \<longleftrightarrow> 4 dvd length data)"
proof -
  let ?e = "proxy_req_extra tag"
  have al: "4 dvd length ?e" by (simp add: proxy_req_extra_def append_proxy_tag_aligned split: option.split)
  have "length (append_proxy_tag [] t) \<le> length t + 11" for t
    using pad4(2) [of "Suc (length t)"] pad4(2) [of "length t"] by (simp add: append_proxy_tag_def Let_def)
  note le = this
  have "length ?e < 2 ^ 25"
  proof (cases tag)
    case (Some t)
    then show ?thesis using le [of t] assms by (simp add: proxy_req_extra_def)
  qed (simp add: proxy_req_extra_def)
  then have len: "from_le (u32_to_le_bytes (word_of_nat (length ?e))) = length ?e"
    by (simp add: u32_to_le_bytes_def from_le_to_le unat_of_nat)
  have start: "proxy_req_fixed cid ca oa fl = u32_to_le_bytes RPC_PROXY_REQ_U32 @ u32_to_le_bytes fl @
      u64_to_le_bytes cid @ drop 16 (proxy_req_fixed cid ca oa fl)"
    by (simp add: proxy_req_fixed_def append_mapped_addr_and_port_def)
  have head: "subslice (proxy_req_fixed cid ca oa fl @ r) 0 4 = u32_to_le_bytes RPC_PROXY_REQ_U32 \<and>
      subslice (proxy_req_fixed cid ca oa fl @ r) 4 8 = u32_to_le_bytes fl \<and>
      subslice (proxy_req_fixed cid ca oa fl @ r) 8 16 = u64_to_le_bytes cid" for r
    by (subst (1 2 3) start) (simp add: subslice_skip subslice_head)
  show ?thesis
  proof (cases "fl AND RPC_FLAG_HAS_AD_TAG = 0")
    case True
    then show ?thesis using head by (simp add: proxy_req_layout Let_def dvd_add_right_iff)
  next
    case False
    let ?p = "proxy_req_fixed cid ca oa fl @ u32_to_le_bytes (word_of_nat (length ?e)) @ ?e @ data"
    have x: "from_le (subslice ?p 56 60) = length ?e" using len by (simp add: subslice_skip subslice_head)
    show ?thesis
      using False head [of "u32_to_le_bytes (word_of_nat (length ?e)) @ ?e @ data"] x al
      by (simp add: proxy_req_layout Let_def dvd_add_right_iff)
  qed
qed

theorem proxy_req_payload_layout_witness:
  "drop (56 + (4 + from_le (subslice (build_proxy_req_payload 7 (SocketAddr (IpV4 1) 2) (SocketAddr (IpV6 3) 4)
      [1, 2, 3, 4] (Some [5, 6]) RPC_FLAG_HAS_AD_TAG) 56 60)))
     (build_proxy_req_payload 7 (SocketAddr (IpV4 1) 2) (SocketAddr (IpV6 3) 4) [1, 2, 3, 4] (Some [5, 6])
        RPC_FLAG_HAS_AD_TAG) = [1, 2, 3, 4]"
  using proxy_req_payload_layout [of "Some [5, 6]" 7 "SocketAddr (IpV4 1) 2" "SocketAddr (IpV6 3) 4" "[1, 2, 3, 4]"
      RPC_FLAG_HAS_AD_TAG]
  by (simp add: Let_def RPC_FLAG_HAS_AD_TAG_def)

text \<open>The derived middle-proxy key material fits AES-256-CBC (a 32-byte key and a 16-byte IV), the key
  is the first 12 bytes of the MD5 of the prekey without its first byte followed by the SHA-1 of the
  prekey, and the prekey lists nonces, timestamp, addresses, ports, purpose and secret in the
  documented order, the IPv6 addresses only when both are known.\<close>

theorem middleproxy_keys_shape:
  assumes "hashes_ok h"
  shows "let s = build_middleproxy_prekey ns nc ts sip cp pur cip sp sec c6 s6;
      ip = (\<lambda>x. case x of Some a \<Rightarrow> a | None \<Rightarrow> [0, 0, 0, 0])
    in s = ns @ nc @ ts @ ip sip @ cp @ pur @ ip cip @ sp @ sec @ ns @
         (if c6 \<noteq> None \<and> s6 \<noteq> None then the c6 @ the s6 else []) @ nc \<and>
       (case derive_middleproxy_keys h ns nc ts sip cp pur cip sp sec c6 s6 of (key, iv) \<Rightarrow>
          cbc_wf (aes_cbc_new key iv) \<and> key = take 12 (h_md5 h (drop 1 s)) @ h_sha1 h s \<and> iv = h_md5 h (drop 2 s))"
  using assms
  by (auto simp: build_middleproxy_prekey_def derive_middleproxy_keys_def hashes_ok_def Let_def cbc_wf_def
      aes_cbc_new_def put_append put_replicate split: option.splits)

theorem middleproxy_keys_shape_witness:
  "case derive_middleproxy_keys \<lparr>h_md5 = (\<lambda>d. replicate 16 1), h_sha1 = (\<lambda>d. replicate 20 2)\<rparr>
      (replicate 16 3) (replicate 16 4) (replicate 4 5) None [6, 7] [8] None [9, 9] [1] None None of (key, iv) \<Rightarrow>
     cbc_wf (aes_cbc_new key iv)"
  using middleproxy_keys_shape [of "\<lparr>h_md5 = (\<lambda>d. replicate 16 1), h_sha1 = (\<lambda>d. replicate 20 2)\<rparr>"
      "replicate 16 3" "replicate 16 4" "replicate 4 5" None "[6, 7]" "[8]" None "[9, 9]" "[1]" None None]
  by (simp add: hashes_ok_def Let_def case_prod_unfold cbc_wf_def aes_cbc_new_def)

end
