(* ===== verification/Rpc_Codec.thy ===== *)
theory Rpc_Codec
  imports Aes Async_Io Constants
begin

section \<open>The middle-proxy RPC codec (\<open>transport/middle_proxy/codec.rs\<close>)\<close>

text \<open>
  Frames carry a length, a sequence number, the payload and a checksum; after the handshake they are
  padded to whole AES blocks and chained through CBC across the whole connection. The checksum
  functions (crates \<open>crc32fast\<close> and \<open>crc32c\<close>) and the AES block function are parameters. A sequence
  number is an \<open>i32\<close> that wraps: a 32-bit word.
\<close>

subsection \<open>Frames\<close>

datatype writer_command = WcData bytes | WcDataAndFlush bytes | WcClose

datatype rpc_checksum_mode = Crc32 | Crc32c

record checksums =
  ck_crc32 :: "bytes \<Rightarrow> u32"
  ck_crc32c :: "bytes \<Rightarrow> u32"

definition from_handshake_flags :: "u32 \<Rightarrow> rpc_checksum_mode" where
  "from_handshake_flags flags = (if flags AND USE_CRC32C \<noteq> 0 then Crc32c else Crc32)"

fun advertised_flags :: "rpc_checksum_mode \<Rightarrow> u32" where
  "advertised_flags Crc32 = 0"
| "advertised_flags Crc32c = USE_CRC32C"

fun rpc_crc :: "checksums \<Rightarrow> rpc_checksum_mode \<Rightarrow> bytes \<Rightarrow> u32" where
  "rpc_crc ck Crc32 data = ck_crc32 ck data"
| "rpc_crc ck Crc32c data = ck_crc32c ck data"

definition build_rpc_frame :: "checksums \<Rightarrow> u32 \<Rightarrow> bytes \<Rightarrow> rpc_checksum_mode \<Rightarrow> bytes" where
  "build_rpc_frame ck seq_no payload crc_mode =
     (let total_len = word_of_nat (4 + 4 + length payload + 4) :: u32;
          frame = u32_to_le_bytes total_len @ u32_to_le_bytes seq_no @ payload;
          c = rpc_crc ck crc_mode frame
      in frame @ u32_to_le_bytes c)"

text \<open>An exact read of the handshake phase from the bytes the peer has sent.\<close>

definition read_exact_bytes :: "bytes \<Rightarrow> nat \<Rightarrow> (proxy_error + bytes) \<times> bytes" where
  "read_exact_bytes rd n =
     (if length rd < n then (Inl (ProxyIo (io_err UnexpectedEof ''early eof'' [])), [])
      else (Inr (take n rd), drop n rd))"

definition read_rpc_frame_plaintext :: "checksums \<Rightarrow> bytes \<Rightarrow> (proxy_error + u32 \<times> bytes) \<times> bytes" where
  "read_rpc_frame_plaintext ck rd =
     (case read_exact_bytes rd 4 of
        (Inl e, rd) \<Rightarrow> (Inl e, rd)
      | (Inr len_buf, rd) \<Rightarrow>
          let total_len = unat (u32_from_le_bytes len_buf) in
          if \<not> (12 \<le> total_len \<and> total_len \<le> 2 ^ 24) then
            (Inl (InvalidHandshake (Msg ''Bad RPC frame length: {}'' [total_len])), rd)
          else
            (case read_exact_bytes rd (total_len - 4) of
               (Inl e, rd) \<Rightarrow> (Inl e, rd)
             | (Inr rest, rd) \<Rightarrow>
                 let full = len_buf @ rest;
                     crc_offset = total_len - 4;
                     expected_crc = u32_from_le_bytes (subslice full crc_offset (crc_offset + 4));
                     actual_crc = rpc_crc ck Crc32 (take crc_offset full)
                 in if expected_crc \<noteq> actual_crc then
                      (Inl (InvalidHandshake (Msg ''CRC mismatch: 0x{:08x} vs 0x{:08x}''
                         [unat expected_crc, unat actual_crc])), rd)
                    else
                      (Inr (u32_from_le_bytes (subslice full 4 8), subslice full 8 crc_offset), rd)))"

subsection \<open>Nonce and handshake payloads\<close>

definition build_nonce_payload :: "u32 \<Rightarrow> u32 \<Rightarrow> bytes \<Rightarrow> bytes" where
  "build_nonce_payload key_selector crypto_ts nonce =
     (let p = replicate 32 0;
          p = put p 0 (u32_to_le_bytes RPC_NONCE_U32);
          p = put p 4 (u32_to_le_bytes key_selector);
          p = put p 8 (u32_to_le_bytes RPC_CRYPTO_AES_U32);
          p = put p 12 (u32_to_le_bytes crypto_ts)
      in put p 16 nonce)"

definition parse_nonce_payload :: "bytes \<Rightarrow> proxy_error + u32 \<times> u32 \<times> u32 \<times> bytes" where
  "parse_nonce_payload d =
     (if length d < 32 then
        Inl (InvalidHandshake (Msg ''Nonce payload too short: {} bytes'' [length d]))
      else
        let t = u32_from_le_bytes (subslice d 0 4) in
        if t \<noteq> RPC_NONCE_U32 then
          Inl (InvalidHandshake (Msg ''Expected RPC_NONCE 0x{:08x}, got 0x{:08x}'' [unat RPC_NONCE_U32, unat t]))
        else
          Inr (u32_from_le_bytes (subslice d 4 8), u32_from_le_bytes (subslice d 8 12),
               u32_from_le_bytes (subslice d 12 16), subslice d 16 32))"

text \<open>The process id and the wall clock are inputs.\<close>

definition process_pid16 :: "u32 \<Rightarrow> u16" where
  "process_pid16 pid = ucast (pid AND 0xffff)"

definition build_handshake_payload :: "u32 \<Rightarrow> u32 \<Rightarrow> bytes \<Rightarrow> u16 \<Rightarrow> bytes \<Rightarrow> u16 \<Rightarrow> u32 \<Rightarrow> bytes" where
  "build_handshake_payload pid utime our_ip our_port peer_ip peer_port flags =
     (let p = replicate 32 0;
          p = put p 0 (u32_to_le_bytes RPC_HANDSHAKE_U32);
          p = put p 4 (u32_to_le_bytes flags);
          p = put p 8 our_ip;
          p = put p 12 (u16_to_le_bytes our_port);
          p = put p 14 (u16_to_le_bytes (process_pid16 pid));
          p = put p 16 (u32_to_le_bytes utime);
          p = put p 20 peer_ip;
          p = put p 24 (u16_to_le_bytes peer_port);
          p = put p 26 (u16_to_le_bytes 0)
      in put p 28 (u32_to_le_bytes 0))"

definition parse_handshake_flags :: "bytes \<Rightarrow> proxy_error + u32" where
  "parse_handshake_flags payload =
     (if length payload \<noteq> 32 then
        Inl (InvalidHandshake (Msg ''Bad handshake payload len: {}'' [length payload]))
      else
        let hs_type = u32_from_le_bytes (subslice payload 0 4) in
        if hs_type \<noteq> RPC_HANDSHAKE_U32 then
          Inl (InvalidHandshake (Msg ''Expected HANDSHAKE 0x{:08x}, got 0x{:08x}'' [unat RPC_HANDSHAKE_U32, unat hs_type]))
        else Inr (u32_from_le_bytes (subslice payload 4 8)))"

subsection \<open>CBC padding and the RPC writer\<close>

definition pad_bytes :: "nat \<Rightarrow> bytes" where
  "pad_bytes pad = map (\<lambda>i. [0x04, 0x00, 0x00, 0x00] ! (i mod 4)) [0 ..< pad]"

definition cbc_encrypt_padded :: "block_cipher \<Rightarrow> bytes \<Rightarrow> bytes \<Rightarrow> bytes \<Rightarrow> proxy_error + bytes \<times> bytes" where
  "cbc_encrypt_padded E key iv plaintext =
     (let pad = (16 - length plaintext mod 16) mod 16;
          buf = plaintext @ pad_bytes pad
      in case aes_cbc_encrypt_in_place E (aes_cbc_new key iv) buf of
           Inl e \<Rightarrow> Inl (Crypto (Msg ''CBC encrypt: {}'' []))
         | Inr buf \<Rightarrow>
             Inr (buf, if length buf \<ge> 16 then drop (length buf - 16) buf else replicate 16 0))"

definition cbc_decrypt_inplace :: "block_cipher \<Rightarrow> bytes \<Rightarrow> bytes \<Rightarrow> bytes \<Rightarrow> proxy_error + bytes \<times> bytes" where
  "cbc_decrypt_inplace D key iv data =
     (let new_iv = (if length data \<ge> 16 then drop (length data - 16) data else replicate 16 0)
      in case aes_cbc_decrypt_in_place D (aes_cbc_new key iv) data of
           Inl e \<Rightarrow> Inl (Crypto (Msg ''CBC decrypt: {}'' []))
         | Inr data \<Rightarrow> Inr (data, new_iv))"

record rpc_writer =
  rw_writer :: sink
  rw_key :: bytes
  rw_iv :: bytes
  rw_seq_no :: u32
  rw_crc_mode :: rpc_checksum_mode

text \<open>The part of \<open>send\<close> before the write: the bytes to send and the advanced state.\<close>

definition rpc_seal :: "block_cipher \<Rightarrow> checksums \<Rightarrow> rpc_writer \<Rightarrow> bytes \<Rightarrow> (proxy_error + bytes) \<times> rpc_writer" where
  "rpc_seal E ck w payload =
     (let frame = build_rpc_frame ck (rw_seq_no w) payload (rw_crc_mode w);
          w = w\<lparr>rw_seq_no := rw_seq_no w + 1\<rparr>;
          pad = (16 - length frame mod 16) mod 16;
          buf = frame @ pad_bytes pad
      in case aes_cbc_encrypt_in_place E (aes_cbc_new (rw_key w) (rw_iv w)) buf of
           Inl e \<Rightarrow> (Inl (Crypto (Msg ''{}'' [])), w)
         | Inr buf \<Rightarrow>
             (Inr buf, if length buf \<ge> 16 then w\<lparr>rw_iv := drop (length buf - 16) buf\<rparr> else w))"

definition rpc_send :: "block_cipher \<Rightarrow> checksums \<Rightarrow> nat \<Rightarrow> rpc_writer \<Rightarrow> bytes \<Rightarrow>
    ((proxy_error + unit) \<times> rpc_writer) option" where
  "rpc_send E ck fuel w payload =
     (case rpc_seal E ck w payload of
        (Inl e, w) \<Rightarrow> Some (Inl e, w)
      | (Inr buf, w) \<Rightarrow>
          (case write_loop sink_poll fuel buf (rw_writer w) of
             None \<Rightarrow> None
           | Some (Inl e, k) \<Rightarrow> Some (Inl (ProxyIo e), w\<lparr>rw_writer := k\<rparr>)
           | Some (Inr _, k) \<Rightarrow> Some (Inr (), w\<lparr>rw_writer := k\<rparr>)))"

definition rpc_send_and_flush :: "block_cipher \<Rightarrow> checksums \<Rightarrow> nat \<Rightarrow> rpc_writer \<Rightarrow> bytes \<Rightarrow>
    ((proxy_error + unit) \<times> rpc_writer) option" where
  "rpc_send_and_flush E ck fuel w payload =
     (case rpc_send E ck fuel w payload of
        None \<Rightarrow> None
      | Some (Inl e, w) \<Rightarrow> Some (Inl e, w)
      | Some (Inr _, w) \<Rightarrow>
          (case flush_loop sink_control fuel (rw_writer w) of
             None \<Rightarrow> None
           | Some (Inl e, k) \<Rightarrow> Some (Inl (ProxyIo e), w\<lparr>rw_writer := k\<rparr>)
           | Some (Inr _, k) \<Rightarrow> Some (Inr (), w\<lparr>rw_writer := k\<rparr>)))"

subsection \<open>Frames and payloads round-trip\<close>

lemma length_build_rpc_frame [simp, len_simps]: "length (build_rpc_frame ck s p m) = 12 + length p"
  by (simp add: build_rpc_frame_def Let_def)

text \<open>What a frame looks like to the parsers: its length field, checksum, sequence number and payload.\<close>

lemma rpc_frame_fields:
  assumes "12 + length p \<le> 2 ^ 24"
  shows "unat (u32_from_le_bytes (take 4 (build_rpc_frame ck s p m))) = 12 + length p"
    "u32_from_le_bytes (subslice (build_rpc_frame ck s p m) (8 + length p) (12 + length p)) =
       rpc_crc ck m (take (8 + length p) (build_rpc_frame ck s p m))"
    "u32_from_le_bytes (subslice (build_rpc_frame ck s p m) 4 8) = s"
    "subslice (build_rpc_frame ck s p m) 8 (8 + length p) = p"
proof -
  let ?l = "word_of_nat (12 + length p) :: u32"
  let ?h = "u32_to_le_bytes ?l" and ?s = "u32_to_le_bytes s"
  let ?c = "u32_to_le_bytes (rpc_crc ck m (?h @ ?s @ p))"
  have f: "build_rpc_frame ck s p m = ?h @ ?s @ p @ ?c"
    by (simp add: build_rpc_frame_def Let_def add.commute)
  show "unat (u32_from_le_bytes (take 4 (build_rpc_frame ck s p m))) = 12 + length p"
    using assms unfolding f by (simp add: unat_of_nat del: of_nat_add)
  show "u32_from_le_bytes (subslice (build_rpc_frame ck s p m) 4 8) = s"
    unfolding f by (simp add: subslice_skip subslice_head)
  show "subslice (build_rpc_frame ck s p m) 8 (8 + length p) = p"
    unfolding f by (simp add: subslice_skip subslice_head)
  show "u32_from_le_bytes (subslice (build_rpc_frame ck s p m) (8 + length p) (12 + length p)) =
       rpc_crc ck m (take (8 + length p) (build_rpc_frame ck s p m))"
    unfolding f by (simp add: subslice_skip subslice_head)
qed

text \<open>The plaintext RPC frames of the handshake round-trip: reading a stream that starts with a
  built frame returns its sequence number and payload and consumes exactly the frame.\<close>

theorem rpc_frame_plaintext_roundtrip:
  assumes "12 + length payload \<le> 2 ^ 24"
  shows "read_rpc_frame_plaintext ck (build_rpc_frame ck seq_no payload Crc32 @ rest) =
    (Inr (seq_no, payload), rest)"
proof -
  let ?f = "build_rpc_frame ck seq_no payload Crc32"
  note F = rpc_frame_fields [OF assms, of ck seq_no Crc32]
  have t: "take 4 ?f @ take (8 + length payload) (drop 4 ?f @ rest) = ?f"
    by (simp add: append_take_drop_id)
  have d: "length (take 4 ?f) = 4" by simp
  show ?thesis
    using assms F t
    by (simp add: read_rpc_frame_plaintext_def read_exact_bytes_def Let_def)
qed

theorem rpc_frame_plaintext_roundtrip_witness:
  "read_rpc_frame_plaintext \<lparr>ck_crc32 = (\<lambda>b. word_of_nat (length b)), ck_crc32c = (\<lambda>b. 0)\<rparr>
     (build_rpc_frame \<lparr>ck_crc32 = (\<lambda>b. word_of_nat (length b)), ck_crc32c = (\<lambda>b. 0)\<rparr> 5 [1, 2, 3] Crc32 @ [9]) =
   (Inr (5, [1, 2, 3]), [9])"
  by (rule rpc_frame_plaintext_roundtrip) simp

lemma nonce_payload_layout:
  "length nonce = 16 \<Longrightarrow> build_nonce_payload ks ts nonce =
     u32_to_le_bytes RPC_NONCE_U32 @ u32_to_le_bytes ks @ u32_to_le_bytes RPC_CRYPTO_AES_U32 @
     u32_to_le_bytes ts @ nonce"
  by (simp add: build_nonce_payload_def Let_def put_append put_replicate)

lemma handshake_payload_layout:
  "length our_ip = 4 \<Longrightarrow> length peer_ip = 4 \<Longrightarrow>
   build_handshake_payload pid ut our_ip our_port peer_ip peer_port flags =
     u32_to_le_bytes RPC_HANDSHAKE_U32 @ u32_to_le_bytes flags @ our_ip @ u16_to_le_bytes our_port @
     u16_to_le_bytes (process_pid16 pid) @ u32_to_le_bytes ut @ peer_ip @ u16_to_le_bytes peer_port @
     u16_to_le_bytes 0 @ u32_to_le_bytes 0"
  by (simp add: build_handshake_payload_def Let_def put_append put_replicate)

text \<open>Both handshake payloads round-trip: parsing a built nonce payload returns the key selector,
  the AES schema, the timestamp and the nonce; parsing a built handshake payload returns its flags;
  and the checksum mode a peer derives from the flags a side advertises is that side's mode.\<close>

theorem rpc_handshake_roundtrip:
  assumes "length nonce = 16" "length our_ip = 4" "length peer_ip = 4"
  shows "parse_nonce_payload (build_nonce_payload key_selector ts nonce) =
      Inr (key_selector, RPC_CRYPTO_AES_U32, ts, nonce) \<and>
    parse_handshake_flags (build_handshake_payload pid ut our_ip our_port peer_ip peer_port flags) = Inr flags \<and>
    from_handshake_flags (advertised_flags mode) = mode"
proof (intro conjI)
  show "parse_nonce_payload (build_nonce_payload key_selector ts nonce) =
      Inr (key_selector, RPC_CRYPTO_AES_U32, ts, nonce)"
    using assms(1) by (simp add: nonce_payload_layout parse_nonce_payload_def Let_def subslice_skip subslice_head)
  show "parse_handshake_flags (build_handshake_payload pid ut our_ip our_port peer_ip peer_port flags) = Inr flags"
    using assms(2,3)
    by (simp add: handshake_payload_layout parse_handshake_flags_def Let_def subslice_skip subslice_head)
  show "from_handshake_flags (advertised_flags mode) = mode"
    by (cases mode) (simp_all add: from_handshake_flags_def USE_CRC32C_def)
qed

theorem rpc_handshake_roundtrip_witness:
  "parse_nonce_payload (build_nonce_payload 1 2 (replicate 16 3)) = Inr (1, RPC_CRYPTO_AES_U32, 2, replicate 16 3)"
  using rpc_handshake_roundtrip [of "replicate 16 3" "[1, 2, 3, 4]" "[5, 6, 7, 8]" 1 2] by simp

end
