(* ===== verification/Registry.thy ===== *)
theory Registry
  imports Rpc_Codec
begin

section \<open>The connection registry (\<open>transport/middle_proxy/registry.rs\<close>)\<close>

text \<open>
  The registry maps client connections to the channel their answers go to, and binds connections to
  the middle-proxy writers that carry them. Its tables are maps; the set of connections of a writer is
  a duplicate-free list in some iteration order of the hash set. Each operation takes the lock for its
  whole body, so it is one atomic function on the state. A sender of writer commands is opaque
  (\<open>'tx\<close>); an answer channel is its queue and whether the receiver is gone. What happens while
  \<open>route\<close> waits on a full channel is an input.
\<close>

subsection \<open>State\<close>

definition ROUTE_CHANNEL_CAPACITY :: nat where "ROUTE_CHANNEL_CAPACITY = 4096"
definition ROUTE_BACKPRESSURE_BASE_TIMEOUT_MS :: u64 where "ROUTE_BACKPRESSURE_BASE_TIMEOUT_MS = 25"
definition ROUTE_BACKPRESSURE_HIGH_TIMEOUT_MS :: u64 where "ROUTE_BACKPRESSURE_HIGH_TIMEOUT_MS = 120"
definition ROUTE_BACKPRESSURE_HIGH_WATERMARK_PCT :: byte where "ROUTE_BACKPRESSURE_HIGH_WATERMARK_PCT = 80"

datatype me_response = MeData u32 bytes | MeAck u32 | MeClose

datatype route_result = Routed | NoConn | ChannelClosed | QueueFullBase | QueueFullHigh

record conn_meta =
  target_dc :: "16 word"
  client_addr :: socket_addr
  our_addr :: socket_addr
  proto_flags :: u32

datatype bound_conn = BoundConn (bc_conn_id: u64) (bc_meta: conn_meta)

datatype 'tx conn_writer = ConnWriter (cw_writer_id: u64) (cw_tx: 'tx)

record me_channel =
  ch_queue :: "me_response list"
  ch_closed :: bool

record 'tx registry =
  rg_map :: "u64 \<rightharpoonup> me_channel"
  rg_writers :: "u64 \<rightharpoonup> 'tx"
  rg_writer_for_conn :: "u64 \<rightharpoonup> u64"
  rg_conns_for_writer :: "u64 \<rightharpoonup> u64 list"
  rg_meta :: "u64 \<rightharpoonup> conn_meta"
  rg_next_id :: u64
  rg_base_timeout_ms :: u64
  rg_high_timeout_ms :: u64
  rg_high_watermark_pct :: byte

definition registry_new :: "u64 \<Rightarrow> 'tx registry" where
  "registry_new random =
     \<lparr>rg_map = Map.empty, rg_writers = Map.empty, rg_writer_for_conn = Map.empty,
      rg_conns_for_writer = Map.empty, rg_meta = Map.empty, rg_next_id = random OR 1,
      rg_base_timeout_ms = ROUTE_BACKPRESSURE_BASE_TIMEOUT_MS,
      rg_high_timeout_ms = ROUTE_BACKPRESSURE_HIGH_TIMEOUT_MS,
      rg_high_watermark_pct = ROUTE_BACKPRESSURE_HIGH_WATERMARK_PCT\<rparr>"

subsection \<open>Operations\<close>

definition clamp_pct :: "byte \<Rightarrow> byte" where
  "clamp_pct p = (if p < 1 then 1 else if p > 100 then 100 else p)"

definition update_route_backpressure_policy :: "u64 \<Rightarrow> u64 \<Rightarrow> byte \<Rightarrow> 'tx registry \<Rightarrow> 'tx registry" where
  "update_route_backpressure_policy base_timeout_ms high_timeout_ms high_watermark_pct r =
     (let base = max base_timeout_ms 1; high = max high_timeout_ms base
      in r\<lparr>rg_base_timeout_ms := base, rg_high_timeout_ms := high,
           rg_high_watermark_pct := clamp_pct high_watermark_pct\<rparr>)"

definition reg_register :: "'tx registry \<Rightarrow> u64 \<times> 'tx registry" where
  "reg_register r =
     (let conn_id = rg_next_id r in
      (conn_id, r\<lparr>rg_next_id := conn_id + 1, rg_map := (rg_map r)(conn_id \<mapsto> \<lparr>ch_queue = [], ch_closed = False\<rparr>)\<rparr>))"

definition reg_unregister :: "u64 \<Rightarrow> 'tx registry \<Rightarrow> u64 option \<times> 'tx registry" where
  "reg_unregister conn_id r =
     (let r = r\<lparr>rg_map := (rg_map r)(conn_id := None), rg_meta := (rg_meta r)(conn_id := None)\<rparr> in
      case rg_writer_for_conn r conn_id of
        Some writer_id \<Rightarrow>
          (Some writer_id,
           r\<lparr>rg_writer_for_conn := (rg_writer_for_conn r)(conn_id := None),
             rg_conns_for_writer :=
               (case rg_conns_for_writer r writer_id of
                  Some s \<Rightarrow> (rg_conns_for_writer r)(writer_id \<mapsto> removeAll conn_id s)
                | None \<Rightarrow> rg_conns_for_writer r)\<rparr>)
      | None \<Rightarrow> (None, r))"

text \<open>\<open>try_send\<close> on an answer channel.\<close>

datatype try_send_result = TsOk me_channel | TsClosed | TsFull

definition ch_try_send :: "me_channel \<Rightarrow> me_response \<Rightarrow> try_send_result" where
  "ch_try_send c m =
     (if ch_closed c then TsClosed
      else if length (ch_queue c) \<ge> ROUTE_CHANNEL_CAPACITY then TsFull
      else TsOk (c\<lparr>ch_queue := ch_queue c @ [m]\<rparr>))"

text \<open>How a bounded wait on a full channel ends: the receiver takes messages in time, goes away, or
  the timeout passes.\<close>

datatype send_wait = WaitDrained nat | WaitClosed | WaitTimeout

definition used_pct :: "me_channel \<Rightarrow> byte" where
  "used_pct c =
     (let capacity = ROUTE_CHANNEL_CAPACITY - length (ch_queue c);
          used = ROUTE_CHANNEL_CAPACITY - capacity
      in if ROUTE_CHANNEL_CAPACITY = 0 then 100 else word_of_nat (used * 100 div ROUTE_CHANNEL_CAPACITY))"

definition high_profile :: "'tx registry \<Rightarrow> me_channel \<Rightarrow> bool" where
  "high_profile r c \<longleftrightarrow> used_pct c \<ge> clamp_pct (rg_high_watermark_pct r)"

definition route_timeout_ms :: "'tx registry \<Rightarrow> me_channel \<Rightarrow> u64" where
  "route_timeout_ms r c =
     (let base = max (rg_base_timeout_ms r) 1; high = max (rg_high_timeout_ms r) base
      in if high_profile r c then high else base)"

definition reg_route :: "u64 \<Rightarrow> me_response \<Rightarrow> (u64 \<Rightarrow> send_wait) \<Rightarrow> 'tx registry \<Rightarrow> route_result \<times> 'tx registry" where
  "reg_route conn_id resp wait r =
     (case rg_map r conn_id of
        None \<Rightarrow> (NoConn, r)
      | Some tx \<Rightarrow>
          (case ch_try_send tx resp of
             TsOk tx' \<Rightarrow> (Routed, r\<lparr>rg_map := (rg_map r)(conn_id \<mapsto> tx')\<rparr>)
           | TsClosed \<Rightarrow> (ChannelClosed, r)
           | TsFull \<Rightarrow>
               (case wait (route_timeout_ms r tx) of
                  WaitDrained n \<Rightarrow>
                    (Routed, r\<lparr>rg_map := (rg_map r)(conn_id \<mapsto> tx\<lparr>ch_queue := drop (Suc n) (ch_queue tx) @ [resp]\<rparr>)\<rparr>)
                | WaitClosed \<Rightarrow> (ChannelClosed, r\<lparr>rg_map := (rg_map r)(conn_id \<mapsto> tx\<lparr>ch_closed := True\<rparr>)\<rparr>)
                | WaitTimeout \<Rightarrow> (if high_profile r tx then QueueFullHigh else QueueFullBase, r))))"

definition reg_bind_writer :: "u64 \<Rightarrow> u64 \<Rightarrow> 'tx \<Rightarrow> conn_meta \<Rightarrow> 'tx registry \<Rightarrow> 'tx registry" where
  "reg_bind_writer conn_id writer_id tx meta r =
     r\<lparr>rg_meta := (case rg_meta r conn_id of Some _ \<Rightarrow> rg_meta r | None \<Rightarrow> (rg_meta r)(conn_id \<mapsto> meta)),
       rg_writer_for_conn := (rg_writer_for_conn r)(conn_id \<mapsto> writer_id),
       rg_writers := (case rg_writers r writer_id of Some _ \<Rightarrow> rg_writers r | None \<Rightarrow> (rg_writers r)(writer_id \<mapsto> tx)),
       rg_conns_for_writer := (rg_conns_for_writer r)
         (writer_id \<mapsto> List.insert conn_id (case rg_conns_for_writer r writer_id of Some s \<Rightarrow> s | None \<Rightarrow> []))\<rparr>"

definition reg_get_writer :: "u64 \<Rightarrow> 'tx registry \<Rightarrow> 'tx conn_writer option" where
  "reg_get_writer conn_id r =
     (case rg_writer_for_conn r conn_id of
        None \<Rightarrow> None
      | Some writer_id \<Rightarrow>
          (case rg_writers r writer_id of None \<Rightarrow> None | Some tx \<Rightarrow> Some (ConnWriter writer_id tx)))"

text \<open>The loop of \<open>writer_lost\<close> over the connections of the lost writer.\<close>

primrec lose_conns :: "u64 list \<Rightarrow> 'tx registry \<Rightarrow> bound_conn list \<times> 'tx registry" where
  "lose_conns [] r = ([], r)"
| "lose_conns (c # cs) r =
     (let r = r\<lparr>rg_writer_for_conn := (rg_writer_for_conn r)(c := None)\<rparr>;
          (out, r') = lose_conns cs r
      in (case rg_meta r c of Some m \<Rightarrow> (BoundConn c m # out, r') | None \<Rightarrow> (out, r')))"

definition reg_writer_lost :: "u64 \<Rightarrow> 'tx registry \<Rightarrow> bound_conn list \<times> 'tx registry" where
  "reg_writer_lost writer_id r =
     (let conns = (case rg_conns_for_writer r writer_id of Some s \<Rightarrow> s | None \<Rightarrow> []);
          r = r\<lparr>rg_writers := (rg_writers r)(writer_id := None),
                rg_conns_for_writer := (rg_conns_for_writer r)(writer_id := None)\<rparr>
      in lose_conns conns r)"

definition reg_get_meta :: "u64 \<Rightarrow> 'tx registry \<Rightarrow> conn_meta option" where
  "reg_get_meta conn_id r = rg_meta r conn_id"

definition reg_is_writer_empty :: "u64 \<Rightarrow> 'tx registry \<Rightarrow> bool" where
  "reg_is_writer_empty writer_id r =
     (case rg_conns_for_writer r writer_id of Some s \<Rightarrow> s = [] | None \<Rightarrow> True)"

subsection \<open>Histories\<close>

text \<open>The operations on a registry, with what the receivers do to their channels.\<close>

datatype 'tx reg_op =
    OpPolicy u64 u64 byte
  | OpRegister
  | OpUnregister u64
  | OpRoute u64 me_response "u64 \<Rightarrow> send_wait"
  | OpBind u64 u64 'tx conn_meta
  | OpLost u64
  | OpReceive u64 nat
  | OpReceiverGone u64

definition on_channel :: "u64 \<Rightarrow> (me_channel \<Rightarrow> me_channel) \<Rightarrow> 'tx registry \<Rightarrow> 'tx registry" where
  "on_channel c f r = (case rg_map r c of None \<Rightarrow> r | Some ch \<Rightarrow> r\<lparr>rg_map := (rg_map r)(c \<mapsto> f ch)\<rparr>)"

fun reg_exec :: "'tx reg_op \<Rightarrow> 'tx registry \<Rightarrow> 'tx registry" where
  "reg_exec (OpPolicy b h p) r = update_route_backpressure_policy b h p r"
| "reg_exec OpRegister r = snd (reg_register r)"
| "reg_exec (OpUnregister c) r = snd (reg_unregister c r)"
| "reg_exec (OpRoute c m wait) r = snd (reg_route c m wait r)"
| "reg_exec (OpBind c w tx m) r = reg_bind_writer c w tx m r"
| "reg_exec (OpLost w) r = snd (reg_writer_lost w r)"
| "reg_exec (OpReceive c n) r = on_channel c (\<lambda>ch. ch\<lparr>ch_queue := drop n (ch_queue ch)\<rparr>) r"
| "reg_exec (OpReceiverGone c) r = on_channel c (\<lambda>ch. ch\<lparr>ch_closed := True\<rparr>) r"

inductive reg_reachable :: "'tx registry \<Rightarrow> bool" where
  start: "reg_reachable (registry_new random)"
| step: "reg_reachable r \<Longrightarrow> reg_reachable (reg_exec op r)"

subsection \<open>Invariant\<close>

text \<open>Every binding points to a live writer that lists the connection, the lists have no duplicates,
  no channel holds more than its capacity, and the back-pressure policy is in range.\<close>

definition bindings_ok :: "'tx registry \<Rightarrow> bool" where
  "bindings_ok r \<longleftrightarrow>
     (\<forall>c w. rg_writer_for_conn r c = Some w \<longrightarrow>
        rg_writers r w \<noteq> None \<and> (\<exists>s. rg_conns_for_writer r w = Some s \<and> c \<in> set s)) \<and>
     (\<forall>w s. rg_conns_for_writer r w = Some s \<longrightarrow> distinct s)"

definition channels_ok :: "'tx registry \<Rightarrow> bool" where
  "channels_ok r \<longleftrightarrow> (\<forall>c ch. rg_map r c = Some ch \<longrightarrow> length (ch_queue ch) \<le> ROUTE_CHANNEL_CAPACITY)"

definition policy_ok :: "'tx registry \<Rightarrow> bool" where
  "policy_ok r \<longleftrightarrow> 1 \<le> rg_base_timeout_ms r \<and> rg_base_timeout_ms r \<le> rg_high_timeout_ms r \<and>
     1 \<le> rg_high_watermark_pct r \<and> rg_high_watermark_pct r \<le> 100"

definition reg_wf :: "'tx registry \<Rightarrow> bool" where
  "reg_wf r \<longleftrightarrow> bindings_ok r \<and> channels_ok r \<and> policy_ok r"

lemma bindings_okD:
  assumes "bindings_ok r" "rg_writer_for_conn r c = Some w"
  shows "\<exists>tx. rg_writers r w = Some tx" "\<exists>s. rg_conns_for_writer r w = Some s \<and> c \<in> set s"
  using assms unfolding bindings_ok_def by fast+

lemma bindings_distinct: "bindings_ok r \<Longrightarrow> rg_conns_for_writer r w = Some s \<Longrightarrow> distinct s"
  unfolding bindings_ok_def by blast

lemma bindings_okI:
  assumes "\<And>c w. rg_writer_for_conn r c = Some w \<Longrightarrow>
      rg_writers r w \<noteq> None \<and> (\<exists>s. rg_conns_for_writer r w = Some s \<and> c \<in> set s)"
    "\<And>w s. rg_conns_for_writer r w = Some s \<Longrightarrow> distinct s"
  shows "bindings_ok r"
  using assms by (simp add: bindings_ok_def)

lemma lose_conns_spec:
  "lose_conns cs r = (out, r') \<Longrightarrow>
   rg_writer_for_conn r' = (\<lambda>c. if c \<in> set cs then None else rg_writer_for_conn r c) \<and>
   rg_writers r' = rg_writers r \<and> rg_conns_for_writer r' = rg_conns_for_writer r \<and> rg_map r' = rg_map r \<and>
   rg_meta r' = rg_meta r \<and> rg_base_timeout_ms r' = rg_base_timeout_ms r \<and>
   rg_high_timeout_ms r' = rg_high_timeout_ms r \<and> rg_high_watermark_pct r' = rg_high_watermark_pct r \<and>
   out = map (\<lambda>c. BoundConn c (the (rg_meta r c))) (filter (\<lambda>c. rg_meta r c \<noteq> None) cs)"
proof (induction cs arbitrary: r out)
  case Nil
  then show ?case by simp
next
  case (Cons c cs)
  let ?r = "r\<lparr>rg_writer_for_conn := (rg_writer_for_conn r)(c := None)\<rparr>"
  obtain out0 where o: "lose_conns cs ?r = (out0, r')"
    "out = (case rg_meta r c of Some m \<Rightarrow> BoundConn c m # out0 | None \<Rightarrow> out0)"
    using Cons.prems by (auto simp: Let_def split: prod.splits option.splits)
  from Cons.IH [OF o(1)] o(2) show ?case by (auto split: option.splits)
qed

lemma writer_lost_spec:
  assumes "reg_writer_lost w r = (out, r')"
  defines "cs \<equiv> case rg_conns_for_writer r w of Some s \<Rightarrow> s | None \<Rightarrow> []"
  shows "rg_writer_for_conn r' = (\<lambda>c. if c \<in> set cs then None else rg_writer_for_conn r c)"
    "rg_writers r' = (rg_writers r)(w := None)" "rg_conns_for_writer r' = (rg_conns_for_writer r)(w := None)"
    "rg_map r' = rg_map r" "rg_meta r' = rg_meta r" "policy_ok r' = policy_ok r"
    "out = map (\<lambda>c. BoundConn c (the (rg_meta r c))) (filter (\<lambda>c. rg_meta r c \<noteq> None) cs)"
  using assms by (auto simp: reg_writer_lost_def Let_def policy_ok_def dest!: lose_conns_spec split: option.splits)

lemma reg_wf_new: "reg_wf (registry_new n)"
  by (simp add: reg_wf_def bindings_ok_def channels_ok_def policy_ok_def registry_new_def
      ROUTE_BACKPRESSURE_BASE_TIMEOUT_MS_def ROUTE_BACKPRESSURE_HIGH_TIMEOUT_MS_def
      ROUTE_BACKPRESSURE_HIGH_WATERMARK_PCT_def)

lemma clamp_pct_range: "1 \<le> clamp_pct p \<and> clamp_pct p \<le> 100"
  by (simp add: clamp_pct_def word_le_nat_alt word_less_nat_alt)

lemma reg_wf_policy: "reg_wf r \<Longrightarrow> reg_wf (update_route_backpressure_policy b h p r)"
  using clamp_pct_range [of p]
  by (simp add: reg_wf_def bindings_ok_def channels_ok_def policy_ok_def update_route_backpressure_policy_def Let_def)

lemma reg_wf_register: "reg_wf r \<Longrightarrow> reg_wf (snd (reg_register r))"
  by (simp add: reg_wf_def bindings_ok_def channels_ok_def policy_ok_def reg_register_def Let_def)

lemma unregister_tables:
  "rg_writer_for_conn (snd (reg_unregister c r)) = (rg_writer_for_conn r)(c := None)"
  "rg_map (snd (reg_unregister c r)) = (rg_map r)(c := None)"
  "rg_meta (snd (reg_unregister c r)) = (rg_meta r)(c := None)"
  "rg_writers (snd (reg_unregister c r)) = rg_writers r"
  "policy_ok (snd (reg_unregister c r)) = policy_ok r"
  "fst (reg_unregister c r) = rg_writer_for_conn r c"
  "rg_conns_for_writer (snd (reg_unregister c r)) w =
     (if rg_writer_for_conn r c = Some w then map_option (removeAll c) (rg_conns_for_writer r w)
      else rg_conns_for_writer r w)"
  by (auto simp: reg_unregister_def Let_def policy_ok_def fun_eq_iff split: option.splits)

lemma reg_wf_unregister:
  assumes "reg_wf r"
  shows "reg_wf (snd (reg_unregister c r))"
proof -
  have b: "bindings_ok r" using assms by (simp add: reg_wf_def)
  have "bindings_ok (snd (reg_unregister c r))"
  proof (rule bindings_okI, unfold unregister_tables)
    fix d w
    assume "((rg_writer_for_conn r)(c := None)) d = Some w"
    then have d: "d \<noteq> c" "rg_writer_for_conn r d = Some w" by (auto split: if_splits)
    then show "rg_writers r w \<noteq> None \<and> (\<exists>s. (if rg_writer_for_conn r c = Some w
        then map_option (removeAll c) (rg_conns_for_writer r w) else rg_conns_for_writer r w) = Some s \<and> d \<in> set s)"
      using bindings_okD [OF b d(2)] by auto
  next
    fix w s
    assume "(if rg_writer_for_conn r c = Some w
        then map_option (removeAll c) (rg_conns_for_writer r w) else rg_conns_for_writer r w) = Some s"
    then show "distinct s" using bindings_distinct [OF b, of w] by (auto simp: distinct_removeAll split: if_splits)
  qed
  then show ?thesis using assms by (simp add: reg_wf_def channels_ok_def unregister_tables)
qed

lemma reg_route_tables:
  "rg_writer_for_conn (snd (reg_route c m wait r)) = rg_writer_for_conn r"
  "rg_writers (snd (reg_route c m wait r)) = rg_writers r"
  "rg_conns_for_writer (snd (reg_route c m wait r)) = rg_conns_for_writer r"
  "rg_meta (snd (reg_route c m wait r)) = rg_meta r"
  "policy_ok (snd (reg_route c m wait r)) = policy_ok r"
  "d \<noteq> c \<Longrightarrow> rg_map (snd (reg_route c m wait r)) d = rg_map r d"
  by (auto simp: reg_route_def policy_ok_def split: option.splits try_send_result.splits send_wait.splits)

lemma reg_route_channel:
  assumes "channels_ok r" "rg_map (snd (reg_route c m wait r)) c = Some ch"
  shows "length (ch_queue ch) \<le> ROUTE_CHANNEL_CAPACITY"
proof -
  obtain ch0 where c0: "rg_map r c = Some ch0"
    using assms(2) by (cases "rg_map r c") (auto simp: reg_route_def)
  have l: "length (ch_queue ch0) \<le> ROUTE_CHANNEL_CAPACITY" "0 < ROUTE_CHANNEL_CAPACITY"
    using assms(1) c0 by (auto simp: channels_ok_def ROUTE_CHANNEL_CAPACITY_def)
  show ?thesis
    using assms(2) c0 l
    by (auto simp: reg_route_def ch_try_send_def split: if_splits send_wait.splits)
qed

lemma reg_wf_route: "reg_wf r \<Longrightarrow> reg_wf (snd (reg_route c m wait r))"
  unfolding reg_wf_def
proof (intro conjI)
  assume wf: "bindings_ok r \<and> channels_ok r \<and> policy_ok r"
  show "bindings_ok (snd (reg_route c m wait r))" using wf by (simp add: bindings_ok_def reg_route_tables)
  show "policy_ok (snd (reg_route c m wait r))" using wf by (simp add: reg_route_tables)
  have "length (ch_queue ch) \<le> ROUTE_CHANNEL_CAPACITY"
    if "rg_map (snd (reg_route c m wait r)) d = Some ch" for d ch
    using that reg_route_channel [of r c m wait ch] wf reg_route_tables(6) [of d c m wait r]
    by (cases "d = c") (auto simp: channels_ok_def)
  then show "channels_ok (snd (reg_route c m wait r))" by (simp add: channels_ok_def)
qed

lemma bind_tables:
  "rg_writer_for_conn (reg_bind_writer c w tx m r) = (rg_writer_for_conn r)(c \<mapsto> w)"
  "rg_writers (reg_bind_writer c w tx m r) v = (if v = w \<and> rg_writers r w = None then Some tx else rg_writers r v)"
  "rg_conns_for_writer (reg_bind_writer c w tx m r) = (rg_conns_for_writer r)
     (w \<mapsto> List.insert c (case rg_conns_for_writer r w of Some s \<Rightarrow> s | None \<Rightarrow> []))"
  "rg_map (reg_bind_writer c w tx m r) = rg_map r" "policy_ok (reg_bind_writer c w tx m r) = policy_ok r"
  by (auto simp: reg_bind_writer_def policy_ok_def split: option.splits)

lemma reg_wf_bind:
  assumes "reg_wf r"
  shows "reg_wf (reg_bind_writer c w tx m r)"
proof -
  have b: "bindings_ok r" using assms by (simp add: reg_wf_def)
  have "bindings_ok (reg_bind_writer c w tx m r)"
  proof (rule bindings_okI, unfold bind_tables)
    fix d v
    assume "((rg_writer_for_conn r)(c \<mapsto> w)) d = Some v"
    then consider "d = c" "v = w" | "d \<noteq> c" "rg_writer_for_conn r d = Some v" by (auto split: if_splits)
    then show "(if v = w \<and> rg_writers r w = None then Some tx else rg_writers r v) \<noteq> None \<and>
        (\<exists>s. ((rg_conns_for_writer r)(w \<mapsto> List.insert c (case rg_conns_for_writer r w of Some s \<Rightarrow> s | None \<Rightarrow> []))) v =
          Some s \<and> d \<in> set s)"
    proof cases
      case 1
      then show ?thesis by simp
    next
      case 2
      then show ?thesis using bindings_okD [OF b 2(2)] by auto
    qed
  next
    fix v s
    assume "((rg_conns_for_writer r)(w \<mapsto> List.insert c (case rg_conns_for_writer r w of Some s \<Rightarrow> s | None \<Rightarrow> []))) v = Some s"
    then show "distinct s" using bindings_distinct [OF b] by (auto split: if_splits option.splits)
  qed
  then show ?thesis using assms by (simp add: reg_wf_def channels_ok_def bind_tables)
qed

lemma reg_wf_lost:
  assumes "reg_wf r"
  shows "reg_wf (snd (reg_writer_lost w r))"
proof -
  obtain out r' where e: "reg_writer_lost w r = (out, r')" by fastforce
  note W = writer_lost_spec [OF e]
  have b: "bindings_ok r" using assms by (simp add: reg_wf_def)
  have "bindings_ok r'"
  proof (rule bindings_okI)
    fix c v
    assume c: "rg_writer_for_conn r' c = Some v"
    then have v: "rg_writer_for_conn r c = Some v" by (simp add: W split: if_splits)
    obtain tx t where t: "rg_writers r v = Some tx" "rg_conns_for_writer r v = Some t" "c \<in> set t"
      using bindings_okD [OF b v] by blast
    then have "v \<noteq> w" using c by (auto simp: W split: if_splits)
    then show "rg_writers r' v \<noteq> None \<and> (\<exists>s. rg_conns_for_writer r' v = Some s \<and> c \<in> set s)"
      using t by (simp add: W)
  next
    fix v s
    assume "rg_conns_for_writer r' v = Some s"
    then show "distinct s" using bindings_distinct [OF b] by (auto simp: W split: if_splits)
  qed
  then show ?thesis using assms e W by (simp add: reg_wf_def channels_ok_def)
qed

lemma reg_wf_on_channel:
  assumes "reg_wf r" "\<And>ch. length (ch_queue (f ch)) \<le> length (ch_queue ch)"
  shows "reg_wf (on_channel c f r)"
  using assms(1) order.trans [OF assms(2)]
  by (auto simp: reg_wf_def bindings_ok_def channels_ok_def policy_ok_def on_channel_def split: option.splits)

lemma reg_wf_exec: "reg_wf r \<Longrightarrow> reg_wf (reg_exec op r)"
  by (cases op) (simp_all add: reg_wf_policy reg_wf_register reg_wf_unregister reg_wf_route reg_wf_bind reg_wf_lost reg_wf_on_channel)

text \<open>C14: Every registry state reachable by any sequence of operations and receiver actions satisfies the
  invariant: a bound connection always has a live writer that lists it, a writer's connections are
  listed once, answer queues never exceed their capacity, and the policy values stay in range.\<close>

theorem registry_invariant:
  assumes "reg_reachable r"
  shows "reg_wf r"
  using assms
proof (induction rule: reg_reachable.induct)
  case (start n)
  then show ?case by (rule reg_wf_new)
next
  case (step r op)
  then show ?case by (intro reg_wf_exec)
qed

theorem registry_invariant_witness:
  "reg_wf (reg_exec (OpLost 5) (reg_exec (OpBind 3 5 () undefined) (registry_new 2 :: unit registry)))"
  by (intro registry_invariant reg_reachable.intros)

text \<open>Losing a writer: afterwards no connection is bound to it and it has no sender; every connection
  that was bound to it and has metadata is reported exactly once, with that metadata, so that its client
  can be closed; and connections it did not list keep their writer.\<close>

theorem writer_lost_reports_bound:
  assumes "reg_wf r" "reg_writer_lost w r = (out, r')"
  shows "reg_wf r' \<and> (\<forall>c. rg_writer_for_conn r' c \<noteq> Some w) \<and> rg_writers r' w = None \<and>
    distinct (map bc_conn_id out) \<and>
    (\<forall>c m. rg_writer_for_conn r c = Some w \<and> rg_meta r c = Some m \<longrightarrow> BoundConn c m \<in> set out) \<and>
    (\<forall>b\<in>set out. rg_meta r (bc_conn_id b) = Some (bc_meta b)) \<and>
    (\<forall>c. c \<notin> set (case rg_conns_for_writer r w of Some s \<Rightarrow> s | None \<Rightarrow> []) \<longrightarrow>
       rg_writer_for_conn r' c = rg_writer_for_conn r c)"
proof -
  note W = writer_lost_spec [OF assms(2)]
  have b: "bindings_ok r" using assms(1) by (simp add: reg_wf_def)
  have mem: "c \<in> set (case rg_conns_for_writer r w of Some s \<Rightarrow> s | None \<Rightarrow> [])"
    if "rg_writer_for_conn r c = Some w" for c
    using bindings_okD [OF b that] by auto
  have d: "distinct (case rg_conns_for_writer r w of Some s \<Rightarrow> s | None \<Rightarrow> [])"
    using bindings_distinct [OF b] by (auto split: option.splits)
  have "reg_wf r'" using reg_wf_lost [OF assms(1), of w] assms(2) by simp
  moreover have "map bc_conn_id out = filter (\<lambda>c. rg_meta r c \<noteq> None) (case rg_conns_for_writer r w of Some s \<Rightarrow> s | None \<Rightarrow> [])"
    by (simp add: W comp_def)
  moreover have "BoundConn c m \<in> set out" if "rg_writer_for_conn r c = Some w" "rg_meta r c = Some m" for c m
    using mem [OF that(1)] that(2) unfolding W(7) set_map set_filter by (intro image_eqI [of _ _ c]) auto
  ultimately show ?thesis using mem d by (auto simp: W)
qed

theorem writer_lost_reports_bound_witness:
  "\<exists>m out r'. reg_writer_lost 5 (reg_exec (OpBind 3 5 () m) (registry_new 2 :: unit registry)) = (out, r') \<and>
     BoundConn 3 m \<in> set out \<and> rg_writer_for_conn r' 3 = None"
proof -
  fix m :: conn_meta
  let ?r = "reg_exec (OpBind 3 5 () m) (registry_new 2 :: unit registry)"
  have wf: "reg_wf ?r" by (simp add: reg_wf_bind reg_wf_new)
  obtain out r' where e: "reg_writer_lost 5 ?r = (out, r')" by fastforce
  have "rg_writer_for_conn ?r 3 = Some 5" "rg_meta ?r 3 = Some m"
    by (simp_all add: reg_bind_writer_def registry_new_def)
  then have "BoundConn 3 m \<in> set out"
    using writer_lost_reports_bound [OF wf e] by blast
  moreover have "rg_writer_for_conn r' 3 = None"
    by (simp add: writer_lost_spec [OF e] reg_bind_writer_def registry_new_def)
  ultimately show ?thesis using e by blast
qed



text \<open>The high-watermark switch of the back-pressure policy has no effect: \<open>route\<close> measures the use of
  a channel only after finding it full, so for a registry whose channels respect their capacity the
  used percentage is always 100, the high timeout always applies and \<open>QueueFullBase\<close> is never
  returned, whatever watermark is configured.\<close>

theorem route_always_high_profile:
  assumes "reg_wf r" "rg_map r c = Some ch" "ch_try_send ch m = TsFull"
  shows "used_pct ch = 100 \<and> high_profile r ch \<and>
    route_timeout_ms r ch = max (rg_high_timeout_ms r) (max (rg_base_timeout_ms r) 1) \<and>
    fst (reg_route c m wait r) \<noteq> QueueFullBase"
proof -
  have "length (ch_queue ch) = ROUTE_CHANNEL_CAPACITY"
    using assms by (auto simp: reg_wf_def channels_ok_def ch_try_send_def split: if_splits intro: antisym)
  then have u: "used_pct ch = 100" by (simp add: used_pct_def ROUTE_CHANNEL_CAPACITY_def)
  then have h: "high_profile r ch" using clamp_pct_range by (simp add: high_profile_def)
  show ?thesis
    using u h assms(2,3) by (simp add: route_timeout_ms_def Let_def reg_route_def split: send_wait.splits)
qed

theorem route_always_high_profile_witness:
  "used_pct \<lparr>ch_queue = replicate 4096 MeClose, ch_closed = False\<rparr> = 100"
proof -
  let ?ch = "\<lparr>ch_queue = replicate 4096 MeClose, ch_closed = False\<rparr>"
  let ?r = "registry_new 2\<lparr>rg_map := [7 \<mapsto> ?ch]\<rparr> :: unit registry"
  have "reg_wf ?r"
    by (simp add: reg_wf_def bindings_ok_def channels_ok_def policy_ok_def ROUTE_CHANNEL_CAPACITY_def registry_new_def
        ROUTE_BACKPRESSURE_BASE_TIMEOUT_MS_def ROUTE_BACKPRESSURE_HIGH_TIMEOUT_MS_def
        ROUTE_BACKPRESSURE_HIGH_WATERMARK_PCT_def)
  moreover have "ch_try_send ?ch MeClose = TsFull" by (simp add: ch_try_send_def ROUTE_CHANNEL_CAPACITY_def)
  ultimately show ?thesis using route_always_high_profile [of ?r 7 ?ch MeClose] by simp
qed

text \<open>Rebinding leaves a stale entry: when a connection is bound to a second writer, the first writer
  still lists it, so the later loss of the first writer removes the binding to the second one, which is
  still alive, and reports the connection as lost.\<close>

theorem rebind_then_old_writer_lost:
  assumes "w1 \<noteq> w2"
  shows "let r1 = reg_bind_writer c w2 tx2 m2 (reg_bind_writer c w1 tx1 m1 r);
      (out, r2) = reg_writer_lost w1 r1
    in rg_writer_for_conn r1 c = Some w2 \<and> rg_writers r1 w2 \<noteq> None \<and>
       reg_get_writer c r2 = None \<and> rg_writers r2 w2 \<noteq> None \<and> c \<in> set (map bc_conn_id out)"
proof -
  let ?r1 = "reg_bind_writer c w2 tx2 m2 (reg_bind_writer c w1 tx1 m1 r)"
  obtain out r2 where e: "reg_writer_lost w1 ?r1 = (out, r2)" by fastforce
  note W = writer_lost_spec [OF e]
  let ?cs = "case rg_conns_for_writer ?r1 w1 of Some s \<Rightarrow> s | None \<Rightarrow> []"
  have c: "c \<in> set ?cs" using assms by (simp add: bind_tables)
  have "rg_meta ?r1 c \<noteq> None" by (auto simp: reg_bind_writer_def split: option.splits)
  then have "c \<in> set (map bc_conn_id out)" unfolding W(7) using c by (simp add: comp_def)
  moreover have "rg_writer_for_conn r2 c = None" unfolding W(1) using c by simp
  moreover have "rg_writers ?r1 w2 \<noteq> None" "rg_writers r2 w2 \<noteq> None"
    unfolding W(2) using assms by (simp_all add: bind_tables)
  ultimately show ?thesis
    unfolding Let_def e by (simp add: bind_tables(1) reg_get_writer_def)
qed

theorem rebind_then_old_writer_lost_witness:
  "\<exists>out r2. reg_writer_lost 1 (reg_bind_writer 9 2 ()
      \<lparr>target_dc = 2, client_addr = SocketAddr (IpV4 1) 1, our_addr = SocketAddr (IpV4 2) 2, proto_flags = 0\<rparr>
      (reg_bind_writer 9 1 ()
         \<lparr>target_dc = 2, client_addr = SocketAddr (IpV4 1) 1, our_addr = SocketAddr (IpV4 2) 2, proto_flags = 0\<rparr>
         (registry_new 2))) = (out, r2) \<and> reg_get_writer 9 r2 = None"
  using rebind_then_old_writer_lost [of 1 2 9 "()"
      "\<lparr>target_dc = 2, client_addr = SocketAddr (IpV4 1) 1, our_addr = SocketAddr (IpV4 2) 2, proto_flags = 0\<rparr>" "()"
      "\<lparr>target_dc = 2, client_addr = SocketAddr (IpV4 1) 1, our_addr = SocketAddr (IpV4 2) 2, proto_flags = 0\<rparr>"
      "registry_new 2"]
  by (simp add: Let_def split: prod.splits)

end
