(* ===== verification/Rpc_Reader.thy ===== *)
theory Rpc_Reader
  imports Registry
begin

section \<open>The middle-proxy reader (\<open>transport/middle_proxy/reader.rs\<close>)\<close>

text \<open>
  The reader task of a middle-proxy connection: it decrypts whole AES blocks as they arrive, cuts the
  plaintext into RPC frames, checks checksum and sequence number, and dispatches the payloads to the
  connection registry, the writer channel and the ping tracker. One iteration of its outer loop is
  \<open>reader_step\<close>; the inner loop is \<open>rpc_drain\<close>. The floating-point averaging of round-trip times is
  left out: the samples it is fed with are recorded instead.
\<close>

subsection \<open>State\<close>

record me_counters =
  reader_eof_total :: nat
  crc_mismatch :: nat
  seq_mismatch :: nat
  route_drop_no_conn :: nat
  route_drop_channel_closed :: nat
  route_drop_queue_full :: nat
  route_drop_queue_full_base :: nat
  route_drop_queue_full_high :: nat
  keepalive_pong :: nat

text \<open>What the reader shares with other tasks: the registry, the channel to the writer task (its
  queue and whether the task is gone), counters, pending pings (when each was sent, and by which
  writer), the clock, and how the waits of \<open>route\<close> end, one answer per call.\<close>

record 'tx me_env =
  en_registry :: "'tx registry"
  en_tx :: "writer_command list"
  en_tx_closed :: bool
  en_counters :: me_counters
  en_ping_tracker :: "u64 \<rightharpoonup> nat \<times> u64"
  en_rtt_samples :: "(u64 \<times> nat) list"
  en_now :: nat
  en_waits :: "nat \<Rightarrow> u64 \<Rightarrow> send_wait"
  en_calls :: nat

record rpc_reader =
  rr_dk :: bytes
  rr_div :: bytes
  rr_crc_mode :: rpc_checksum_mode
  rr_raw :: bytes
  rr_dec :: bytes
  rr_expected_seq :: u32

subsection \<open>Dispatch\<close>

definition en_send :: "writer_command \<Rightarrow> 'tx me_env \<Rightarrow> bool \<times> 'tx me_env" where
  "en_send cmd e = (if en_tx_closed e then (False, e) else (True, e\<lparr>en_tx := en_tx e @ [cmd]\<rparr>))"

definition send_close_conn :: "u64 \<Rightarrow> 'tx me_env \<Rightarrow> 'tx me_env" where
  "send_close_conn conn_id e =
     snd (en_send (WcDataAndFlush (u32_to_le_bytes RPC_CLOSE_CONN_U32 @ u64_to_le_bytes conn_id)) e)"

definition en_route :: "u64 \<Rightarrow> me_response \<Rightarrow> 'tx me_env \<Rightarrow> route_result \<times> 'tx me_env" where
  "en_route cid resp e =
     (case reg_route cid resp (en_waits e (en_calls e)) (en_registry e) of (res, r) \<Rightarrow>
        (res, e\<lparr>en_registry := r, en_calls := Suc (en_calls e)\<rparr>))"

definition en_unregister :: "u64 \<Rightarrow> 'tx me_env \<Rightarrow> 'tx me_env" where
  "en_unregister cid e = e\<lparr>en_registry := snd (reg_unregister cid (en_registry e))\<rparr>"

fun count_drop :: "route_result \<Rightarrow> me_counters \<Rightarrow> me_counters" where
  "count_drop NoConn k = k\<lparr>route_drop_no_conn := Suc (route_drop_no_conn k)\<rparr>"
| "count_drop ChannelClosed k = k\<lparr>route_drop_channel_closed := Suc (route_drop_channel_closed k)\<rparr>"
| "count_drop QueueFullBase k = k\<lparr>route_drop_queue_full := Suc (route_drop_queue_full k),
     route_drop_queue_full_base := Suc (route_drop_queue_full_base k)\<rparr>"
| "count_drop QueueFullHigh k = k\<lparr>route_drop_queue_full := Suc (route_drop_queue_full k),
     route_drop_queue_full_high := Suc (route_drop_queue_full_high k)\<rparr>"
| "count_drop Routed k = k"

text \<open>Answers and acknowledgements: a connection that cannot take its message is dropped on both
  sides.\<close>

definition route_or_close :: "u64 \<Rightarrow> me_response \<Rightarrow> 'tx me_env \<Rightarrow> 'tx me_env" where
  "route_or_close cid resp e =
     (case en_route cid resp e of (routed, e) \<Rightarrow>
        if routed \<noteq> Routed then
          send_close_conn cid (en_unregister cid (e\<lparr>en_counters := count_drop routed (en_counters e)\<rparr>))
        else e)"

definition close_from_me :: "u64 \<Rightarrow> 'tx me_env \<Rightarrow> 'tx me_env" where
  "close_from_me cid e = en_unregister cid (snd (en_route cid MeClose e))"

definition on_pong :: "u64 \<Rightarrow> 'tx me_env \<Rightarrow> 'tx me_env" where
  "on_pong ping_id e =
     (let e = e\<lparr>en_counters := (en_counters e)\<lparr>keepalive_pong := Suc (keepalive_pong (en_counters e))\<rparr>\<rparr> in
      case en_ping_tracker e ping_id of
        Some (sent, wid) \<Rightarrow>
          e\<lparr>en_ping_tracker := (en_ping_tracker e)(ping_id := None),
            en_rtt_samples := en_rtt_samples e @ [(wid, en_now e - sent)]\<rparr>
      | None \<Rightarrow> e)"

text \<open>One payload of at least four bytes; the flag says whether the inner loop goes on.\<close>

definition me_dispatch :: "bytes \<Rightarrow> 'tx me_env \<Rightarrow> 'tx me_env \<times> bool" where
  "me_dispatch payload e =
     (let pt = u32_from_le_bytes (take 4 payload); body = drop 4 payload in
      if pt = RPC_PROXY_ANS_U32 \<and> length body \<ge> 12 then
        (route_or_close (u64_from_le_bytes (subslice body 4 12))
           (MeData (u32_from_le_bytes (take 4 body)) (drop 12 body)) e, True)
      else if pt = RPC_SIMPLE_ACK_U32 \<and> length body \<ge> 12 then
        (route_or_close (u64_from_le_bytes (take 8 body)) (MeAck (u32_from_le_bytes (subslice body 8 12))) e, True)
      else if pt = RPC_CLOSE_EXT_U32 \<and> length body \<ge> 8 then
        (close_from_me (u64_from_le_bytes (take 8 body)) e, True)
      else if pt = RPC_CLOSE_CONN_U32 \<and> length body \<ge> 8 then
        (close_from_me (u64_from_le_bytes (take 8 body)) e, True)
      else if pt = RPC_PING_U32 \<and> length body \<ge> 8 then
        (case en_send (WcDataAndFlush (u32_to_le_bytes RPC_PONG_U32 @ take 8 body)) e of (ok, e) \<Rightarrow> (e, ok))
      else if pt = RPC_PONG_U32 \<and> length body \<ge> 8 then
        (on_pong (u64_from_le_bytes (take 8 body)) e, True)
      else (e, True))"

subsection \<open>The loops\<close>

function rpc_drain :: "checksums \<Rightarrow> rpc_reader \<Rightarrow> 'tx me_env \<Rightarrow> proxy_error option \<times> rpc_reader \<times> 'tx me_env" where
  "rpc_drain ck r e =
     (if length (rr_dec r) < 12 then (None, r, e)
      else
        let fl = unat (u32_from_le_bytes (take 4 (rr_dec r))) in
        if fl = 4 then rpc_drain ck (r\<lparr>rr_dec := drop 4 (rr_dec r)\<rparr>) e
        else if \<not> (12 \<le> fl \<and> fl \<le> 2 ^ 24) then (None, r\<lparr>rr_dec := []\<rparr>, e)
        else if length (rr_dec r) < fl then (None, r, e)
        else
          let frame = take fl (rr_dec r);
              r = r\<lparr>rr_dec := drop fl (rr_dec r)\<rparr>;
              pe = fl - 4;
              ec = u32_from_le_bytes (subslice frame pe (pe + 4));
              actual_crc = rpc_crc ck (rr_crc_mode r) (take pe frame)
          in
          if actual_crc \<noteq> ec then
            (Some (ProxyMsg (Msg ''CRC mismatch (crypto desync)'' [])), r,
             e\<lparr>en_counters := (en_counters e)\<lparr>crc_mismatch := Suc (crc_mismatch (en_counters e))\<rparr>\<rparr>)
          else
            let seq_no = u32_from_le_bytes (subslice frame 4 8) in
            if seq_no \<noteq> rr_expected_seq r then
              (Some (SeqNoMismatch (sint (rr_expected_seq r)) (sint seq_no)), r,
               e\<lparr>en_counters := (en_counters e)\<lparr>seq_mismatch := Suc (seq_mismatch (en_counters e))\<rparr>\<rparr>)
            else
              let r = r\<lparr>rr_expected_seq := rr_expected_seq r + 1\<rparr>;
                  payload = subslice frame 8 pe
              in if length payload < 4 then rpc_drain ck r e
                 else
                   (case me_dispatch payload e of
                      (e, True) \<Rightarrow> rpc_drain ck r e
                    | (e, False) \<Rightarrow> (None, r, e)))"
  by pat_completeness auto
termination
  by (relation "measure (\<lambda>(ck, r, e). length (rr_dec r))") auto

declare rpc_drain.simps [simp del]

text \<open>New bytes from the socket: whole blocks are decrypted and chained, the rest is kept.\<close>

definition reader_decrypt :: "block_cipher \<Rightarrow> rpc_reader \<Rightarrow> bytes \<Rightarrow> proxy_error option \<times> rpc_reader" where
  "reader_decrypt D r bs =
     (let raw = rr_raw r @ bs; blocks = length raw div 16 * 16 in
      if blocks > 0 then
        (case aes_cbc_decrypt_in_place D (aes_cbc_new (rr_dk r) (rr_div r)) (take blocks raw) of
           Inl err \<Rightarrow> (Some (Crypto (Msg ''{}'' [])), r\<lparr>rr_raw := raw\<rparr>)
         | Inr chunk \<Rightarrow>
             (None, r\<lparr>rr_div := subslice raw (blocks - 16) blocks, rr_dec := rr_dec r @ chunk,
                      rr_raw := drop blocks raw\<rparr>))
      else (None, r\<lparr>rr_raw := raw\<rparr>))"

datatype me_read = MrCancelled | MrErr io_error | MrBytes bytes

text \<open>\<open>Inl\<close> is the value the task returns with.\<close>

definition reader_step :: "block_cipher \<Rightarrow> checksums \<Rightarrow> me_read \<Rightarrow> rpc_reader \<Rightarrow> 'tx me_env \<Rightarrow>
    ((proxy_error + unit) + unit) \<times> rpc_reader \<times> 'tx me_env" where
  "reader_step D ck x r e =
     (case x of
        MrCancelled \<Rightarrow> (Inl (Inr ()), r, e)
      | MrErr err \<Rightarrow> (Inl (Inl (ProxyIo err)), r, e)
      | MrBytes bs \<Rightarrow>
          if bs = [] then
            (Inl (Inl (ProxyIo (io_err UnexpectedEof ''ME socket closed by peer'' []))), r,
             e\<lparr>en_counters := (en_counters e)\<lparr>reader_eof_total := Suc (reader_eof_total (en_counters e))\<rparr>\<rparr>)
          else
            (case reader_decrypt D r bs of
               (Some err, r) \<Rightarrow> (Inl (Inl err), r, e)
             | (None, r) \<Rightarrow>
                 (case rpc_drain ck r e of
                    (Some err, r, e) \<Rightarrow> (Inl (Inl err), r, e)
                  | (None, r, e) \<Rightarrow> (Inr (), r, e))))"

primrec reader_loop :: "block_cipher \<Rightarrow> checksums \<Rightarrow> me_read list \<Rightarrow> rpc_reader \<Rightarrow> 'tx me_env \<Rightarrow>
    ((proxy_error + unit) + unit) \<times> rpc_reader \<times> 'tx me_env" where
  "reader_loop D ck [] r e = (Inr (), r, e)"
| "reader_loop D ck (x # xs) r e =
     (case reader_step D ck x r e of
        (Inl res, r, e) \<Rightarrow> (Inl res, r, e)
      | (Inr _, r, e) \<Rightarrow> reader_loop D ck xs r e)"

subsection \<open>What the peer sends\<close>

text \<open>The plaintext of a connection is a sequence of frames, numbered in order, and padding words.\<close>

datatype rpc_token = TokPad | TokFrame bytes

fun tok_next :: "u32 \<Rightarrow> rpc_token \<Rightarrow> u32" where
  "tok_next s TokPad = s"
| "tok_next s (TokFrame p) = s + 1"

fun tok_bytes :: "checksums \<Rightarrow> rpc_checksum_mode \<Rightarrow> u32 \<Rightarrow> rpc_token \<Rightarrow> bytes" where
  "tok_bytes ck m s TokPad = [4, 0, 0, 0]"
| "tok_bytes ck m s (TokFrame p) = build_rpc_frame ck s p m"

primrec toks_bytes :: "checksums \<Rightarrow> rpc_checksum_mode \<Rightarrow> u32 \<Rightarrow> rpc_token list \<Rightarrow> bytes" where
  "toks_bytes ck m s [] = []"
| "toks_bytes ck m s (t # ts) = tok_bytes ck m s t @ toks_bytes ck m (tok_next s t) ts"

fun tok_ok :: "rpc_token \<Rightarrow> bool" where
  "tok_ok TokPad = True"
| "tok_ok (TokFrame p) = (12 + length p \<le> 2 ^ 24)"

definition toks_next :: "u32 \<Rightarrow> rpc_token list \<Rightarrow> u32" where
  "toks_next s ts = foldl tok_next s ts"

text \<open>What dispatching a sequence of tokens does to the environment.\<close>

fun tok_dispatch :: "'tx me_env \<Rightarrow> rpc_token \<Rightarrow> 'tx me_env" where
  "tok_dispatch e TokPad = e"
| "tok_dispatch e (TokFrame p) = (if length p < 4 then e else fst (me_dispatch p e))"

lemma tx_closed_kept [simp]:
  "en_tx_closed (snd (en_send c e)) = en_tx_closed e" "fst (en_send c e) = (\<not> en_tx_closed e)"
  "en_tx_closed (send_close_conn cid e) = en_tx_closed e"
  "en_tx_closed (snd (en_route cid m e)) = en_tx_closed e"
  "en_tx_closed (en_unregister cid e) = en_tx_closed e"
  by (simp_all add: en_send_def send_close_conn_def en_route_def en_unregister_def split: prod.splits)

lemma tx_closed_kept' [simp]:
  "en_tx_closed (route_or_close cid m e) = en_tx_closed e"
  "en_tx_closed (close_from_me cid e) = en_tx_closed e"
  "en_tx_closed (on_pong q e) = en_tx_closed e"
  by (simp_all add: route_or_close_def close_from_me_def on_pong_def Let_def case_prod_unfold split: option.splits)

lemma me_dispatch_open:
  assumes "\<not> en_tx_closed e"
  shows "snd (me_dispatch p e)" "\<not> en_tx_closed (fst (me_dispatch p e))"
  using assms by (simp_all add: me_dispatch_def Let_def case_prod_unfold)

lemma tok_dispatch_open: "\<not> en_tx_closed e \<Longrightarrow> \<not> en_tx_closed (tok_dispatch e t)"
  using me_dispatch_open(2) by (cases t) auto

lemma pad_word: "unat (u32_from_le_bytes [4, 0, 0, 0]) = 4"
  by (simp add: u32_from_le_bytes_def)

lemma prefix_take:
  assumes "dec @ rest = xs @ ys" "length xs \<le> length dec"
  shows "take (length xs) dec = xs" "drop (length xs) dec @ rest = ys"
proof -
  have "take (length xs) (dec @ rest) = xs" "drop (length xs) (dec @ rest) = ys" using assms(1) by simp_all
  then show "take (length xs) dec = xs" "drop (length xs) dec @ rest = ys" using assms(2) by simp_all
qed

text \<open>One padding word and one frame at the head of the buffer.\<close>

lemma drain_pad:
  assumes "rr_dec r @ rest = [4, 0, 0, 0] @ ys" "12 \<le> length (rr_dec r)"
  shows "rpc_drain ck r e = rpc_drain ck (r\<lparr>rr_dec := drop 4 (rr_dec r)\<rparr>) e" "drop 4 (rr_dec r) @ rest = ys"
proof -
  have t: "take 4 (rr_dec r) = [4, 0, 0, 0]" "drop 4 (rr_dec r) @ rest = ys"
    using prefix_take [OF assms(1)] assms(2) by (simp_all add: numeral_4)
  then show "drop 4 (rr_dec r) @ rest = ys" by simp
  show "rpc_drain ck r e = rpc_drain ck (r\<lparr>rr_dec := drop 4 (rr_dec r)\<rparr>) e"
    using assms(2) t(1) pad_word by (subst rpc_drain.simps) (simp add: Let_def)
qed

lemma frame_len_prefix:
  assumes "dec @ rest = build_rpc_frame ck s p m @ ys" "12 \<le> length dec" "12 + length p \<le> 2 ^ 24"
  shows "unat (u32_from_le_bytes (take 4 dec)) = 12 + length p"
proof -
  have "take 4 (dec @ rest) = take 4 (build_rpc_frame ck s p m @ ys)" using assms(1) by simp
  then have "take 4 dec = take 4 (build_rpc_frame ck s p m)" using assms(2) by simp
  then show ?thesis using rpc_frame_fields(1) [OF assms(3)] by simp
qed

lemma drain_frame:
  assumes eq: "rr_dec r @ rest = build_rpc_frame ck s p (rr_crc_mode r) @ ys"
    and len: "12 + length p \<le> length (rr_dec r)" "12 + length p \<le> 2 ^ 24"
    and seq: "rr_expected_seq r = s" and op: "\<not> en_tx_closed e"
  shows "rpc_drain ck r e = rpc_drain ck (r\<lparr>rr_dec := drop (12 + length p) (rr_dec r), rr_expected_seq := s + 1\<rparr>)
      (tok_dispatch e (TokFrame p))"
    "drop (12 + length p) (rr_dec r) @ rest = ys"
proof -
  let ?f = "build_rpc_frame ck s p (rr_crc_mode r)"
  have t: "take (12 + length p) (rr_dec r) = ?f" "drop (12 + length p) (rr_dec r) @ rest = ys"
    using prefix_take [OF eq] len(1) by simp_all
  then show "drop (12 + length p) (rr_dec r) @ rest = ys" by simp
  have fl: "unat (u32_from_le_bytes (take 4 (rr_dec r))) = 12 + length p"
    using frame_len_prefix [OF eq _ len(2)] len(1) by simp
  note F = rpc_frame_fields [OF len(2), of ck s "rr_crc_mode r"]
  have pe: "12 + length p - 4 = 8 + length p" "8 + length p + 4 = 12 + length p" by simp_all
  obtain e' b where d: "me_dispatch p e = (e', b)" by fastforce
  then have b: b using me_dispatch_open(1) [OF op, of p] by simp
  show "rpc_drain ck r e = rpc_drain ck (r\<lparr>rr_dec := drop (12 + length p) (rr_dec r), rr_expected_seq := s + 1\<rparr>)
      (tok_dispatch e (TokFrame p))"
    using len seq d b F(2-4)
    by (subst rpc_drain.simps) (simp add: Let_def fl t(1) pe del: One_nat_def)
qed

lemma toks_bytes_short:
  "length (toks_bytes ck m s ts) < 12 \<Longrightarrow> filter (\<lambda>t. t \<noteq> TokPad) ts = []"
proof (induction ts arbitrary: s)
  case (Cons t ts)
  then show ?case using Cons.IH [of "tok_next s t"] by (cases t) auto
qed simp

text \<open>The inner loop takes whole tokens off the buffer, dispatches the frames among them in order, and
  stops only inside a token; at the end of the stream no frame is left.\<close>

lemma drain_tokens:
  assumes "rr_dec r @ rest = toks_bytes ck (rr_crc_mode r) s ts" "list_all tok_ok ts"
    "rr_expected_seq r = s" "\<not> en_tx_closed e"
  shows "\<exists>us vs r'. ts = us @ vs \<and> rpc_drain ck r e = (None, r', foldl tok_dispatch e us) \<and>
    rr_dec r' @ rest = toks_bytes ck (rr_crc_mode r) (toks_next s us) vs \<and>
    rr_expected_seq r' = toks_next s us \<and> rr_crc_mode r' = rr_crc_mode r \<and> rr_dk r' = rr_dk r \<and>
    rr_div r' = rr_div r \<and> rr_raw r' = rr_raw r \<and>
    \<not> en_tx_closed (foldl tok_dispatch e us) \<and> (rest = [] \<longrightarrow> filter (\<lambda>t. t \<noteq> TokPad) vs = [])"
  using assms
proof (induction ts arbitrary: r s e)
  case Nil
  then show ?case by (auto simp: rpc_drain.simps [of ck r e] toks_next_def)
next
  case (Cons t ts)
  show ?case
  proof (cases "length (rr_dec r) < 12")
    case True
    have "rest = [] \<longrightarrow> filter (\<lambda>t. t \<noteq> TokPad) (t # ts) = []"
      using Cons.prems(1) True toks_bytes_short [of ck "rr_crc_mode r" s "t # ts"] by (metis append_Nil2)
    then show ?thesis
      using Cons.prems True
      by - (rule exI [of _ "[]"], rule exI [of _ "t # ts"], rule exI [of _ r],
        simp add: rpc_drain.simps [of ck r e] toks_next_def del: filter.simps)
  next
    case long: False
    show ?thesis
    proof (cases t)
      case TokPad
      let ?r = "r\<lparr>rr_dec := drop 4 (rr_dec r)\<rparr>"
      have "rr_dec r @ rest = [4, 0, 0, 0] @ toks_bytes ck (rr_crc_mode r) s ts"
        using Cons.prems(1) TokPad by simp
      note P = drain_pad [OF this]
      have "rr_dec ?r @ rest = toks_bytes ck (rr_crc_mode ?r) s ts" using P(2) long by simp
      from Cons.IH [OF this, of e] obtain us vs r' where "ts = us @ vs"
        "rpc_drain ck ?r e = (None, r', foldl tok_dispatch e us)"
        "rr_dec r' @ rest = toks_bytes ck (rr_crc_mode r) (toks_next s us) vs \<and>
         rr_expected_seq r' = toks_next s us \<and> rr_crc_mode r' = rr_crc_mode r \<and> rr_dk r' = rr_dk r \<and>
         rr_div r' = rr_div r \<and> rr_raw r' = rr_raw r \<and>
         \<not> en_tx_closed (foldl tok_dispatch e us) \<and> (rest = [] \<longrightarrow> filter (\<lambda>t. t \<noteq> TokPad) vs = [])"
        using Cons.prems by auto
      then show ?thesis
        using P(1) [of ck e] long TokPad by - (rule exI [of _ "t # us"], rule exI [of _ vs], rule exI [of _ r'], auto simp: toks_next_def)
    next
      case (TokFrame p)
      have ok: "12 + length p \<le> 2 ^ 24" using Cons.prems(2) TokFrame by simp
      have eq: "rr_dec r @ rest = build_rpc_frame ck s p (rr_crc_mode r) @ toks_bytes ck (rr_crc_mode r) (s + 1) ts"
        using Cons.prems(1) TokFrame by simp
      show ?thesis
      proof (cases "length (rr_dec r) < 12 + length p")
        case True
        have fl: "unat (u32_from_le_bytes (take 4 (rr_dec r))) = 12 + length p"
          using frame_len_prefix [OF eq _ ok] long by simp
        have "rest \<noteq> []"
        proof
          assume "rest = []"
          then have "length (rr_dec r) \<ge> 12 + length p" using arg_cong [OF eq, of length] by simp
          then show False using True by simp
        qed
        then show ?thesis
          using Cons.prems long True ok fl
          by - (rule exI [of _ "[]"], rule exI [of _ "t # ts"], rule exI [of _ r],
            simp add: rpc_drain.simps [of ck r e] toks_next_def Let_def)
      next
        case False
        let ?r = "r\<lparr>rr_dec := drop (12 + length p) (rr_dec r), rr_expected_seq := s + 1\<rparr>"
        let ?e = "tok_dispatch e (TokFrame p)"
        note F = drain_frame [OF eq _ ok Cons.prems(3,4)]
        have "rr_dec ?r @ rest = toks_bytes ck (rr_crc_mode ?r) (s + 1) ts" using F(2) False by simp
        from Cons.IH [OF this, of ?e] obtain us vs r' where "ts = us @ vs"
          "rpc_drain ck ?r ?e = (None, r', foldl tok_dispatch ?e us)"
          "rr_dec r' @ rest = toks_bytes ck (rr_crc_mode r) (toks_next (s + 1) us) vs \<and>
           rr_expected_seq r' = toks_next (s + 1) us \<and> rr_crc_mode r' = rr_crc_mode r \<and> rr_dk r' = rr_dk r \<and>
           rr_div r' = rr_div r \<and> rr_raw r' = rr_raw r \<and>
           \<not> en_tx_closed (foldl tok_dispatch ?e us) \<and> (rest = [] \<longrightarrow> filter (\<lambda>t. t \<noteq> TokPad) vs = [])"
          using Cons.prems tok_dispatch_open [of e "TokFrame p"] by auto
        then show ?thesis
          using F(1) False TokFrame
          by - (rule exI [of _ "t # us"], rule exI [of _ vs], rule exI [of _ r'], auto simp: toks_next_def)
      qed
    qed
  qed
qed

end
