(* ===== verification/Rpc_Session.thy ===== *)
theory Rpc_Session
  imports Rpc_Reader
begin

section \<open>A middle-proxy session, writer to reader\<close>

text \<open>
  The RPC writer (\<open>codec.rs\<close>) and the reader task (\<open>reader.rs\<close>) run on the two ends of a connection
  and only share key, IV, checksum mode and first sequence number. This theory composes them: whatever
  the network does to the boundaries of the ciphertext, the reader dispatches exactly the payloads the
  writer sealed, in order, once each.
\<close>

text \<open>The ciphertext of a sequence of \<open>send\<close> calls.\<close>

primrec rpc_seal_all :: "block_cipher \<Rightarrow> checksums \<Rightarrow> rpc_writer \<Rightarrow> bytes list \<Rightarrow> (proxy_error + bytes) \<times> rpc_writer" where
  "rpc_seal_all E ck w [] = (Inr [], w)"
| "rpc_seal_all E ck w (p # ps) =
     (case rpc_seal E ck w p of
        (Inl e, w) \<Rightarrow> (Inl e, w)
      | (Inr buf, w) \<Rightarrow>
          (case rpc_seal_all E ck w ps of
             (Inl e, w) \<Rightarrow> (Inl e, w)
           | (Inr bufs, w) \<Rightarrow> (Inr (buf @ bufs), w)))"

text \<open>The plaintext tokens of one sealed payload: the frame, then padding words up to the next block.\<close>

definition sealed_toks :: "bytes \<Rightarrow> rpc_token list" where
  "sealed_toks p = TokFrame p # replicate (((16 - (12 + length p) mod 16) mod 16) div 4) TokPad"

definition payload_ok :: "bytes \<Rightarrow> bool" where
  "payload_ok p \<longleftrightarrow> 4 dvd length p \<and> 12 + length p \<le> 2 ^ 24"

subsection \<open>The writer\<close>

lemma pad_bytes_words: "pad_bytes (4 * n) = concat (replicate n [4, 0, 0, 0])"
proof (induction n)
  case (Suc n)
  have "[0 ..< 4 * Suc n] = [0 ..< 4 * n] @ [4 * n, 4 * n + 1, 4 * n + 2, 4 * n + 3]"
    by (simp add: upt_conv_Cons numeral_eq_Suc)
  moreover have "4 * n mod 4 = 0" "(4 * n + 1) mod 4 = 1" "(4 * n + 2) mod 4 = 2" "(4 * n + 3) mod 4 = 3"
    by presburger+
  ultimately have "pad_bytes (4 * Suc n) = pad_bytes (4 * n) @ [4, 0, 0, 0]"
    by (simp add: pad_bytes_def)
  then show ?case using Suc by (simp add: concat_replicate_trivial replicate_append_same [symmetric])
qed (simp add: pad_bytes_def)

lemma length_pad_bytes [simp, len_simps]: "length (pad_bytes n) = n"
  by (simp add: pad_bytes_def)

lemma toks_bytes_append:
  "toks_bytes ck m s (us @ vs) = toks_bytes ck m s us @ toks_bytes ck m (toks_next s us) vs"
  by (induction us arbitrary: s) (simp_all add: toks_next_def)

lemma toks_bytes_pads [simp]:
  "toks_bytes ck m s (replicate n TokPad) = concat (replicate n [4, 0, 0, 0])"
  by (induction n) simp_all

lemma toks_next_simps [simp]:
  "toks_next s [] = s" "toks_next s (t # ts) = toks_next (tok_next s t) ts"
  "toks_next s (us @ vs) = toks_next (toks_next s us) vs" "toks_next s (replicate n TokPad) = s"
  by (simp_all add: toks_next_def) (induction n; simp)

lemma foldl_dispatch_pads [simp]: "foldl tok_dispatch e (replicate n TokPad) = e"
  by (induction n) simp_all

lemma foldl_dispatch_filter:
  "filter (\<lambda>t. t \<noteq> TokPad) ts = [] \<Longrightarrow> foldl tok_dispatch e ts = e"
  by (induction ts) (auto split: if_splits)

lemma next_block: "16 dvd a + (16 - a mod 16) mod 16" for a :: nat
proof (cases "a mod 16 = 0")
  case True
  then show ?thesis by (simp add: dvd_eq_mod_eq_0)
next
  case False
  have "a mod 16 < 16" by simp
  then have "a + (16 - a mod 16) = (a - a mod 16) + 16" by simp
  also have "\<dots> = 16 * (a div 16) + 16" by (simp add: minus_mod_eq_mult_div)
  finally show ?thesis using False by simp
qed

lemma sealed_plain:
  assumes "payload_ok p"
  shows "build_rpc_frame ck s p m @ pad_bytes ((16 - (12 + length p) mod 16) mod 16) =
      toks_bytes ck m s (sealed_toks p)"
    "16 dvd length (toks_bytes ck m s (sealed_toks p))"
    "toks_bytes ck m s (sealed_toks p) \<noteq> []"
proof -
  let ?n = "(16 - (12 + length p) mod 16) mod 16"
  have "4 dvd 12 + length p" using assms by (simp add: payload_ok_def)
  then have "4 dvd ?n" by (intro dvd_mod dvd_diff_nat) simp_all
  then have n: "4 * (?n div 4) = ?n" by simp
  then show eq: "build_rpc_frame ck s p m @ pad_bytes ?n = toks_bytes ck m s (sealed_toks p)"
    using pad_bytes_words [of "?n div 4"] unfolding sealed_toks_def n by simp
  from next_block [of "12 + length p"] show "16 dvd length (toks_bytes ck m s (sealed_toks p))" unfolding eq [symmetric] by (simp add: add.assoc)
  have "build_rpc_frame ck s p m \<noteq> []" by (metis length_build_rpc_frame list.size(3) add_is_0 zero_neq_numeral)
  then show "toks_bytes ck m s (sealed_toks p) \<noteq> []" unfolding eq [symmetric] by simp
qed

lemma rpc_seal_cbc:
  assumes ok: "block_cipher_ok E D" "length (rw_key w) = 32" "length (rw_iv w) = 16" and p: "payload_ok p"
  shows "rpc_seal E ck w p =
    (let buf = cbc_encrypt_chunks E (rw_key w) (rw_iv w)
           (chunks 16 (toks_bytes ck (rw_crc_mode w) (rw_seq_no w) (sealed_toks p)))
     in (Inr buf, w\<lparr>rw_seq_no := rw_seq_no w + 1, rw_iv := drop (length buf - 16) buf\<rparr>))"
    "length (cbc_encrypt_chunks E (rw_key w) (rw_iv w)
       (chunks 16 (toks_bytes ck (rw_crc_mode w) (rw_seq_no w) (sealed_toks p)))) =
     length (toks_bytes ck (rw_crc_mode w) (rw_seq_no w) (sealed_toks p))"
proof -
  let ?P = "toks_bytes ck (rw_crc_mode w) (rw_seq_no w) (sealed_toks p)"
  let ?c = "aes_cbc_new (rw_key w) (rw_iv w)"
  note S = sealed_plain [where ck = ck and s = "rw_seq_no w" and m = "rw_crc_mode w", OF p]
  have wf: "cbc_wf ?c" using ok by (simp add: cbc_wf_def aes_cbc_new_def)
  show len: "length (cbc_encrypt_chunks E (rw_key w) (rw_iv w) (chunks 16 ?P)) = length ?P"
    by (simp add: cbc_encrypt_chunks_length [OF ok(1,2)] length_chunks [OF S(2)])
  have "16 \<le> length ?P" using S(2,3) by (meson dvd_imp_le length_greater_0_conv)
  then show "rpc_seal E ck w p =
    (let buf = cbc_encrypt_chunks E (rw_key w) (rw_iv w) (chunks 16 ?P)
     in (Inr buf, w\<lparr>rw_seq_no := rw_seq_no w + 1, rw_iv := drop (length buf - 16) buf\<rparr>))"
    using S(1) len
    by (simp add: rpc_seal_def Let_def aes_cbc_encrypt_in_place_eq [OF ok(1) wf] aes_cbc_encrypt_Inr [OF S(2)])
      (simp add: aes_cbc_new_def)
qed

text \<open>Sealing one payload after the other is one CBC encryption of the whole plaintext.\<close>

lemma rpc_seal_all_cbc:
  assumes ok: "block_cipher_ok E D"
  shows "length (rw_key w) = 32 \<Longrightarrow> length (rw_iv w) = 16 \<Longrightarrow> list_all payload_ok ps \<Longrightarrow>
    fst (rpc_seal_all E ck w ps) = Inr (cbc_encrypt_chunks E (rw_key w) (rw_iv w)
      (chunks 16 (toks_bytes ck (rw_crc_mode w) (rw_seq_no w) (concat (map sealed_toks ps)))))"
proof (induction ps arbitrary: w)
  case (Cons p ps)
  let ?P = "toks_bytes ck (rw_crc_mode w) (rw_seq_no w) (sealed_toks p)"
  let ?Q = "toks_bytes ck (rw_crc_mode w) (rw_seq_no w + 1) (concat (map sealed_toks ps))"
  let ?C = "cbc_encrypt_chunks E (rw_key w) (rw_iv w) (chunks 16 ?P)"
  let ?w = "w\<lparr>rw_seq_no := rw_seq_no w + 1, rw_iv := drop (length ?C - 16) ?C\<rparr>"
  have p: "payload_ok p" using Cons.prems by simp
  note S = sealed_plain [where ck = ck and s = "rw_seq_no w" and m = "rw_crc_mode w", OF p]
  note C = rpc_seal_cbc [OF ok Cons.prems(1,2) p, of ck]
  have ge: "16 \<le> length ?P" using S(2,3) by (meson dvd_imp_le length_greater_0_conv)
  have IH: "fst (rpc_seal_all E ck ?w ps) =
      Inr (cbc_encrypt_chunks E (rw_key w) (drop (length ?C - 16) ?C) (chunks 16 ?Q))"
    using Cons.IH [of ?w] Cons.prems C(2) ge by simp
  have "chunks 16 ?P \<noteq> []" using S(3) by (metis concat_chunks concat.simps(1) zero_less_numeral)
  then have app: "cbc_encrypt_chunks E (rw_key w) (rw_iv w) (chunks 16 (?P @ ?Q)) =
      ?C @ cbc_encrypt_chunks E (rw_key w) (drop (length ?C - 16) ?C) (chunks 16 ?Q)"
    using S(2) C(2) cbc_encrypt_chunks_append [OF ok Cons.prems(1)] length_chunks [OF S(2)]
    by (auto simp: chunks_append elim!: dvdE)
  have tb: "toks_bytes ck (rw_crc_mode w) (rw_seq_no w) (concat (map sealed_toks (p # ps))) = ?P @ ?Q"
    by (simp add: toks_bytes_append) (simp add: sealed_toks_def)
  show ?case
    unfolding tb app using IH C(1) by (auto simp: Let_def split: prod.splits sum.splits)
qed simp

subsection \<open>The reader\<close>

text \<open>The plaintext still to come when \<open>bs\<close> is the ciphertext not yet decrypted.\<close>

definition pending_plain :: "block_cipher \<Rightarrow> rpc_reader \<Rightarrow> bytes \<Rightarrow> bytes" where
  "pending_plain D r bs = cbc_decrypt_chunks D (rr_dk r) (rr_div r) (chunks 16 (rr_raw r @ bs))"

definition reader_wf :: "rpc_reader \<Rightarrow> bool" where
  "reader_wf r \<longleftrightarrow> length (rr_dk r) = 32 \<and> length (rr_div r) = 16 \<and> length (rr_raw r) < 16"

lemma chunks_split: "16 dvd length xs \<Longrightarrow> chunks 16 (xs @ ys) = chunks 16 xs @ chunks 16 ys"
  by (auto simp: chunks_append elim!: dvdE)

lemma last_chunk:
  assumes "16 dvd length xs" "xs \<noteq> []"
  shows "last (chunks 16 xs) = drop (length xs - 16) xs"
proof -
  have ge: "16 \<le> length xs" using assms by (meson dvd_imp_le length_greater_0_conv)
  let ?a = "take (length xs - 16) xs" and ?b = "drop (length xs - 16) xs"
  have "16 dvd length ?a" using assms(1) ge by simp
  then have "chunks 16 xs = chunks 16 ?a @ chunks 16 ?b" using chunks_split [of ?a ?b] by simp
  moreover have "chunks 16 ?b = [?b]" using chunks_block [of ?b "[]"] ge by simp
  ultimately show ?thesis by simp
qed

text \<open>Decrypting what has arrived moves plaintext from pending to decrypted, whatever the boundaries.\<close>

lemma reader_decrypt_step:
  assumes ok: "block_cipher_ok E D" and wf: "reader_wf r"
  shows "\<exists>r'. reader_decrypt D r bs = (None, r') \<and> reader_wf r' \<and>
    rr_dec r' @ pending_plain D r' ahead = rr_dec r @ pending_plain D r (bs @ ahead) \<and>
    length (rr_raw r @ bs) mod 16 = length (rr_raw r') \<and>
    rr_crc_mode r' = rr_crc_mode r \<and> rr_expected_seq r' = rr_expected_seq r"
proof -
  define raw where "raw = rr_raw r @ bs"
  define n where "n = length raw div 16 * 16"
  have n_le: "n \<le> length raw" and n_dvd: "16 dvd n" by (simp_all add: n_def)
  have left: "length raw - n = length raw mod 16" by (simp only: n_def minus_div_mult_eq_mod)
  have cw: "cbc_wf (aes_cbc_new (rr_dk r) (rr_div r))"
    using wf by (simp add: reader_wf_def cbc_wf_def aes_cbc_new_def)
  have len: "length (take n raw) = n" using n_le by simp
  show ?thesis
  proof (cases "n = 0")
    case True
    then have "length raw < 16" using left by (metis diff_zero mod_less_divisor zero_less_numeral)
    then show ?thesis
      using True wf unfolding n_def raw_def
      by (intro exI [of _ "r\<lparr>rr_raw := raw\<rparr>"])
        (simp add: reader_decrypt_def Let_def reader_wf_def pending_plain_def raw_def)
  next
    case False
    let ?r = "r\<lparr>rr_div := subslice raw (n - 16) n,
      rr_dec := rr_dec r @ cbc_decrypt_chunks D (rr_dk r) (rr_div r) (chunks 16 (take n raw)),
      rr_raw := drop n raw\<rparr>"
    have ge: "16 \<le> n" using n_dvd False by (meson dvd_imp_le not_gr0)
    have dec: "aes_cbc_decrypt_in_place D (aes_cbc_new (rr_dk r) (rr_div r)) (take n raw) =
        Inr (cbc_decrypt_chunks D (rr_dk r) (rr_div r) (chunks 16 (take n raw)))"
      using aes_cbc_decrypt_Inr [of "take n raw"] n_dvd unfolding len
      by (simp add: aes_cbc_decrypt_in_place_eq [OF ok cw]) (simp add: aes_cbc_new_def)
    have run: "reader_decrypt D r bs = (None, ?r)"
      using dec False unfolding n_def raw_def by (simp add: reader_decrypt_def Let_def)
    have ne: "take n raw \<noteq> []" using len False by (metis list.size(3))
    have "chunks 16 (take n raw) \<noteq> []" using ne by (metis concat_chunks concat.simps(1) zero_less_numeral)
    moreover have "last (chunks 16 (take n raw)) = subslice raw (n - 16) n"
      using last_chunk [of "take n raw"] n_dvd ne unfolding len
      by (simp add: subslice_def drop_take)
    moreover have "chunks 16 (rr_raw r @ bs @ ahead) = chunks 16 (take n raw) @ chunks 16 (drop n raw @ ahead)"
      using chunks_split [of "take n raw" "drop n raw @ ahead"] n_dvd unfolding len
      by (metis append.assoc append_take_drop_id raw_def)
    ultimately have "rr_dec ?r @ pending_plain D ?r ahead = rr_dec r @ pending_plain D r (bs @ ahead)"
      by (simp add: pending_plain_def cbc_decrypt_chunks_append)
    moreover have "reader_wf ?r"
      using wf left ge n_le by (simp add: reader_wf_def length_subslice)
    moreover have "length (rr_raw r @ bs) mod 16 = length (rr_raw ?r)" using left by (simp flip: raw_def)
    ultimately show ?thesis using run by (intro exI [of _ ?r]) simp
  qed
qed

text \<open>One read that returns data: decrypt, then dispatch all complete frames.\<close>

definition session_at :: "block_cipher \<Rightarrow> checksums \<Rightarrow> rpc_reader \<Rightarrow> bytes \<Rightarrow> rpc_token list \<Rightarrow> bool" where
  "session_at D ck r ahead ts \<longleftrightarrow> reader_wf r \<and> 16 dvd length (rr_raw r @ ahead) \<and> list_all tok_ok ts \<and>
     rr_dec r @ pending_plain D r ahead = toks_bytes ck (rr_crc_mode r) (rr_expected_seq r) ts"

lemma pending_plain_kept:
  "rr_dk r' = rr_dk r \<Longrightarrow> rr_div r' = rr_div r \<Longrightarrow> rr_raw r' = rr_raw r \<Longrightarrow>
   pending_plain D r' bs = pending_plain D r bs"
  by (simp add: pending_plain_def)

lemma dvd_after_mod: "16 dvd a + b \<Longrightarrow> a mod 16 = c \<Longrightarrow> 16 dvd c + b" for a b c :: nat
  by (metis dvd_eq_mod_eq_0 mod_add_left_eq)

lemma reader_step_session:
  assumes ok: "block_cipher_ok E D" and at: "session_at D ck r (bs @ ahead) ts"
    and op: "\<not> en_tx_closed e" and ne: "bs \<noteq> []"
  shows "\<exists>us vs r'. ts = us @ vs \<and> reader_step D ck (MrBytes bs) r e = (Inr (), r', foldl tok_dispatch e us) \<and>
    session_at D ck r' ahead vs \<and> rr_expected_seq r' = toks_next (rr_expected_seq r) us \<and>
    \<not> en_tx_closed (foldl tok_dispatch e us) \<and>
    (rr_raw r' @ ahead = [] \<longrightarrow> filter (\<lambda>t. t \<noteq> TokPad) vs = [])"
proof -
  have wf: "reader_wf r" and al: "16 dvd length (rr_raw r @ bs) + length ahead" and tok: "list_all tok_ok ts"
    and eq: "rr_dec r @ pending_plain D r (bs @ ahead) = toks_bytes ck (rr_crc_mode r) (rr_expected_seq r) ts"
    using at by (simp_all add: session_at_def add.assoc)
  obtain r1 where r1: "reader_decrypt D r bs = (None, r1)" "reader_wf r1"
      "rr_dec r1 @ pending_plain D r1 ahead = rr_dec r @ pending_plain D r (bs @ ahead)"
      "length (rr_raw r @ bs) mod 16 = length (rr_raw r1)"
      "rr_crc_mode r1 = rr_crc_mode r" "rr_expected_seq r1 = rr_expected_seq r"
    using reader_decrypt_step [OF ok wf, of bs ahead] by blast
  have "rr_dec r1 @ pending_plain D r1 ahead = toks_bytes ck (rr_crc_mode r1) (rr_expected_seq r) ts"
    using r1 eq by simp
  from drain_tokens [OF this tok r1(6) op] obtain us vs r2 where d: "ts = us @ vs"
      "rpc_drain ck r1 e = (None, r2, foldl tok_dispatch e us)"
      "rr_dec r2 @ pending_plain D r1 ahead = toks_bytes ck (rr_crc_mode r1) (toks_next (rr_expected_seq r) us) vs"
      "rr_expected_seq r2 = toks_next (rr_expected_seq r) us" "rr_crc_mode r2 = rr_crc_mode r1"
      "rr_dk r2 = rr_dk r1" "rr_div r2 = rr_div r1" "rr_raw r2 = rr_raw r1"
      "\<not> en_tx_closed (foldl tok_dispatch e us)"
      "pending_plain D r1 ahead = [] \<longrightarrow> filter (\<lambda>t. t \<noteq> TokPad) vs = []"
    by blast
  have "session_at D ck r2 ahead vs"
    using d r1(2) tok dvd_after_mod [OF al r1(4)] pending_plain_kept [OF d(6-8)]
    by (simp add: session_at_def reader_wf_def)
  moreover have "rr_raw r2 @ ahead = [] \<longrightarrow> filter (\<lambda>t. t \<noteq> TokPad) vs = []"
    using d(8,10) by (simp add: pending_plain_def)
  ultimately show ?thesis
    using d(1,2,4,9) r1(1) ne by (intro exI [of _ us] exI [of _ vs] exI [of _ r2]) (simp add: reader_step_def)
qed

lemma reader_loop_session:
  assumes ok: "block_cipher_ok E D"
  shows "session_at D ck r (concat cs) ts \<Longrightarrow> \<not> en_tx_closed e \<Longrightarrow> [] \<notin> set cs \<Longrightarrow>
    rr_raw r @ concat cs = [] \<longrightarrow> filter (\<lambda>t. t \<noteq> TokPad) ts = [] \<Longrightarrow>
    \<exists>r'. reader_loop D ck (map MrBytes cs) r e = (Inr (), r', foldl tok_dispatch e ts) \<and>
      rr_expected_seq r' = toks_next (rr_expected_seq r) ts \<and> rr_raw r' = []"
proof (induction cs arbitrary: r e ts)
  case Nil
  then have "rr_raw r = []"
    by (simp add: session_at_def reader_wf_def) (meson dvd_imp_le length_greater_0_conv not_less)
  moreover have "filter (\<lambda>t. t \<noteq> TokPad) ts = [] \<Longrightarrow> toks_next s ts = s" for s
    by (induction ts) (auto split: if_splits)
  ultimately show ?case using Nil by (simp add: foldl_dispatch_filter)
next
  case (Cons c cs)
  have "session_at D ck r (c @ concat cs) ts" "c \<noteq> []" using Cons.prems by auto
  from reader_step_session [OF ok this(1) Cons.prems(2) this(2)] obtain us vs r1 where
      u: "ts = us @ vs" "reader_step D ck (MrBytes c) r e = (Inr (), r1, foldl tok_dispatch e us)"
      "session_at D ck r1 (concat cs) vs" "rr_expected_seq r1 = toks_next (rr_expected_seq r) us"
      "\<not> en_tx_closed (foldl tok_dispatch e us)"
      "rr_raw r1 @ concat cs = [] \<longrightarrow> filter (\<lambda>t. t \<noteq> TokPad) vs = []"
    by blast
  then show ?case using Cons.IH [OF u(3,5) _ u(6)] Cons.prems(3) by auto
qed

subsection \<open>The session\<close>

definition dispatch_all :: "'tx me_env \<Rightarrow> bytes list \<Rightarrow> 'tx me_env" where
  "dispatch_all e ps = foldl (\<lambda>e p. if length p < 4 then e else fst (me_dispatch p e)) e ps"

lemma dispatch_sealed: "foldl tok_dispatch e (concat (map sealed_toks ps)) = dispatch_all e ps"
  by (induction ps arbitrary: e) (simp_all add: dispatch_all_def sealed_toks_def)

lemma next_sealed: "toks_next s (concat (map sealed_toks ps)) = s + word_of_nat (length ps)"
  by (induction ps arbitrary: s) (simp_all add: sealed_toks_def add.assoc)

lemma sealed_all_props:
  "list_all payload_ok ps \<Longrightarrow> list_all tok_ok (concat (map sealed_toks ps)) \<and>
    16 dvd length (toks_bytes ck m s (concat (map sealed_toks ps)))"
proof (induction ps arbitrary: s)
  case (Cons p ps)
  then have "payload_ok p" by simp
  from sealed_plain(2) [OF this] have "16 dvd length (toks_bytes ck m s (concat (map sealed_toks (p # ps))))"
    using Cons by (simp add: toks_bytes_append dvd_add)
  moreover have "list_all tok_ok (sealed_toks p)"
    using \<open>payload_ok p\<close> by (simp add: sealed_toks_def payload_ok_def list_all_iff)
  ultimately show ?case using Cons by simp
qed simp

text \<open>C8: A middle-proxy session is lossless: the writer seals any sequence of 4-byte aligned payloads
  without an error, and however the ciphertext is cut on its way, the reader, started from the same
  key, IV, checksum mode and sequence number, neither fails nor desynchronises: it dispatches exactly
  these payloads, each once and in order, has consumed all ciphertext, and expects the sequence number
  the writer uses next.\<close>

theorem rpc_session_lossless:
  assumes "block_cipher_ok E D" "length (rw_key w) = 32" "length (rw_iv w) = 16"
    and "list_all payload_ok ps"
    and "rr_dk r = rw_key w" "rr_div r = rw_iv w" "rr_crc_mode r = rw_crc_mode w"
    and "rr_expected_seq r = rw_seq_no w" "rr_raw r = []" "rr_dec r = []" "\<not> en_tx_closed e"
  shows "\<exists>ct. fst (rpc_seal_all E ck w ps) = Inr ct \<and>
    (\<forall>cs. concat cs = ct \<and> [] \<notin> set cs \<longrightarrow>
      (\<exists>r'. reader_loop D ck (map MrBytes cs) r e = (Inr (), r', dispatch_all e ps) \<and>
        rr_expected_seq r' = rw_seq_no w + word_of_nat (length ps) \<and> rr_raw r' = []))"
proof -
  let ?ts = "concat (map sealed_toks ps)"
  let ?P = "toks_bytes ck (rw_crc_mode w) (rw_seq_no w) ?ts"
  let ?ct = "cbc_encrypt_chunks E (rw_key w) (rw_iv w) (chunks 16 ?P)"
  have tok: "list_all tok_ok ?ts" and al: "16 dvd length ?P"
    using sealed_all_props [OF assms(4)] by blast+
  have len: "length ?ct = length ?P"
    by (simp add: cbc_encrypt_chunks_length [OF assms(1,2)] length_chunks [OF al])
  have "\<forall>p \<in> set (chunks 16 ?P). length p = 16" using chunks_exact [OF _ al] by simp
  then have "cbc_decrypt_chunks D (rw_key w) (rw_iv w) (chunks 16 ?ct) = ?P"
    using cbc_decrypt_encrypt_chunks [OF assms(1-3)] by (simp add: concat_chunks)
  then have at: "session_at D ck r ?ct ?ts"
    using assms al len tok by (simp add: session_at_def reader_wf_def pending_plain_def)
  have none: "rr_raw r @ ?ct = [] \<longrightarrow> filter (\<lambda>t. t \<noteq> TokPad) ?ts = []"
    using len toks_bytes_short [of ck "rw_crc_mode w" "rw_seq_no w" ?ts] by auto
  have "\<exists>r'. reader_loop D ck (map MrBytes cs) r e = (Inr (), r', dispatch_all e ps) \<and>
      rr_expected_seq r' = rw_seq_no w + word_of_nat (length ps) \<and> rr_raw r' = []"
    if "concat cs = ?ct" "[] \<notin> set cs" for cs
    using reader_loop_session [OF assms(1), of ck r cs ?ts e] that at none assms(8,11)
    by (simp add: dispatch_sealed next_sealed)
  then show ?thesis using rpc_seal_all_cbc [OF assms(1-4)] by blast
qed

text \<open>A fresh environment and the two ends of a connection, for witnesses.\<close>

definition fresh_env :: "u64 \<Rightarrow> unit me_env" where
  "fresh_env n = \<lparr>en_registry = registry_new n, en_tx = [], en_tx_closed = False,
     en_counters = \<lparr>reader_eof_total = 0, crc_mismatch = 0, seq_mismatch = 0, route_drop_no_conn = 0,
       route_drop_channel_closed = 0, route_drop_queue_full = 0, route_drop_queue_full_base = 0,
       route_drop_queue_full_high = 0, keepalive_pong = 0\<rparr>,
     en_ping_tracker = Map.empty, en_rtt_samples = [], en_now = 0,
     en_waits = (\<lambda>n t. WaitTimeout), en_calls = 0\<rparr>"

definition sample_writer :: rpc_writer where
  "sample_writer = \<lparr>rw_writer = \<lparr>sk_script = [], sk_written = []\<rparr>, rw_key = replicate 32 5,
     rw_iv = replicate 16 1, rw_seq_no = 7, rw_crc_mode = Crc32\<rparr>"

definition sample_reader :: rpc_reader where
  "sample_reader = \<lparr>rr_dk = replicate 32 5, rr_div = replicate 16 1, rr_crc_mode = Crc32, rr_raw = [],
     rr_dec = [], rr_expected_seq = 7\<rparr>"

definition length_sums :: checksums where
  "length_sums = \<lparr>ck_crc32 = (\<lambda>b. word_of_nat (length b)), ck_crc32c = (\<lambda>b. 0)\<rparr>"

theorem rpc_session_lossless_witness:
  "\<exists>ct. fst (rpc_seal_all xor_cipher length_sums sample_writer [replicate 12 9, replicate 20 3]) = Inr ct \<and>
    (\<forall>cs. concat cs = ct \<and> [] \<notin> set cs \<longrightarrow>
      (\<exists>r'. reader_loop xor_cipher length_sums (map MrBytes cs) sample_reader (fresh_env 2) =
          (Inr (), r', dispatch_all (fresh_env 2) [replicate 12 9, replicate 20 3]) \<and>
        rr_expected_seq r' = rw_seq_no sample_writer + word_of_nat (length [replicate 12 9, replicate 20 (3 :: byte)]) \<and>
        rr_raw r' = []))"
  by (rule rpc_session_lossless [OF xor_cipher_ok])
    (simp_all add: sample_writer_def sample_reader_def fresh_env_def payload_ok_def)

subsection \<open>Answers to clients\<close>

lemma dispatch_answer:
  "me_dispatch (u32_to_le_bytes RPC_PROXY_ANS_U32 @ u32_to_le_bytes flags @ u64_to_le_bytes cid @ data) e =
     (route_or_close cid (MeData flags data) e, True)"
  by (simp add: me_dispatch_def Let_def subslice_skip subslice_head)

lemma unregistered_gone:
  "rg_map (snd (reg_unregister cid r)) cid = None" "rg_writer_for_conn (snd (reg_unregister cid r)) cid = None"
  by (simp_all add: reg_unregister_def Let_def split: option.splits)



end
