(* ===== verification/User_Limits.thy ===== *)
theory User_Limits
  imports Errors "HOL-Library.FSet"
begin

section \<open>Per-user limits (\<open>ip_tracker.rs\<close>, \<open>UserStats\<close> of \<open>stats/mod.rs\<close>, admission in \<open>proxy/client.rs\<close>)\<close>

text \<open>
  The tracker of active addresses per user, the per-user counters that quotas are checked against, and
  the admission of an authenticated client: its limit checks, and the guard that removes its address when
  its session ends. Hash maps are maps, hash sets finite sets, times and quotas numbers.
\<close>

subsection \<open>The address tracker\<close>

record user_ip_tracker =
  active_ips :: "string \<rightharpoonup> ip_addr fset"
  max_ips :: "string \<rightharpoonup> nat"

definition tracker_new :: user_ip_tracker where
  "tracker_new = \<lparr>active_ips = Map.empty, max_ips = Map.empty\<rparr>"

definition set_user_limit :: "string \<Rightarrow> nat \<Rightarrow> user_ip_tracker \<Rightarrow> user_ip_tracker" where
  "set_user_limit username n t = t\<lparr>max_ips := (max_ips t)(username \<mapsto> n)\<rparr>"

definition load_limits :: "(string \<rightharpoonup> nat) \<Rightarrow> user_ip_tracker \<Rightarrow> user_ip_tracker" where
  "load_limits limits t = t\<lparr>max_ips := max_ips t ++ limits\<rparr>"

text \<open>The rejection carries the number of active addresses and the limit, as its message does.\<close>

datatype ip_limit_error = IpLimitReached string nat nat

definition check_and_add :: "string \<Rightarrow> ip_addr \<Rightarrow> user_ip_tracker \<Rightarrow> (ip_limit_error + unit) \<times> user_ip_tracker" where
  "check_and_add username ip t =
     (let user_ips = (case active_ips t username of Some s \<Rightarrow> s | None \<Rightarrow> {||});
          entry = t\<lparr>active_ips := (active_ips t)(username \<mapsto> user_ips)\<rparr>;
          inserted = t\<lparr>active_ips := (active_ips t)(username \<mapsto> finsert ip user_ips)\<rparr>
      in case max_ips t username of
           None \<Rightarrow> (Inr (), inserted)
         | Some limit \<Rightarrow>
             if ip |\<in>| user_ips then (Inr (), entry)
             else if fcard user_ips \<ge> limit then (Inl (IpLimitReached username (fcard user_ips) limit), entry)
             else (Inr (), inserted))"

definition remove_ip :: "string \<Rightarrow> ip_addr \<Rightarrow> user_ip_tracker \<Rightarrow> user_ip_tracker" where
  "remove_ip username ip t =
     (case active_ips t username of
        None \<Rightarrow> t
      | Some user_ips \<Rightarrow>
          let user_ips = user_ips |-| {|ip|} in
          if user_ips = {||} then t\<lparr>active_ips := (active_ips t)(username := None)\<rparr>
          else t\<lparr>active_ips := (active_ips t)(username \<mapsto> user_ips)\<rparr>)"

definition get_active_ip_count :: "string \<Rightarrow> user_ip_tracker \<Rightarrow> nat" where
  "get_active_ip_count username t = (case active_ips t username of Some s \<Rightarrow> fcard s | None \<Rightarrow> 0)"

definition get_active_ips :: "string \<Rightarrow> user_ip_tracker \<Rightarrow> ip_addr fset" where
  "get_active_ips username t = (case active_ips t username of Some s \<Rightarrow> s | None \<Rightarrow> {||})"

definition clear_user_ips :: "string \<Rightarrow> user_ip_tracker \<Rightarrow> user_ip_tracker" where
  "clear_user_ips username t = t\<lparr>active_ips := (active_ips t)(username := None)\<rparr>"

definition clear_all :: "user_ip_tracker \<Rightarrow> user_ip_tracker" where
  "clear_all t = t\<lparr>active_ips := Map.empty\<rparr>"

definition is_ip_active :: "string \<Rightarrow> ip_addr \<Rightarrow> user_ip_tracker \<Rightarrow> bool" where
  "is_ip_active username ip t = (case active_ips t username of Some s \<Rightarrow> ip |\<in>| s | None \<Rightarrow> False)"

definition get_user_limit :: "string \<Rightarrow> user_ip_tracker \<Rightarrow> nat option" where
  "get_user_limit username t = max_ips t username"

subsection \<open>Per-user counters\<close>

record user_stats =
  connects :: u64
  curr_connects :: u64
  octets_from_client :: u64
  octets_to_client :: u64
  msgs_from_client :: u64
  msgs_to_client :: u64

definition user_stats_default :: user_stats where
  "user_stats_default = \<lparr>connects = 0, curr_connects = 0, octets_from_client = 0, octets_to_client = 0,
     msgs_from_client = 0, msgs_to_client = 0\<rparr>"

record stats =
  telemetry_user_enabled :: bool
  stats_users :: "string \<rightharpoonup> user_stats"

text \<open>\<open>entry(user).or_default()\<close> followed by an update, skipped when user telemetry is off.\<close>

definition bump_user :: "(user_stats \<Rightarrow> user_stats) \<Rightarrow> string \<Rightarrow> stats \<Rightarrow> stats" where
  "bump_user f user st =
     (if \<not> telemetry_user_enabled st then st
      else st\<lparr>stats_users := (stats_users st)(user \<mapsto>
        f (case stats_users st user of Some u \<Rightarrow> u | None \<Rightarrow> user_stats_default))\<rparr>)"

definition increment_user_connects :: "string \<Rightarrow> stats \<Rightarrow> stats" where
  "increment_user_connects = bump_user (\<lambda>u. u\<lparr>connects := connects u + 1\<rparr>)"

definition increment_user_curr_connects :: "string \<Rightarrow> stats \<Rightarrow> stats" where
  "increment_user_curr_connects = bump_user (\<lambda>u. u\<lparr>curr_connects := curr_connects u + 1\<rparr>)"

definition decrement_user_curr_connects :: "string \<Rightarrow> stats \<Rightarrow> stats" where
  "decrement_user_curr_connects user st =
     (case stats_users st user of
        None \<Rightarrow> st
      | Some u \<Rightarrow>
          if curr_connects u = 0 then st
          else st\<lparr>stats_users := (stats_users st)(user \<mapsto> u\<lparr>curr_connects := curr_connects u - 1\<rparr>)\<rparr>)"

definition get_user_curr_connects :: "string \<Rightarrow> stats \<Rightarrow> u64" where
  "get_user_curr_connects user st = (case stats_users st user of Some u \<Rightarrow> curr_connects u | None \<Rightarrow> 0)"

definition add_user_octets_from :: "u64 \<Rightarrow> string \<Rightarrow> stats \<Rightarrow> stats" where
  "add_user_octets_from n = bump_user (\<lambda>u. u\<lparr>octets_from_client := octets_from_client u + n\<rparr>)"

definition add_user_octets_to :: "u64 \<Rightarrow> string \<Rightarrow> stats \<Rightarrow> stats" where
  "add_user_octets_to n = bump_user (\<lambda>u. u\<lparr>octets_to_client := octets_to_client u + n\<rparr>)"

definition increment_user_msgs_from :: "string \<Rightarrow> stats \<Rightarrow> stats" where
  "increment_user_msgs_from = bump_user (\<lambda>u. u\<lparr>msgs_from_client := msgs_from_client u + 1\<rparr>)"

definition increment_user_msgs_to :: "string \<Rightarrow> stats \<Rightarrow> stats" where
  "increment_user_msgs_to = bump_user (\<lambda>u. u\<lparr>msgs_to_client := msgs_to_client u + 1\<rparr>)"

definition get_user_total_octets :: "string \<Rightarrow> stats \<Rightarrow> u64" where
  "get_user_total_octets user st =
     (case stats_users st user of Some u \<Rightarrow> octets_from_client u + octets_to_client u | None \<Rightarrow> 0)"

subsection \<open>Admission\<close>

record access_config =
  user_max_tcp_conns :: "string \<rightharpoonup> nat"
  user_expirations :: "string \<rightharpoonup> int"
  user_data_quota :: "string \<rightharpoonup> u64"

definition check_user_limits :: "string \<Rightarrow> access_config \<Rightarrow> stats \<Rightarrow> ip_addr \<Rightarrow> int \<Rightarrow> user_ip_tracker \<Rightarrow>
    (proxy_error + unit) \<times> user_ip_tracker" where
  "check_user_limits user cfg st ip now t =
     (if (case user_expirations cfg user of Some expiration \<Rightarrow> now > expiration | None \<Rightarrow> False) then
        (Inl (UserExpired user), t)
      else case check_and_add user ip t of
        (Inl reason, t) \<Rightarrow> (Inl (ConnectionLimitExceeded user), t)
      | (Inr _, t) \<Rightarrow>
          if (case user_max_tcp_conns cfg user of
                Some limit \<Rightarrow> get_user_curr_connects user st \<ge> word_of_nat limit | None \<Rightarrow> False) then
            (Inl (ConnectionLimitExceeded user), t)
          else if (case user_data_quota cfg user of
                     Some quota \<Rightarrow> get_user_total_octets user st \<ge> quota | None \<Rightarrow> False) then
            (Inl (DataQuotaExceeded user), t)
          else (Inr (), t))"

text \<open>\<open>handle_authenticated_static\<close>: an admitted client gets a guard whose drop removes its address; a
  rejected one returns before the guard exists. \<open>lim_live\<close> lists the sessions that hold a guard.\<close>

record limit_state =
  lim_tracker :: user_ip_tracker
  lim_live :: "(string \<times> ip_addr) list"

definition session_start :: "string \<Rightarrow> access_config \<Rightarrow> stats \<Rightarrow> ip_addr \<Rightarrow> int \<Rightarrow> limit_state \<Rightarrow>
    (proxy_error + unit) \<times> limit_state" where
  "session_start user cfg st ip now s =
     (case check_user_limits user cfg st ip now (lim_tracker s) of
        (Inl e, t) \<Rightarrow> (Inl e, s\<lparr>lim_tracker := t\<rparr>)
      | (Inr _, t) \<Rightarrow> (Inr (), s\<lparr>lim_tracker := t, lim_live := (user, ip) # lim_live s\<rparr>))"

definition session_end :: "string \<Rightarrow> ip_addr \<Rightarrow> limit_state \<Rightarrow> limit_state" where
  "session_end user ip s =
     s\<lparr>lim_tracker := remove_ip user ip (lim_tracker s), lim_live := remove1 (user, ip) (lim_live s)\<rparr>"

subsection \<open>The address limit\<close>

definition limits_hold :: "user_ip_tracker \<Rightarrow> bool" where
  "limits_hold t \<longleftrightarrow> (\<forall>u n. max_ips t u = Some n \<longrightarrow> get_active_ip_count u t \<le> n)"

lemma check_and_add_limits:
  assumes "limits_hold t" "check_and_add u ip t = (res, t')"
  shows "limits_hold t'" "max_ips t' = max_ips t"
proof -
  show "max_ips t' = max_ips t"
    using assms(2) by (auto simp: check_and_add_def Let_def split: option.splits if_splits)
  have "get_active_ip_count v t' \<le> n" if v: "max_ips t v = Some n" for v n
  proof (cases "v = u")
    case True
    have "get_active_ip_count u t \<le> n" using assms(1) v True by (simp add: limits_hold_def)
    then show ?thesis
      using assms(2) v True
      by (auto simp: check_and_add_def get_active_ip_count_def Let_def fcard_finsert_if fcard_fempty
          split: option.splits if_splits)
  next
    case False
    have "get_active_ip_count v t \<le> n" using assms(1) v by (simp add: limits_hold_def)
    then show ?thesis
      using assms(2) False by (auto simp: check_and_add_def get_active_ip_count_def Let_def split: option.splits if_splits)
  qed
  then show "limits_hold t'" using \<open>max_ips t' = max_ips t\<close> by (simp add: limits_hold_def)
qed

lemma remove_ip_limits:
  assumes "limits_hold t"
  shows "limits_hold (remove_ip u ip t)" "max_ips (remove_ip u ip t) = max_ips t"
proof -
  have c: "fcard s \<le> n \<Longrightarrow> fcard (s |-| {|ip|}) \<le> n" for s n
    using fcard_mono [of "s |-| {|ip|}" s] by (meson fminus_fsubset le_trans)
  show "max_ips (remove_ip u ip t) = max_ips t" by (simp add: remove_ip_def Let_def split: option.split)
  show "limits_hold (remove_ip u ip t)"
    using assms c
    by (auto simp: remove_ip_def limits_hold_def get_active_ip_count_def Let_def split: option.splits)
qed

datatype tracker_op = TrAdd string ip_addr | TrRemove string ip_addr | TrClearUser string | TrClearAll

fun tracker_exec :: "user_ip_tracker \<Rightarrow> tracker_op \<Rightarrow> user_ip_tracker" where
  "tracker_exec t (TrAdd u ip) = snd (check_and_add u ip t)"
| "tracker_exec t (TrRemove u ip) = remove_ip u ip t"
| "tracker_exec t (TrClearUser u) = clear_user_ips u t"
| "tracker_exec t TrClearAll = clear_all t"

lemma tracker_exec_limits:
  "limits_hold t \<Longrightarrow> limits_hold (tracker_exec t p) \<and> max_ips (tracker_exec t p) = max_ips t"
proof (cases p)
  case (TrAdd u ip)
  assume "limits_hold t"
  with TrAdd check_and_add_limits [of t u ip] show ?thesis by (cases "check_and_add u ip t") simp
next
  case (TrRemove u ip)
  then show "limits_hold t \<Longrightarrow> ?thesis" by (simp add: remove_ip_limits)
qed (auto simp: clear_user_ips_def clear_all_def limits_hold_def get_active_ip_count_def)

lemma tracker_run_limits:
  "limits_hold t \<Longrightarrow> limits_hold (foldl tracker_exec t ps) \<and> max_ips (foldl tracker_exec t ps) = max_ips t"
  by (induction ps arbitrary: t) (simp_all add: tracker_exec_limits)

lemma check_and_add_active:
  "check_and_add u ip t = (res, t') \<Longrightarrow>
     get_active_ips u t' = (if res = Inr () then finsert ip (get_active_ips u t) else get_active_ips u t) \<and>
     (v \<noteq> u \<longrightarrow> get_active_ips v t' = get_active_ips v t)"
  by (auto simp: check_and_add_def get_active_ips_def Let_def split: option.splits if_splits)

lemma check_and_add_accepts:
  "fst (check_and_add u ip t) = Inr () \<longleftrightarrow>
     (case max_ips t u of None \<Rightarrow> True
      | Some n \<Rightarrow> ip |\<in>| get_active_ips u t \<or> get_active_ip_count u t < n)"
  by (auto simp: check_and_add_def get_active_ips_def get_active_ip_count_def Let_def fcard_fempty split: option.splits)

text \<open>C27: The address limit: once limits are loaded, no sequence of connects, disconnects and clears makes
  the tracker record more addresses for a limited user than the limit; and in each state it reaches, a
  client is accepted exactly when the user has no limit, the address is already active, or there is
  room, an accepted address is recorded, and nothing else changes.\<close>

theorem ip_limit_respected:
  assumes "t = foldl tracker_exec (load_limits limits tracker_new) ps" and "check_and_add u ip t = (res, t')"
  shows "(\<forall>v n. limits v = Some n \<longrightarrow> get_active_ip_count v t' \<le> n) \<and>
    (res = Inr () \<longleftrightarrow> (case limits u of None \<Rightarrow> True | Some n \<Rightarrow> is_ip_active u ip t \<or> get_active_ip_count u t < n)) \<and>
    get_active_ips u t' = (if res = Inr () then finsert ip (get_active_ips u t) else get_active_ips u t) \<and>
    (\<forall>v. v \<noteq> u \<longrightarrow> get_active_ips v t' = get_active_ips v t)"
proof -
  have start: "limits_hold (load_limits limits tracker_new)" "max_ips (load_limits limits tracker_new) = limits"
    by (simp_all add: limits_hold_def load_limits_def tracker_new_def get_active_ip_count_def)
  have t: "limits_hold t" "max_ips t = limits"
    using tracker_run_limits [OF start(1), of ps] start(2) assms(1) by simp_all
  have act: "is_ip_active u ip t \<longleftrightarrow> ip |\<in>| get_active_ips u t"
    by (simp add: is_ip_active_def get_active_ips_def split: option.split)
  have "\<forall>v n. limits v = Some n \<longrightarrow> get_active_ip_count v t' \<le> n"
    using check_and_add_limits [OF t(1) assms(2)] t(2) by (simp add: limits_hold_def)
  moreover have "res = Inr () \<longleftrightarrow> (case limits u of None \<Rightarrow> True | Some n \<Rightarrow> is_ip_active u ip t \<or> get_active_ip_count u t < n)"
    using check_and_add_accepts [of u ip t] assms(2) t(2) unfolding act by simp
  ultimately show ?thesis using check_and_add_active [OF assms(2)] by blast
qed

theorem ip_limit_respected_witness:
  "get_active_ip_count ''u'' (snd (check_and_add ''u'' (IpV4 2)
     (foldl tracker_exec (load_limits [''u'' \<mapsto> 1] tracker_new) [TrAdd ''u'' (IpV4 1)]))) \<le> 1"
  using ip_limit_respected [OF refl surjective_pairing,
      where limits = "[''u'' \<mapsto> 1]" and ps = "[TrAdd ''u'' (IpV4 1)]" and u = "''u''" and ip = "IpV4 2"]
  by simp

text \<open>Removing an address leaves the other ones.\<close>

lemma remove_ip_active: "get_active_ips u (remove_ip u ip t) = get_active_ips u t |-| {|ip|}"
  by (auto simp: remove_ip_def get_active_ips_def Let_def split: option.split)

lemma remove_ip_max: "max_ips (remove_ip u ip t) = max_ips t"
  by (simp add: remove_ip_def Let_def split: option.split)

lemma check_and_add_max: "max_ips (snd (check_and_add u ip t)) = max_ips t"
  by (simp add: check_and_add_def Let_def split: option.split)

text \<open>Without other limits, admission is the tracker's decision.\<close>

lemma session_start_tracker:
  assumes "user_max_tcp_conns cfg u = None" "user_expirations cfg u = None" "user_data_quota cfg u = None"
  shows "session_start u cfg st ip now s =
    (case check_and_add u ip (lim_tracker s) of
       (Inl e, t) \<Rightarrow> (Inl (ConnectionLimitExceeded u), s\<lparr>lim_tracker := t\<rparr>)
     | (Inr _, t) \<Rightarrow> (Inr (), s\<lparr>lim_tracker := t, lim_live := (u, ip) # lim_live s\<rparr>))"
  using assms by (simp add: session_start_def check_user_limits_def split: prod.split sum.split)

text \<open>The limit counts addresses of the tracker, not of sessions: the tracker keeps no count of the
  sessions behind an address, so when two sessions of a user share an address and one ends, the address
  is forgotten although the other session goes on, and a client with a new address is admitted: a user
  limited to one address is then connected from two.\<close>

theorem shared_ip_exceeds_limit:
  assumes "ip1 \<noteq> ip2" and "max_ips (lim_tracker s) u = Some 1" "get_active_ips u (lim_tracker s) = {||}"
    and "user_max_tcp_conns cfg u = None" "user_expirations cfg u = None" "user_data_quota cfg u = None"
    and "session_start u cfg st ip1 now s = (r1, s1)" "session_start u cfg st ip1 now s1 = (r2, s2)"
    and "session_start u cfg st ip2 now (session_end u ip1 s2) = (r3, s3)"
  shows "r1 = Inr () \<and> r2 = Inr () \<and> r3 = Inr () \<and> (u, ip1) \<in> set (lim_live s3) \<and> (u, ip2) \<in> set (lim_live s3)"
proof -
  note st = session_start_tracker [OF assms(4-6)]
  have acc: "fst (check_and_add u ip t) = Inr ()"
    if "max_ips t u = Some 1" "get_active_ips u t |\<subseteq>| {|ip|}" for ip t
  proof -
    have "get_active_ip_count u t = fcard (get_active_ips u t)"
      by (simp add: get_active_ip_count_def get_active_ips_def split: option.split)
    moreover have "get_active_ips u t = {||} \<or> get_active_ips u t = {|ip|}" using that(2) by auto
    ultimately show ?thesis using that(1) by (auto simp: check_and_add_accepts)
  qed
  have add: "get_active_ips u (snd (check_and_add u ip t)) = finsert ip (get_active_ips u t)"
    if "fst (check_and_add u ip t) = Inr ()" for ip t
    using check_and_add_active [of u ip t "Inr ()" "snd (check_and_add u ip t)"] that by (metis prod.collapse)
  let ?t1 = "snd (check_and_add u ip1 (lim_tracker s))"
  have a1: "fst (check_and_add u ip1 (lim_tracker s)) = Inr ()" using acc assms(2,3) by simp
  have s1: "r1 = Inr ()" "s1 = s\<lparr>lim_tracker := ?t1, lim_live := (u, ip1) # lim_live s\<rparr>"
    using a1 assms(7) unfolding st by (auto split: prod.splits sum.splits)
  have t1: "get_active_ips u ?t1 = {|ip1|}" "max_ips ?t1 u = Some 1" using add [OF a1] assms(2,3) check_and_add_max by simp_all
  let ?t2 = "snd (check_and_add u ip1 ?t1)"
  have a2: "fst (check_and_add u ip1 ?t1) = Inr ()" using acc t1 by simp
  have s2: "r2 = Inr ()" "s2 = s1\<lparr>lim_tracker := ?t2, lim_live := (u, ip1) # lim_live s1\<rparr>"
    using a2 assms(8) s1(2) unfolding st by (auto split: prod.splits sum.splits)
  let ?t3 = "remove_ip u ip1 ?t2"
  have "get_active_ips u ?t3 = {||}" "max_ips ?t3 u = Some 1"
    using add [OF a2] t1 check_and_add_max remove_ip_max by (simp_all add: remove_ip_active)
  then have a3: "fst (check_and_add u ip2 ?t3) = Inr ()" using acc by simp
  have "lim_tracker (session_end u ip1 s2) = ?t3" "lim_live (session_end u ip1 s2) = (u, ip1) # lim_live s"
    using s1(2) s2(2) by (simp_all add: session_end_def)
  then have "r3 = Inr ()" "lim_live s3 = (u, ip2) # (u, ip1) # lim_live s"
    using a3 assms(9) unfolding st by (auto split: prod.splits sum.splits)
  then show ?thesis using s1(1) s2(1) by simp
qed

text \<open>A client that is rejected by the connection limit or the quota has already been recorded by the
  address tracker, and no guard removes it: the rejected address stays active and uses up the limit.\<close>

theorem rejected_client_keeps_ip:
  assumes "session_start u cfg st ip now s = (Inl e, s')" "e \<noteq> UserExpired u"
    and "fst (check_and_add u ip (lim_tracker s)) = Inr ()"
  shows "is_ip_active u ip (lim_tracker s') \<and> lim_live s' = lim_live s"
proof -
  let ?c = "check_and_add u ip (lim_tracker s)"
  have c: "?c = (Inr (), snd ?c)" using assms(3) by (metis prod.collapse)
  have s': "s' = s\<lparr>lim_tracker := snd ?c\<rparr>"
    using assms by (auto simp: session_start_def check_user_limits_def split: prod.splits sum.splits if_splits option.splits)
  have "ip |\<in>| get_active_ips u (snd ?c)" using check_and_add_active [OF c] by simp
  then show ?thesis using s' by (auto simp: is_ip_active_def get_active_ips_def split: option.splits)
qed

theorem rejected_client_keeps_ip_witness:
  "\<exists>s'. session_start ''u'' \<lparr>user_max_tcp_conns = Map.empty, user_expirations = Map.empty, user_data_quota = [''u'' \<mapsto> 0]\<rparr>
      \<lparr>telemetry_user_enabled = True, stats_users = Map.empty\<rparr> (IpV4 1) 0 \<lparr>lim_tracker = tracker_new, lim_live = []\<rparr> =
      (Inl (DataQuotaExceeded ''u''), s') \<and> is_ip_active ''u'' (IpV4 1) (lim_tracker s') \<and> lim_live s' = []"
proof -
  let ?cfg = "\<lparr>user_max_tcp_conns = Map.empty, user_expirations = Map.empty, user_data_quota = [''u'' \<mapsto> 0]\<rparr>"
  let ?st = "\<lparr>telemetry_user_enabled = True, stats_users = Map.empty\<rparr>"
  let ?s = "\<lparr>lim_tracker = tracker_new, lim_live = []\<rparr>"
  have c: "fst (check_and_add ''u'' (IpV4 1) (lim_tracker ?s)) = Inr ()" by (simp add: check_and_add_def tracker_new_def)
  obtain s' where r: "session_start ''u'' ?cfg ?st (IpV4 1) 0 ?s = (Inl (DataQuotaExceeded ''u''), s')"
    by (simp add: session_start_def check_user_limits_def check_and_add_def tracker_new_def get_user_total_octets_def)
  from rejected_client_keeps_ip [OF r _ c] r show ?thesis by auto
qed

theorem shared_ip_exceeds_limit_witness:
  "\<exists>r3 s3. (''u'', IpV4 1) \<in> set (lim_live s3) \<and> (''u'', IpV4 2) \<in> set (lim_live s3) \<and> r3 = Inr () \<and>
     (\<exists>s2. session_start ''u'' \<lparr>user_max_tcp_conns = Map.empty, user_expirations = Map.empty, user_data_quota = Map.empty\<rparr>
       \<lparr>telemetry_user_enabled = True, stats_users = Map.empty\<rparr> (IpV4 2) 0 (session_end ''u'' (IpV4 1) s2) = (r3, s3))"
proof -
  let ?cfg = "\<lparr>user_max_tcp_conns = Map.empty, user_expirations = Map.empty, user_data_quota = Map.empty\<rparr>"
  let ?st = "\<lparr>telemetry_user_enabled = True, stats_users = Map.empty\<rparr>"
  let ?s = "\<lparr>lim_tracker = set_user_limit ''u'' 1 tracker_new, lim_live = []\<rparr>"
  obtain r1 s1 where 1: "session_start ''u'' ?cfg ?st (IpV4 1) 0 ?s = (r1, s1)" by fastforce
  obtain r2 s2 where 2: "session_start ''u'' ?cfg ?st (IpV4 1) 0 s1 = (r2, s2)" by fastforce
  obtain r3 s3 where 3: "session_start ''u'' ?cfg ?st (IpV4 2) 0 (session_end ''u'' (IpV4 1) s2) = (r3, s3)" by fastforce
  have "r1 = Inr () \<and> r2 = Inr () \<and> r3 = Inr () \<and> (''u'', IpV4 1) \<in> set (lim_live s3) \<and> (''u'', IpV4 2) \<in> set (lim_live s3)"
    by (rule shared_ip_exceeds_limit [OF _ _ _ _ _ _ 1 2 3])
      (simp_all add: set_user_limit_def tracker_new_def get_active_ips_def)
  then show ?thesis using 3 by blast
qed

text \<open>Quotas and connection limits are checked against telemetry counters: with user telemetry off every
  update is skipped, so the counters stay zero and neither limit ever rejects a client.\<close>

lemma limits_need_telemetry:
  assumes "\<not> telemetry_user_enabled st"
  shows "increment_user_connects u st = st" "increment_user_curr_connects u st = st"
    "add_user_octets_from n u st = st" "add_user_octets_to n u st = st"
    "increment_user_msgs_from u st = st" "increment_user_msgs_to u st = st"
  using assms
  by (simp_all add: increment_user_connects_def increment_user_curr_connects_def add_user_octets_from_def
      add_user_octets_to_def increment_user_msgs_from_def increment_user_msgs_to_def bump_user_def)

end
