(* ===== verification/Obfuscation.thy ===== *)
theory Obfuscation
  imports Constants Crypto_Stream
begin

section \<open>MTProto obfuscation (\<open>protocol/obfuscation.rs\<close>, Telegram nonces of \<open>proxy/handshake.rs\<close>)\<close>

text \<open>
  The 64-byte obfuscated handshake: key material in bytes 8 to 55, protocol tag and datacenter index
  encrypted in bytes 56 to 61. The first half reads a client's handshake against the user secrets, the
  second builds the handshake the proxy sends to a datacenter. SHA-256 and the AES-CTR keystream are
  arguments; what a client or a datacenter does with the bytes is written as a specification.
\<close>

subsection \<open>Reading a client handshake\<close>

record obfuscation_params =
  op_decrypt_key :: bytes
  op_decrypt_iv :: u128
  op_encrypt_key :: bytes
  op_encrypt_iv :: u128
  op_proto_tag :: proto_tag
  op_dc_idx :: u16

primrec from_handshake :: "(bytes \<Rightarrow> bytes) \<Rightarrow> ctr_cipher \<Rightarrow> bytes \<Rightarrow> (string \<times> bytes) list \<Rightarrow>
    (obfuscation_params \<times> string) option" where
  "from_handshake sha256 ks handshake [] = None"
| "from_handshake sha256 ks handshake (us # secrets) =
     (let dec_prekey_iv = subslice handshake SKIP_LEN (SKIP_LEN + PREKEY_LEN + IV_LEN);
          dec_prekey = take PREKEY_LEN dec_prekey_iv;
          dec_iv_bytes = drop PREKEY_LEN dec_prekey_iv;
          enc_prekey_iv = rev dec_prekey_iv;
          enc_prekey = take PREKEY_LEN enc_prekey_iv;
          enc_iv_bytes = drop PREKEY_LEN enc_prekey_iv;
          username = fst us; secret = snd us;
          decrypt_key = sha256 (dec_prekey @ secret);
          decrypt_iv = u128_from_be_bytes dec_iv_bytes;
          decrypted = fst (aes_ctr_decrypt (aes_ctr_new ks decrypt_key decrypt_iv) handshake)
      in case proto_tag_from_bytes (subslice decrypted PROTO_TAG_POS (PROTO_TAG_POS + 4)) of
           None \<Rightarrow> from_handshake sha256 ks handshake secrets
         | Some tag \<Rightarrow>
             Some (\<lparr>op_decrypt_key = decrypt_key, op_decrypt_iv = decrypt_iv,
                    op_encrypt_key = sha256 (enc_prekey @ secret),
                    op_encrypt_iv = u128_from_be_bytes enc_iv_bytes,
                    op_proto_tag = tag,
                    op_dc_idx = u16_from_le_bytes (subslice decrypted DC_IDX_POS (DC_IDX_POS + 2))\<rparr>, username))"

definition create_decryptor :: "ctr_cipher \<Rightarrow> obfuscation_params \<Rightarrow> aes_ctr" where
  "create_decryptor ks p = aes_ctr_new ks (op_decrypt_key p) (op_decrypt_iv p)"

definition create_encryptor :: "ctr_cipher \<Rightarrow> obfuscation_params \<Rightarrow> aes_ctr" where
  "create_encryptor ks p = aes_ctr_new ks (op_encrypt_key p) (op_encrypt_iv p)"

definition enc_key_iv :: "obfuscation_params \<Rightarrow> bytes" where
  "enc_key_iv p = op_encrypt_key p @ u128_to_be_bytes (op_encrypt_iv p)"

subsection \<open>Nonces\<close>

definition is_valid_nonce :: "bytes \<Rightarrow> bool" where
  "is_valid_nonce nonce \<longleftrightarrow>
     nonce ! 0 \<notin> set RESERVED_NONCE_FIRST_BYTES \<and>
     take 4 nonce \<notin> set RESERVED_NONCE_BEGINNINGS \<and>
     subslice nonce 4 8 \<notin> set RESERVED_NONCE_CONTINUES"

text \<open>The loops draw until a nonce is valid; they may not end, so they carry fuel: \<open>None\<close> means that
  none of the first \<open>fuel\<close> draws is valid. \<open>random_bytes\<close> is the caller's stateful closure.\<close>

primrec generate_nonce :: "nat \<Rightarrow> ('g \<Rightarrow> nat \<Rightarrow> bytes \<times> 'g) \<Rightarrow> 'g \<Rightarrow> (bytes \<times> 'g) option" where
  "generate_nonce 0 random_bytes g = None"
| "generate_nonce (Suc fuel) random_bytes g =
     (case random_bytes g HANDSHAKE_LEN of (nonce, g) \<Rightarrow>
        if is_valid_nonce nonce then Some (nonce, g) else generate_nonce fuel random_bytes g)"

definition prepare_tg_nonce :: "bytes \<Rightarrow> proto_tag \<Rightarrow> bytes option \<Rightarrow> bytes" where
  "prepare_tg_nonce nonce tag key_iv =
     (let nonce = put nonce PROTO_TAG_POS (proto_tag_to_bytes tag) in
      case key_iv of None \<Rightarrow> nonce | Some kiv \<Rightarrow> put nonce SKIP_LEN (rev kiv))"

text \<open>The deprecated helper; it derives the key by hashing and takes the IV from the head.\<close>

definition encrypt_nonce :: "(bytes \<Rightarrow> bytes) \<Rightarrow> ctr_cipher \<Rightarrow> bytes \<Rightarrow> bytes" where
  "encrypt_nonce sha256 ks nonce =
     (let key_iv = subslice nonce SKIP_LEN (SKIP_LEN + KEY_LEN + IV_LEN);
          enc_key = sha256 key_iv;
          enc_iv = u128_from_be_bytes (take IV_LEN key_iv)
      in put nonce PROTO_TAG_POS (fst (aes_ctr_encrypt (aes_ctr_new ks enc_key enc_iv) (drop PROTO_TAG_POS nonce))))"

record tg_keys =
  tg_enc_key :: bytes
  tg_enc_iv :: u128
  tg_dec_key :: bytes
  tg_dec_iv :: u128

text \<open>The part of \<open>generate_tg_nonce\<close> after a nonce has been drawn.\<close>

definition finish_tg_nonce :: "proto_tag \<Rightarrow> u16 \<Rightarrow> bytes \<Rightarrow> u128 \<Rightarrow> bool \<Rightarrow> bytes \<Rightarrow> bytes \<times> tg_keys" where
  "finish_tg_nonce tag dc_idx client_enc_key client_enc_iv fast_mode nonce =
     (let nonce = put nonce PROTO_TAG_POS (proto_tag_to_bytes tag);
          nonce = put nonce DC_IDX_POS (u16_to_le_bytes dc_idx);
          nonce = (if fast_mode then put nonce SKIP_LEN (rev (client_enc_key @ u128_to_be_bytes client_enc_iv)) else nonce);
          enc_key_iv = subslice nonce SKIP_LEN (SKIP_LEN + KEY_LEN + IV_LEN);
          dec_key_iv = rev enc_key_iv
      in (nonce,
          \<lparr>tg_enc_key = take KEY_LEN enc_key_iv, tg_enc_iv = u128_from_be_bytes (drop KEY_LEN enc_key_iv),
           tg_dec_key = take KEY_LEN dec_key_iv, tg_dec_iv = u128_from_be_bytes (drop KEY_LEN dec_key_iv)\<rparr>))"

primrec generate_tg_nonce :: "nat \<Rightarrow> 'r std_rng \<Rightarrow> proto_tag \<Rightarrow> u16 \<Rightarrow> bytes \<Rightarrow> u128 \<Rightarrow> bool \<Rightarrow> 'r secure_random \<Rightarrow>
    ((bytes \<times> tg_keys) \<times> 'r secure_random) option" where
  "generate_tg_nonce 0 R tag dc_idx client_enc_key client_enc_iv fast_mode rng = None"
| "generate_tg_nonce (Suc fuel) R tag dc_idx client_enc_key client_enc_iv fast_mode rng =
     (case sr_bytes R rng HANDSHAKE_LEN of (nonce, rng) \<Rightarrow>
        if nonce ! 0 \<in> set RESERVED_NONCE_FIRST_BYTES
          \<or> take 4 nonce \<in> set RESERVED_NONCE_BEGINNINGS
          \<or> subslice nonce 4 8 \<in> set RESERVED_NONCE_CONTINUES
        then generate_tg_nonce fuel R tag dc_idx client_enc_key client_enc_iv fast_mode rng
        else Some (finish_tg_nonce tag dc_idx client_enc_key client_enc_iv fast_mode nonce, rng))"

definition encrypt_tg_nonce_with_ciphers :: "ctr_cipher \<Rightarrow> bytes \<Rightarrow> bytes \<times> aes_ctr \<times> aes_ctr" where
  "encrypt_tg_nonce_with_ciphers ks nonce =
     (let enc_key_iv = subslice nonce SKIP_LEN (SKIP_LEN + KEY_LEN + IV_LEN);
          dec_key_iv = rev enc_key_iv;
          enc_key = take KEY_LEN enc_key_iv;
          enc_iv = u128_from_be_bytes (drop KEY_LEN enc_key_iv);
          dec_key = take KEY_LEN dec_key_iv;
          dec_iv = u128_from_be_bytes (drop KEY_LEN dec_key_iv);
          (encrypted_full, encryptor) = aes_ctr_encrypt (aes_ctr_new ks enc_key enc_iv) nonce;
          result = take PROTO_TAG_POS nonce @ drop PROTO_TAG_POS encrypted_full
      in (result, encryptor, aes_ctr_new ks dec_key dec_iv))"

definition encrypt_tg_nonce :: "ctr_cipher \<Rightarrow> bytes \<Rightarrow> bytes" where
  "encrypt_tg_nonce ks nonce = fst (encrypt_tg_nonce_with_ciphers ks nonce)"

subsection \<open>The other ends\<close>

text \<open>What a client sends for a nonce that carries its tag and datacenter, and the cipher it goes on with.\<close>

definition carries :: "bytes \<Rightarrow> proto_tag \<Rightarrow> u16 \<Rightarrow> bool" where
  "carries n tag dc \<longleftrightarrow> length n = HANDSHAKE_LEN \<and> subslice n 56 60 = proto_tag_to_bytes tag \<and>
     subslice n 60 62 = u16_to_le_bytes dc"

definition client_cipher :: "(bytes \<Rightarrow> bytes) \<Rightarrow> ctr_cipher \<Rightarrow> bytes \<Rightarrow> bytes \<Rightarrow> aes_ctr" where
  "client_cipher sha256 ks secret n =
     aes_ctr_new ks (sha256 (subslice n 8 40 @ secret)) (u128_from_be_bytes (subslice n 40 56))"

definition client_hello :: "(bytes \<Rightarrow> bytes) \<Rightarrow> ctr_cipher \<Rightarrow> bytes \<Rightarrow> bytes \<Rightarrow> bytes" where
  "client_hello sha256 ks secret n = take 56 n @ drop 56 (ctr_of (client_cipher sha256 ks secret n) n)"

text \<open>What a datacenter makes of the 64 bytes: it decrypts them all with the key and IV found in them,
  keeps that cipher for reading and uses the reversed material for writing.\<close>

definition dc_read :: "ctr_cipher \<Rightarrow> bytes \<Rightarrow> (proto_tag option \<times> u16) \<times> aes_ctr \<times> aes_ctr" where
  "dc_read ks h =
     (let c = aes_ctr_new ks (subslice h 8 40) (u128_from_be_bytes (subslice h 40 56));
          p = ctr_of c h; back = rev (subslice h 8 56)
      in ((proto_tag_from_bytes (subslice p 56 60), u16_from_le_bytes (subslice p 60 62)),
          ctr_after c h, aes_ctr_new ks (take 32 back) (u128_from_be_bytes (drop 32 back))))"

subsection \<open>Lemmas\<close>

lemma ctr_tail:
  assumes "k \<le> length n"
  shows "drop k (ctr_of c (take k n @ drop k (ctr_of c n))) = drop k n"
proof -
  have "ctr_of c n = ctr_of c (take k n) @ ctr_of (ctr_after c (take k n)) (drop k n)"
    by (metis append_take_drop_id ctr_of_append)
  then have "drop k (ctr_of c n) = ctr_of (ctr_after c (take k n)) (drop k n)" using assms by simp
  then show ?thesis using assms by (simp add: ctr_of_append)
qed

lemma subslice_drop: "k \<le> i \<Longrightarrow> subslice (drop k xs) (i - k) (j - k) = subslice xs i j"
  by (simp add: subslice_def)

lemma subslice_tail: "k \<le> i \<Longrightarrow> drop k xs = drop k ys \<Longrightarrow> subslice xs i j = subslice ys i j"
  using subslice_drop [of k i xs j] subslice_drop [of k i ys j] by simp

lemma subslice_take: "j \<le> k \<Longrightarrow> k \<le> length xs \<Longrightarrow> subslice (take k xs @ ys) i j = subslice xs i j"
  by (cases "i \<le> j") (auto simp: subslice_def take_drop min_def)

lemma key_material:
  "take 32 (subslice n 8 56) = subslice n 8 40" "drop 32 (subslice n 8 56) = subslice n 40 56"
  by (simp add: subslice_def) (simp add: subslice_def drop_take)

lemma hello_material:
  assumes "length n = 64"
  shows "subslice (client_hello sha256 ks secret n) 8 56 = subslice n 8 56" "length (client_hello sha256 ks secret n) = 64"
  using assms by (simp_all add: client_hello_def subslice_take)

lemma proto_tag_bytes: "proto_tag_from_bytes (proto_tag_to_bytes t) = Some t"
  by (cases t) (simp_all add: proto_tag_from_bytes_def proto_tag_to_bytes_def)

text \<open>The decrypted handshake shows the tag and the datacenter of the nonce.\<close>

lemma hello_decrypts:
  assumes "carries n tag dc"
  shows "proto_tag_from_bytes (subslice (ctr_of (client_cipher sha256 ks secret n) (client_hello sha256 ks secret n)) 56 60) = Some tag"
    "u16_from_le_bytes (subslice (ctr_of (client_cipher sha256 ks secret n) (client_hello sha256 ks secret n)) 60 62) = dc"
proof -
  let ?d = "ctr_of (client_cipher sha256 ks secret n) (client_hello sha256 ks secret n)"
  have "drop 56 ?d = drop 56 n"
    using assms ctr_tail [of 56 n] by (simp add: client_hello_def carries_def HANDSHAKE_LEN_def)
  then have "subslice ?d 56 60 = subslice n 56 60" "subslice ?d 60 62 = subslice n 60 62"
    by (rule subslice_tail [of 56, rotated]; simp)+
  then show "proto_tag_from_bytes (subslice ?d 56 60) = Some tag" "u16_from_le_bytes (subslice ?d 60 62) = dc"
    using assms by (simp_all add: carries_def proto_tag_bytes)
qed

text \<open>Whether a secret opens a handshake, and the parameters it gives.\<close>

definition opens :: "(bytes \<Rightarrow> bytes) \<Rightarrow> ctr_cipher \<Rightarrow> bytes \<Rightarrow> bytes \<Rightarrow> proto_tag option" where
  "opens sha256 ks h secret =
     proto_tag_from_bytes (subslice (ctr_of (client_cipher sha256 ks secret h) h) 56 60)"

definition params_of :: "(bytes \<Rightarrow> bytes) \<Rightarrow> ctr_cipher \<Rightarrow> bytes \<Rightarrow> bytes \<Rightarrow> proto_tag \<Rightarrow> obfuscation_params" where
  "params_of sha256 ks h secret tag =
     \<lparr>op_decrypt_key = sha256 (subslice h 8 40 @ secret), op_decrypt_iv = u128_from_be_bytes (subslice h 40 56),
      op_encrypt_key = sha256 (take 32 (rev (subslice h 8 56)) @ secret),
      op_encrypt_iv = u128_from_be_bytes (drop 32 (rev (subslice h 8 56))),
      op_proto_tag = tag,
      op_dc_idx = u16_from_le_bytes (subslice (ctr_of (client_cipher sha256 ks secret h) h) 60 62)\<rparr>"

lemma from_handshake_Cons:
  "from_handshake sha256 ks h (us # secrets) =
     (case opens sha256 ks h (snd us) of
        None \<Rightarrow> from_handshake sha256 ks h secrets
      | Some tag \<Rightarrow> Some (params_of sha256 ks h (snd us) tag, fst us))"
  by (simp add: opens_def params_of_def client_cipher_def layout_defs key_material aes_ctr_decrypt_def aes_ctr_encrypt_def
      ctr_of_def Let_def split: option.split)

text \<open>The first secret that opens the handshake decides.\<close>

lemma from_handshake_first:
  "from_handshake sha256 ks h secrets =
     (case dropWhile (\<lambda>us. opens sha256 ks h (snd us) = None) secrets of
        [] \<Rightarrow> None
      | us # _ \<Rightarrow> Some (params_of sha256 ks h (snd us) (the (opens sha256 ks h (snd us))), fst us))"
  by (induction secrets) (auto simp del: from_handshake.simps(2) simp: from_handshake_Cons split: option.split)

subsection \<open>The nonce sent to a datacenter\<close>

lemma subslice_put_disjoint:
  assumes "i + length ys \<le> length xs" "j \<le> i \<or> i + length ys \<le> a"
  shows "subslice (put xs i ys) a j = subslice xs a j"
proof (cases "j \<le> i")
  case True
  then show ?thesis using assms by (simp add: put_def subslice_take)
next
  case False
  then have "drop (i + length ys) (put xs i ys) = drop (i + length ys) xs" using assms(1) by (simp add: put_def)
  then show ?thesis using False assms subslice_tail [of "i + length ys" a "put xs i ys" xs j] by simp
qed

text \<open>Fields of a nonce after tag, datacenter and, in fast mode, the client's key material are written.\<close>

lemma finish_tg_nonce_fields:
  fixes nonce :: bytes
  assumes len: "length nonce = 64" "length k = 32" and f: "finish_tg_nonce tag dc k iv fast nonce = (n, keys)"
  shows "carries n tag dc" "take 8 n = take 8 nonce"
    "fast \<Longrightarrow> subslice n 8 56 = rev (k @ u128_to_be_bytes iv)"
proof -
  define n1 where "n1 = put nonce 56 (proto_tag_to_bytes tag)"
  define n2 where "n2 = put n1 60 (u16_to_le_bytes dc)"
  have lt: "length (proto_tag_to_bytes tag) = 4" by (simp add: proto_tag_to_bytes_def)
  have l1: "length n1 = 64" using len(1) lt by (simp add: n1_def)
  have l2: "length n2 = 64" using l1 by (simp add: n2_def)
  have n: "n = (if fast then put n2 8 (rev (k @ u128_to_be_bytes iv)) else n2)"
    using arg_cong [OF f, of fst] by (cases fast) (simp_all add: finish_tg_nonce_def Let_def layout_defs n1_def n2_def)
  have t: "subslice n2 56 60 = proto_tag_to_bytes tag"
    using subslice_put_disjoint [of 60 "u16_to_le_bytes dc" n1 60 56] subslice_put_same [of 56 "proto_tag_to_bytes tag" nonce] l1 lt len(1)
    by (simp add: n1_def n2_def)
  have d: "subslice n2 60 62 = u16_to_le_bytes dc"
    using subslice_put_same [of 60 "u16_to_le_bytes dc" n1] l1 by (simp add: n2_def)
  have h: "take 8 n2 = take 8 nonce" using len(1) l1 lt by (simp add: n1_def n2_def put_def)
  have lr: "length (rev (k @ u128_to_be_bytes iv)) = 48" using len(2) by simp
  have "subslice n a b = subslice n2 a b" if "56 \<le> a" for a b
    using n l2 lr that subslice_put_disjoint [of 8 "rev (k @ u128_to_be_bytes iv)" n2 b a] by simp
  moreover have "length n = 64" using n l2 lr by simp
  ultimately show "carries n tag dc" using t d by (simp add: carries_def HANDSHAKE_LEN_def)
  show "take 8 n = take 8 nonce" using n h l2 len(1) by (simp add: put_def)
  show "fast \<Longrightarrow> subslice n 8 56 = rev (k @ u128_to_be_bytes iv)"
    using n l2 lr subslice_put_same [of 8 "rev (k @ u128_to_be_bytes iv)" n2] by simp
qed

lemma generate_tg_nonce_draw:
  "generate_tg_nonce fuel R tag dc k iv fast rng = Some (res, rng') \<Longrightarrow>
    \<exists>nonce. length nonce = 64 \<and> is_valid_nonce nonce \<and> res = finish_tg_nonce tag dc k iv fast nonce"
proof (induction fuel arbitrary: rng)
  case (Suc fuel)
  obtain nonce g where d: "sr_bytes R rng HANDSHAKE_LEN = (nonce, g)" by fastforce
  then have "length nonce = 64"
    using length_sr_fill [of R rng HANDSHAKE_LEN] by (simp add: sr_bytes_def HANDSHAKE_LEN_def)
  then show ?case
    using Suc.IH [of g] Suc.prems d by (cases "is_valid_nonce nonce") (auto simp: is_valid_nonce_def split: if_splits)
qed simp

text \<open>Reserved patterns only concern the first eight bytes.\<close>

lemma is_valid_nonce_head:
  assumes "take 8 n = take 8 m" "8 \<le> length n" "8 \<le> length m"
  shows "is_valid_nonce n = is_valid_nonce m"
proof -
  have "n ! 0 = take 8 n ! 0" "m ! 0 = take 8 m ! 0" "take 4 n = take 4 (take 8 n)" "take 4 m = take 4 (take 8 m)"
    "subslice n 4 8 = drop 4 (take 8 n)" "subslice m 4 8 = drop 4 (take 8 m)"
    by (simp_all add: subslice_def drop_take)
  then show ?thesis using assms(1) unfolding is_valid_nonce_def by presburger
qed

text \<open>The handshake to a datacenter works: the bytes the proxy sends are 64 bytes that match no
  reserved pattern; a datacenter that reads key and IV from them recovers the protocol tag and the
  datacenter index, decrypts with exactly the cipher state the proxy encrypts with from then on, and
  encrypts with the cipher the proxy decrypts with. In fast mode that last cipher is the one
  the client's own traffic is encrypted with, so answers can be passed through unchanged.\<close>

lemma tg_nonce_roundtrip:
  assumes "generate_tg_nonce fuel R tag dc client_enc_key client_enc_iv fast rng = Some ((nonce, keys), rng')"
    and "length client_enc_key = 32"
    and "encrypt_tg_nonce_with_ciphers ks nonce = (h, encryptor, decryptor)"
  shows "length h = HANDSHAKE_LEN \<and> is_valid_nonce h \<and>
    dc_read ks h = ((Some tag, dc), encryptor, decryptor) \<and>
    decryptor = aes_ctr_new ks (tg_dec_key keys) (tg_dec_iv keys) \<and>
    (fast \<longrightarrow> decryptor = aes_ctr_new ks client_enc_key client_enc_iv)"
proof -
  obtain n0 where n0: "length n0 = 64" "is_valid_nonce n0"
      "finish_tg_nonce tag dc client_enc_key client_enc_iv fast n0 = (nonce, keys)"
    using generate_tg_nonce_draw [OF assms(1)] by metis
  note F = finish_tg_nonce_fields [OF n0(1) assms(2) n0(3)]
  have len: "length nonce = 64" using F(1) by (simp add: carries_def HANDSHAKE_LEN_def)
  let ?c = "aes_ctr_new ks (subslice nonce 8 40) (u128_from_be_bytes (subslice nonce 40 56))"
  let ?b = "rev (subslice nonce 8 56)"
  have h: "h = take 56 nonce @ drop 56 (ctr_of ?c nonce)" "encryptor = ctr_after ?c nonce"
    "decryptor = aes_ctr_new ks (take 32 ?b) (u128_from_be_bytes (drop 32 ?b))"
    using assms(3) by (auto simp: encrypt_tg_nonce_with_ciphers_def layout_defs key_material Let_def
        aes_ctr_encrypt_def aes_ctr_apply_eq)
  have lh: "length h = 64" using h(1) len by simp
  have mat: "subslice h 8 40 = subslice nonce 8 40" "subslice h 40 56 = subslice nonce 40 56"
      "subslice h 8 56 = subslice nonce 8 56"
    using len by (simp_all add: h(1) subslice_take)
  have "drop 56 (ctr_of ?c h) = drop 56 nonce" using ctr_tail [of 56 nonce ?c] len h(1) by simp
  then have "subslice (ctr_of ?c h) 56 60 = subslice nonce 56 60" "subslice (ctr_of ?c h) 60 62 = subslice nonce 60 62"
    by (rule subslice_tail [of 56, rotated]; simp)+
  then have dc: "dc_read ks h = ((Some tag, dc), encryptor, decryptor)"
    using F(1) h(2,3) len lh ctr_after_length [of h nonce ?c] by (simp add: dc_read_def Let_def mat carries_def proto_tag_bytes)
  have "take 8 h = take 8 n0" using F(2) h(1) len by simp
  then have "is_valid_nonce h" using is_valid_nonce_head [of h n0] lh n0 by simp
  moreover have "tg_dec_key keys = take 32 ?b \<and> tg_dec_iv keys = u128_from_be_bytes (drop 32 ?b)"
    using n0(3) by (auto simp: finish_tg_nonce_def Let_def layout_defs)
  moreover have "fast \<longrightarrow> decryptor = aes_ctr_new ks client_enc_key client_enc_iv"
    using F(3) h(3) assms(2) by simp
  ultimately show ?thesis using dc lh h(3) by (simp add: HANDSHAKE_LEN_def)
qed

text \<open>The source that draws \<open>0x42\<close> for ever, for witnesses: its first draw is a valid nonce.\<close>

definition const_rng :: "unit std_rng" where
  "const_rng = \<lparr>fill_bytes = (\<lambda>u n. (\<lambda>i. 0x42, u)), gen_range = (\<lambda>u n. (0, u))\<rparr>"

definition const_sr :: "unit secure_random" where
  "const_sr = \<lparr>sr_rng = (), sr_cipher = \<lparr>keystream = (\<lambda>n. 0), ctr_pos = 0\<rparr>, sr_buffer = replicate 64 0x42\<rparr>"

lemma const_draw: "fst (sr_bytes const_rng const_sr HANDSHAKE_LEN) = replicate 64 0x42"
  by (simp add: sr_bytes_def HANDSHAKE_LEN_def sr_fill.simps [of _ _ 64] sr_fill.simps [of _ _ 0] sr_refill_def const_sr_def
      Let_def)

lemma const_nonce: "\<exists>n keys g. generate_tg_nonce (Suc fuel) const_rng tag dc key iv fast const_sr = Some ((n, keys), g)"
proof -
  obtain nonce g where d: "sr_bytes const_rng const_sr HANDSHAKE_LEN = (nonce, g)" by fastforce
  with const_draw have nonce: "nonce = replicate 64 0x42" by simp
  have r4: "replicate 4 x = [x, x, x, x]" for x :: byte by (simp add: numeral_4)
  have "nonce ! 0 \<notin> set RESERVED_NONCE_FIRST_BYTES \<and> take 4 nonce \<notin> set RESERVED_NONCE_BEGINNINGS \<and>
      subslice nonce 4 8 \<notin> set RESERVED_NONCE_CONTINUES"
    by (simp add: nonce RESERVED_NONCE_FIRST_BYTES_def RESERVED_NONCE_BEGINNINGS_def RESERVED_NONCE_CONTINUES_def
        subslice_def r4)
  then show ?thesis using d by (cases "finish_tg_nonce tag dc key iv fast nonce") simp
qed

end
