(* ===== verification/Replay_Checker.thy ===== *)
theory Replay_Checker
  imports Prelude
begin

section \<open>Replay protection (\<open>ReplayChecker\<close> of \<open>stats/mod.rs\<close>)\<close>

text \<open>
  The sharded replay cache: each shard pairs an LRU cache with a queue of additions in time order, and
  expires entries older than the window. The LRU cache is a crate: its operations are an argument of the
  definitions, and what the crate documents of them is \<open>lru_ok\<close>, stated on the list of entries in
  most-recently-used order. The hash that picks a shard is an argument too. Instants are nanoseconds
  since the earliest instant the platform can represent.
\<close>

subsection \<open>The LRU interface\<close>

record ('k, 'v, 'c) lru =
  lru_new :: "nat \<Rightarrow> 'c"
  lru_peek :: "'k \<Rightarrow> 'c \<Rightarrow> 'v option"
  lru_get :: "'k \<Rightarrow> 'c \<Rightarrow> 'v option \<times> 'c"
  lru_put :: "'k \<Rightarrow> 'v \<Rightarrow> 'c \<Rightarrow> 'c"
  lru_pop :: "'k \<Rightarrow> 'c \<Rightarrow> 'c"
  lru_len :: "'c \<Rightarrow> nat"
  lru_items :: "'c \<Rightarrow> ('k \<times> 'v) list"
  lru_cap :: "'c \<Rightarrow> nat"

definition without :: "'k \<Rightarrow> ('k \<times> 'v) list \<Rightarrow> ('k \<times> 'v) list" where
  "without k xs = filter (\<lambda>p. fst p \<noteq> k) xs"

definition lru_ok :: "('k, 'v, 'c) lru \<Rightarrow> bool" where
  "lru_ok L \<longleftrightarrow>
     (\<forall>n. lru_items L (lru_new L n) = [] \<and> lru_cap L (lru_new L n) = n) \<and>
     (\<forall>k c. lru_peek L k c = map_of (lru_items L c) k) \<and>
     (\<forall>k c. fst (lru_get L k c) = map_of (lru_items L c) k \<and> lru_cap L (snd (lru_get L k c)) = lru_cap L c \<and>
        lru_items L (snd (lru_get L k c)) =
          (case map_of (lru_items L c) k of None \<Rightarrow> lru_items L c | Some v \<Rightarrow> (k, v) # without k (lru_items L c))) \<and>
     (\<forall>k v c. lru_cap L (lru_put L k v c) = lru_cap L c \<and>
        lru_items L (lru_put L k v c) = take (lru_cap L c) ((k, v) # without k (lru_items L c))) \<and>
     (\<forall>k c. lru_cap L (lru_pop L k c) = lru_cap L c \<and> lru_items L (lru_pop L k c) = without k (lru_items L c)) \<and>
     (\<forall>c. lru_len L c = length (lru_items L c))"

subsection \<open>Shards\<close>

record replay_entry =
  seen_at :: nat
  entry_seq :: u64

record 'c replay_shard =
  rs_cache :: 'c
  rs_queue :: "(nat \<times> bytes \<times> u64) list"
  rs_seq_counter :: u64

type_synonym 'c replay_lru = "(bytes, replay_entry, 'c) lru"

definition shard_new :: "'c replay_lru \<Rightarrow> nat \<Rightarrow> 'c replay_shard" where
  "shard_new L cap = \<lparr>rs_cache = lru_new L cap, rs_queue = [], rs_seq_counter = 0\<rparr>"

definition next_seq :: "'c replay_shard \<Rightarrow> u64 \<times> 'c replay_shard" where
  "next_seq s = (let n = rs_seq_counter s + 1 in (n, s\<lparr>rs_seq_counter := n\<rparr>))"

text \<open>\<open>checked_sub(window).unwrap_or(now)\<close>.\<close>

definition cutoff :: "nat \<Rightarrow> nat \<Rightarrow> nat" where
  "cutoff now window = (if window \<le> now then now - window else now)"

primrec cleanup_loop :: "'c replay_lru \<Rightarrow> nat \<Rightarrow> (nat \<times> bytes \<times> u64) list \<Rightarrow> 'c \<Rightarrow> 'c \<times> (nat \<times> bytes \<times> u64) list" where
  "cleanup_loop L lim [] c = (c, [])"
| "cleanup_loop L lim (x # queue) c =
     (case x of (ts, key, queue_seq) \<Rightarrow>
        if ts \<ge> lim then (c, x # queue)
        else
          cleanup_loop L lim queue
            (case lru_peek L key c of
               Some entry \<Rightarrow> if entry_seq entry = queue_seq then lru_pop L key c else c
             | None \<Rightarrow> c))"

definition shard_cleanup :: "'c replay_lru \<Rightarrow> nat \<Rightarrow> nat \<Rightarrow> 'c replay_shard \<Rightarrow> 'c replay_shard" where
  "shard_cleanup L now window s =
     (if window = 0 then s
      else case cleanup_loop L (cutoff now window) (rs_queue s) (rs_cache s) of
        (c, q) \<Rightarrow> s\<lparr>rs_cache := c, rs_queue := q\<rparr>)"

definition shard_check :: "'c replay_lru \<Rightarrow> bytes \<Rightarrow> nat \<Rightarrow> nat \<Rightarrow> 'c replay_shard \<Rightarrow> bool \<times> 'c replay_shard" where
  "shard_check L key now window s =
     (let s = shard_cleanup L now window s in
      case lru_get L key (rs_cache s) of (e, c) \<Rightarrow> (e \<noteq> None, s\<lparr>rs_cache := c\<rparr>))"

definition shard_add :: "'c replay_lru \<Rightarrow> bytes \<Rightarrow> nat \<Rightarrow> nat \<Rightarrow> 'c replay_shard \<Rightarrow> 'c replay_shard" where
  "shard_add L key now window s =
     (let s = shard_cleanup L now window s in
      case next_seq s of (sq, s) \<Rightarrow>
        s\<lparr>rs_cache := lru_put L key \<lparr>seen_at = now, entry_seq = sq\<rparr> (rs_cache s),
          rs_queue := rs_queue s @ [(now, key, sq)]\<rparr>)"

definition shard_len :: "'c replay_lru \<Rightarrow> 'c replay_shard \<Rightarrow> nat" where
  "shard_len L s = lru_len L (rs_cache s)"

subsection \<open>The checker\<close>

record 'c replay_checker =
  rc_shards :: "'c replay_shard list"
  rc_shard_mask :: u64
  rc_window :: nat
  rc_checks :: u64
  rc_hits :: u64
  rc_additions :: u64
  rc_cleanups :: u64

definition replay_checker_new :: "'c replay_lru \<Rightarrow> nat \<Rightarrow> nat \<Rightarrow> 'c replay_checker" where
  "replay_checker_new L total_capacity window =
     (let num_shards = 64; shard_capacity = max (total_capacity div num_shards) 1 in
      \<lparr>rc_shards = replicate num_shards (shard_new L shard_capacity), rc_shard_mask = word_of_nat (num_shards - 1),
       rc_window = window, rc_checks = 0, rc_hits = 0, rc_additions = 0, rc_cleanups = 0\<rparr>)"

definition get_shard_idx :: "(bytes \<Rightarrow> u64) \<Rightarrow> bytes \<Rightarrow> 'c replay_checker \<Rightarrow> nat" where
  "get_shard_idx hash key r = unat (hash key AND rc_shard_mask r)"

definition check_and_add_internal :: "'c replay_lru \<Rightarrow> (bytes \<Rightarrow> u64) \<Rightarrow> bytes \<Rightarrow> nat \<Rightarrow> 'c replay_checker \<Rightarrow>
    bool \<times> 'c replay_checker" where
  "check_and_add_internal L hash data now r =
     (let r = r\<lparr>rc_checks := rc_checks r + 1\<rparr>;
          idx = get_shard_idx hash data r
      in case shard_check L data now (rc_window r) (rc_shards r ! idx) of (found, shard) \<Rightarrow>
           if found then
             (True, r\<lparr>rc_shards := (rc_shards r)[idx := shard], rc_hits := rc_hits r + 1\<rparr>)
           else
             (False, r\<lparr>rc_shards := (rc_shards r)[idx := shard_add L data now (rc_window r) shard],
                       rc_additions := rc_additions r + 1\<rparr>))"

definition add_only :: "'c replay_lru \<Rightarrow> (bytes \<Rightarrow> u64) \<Rightarrow> bytes \<Rightarrow> nat \<Rightarrow> 'c replay_checker \<Rightarrow> 'c replay_checker" where
  "add_only L hash data now r =
     (let r = r\<lparr>rc_additions := rc_additions r + 1\<rparr>;
          idx = get_shard_idx hash data r
      in r\<lparr>rc_shards := (rc_shards r)[idx := shard_add L data now (rc_window r) (rc_shards r ! idx)]\<rparr>)"

definition check_and_add_handshake :: "'c replay_lru \<Rightarrow> (bytes \<Rightarrow> u64) \<Rightarrow> bytes \<Rightarrow> nat \<Rightarrow> 'c replay_checker \<Rightarrow>
    bool \<times> 'c replay_checker" where
  "check_and_add_handshake L hash data now r = check_and_add_internal L hash data now r"

definition check_and_add_tls_digest :: "'c replay_lru \<Rightarrow> (bytes \<Rightarrow> u64) \<Rightarrow> bytes \<Rightarrow> nat \<Rightarrow> 'c replay_checker \<Rightarrow>
    bool \<times> 'c replay_checker" where
  "check_and_add_tls_digest L hash data now r = check_and_add_internal L hash data now r"

record replay_stats =
  total_entries :: nat
  total_queue_len :: nat
  total_checks :: u64
  total_hits :: u64
  total_additions :: u64
  total_cleanups :: u64
  num_shards :: nat
  window_secs :: nat

definition nanos_per_sec :: nat where "nanos_per_sec = 1000000000"

definition rc_stats :: "'c replay_lru \<Rightarrow> 'c replay_checker \<Rightarrow> replay_stats" where
  "rc_stats L r =
     \<lparr>total_entries = sum_list (map (shard_len L) (rc_shards r)),
      total_queue_len = sum_list (map (\<lambda>s. length (rs_queue s)) (rc_shards r)),
      total_checks = rc_checks r, total_hits = rc_hits r, total_additions = rc_additions r,
      total_cleanups = rc_cleanups r, num_shards = length (rc_shards r),
      window_secs = rc_window r div nanos_per_sec\<rparr>"

text \<open>The periodic task: the pause between rounds, in seconds, and one round.\<close>

definition cleanup_interval_secs :: "'c replay_checker \<Rightarrow> nat" where
  "cleanup_interval_secs r =
     (let w = rc_window r div nanos_per_sec in if w > 60 then 30 else max w 1 div 2)"

definition periodic_cleanup :: "'c replay_lru \<Rightarrow> nat \<Rightarrow> 'c replay_checker \<Rightarrow> 'c replay_checker" where
  "periodic_cleanup L now r =
     r\<lparr>rc_shards := map (shard_cleanup L now (rc_window r)) (rc_shards r), rc_cleanups := rc_cleanups r + 1\<rparr>"

text \<open>The public operations as events with the time at which they happen.\<close>

datatype replay_op = CheckAdd bytes | AddOnly bytes | Sweep

fun rc_exec :: "'c replay_lru \<Rightarrow> (bytes \<Rightarrow> u64) \<Rightarrow> 'c replay_checker \<Rightarrow> nat \<times> replay_op \<Rightarrow> 'c replay_checker" where
  "rc_exec L h r (t, CheckAdd k) = snd (check_and_add_internal L h k t r)"
| "rc_exec L h r (t, AddOnly k) = add_only L h k t r"
| "rc_exec L h r (t, Sweep) = periodic_cleanup L t r"

definition rc_run :: "'c replay_lru \<Rightarrow> (bytes \<Rightarrow> u64) \<Rightarrow> (nat \<times> replay_op) list \<Rightarrow> 'c replay_checker \<Rightarrow> 'c replay_checker" where
  "rc_run L h evs r = foldl (rc_exec L h) r evs"

subsection \<open>Lists in most-recently-used order\<close>

definition rank :: "'k \<Rightarrow> ('k \<times> 'v) list \<Rightarrow> nat" where
  "rank k xs = length (takeWhile (\<lambda>p. fst p \<noteq> k) xs)"

lemma rank_simps [simp]:
  "rank k [] = 0" "rank k (p # xs) = (if fst p = k then 0 else Suc (rank k xs))"
  by (simp_all add: rank_def)

lemma without_simps [simp]:
  "without k [] = []" "without k (p # xs) = (if fst p = k then without k xs else p # without k xs)"
  by (simp_all add: without_def)

lemma map_of_without [simp]: "map_of (without k' xs) k = (if k = k' then None else map_of xs k)"
  by (induction xs) auto

lemma rank_without: "k \<noteq> k' \<Longrightarrow> rank k (without k' xs) \<le> rank k xs"
  by (induction xs) auto

lemma map_of_take:
  "map_of xs k = Some e \<Longrightarrow> rank k xs < m \<Longrightarrow> map_of (take m xs) k = Some e \<and> rank k (take m xs) = rank k xs"
proof (induction xs arbitrary: m)
  case (Cons p xs)
  then show ?case by (cases m) auto
qed simp

lemma map_of_take_sub: "map_of (take m xs) k = Some e \<Longrightarrow> map_of xs k = Some e"
proof (induction xs arbitrary: m)
  case (Cons p xs)
  then show ?case by (cases m) (auto split: if_splits)
qed simp

lemma lru_okD:
  assumes "lru_ok L"
  shows "lru_items L (lru_new L n) = []" "lru_cap L (lru_new L n) = n"
    "lru_peek L k c = map_of (lru_items L c) k"
    "fst (lru_get L k c) = map_of (lru_items L c) k" "lru_cap L (snd (lru_get L k c)) = lru_cap L c"
    "lru_items L (snd (lru_get L k c)) =
       (case map_of (lru_items L c) k of None \<Rightarrow> lru_items L c | Some v \<Rightarrow> (k, v) # without k (lru_items L c))"
    "lru_cap L (lru_put L k v c) = lru_cap L c"
    "lru_items L (lru_put L k v c) = take (lru_cap L c) ((k, v) # without k (lru_items L c))"
    "lru_cap L (lru_pop L k c) = lru_cap L c" "lru_items L (lru_pop L k c) = without k (lru_items L c)"
    "lru_len L c = length (lru_items L c)"
  using assms unfolding lru_ok_def by blast+

subsection \<open>What a shard keeps\<close>

text \<open>\<open>guards L t0 n k s\<close>: the shard knows \<open>k\<close>, at most \<open>n\<close> entries are more recently used, and its
  entry was added at \<open>t0\<close> or later.\<close>

definition guards :: "'c replay_lru \<Rightarrow> nat \<Rightarrow> nat \<Rightarrow> bytes \<Rightarrow> 'c replay_shard \<Rightarrow> bool" where
  "guards L t0 n k s \<longleftrightarrow>
     (\<exists>e. map_of (lru_items L (rs_cache s)) k = Some e \<and> rank k (lru_items L (rs_cache s)) \<le> n \<and>
       (\<forall>ts sq. (ts, k, sq) \<in> set (rs_queue s) \<and> sq = entry_seq e \<longrightarrow> t0 \<le> ts))"

definition shard_ok :: "'c replay_lru \<Rightarrow> nat \<Rightarrow> nat \<Rightarrow> 'c replay_shard \<Rightarrow> bool" where
  "shard_ok L cap m s \<longleftrightarrow> lru_cap L (rs_cache s) = cap \<and> unat (rs_seq_counter s) \<le> m \<and>
     (\<forall>x \<in> set (rs_queue s). unat (snd (snd x)) \<le> unat (rs_seq_counter s))"

lemma shard_ok_mono: "shard_ok L cap m s \<Longrightarrow> m \<le> m' \<Longrightarrow> shard_ok L cap m' s"
  by (simp add: shard_ok_def)

lemma cleanup_loop_basic:
  assumes "lru_ok L" "cleanup_loop L lim q c = (c', q')"
  shows "lru_cap L c' = lru_cap L c" "set q' \<subseteq> set q"
proof -
  have "lru_cap L c' = lru_cap L c \<and> set q' \<subseteq> set q"
    using assms(2)
  proof (induction q arbitrary: c)
    case (Cons x q)
    then show ?case
      by (cases x) (fastforce split: if_splits option.splits simp: lru_okD(9) [OF assms(1)])
  qed simp
  then show "lru_cap L c' = lru_cap L c" "set q' \<subseteq> set q" by auto
qed

lemma shard_ok_cleanup: "lru_ok L \<Longrightarrow> shard_ok L cap m s \<Longrightarrow> shard_ok L cap m (shard_cleanup L now w s)"
  by (auto simp: shard_cleanup_def shard_ok_def split: prod.splits dest: cleanup_loop_basic)

lemma unat_succ: "unat c + 1 < 2 ^ 64 \<Longrightarrow> unat (c + 1 :: u64) = unat c + 1"
  by (simp add: unat_word_ariths)

lemma shard_ok_check: "lru_ok L \<Longrightarrow> shard_ok L cap m s \<Longrightarrow> shard_ok L cap m (snd (shard_check L k now w s))"
  using shard_ok_cleanup [of L cap m s now w]
  by (simp add: shard_check_def Let_def case_prod_unfold shard_ok_def lru_okD(5))

lemma shard_ok_add:
  assumes "lru_ok L" "shard_ok L cap m s" "Suc m < 2 ^ 64"
  shows "shard_ok L cap (Suc m) (shard_add L k now w s)"
proof -
  note c = shard_ok_cleanup [OF assms(1,2), of now w]
  then have "unat (rs_seq_counter (shard_cleanup L now w s) + 1) = unat (rs_seq_counter (shard_cleanup L now w s)) + 1"
    using assms(3) by (intro unat_succ) (simp add: shard_ok_def)
  with c show ?thesis
    by (auto simp: shard_add_def Let_def next_seq_def shard_ok_def lru_okD(7) [OF assms(1)])
qed

lemma cleanup_loop_guards:
  assumes ok: "lru_ok L" and lim: "lim \<le> t0"
  shows "cleanup_loop L lim q c = (c', q') \<Longrightarrow> map_of (lru_items L c) k = Some e \<Longrightarrow>
    (\<forall>ts sq. (ts, k, sq) \<in> set q \<and> sq = entry_seq e \<longrightarrow> t0 \<le> ts) \<Longrightarrow>
    map_of (lru_items L c') k = Some e \<and> rank k (lru_items L c') \<le> rank k (lru_items L c)"
proof (induction q arbitrary: c)
  case (Cons x q)
  obtain ts key sq where x: "x = (ts, key, sq)" by (cases x)
  show ?case
  proof (cases "ts \<ge> lim")
    case False
    let ?c = "case lru_peek L key c of Some en \<Rightarrow> if entry_seq en = sq then lru_pop L key c else c | None \<Rightarrow> c"
    have run: "cleanup_loop L lim q ?c = (c', q')" using Cons.prems(1) False x by simp
    have "key = k \<longrightarrow> sq \<noteq> entry_seq e" using Cons.prems(3) False lim x by auto
    then have "map_of (lru_items L ?c) k = Some e \<and> rank k (lru_items L ?c) \<le> rank k (lru_items L c)"
      using Cons.prems(2) rank_without [of k key] by (auto simp: lru_okD(3,10) [OF ok] split: option.splits)
    then show ?thesis using Cons.IH [OF run] Cons.prems(3) by auto
  qed (use Cons.prems x in auto)
qed simp

lemma guards_cleanup:
  assumes ok: "lru_ok L" and g: "guards L t0 n k s" and t: "w = 0 \<or> w \<le> now \<and> now \<le> t0 + w"
  shows "guards L t0 n k (shard_cleanup L now w s)"
proof (cases "w = 0")
  case False
  obtain c q where run: "cleanup_loop L (cutoff now w) (rs_queue s) (rs_cache s) = (c, q)" by fastforce
  have "cutoff now w \<le> t0" using t False by (auto simp: cutoff_def)
  then show ?thesis
    using cleanup_loop_guards [OF ok _ run] cleanup_loop_basic(2) [OF ok run] g False run
    unfolding guards_def shard_cleanup_def by fastforce
qed (use g in \<open>simp add: shard_cleanup_def\<close>)

lemma guards_check:
  assumes ok: "lru_ok L" and g: "guards L t0 n k s" and t: "w = 0 \<or> w \<le> now \<and> now \<le> t0 + w"
  shows "guards L t0 (Suc n) k (snd (shard_check L k' now w s))" "fst (shard_check L k now w s)"
proof -
  let ?s = "shard_cleanup L now w s"
  have gc: "guards L t0 n k ?s" by (rule guards_cleanup [OF assms])
  then show "fst (shard_check L k now w s)"
    by (auto simp: shard_check_def Let_def case_prod_unfold lru_okD(4) [OF ok] guards_def)
  obtain e where e: "map_of (lru_items L (rs_cache ?s)) k = Some e" "rank k (lru_items L (rs_cache ?s)) \<le> n"
      "\<forall>ts sq. (ts, k, sq) \<in> set (rs_queue ?s) \<and> sq = entry_seq e \<longrightarrow> t0 \<le> ts"
    using gc by (auto simp: guards_def)
  have "rank k (without k' (lru_items L (rs_cache ?s))) \<le> n" if "k \<noteq> k'"
    using rank_without [OF that] e(2) le_trans by blast
  then show "guards L t0 (Suc n) k (snd (shard_check L k' now w s))"
    using e unfolding guards_def
    by (intro exI [of _ e]) (auto simp: shard_check_def Let_def case_prod_unfold lru_okD(6) [OF ok] split: option.splits)
qed

lemma guards_add:
  assumes ok: "lru_ok L" and sh: "shard_ok L cap m s" "Suc m < 2 ^ 64" and g: "guards L t0 n k s"
    and t: "w = 0 \<or> w \<le> now \<and> now \<le> t0 + w" "t0 \<le> now" and room: "Suc n < cap"
  shows "guards L t0 (Suc n) k (shard_add L k' now w s)"
proof -
  let ?s = "shard_cleanup L now w s"
  let ?xs = "lru_items L (rs_cache ?s)" and ?n = "rs_seq_counter ?s + 1"
  let ?e = "\<lparr>seen_at = now, entry_seq = ?n\<rparr>"
  have sc: "shard_ok L cap m ?s" by (rule shard_ok_cleanup [OF ok sh(1)])
  have cap: "lru_cap L (rs_cache ?s) = cap" using sc by (simp add: shard_ok_def)
  have "unat ?n = unat (rs_seq_counter ?s) + 1" using sc sh(2) by (intro unat_succ) (simp add: shard_ok_def)
  then have fresh: "(ts, key, ?n) \<notin> set (rs_queue ?s)" for ts key using sc by (fastforce simp: shard_ok_def)
  obtain e where e: "map_of ?xs k = Some e" "rank k ?xs \<le> n"
      "\<forall>ts sq. (ts, k, sq) \<in> set (rs_queue ?s) \<and> sq = entry_seq e \<longrightarrow> t0 \<le> ts"
    using guards_cleanup [OF ok g t(1)] by (auto simp: guards_def)
  have items: "lru_items L (rs_cache (shard_add L k' now w s)) = take cap ((k', ?e) # without k' ?xs)"
    "rs_queue (shard_add L k' now w s) = rs_queue ?s @ [(now, k', ?n)]"
    by (simp_all add: shard_add_def Let_def next_seq_def lru_okD(8) [OF ok] cap)
  show ?thesis
  proof (cases "k' = k")
    case True
    then show ?thesis
      using fresh t(2) room unfolding guards_def items by (cases cap) (auto intro!: exI [of _ ?e])
  next
    case False
    then have "rank k ((k', ?e) # without k' ?xs) \<le> Suc n" "map_of ((k', ?e) # without k' ?xs) k = Some e"
      using rank_without [of k k' ?xs] e by auto
    then show ?thesis
      using map_of_take [of "(k', ?e) # without k' ?xs" k e cap] room e(3) False
      unfolding guards_def items by (intro exI [of _ e]) auto
  qed
qed

lemma guards_check_miss:
  assumes ok: "lru_ok L" and g: "guards L t0 n k s" and t: "w = 0 \<or> w \<le> now \<and> now \<le> t0 + w"
    and miss: "\<not> fst (shard_check L k' now w s)"
  shows "guards L t0 n k (snd (shard_check L k' now w s))"
  using guards_cleanup [OF ok g t] miss
  by (simp add: shard_check_def Let_def case_prod_unfold lru_okD(4,6) [OF ok] guards_def)

lemma guards_added:
  assumes ok: "lru_ok L" and sh: "shard_ok L cap m s" "Suc m < 2 ^ 64" and cap: "0 < cap"
  shows "guards L now 0 k (shard_add L k now w s)"
proof -
  let ?s = "shard_cleanup L now w s"
  have sc: "shard_ok L cap m ?s" by (rule shard_ok_cleanup [OF ok sh(1)])
  have "unat (rs_seq_counter ?s + 1) = unat (rs_seq_counter ?s) + 1"
    using sc sh(2) by (intro unat_succ) (simp add: shard_ok_def)
  then have "(ts, key, rs_seq_counter ?s + 1) \<notin> set (rs_queue ?s)" for ts key
    using sc by (fastforce simp: shard_ok_def)
  moreover have "lru_cap L (rs_cache ?s) = cap" using sc by (simp add: shard_ok_def)
  ultimately show ?thesis
    using cap by (cases cap) (auto simp: guards_def shard_add_def Let_def next_seq_def lru_okD(8) [OF ok])
qed

subsection \<open>The checker, event by event\<close>

definition rc_ok :: "'c replay_lru \<Rightarrow> nat \<Rightarrow> nat \<Rightarrow> 'c replay_checker \<Rightarrow> bool" where
  "rc_ok L cap m r \<longleftrightarrow> length (rc_shards r) = 64 \<and> rc_shard_mask r = 63 \<and> list_all (shard_ok L cap m) (rc_shards r)"

lemma shard_idx_lt: "rc_shard_mask r = 63 \<Longrightarrow> get_shard_idx h k r < 64"
proof -
  have "unat (h k AND 63) \<le> unat (63 :: u64)" by (intro unat_mono word_and_le1 word_le_nat_alt [THEN iffD1])
  then show "rc_shard_mask r = 63 \<Longrightarrow> get_shard_idx h k r < 64" by (simp add: get_shard_idx_def)
qed

lemma rc_ok_new: "lru_ok L \<Longrightarrow> rc_ok L (max (cap div 64) 1) 0 (replay_checker_new L cap w)"
  by (simp add: rc_ok_def replay_checker_new_def Let_def list_all_iff shard_ok_def shard_new_def lru_okD)

lemma rc_exec_kept:
  "rc_window (rc_exec L h r ev) = rc_window r" "rc_shard_mask (rc_exec L h r ev) = rc_shard_mask r"
  "get_shard_idx h k (rc_exec L h r ev) = get_shard_idx h k r"
  by (cases ev; cases "snd ev"; simp add: check_and_add_internal_def add_only_def periodic_cleanup_def Let_def
      get_shard_idx_def case_prod_unfold)+

text \<open>What an event does to one shard; \<open>here\<close> are the keys that hash to it.\<close>

fun shard_event :: "'c replay_lru \<Rightarrow> nat \<Rightarrow> (bytes \<Rightarrow> bool) \<Rightarrow> nat \<times> replay_op \<Rightarrow> 'c replay_shard \<Rightarrow> 'c replay_shard" where
  "shard_event L w here (t, CheckAdd k) s =
     (if here k then
        if fst (shard_check L k t w s) then snd (shard_check L k t w s)
        else shard_add L k t w (snd (shard_check L k t w s))
      else s)"
| "shard_event L w here (t, AddOnly k) s = (if here k then shard_add L k t w s else s)"
| "shard_event L w here (t, Sweep) s = shard_cleanup L t w s"

lemma rc_exec_shard:
  assumes "i < length (rc_shards r)"
  shows "rc_shards (rc_exec L h r ev) ! i = shard_event L (rc_window r) (\<lambda>k. get_shard_idx h k r = i) ev (rc_shards r ! i)"
    "length (rc_shards (rc_exec L h r ev)) = length (rc_shards r)"
proof -
  obtain t p where ev: "ev = (t, p)" by (cases ev)
  show "rc_shards (rc_exec L h r ev) ! i = shard_event L (rc_window r) (\<lambda>k. get_shard_idx h k r = i) ev (rc_shards r ! i)"
    "length (rc_shards (rc_exec L h r ev)) = length (rc_shards r)"
    using assms
    by (cases p; auto simp: ev check_and_add_internal_def add_only_def periodic_cleanup_def Let_def case_prod_unfold
        get_shard_idx_def nth_list_update)+
qed

lemma shard_event_ok:
  assumes ok: "lru_ok L" and s: "shard_ok L cap m s" and m: "Suc m < 2 ^ 64"
  shows "shard_ok L cap (Suc m) (shard_event L w here ev s)"
proof -
  obtain t p where ev: "ev = (t, p)" by (cases ev)
  note weak = shard_ok_mono [OF _ le_SucI [OF order_refl]]
  show ?thesis
    using s weak shard_ok_check [OF ok s] shard_ok_add [OF ok _ m] shard_ok_cleanup [OF ok s] by (cases p) (auto simp: ev)
qed

lemma rc_exec_ok:
  assumes "lru_ok L" "rc_ok L cap m r" "Suc m < 2 ^ 64"
  shows "rc_ok L cap (Suc m) (rc_exec L h r ev)"
proof -
  have len: "length (rc_shards r) = 64" using assms(2) by (simp add: rc_ok_def)
  have "shard_ok L cap (Suc m) (rc_shards (rc_exec L h r ev) ! i)" if "i < 64" for i
    using that len assms(2) shard_event_ok [OF assms(1) _ assms(3)] by (simp add: rc_exec_shard(1) rc_ok_def list_all_length)
  moreover have "length (rc_shards (rc_exec L h r ev)) = 64" using rc_exec_shard(2) [of 0 r] len by simp
  ultimately show ?thesis using assms(2) by (simp add: rc_ok_def list_all_length rc_exec_kept)
qed

lemma shard_event_guards:
  assumes ok: "lru_ok L" and s: "shard_ok L cap m s" and m: "Suc m < 2 ^ 64" and g: "guards L t0 n k s"
    and t: "w = 0 \<or> w \<le> fst ev \<and> fst ev \<le> t0 + w" "t0 \<le> fst ev" and room: "Suc n < cap"
  shows "guards L t0 (Suc n) k (shard_event L w here ev s)"
proof -
  obtain now p where ev: "ev = (now, p)" by (cases ev)
  have t': "w = 0 \<or> w \<le> now \<and> now \<le> t0 + w" "t0 \<le> now" using t ev by simp_all
  have weak: "guards L t0 (Suc n) k s" if "guards L t0 n k s" for s using that by (auto simp: guards_def)
  note add = guards_add [OF ok _ m _ t' room]
  show ?thesis
  proof (cases p)
    case (CheckAdd k')
    then show ?thesis
      using g weak guards_check(1) [OF ok g t'(1), of k']
        add [OF shard_ok_check [OF ok s] guards_check_miss [OF ok g t'(1)]]
      by (simp add: ev)
  next
    case (AddOnly k')
    then show ?thesis using g weak add [OF s g] by (simp add: ev)
  next
    case Sweep
    then show ?thesis using guards_cleanup [OF ok g t'(1)] weak by (simp add: ev)
  qed
qed

lemma rc_run_guards:
  assumes ok: "lru_ok L" and w: "w = rc_window r"
  shows "rc_ok L cap m r \<Longrightarrow> m + length evs < 2 ^ 64 \<Longrightarrow> n + length evs < cap \<Longrightarrow>
    guards L t0 n k (rc_shards r ! get_shard_idx h k r) \<Longrightarrow>
    (\<forall>ev \<in> set evs. t0 \<le> fst ev \<and> (w = 0 \<or> w \<le> fst ev \<and> fst ev \<le> t0 + w)) \<Longrightarrow>
    guards L t0 (n + length evs) k (rc_shards (rc_run L h evs r) ! get_shard_idx h k r) \<and>
    rc_ok L cap (m + length evs) (rc_run L h evs r)"
  using w
proof (induction evs arbitrary: r m n)
  case (Cons ev evs)
  let ?i = "get_shard_idx h k r" and ?r = "rc_exec L h r ev"
  have i: "?i < length (rc_shards r)" using Cons.prems(1) shard_idx_lt [of r h k] by (simp add: rc_ok_def)
  have sh: "shard_ok L cap m (rc_shards r ! ?i)" using Cons.prems(1) i by (simp add: rc_ok_def list_all_length)
  have "guards L t0 (Suc n) k (rc_shards ?r ! ?i)"
    unfolding rc_exec_shard(1) [OF i]
    using Cons.prems by (intro shard_event_guards [OF ok sh]) auto
  moreover have "rc_ok L cap (Suc m) ?r" using Cons.prems by (intro rc_exec_ok [OF ok]) auto
  ultimately show ?case
    using Cons.IH [of "Suc m" ?r "Suc n"] Cons.prems by (auto simp: rc_run_def rc_exec_kept)
qed (simp add: rc_run_def)

lemma rc_run_ok:
  assumes "lru_ok L"
  shows "rc_ok L cap m r \<Longrightarrow> m + length evs < 2 ^ 64 \<Longrightarrow> rc_ok L cap (m + length evs) (rc_run L h evs r)"
proof (induction evs arbitrary: r m)
  case (Cons ev evs)
  then show ?case using Cons.IH [of "Suc m"] rc_exec_ok [OF assms, of cap m r h ev] by (simp add: rc_run_def)
qed (simp add: rc_run_def)

lemma rc_run_window: "rc_window (rc_run L h evs r) = rc_window r"
  by (induction evs arbitrary: r) (simp_all add: rc_run_def rc_exec_kept)

lemma rc_run_idx: "get_shard_idx h k (rc_run L h evs r) = get_shard_idx h k r"
  by (induction evs arbitrary: r) (simp_all add: rc_run_def rc_exec_kept)

lemma accepted_then_rejected:
  fixes L :: "'c replay_lru"
  assumes "lru_ok L"
    and "r = rc_run L hash before (replay_checker_new L capacity window)"
    and "check_and_add_internal L hash k t0 r = (False, r1)"
    and "length evs < max (capacity div 64) 1" "length before + length evs + 1 < 2 ^ 64"
    and "window \<le> t0"
    and "\<forall>t \<in> insert t1 (fst ` set evs). t0 \<le> t \<and> (window = 0 \<or> t \<le> t0 + window)"
  shows "fst (check_and_add_internal L hash k t1 (rc_run L hash evs r1))"
proof -
  let ?cap = "max (capacity div 64) 1" and ?i = "get_shard_idx hash k r" and ?m = "length before"
  have r: "rc_ok L ?cap ?m r" "rc_window r = window"
    using rc_run_ok [OF assms(1) rc_ok_new [OF assms(1)], where evs = before and h = hash] assms(2,5)
    by (simp_all add: rc_run_window) (simp add: replay_checker_new_def Let_def)
  have r1: "r1 = rc_exec L hash r (t0, CheckAdd k)" using assms(3) by simp
  have i: "?i < length (rc_shards r)" using r(1) shard_idx_lt [of r hash k] by (simp add: rc_ok_def)
  have sh: "shard_ok L ?cap ?m (rc_shards r ! ?i)" using r(1) i by (simp add: rc_ok_def list_all_length)
  have miss: "\<not> fst (shard_check L k t0 window (rc_shards r ! ?i))"
    using assms(3) r(2)
    by (auto simp: check_and_add_internal_def Let_def get_shard_idx_def split: prod.splits if_splits)
  have "guards L t0 0 k (rc_shards r1 ! ?i)"
    unfolding r1 rc_exec_shard(1) [OF i]
    using miss r(2) guards_added [OF assms(1) shard_ok_check [OF assms(1) sh]] assms(5) by simp
  moreover have "rc_ok L ?cap (Suc ?m) r1" unfolding r1 using assms(5) by (intro rc_exec_ok [OF assms(1) r(1)]) simp
  moreover have w1: "rc_window r1 = window" "get_shard_idx hash k r1 = ?i" unfolding r1 rc_exec_kept using r(2) by simp_all
  ultimately have "guards L t0 (length evs) k (rc_shards (rc_run L hash evs r1) ! ?i)"
    using rc_run_guards [OF assms(1), of window r1 ?cap "Suc ?m" evs 0 t0 k hash] assms(4-7) by fastforce
  from guards_check(2) [OF assms(1) this, of window t1]
  show ?thesis
    using assms(6,7) w1 rc_run_idx [of hash k L evs r1] rc_run_window [of L hash evs r1]
    by (auto simp: check_and_add_internal_def Let_def case_prod_unfold get_shard_idx_def)
qed

text \<open>C13: Replay protection: whatever the checker went through before, once it has accepted a handshake
  at time \<open>t0\<close> it rejects the same handshake for the whole window (for ever when the window is zero),
  as long as fewer operations intervene than a shard has entries. This holds for every hash function and
  every LRU cache that behaves as documented.\<close>

theorem replay_detected:
  fixes L :: "'c replay_lru"
  assumes "lru_ok L"
    and "r = rc_run L hash before (replay_checker_new L capacity window)"
    and "check_and_add_handshake L hash k t0 r = (False, r1)"
    and "length evs < max (capacity div 64) 1" "length before + length evs + 1 < 2 ^ 64"
    and "window \<le> t0"
    and "\<forall>t \<in> insert t1 (fst ` set evs). t0 \<le> t \<and> (window = 0 \<or> t \<le> t0 + window)"
  shows "fst (check_and_add_handshake L hash k t1 (rc_run L hash evs r1))"
  using accepted_then_rejected [OF assms(1,2) _ assms(4-7)] assms(3) by (simp add: check_and_add_handshake_def)

text \<open>A list with a capacity is an LRU cache, for witnesses.\<close>

definition list_lru :: "('k, 'v, nat \<times> ('k \<times> 'v) list) lru" where
  "list_lru = \<lparr>
     lru_new = (\<lambda>n. (n, [])),
     lru_peek = (\<lambda>k c. map_of (snd c) k),
     lru_get = (\<lambda>k c. (map_of (snd c) k,
        case map_of (snd c) k of None \<Rightarrow> c | Some v \<Rightarrow> (fst c, (k, v) # without k (snd c)))),
     lru_put = (\<lambda>k v c. (fst c, take (fst c) ((k, v) # without k (snd c)))),
     lru_pop = (\<lambda>k c. (fst c, without k (snd c))),
     lru_len = (\<lambda>c. length (snd c)), lru_items = snd, lru_cap = fst\<rparr>"

lemma list_lru_ok: "lru_ok list_lru"
  by (auto simp: lru_ok_def list_lru_def split: option.splits)

theorem replay_detected_witness:
  "\<exists>r1. check_and_add_handshake list_lru (\<lambda>k. word_of_nat (length k)) [1, 2] 100
       (replay_checker_new list_lru 128 50) = (False, r1) \<and>
     fst (check_and_add_handshake list_lru (\<lambda>k. word_of_nat (length k)) [1, 2] 150
       (rc_run list_lru (\<lambda>k. word_of_nat (length k)) [(120, CheckAdd [3, 4])] r1))"
proof -
  let ?h = "\<lambda>k :: bytes. word_of_nat (length k) :: u64"
  let ?r = "replay_checker_new list_lru 128 50"
  have "\<not> fst (check_and_add_handshake list_lru ?h [1, 2] 100 ?r)"
    by (simp add: check_and_add_handshake_def check_and_add_internal_def replay_checker_new_def Let_def case_prod_unfold
        shard_check_def shard_cleanup_def shard_new_def list_lru_def get_shard_idx_def)
  then obtain r1 where first: "check_and_add_handshake list_lru ?h [1, 2] 100 ?r = (False, r1)"
    by (cases "check_and_add_handshake list_lru ?h [1, 2] 100 ?r") simp
  have "?r = rc_run list_lru ?h [] ?r" by (simp add: rc_run_def)
  from replay_detected [OF list_lru_ok this first, of "[(120, CheckAdd [3, 4])]" 150]
  have "fst (check_and_add_handshake list_lru ?h [1, 2] 150 (rc_run list_lru ?h [(120, CheckAdd [3, 4])] r1))" by simp
  with first show ?thesis by blast
qed

subsection \<open>No false alarms\<close>

text \<open>Every entry of the cache is backed by the queue; the queue is sorted by time and lists only keys
  that were added at that time.\<close>

definition backed :: "'c replay_lru \<Rightarrow> (nat \<times> bytes) set \<Rightarrow> nat \<Rightarrow> 'c replay_shard \<Rightarrow> bool" where
  "backed L A now s \<longleftrightarrow>
     (\<forall>k e. map_of (lru_items L (rs_cache s)) k = Some e \<longrightarrow> (\<exists>ts. (ts, k, entry_seq e) \<in> set (rs_queue s))) \<and>
     sorted (map fst (rs_queue s)) \<and> (\<forall>(ts, k, sq) \<in> set (rs_queue s). (ts, k) \<in> A \<and> ts \<le> now)"

lemma cleanup_loop_backed:
  assumes ok: "lru_ok L"
  shows "cleanup_loop L lim q c = (c', q') \<Longrightarrow> sorted (map fst q) \<Longrightarrow>
    (\<forall>k e. map_of (lru_items L c) k = Some e \<longrightarrow> (\<exists>ts. (ts, k, entry_seq e) \<in> set q)) \<Longrightarrow>
    (\<forall>k e. map_of (lru_items L c') k = Some e \<longrightarrow> (\<exists>ts. (ts, k, entry_seq e) \<in> set q')) \<and>
    sorted (map fst q') \<and> (\<forall>x \<in> set q'. lim \<le> fst x)"
proof (induction q arbitrary: c)
  case (Cons x q)
  obtain ts key sq where x: "x = (ts, key, sq)" by (cases x)
  show ?case
  proof (cases "ts \<ge> lim")
    case True
    then have "\<forall>y \<in> set (x # q). lim \<le> fst y" using Cons.prems(2) x by fastforce
    then show ?thesis using True Cons.prems x by auto
  next
    case False
    let ?c = "case lru_peek L key c of Some en \<Rightarrow> if entry_seq en = sq then lru_pop L key c else c | None \<Rightarrow> c"
    have run: "cleanup_loop L lim q ?c = (c', q')" using Cons.prems(1) False x by simp
    have "\<exists>ts. (ts, k, entry_seq e) \<in> set q" if "map_of (lru_items L ?c) k = Some e" for k e
    proof -
      have "map_of (lru_items L c) k = Some e" "k = key \<longrightarrow> entry_seq e \<noteq> sq"
        using that by (auto simp: lru_okD(3,10) [OF ok] split: option.splits if_splits)
      then show ?thesis using Cons.prems(3) x by fastforce
    qed
    then show ?thesis using Cons.IH [OF run] Cons.prems(2) by simp
  qed
qed simp

lemma backed_cleanup:
  assumes "lru_ok L" "backed L A now s"
  shows "backed L A now (shard_cleanup L t w s)"
    "w \<noteq> 0 \<Longrightarrow> x \<in> set (rs_queue (shard_cleanup L t w s)) \<Longrightarrow> cutoff t w \<le> fst x"
proof -
  obtain c q where run: "cleanup_loop L (cutoff t w) (rs_queue s) (rs_cache s) = (c, q)" by fastforce
  note cl = cleanup_loop_backed [OF assms(1) run] cleanup_loop_basic(2) [OF assms(1) run]
  show "backed L A now (shard_cleanup L t w s)"
  proof (cases "w = 0")
    case False
    then show ?thesis using assms(2) cl run by (auto simp: shard_cleanup_def backed_def)
  qed (use assms(2) in \<open>simp add: shard_cleanup_def\<close>)
  show "w \<noteq> 0 \<Longrightarrow> x \<in> set (rs_queue (shard_cleanup L t w s)) \<Longrightarrow> cutoff t w \<le> fst x"
    using assms(2) cl run by (simp add: shard_cleanup_def backed_def)
qed

lemma backed_check:
  "lru_ok L \<Longrightarrow> backed L A now s \<Longrightarrow> backed L A now (snd (shard_check L k t w s))"
  using backed_cleanup(1) [of L A now s t w]
  by (simp add: shard_check_def Let_def case_prod_unfold backed_def lru_okD(6) split: option.splits if_splits)

lemma backed_add:
  assumes ok: "lru_ok L" and b: "backed L A now s" and t: "now \<le> t"
  shows "backed L (insert (t, k) A) t (shard_add L k t w s)"
proof -
  let ?s = "shard_cleanup L t w s"
  have bc: "backed L A now ?s" by (rule backed_cleanup(1) [OF ok b])
  have "\<exists>ts. (ts, k', entry_seq e) \<in> set (rs_queue ?s @ [(t, k, rs_seq_counter ?s + 1)])"
    if "map_of (take n ((k, \<lparr>seen_at = t, entry_seq = rs_seq_counter ?s + 1\<rparr>) # without k (lru_items L (rs_cache ?s)))) k' = Some e"
    for k' e n
    using map_of_take_sub [OF that] bc by (auto simp: backed_def split: if_splits)
  moreover have "sorted (map fst (rs_queue ?s @ [(t, k, sq)]))" for sq
    using bc t by (auto simp: backed_def sorted_append)
  ultimately show ?thesis
    using bc t unfolding backed_def
    by (auto simp: shard_add_def Let_def next_seq_def lru_okD(8) [OF ok])
qed

lemma backed_mono: "backed L A now s \<Longrightarrow> A \<subseteq> A' \<Longrightarrow> now \<le> t \<Longrightarrow> backed L A' t s"
  unfolding backed_def by fastforce

definition added :: "(nat \<times> replay_op) list \<Rightarrow> (nat \<times> bytes) set" where
  "added evs = {(t, k). (t, CheckAdd k) \<in> set evs \<or> (t, AddOnly k) \<in> set evs}"

lemma shard_event_backed:
  assumes ok: "lru_ok L" and b: "backed L (added evs) now s" and t: "now \<le> fst ev"
  shows "backed L (added (evs @ [ev])) (fst ev) (shard_event L w here ev s)"
proof -
  obtain u p where ev: "ev = (u, p)" by (cases ev)
  have sub: "added evs \<subseteq> added (evs @ [ev])" by (auto simp: added_def)
  note weak = backed_mono [OF _ sub t]
  have key: "insert (u, k) (added evs) \<subseteq> added (evs @ [ev])" if "p = CheckAdd k \<or> p = AddOnly k" for k
    using that by (auto simp: added_def ev)
  have add: "backed L (added (evs @ [ev])) u (shard_add L k u w s')"
    if "backed L (added evs) now s'" "p = CheckAdd k \<or> p = AddOnly k" for k s'
    using backed_mono [OF backed_add [OF ok that(1)] key [OF that(2)]] t ev by simp
  show ?thesis
    using weak [OF b] weak [OF backed_check [OF ok b]] add [OF b] add [OF backed_check [OF ok b]]
      weak [OF backed_cleanup(1) [OF ok b]]
    by (cases p) (simp_all add: ev)
qed

lemma rc_run_shards: "length (rc_shards (rc_run L h evs r)) = length (rc_shards r)"
proof (induction evs arbitrary: r)
  case (Cons ev evs)
  have "length (rc_shards (rc_exec L h r ev)) = length (rc_shards r)"
    by (cases ev; cases "snd ev"; simp add: check_and_add_internal_def add_only_def periodic_cleanup_def Let_def case_prod_unfold)
  then show ?case using Cons [of "rc_exec L h r ev"] by (simp add: rc_run_def)
qed (simp add: rc_run_def)

lemma rc_run_backed:
  assumes ok: "lru_ok L" and i: "i < 64"
  shows "sorted (map fst evs) \<Longrightarrow> backed L (added evs) (if evs = [] then 0 else fst (last evs))
    (rc_shards (rc_run L h evs (replay_checker_new L capacity w)) ! i)"
proof (induction evs rule: rev_induct)
  case Nil
  show ?case using i
    by (simp add: rc_run_def replay_checker_new_def Let_def shard_new_def backed_def lru_okD(1) [OF ok] added_def)
next
  case (snoc ev evs)
  let ?r = "rc_run L h evs (replay_checker_new L capacity w)"
  have len: "length (rc_shards ?r) = 64" by (simp add: rc_run_shards) (simp add: replay_checker_new_def Let_def)
  have "(if evs = [] then 0 else fst (last evs)) \<le> fst ev"
    using snoc.prems last_in_set [of evs] by (auto simp: sorted_append)
  moreover have "sorted (map fst evs)" using snoc.prems by (simp add: sorted_append)
  ultimately have "backed L (added (evs @ [ev])) (fst ev) (rc_shards (rc_exec L h ?r ev) ! i)"
    unfolding rc_exec_shard(1) [OF i [folded len]] by (intro shard_event_backed [OF ok snoc.IH])
  then show ?case by (simp add: rc_run_def)
qed

text \<open>The replay checker raises no false alarm: a handshake it rejects was indeed presented before, and
  within the window (at or after \<open>now - window\<close>) when the window is not zero.\<close>

theorem replay_no_false_alarm:
  fixes L :: "'c replay_lru"
  assumes "lru_ok L" and "sorted (map fst evs)" and "\<forall>ev \<in> set evs. fst ev \<le> now"
    and "fst (check_and_add_handshake L hash k now (rc_run L hash evs (replay_checker_new L capacity window)))"
  shows "\<exists>t. ((t, CheckAdd k) \<in> set evs \<or> (t, AddOnly k) \<in> set evs) \<and> (window = 0 \<or> cutoff now window \<le> t)"
proof -
  let ?r = "rc_run L hash evs (replay_checker_new L capacity window)"
  let ?i = "get_shard_idx hash k ?r"
  have "?i < 64" unfolding rc_run_idx by (rule shard_idx_lt) (simp add: replay_checker_new_def Let_def)
  note b = backed_cleanup [OF assms(1) rc_run_backed [OF assms(1) this assms(2), of hash capacity window], where t = now and w = window]
  have "rc_window ?r = window" by (simp add: rc_run_window) (simp add: replay_checker_new_def Let_def)
  then have "map_of (lru_items L (rs_cache (shard_cleanup L now window (rc_shards ?r ! ?i)))) k \<noteq> None"
    using assms(4)
    by (auto simp: check_and_add_handshake_def check_and_add_internal_def Let_def case_prod_unfold shard_check_def
        get_shard_idx_def lru_okD(4) [OF assms(1)] split: if_splits)
  then obtain ts sq where q: "(ts, k, sq) \<in> set (rs_queue (shard_cleanup L now window (rc_shards ?r ! ?i)))"
    using b(1) unfolding backed_def by blast
  then have "(ts, k) \<in> added evs" using b(1) unfolding backed_def by blast
  moreover have "window = 0 \<or> cutoff now window \<le> ts" using b(2) [OF _ q] by auto
  ultimately show ?thesis by (auto simp: added_def)
qed

theorem replay_no_false_alarm_witness:
  "\<not> fst (check_and_add_handshake list_lru (\<lambda>k. 0) [1, 2] 200
     (rc_run list_lru (\<lambda>k. 0) [(100, CheckAdd [1, 2])] (replay_checker_new list_lru 128 50)))"
  using replay_no_false_alarm [OF list_lru_ok, of "[(100, CheckAdd [1, 2])]" 200 "\<lambda>k. 0" "[1, 2]" 128 50]
  by (auto simp: cutoff_def)

end
