(* ===== verification/Handshake.thy ===== *)
theory Handshake
  imports Obfuscation Crypto_Writer Replay_Checker
begin

section \<open>The MTProto handshake (\<open>handle_mtproto_handshake\<close> of \<open>proxy/handshake.rs\<close>)\<close>

text \<open>
  A client's 64-byte handshake is checked for replay, tried against the secret of every user and, when
  it opens with an enabled protocol, turned into the encrypted streams of the session. The users are the
  configured map in the order the map iterates; \<open>hex_decode\<close> is the \<open>hex\<close> crate's function, an argument
  as SHA-256 and the AES keystream are.
\<close>

record handshake_success =
  hs_user :: string
  hs_dc_idx :: u16
  hs_proto_tag :: proto_tag
  hs_dec_key :: bytes
  hs_dec_iv :: u128
  hs_enc_key :: bytes
  hs_enc_iv :: u128
  hs_peer :: socket_addr
  hs_is_tls :: bool

record modes_config =
  mode_classic :: bool
  mode_secure :: bool
  mode_tls :: bool

record hs_config =
  cfg_users :: "(string \<times> string) list"
  cfg_modes :: modes_config
  cfg_crypto_pending_buffer :: nat

fun mode_ok :: "modes_config \<Rightarrow> bool \<Rightarrow> proto_tag \<Rightarrow> bool" where
  "mode_ok m is_tls Secure = (if is_tls then mode_tls m \<or> mode_secure m else mode_secure m \<or> mode_tls m)"
| "mode_ok m is_tls Intermediate = mode_classic m"
| "mode_ok m is_tls Abridged = mode_classic m"

record hs_crypto =
  hc_sha256 :: "bytes \<Rightarrow> bytes"
  hc_keystream :: ctr_cipher
  hc_hex_decode :: "string \<Rightarrow> bytes option"

text \<open>The loop over the users. Its result is the user's parameters with the decryptor, advanced by the
  handshake, and the fresh encryptor.\<close>

primrec try_users :: "hs_crypto \<Rightarrow> modes_config \<Rightarrow> bytes \<Rightarrow> socket_addr \<Rightarrow> bool \<Rightarrow> (string \<times> string) list \<Rightarrow>
    (aes_ctr \<times> aes_ctr \<times> handshake_success) option" where
  "try_users C m handshake peer is_tls [] = None"
| "try_users C m handshake peer is_tls (us # users) =
     (case hc_hex_decode C (snd us) of
        None \<Rightarrow> try_users C m handshake peer is_tls users
      | Some secret \<Rightarrow>
          let dec_prekey_iv = subslice handshake SKIP_LEN (SKIP_LEN + PREKEY_LEN + IV_LEN);
              enc_prekey_iv = rev dec_prekey_iv;
              dec_prekey = take PREKEY_LEN dec_prekey_iv;
              dec_iv_bytes = drop PREKEY_LEN dec_prekey_iv;
              dec_key = hc_sha256 C (dec_prekey @ secret);
              dec_iv = u128_from_be_bytes dec_iv_bytes;
              (decrypted, decryptor) = aes_ctr_decrypt (aes_ctr_new (hc_keystream C) dec_key dec_iv) handshake
          in case proto_tag_from_bytes (subslice decrypted PROTO_TAG_POS (PROTO_TAG_POS + 4)) of
               None \<Rightarrow> try_users C m handshake peer is_tls users
             | Some tag \<Rightarrow>
                 if \<not> mode_ok m is_tls tag then try_users C m handshake peer is_tls users
                 else
                   let dc_idx = u16_from_le_bytes (subslice decrypted DC_IDX_POS (DC_IDX_POS + 2));
                       enc_prekey = take PREKEY_LEN enc_prekey_iv;
                       enc_iv_bytes = drop PREKEY_LEN enc_prekey_iv;
                       enc_key = hc_sha256 C (enc_prekey @ secret);
                       enc_iv = u128_from_be_bytes enc_iv_bytes;
                       encryptor = aes_ctr_new (hc_keystream C) enc_key enc_iv
                   in Some (decryptor, encryptor,
                        \<lparr>hs_user = fst us, hs_dc_idx = dc_idx, hs_proto_tag = tag, hs_dec_key = dec_key,
                         hs_dec_iv = dec_iv, hs_enc_key = enc_key, hs_enc_iv = enc_iv, hs_peer = peer,
                         hs_is_tls = is_tls\<rparr>))"

definition handle_mtproto_handshake :: "hs_crypto \<Rightarrow> 'c replay_lru \<Rightarrow> (bytes \<Rightarrow> u64) \<Rightarrow> bytes \<Rightarrow> 'rd \<Rightarrow> 'wr \<Rightarrow> socket_addr \<Rightarrow>
    hs_config \<Rightarrow> nat \<Rightarrow> bool \<Rightarrow> 'c replay_checker \<Rightarrow>
    ('rd crypto_reader \<times> 'wr crypto_writer \<times> handshake_success, 'rd, 'wr) handshake_result \<times> 'c replay_checker" where
  "handle_mtproto_handshake C L hash handshake reader writer peer cfg now is_tls rc =
     (let dec_prekey_iv = subslice handshake SKIP_LEN (SKIP_LEN + PREKEY_LEN + IV_LEN) in
      case check_and_add_handshake L hash dec_prekey_iv now rc of
        (True, rc) \<Rightarrow> (HsBadClient reader writer, rc)
      | (False, rc) \<Rightarrow>
          (case try_users C (cfg_modes cfg) handshake peer is_tls (cfg_users cfg) of
             None \<Rightarrow> (HsBadClient reader writer, rc)
           | Some (decryptor, encryptor, success) \<Rightarrow>
               (HsSuccess (crypto_reader_new reader decryptor,
                           crypto_writer_new writer encryptor (cfg_crypto_pending_buffer cfg), success), rc)))"

subsection \<open>Which user is authenticated\<close>

text \<open>\<open>accepts\<close>: the user's secret decodes and opens the handshake with an enabled protocol.\<close>

definition accepts :: "hs_crypto \<Rightarrow> modes_config \<Rightarrow> bool \<Rightarrow> bytes \<Rightarrow> string \<times> string \<Rightarrow> (bytes \<times> proto_tag) option" where
  "accepts C m is_tls h us =
     (case hc_hex_decode C (snd us) of
        None \<Rightarrow> None
      | Some secret \<Rightarrow>
          (case opens (hc_sha256 C) (hc_keystream C) h secret of
             None \<Rightarrow> None
           | Some tag \<Rightarrow> if mode_ok m is_tls tag then Some (secret, tag) else None))"

definition session_of :: "hs_crypto \<Rightarrow> bytes \<Rightarrow> socket_addr \<Rightarrow> bool \<Rightarrow> string \<Rightarrow> bytes \<Rightarrow> proto_tag \<Rightarrow>
    aes_ctr \<times> aes_ctr \<times> handshake_success" where
  "session_of C h peer is_tls user secret tag =
     (let p = params_of (hc_sha256 C) (hc_keystream C) h secret tag in
      (ctr_after (client_cipher (hc_sha256 C) (hc_keystream C) secret h) h, create_encryptor (hc_keystream C) p,
       \<lparr>hs_user = user, hs_dc_idx = op_dc_idx p, hs_proto_tag = tag, hs_dec_key = op_decrypt_key p,
        hs_dec_iv = op_decrypt_iv p, hs_enc_key = op_encrypt_key p, hs_enc_iv = op_encrypt_iv p,
        hs_peer = peer, hs_is_tls = is_tls\<rparr>))"

lemma try_users_Cons:
  "try_users C m h peer is_tls (us # users) =
     (case accepts C m is_tls h us of
        None \<Rightarrow> try_users C m h peer is_tls users
      | Some (secret, tag) \<Rightarrow> Some (session_of C h peer is_tls (fst us) secret tag))"
  by (simp add: accepts_def opens_def session_of_def params_of_def client_cipher_def create_encryptor_def layout_defs
      key_material aes_ctr_decrypt_def aes_ctr_encrypt_def aes_ctr_apply_eq Let_def split: option.split)

declare try_users.simps(2) [simp del]

lemma try_users_skip:
  "\<forall>us \<in> set pre. accepts C m is_tls h us = None \<Longrightarrow>
   try_users C m h peer is_tls (pre @ users) = try_users C m h peer is_tls users"
  by (induction pre) (simp_all add: try_users_Cons)

lemma try_users_SomeD:
  "try_users C m h peer is_tls users = Some res \<Longrightarrow>
    \<exists>pre us post secret tag. users = pre @ us # post \<and> (\<forall>x \<in> set pre. accepts C m is_tls h x = None) \<and>
      accepts C m is_tls h us = Some (secret, tag) \<and> res = session_of C h peer is_tls (fst us) secret tag"
proof (induction users)
  case (Cons us users)
  show ?case
  proof (cases "accepts C m is_tls h us")
    case None
    then obtain pre us' post secret tag where "users = pre @ us' # post" "\<forall>x \<in> set pre. accepts C m is_tls h x = None"
        "accepts C m is_tls h us' = Some (secret, tag)" "res = session_of C h peer is_tls (fst us') secret tag"
      using Cons by (auto simp: try_users_Cons)
    then show ?thesis using None by (intro exI [of _ "us # pre"] exI [of _ us'] exI [of _ post]) auto
  next
    case (Some st)
    then show ?thesis
      using Cons.prems
      by (intro exI [of _ "[]"] exI [of _ us] exI [of _ users] exI [of _ "fst st"] exI [of _ "snd st"])
        (auto simp: try_users_Cons split: prod.splits)
  qed
qed simp

lemma try_users_NoneD: "try_users C m h peer is_tls users = None \<longleftrightarrow> (\<forall>us \<in> set users. accepts C m is_tls h us = None)"
  by (induction users) (simp_all add: try_users_Cons case_prod_unfold del: not_None_eq split: option.split)

text \<open>The MTProto handshake is complete: a handshake that a client built from a nonce carrying its tag and
  datacenter, with the secret of a configured user, is accepted for that user when it is not a replay,
  its protocol is enabled and no user tried before opens it. Tag and datacenter are recovered, the
  session's decryptor is in exactly the state of the client's cipher after its 64 bytes, and the session's
  encryptor uses the key and IV of the reversed material.\<close>

lemma mtproto_handshake_complete:
  assumes "carries n tag dc" and "h = client_hello (hc_sha256 C) (hc_keystream C) secret n"
    and "cfg_users cfg = pre @ (user, hex) # post" "hc_hex_decode C hex = Some secret"
    and "\<forall>us \<in> set pre. accepts C (cfg_modes cfg) is_tls h us = None"
    and "mode_ok (cfg_modes cfg) is_tls tag"
    and "check_and_add_handshake L hash (subslice n 8 56) now rc = (False, rc')"
  shows "\<exists>r w s. handle_mtproto_handshake C L hash h reader writer peer cfg now is_tls rc = (HsSuccess (r, w, s), rc') \<and>
    hs_user s = user \<and> hs_proto_tag s = tag \<and> hs_dc_idx s = dc \<and> hs_peer s = peer \<and> hs_is_tls s = is_tls \<and>
    r = crypto_reader_new reader (ctr_after (client_cipher (hc_sha256 C) (hc_keystream C) secret n) n) \<and>
    w = crypto_writer_new writer
      (aes_ctr_new (hc_keystream C) (hc_sha256 C (take 32 (rev (subslice n 8 56)) @ secret))
        (u128_from_be_bytes (drop 32 (rev (subslice n 8 56))))) (cfg_crypto_pending_buffer cfg)"
proof -
  let ?sha = "hc_sha256 C" and ?ks = "hc_keystream C"
  have len: "length n = 64" using assms(1) by (simp add: carries_def HANDSHAKE_LEN_def)
  note M = hello_material [OF len, of ?sha ?ks secret, folded assms(2)]
  have "subslice h 8 40 = subslice n 8 40" "subslice h 40 56 = subslice n 40 56"
    using M(1) key_material [of h] key_material [of n] by simp_all
  then have cc: "client_cipher ?sha ?ks secret h = client_cipher ?sha ?ks secret n" by (simp add: client_cipher_def)
  note D = hello_decrypts [OF assms(1), of ?sha ?ks secret, folded assms(2)]
  have "accepts C (cfg_modes cfg) is_tls h (user, hex) = Some (secret, tag)"
    using assms(4,6) D(1) by (simp add: accepts_def opens_def cc)
  then have t: "try_users C (cfg_modes cfg) h peer is_tls (cfg_users cfg) = Some (session_of C h peer is_tls user secret tag)"
    using try_users_skip [OF assms(5)] assms(3) by (simp add: try_users_Cons)
  have "ctr_after (client_cipher ?sha ?ks secret n) h = ctr_after (client_cipher ?sha ?ks secret n) n"
    using M(2) len by (intro ctr_after_length) simp
  then show ?thesis
    using t assms(7) M(1) D(2)
    by (simp add: handle_mtproto_handshake_def layout_defs Let_def session_of_def params_of_def create_encryptor_def cc)
qed

text \<open>The MTProto handshake is sound: it never fails with an error; a success names a configured user whose
  secret decodes and opens the handshake with an enabled protocol, the first such user, whose tag it
  carries, and the handshake was not a replay; in every other case (a replay or no such user) the client is
  bad and gets its reader and writer back untouched, to be masked.\<close>

lemma mtproto_handshake_sound:
  assumes "handle_mtproto_handshake C L hash h reader writer peer cfg now is_tls rc = (res, rc')"
  shows "rc' = snd (check_and_add_handshake L hash (subslice h 8 56) now rc) \<and>
    (case res of
       HsSuccess (r, w, s) \<Rightarrow>
         \<not> fst (check_and_add_handshake L hash (subslice h 8 56) now rc) \<and>
         (\<exists>pre hex post secret. cfg_users cfg = pre @ (hs_user s, hex) # post \<and>
            (\<forall>us \<in> set pre. accepts C (cfg_modes cfg) is_tls h us = None) \<and>
            hc_hex_decode C hex = Some secret \<and>
            opens (hc_sha256 C) (hc_keystream C) h secret = Some (hs_proto_tag s) \<and>
            mode_ok (cfg_modes cfg) is_tls (hs_proto_tag s)) \<and>
         hs_peer s = peer \<and> hs_is_tls s = is_tls
     | HsBadClient r w \<Rightarrow> r = reader \<and> w = writer \<and>
         (fst (check_and_add_handshake L hash (subslice h 8 56) now rc) \<or>
          (\<forall>us \<in> set (cfg_users cfg). accepts C (cfg_modes cfg) is_tls h us = None))
     | HsError e \<Rightarrow> False)"
proof -
  obtain found rc1 where c: "check_and_add_handshake L hash (subslice h 8 56) now rc = (found, rc1)" by fastforce
  show ?thesis
  proof (cases found)
    case True
    then show ?thesis using assms c by (auto simp: handle_mtproto_handshake_def layout_defs)
  next
    case False
    show ?thesis
    proof (cases "try_users C (cfg_modes cfg) h peer is_tls (cfg_users cfg)")
      case None
      then have "\<forall>us \<in> set (cfg_users cfg). accepts C (cfg_modes cfg) is_tls h us = None" by (metis try_users_NoneD)
      moreover have "res = HsBadClient reader writer" "rc' = rc1"
        using assms c False None by (simp_all add: handle_mtproto_handshake_def layout_defs)
      ultimately show ?thesis using c by simp
    next
      case (Some x)
      obtain pre us post secret tag where t: "cfg_users cfg = pre @ us # post"
          "\<forall>y \<in> set pre. accepts C (cfg_modes cfg) is_tls h y = None"
          "accepts C (cfg_modes cfg) is_tls h us = Some (secret, tag)" "x = session_of C h peer is_tls (fst us) secret tag"
        using try_users_SomeD [OF Some] by blast
      have a: "hc_hex_decode C (snd us) = Some secret" "opens (hc_sha256 C) (hc_keystream C) h secret = Some tag"
          "mode_ok (cfg_modes cfg) is_tls tag"
        using t(3) by (auto simp: accepts_def split: option.splits if_splits)
      obtain r w s where res: "res = HsSuccess (r, w, s)" "rc' = rc1" "s = snd (snd x)"
        using assms c False Some by (auto simp: handle_mtproto_handshake_def layout_defs split: prod.splits)
      have "hs_user s = fst us" "hs_proto_tag s = tag" "hs_peer s = peer" "hs_is_tls s = is_tls"
        using res(3) t(4) by (simp_all add: session_of_def Let_def)
      moreover from this have "\<exists>pre hex post secret. cfg_users cfg = pre @ (hs_user s, hex) # post \<and>
          (\<forall>us \<in> set pre. accepts C (cfg_modes cfg) is_tls h us = None) \<and> hc_hex_decode C hex = Some secret \<and>
          opens (hc_sha256 C) (hc_keystream C) h secret = Some (hs_proto_tag s) \<and>
          mode_ok (cfg_modes cfg) is_tls (hs_proto_tag s)"
        using t(1,2) a by (intro exI [of _ pre] exI [of _ "snd us"] exI [of _ post] exI [of _ secret]) simp
      ultimately show ?thesis using res c False by simp
    qed
  qed
qed


subsection \<open>Witnesses\<close>

text \<open>A keystream of zeros, one user without a secret, and a handshake for datacenter 2 in secure mode.\<close>

definition plain_crypto :: hs_crypto where
  "plain_crypto = \<lparr>hc_sha256 = (\<lambda>b. replicate 32 0), hc_keystream = (\<lambda>k iv n. 0), hc_hex_decode = (\<lambda>x. Some [])\<rparr>"

definition sample_cfg :: hs_config where
  "sample_cfg = \<lparr>cfg_users = [(''alice'', ''00'')], cfg_modes = \<lparr>mode_classic = False, mode_secure = True, mode_tls = False\<rparr>,
     cfg_crypto_pending_buffer = 0\<rparr>"

definition sample_hello :: bytes where
  "sample_hello = replicate 56 7 @ proto_tag_to_bytes Secure @ u16_to_le_bytes 2 @ [0, 0]"

definition sample_peer :: socket_addr where
  "sample_peer = SocketAddr (IpV4 1) 2"

definition sample_rc :: "(nat \<times> (bytes \<times> replay_entry) list) replay_checker" where
  "sample_rc = replay_checker_new list_lru 128 50"

lemma sample_carries: "carries sample_hello Secure 2"
  by (simp add: carries_def sample_hello_def HANDSHAKE_LEN_def proto_tag_to_bytes_def subslice_skip subslice_head)

lemma zero_keystream: "ctr_of (aes_ctr_new (\<lambda>k iv n. 0) k iv) xs = xs"
proof -
  have "map2 (XOR) xs (map (\<lambda>i. 0) ys) = xs" if "length ys = length xs" for xs :: bytes and ys :: "nat list"
    using that by (induction ys xs rule: list_induct2) simp_all
  then show ?thesis by (simp add: ctr_of_def aes_ctr_apply_def aes_ctr_new_def)
qed

lemma sample_client_hello: "client_hello (hc_sha256 plain_crypto) (hc_keystream plain_crypto) [] sample_hello = sample_hello"
  by (simp add: client_hello_def client_cipher_def plain_crypto_def zero_keystream)

lemma sample_fresh:
  "\<exists>rc'. check_and_add_handshake list_lru (\<lambda>k. 0) k 100 sample_rc = (False, rc')"
  by (simp add: sample_rc_def check_and_add_handshake_def check_and_add_internal_def replay_checker_new_def Let_def
      case_prod_unfold shard_check_def shard_cleanup_def shard_new_def list_lru_def get_shard_idx_def)

lemma sample_success:
  "\<exists>res rc'. handle_mtproto_handshake plain_crypto list_lru (\<lambda>k. 0) sample_hello () () sample_peer sample_cfg 100 False sample_rc =
     (HsSuccess res, rc')"
proof -
  obtain rc' where "check_and_add_handshake list_lru (\<lambda>k. 0) (subslice sample_hello 8 56) 100 sample_rc = (False, rc')"
    using sample_fresh by blast
  moreover have "accepts plain_crypto (cfg_modes sample_cfg) False sample_hello (''alice'', ''00'') = Some ([], Secure)"
    using sample_carries
    by (simp add: accepts_def opens_def client_cipher_def plain_crypto_def zero_keystream sample_cfg_def carries_def proto_tag_bytes)
  ultimately show ?thesis
    by (simp add: handle_mtproto_handshake_def layout_defs Let_def sample_cfg_def try_users_Cons session_of_def)
qed


end
