(* ===== verification/Tls_Hello.thy ===== *)
theory Tls_Hello
  imports Constants
begin

section \<open>The fake TLS 1.3 handshake (\<open>protocol/tls.rs\<close>)\<close>

text \<open>
  Validation of a ClientHello against the user secrets and the ServerHello the proxy answers with.
  HMAC-SHA-256 is an argument.
\<close>

definition TLS_DIGEST_LEN :: nat where "TLS_DIGEST_LEN = 32"
definition TLS_DIGEST_POS :: nat where "TLS_DIGEST_POS = 11"
definition TLS_DIGEST_HALF_LEN :: nat where "TLS_DIGEST_HALF_LEN = 16"
definition TIME_SKEW_MIN :: int where "TIME_SKEW_MIN = - 20 * 60"
definition TIME_SKEW_MAX :: int where "TIME_SKEW_MAX = 10 * 60"

lemmas digest_defs = TLS_DIGEST_LEN_def TLS_DIGEST_POS_def TLS_DIGEST_HALF_LEN_def

definition EXT_KEY_SHARE :: u16 where "EXT_KEY_SHARE = 0x0033"
definition EXT_SUPPORTED_VERSIONS :: u16 where "EXT_SUPPORTED_VERSIONS = 0x002b"
definition EXT_ALPN :: u16 where "EXT_ALPN = 0x0010"
definition TLS_AES_128_GCM_SHA256 :: bytes where "TLS_AES_128_GCM_SHA256 = [0x13, 0x01]"
definition CURVE_X25519 :: u16 where "CURVE_X25519 = 0x001d"

record tls_validation =
  tv_user :: string
  tv_session_id :: bytes
  tv_digest :: bytes
  tv_timestamp :: u32

subsection \<open>Extensions\<close>

text \<open>\<open>TlsExtensionBuilder\<close> is its byte vector.\<close>

definition add_key_share :: "bytes \<Rightarrow> bytes \<Rightarrow> bytes" where
  "add_key_share extensions public_key =
     extensions @ u16_to_be_bytes EXT_KEY_SHARE @ u16_to_be_bytes (2 + 2 + 32) @ u16_to_be_bytes CURVE_X25519 @
     u16_to_be_bytes 32 @ public_key"

definition add_supported_versions :: "bytes \<Rightarrow> u16 \<Rightarrow> bytes" where
  "add_supported_versions extensions version =
     extensions @ u16_to_be_bytes EXT_SUPPORTED_VERSIONS @ u16_to_be_bytes 2 @ u16_to_be_bytes version"

definition add_alpn :: "bytes \<Rightarrow> bytes \<Rightarrow> bytes" where
  "add_alpn extensions proto =
     (let proto_len = word_of_nat (length proto) :: byte;
          list_len = 1 + ucast proto_len :: u16;
          ext_len = 2 + list_len
      in extensions @ u16_to_be_bytes EXT_ALPN @ u16_to_be_bytes ext_len @ u16_to_be_bytes list_len @ [proto_len] @ proto)"

definition ext_build :: "bytes \<Rightarrow> bytes" where
  "ext_build extensions = u16_to_be_bytes (word_of_nat (length extensions)) @ extensions"

subsection \<open>The ServerHello builder\<close>

record server_hello_builder =
  sh_random :: bytes
  sh_session_id :: bytes
  sh_cipher_suite :: bytes
  sh_compression :: byte
  sh_extensions :: bytes
  sh_alpn :: "bytes option"

definition sh_new :: "bytes \<Rightarrow> server_hello_builder" where
  "sh_new session_id = \<lparr>sh_random = replicate 32 0, sh_session_id = session_id,
     sh_cipher_suite = TLS_AES_128_GCM_SHA256, sh_compression = 0, sh_extensions = [], sh_alpn = None\<rparr>"

definition with_x25519_key :: "bytes \<Rightarrow> server_hello_builder \<Rightarrow> server_hello_builder" where
  "with_x25519_key key b = b\<lparr>sh_extensions := add_key_share (sh_extensions b) key\<rparr>"

definition with_tls13_version :: "server_hello_builder \<Rightarrow> server_hello_builder" where
  "with_tls13_version b = b\<lparr>sh_extensions := add_supported_versions (sh_extensions b) 0x0304\<rparr>"

definition with_alpn :: "bytes option \<Rightarrow> server_hello_builder \<Rightarrow> server_hello_builder" where
  "with_alpn proto b = b\<lparr>sh_alpn := proto\<rparr>"

definition build_message :: "server_hello_builder \<Rightarrow> bytes" where
  "build_message b =
     (let extensions = (case sh_alpn b of Some alpn \<Rightarrow> add_alpn (sh_extensions b) alpn | None \<Rightarrow> sh_extensions b);
          extensions_len = word_of_nat (length extensions) :: u16;
          body_len = 2 + 32 + 1 + length (sh_session_id b) + 2 + 1 + 2 + length extensions
      in [0x02] @ drop 1 (u32_to_be_bytes (word_of_nat body_len)) @ TLS_VERSION @ sh_random b @
         [word_of_nat (length (sh_session_id b))] @ sh_session_id b @ sh_cipher_suite b @ [sh_compression b] @
         u16_to_be_bytes extensions_len @ extensions)"

definition sh_build_record :: "server_hello_builder \<Rightarrow> bytes" where
  "sh_build_record b =
     (let message = build_message b in
      [TLS_RECORD_HANDSHAKE] @ TLS_VERSION @ u16_to_be_bytes (word_of_nat (length message)) @ message)"

subsection \<open>Validation\<close>

definition is_boot_time :: "u32 \<Rightarrow> bool" where
  "is_boot_time timestamp \<longleftrightarrow> unat timestamp < 60 * 60 * 24 * 1000"

definition time_ok :: "bool \<Rightarrow> int \<Rightarrow> u32 \<Rightarrow> bool" where
  "time_ok ignore_time_skew now timestamp \<longleftrightarrow>
     ignore_time_skew \<or> is_boot_time timestamp \<or>
     (let time_diff = now - int (unat timestamp) in TIME_SKEW_MIN \<le> time_diff \<and> time_diff \<le> TIME_SKEW_MAX)"

primrec match_secret :: "(bytes \<Rightarrow> bytes \<Rightarrow> bytes) \<Rightarrow> bytes \<Rightarrow> bytes \<Rightarrow> bytes \<Rightarrow> bool \<Rightarrow> int \<Rightarrow> (string \<times> bytes) list \<Rightarrow>
    tls_validation option" where
  "match_secret hmac msg digest session_id ignore_time_skew now [] = None"
| "match_secret hmac msg digest session_id ignore_time_skew now (us # secrets) =
     (let computed = hmac (snd us) msg;
          xored = map2 (XOR) digest computed
      in if \<not> list_all (\<lambda>b. b = 0) (take 28 xored) then
           match_secret hmac msg digest session_id ignore_time_skew now secrets
         else
           let timestamp = u32_from_le_bytes (subslice xored 28 32) in
           if \<not> time_ok ignore_time_skew now timestamp then
             match_secret hmac msg digest session_id ignore_time_skew now secrets
           else Some \<lparr>tv_user = fst us, tv_session_id = session_id, tv_digest = digest, tv_timestamp = timestamp\<rparr>)"

definition validate_tls_handshake :: "(bytes \<Rightarrow> bytes \<Rightarrow> bytes) \<Rightarrow> bytes \<Rightarrow> (string \<times> bytes) list \<Rightarrow> bool \<Rightarrow> int \<Rightarrow>
    tls_validation option" where
  "validate_tls_handshake hmac handshake secrets ignore_time_skew now =
     (if length handshake < TLS_DIGEST_POS + TLS_DIGEST_LEN + 1 then None
      else
        let digest = subslice handshake TLS_DIGEST_POS (TLS_DIGEST_POS + TLS_DIGEST_LEN);
            session_id_len_pos = TLS_DIGEST_POS + TLS_DIGEST_LEN;
            session_id_len = unat (handshake ! session_id_len_pos);
            session_id_start = session_id_len_pos + 1
        in if length handshake < session_id_start + session_id_len then None
           else
             let session_id = subslice handshake session_id_start (session_id_start + session_id_len);
                 msg = put handshake TLS_DIGEST_POS (replicate TLS_DIGEST_LEN 0)
             in match_secret hmac msg digest session_id ignore_time_skew now secrets)"

subsection \<open>The answer\<close>

definition curve25519_prime :: nat where "curve25519_prime = 2 ^ 255 - 19"

text \<open>\<open>BigUint::to_bytes_le\<close> gives the shortest representation, one byte for zero.\<close>

fun to_bytes_le :: "nat \<Rightarrow> bytes" where
  "to_bytes_le n = (if n < 256 then [word_of_nat n] else word_of_nat n # to_bytes_le (n div 256))"

declare to_bytes_le.simps [simp del]

definition resize :: "bytes \<Rightarrow> nat \<Rightarrow> bytes" where
  "resize bs n = take n bs @ replicate (n - length bs) 0"

definition gen_fake_x25519_key :: "'r std_rng \<Rightarrow> 'r secure_random \<Rightarrow> bytes \<times> 'r secure_random" where
  "gen_fake_x25519_key R rng =
     (case sr_bytes R rng 32 of (n_bytes, rng) \<Rightarrow>
        let n = from_le n_bytes; pk = n * n mod curve25519_prime in (resize (to_bytes_le pk) 32, rng))"

definition app_data_record :: "bytes \<Rightarrow> bytes" where
  "app_data_record data = [TLS_RECORD_APPLICATION] @ TLS_VERSION @ u16_to_be_bytes (word_of_nat (length data)) @ data"

primrec build_tickets :: "'r std_rng \<Rightarrow> nat \<Rightarrow> 'r secure_random \<Rightarrow> bytes list \<times> 'r secure_random" where
  "build_tickets R 0 rng = ([], rng)"
| "build_tickets R (Suc n) rng =
     (case sr_range R rng 48 of (k, rng) \<Rightarrow>
      case sr_bytes R rng (k + 48) of (data, rng) \<Rightarrow>
      case build_tickets R n rng of (rs, rng) \<Rightarrow> (app_data_record data # rs, rng))"

definition change_cipher_spec :: bytes where
  "change_cipher_spec = [TLS_RECORD_CHANGE_CIPHER] @ TLS_VERSION @ [0x00, 0x01, 0x01]"

definition clamp :: "nat \<Rightarrow> nat \<Rightarrow> nat \<Rightarrow> nat" where
  "clamp n lo hi = max lo (min n hi)"

definition build_server_hello :: "(bytes \<Rightarrow> bytes \<Rightarrow> bytes) \<Rightarrow> 'r std_rng \<Rightarrow> bytes \<Rightarrow> bytes \<Rightarrow> bytes \<Rightarrow> nat \<Rightarrow> bytes option \<Rightarrow> byte \<Rightarrow>
    'r secure_random \<Rightarrow> bytes \<times> 'r secure_random" where
  "build_server_hello hmac R secret client_digest session_id fake_cert_len alpn new_session_tickets rng =
     (let fake_cert_len = clamp fake_cert_len 64 16640 in
      case gen_fake_x25519_key R rng of (x25519_key, rng) \<Rightarrow>
      let server_hello = sh_build_record (with_alpn alpn (with_tls13_version (with_x25519_key x25519_key (sh_new session_id)))) in
      case sr_bytes R rng fake_cert_len of (fake_cert, rng) \<Rightarrow>
      case build_tickets R (unat new_session_tickets) rng of (tickets, rng) \<Rightarrow>
      let response = server_hello @ change_cipher_spec @ app_data_record fake_cert @ concat tickets;
          response_digest = hmac secret (client_digest @ response)
      in (put response TLS_DIGEST_POS response_digest, rng))"

definition is_tls_handshake :: "bytes \<Rightarrow> bool" where
  "is_tls_handshake first_bytes \<longleftrightarrow>
     length first_bytes \<ge> 3 \<and> first_bytes ! 0 = TLS_RECORD_HANDSHAKE \<and> first_bytes ! 1 = 0x03 \<and> first_bytes ! 2 = 0x01"

definition parse_tls_record_header :: "bytes \<Rightarrow> (byte \<times> u16) option" where
  "parse_tls_record_header header =
     (let version = [header ! 1, header ! 2] in
      if version \<noteq> [0x03, 0x01] \<and> version \<noteq> TLS_VERSION then None
      else Some (header ! 0, u16_from_be_bytes [header ! 3, header ! 4]))"

subsection \<open>Which hellos are valid\<close>

definition hmac_ok :: "(bytes \<Rightarrow> bytes \<Rightarrow> bytes) \<Rightarrow> bool" where
  "hmac_ok hmac \<longleftrightarrow> (\<forall>k m. length (hmac k m) = 32)"

text \<open>A client signs its hello by putting the HMAC of the hello with an empty digest, with the timestamp
  mixed into its last four bytes, where the digest goes.\<close>

definition unsigned_hello :: "bytes \<Rightarrow> bytes" where
  "unsigned_hello h = put h 11 (replicate 32 0)"

definition sign_hello :: "(bytes \<Rightarrow> bytes \<Rightarrow> bytes) \<Rightarrow> bytes \<Rightarrow> u32 \<Rightarrow> bytes \<Rightarrow> bytes" where
  "sign_hello hmac secret ts h =
     put h 11 (map2 (XOR) (hmac secret (unsigned_hello h)) (replicate 28 0 @ u32_to_le_bytes ts))"

lemma map2_xor_comm: "map2 (XOR) xs ys = map2 (XOR) ys (xs :: bytes)"
  by (induction xs ys rule: list_induct2') (simp_all add: xor.commute)

lemma map2_xor_flip:
  assumes "length (a :: bytes) = n" "length b = n" "length c = n"
  shows "map2 (XOR) a b = c \<longleftrightarrow> a = map2 (XOR) b c"
  using assms map2_xor_self [of a b] map2_xor_self [of c b] by (metis map2_xor_comm)

lemma xored_timestamp:
  fixes x :: bytes
  assumes "length x = 32"
  shows "list_all (\<lambda>b. b = 0) (take 28 x) \<and> u32_from_le_bytes (subslice x 28 32) = ts \<longleftrightarrow>
    x = replicate 28 0 @ u32_to_le_bytes ts"
proof -
  have l: "length (drop 28 x) = 4" using assms by simp
  have z: "list_all (\<lambda>b. b = 0) (take 28 x) \<longleftrightarrow> take 28 x = replicate 28 0"
    using assms by (auto simp: list_all_length list_eq_iff_nth_eq)
  have t: "u32_from_le_bytes (drop 28 x) = ts \<longleftrightarrow> drop 28 x = u32_to_le_bytes ts"
    using int_bytes_roundtrip'(2) [OF l] int_bytes_roundtrip(2) [of ts] by metis
  have "subslice x 28 32 = drop 28 x" using assms by (simp add: subslice_def)
  moreover have "x = replicate 28 0 @ u32_to_le_bytes ts \<longleftrightarrow> take 28 x = replicate 28 0 \<and> drop 28 x = u32_to_le_bytes ts"
    using assms append_eq_conv_conj [of "replicate 28 0" "u32_to_le_bytes ts" x] by auto
  ultimately show ?thesis using z t by simp
qed

definition hello_signed :: "(bytes \<Rightarrow> bytes \<Rightarrow> bytes) \<Rightarrow> bytes \<Rightarrow> bytes \<Rightarrow> u32 \<Rightarrow> bool" where
  "hello_signed hmac h secret ts \<longleftrightarrow> h = sign_hello hmac secret ts h"

lemma signed_digest:
  assumes "hmac_ok hmac" "43 \<le> length h"
  shows "hello_signed hmac h secret ts \<longleftrightarrow>
    list_all (\<lambda>b. b = 0) (take 28 (map2 (XOR) (subslice h 11 43) (hmac secret (unsigned_hello h)))) \<and>
    u32_from_le_bytes (subslice (map2 (XOR) (subslice h 11 43) (hmac secret (unsigned_hello h))) 28 32) = ts"
proof -
  let ?d = "subslice h 11 43" and ?m = "hmac secret (unsigned_hello h)"
  have l: "length ?d = 32" "length ?m = 32" using assms by (simp_all add: length_subslice hmac_ok_def)
  have "h = put h 11 ys \<longleftrightarrow> ?d = ys" if "length ys = 32" for ys
  proof -
    have d: "?d = take 32 (drop 11 h)" "drop 43 h = drop 32 (drop 11 h)" by (simp_all add: subslice_def)
    have "h = take 11 h @ ?d @ drop 43 h" unfolding d append_take_drop_id ..
    then have "h = put h 11 ys \<longleftrightarrow> take 11 h @ ?d @ drop 43 h = take 11 h @ ys @ drop 43 h" using that by (simp add: put_def)
    then show ?thesis using that l by simp
  qed
  then have "hello_signed hmac h secret ts \<longleftrightarrow> ?d = map2 (XOR) ?m (replicate 28 0 @ u32_to_le_bytes ts)"
    using l by (simp add: hello_signed_def sign_hello_def)
  also have "\<dots> \<longleftrightarrow> map2 (XOR) ?d ?m = replicate 28 0 @ u32_to_le_bytes ts"
    using l by (intro map2_xor_flip [symmetric, where n = 32]) simp_all
  finally show ?thesis using xored_timestamp [of "map2 (XOR) ?d ?m" ts] l by simp
qed

text \<open>The loop returns the first user who signed the hello at an acceptable time.\<close>

lemma match_secret_iff:
  assumes "hmac_ok hmac" "43 \<le> length h"
  shows "match_secret hmac (unsigned_hello h) (subslice h 11 43) sid skew now secrets = Some v \<longleftrightarrow>
    (\<exists>pre u secret post ts. secrets = pre @ (u, secret) # post \<and>
      (\<forall>x \<in> set pre. \<forall>ts. hello_signed hmac h (snd x) ts \<longrightarrow> \<not> time_ok skew now ts) \<and>
      hello_signed hmac h secret ts \<and> time_ok skew now ts \<and>
      v = \<lparr>tv_user = u, tv_session_id = sid, tv_digest = subslice h 11 43, tv_timestamp = ts\<rparr>)"
    (is "?loop secrets = Some v \<longleftrightarrow> ?first secrets")
proof (induction secrets)
  case (Cons us secrets)
  let ?good = "\<exists>ts. hello_signed hmac h (snd us) ts \<and> time_ok skew now ts"
  have "?first (us # secrets) \<longleftrightarrow>
    (if ?good then \<exists>ts. hello_signed hmac h (snd us) ts \<and> time_ok skew now ts \<and>
       v = \<lparr>tv_user = fst us, tv_session_id = sid, tv_digest = subslice h 11 43, tv_timestamp = ts\<rparr>
     else ?first secrets)" (is "_ \<longleftrightarrow> ?rhs")
  proof
    assume "?first (us # secrets)"
    then obtain pre u secret post ts where f: "us # secrets = pre @ (u, secret) # post"
        "\<forall>x \<in> set pre. \<forall>ts. hello_signed hmac h (snd x) ts \<longrightarrow> \<not> time_ok skew now ts" "hello_signed hmac h secret ts" "time_ok skew now ts"
        "v = \<lparr>tv_user = u, tv_session_id = sid, tv_digest = subslice h 11 43, tv_timestamp = ts\<rparr>"
      by blast
    show ?rhs
    proof (cases pre)
      case Nil
      then show ?thesis using f by auto
    next
      case (Cons y pre')
      then show ?thesis using f by auto
    qed
  next
    assume r: ?rhs
    show "?first (us # secrets)"
    proof (cases ?good)
      case True
      then show ?thesis using r by (metis (no_types, lifting) append_Nil empty_iff list.set(1) prod.collapse)
    next
      case False
      then obtain pre u secret post ts where f: "secrets = pre @ (u, secret) # post"
          "\<forall>x \<in> set pre. \<forall>ts. hello_signed hmac h (snd x) ts \<longrightarrow> \<not> time_ok skew now ts" "hello_signed hmac h secret ts" "time_ok skew now ts"
          "v = \<lparr>tv_user = u, tv_session_id = sid, tv_digest = subslice h 11 43, tv_timestamp = ts\<rparr>"
        using r unfolding if_not_P [OF False] by blast
      then show ?thesis using False by (intro exI [of _ "us # pre"]) auto
    qed
  qed
  then show ?case using Cons.IH signed_digest [OF assms, of "snd us"] by (auto simp: Let_def)
qed simp

text \<open>C16: ClientHello validation is exact: a hello is accepted with a result precisely when it is long enough for its
  session id and some configured secret signed it with a timestamp that is acceptable (time checks are off,
  it is a boot time, or it is at most 10 minutes old and at most 20 minutes ahead); the result
  names the first such user and carries the session id, the digest and that timestamp.\<close>

theorem tls_validation_exact:
  assumes "hmac_ok hmac"
  shows "validate_tls_handshake hmac h secrets ignore_time_skew now = Some v \<longleftrightarrow>
    44 \<le> length h \<and> 44 + unat (h ! 43) \<le> length h \<and>
    (\<exists>pre user secret post ts. secrets = pre @ (user, secret) # post \<and>
      (\<forall>x \<in> set pre. \<forall>ts. hello_signed hmac h (snd x) ts \<longrightarrow> \<not> time_ok ignore_time_skew now ts) \<and>
      hello_signed hmac h secret ts \<and> time_ok ignore_time_skew now ts \<and>
      v = \<lparr>tv_user = user, tv_session_id = subslice h 44 (44 + unat (h ! 43)), tv_digest = subslice h 11 43,
           tv_timestamp = ts\<rparr>)"
proof (cases "44 \<le> length h \<and> 44 + unat (h ! 43) \<le> length h")
  case True
  then have "validate_tls_handshake hmac h secrets ignore_time_skew now =
      match_secret hmac (unsigned_hello h) (subslice h 11 43) (subslice h 44 (44 + unat (h ! 43))) ignore_time_skew now secrets"
    by (simp add: validate_tls_handshake_def digest_defs Let_def unsigned_hello_def)
  then show ?thesis using match_secret_iff [OF assms, of h] True by simp
next
  case False
  then have "validate_tls_handshake hmac h secrets ignore_time_skew now = None"
    by (auto simp: validate_tls_handshake_def digest_defs Let_def)
  then show ?thesis using False by auto
qed

subsection \<open>The answer verifies\<close>

text \<open>How a client sees the answer: a sequence of TLS records.\<close>

function split_records :: "bytes \<Rightarrow> (byte \<times> bytes) list option" where
  "split_records bs =
     (if bs = [] then Some []
      else if length bs < 5 then None
      else let n = unat (u16_from_be_bytes (subslice bs 3 5)) in
        if length bs < 5 + n then None
        else map_option (\<lambda>rs. (bs ! 0, subslice bs 5 (5 + n)) # rs) (split_records (drop (5 + n) bs)))"
  by pat_completeness auto
termination by (relation "measure length") auto

declare split_records.simps [simp del]

definition tls_record :: "byte \<Rightarrow> bytes \<Rightarrow> bytes" where
  "tls_record t p = [t] @ TLS_VERSION @ u16_to_be_bytes (word_of_nat (length p)) @ p"

lemma split_record:
  assumes "length p < 65536"
  shows "split_records (tls_record t p @ rest) = map_option (\<lambda>rs. (t, p) # rs) (split_records rest)"
proof -
  let ?l = "u16_to_be_bytes (word_of_nat (length p))"
  have v: "length (t # TLS_VERSION) = 3" by (simp add: TLS_VERSION_def)
  have e: "tls_record t p @ rest = (t # TLS_VERSION) @ ?l @ p @ rest" by (simp add: tls_record_def)
  have "subslice (tls_record t p @ rest) 3 5 = ?l" 
    unfolding e subslice_skip [OF eq_refl [OF v]] v by (simp add: subslice_head)
  then have n: "unat (u16_from_be_bytes (subslice (tls_record t p @ rest) 3 5)) = length p"
    using assms by (simp add: unat_of_nat)
  have "subslice (tls_record t p @ rest) 5 (5 + length p) = p"
    unfolding e append.assoc [symmetric] using v by (subst append.assoc, subst subslice_skip) (simp_all add: subslice_head)
  moreover have "length (tls_record t p) = 5 + length p" using v by (simp add: tls_record_def)
  moreover have "(tls_record t p @ rest) ! 0 = t" "tls_record t p @ rest \<noteq> []" unfolding e by simp_all
  ultimately show ?thesis by (subst split_records.simps) (simp add: n Let_def del: append_is_Nil_conv)
qed

lemma split_records_all:
  "\<forall>r \<in> set rs. length (snd r) < 65536 \<Longrightarrow> split_records (concat (map (\<lambda>r. tls_record (fst r) (snd r)) rs)) = Some rs"
  by (induction rs) (simp_all add: split_records.simps [of "[]"] split_record)

lemma put_append1: "i + length zs \<le> length xs \<Longrightarrow> put (xs @ ys) i zs = put xs i zs @ ys"
  by (simp add: put_def)

lemma app_data_record_eq: "app_data_record d = tls_record TLS_RECORD_APPLICATION d"
  by (simp add: app_data_record_def tls_record_def)

lemma sr_bytes_length: "sr_bytes R s n = (bs, s') \<Longrightarrow> length bs = n"
  using length_sr_bytes [of R s n] by (simp del: length_sr_bytes)

lemma tickets_records:
  assumes "std_rng_ok R"
  shows "build_tickets R n rng = (ts, rng') \<Longrightarrow>
    \<exists>ps. ts = map (tls_record TLS_RECORD_APPLICATION) ps \<and> length ps = n \<and> (\<forall>p \<in> set ps. 48 \<le> length p \<and> length p \<le> 95)"
proof (induction n arbitrary: rng ts rng')
  case (Suc n)
  obtain k r1 where 1: "sr_range R rng 48 = (k, r1)" by fastforce
  obtain d r2 where 2: "sr_bytes R r1 (k + 48) = (d, r2)" by fastforce
  obtain rs r3 where 3: "build_tickets R n r2 = (rs, r3)" by fastforce
  have "k < 48" using sr_range_bound [OF assms, of 48 rng] 1 by simp
  moreover have "length d = k + 48" using 2 by (rule sr_bytes_length)
  moreover obtain ps where "rs = map (tls_record TLS_RECORD_APPLICATION) ps" "length ps = n"
      "\<forall>p \<in> set ps. 48 \<le> length p \<and> length p \<le> 95"
    using Suc.IH [OF 3] by blast
  ultimately show ?case
    using Suc.prems 1 2 3 by (intro exI [of _ "d # ps"]) (auto simp: app_data_record_eq)
qed simp

text \<open>The ServerHello message: everything around its random field.\<close>

definition sh_prefix :: "nat \<Rightarrow> bytes" where
  "sh_prefix n = [0x02] @ drop 1 (u32_to_be_bytes (word_of_nat n)) @ TLS_VERSION"

definition sh_body :: "bytes \<Rightarrow> bytes \<Rightarrow> bytes" where
  "sh_body session_id extensions = [word_of_nat (length session_id)] @ session_id @ TLS_AES_128_GCM_SHA256 @ [0] @
     u16_to_be_bytes (word_of_nat (length extensions)) @ extensions"

definition sh_exts :: "bytes \<Rightarrow> bytes option \<Rightarrow> bytes" where
  "sh_exts key alpn =
     (let e = add_supported_versions (add_key_share [] key) 0x0304 in case alpn of Some a \<Rightarrow> add_alpn e a | None \<Rightarrow> e)"

definition server_hello_message :: "bytes \<Rightarrow> bytes \<Rightarrow> bytes option \<Rightarrow> bytes \<Rightarrow> bytes" where
  "server_hello_message session_id key alpn random =
     (let body = sh_body session_id (sh_exts key alpn) in sh_prefix (34 + length body) @ random @ body)"

lemma length_sh [simp]:
  "length (sh_prefix n) = 6" "length (sh_body sid ex) = 6 + length sid + length ex"
  "length (sh_exts key alpn) = 14 + length key + (case alpn of None \<Rightarrow> 0 | Some a \<Rightarrow> 7 + length a)"
  by (simp_all add: sh_prefix_def sh_body_def sh_exts_def add_supported_versions_def add_key_share_def add_alpn_def
      TLS_VERSION_def TLS_AES_128_GCM_SHA256_def Let_def split: option.split)

lemma server_hello_record:
  "sh_build_record (with_alpn alpn (with_tls13_version (with_x25519_key key (sh_new sid)))) =
     tls_record TLS_RECORD_HANDSHAKE (server_hello_message sid key alpn (replicate 32 0))"
proof -
  have "build_message (with_alpn alpn (with_tls13_version (with_x25519_key key (sh_new sid)))) =
      server_hello_message sid key alpn (replicate 32 0)"
    by (cases alpn) (simp_all add: build_message_def with_alpn_def with_tls13_version_def with_x25519_key_def sh_new_def
        server_hello_message_def Let_def sh_prefix_def sh_body_def sh_exts_def add_supported_versions_def add_key_share_def
        add_alpn_def TLS_VERSION_def TLS_AES_128_GCM_SHA256_def)
  then show ?thesis by (simp add: sh_build_record_def tls_record_def Let_def)
qed

lemma gen_key_length: "length (fst (gen_fake_x25519_key R rng)) = 32"
  by (simp add: gen_fake_x25519_key_def case_prod_unfold Let_def resize_def)

lemma change_cipher_spec_record: "change_cipher_spec = tls_record TLS_RECORD_CHANGE_CIPHER [1]"
  by (simp add: change_cipher_spec_def tls_record_def u16_to_be_bytes_def to_be_def to_le_explicit)

lemma signed_response:
  assumes "length P = 6" "length d = 32" and r0: "r0 = tls_record t (P @ replicate 32 0 @ Q) @ rest"
  shows "put r0 11 d = tls_record t (P @ d @ Q) @ rest" "subslice (put r0 11 d) 11 43 = d" "unsigned_hello (put r0 11 d) = r0"
proof -
  let ?h = "\<lambda>x. [t] @ TLS_VERSION @ u16_to_be_bytes (word_of_nat (length (P @ x @ Q))) @ P"
  have h: "length (?h x) = 11" for x using assms(1) by (simp add: TLS_VERSION_def)
  have r: "r0 = ?h d @ replicate 32 0 @ Q @ rest" using assms(2) by (simp add: r0 tls_record_def)
  have put: "put (?h d @ x @ Z) 11 y = ?h d @ y @ Z" if "length x = 32" "length y = 32" for x y Z
    using put_append [OF eq_refl [OF h]] h that by (simp add: put_def)
  then have p: "put r0 11 d = ?h d @ d @ Q @ rest" unfolding r using assms(2) by simp
  show "put r0 11 d = tls_record t (P @ d @ Q) @ rest" unfolding p by (simp add: tls_record_def)
  show "subslice (put r0 11 d) 11 43 = d"
    unfolding p subslice_skip [OF eq_refl [OF h]] h using assms(2) by (simp add: subslice_head)
  show "unsigned_hello (put r0 11 d) = r0" unfolding p unsigned_hello_def by (subst put) (use assms(2) r in simp_all)
qed

definition echoes :: "bytes \<Rightarrow> bytes \<Rightarrow> bytes \<Rightarrow> bool" where
  "echoes msg random session_id \<longleftrightarrow> subslice msg 6 38 = random \<and> msg ! 38 = word_of_nat (length session_id) \<and>
     subslice msg 39 (39 + length session_id) = session_id"

text \<open>
  What a client can check of an answer: it is a ServerHello record, a ChangeCipherSpec record, application
  records of 64 to 16640 bytes and the requested number of tickets of 48 to 95 bytes, with correct length fields; the
  ServerHello echoes the session id; and its random field is the HMAC, under the user's secret, of the client's digest and
  the answer with that field zeroed.
\<close>

definition answer_records :: "bytes \<Rightarrow> bytes \<Rightarrow> nat \<Rightarrow> bytes \<Rightarrow> bytes list \<Rightarrow> bytes list \<Rightarrow> bool" where
  "answer_records resp session_id tickets msg bodies ts \<longleftrightarrow>
     split_records resp =
       Some ([(TLS_RECORD_HANDSHAKE, msg), (TLS_RECORD_CHANGE_CIPHER, [1])] @ map (Pair TLS_RECORD_APPLICATION) (bodies @ ts)) \<and>
     echoes msg (subslice resp 11 43) session_id \<and> bodies \<noteq> [] \<and> (\<forall>b \<in> set bodies. 64 \<le> length b \<and> length b \<le> 16640) \<and>
     length ts = tickets \<and> (\<forall>t \<in> set ts. 48 \<le> length t \<and> length t \<le> 95)"

definition answer_signed :: "(bytes \<Rightarrow> bytes \<Rightarrow> bytes) \<Rightarrow> bytes \<Rightarrow> bytes \<Rightarrow> bytes \<Rightarrow> bool" where
  "answer_signed hmac secret client_digest resp \<longleftrightarrow>
     subslice resp 11 43 = hmac secret (client_digest @ unsigned_hello resp)"

text \<open>Both builders assemble their records this way.\<close>

lemma answer_assembled:
  assumes "hmac_ok hmac" "length P = 6" "length Q \<le> 65000" "\<And>d. length d = 32 \<Longrightarrow> echoes (P @ d @ Q) d session_id"
    and "bodies \<noteq> []" "\<forall>b \<in> set bodies. 64 \<le> length b \<and> length b \<le> 16640"
    and "length ts = tickets" "\<forall>t \<in> set ts. 48 \<le> length t \<and> length t \<le> 95"
    and r0: "r0 = tls_record TLS_RECORD_HANDSHAKE (P @ replicate 32 0 @ Q) @ change_cipher_spec @
      concat (map (tls_record TLS_RECORD_APPLICATION) (bodies @ ts))"
    and resp: "resp = put r0 11 (hmac secret (client_digest @ r0))"
  shows "answer_signed hmac secret client_digest resp \<and> (\<exists>msg. answer_records resp session_id tickets msg bodies ts)"
proof -
  let ?d = "hmac secret (client_digest @ r0)"
  have ld: "length ?d = 32" using assms(1) by (simp add: hmac_ok_def)
  note S = signed_response [OF assms(2) ld r0, folded resp]
  let ?rs = "[(TLS_RECORD_HANDSHAKE, P @ ?d @ Q), (TLS_RECORD_CHANGE_CIPHER, [1])] @
      map (Pair TLS_RECORD_APPLICATION) (bodies @ ts)"
  have "\<forall>r \<in> set ?rs. length (snd r) < 65536" using assms(2,3,6,8) ld by fastforce
  then have "split_records (concat (map (\<lambda>r. tls_record (fst r) (snd r)) ?rs)) = Some ?rs" by (rule split_records_all)
  moreover have "resp = concat (map (\<lambda>r. tls_record (fst r) (snd r)) ?rs)"
    by (simp add: S(1) change_cipher_spec_record comp_def)
  ultimately show ?thesis
    using S(2,3) assms(4) [OF ld] assms(5-8) by (auto simp: answer_signed_def answer_records_def)
qed

lemma sh_message_echoes:
  assumes "length P = 6" "length d = 32"
  shows "echoes (P @ d @ [word_of_nat (length sid)] @ sid @ Z) d sid"
proof -
  have l: "length (P @ d) = 38" using assms by simp
  have 1: "subslice (P @ d @ Y) 6 38 = d" for Y using assms by (simp add: subslice_def)
  have 2: "((P @ d) @ x # Y) ! 38 = x" for x Y using nth_append_length [of "P @ d" x Y] unfolding l .
  have 3: "subslice ((P @ d @ [x]) @ sid @ Y) 39 (39 + length sid) = sid" for x Y using l by (simp add: subslice_def)
  show ?thesis
    unfolding echoes_def using 1 2 3 [of "word_of_nat (length sid)"] by (metis append.assoc append_Cons append_Nil)
qed

lemma server_hello_ok:
  assumes "hmac_ok hmac" "std_rng_ok R" "length session_id \<le> 255" "\<forall>a. alpn = Some a \<longrightarrow> length a \<le> 255"
    and "build_server_hello hmac R secret client_digest session_id fake_cert_len alpn tickets rng = (resp, rng')"
  shows "answer_signed hmac secret client_digest resp \<and>
    (\<exists>msg bodies ts. answer_records resp session_id (unat tickets) msg bodies ts)"
proof -
  obtain key r1 where 1: "gen_fake_x25519_key R rng = (key, r1)" by fastforce
  let ?n = "clamp fake_cert_len 64 16640"
  obtain cert r2 where 2: "sr_bytes R r1 ?n = (cert, r2)" by fastforce
  obtain tk r3 where 3: "build_tickets R (unat tickets) r2 = (tk, r3)" by fastforce
  obtain ts where ts: "tk = map (tls_record TLS_RECORD_APPLICATION) ts" "length ts = unat tickets"
      "\<forall>t \<in> set ts. 48 \<le> length t \<and> length t \<le> 95"
    using tickets_records [OF assms(2) 3] by blast
  have key: "length key = 32" using gen_key_length [of R rng] 1 by simp
  have cert: "length cert = ?n" using 2 by (rule sr_bytes_length)
  let ?P = "sh_prefix (34 + length (sh_body session_id (sh_exts key alpn)))" and ?Q = "sh_body session_id (sh_exts key alpn)"
  let ?r0 = "tls_record TLS_RECORD_HANDSHAKE (?P @ replicate 32 0 @ ?Q) @ change_cipher_spec @
      concat (map (tls_record TLS_RECORD_APPLICATION) ([cert] @ ts))"
  have resp: "resp = put ?r0 11 (hmac secret (client_digest @ ?r0))"
    using assms(5) 1 2 3 ts(1)
    by (simp add: build_server_hello_def Let_def server_hello_record server_hello_message_def digest_defs app_data_record_eq)
  have Q: "length ?Q \<le> 65000" using assms(3,4) key by (fastforce split: option.splits)
  have e: "echoes (?P @ d @ ?Q) d session_id" if "length d = 32" for d
    unfolding sh_body_def by (rule sh_message_echoes) (use that in simp_all)
  show ?thesis using answer_assembled [OF assms(1) length_sh(1) Q e _ _ ts(2,3) refl resp] cert by (auto simp: clamp_def)
qed

lemma validate_match:
  "44 \<le> length h \<Longrightarrow> 44 + unat (h ! 43) \<le> length h \<Longrightarrow> validate_tls_handshake hmac h secrets skew now =
    match_secret hmac (unsigned_hello h) (subslice h 11 43) (subslice h 44 (44 + unat (h ! 43))) skew now secrets"
  "validate_tls_handshake hmac h secrets skew now = Some v \<Longrightarrow> 44 \<le> length h \<and> 44 + unat (h ! 43) \<le> length h"
  by (auto simp: validate_tls_handshake_def digest_defs Let_def unsigned_hello_def split: if_splits)

lemma validate_SomeD:
  assumes "hmac_ok hmac" "validate_tls_handshake hmac h secrets skew now = Some v"
  shows "44 \<le> length h \<and> tv_digest v = subslice h 11 43 \<and> length (tv_session_id v) \<le> 255 \<and>
    (\<exists>secret. (tv_user v, secret) \<in> set secrets \<and> hello_signed hmac h secret (tv_timestamp v) \<and>
      time_ok skew now (tv_timestamp v))"
proof -
  note l = validate_match(2) [OF assms(2)]
  have "length (subslice h 44 (44 + unat (h ! 43))) \<le> 255" using l byte_bound [of "h ! 43"] by (simp add: length_subslice)
  then show ?thesis using match_secret_iff [OF assms(1), of h] l validate_match(1) [of h hmac secrets] assms(2) by fastforce
qed

lemma validate_iff_signed:
  assumes "hmac_ok hmac"
  shows "(\<exists>v. validate_tls_handshake hmac h secrets skew now = Some v) \<longleftrightarrow> 44 \<le> length h \<and> 44 + unat (h ! 43) \<le> length h \<and>
    (\<exists>x \<in> set secrets. \<exists>ts. hello_signed hmac h (snd x) ts \<and> time_ok skew now ts)" (is "_ \<longleftrightarrow> ?r")
proof
  assume "\<exists>v. validate_tls_handshake hmac h secrets skew now = Some v"
  then show ?r using validate_SomeD [OF assms] validate_match(2) by (metis snd_conv)
next
  assume r: ?r
  obtain pre x post where x: "secrets = pre @ x # post" "\<exists>ts. hello_signed hmac h (snd x) ts \<and> time_ok skew now ts"
      "\<forall>y \<in> set pre. \<not> (\<exists>ts. hello_signed hmac h (snd y) ts \<and> time_ok skew now ts)"
    using split_list_first_prop [OF conjunct2 [OF conjunct2 [OF r]]] by blast
  then obtain u secret ts where "x = (u, secret)" "hello_signed hmac h secret ts" "time_ok skew now ts" by (cases x) auto
  with x show "\<exists>v. validate_tls_handshake hmac h secrets skew now = Some v"
    using r validate_match(1) [of h] match_secret_iff [OF assms, of h] by fastforce
qed

text \<open>A constant HMAC, for witnesses: the hello of zeros is signed with timestamp zero.\<close>

lemma zero_digest_signed:
  assumes "43 \<le> length h" "subslice h 11 43 = replicate 32 0"
  shows "hello_signed (\<lambda>k m. replicate 32 0) h k 0"
proof -
  have "map2 (XOR) (replicate n 0) (replicate n 0) = replicate n (0 :: byte)" for n by (induction n) simp_all
  then have m: "map2 (XOR) (subslice h 11 43) (replicate 32 0) = replicate 32 (0 :: byte)" using assms(2) by simp
  have "hmac_ok (\<lambda>k m. replicate 32 0)" by (simp add: hmac_ok_def)
  from signed_digest [OF this assms(1)] show ?thesis
    unfolding m by (simp add: list_all_iff subslice_def u32_from_le_bytes_def from_le_def numeral_eq_Suc)
qed

lemma zero_hello_signed: "hello_signed (\<lambda>k m. replicate 32 0) (replicate 64 0) k 0"
  by (rule zero_digest_signed) (simp_all add: subslice_def)

theorem tls_validation_exact_witness:
  "\<exists>v. validate_tls_handshake (\<lambda>k m. replicate 32 0) (replicate 64 0) [(''alice'', [7])] False 0 = Some v \<and> tv_user v = ''alice''"
proof -
  have ok: "hmac_ok (\<lambda>k m. replicate 32 0)" by (simp add: hmac_ok_def)
  let ?v = "\<lparr>tv_user = ''alice'', tv_session_id = [], tv_digest = subslice (replicate 64 0) 11 43, tv_timestamp = 0\<rparr>"
  have "validate_tls_handshake (\<lambda>k m. replicate 32 0) (replicate 64 0) [(''alice'', [7])] False 0 = Some ?v"
    unfolding tls_validation_exact [OF ok]
    using zero_hello_signed
    by (intro conjI exI [of _ "[]"] exI [of _ "''alice''"] exI [of _ "[7]"] exI [of _ 0])
      (simp_all add: time_ok_def is_boot_time_def subslice_def)
  then show ?thesis by (intro exI [of _ ?v]) simp
qed

end
