(* ===== verification/Client_Hello.thy ===== *)
theory Client_Hello
  imports Tls_Hello
begin

section \<open>Parsers for the ClientHello (\<open>protocol/tls.rs\<close>)\<close>

text \<open>
  The parsers for the server name and the protocol list of a ClientHello. They read untrusted bytes by
  index; here an index or a slice out of range is the value \<open>None\<close> of an outer option, the panic of the
  source, so that the absence of panics can be stated and proved.
\<close>

subsection \<open>Definitions\<close>

text \<open>Rust indexing and slicing; \<open>None\<close> is the panic.\<close>

definition idx :: "bytes \<Rightarrow> nat \<Rightarrow> nat option" where
  "idx h i = (if i < length h then Some (unat (h ! i)) else None)"

definition be16 :: "bytes \<Rightarrow> nat \<Rightarrow> nat option" where
  "be16 h i = (if i + 1 < length h then Some (unat (u16_from_be_bytes [h ! i, h ! (i + 1)])) else None)"

definition slice :: "bytes \<Rightarrow> nat \<Rightarrow> nat \<Rightarrow> bytes option" where
  "slice h i j = (if i \<le> j \<and> j \<le> length h then Some (subslice h i j) else None)"

text \<open>\<open>std::str::from_utf8\<close> succeeds on well-formed UTF-8.\<close>

definition cont :: "byte \<Rightarrow> bool" where
  "cont b \<longleftrightarrow> 0x80 \<le> b \<and> b \<le> 0xbf"

fun utf8_valid :: "bytes \<Rightarrow> bool" where
  "utf8_valid [] = True"
| "utf8_valid (a # bs) =
     (if a < 0x80 then utf8_valid bs
      else case bs of
        [] \<Rightarrow> False
      | b # cs \<Rightarrow>
          if 0xc2 \<le> a \<and> a \<le> 0xdf then cont b \<and> utf8_valid cs
          else case cs of
            [] \<Rightarrow> False
          | c # ds \<Rightarrow>
              if 0xe0 \<le> a \<and> a \<le> 0xef then
                cont b \<and> (a = 0xe0 \<longrightarrow> 0xa0 \<le> b) \<and> (a = 0xed \<longrightarrow> b \<le> 0x9f) \<and> cont c \<and> utf8_valid ds
              else case ds of
                [] \<Rightarrow> False
              | d # es \<Rightarrow>
                  0xf0 \<le> a \<and> a \<le> 0xf4 \<and> cont b \<and> (a = 0xf0 \<longrightarrow> 0x90 \<le> b) \<and> (a = 0xf4 \<longrightarrow> b \<le> 0x8f) \<and>
                  cont c \<and> cont d \<and> utf8_valid es)"

text \<open>The inner loop over the names of a server-name extension. The result inside the outer option is
  the host, if one was found.\<close>

function sni_names :: "bytes \<Rightarrow> nat \<Rightarrow> nat \<Rightarrow> bytes option option" where
  "sni_names h sn_pos sn_end =
     (if sn_pos + 3 \<le> sn_end then
        (case idx h sn_pos of None \<Rightarrow> None | Some name_type \<Rightarrow>
         case be16 h (sn_pos + 1) of None \<Rightarrow> None | Some name_len \<Rightarrow>
           if sn_pos + 3 + name_len > sn_end then Some None
           else if name_type = 0 \<and> name_len > 0 then
             (case slice h (sn_pos + 3) (sn_pos + 3 + name_len) of None \<Rightarrow> None | Some host \<Rightarrow>
                if utf8_valid host then Some (Some host) else sni_names h (sn_pos + 3 + name_len) sn_end)
           else sni_names h (sn_pos + 3 + name_len) sn_end)
      else Some None)"
  by pat_completeness auto
termination by (relation "measure (\<lambda>(h, p, e). e - p)") auto

function sni_extensions :: "bytes \<Rightarrow> nat \<Rightarrow> nat \<Rightarrow> bytes option option" where
  "sni_extensions h pos ext_end =
     (if pos + 4 \<le> ext_end then
        (case be16 h pos of None \<Rightarrow> None | Some etype \<Rightarrow>
         case be16 h (pos + 2) of None \<Rightarrow> None | Some elen \<Rightarrow>
           let pos = pos + 4 in
           if pos + elen > ext_end then Some None
           else if etype = 0 \<and> elen \<ge> 5 then
             (case be16 h pos of None \<Rightarrow> None | Some list_len \<Rightarrow>
              case sni_names h (pos + 2) (min (pos + 2 + list_len) (pos + elen)) of
                None \<Rightarrow> None
              | Some (Some host) \<Rightarrow> Some (Some host)
              | Some None \<Rightarrow> sni_extensions h (pos + elen) ext_end)
           else sni_extensions h (pos + elen) ext_end)
      else Some None)"
  by pat_completeness auto
termination by (relation "measure (\<lambda>(h, p, e). e - p)") auto

declare sni_names.simps [simp del] sni_extensions.simps [simp del]

definition extract_sni_from_client_hello :: "bytes \<Rightarrow> bytes option option" where
  "extract_sni_from_client_hello h =
     (if length h < 43 then Some None
      else case idx h 0 of None \<Rightarrow> None | Some t \<Rightarrow>
        if t \<noteq> unat TLS_RECORD_HANDSHAKE then Some None
        else case idx h 5 of None \<Rightarrow> Some None | Some ht \<Rightarrow>
          if ht \<noteq> 0x01 then Some None
          else
            let pos = 5 + 4 + (2 + 32) in
            if pos + 1 > length h then Some None
            else case idx h pos of None \<Rightarrow> Some None | Some session_id_len \<Rightarrow>
              let pos = pos + (1 + session_id_len) in
              if pos + 2 > length h then Some None
              else case be16 h pos of None \<Rightarrow> None | Some cipher_suites_len \<Rightarrow>
                let pos = pos + (2 + cipher_suites_len) in
                if pos + 1 > length h then Some None
                else case idx h pos of None \<Rightarrow> Some None | Some comp_len \<Rightarrow>
                  let pos = pos + (1 + comp_len) in
                  if pos + 2 > length h then Some None
                  else case be16 h pos of None \<Rightarrow> None | Some ext_len \<Rightarrow>
                    let pos = pos + 2; ext_end = pos + ext_len in
                    if ext_end > length h then Some None
                    else sni_extensions h pos ext_end)"

function alpn_names :: "bytes \<Rightarrow> nat \<Rightarrow> nat \<Rightarrow> bytes list option" where
  "alpn_names h lp list_end =
     (if lp < list_end then
        (case idx h lp of None \<Rightarrow> None | Some plen \<Rightarrow>
           if lp + 1 + plen > list_end then Some []
           else case slice h (lp + 1) (lp + 1 + plen) of None \<Rightarrow> None | Some p \<Rightarrow>
             map_option ((#) p) (alpn_names h (lp + 1 + plen) list_end))
      else Some [])"
  by pat_completeness auto
termination by (relation "measure (\<lambda>(h, p, e). e - p)") auto

function alpn_extensions :: "bytes \<Rightarrow> nat \<Rightarrow> nat \<Rightarrow> bytes list option" where
  "alpn_extensions h pos ext_end =
     (if pos + 4 \<le> ext_end then
        (case be16 h pos of None \<Rightarrow> None | Some etype \<Rightarrow>
         case be16 h (pos + 2) of None \<Rightarrow> None | Some elen \<Rightarrow>
           let pos = pos + 4 in
           if pos + elen > ext_end then Some []
           else if etype = unat EXT_ALPN \<and> elen \<ge> 3 then
             (case be16 h pos of None \<Rightarrow> None | Some list_len \<Rightarrow>
              alpn_names h (pos + 2) (min (pos + 2 + list_len) (pos + elen)))
           else alpn_extensions h (pos + elen) ext_end)
      else Some [])"
  by pat_completeness auto
termination by (relation "measure (\<lambda>(h, p, e). e - p)") auto

declare alpn_names.simps [simp del] alpn_extensions.simps [simp del]

definition extract_alpn_from_client_hello :: "bytes \<Rightarrow> bytes list option" where
  "extract_alpn_from_client_hello h =
     (if idx h 5 \<noteq> Some 0x01 then Some []
      else
        let pos = 5 + 4 + (2 + 32) in
        if pos \<ge> length h then Some []
        else
          let session_id_len = (case idx h pos of Some n \<Rightarrow> n | None \<Rightarrow> 0);
              pos = pos + (1 + session_id_len)
          in if pos + 2 > length h then Some []
             else case be16 h pos of None \<Rightarrow> None | Some cipher_len \<Rightarrow>
               let pos = pos + (2 + cipher_len) in
               if pos \<ge> length h then Some []
               else
                 let comp_len = (case idx h pos of Some n \<Rightarrow> n | None \<Rightarrow> 0);
                     pos = pos + (1 + comp_len)
                 in if pos + 2 > length h then Some []
                    else case be16 h pos of None \<Rightarrow> None | Some ext_len \<Rightarrow>
                      let pos = pos + 2; ext_end = pos + ext_len in
                      if ext_end > length h then Some [] else alpn_extensions h pos ext_end)"

subsection \<open>No panics\<close>

text \<open>No input makes a parser panic: the loops stay inside the extension block, which is inside the hello.\<close>

lemma in_range [simp]:
  "i < length h \<Longrightarrow> idx h i = Some (unat (h ! i))"
  "i + 1 < length h \<Longrightarrow> be16 h i = Some (unat (u16_from_be_bytes [h ! i, h ! (i + 1)]))"
  "i \<le> j \<Longrightarrow> j \<le> length h \<Longrightarrow> slice h i j = Some (subslice h i j)"
  by (simp_all add: idx_def be16_def slice_def)

definition host_in :: "bytes \<Rightarrow> bytes \<Rightarrow> bool" where
  "host_in h host \<longleftrightarrow> host \<noteq> [] \<and> utf8_valid host \<and> (\<exists>i. i + length host \<le> length h \<and> host = subslice h i (i + length host))"

lemma sni_names_safe:
  "sn_end \<le> length h \<Longrightarrow> \<exists>r. sni_names h sn_pos sn_end = Some r \<and> (\<forall>host. r = Some host \<longrightarrow> host_in h host)"
proof (induction h sn_pos sn_end rule: sni_names.induct)
  case (1 h sn_pos sn_end)
  show ?case
  proof (cases "sn_pos + 3 \<le> sn_end")
    case True
    define n where "n = unat (u16_from_be_bytes [h ! (sn_pos + 1), h ! (sn_pos + 1 + 1)])"
    have i: "idx h sn_pos = Some (unat (h ! sn_pos))" "be16 h (sn_pos + 1) = Some n" using 1 True by (simp_all add: n_def)
    show ?thesis
    proof (cases "sn_pos + 3 + n > sn_end")
      case True
      then show ?thesis using i by (subst sni_names.simps) simp
    next
      case False
      then have sl: "slice h (sn_pos + 3) (sn_pos + 3 + n) = Some (subslice h (sn_pos + 3) (sn_pos + 3 + n))" using 1 by simp
      let ?host = "subslice h (sn_pos + 3) (sn_pos + 3 + n)"
      have len: "length ?host = n" using False 1 by (simp add: length_subslice)
      have "n > 0 \<Longrightarrow> utf8_valid ?host \<Longrightarrow> host_in h ?host"
        using False 1 len unfolding host_in_def by (intro conjI exI [of _ "sn_pos + 3"]) auto
      then show ?thesis using 1 True False i sl by (subst sni_names.simps) simp
    qed
  qed (subst sni_names.simps, simp)
qed

lemma sni_extensions_safe:
  "ext_end \<le> length h \<Longrightarrow> \<exists>r. sni_extensions h pos ext_end = Some r \<and> (\<forall>host. r = Some host \<longrightarrow> host_in h host)"
proof (induction h pos ext_end rule: sni_extensions.induct)
  case (1 h pos ext_end)
  show ?case
  proof (cases "pos + 4 \<le> ext_end")
    case True
    define t where "t = unat (u16_from_be_bytes [h ! pos, h ! (pos + 1)])"
    define n where "n = unat (u16_from_be_bytes [h ! (pos + 2), h ! (pos + 2 + 1)])"
    have i: "be16 h pos = Some t" "be16 h (pos + 2) = Some n" using 1 True by (simp_all add: t_def n_def)
    show ?thesis
    proof (cases "pos + 4 + n > ext_end")
      case True
      then show ?thesis using i by (subst sni_extensions.simps) (simp add: Let_def)
    next
      case False
      note IH = 1(1,2) [OF True i]
      show ?thesis
      proof (cases "t = 0 \<and> n \<ge> 5")
        case True
        define l where "l = unat (u16_from_be_bytes [h ! (pos + 4), h ! (pos + 4 + 1)])"
        have l: "be16 h (pos + 4) = Some l" using 1 False True by (simp add: l_def)
        have "min (pos + 4 + 2 + l) (pos + 4 + n) \<le> length h" using False 1(3) by simp
        from sni_names_safe [OF this, of "pos + 4 + 2"]
        obtain r where r: "sni_names h (pos + 4 + 2) (min (pos + 4 + 2 + l) (pos + 4 + n)) = Some r"
            "\<forall>host. r = Some host \<longrightarrow> host_in h host"
          by blast
        show ?thesis
        proof (cases r)
          case None
          then show ?thesis
            using IH(1) [OF refl False True l r(1) None 1(3)] True False i l r \<open>pos + 4 \<le> ext_end\<close>
            by (subst sni_extensions.simps) (simp add: Let_def)
        next
          case (Some host)
          then show ?thesis
            using True False i l r \<open>pos + 4 \<le> ext_end\<close> by (subst sni_extensions.simps) (simp add: Let_def)
        qed
      next
        case other: False
        then show ?thesis
          using IH(2) [OF refl False other 1(3)] False other i \<open>pos + 4 \<le> ext_end\<close>
          by (subst sni_extensions.simps) (auto simp: Let_def)
      qed
    qed
  qed (subst sni_extensions.simps, simp)
qed

lemma extract_sni_safe:
  "\<exists>r. extract_sni_from_client_hello h = Some r \<and> (\<forall>host. r = Some host \<longrightarrow> host_in h host)"
proof -
  have "x \<le> length h \<Longrightarrow> \<exists>r. sni_extensions h pos x = Some r \<and> (\<forall>host. r = Some host \<longrightarrow> host_in h host)" for pos x
    by (rule sni_extensions_safe)
  then show ?thesis
    unfolding extract_sni_from_client_hello_def Let_def
    by (auto simp: not_less idx_def be16_def split: option.splits)
qed

lemma alpn_names_safe: "list_end \<le> length h \<Longrightarrow> \<exists>ps. alpn_names h lp list_end = Some ps"
proof (induction h lp list_end rule: alpn_names.induct)
  case (1 h lp list_end)
  then show ?case by (subst alpn_names.simps) (auto simp: idx_def slice_def)
qed

lemma alpn_extensions_safe: "\<not> length h < ext_end \<Longrightarrow> \<exists>ps. alpn_extensions h pos ext_end = Some ps"
proof (induction h pos ext_end rule: alpn_extensions.induct)
  case (1 h pos ext_end)
  have "\<exists>ps. alpn_names h p (min q r) = Some ps" if "\<not> ext_end < r" for p q r
    using that 1(2) by (intro alpn_names_safe) auto
  with 1 show ?case
    by (subst alpn_extensions.simps) (auto simp: be16_def Let_def)
qed

lemma extract_alpn_safe: "\<exists>ps. extract_alpn_from_client_hello h = Some ps"
  unfolding extract_alpn_from_client_hello_def Let_def
  by (auto simp: be16_def intro: alpn_extensions_safe split: option.splits)

declare in_range [simp del]

subsection \<open>What the parsers find\<close>

text \<open>The hello of RFC 8446, with its extensions as a list of types and contents.\<close>

definition enc_ext :: "u16 \<times> bytes \<Rightarrow> bytes" where
  "enc_ext e = u16_to_be_bytes (fst e) @ u16_to_be_bytes (word_of_nat (length (snd e))) @ snd e"

definition enc_exts :: "(u16 \<times> bytes) list \<Rightarrow> bytes" where
  "enc_exts es = concat (map enc_ext es)"

definition sni_data :: "bytes \<Rightarrow> bytes" where
  "sni_data host = u16_to_be_bytes (word_of_nat (3 + length host)) @ [0] @ u16_to_be_bytes (word_of_nat (length host)) @ host"

definition alpn_list :: "bytes list \<Rightarrow> bytes" where
  "alpn_list ps = concat (map (\<lambda>p. word_of_nat (length p) # p) ps)"

definition alpn_data :: "bytes list \<Rightarrow> bytes" where
  "alpn_data ps = u16_to_be_bytes (word_of_nat (length (alpn_list ps))) @ alpn_list ps"

definition enc_hello :: "bytes \<Rightarrow> bytes \<Rightarrow> bytes \<Rightarrow> bytes \<Rightarrow> bytes \<Rightarrow> (u16 \<times> bytes) list \<Rightarrow> bytes" where
  "enc_hello lens random sid ciphers comps es =
     [0x16, 0x03, 0x01] @ take 2 lens @ [0x01] @ drop 2 lens @ TLS_VERSION @ random @ [word_of_nat (length sid)] @ sid @
     u16_to_be_bytes (word_of_nat (length ciphers)) @ ciphers @ [word_of_nat (length comps)] @ comps @
     u16_to_be_bytes (word_of_nat (length (enc_exts es))) @ enc_exts es"

definition ext_ok :: "u16 \<times> bytes \<Rightarrow> bool" where
  "ext_ok e \<longleftrightarrow> length (snd e) < 65536"

lemma two_bytes: "length bs = 2 \<Longrightarrow> [(P @ bs @ Q) ! length P, (P @ bs @ Q) ! (length P + 1)] = bs"
  by (cases bs rule: list.exhaust; cases "tl bs") (auto simp: nth_append)

lemma be16_at:
  assumes "length P = i"
  shows "be16 (P @ u16_to_be_bytes x @ Q) i = Some (unat x)"
  using two_bytes [of "u16_to_be_bytes x" P Q] assms by (simp add: be16_def)

lemma be16_at_len:
  assumes "length P = i" "n < 65536"
  shows "be16 (P @ u16_to_be_bytes (word_of_nat n) @ Q) i = Some n"
  using be16_at [OF assms(1), of "word_of_nat n" Q] assms(2) by (simp add: unat_of_nat)

lemma idx_at: "length P = i \<Longrightarrow> idx (P @ b # Q) i = Some (unat b)"
  by (auto simp: idx_def nth_append)

lemma idx_at_len: "length P = i \<Longrightarrow> n < 256 \<Longrightarrow> idx (P @ word_of_nat n # Q) i = Some n"
  by (simp add: idx_at unat_of_nat)

lemma slice_at: "length P = i \<Longrightarrow> j = i + length xs \<Longrightarrow> slice (P @ xs @ Q) i j = Some xs"
  by (auto simp: slice_def subslice_def)

lemma length_enc_ext [simp]: "length (enc_ext e) = 4 + length (snd e)"
  by (simp add: enc_ext_def)

text \<open>The head of an extension, wherever it is.\<close>

lemma ext_head:
  assumes "ext_ok e"
  shows "be16 (P @ enc_ext e @ Q) (length P) = Some (unat (fst e))"
    "be16 (P @ enc_ext e @ Q) (length P + 2) = Some (length (snd e))"
proof -
  show "be16 (P @ enc_ext e @ Q) (length P) = Some (unat (fst e))"
    using be16_at [of P "length P" "fst e"] by (simp add: enc_ext_def)
  show "be16 (P @ enc_ext e @ Q) (length P + 2) = Some (length (snd e))"
    using be16_at_len [of "P @ u16_to_be_bytes (fst e)" "length P + 2" "length (snd e)" "snd e @ Q"] assms
    by (simp add: enc_ext_def ext_ok_def)
qed

lemma sni_skip:
  assumes "ext_ok e" "fst e \<noteq> 0"
  shows "sni_extensions (P @ enc_ext e @ Q) (length P) (length (P @ enc_ext e @ Q)) =
    sni_extensions ((P @ enc_ext e) @ Q) (length (P @ enc_ext e)) (length ((P @ enc_ext e) @ Q))"
  using ext_head [OF assms(1), of P Q] assms(2)
  by (subst sni_extensions.simps) (simp add: Let_def unat_eq_0 add.assoc)

lemma sni_hit:
  assumes "host \<noteq> []" "utf8_valid host" "length host < 65531"
  shows "sni_extensions (P @ enc_ext (0, sni_data host) @ Q) (length P) (length (P @ enc_ext (0, sni_data host) @ Q)) =
    Some (Some host)"
proof -
  let ?e = "(0, sni_data host) :: u16 \<times> bytes" and ?h = "P @ enc_ext (0, sni_data host) @ Q"
  let ?n = "length host"
  have l: "length (sni_data host) = 5 + ?n" by (simp add: sni_data_def)
  have e: "ext_ok ?e" using assms(3) by (simp add: ext_ok_def l)
  let ?P4 = "P @ u16_to_be_bytes 0 @ u16_to_be_bytes (word_of_nat (5 + ?n))"
  let ?P6 = "?P4 @ u16_to_be_bytes (word_of_nat (3 + ?n))"
  have h: "?h = ?P4 @ u16_to_be_bytes (word_of_nat (3 + ?n)) @ 0 # u16_to_be_bytes (word_of_nat ?n) @ host @ Q"
    by (simp add: enc_ext_def l) (simp add: sni_data_def)
  have lp: "length ?P4 = length P + 4" "length ?P6 = length P + 6" by simp_all
  have b: "be16 ?h (length P + 4) = Some (3 + ?n)" unfolding h by (rule be16_at_len) (use assms(3) lp in simp_all)
  have h6: "?h = ?P6 @ 0 # u16_to_be_bytes (word_of_nat ?n) @ host @ Q" unfolding h by simp
  have i: "idx ?h (length P + 6) = Some 0" unfolding h6 using idx_at [OF lp(2), of 0] by simp
  have h7: "?h = (?P6 @ [0]) @ u16_to_be_bytes (word_of_nat ?n) @ host @ Q" unfolding h by simp
  have c: "be16 ?h (length P + 6 + 1) = Some ?n" unfolding h7 by (rule be16_at_len) (use assms(3) lp in simp_all)
  have h9: "?h = (?P6 @ [0] @ u16_to_be_bytes (word_of_nat ?n)) @ host @ Q" unfolding h by simp
  have s: "slice ?h (length P + 6 + 3) (length P + 6 + 3 + ?n) = Some host" unfolding h9 by (rule slice_at) (use lp in simp_all)
  have names: "sni_names ?h (length P + 6) (length P + 9 + ?n) = Some (Some host)"
    using i c s assms by (subst sni_names.simps) simp
  show ?thesis
    using ext_head [OF e, of P Q] b names by (subst sni_extensions.simps) (simp add: Let_def l ac_simps)
qed

lemma alpn_skip:
  assumes "ext_ok e" "fst e \<noteq> EXT_ALPN"
  shows "alpn_extensions (P @ enc_ext e @ Q) (length P) (length (P @ enc_ext e @ Q)) =
    alpn_extensions ((P @ enc_ext e) @ Q) (length (P @ enc_ext e)) (length ((P @ enc_ext e) @ Q))"
  using ext_head [OF assms(1), of P Q] assms(2)
  by (subst alpn_extensions.simps) (simp add: Let_def word_unat_eq_iff add.assoc)

lemma alpn_names_list:
  "\<forall>p \<in> set ps. length p < 256 \<Longrightarrow>
    alpn_names (P @ alpn_list ps @ Q) (length P) (length P + length (alpn_list ps)) = Some ps"
proof (induction ps arbitrary: P)
  case Nil
  then show ?case by (subst alpn_names.simps) (simp add: alpn_list_def)
next
  case (Cons p ps)
  let ?h = "P @ alpn_list (p # ps) @ Q" and ?P = "P @ word_of_nat (length p) # p"
  have l: "length (alpn_list (p # ps)) = 1 + length p + length (alpn_list ps)" by (simp add: alpn_list_def)
  have h: "?h = P @ word_of_nat (length p) # p @ alpn_list ps @ Q" by (simp add: alpn_list_def)
  have i: "idx ?h (length P) = Some (length p)" unfolding h using Cons.prems by (intro idx_at_len) simp_all
  have h1: "?h = (P @ [word_of_nat (length p)]) @ p @ alpn_list ps @ Q" unfolding h by simp
  have s: "slice ?h (length P + 1) (length P + 1 + length p) = Some p" unfolding h1 by (rule slice_at) simp_all
  have h2: "?h = ?P @ alpn_list ps @ Q" unfolding h by simp
  have "alpn_names ?h (length P + 1 + length p) (length P + length (alpn_list (p # ps))) = Some ps"
    using Cons.IH [of ?P] Cons.prems unfolding h2 by (simp add: alpn_list_def add.assoc)
  then show ?case using i s l by (subst alpn_names.simps) simp
qed

lemma alpn_hit:
  assumes "\<forall>p \<in> set ps. length p < 256" "ps \<noteq> []" "length (alpn_list ps) < 65534"
  shows "alpn_extensions (P @ enc_ext (EXT_ALPN, alpn_data ps) @ Q) (length P)
    (length (P @ enc_ext (EXT_ALPN, alpn_data ps) @ Q)) = Some ps"
proof -
  let ?e = "(EXT_ALPN, alpn_data ps)" and ?n = "length (alpn_list ps)"
  let ?h = "P @ enc_ext ?e @ Q"
  have l: "length (alpn_data ps) = 2 + ?n" by (simp add: alpn_data_def)
  have e: "ext_ok ?e" using assms(3) by (simp add: ext_ok_def l)
  have n: "1 \<le> ?n" using assms(2) by (cases ps) (simp_all add: alpn_list_def)
  let ?P4 = "P @ u16_to_be_bytes EXT_ALPN @ u16_to_be_bytes (word_of_nat (2 + ?n))"
  let ?P6 = "?P4 @ u16_to_be_bytes (word_of_nat ?n)"
  have h: "?h = ?P4 @ u16_to_be_bytes (word_of_nat ?n) @ alpn_list ps @ Q"
    by (simp add: enc_ext_def l) (simp add: alpn_data_def)
  have lp: "length ?P4 = length P + 4" "length ?P6 = length P + 6" by simp_all
  have b: "be16 ?h (length P + 4) = Some ?n" unfolding h by (rule be16_at_len) (use assms(3) lp in simp_all)
  have h6: "?h = ?P6 @ alpn_list ps @ Q" unfolding h by simp
  have "alpn_names ?h (length P + 6) (length P + 6 + ?n) = Some ps"
    unfolding h6 using alpn_names_list [OF assms(1), of ?P6 Q] lp by (simp add: ac_simps)
  then show ?thesis
    using ext_head [OF e, of P Q] b n by (subst alpn_extensions.simps) (simp add: Let_def l ac_simps)
qed

text \<open>Up to the extensions, both parsers walk over the fixed part of the hello.\<close>

definition hello_head :: "bytes \<Rightarrow> bytes \<Rightarrow> bytes \<Rightarrow> bytes \<Rightarrow> bytes \<Rightarrow> nat \<Rightarrow> bytes" where
  "hello_head lens random sid ciphers comps n =
     ([0x16, 0x03, 0x01] @ take 2 lens @ [0x01] @ drop 2 lens @ TLS_VERSION @ random) @ [word_of_nat (length sid)] @ sid @
     u16_to_be_bytes (word_of_nat (length ciphers)) @ ciphers @ [word_of_nat (length comps)] @ comps @
     u16_to_be_bytes (word_of_nat n)"

definition hello_ok :: "bytes \<Rightarrow> bytes \<Rightarrow> bytes \<Rightarrow> bytes \<Rightarrow> bytes \<Rightarrow> (u16 \<times> bytes) list \<Rightarrow> bool" where
  "hello_ok lens random sid ciphers comps es \<longleftrightarrow> length lens = 5 \<and> length random = 32 \<and> length sid < 256 \<and>
     length ciphers < 65536 \<and> length comps < 256 \<and> list_all ext_ok es \<and> length (enc_exts es) < 65536"

lemma hello_walk:
  assumes "hello_ok lens random sid ciphers comps es"
  defines "h \<equiv> enc_hello lens random sid ciphers comps es"
    and "P \<equiv> hello_head lens random sid ciphers comps (length (enc_exts es))"
  shows "h = P @ enc_exts es"
    "extract_sni_from_client_hello h = sni_extensions h (length P) (length h)"
    "extract_alpn_from_client_hello h = alpn_extensions h (length P) (length h)"
proof -
  let ?A = "[0x16, 0x03, 0x01] @ take 2 lens @ [0x01] @ drop 2 lens @ TLS_VERSION @ random :: bytes"
  let ?cl = "u16_to_be_bytes (word_of_nat (length ciphers))" and ?el = "u16_to_be_bytes (word_of_nat (length (enc_exts es)))"
  let ?s = "length sid" and ?c = "length ciphers" and ?m = "length comps" and ?n = "length (enc_exts es)"
  show h: "h = P @ enc_exts es" by (simp add: h_def P_def enc_hello_def hello_head_def)
  have A: "length ?A = 43" using assms(1) by (simp add: hello_ok_def TLS_VERSION_def)
  have 0: "h = ?A @ word_of_nat ?s # sid @ ?cl @ ciphers @ word_of_nat ?m # comps @ ?el @ enc_exts es"
    by (simp add: h_def enc_hello_def)
  have len: "length h = 49 + ?s + ?c + ?m + ?n" unfolding 0 using A by simp
  have lP: "length P = 49 + ?s + ?c + ?m" using len unfolding h by simp
  have i0: "idx h 0 = Some 0x16" unfolding 0 by (simp add: idx_def)
  have "h = ([0x16, 0x03, 0x01] @ take 2 lens) @ 0x01 # drop 2 lens @ TLS_VERSION @ random @ word_of_nat ?s # sid @ ?cl @ ciphers @
      word_of_nat ?m # comps @ ?el @ enc_exts es" unfolding 0 by simp
  then have i5: "idx h 5 = Some 1" using assms(1) by (simp add: hello_ok_def idx_def nth_append)
  have i43: "idx h 43 = Some ?s" unfolding 0 by (rule idx_at_len) (use A assms(1) in \<open>simp_all add: hello_ok_def\<close>)
  have "h = (?A @ [word_of_nat ?s] @ sid) @ ?cl @ ciphers @ word_of_nat ?m # comps @ ?el @ enc_exts es" unfolding 0 by simp
  then have b1: "be16 h (44 + ?s) = Some ?c"
    using be16_at_len [of "?A @ [word_of_nat ?s] @ sid" "44 + ?s" ?c] A assms(1) by (simp add: hello_ok_def)
  have "h = (?A @ [word_of_nat ?s] @ sid @ ?cl @ ciphers) @ word_of_nat ?m # comps @ ?el @ enc_exts es" unfolding 0 by simp
  then have i2: "idx h (46 + ?s + ?c) = Some ?m"
    using idx_at_len [of "?A @ [word_of_nat ?s] @ sid @ ?cl @ ciphers" "46 + ?s + ?c" ?m] A assms(1) by (simp add: hello_ok_def)
  have "h = (?A @ [word_of_nat ?s] @ sid @ ?cl @ ciphers @ [word_of_nat ?m] @ comps) @ ?el @ enc_exts es" unfolding 0 by simp
  then have b2: "be16 h (47 + ?s + ?c + ?m) = Some ?n"
    using be16_at_len [of "?A @ [word_of_nat ?s] @ sid @ ?cl @ ciphers @ [word_of_nat ?m] @ comps" "47 + ?s + ?c + ?m" ?n] A assms(1)
    by (simp add: hello_ok_def)
  note reads = i0 i5 i43 b1 i2 b2
  have hs: "unat TLS_RECORD_HANDSHAKE = 22" by (simp add: TLS_RECORD_HANDSHAKE_def)
  show "extract_sni_from_client_hello h = sni_extensions h (length P) (length h)"
    using reads len lP hs by (simp add: extract_sni_from_client_hello_def Let_def ac_simps)
  show "extract_alpn_from_client_hello h = alpn_extensions h (length P) (length h)"
    using reads len lP hs by (simp add: extract_alpn_from_client_hello_def Let_def ac_simps)
qed

lemma sni_walk:
  assumes "list_all ext_ok es" "find (\<lambda>e. fst e = 0) es = Some (0, sni_data host)" "host \<noteq> []" "utf8_valid host"
  shows "sni_extensions (P @ enc_exts es) (length P) (length (P @ enc_exts es)) = Some (Some host)"
  using assms
proof (induction es arbitrary: P)
  case (Cons e es)
  show ?case
  proof (cases "fst e = 0")
    case True
    then have e: "e = (0, sni_data host)" using Cons.prems by simp
    then have "length host < 65531" using Cons.prems by (simp add: ext_ok_def sni_data_def)
    from sni_hit [OF Cons.prems(3,4) this, of P "enc_exts es"] show ?thesis by (simp add: e enc_exts_def)
  next
    case False
    then show ?thesis using sni_skip [of e P "enc_exts es"] Cons.IH [of "P @ enc_ext e"] Cons.prems by (simp add: enc_exts_def)
  qed
qed simp

lemma alpn_walk:
  assumes "list_all ext_ok es" "find (\<lambda>e. fst e = EXT_ALPN) es = Some (EXT_ALPN, alpn_data ps)"
    "\<forall>p \<in> set ps. length p < 256" "ps \<noteq> []"
  shows "alpn_extensions (P @ enc_exts es) (length P) (length (P @ enc_exts es)) = Some ps"
  using assms
proof (induction es arbitrary: P)
  case (Cons e es)
  show ?case
  proof (cases "fst e = EXT_ALPN")
    case True
    then have e: "e = (EXT_ALPN, alpn_data ps)" using Cons.prems by simp
    then have "length (alpn_list ps) < 65534" using Cons.prems by (simp add: ext_ok_def alpn_data_def)
    from alpn_hit [OF Cons.prems(3,4) this, of P "enc_exts es"] show ?thesis by (simp add: e enc_exts_def)
  next
    case False
    then show ?thesis using alpn_skip [of e P "enc_exts es"] Cons.IH [of "P @ enc_ext e"] Cons.prems by (simp add: enc_exts_def)
  qed
qed simp

text \<open>C21: The two parsers of the ClientHello never read outside it: whatever bytes a client sends, both
  return, no index is out of range, and a host name they report is a non-empty, valid UTF-8 substring of
  the hello.\<close>

theorem client_hello_parsers_safe:
  "(\<exists>r. extract_sni_from_client_hello h = Some r \<and>
      (\<forall>host. r = Some host \<longrightarrow> host \<noteq> [] \<and> utf8_valid host \<and> (\<exists>i. i + length host \<le> length h \<and> host = subslice h i (i + length host)))) \<and>
   (\<exists>ps. extract_alpn_from_client_hello h = Some ps)"
  using extract_sni_safe [of h] extract_alpn_safe [of h] unfolding host_in_def by blast

text \<open>A hello with a key share, a server name and two application protocols.\<close>

definition sample_tls_hello :: bytes where
  "sample_tls_hello = enc_hello [0, 0, 0, 0, 0] (replicate 32 7) [1, 2] [0x13, 0x01] [0]
     [(0x33, [9]), (0, sni_data [0x61, 0x2e, 0x62]), (EXT_ALPN, alpn_data [[0x68, 0x32], [0x68]])]"

theorem client_hello_parsers_safe_witness:
  "\<exists>r ps. extract_sni_from_client_hello sample_tls_hello = Some r \<and> extract_alpn_from_client_hello sample_tls_hello = Some ps"
  using client_hello_parsers_safe [of sample_tls_hello] by blast

text \<open>C22: In a well-formed ClientHello with any fields and any extensions in any order, the parsers find
  exactly the host of the first server-name extension and exactly the protocols of the first ALPN
  extension.\<close>

theorem client_hello_roundtrip:
  assumes "hello_ok lens random sid ciphers comps es"
    and "find (\<lambda>e. fst e = 0) es = Some (0, sni_data host)" "host \<noteq> []" "utf8_valid host"
    and "find (\<lambda>e. fst e = EXT_ALPN) es = Some (EXT_ALPN, alpn_data ps)" "ps \<noteq> []" "\<forall>p \<in> set ps. length p < 256"
  shows "extract_sni_from_client_hello (enc_hello lens random sid ciphers comps es) = Some (Some host) \<and>
    extract_alpn_from_client_hello (enc_hello lens random sid ciphers comps es) = Some ps"
proof -
  have es: "list_all ext_ok es" using assms(1) by (simp add: hello_ok_def)
  show ?thesis
    using hello_walk [OF assms(1)] sni_walk [OF es assms(2-4)] alpn_walk [OF es assms(5,7,6)] by simp
qed

theorem client_hello_roundtrip_witness:
  "extract_sni_from_client_hello sample_tls_hello = Some (Some [0x61, 0x2e, 0x62]) \<and>
   extract_alpn_from_client_hello sample_tls_hello = Some [[0x68, 0x32], [0x68]]"
  unfolding sample_tls_hello_def
  by (rule client_hello_roundtrip)
    (simp_all add: hello_ok_def ext_ok_def enc_exts_def enc_ext_def sni_data_def alpn_data_def alpn_list_def EXT_ALPN_def utf8_valid.simps)

end
