(* ===== verification/Net_Text.thy ===== *)
theory Net_Text
  imports Prelude
begin

section \<open>Text forms of addresses and numbers\<close>

text \<open>
  What the sources use of the standard library's text conversions: \<open>str::trim\<close> and \<open>split_whitespace\<close> (over
  the Unicode white space), \<open>u16::from_str\<close>, \<open>IpAddr::from_str\<close>, \<open>Ipv6Addr::from_str\<close> and the \<open>Display\<close>
  of addresses and numbers. A \<open>str\<close> is its UTF-8 bytes.
\<close>

subsection \<open>Writing text\<close>

text \<open>The bytes of an ASCII literal, and \<open>join\<close> with a separator.\<close>

definition ascii :: "string \<Rightarrow> bytes" where
  "ascii s = map (\<lambda>c. word_of_nat (of_char c)) s"

fun join :: "bytes \<Rightarrow> bytes list \<Rightarrow> bytes" where
  "join sep [] = []"
| "join sep [x] = x"
| "join sep (x # y # xs) = x @ sep @ join sep (y # xs)"

definition ends_with :: "bytes \<Rightarrow> bytes \<Rightarrow> bool" where
  "ends_with s suffix \<longleftrightarrow> length suffix \<le> length s \<and> drop (length s - length suffix) s = suffix"

definition digit_char :: "nat \<Rightarrow> byte" where
  "digit_char d = (if d < 10 then 0x30 + word_of_nat d else 0x61 + word_of_nat (d - 10))"

function show_radix :: "nat \<Rightarrow> nat \<Rightarrow> bytes" where
  "show_radix radix n =
     (if radix < 2 \<or> n < radix then [digit_char n]
      else show_radix radix (n div radix) @ [digit_char (n mod radix)])"
  by pat_completeness auto
termination
  by (relation "measure snd") auto

declare show_radix.simps [simp del]

definition dec_nat :: "nat \<Rightarrow> bytes" where
  "dec_nat n = show_radix 10 n"

definition dec_int :: "int \<Rightarrow> bytes" where
  "dec_int i = (if i < 0 then 0x2d # dec_nat (nat (- i)) else dec_nat (nat i))"

definition hex_nat :: "nat \<Rightarrow> bytes" where
  "hex_nat n = show_radix 16 n"

subsection \<open>White space\<close>

text \<open>Length of the white-space character at the head of a UTF-8 string, 0 if there is none.\<close>

fun ws_len :: "bytes \<Rightarrow> nat" where
  "ws_len (a # b # c # bs) =
     (if 0x09 \<le> a \<and> a \<le> 0x0d \<or> a = 0x20 then 1
      else if a = 0xc2 \<and> (b = 0x85 \<or> b = 0xa0) then 2
      else if a = 0xe1 \<and> b = 0x9a \<and> c = 0x80 then 3
      else if a = 0xe2 \<and> b = 0x80 \<and> (0x80 \<le> c \<and> c \<le> 0x8a \<or> c = 0xa8 \<or> c = 0xa9 \<or> c = 0xaf) then 3
      else if a = 0xe2 \<and> b = 0x81 \<and> c = 0x9f then 3
      else if a = 0xe3 \<and> b = 0x80 \<and> c = 0x80 then 3
      else 0)"
| "ws_len [a, b] =
     (if 0x09 \<le> a \<and> a \<le> 0x0d \<or> a = 0x20 then 1 else if a = 0xc2 \<and> (b = 0x85 \<or> b = 0xa0) then 2 else 0)"
| "ws_len [a] = (if 0x09 \<le> a \<and> a \<le> 0x0d \<or> a = 0x20 then 1 else 0)"
| "ws_len [] = 0"

lemma ws_len_bound: "ws_len bs \<le> length bs"
  by (induction bs rule: ws_len.induct) auto

text \<open>The words of \<open>split_whitespace\<close>; \<open>cur\<close> is the word being read.\<close>

function split_ws :: "bytes \<Rightarrow> bytes \<Rightarrow> bytes list" where
  "split_ws cur bs =
     (if bs = [] then (if cur = [] then [] else [cur])
      else if ws_len bs = 0 then split_ws (cur @ [hd bs]) (tl bs)
      else (if cur = [] then id else (#) cur) (split_ws [] (drop (ws_len bs) bs)))"
  by pat_completeness auto
termination
  by (relation "measure (\<lambda>(cur, bs). length bs)") (auto simp: Suc_leI)

declare split_ws.simps [simp del]

definition split_whitespace :: "bytes \<Rightarrow> bytes list" where
  "split_whitespace bs = split_ws [] bs"

function trim_start :: "bytes \<Rightarrow> bytes" where
  "trim_start bs = (if bs = [] \<or> ws_len bs = 0 then bs else trim_start (drop (ws_len bs) bs))"
  by pat_completeness auto
termination
  by (relation "measure length") auto

declare trim_start.simps [simp del]

text \<open>\<open>trim_end\<close> keeps up to the last character that is not white space.\<close>

function trim_end_from :: "bytes \<Rightarrow> bytes \<Rightarrow> bytes \<Rightarrow> bytes" where
  "trim_end_from kept pend bs =
     (if bs = [] then kept
      else if ws_len bs = 0 then trim_end_from (kept @ pend @ [hd bs]) [] (tl bs)
      else trim_end_from kept (pend @ take (ws_len bs) bs) (drop (ws_len bs) bs))"
  by pat_completeness auto
termination
  by (relation "measure (\<lambda>(k, p, bs). length bs)") auto

declare trim_end_from.simps [simp del]

definition trim :: "bytes \<Rightarrow> bytes" where
  "trim bs = trim_end_from [] [] (trim_start bs)"

subsection \<open>Numbers\<close>

definition digit_value :: "nat \<Rightarrow> byte \<Rightarrow> nat option" where
  "digit_value radix b =
     (let v = (if 0x30 \<le> b \<and> b \<le> 0x39 then Some (unat b - 0x30)
               else if 0x61 \<le> b \<and> b \<le> 0x7a then Some (unat b - 0x61 + 10)
               else if 0x41 \<le> b \<and> b \<le> 0x5a then Some (unat b - 0x41 + 10)
               else None)
      in case v of Some d \<Rightarrow> if d < radix then Some d else None | None \<Rightarrow> None)"

text \<open>\<open>u16::from_str\<close>: an optional plus sign and at least one digit, without overflow.\<close>

fun parse_digits :: "nat \<Rightarrow> bytes \<Rightarrow> nat option" where
  "parse_digits acc [] = Some acc"
| "parse_digits acc (b # bs) =
     (case digit_value 10 b of
        None \<Rightarrow> None
      | Some d \<Rightarrow> if acc * 10 + d < 65536 then parse_digits (acc * 10 + d) bs else None)"

definition parse_u16 :: "bytes \<Rightarrow> u16 option" where
  "parse_u16 bs =
     (let ds = (case bs of b # r \<Rightarrow> if b = 0x2b then r else bs | [] \<Rightarrow> bs)
      in if ds = [] then None else map_option word_of_nat (parse_digits 0 ds))"

definition parse_i16 :: "bytes \<Rightarrow> int option" where
  "parse_i16 bs =
     (case bs of
        [] \<Rightarrow> None
      | b # r \<Rightarrow>
          let neg = (b = 0x2d); ds = (if neg \<or> b = 0x2b then r else bs) in
          if ds = [] then None
          else case parse_digits 0 ds of
              None \<Rightarrow> None
            | Some v \<Rightarrow> if neg then (if v \<le> 32768 then Some (- int v) else None) else (if v \<le> 32767 then Some (int v) else None))"

text \<open>
  The number reader of the address parser: at most \<open>max_digits\<close> digits, at least one, the value at most
  \<open>bound\<close>, and without \<open>zero_prefix\<close> no second digit after a leading zero. The result comes with the rest of
  the text; a failed reader consumes nothing.
\<close>

fun read_digits :: "nat \<Rightarrow> nat \<Rightarrow> nat \<Rightarrow> nat \<Rightarrow> nat \<Rightarrow> bytes \<Rightarrow> (nat \<times> nat \<times> bytes) option" where
  "read_digits radix max_digits bound acc cnt [] = Some (acc, cnt, [])"
| "read_digits radix max_digits bound acc cnt (b # bs) =
     (case digit_value radix b of
        None \<Rightarrow> Some (acc, cnt, b # bs)
      | Some d \<Rightarrow>
          if max_digits < cnt + 1 \<or> bound < acc * radix + d then None
          else read_digits radix max_digits bound (acc * radix + d) (cnt + 1) bs)"

definition read_number :: "nat \<Rightarrow> nat \<Rightarrow> nat \<Rightarrow> bool \<Rightarrow> bytes \<Rightarrow> (nat \<times> bytes) option" where
  "read_number radix max_digits bound zero_prefix bs =
     (case read_digits radix max_digits bound 0 0 bs of
        None \<Rightarrow> None
      | Some (v, cnt, rest) \<Rightarrow>
          if cnt = 0 then None
          else if \<not> zero_prefix \<and> bs ! 0 = 0x30 \<and> 1 < cnt then None
          else Some (v, rest))"

definition read_char :: "byte \<Rightarrow> bytes \<Rightarrow> bytes option" where
  "read_char c bs = (case bs of b # r \<Rightarrow> if b = c then Some r else None | [] \<Rightarrow> None)"

text \<open>\<open>read_separator\<close>: the separator comes before every element but the first.\<close>

definition read_separator :: "byte \<Rightarrow> nat \<Rightarrow> (bytes \<Rightarrow> ('a \<times> bytes) option) \<Rightarrow> bytes \<Rightarrow> ('a \<times> bytes) option" where
  "read_separator sep index inner bs =
     (if 0 < index then (case read_char sep bs of None \<Rightarrow> None | Some r \<Rightarrow> inner r) else inner bs)"

subsection \<open>Addresses\<close>

fun read_octets :: "nat \<Rightarrow> nat \<Rightarrow> bytes \<Rightarrow> (bytes \<times> bytes) option" where
  "read_octets index 0 bs = Some ([], bs)"
| "read_octets index (Suc n) bs =
     (case read_separator 0x2e index (read_number 10 3 255 False) bs of
        None \<Rightarrow> None
      | Some (v, r) \<Rightarrow> map_option (\<lambda>(os, r'). (word_of_nat v # os, r')) (read_octets (Suc index) n r))"

definition read_ipv4 :: "bytes \<Rightarrow> (u32 \<times> bytes) option" where
  "read_ipv4 bs = map_option (\<lambda>(os, r). (v4_of_octets os, r)) (read_octets 0 4 bs)"

text \<open>\<open>read_groups\<close>: up to \<open>limit\<close> groups of four hexadecimal digits, the last two possibly as an IPv4 address. The
  result is the groups, whether they ended with an IPv4 address, and the rest.\<close>

fun read_groups :: "nat \<Rightarrow> nat \<Rightarrow> bytes \<Rightarrow> u16 list \<times> bool \<times> bytes" where
  "read_groups limit 0 bs = ([], False, bs)"
| "read_groups limit (Suc n) bs =
     (let i = limit - Suc n in
      case (if i < limit - 1 then read_separator 0x3a i read_ipv4 bs else None) of
        Some (a, r) \<Rightarrow> ([u16_from_be_bytes (take 2 (v4_octets a)), u16_from_be_bytes (drop 2 (v4_octets a))], True, r)
      | None \<Rightarrow>
          (case read_separator 0x3a i (read_number 16 4 65535 True) bs of
             None \<Rightarrow> ([], False, bs)
           | Some (g, r) \<Rightarrow> (case read_groups limit n r of (gs, ends_v4, r') \<Rightarrow> (word_of_nat g # gs, ends_v4, r'))))"

definition v6_of_segments :: "u16 list \<Rightarrow> u128" where
  "v6_of_segments gs = v6_of_octets (concat (map u16_to_be_bytes gs))"

definition segments :: "u128 \<Rightarrow> u16 list" where
  "segments a = map (\<lambda>i. u16_from_be_bytes (take 2 (drop (2 * i) (v6_octets a)))) [0 ..< 8]"

definition read_ipv6 :: "bytes \<Rightarrow> (u128 \<times> bytes) option" where
  "read_ipv6 bs =
     (case read_groups 8 8 bs of (head, head_ipv4, r) \<Rightarrow>
        if length head = 8 then Some (v6_of_segments head, r)
        else if head_ipv4 then None
        else case Option.bind (read_char 0x3a r) (read_char 0x3a) of
            None \<Rightarrow> None
          | Some r \<Rightarrow>
              let limit = 8 - (length head + 1) in
              case read_groups limit limit r of (tail, _, r) \<Rightarrow>
                Some (v6_of_segments (head @ replicate (8 - length head - length tail) 0 @ tail), r))"

definition whole :: "('a \<times> bytes) option \<Rightarrow> 'a option" where
  "whole x = (case x of Some (a, []) \<Rightarrow> Some a | _ \<Rightarrow> None)"

definition parse_ipv6 :: "bytes \<Rightarrow> u128 option" where
  "parse_ipv6 bs = whole (read_ipv6 bs)"

definition parse_ip :: "bytes \<Rightarrow> ip_addr option" where
  "parse_ip bs =
     whole (case read_ipv4 bs of
        Some (a, r) \<Rightarrow> Some (IpV4 a, r)
      | None \<Rightarrow> map_option (\<lambda>(a, r). (IpV6 a, r)) (read_ipv6 bs))"

text \<open>\<open>SocketAddr::from_str\<close>: \<open>a.b.c.d:port\<close>, or a bracketed IPv6 address with an optional scope and a port; the scope is not kept.\<close>

definition read_port :: "bytes \<Rightarrow> (u16 \<times> bytes) option" where
  "read_port bs =
     (case read_char 0x3a bs of
        None \<Rightarrow> None
      | Some r \<Rightarrow> map_option (\<lambda>(p, r). (word_of_nat p, r)) (read_number 10 (length r) 65535 True r))"

definition skip_scope :: "bytes \<Rightarrow> bytes" where
  "skip_scope bs =
     (case Option.bind (read_char 0x25 bs) (\<lambda>r. read_number 10 (length r) (2 ^ 32 - 1) True r) of Some (_, r) \<Rightarrow> r | None \<Rightarrow> bs)"

definition read_socket_v4 :: "bytes \<Rightarrow> (socket_addr \<times> bytes) option" where
  "read_socket_v4 bs =
     Option.bind (read_ipv4 bs) (\<lambda>(a, r). map_option (\<lambda>(p, r). (SocketAddr (IpV4 a) p, r)) (read_port r))"

definition read_socket_v6 :: "bytes \<Rightarrow> (socket_addr \<times> bytes) option" where
  "read_socket_v6 bs =
     Option.bind (read_char 0x5b bs) (\<lambda>r. Option.bind (read_ipv6 r) (\<lambda>(a, r).
       Option.bind (read_char 0x5d (skip_scope r)) (\<lambda>r. map_option (\<lambda>(p, r). (SocketAddr (IpV6 a) p, r)) (read_port r))))"

definition parse_socket_addr :: "bytes \<Rightarrow> socket_addr option" where
  "parse_socket_addr bs = whole (case read_socket_v4 bs of Some x \<Rightarrow> Some x | None \<Rightarrow> read_socket_v6 bs)"

fun is_ipv6 :: "socket_addr \<Rightarrow> bool" where
  "is_ipv6 (SocketAddr (IpV6 _) _) = True"
| "is_ipv6 (SocketAddr (IpV4 _) _) = False"

subsection \<open>Display\<close>

definition show_v4 :: "u32 \<Rightarrow> bytes" where
  "show_v4 a = join [0x2e] (map (\<lambda>b. dec_nat (unat b)) (v4_octets a))"

definition show_groups :: "u16 list \<Rightarrow> bytes" where
  "show_groups gs = join [0x3a] (map (\<lambda>g. hex_nat (unat g)) gs)"

text \<open>The first longest run of zero segments, as start and length.\<close>

fun zero_span :: "nat \<Rightarrow> nat \<times> nat \<Rightarrow> nat \<times> nat \<Rightarrow> u16 list \<Rightarrow> nat \<times> nat" where
  "zero_span i longest current [] = longest"
| "zero_span i longest current (g # gs) =
     (if g = 0 then
        let current = (if snd current = 0 then i else fst current, snd current + 1);
            longest = (if snd longest < snd current then current else longest)
        in zero_span (Suc i) longest current gs
      else zero_span (Suc i) longest (0, 0) gs)"

definition to_ipv4_mapped :: "u128 \<Rightarrow> u32 option" where
  "to_ipv4_mapped a =
     (let os = v6_octets a in
      if take 12 os = replicate 10 0 @ [0xff, 0xff] then Some (v4_of_octets (drop 12 os)) else None)"

definition show_v6 :: "u128 \<Rightarrow> bytes" where
  "show_v6 a =
     (case to_ipv4_mapped a of
        Some m \<Rightarrow> ascii ''::ffff:'' @ show_v4 m
      | None \<Rightarrow>
          let gs = segments a; (start, len) = zero_span 0 (0, 0) (0, 0) gs in
          if 1 < len then show_groups (take start gs) @ ascii ''::'' @ show_groups (drop (start + len) gs)
          else show_groups gs)"

fun show_ip :: "ip_addr \<Rightarrow> bytes" where
  "show_ip (IpV4 a) = show_v4 a"
| "show_ip (IpV6 a) = show_v6 a"

definition show_u16 :: "u16 \<Rightarrow> bytes" where
  "show_u16 p = dec_nat (unat p)"

fun show_socket_addr :: "socket_addr \<Rightarrow> bytes" where
  "show_socket_addr (SocketAddr (IpV4 a) p) = show_v4 a @ [0x3a] @ show_u16 p"
| "show_socket_addr (SocketAddr (IpV6 a) p) = [0x5b] @ show_v6 a @ [0x5d, 0x3a] @ show_u16 p"

text \<open>Text as a string of characters.\<close>

definition text_of :: "bytes \<Rightarrow> string" where
  "text_of bs = map (\<lambda>b. char_of (unat b)) bs"

subsection \<open>Reading inverts writing\<close>

lemma unat_digit_char: "d < 16 \<Longrightarrow> unat (digit_char d) = (if d < 10 then 48 + d else 87 + d)"
  by (auto simp: digit_char_def unat_word_ariths unat_of_nat)

lemma digit_value_char: "d < radix \<Longrightarrow> radix \<le> 16 \<Longrightarrow> digit_value radix (digit_char d) = Some d"
  by (auto simp: digit_value_def Let_def word_le_nat_alt unat_digit_char)

lemma show_radix_nonempty [simp]: "show_radix r n \<noteq> []"
  by (subst show_radix.simps) simp

lemma show_radix_step: "2 \<le> r \<Longrightarrow> \<not> n < r \<Longrightarrow> show_radix r n = show_radix r (n div r) @ [digit_char (n mod r)]"
  by (subst show_radix.simps) simp

lemma read_digits_show:
  assumes "radix \<le> 16"
  shows "2 \<le> radix \<Longrightarrow> c + length (show_radix radix n) \<le> m \<Longrightarrow> a * radix ^ length (show_radix radix n) + n \<le> bound \<Longrightarrow>
    read_digits radix m bound a c (show_radix radix n @ rest) =
    read_digits radix m bound (a * radix ^ length (show_radix radix n) + n) (c + length (show_radix radix n)) rest"
  using assms
proof (induction radix n arbitrary: rest rule: show_radix.induct)
  case (1 r n)
  show ?case
  proof (cases "n < r")
    case True
    then have "show_radix r n = [digit_char n]" by (subst show_radix.simps) simp
    then show ?thesis using 1(2-5) True by (simp add: digit_value_char)
  next
    case False
    let ?k = "length (show_radix r (n div r))"
    have s: "show_radix r n = show_radix r (n div r) @ [digit_char (n mod r)]" using 1(2) False by (rule show_radix_step)
    have mod: "n mod r < r" using 1(2) by simp
    have e: "(a * r ^ ?k + n div r) * r + n mod r = a * r ^ Suc ?k + n" by (simp add: algebra_simps)
    have "a * r ^ ?k + n div r \<le> (a * r ^ ?k + n div r) * r + n mod r" using 1(2) by (simp add: trans_le_add1)
    then have "a * r ^ ?k + n div r \<le> bound" using 1(4) unfolding e s by simp
    then show ?thesis
      using 1(1) [of "digit_char (n mod r) # rest"] 1(2-5) False digit_value_char [OF mod 1(5)] e
      by (simp add: s)
  qed
qed

lemma show_radix_length: "2 \<le> r \<Longrightarrow> 0 < k \<Longrightarrow> n < r ^ k \<Longrightarrow> length (show_radix r n) \<le> k"
proof (induction r n arbitrary: k rule: show_radix.induct)
  case (1 r n)
  show ?case
  proof (cases "n < r")
    case True
    then show ?thesis using 1(3) by (subst show_radix.simps) simp
  next
    case False
    then obtain k' where k: "k = Suc k'" "0 < k'" using 1(3,4) by (cases k; cases "k - 1") auto
    then have "n div r < r ^ k'" using 1(2,4) by (simp add: less_mult_imp_div_less mult.commute)
    then show ?thesis using 1(1) [of k'] 1(2) False k by (simp add: show_radix_step)
  qed
qed

definition no_digit :: "nat \<Rightarrow> bytes \<Rightarrow> bool" where
  "no_digit radix bs \<longleftrightarrow> (case bs of [] \<Rightarrow> True | b # _ \<Rightarrow> digit_value radix b = None)"

lemma read_digits_stop: "no_digit r rest \<Longrightarrow> read_digits r m b a c rest = Some (a, c, rest)"
  by (cases rest) (simp_all add: no_digit_def)

lemma show_radix_head: "2 \<le> r \<Longrightarrow> r \<le> 16 \<Longrightarrow> show_radix r n ! 0 = 0x30 \<Longrightarrow> n = 0"
proof (induction r n rule: show_radix.induct)
  case (1 r n)
  show ?case
  proof (cases "n < r")
    case True
    then have "digit_char n = 0x30" using 1(4) by (subst (asm) show_radix.simps) simp
    then have "unat (digit_char n) = 48" by simp
    then show ?thesis using True 1(3) by (simp add: unat_digit_char split: if_splits)
  next
    case False
    then have "show_radix r (n div r) ! 0 = 0x30" using 1(2,4) by (simp add: show_radix_step nth_append)
    then have "n div r = 0" using 1(1) 1(2,3) False by simp
    then show ?thesis using 1(2) False by (simp add: div_eq_0_iff)
  qed
qed

lemma read_number_show:
  assumes "2 \<le> r" "r \<le> 16" "0 < m" "n < r ^ m" "n \<le> bound" "no_digit r rest"
  shows "read_number r m bound z (show_radix r n @ rest) = Some (n, rest)"
proof -
  have l: "length (show_radix r n) \<le> m" using assms by (intro show_radix_length)
  have "show_radix r n ! 0 = 0x30 \<Longrightarrow> length (show_radix r n) = 1"
    using show_radix_head [OF assms(1,2), of n] assms(1) by (subst show_radix.simps) simp
  moreover have "(show_radix r n @ rest) ! 0 = show_radix r n ! 0" by (simp add: nth_append)
  moreover have "0 < length (show_radix r n)" by simp
  ultimately show ?thesis
    using read_digits_show [OF assms(2,1), of 0 n m 0 bound rest] read_digits_stop [OF assms(6)] l assms(5)
    by (simp add: read_number_def del: length_greater_0_conv)
qed

lemma parse_digits_show:
  "a * 10 ^ length (show_radix 10 n) + n < 65536 \<Longrightarrow>
   parse_digits a (show_radix 10 n @ rest) = parse_digits (a * 10 ^ length (show_radix 10 n) + n) rest"
proof (induction "10 :: nat" n arbitrary: rest rule: show_radix.induct)
  case (1 n)
  show ?case
  proof (cases "n < 10")
    case True
    then have "show_radix 10 n = [digit_char n]" by (subst show_radix.simps) simp
    then show ?thesis using 1(2) True by (simp add: digit_value_char)
  next
    case False
    let ?k = "length (show_radix 10 (n div 10))"
    have s: "show_radix 10 n = show_radix 10 (n div 10) @ [digit_char (n mod 10)]" using False by (simp add: show_radix_step)
    have e: "(a * 10 ^ ?k + n div 10) * 10 + n mod 10 = a * 10 ^ Suc ?k + n" by simp
    then have "a * 10 ^ ?k + n div 10 < 65536" using 1(2) unfolding s by simp
    then show ?thesis
      using 1(1) [of "digit_char (n mod 10) # rest"] False digit_value_char [of "n mod 10" 10] e 1(2) by (simp add: s ac_simps)
  qed
qed

lemma parse_u16_show [simp, codec_simps]: "parse_u16 (show_u16 p) = Some p"
proof -
  have u: "unat p < 65536" using unsigned_less [of p] by simp
  obtain b r where s: "show_radix 10 (unat p) = b # r" by (cases "show_radix 10 (unat p)") simp_all
  have p: "parse_digits 0 (b # r) = Some (unat p)" using parse_digits_show [of 0 "unat p" "[]"] u by (simp add: s)
  then have "b \<noteq> 0x2b" by (auto simp: digit_value_def)
  then show ?thesis using p by (simp add: parse_u16_def show_u16_def dec_nat_def s del: parse_digits.simps)
qed

lemma no_digit_sep: "no_digit 10 (0x2e # r)" "no_digit 10 (0x3a # r)" "no_digit 16 (0x3a # r)" "no_digit n []"
  by (simp_all add: no_digit_def digit_value_def)

lemma join_Cons: "join sep (x # xs) = x @ (if xs = [] then [] else sep @ join sep xs)"
  by (cases xs) simp_all

lemma read_octets_show:
  "no_digit 10 rest \<Longrightarrow>
   read_octets i (length os) ((if 0 < i \<and> os \<noteq> [] then [0x2e] else []) @ join [0x2e] (map (\<lambda>b. dec_nat (unat b)) os) @ rest) =
     Some (os, rest)"
proof (induction os arbitrary: i)
  case (Cons b os)
  let ?j = "join [0x2e] (map (\<lambda>b. dec_nat (unat b)) os)"
  let ?t = "(if os = [] then [] else [0x2e] @ ?j) @ rest"
  have b: "unat b < 10 ^ 3" "unat b \<le> 255" using byte_bound [of b] by simp_all
  have "no_digit 10 ?t" using Cons.prems by (simp add: no_digit_sep)
  then have "read_number 10 3 255 False (dec_nat (unat b) @ ?t) = Some (unat b, ?t)"
    using read_number_show [of 10 3 "unat b" 255 ?t False] b by (simp add: dec_nat_def)
  then show ?case using Cons.IH [of "Suc i"] Cons.prems by (auto simp: join_Cons read_separator_def read_char_def)
qed simp

lemma read_ipv4_show: "no_digit 10 rest \<Longrightarrow> read_ipv4 (show_v4 a @ rest) = Some (a, rest)"
  using read_octets_show [of rest 0 "v4_octets a"] by (simp add: read_ipv4_def show_v4_def)

lemma read_octets_numeral:
  "read_octets i 4 bs = (case read_separator 0x2e i (read_number 10 3 255 False) bs of
     None \<Rightarrow> None | Some (v, r) \<Rightarrow> map_option (\<lambda>(os, r'). (word_of_nat v # os, r')) (read_octets (Suc i) 3 r))"
  "read_octets i 3 bs = (case read_separator 0x2e i (read_number 10 3 255 False) bs of
     None \<Rightarrow> None | Some (v, r) \<Rightarrow> map_option (\<lambda>(os, r'). (word_of_nat v # os, r')) (read_octets (Suc i) 2 r))"
proof -
  have n: "4 = Suc 3" "3 = Suc 2" by simp_all
  show "read_octets i 4 bs = (case read_separator 0x2e i (read_number 10 3 255 False) bs of
     None \<Rightarrow> None | Some (v, r) \<Rightarrow> map_option (\<lambda>(os, r'). (word_of_nat v # os, r')) (read_octets (Suc i) 3 r))"
    by (subst n(1)) (rule read_octets.simps)
  show "read_octets i 3 bs = (case read_separator 0x2e i (read_number 10 3 255 False) bs of
     None \<Rightarrow> None | Some (v, r) \<Rightarrow> map_option (\<lambda>(os, r'). (word_of_nat v # os, r')) (read_octets (Suc i) 2 r))"
    by (subst n(2)) (rule read_octets.simps)
qed

text \<open>A group is never mistaken for the start of an IPv4 address.\<close>

lemma read_digits_split:
  "read_digits radix m bound a c bs = Some (v, k, r) \<Longrightarrow> \<exists>p. bs = p @ r \<and> (\<forall>x \<in> set p. digit_value radix x \<noteq> None)"
proof (induction radix m bound a c bs rule: read_digits.induct)
  case (2 radix m bound a c b bs)
  show ?case
  proof (cases "digit_value radix b")
    case None
    then show ?thesis using 2(2) by simp
  next
    case (Some d)
    then obtain p where "bs = p @ r" "\<forall>x \<in> set p. digit_value radix x \<noteq> None"
      using 2 by (auto split: if_splits)
    then show ?thesis using Some by (intro exI [of _ "b # p"]) auto
  qed
qed simp

lemma show_radix_digits: "2 \<le> r \<Longrightarrow> r \<le> 16 \<Longrightarrow> x \<in> set (show_radix r n) \<Longrightarrow> digit_value r x \<noteq> None"
proof (induction r n rule: show_radix.induct)
  case (1 r n)
  show ?case
  proof (cases "n < r")
    case True
    then have "show_radix r n = [digit_char n]" by (subst show_radix.simps) simp
    then show ?thesis using 1(3,4) True digit_value_char [of n r] by simp
  next
    case False
    have "n mod r < r" using 1(2) by simp
    then show ?thesis
      using 1 False digit_value_char [of "n mod r" r] unfolding show_radix_step [OF 1(2) False] by auto
  qed
qed

lemma read_ipv4_group:
  assumes "rest = [] \<or> (\<exists>r. rest = 0x3a # r)"
  shows "read_ipv4 (hex_nat g @ rest) = None"
proof (rule ccontr)
  assume "read_ipv4 (hex_nat g @ rest) \<noteq> None"
  then obtain v r where 1: "read_number 10 3 255 False (hex_nat g @ rest) = Some (v, r)" "read_octets (Suc 0) 3 r \<noteq> None"
    by (auto simp: read_ipv4_def read_octets_numeral(1) read_separator_def split: option.splits)
  then obtain r' where r: "r = 0x2e # r'"
    by (auto simp: read_octets_numeral(2) read_separator_def read_char_def split: option.splits list.splits if_splits)
  obtain k where k: "read_digits 10 3 255 0 0 (hex_nat g @ rest) = Some (v, k, r)"
    using 1(1) by (auto simp: read_number_def split: option.splits if_splits prod.splits)
  obtain p where p: "hex_nat g @ rest = p @ r" "\<forall>x \<in> set p. digit_value 10 x \<noteq> None"
    using read_digits_split [OF k] by blast
  have h: "x \<in> set (hex_nat g) \<Longrightarrow> digit_value 16 x \<noteq> None" for x
    unfolding hex_nat_def by (rule show_radix_digits) simp_all
  have nd: "digit_value 16 0x2e = None" "digit_value 10 0x3a = None" by (simp_all add: digit_value_def)
  from p(1) [unfolded append_eq_append_conv2] obtain us where
    "hex_nat g = p @ us \<and> us @ rest = r \<or> hex_nat g @ us = p \<and> rest = us @ r" by blast
  then show False
  proof
    assume a: "hex_nat g = p @ us \<and> us @ rest = r"
    then have "us = [] \<or> 0x2e \<in> set (hex_nat g)" using r by (cases us) auto
    then show False using h [of "0x2e"] nd a r assms by auto
  next
    assume a: "hex_nat g @ us = p \<and> rest = us @ r"
    then show False using assms p(2) nd r by (cases us) auto
  qed
qed

lemma read_colon: "read_ipv4 (0x3a # r) = None" "read_number 16 m b z (0x3a # r) = None" "read_ipv4 [] = None" "read_number 16 m b z [] = None"
  by (simp_all add: read_ipv4_def read_octets_numeral read_separator_def read_number_def digit_value_def)

definition group_stop :: "bytes \<Rightarrow> bool" where
  "group_stop rest \<longleftrightarrow> rest = [] \<or> (\<exists>r. rest = 0x3a # 0x3a # r)"

lemma read_groups_stop: "group_stop rest \<Longrightarrow> read_groups limit n rest = ([], False, rest)"
  by (cases n) (auto simp: group_stop_def read_colon read_separator_def read_char_def Let_def)

lemma read_groups_show:
  "length gs \<le> n \<Longrightarrow> n \<le> limit \<Longrightarrow> rest = [] \<or> (\<exists>r. rest = 0x3a # r) \<Longrightarrow>
   read_groups limit n ((if n < limit \<and> gs \<noteq> [] then [0x3a] else []) @ show_groups gs @ rest) =
   (case read_groups limit (n - length gs) rest of (gs', e, r) \<Rightarrow> (gs @ gs', e, r))"
proof (induction gs arbitrary: n)
  case (Cons g gs)
  obtain n' where n: "n = Suc n'" using Cons.prems(1) by (cases n) auto
  let ?t = "(if gs = [] then [] else [0x3a] @ show_groups gs) @ rest"
  have t: "?t = [] \<or> (\<exists>r. ?t = 0x3a # r)" using Cons.prems(3) by auto
  have g: "unat g < 16 ^ 4" "unat g \<le> 65535" using word_bound(1) [of g] by simp_all
  have "no_digit 16 ?t" using t no_digit_sep by auto
  then have rn: "read_number 16 4 65535 True (hex_nat (unat g) @ ?t) = Some (unat g, ?t)"
    using read_number_show [of 16 4 "unat g" 65535 ?t True] g by (simp add: hex_nat_def)
  have sg: "show_groups (g # gs) @ rest = hex_nat (unat g) @ ?t" by (simp add: show_groups_def join_Cons)
  have ih: "read_groups limit n' ?t = (case read_groups limit (n' - length gs) rest of (gs', e, r) \<Rightarrow> (gs @ gs', e, r))"
    using Cons.IH [of n'] Cons.prems n by (auto simp: show_groups_def)
  show ?case
    using read_ipv4_group [OF t] rn ih Cons.prems(2) unfolding n sg
    by (auto simp: read_separator_def read_char_def Let_def split: prod.splits)
qed (simp add: show_groups_def split: prod.split)

lemma segments_roundtrip: "v6_of_segments (segments a) = a" "length (segments a) = 8"
proof -
  have "concat (map u16_to_be_bytes (segments a)) = v6_octets a"
  proof -
    obtain o0 o1 o2 o3 o4 o5 o6 o7 o8 o9 o10 o11 o12 o13 o14 o15 where o:
      "v6_octets a = [o0, o1, o2, o3, o4, o5, o6, o7, o8, o9, o10, o11, o12, o13, o14, o15]"
    proof -
      have "length (v6_octets a) = Suc (Suc (Suc (Suc (Suc (Suc (Suc (Suc (Suc (Suc (Suc (Suc (Suc (Suc (Suc (Suc 0)))))))))))))))"
        by simp
      then show ?thesis using that unfolding length_Suc_conv length_0_conv by blast
    qed
    show ?thesis unfolding segments_def o by (simp add: upt_rec int_bytes_roundtrip'(4))
  qed
  then show "v6_of_segments (segments a) = a" by (simp add: v6_of_segments_def)
  show "length (segments a) = 8" by (simp add: segments_def)
qed

text \<open>The span that is abbreviated consists of zeros.\<close>

definition zero_run :: "u16 list \<Rightarrow> nat \<times> nat \<Rightarrow> bool" where
  "zero_run gs p \<longleftrightarrow> fst p + snd p \<le> length gs \<and> (\<forall>k. fst p \<le> k \<and> k < fst p + snd p \<longrightarrow> gs ! k = 0)"

lemma zero_span_run:
  "zero_run gs longest \<Longrightarrow> zero_run gs current \<Longrightarrow> (snd current = 0 \<or> fst current + snd current = i) \<Longrightarrow> gs = pre @ rest \<Longrightarrow>
   length pre = i \<Longrightarrow> zero_run gs (zero_span i longest current rest)"
proof (induction rest arbitrary: i longest current pre)
  case (Cons g rest)
  have i: "i < length gs" "gs ! i = g" using Cons.prems(4,5) by auto
  have pre: "gs = (pre @ [g]) @ rest" "length (pre @ [g]) = Suc i" using Cons.prems(4,5) by simp_all
  show ?case
  proof (cases "g = 0")
    case False
    have "zero_run gs (0, 0)" by (simp add: zero_run_def)
    then show ?thesis using Cons.IH [OF Cons.prems(1) _ _ pre, of "(0, 0)"] False by simp
  next
    case True
    let ?c = "(if snd current = 0 then i else fst current, snd current + 1)"
    have c: "zero_run gs ?c" "fst ?c + snd ?c = Suc i"
      using Cons.prems(2,3) i True by (auto simp: zero_run_def less_Suc_eq)
    let ?l = "if snd longest < snd ?c then ?c else longest"
    have "zero_run gs ?l" using c(1) Cons.prems(1) by (rule if_split [THEN iffD2, OF conjI, rule_format])
    then have "zero_run gs (zero_span (Suc i) ?l ?c rest)" by (rule Cons.IH [OF _ c(1) disjI2 [OF c(2)] pre])
    moreover have "zero_span i longest current (g # rest) = zero_span (Suc i) ?l ?c rest" using True by (simp only: zero_span.simps Let_def refl if_True)
    ultimately show ?thesis by simp
  qed
qed simp

lemma zero_run_split:
  assumes "zero_run gs (s, n)"
  shows "gs = take s gs @ replicate n 0 @ drop (s + n) gs"
proof -
  have "take n (drop s gs) = replicate n 0"
    using assms by (intro nth_equalityI) (auto simp: zero_run_def)
  then show ?thesis using append_take_drop_id [of s gs] append_take_drop_id [of n "drop s gs"] by (simp add: add.commute)
qed

lemma v4_octets_of: "length bs = 4 \<Longrightarrow> v4_octets (v4_of_octets bs) = bs"
  using to_be_from_be [of bs 4] from_be_bound [of bs] by (simp add: v4_octets_def v4_of_octets_def u32_to_be_bytes_def unat_of_nat)

lemma hex_ffff: "hex_nat 65535 = [0x66, 0x66, 0x66, 0x66]"
  by (simp add: hex_nat_def show_radix.simps digit_char_def)

lemma u16_bytes_const: "u16_to_be_bytes 0 = [0, 0]" "u16_to_be_bytes 0xffff = [0xff, 0xff]"
proof -
  have "to_le 2 v = [word_of_nat v, word_of_nat (v div 256)]" for v by (simp add: numeral_2_eq_2)
  then show "u16_to_be_bytes 0 = [0, 0]" "u16_to_be_bytes 0xffff = [0xff, 0xff]"
    by (simp_all add: u16_to_be_bytes_def to_be_def)
qed

lemma zero_groups: "concat (replicate 5 [0, 0 :: byte]) = replicate 10 0"
  by (simp add: numeral_eq_Suc)

lemma read_ipv6_show: "read_ipv6 (show_v6 a) = Some (a, [])"
proof (cases "to_ipv4_mapped a")
  case (Some b)
  then have m: "take 12 (v6_octets a) = replicate 10 0 @ [0xff, 0xff]" "v4_octets b = drop 12 (v6_octets a)"
    by (auto simp: to_ipv4_mapped_def Let_def v4_octets_of split: if_splits)
  have o: "v6_octets a = replicate 10 0 @ [0xff, 0xff] @ v4_octets b"
    using append_take_drop_id [of 12 "v6_octets a"] unfolding m by simp
  let ?p = "u16_from_be_bytes (take 2 (v4_octets b))" and ?q = "u16_from_be_bytes (drop 2 (v4_octets b))"
  have sh: "show_v6 a = 0x3a # 0x3a # show_groups [0xffff] @ 0x3a # show_v4 b"
    using Some by (simp add: show_v6_def show_groups_def hex_ffff ascii_def)
  have 1: "read_groups 8 8 (show_v6 a) = ([], False, show_v6 a)" by (rule read_groups_stop) (simp add: group_stop_def sh)
  have 2: "read_groups 7 6 (0x3a # show_v4 b) = ([?p, ?q], True, [])"
    using read_ipv4_show [of "[]" b] read_groups.simps(2) [of 7 5 "0x3a # show_v4 b"]
    by (simp add: read_separator_def read_char_def no_digit_sep)
  have 3: "read_groups 7 7 (show_groups [0xffff] @ 0x3a # show_v4 b) = ([0xffff, ?p, ?q], True, [])"
    using read_groups_show [of "[0xffff]" 7 7 "0x3a # show_v4 b"] 2 by simp
  have "concat (map u16_to_be_bytes (replicate 5 0 @ [0xffff, ?p, ?q])) = v6_octets a"
    unfolding o by (simp add: int_bytes_roundtrip' u16_bytes_const zero_groups)
  then have "v6_of_segments (replicate 5 0 @ [0xffff, ?p, ?q]) = a" by (simp add: v6_of_segments_def)
  then show ?thesis using 1 3 by (simp add: read_ipv6_def read_char_def Let_def sh)
next
  case None
  let ?gs = "segments a"
  obtain s n where z: "zero_span 0 (0, 0) (0, 0) ?gs = (s, n)" by fastforce
  have run: "zero_run ?gs (s, n)"
    using zero_span_run [of ?gs "(0, 0)" "(0, 0)" 0 "[]" ?gs] z by (simp add: zero_run_def)
  show ?thesis
  proof (cases "1 < n")
    case True
    let ?h = "take s ?gs" and ?t = "drop (s + n) ?gs"
    have sn: "s + n \<le> 8" using run segments_roundtrip(2) [of a] by (simp add: zero_run_def)
    have sh: "show_v6 a = show_groups ?h @ 0x3a # 0x3a # show_groups ?t" using None z True by (simp add: show_v6_def Let_def ascii_def)
    have st: "group_stop (0x3a # 0x3a # show_groups ?t)" by (simp add: group_stop_def)
    have lh: "length ?h = s" "length ?t = 8 - s - n" using sn segments_roundtrip(2) [of a] by simp_all
    have 1: "read_groups 8 8 (show_v6 a) = (?h, False, 0x3a # 0x3a # show_groups ?t)"
      using read_groups_show [of ?h 8 8 "0x3a # 0x3a # show_groups ?t"] read_groups_stop [OF st] lh sn unfolding sh by simp
    have 2: "read_groups (8 - (s + 1)) (8 - (s + 1)) (show_groups ?t) = (?t, False, [])"
      using read_groups_show [of ?t "8 - (s + 1)" "8 - (s + 1)" "[]"] read_groups_stop [of "[]"] lh sn True
      by (simp add: group_stop_def)
    have "?h @ replicate (8 - s - (8 - s - n)) 0 @ ?t = ?gs" using zero_run_split [OF run] sn by simp
    then show ?thesis
      using 1 2 lh sn True segments_roundtrip(1) [of a] by (simp add: read_ipv6_def read_char_def Let_def)
  next
    case False
    then have sh: "show_v6 a = show_groups ?gs" using None z by (simp add: show_v6_def Let_def)
    have "read_groups 8 8 (show_v6 a) = (?gs, False, [])"
      using read_groups_show [of ?gs 8 8 "[]"] segments_roundtrip(2) [of a] unfolding sh by simp
    then show ?thesis using segments_roundtrip [of a] by (simp add: read_ipv6_def)
  qed
qed

lemma read_ipv4_v6_text: "read_ipv4 (show_v6 a) = None"
proof -
  have g: "read_ipv4 (show_groups gs @ rest) = None" if "rest = [] \<or> (\<exists>r. rest = 0x3a # r)" for gs rest
    using that by (cases gs) (auto simp: show_groups_def join_Cons read_ipv4_group read_colon)
  show ?thesis using g [of "[]"] g [of "0x3a # r" for r]
    by (auto simp: show_v6_def ascii_def read_colon Let_def split: option.split prod.split)
qed

lemma parse_ip_show: "parse_ip (show_ip ip) = Some ip"
proof (cases ip)
  case (IpV4 a)
  then show ?thesis using read_ipv4_show [of "[]" a] by (simp add: parse_ip_def whole_def no_digit_sep)
next
  case (IpV6 a)
  then show ?thesis using read_ipv6_show [of a] read_ipv4_v6_text [of a] by (simp add: parse_ip_def whole_def)
qed

subsection \<open>Words\<close>

text \<open>Printable ASCII without the space.\<close>

definition plain_char :: "byte \<Rightarrow> bool" where
  "plain_char b \<longleftrightarrow> 0x21 \<le> b \<and> b < 0x80"

lemma plain_not: "plain_char b \<Longrightarrow> b \<noteq> 0x0d" "plain_char b \<Longrightarrow> b \<noteq> 0x0a" "plain_char b \<Longrightarrow> b < 0x80"
  by (auto simp: plain_char_def)

lemma ws_len_plain: "plain_char b \<Longrightarrow> ws_len (b # bs) = 0"
proof -
  assume "plain_char b"
  then have u: "33 \<le> unat b" "unat b < 128" by (simp_all add: plain_char_def word_le_nat_alt word_less_nat_alt)
  then have n: "\<not> b \<le> 0x0d" "b \<noteq> 0x20" "b \<noteq> 0xc2" "b \<noteq> 0xe1" "b \<noteq> 0xe2" "b \<noteq> 0xe3"
    by (auto simp: word_le_nat_alt)
  then show ?thesis by (cases bs; cases "tl bs") simp_all
qed

lemma ws_len_space: "ws_len (0x20 # bs) = 1"
  by (cases bs; cases "tl bs") simp_all

lemma split_ws_word:
  "list_all plain_char w \<Longrightarrow> cur @ w \<noteq> [] \<Longrightarrow> split_ws cur (w @ 0x20 # r) = (cur @ w) # split_ws [] r"
  "list_all plain_char w \<Longrightarrow> cur @ w \<noteq> [] \<Longrightarrow> split_ws cur w = [cur @ w]"
proof (induction w arbitrary: cur)
  case Nil
  {
    case 1
    then show ?case using ws_len_space [of r] by (subst split_ws.simps) simp
  next
    case 2
    then show ?case by (subst split_ws.simps) simp
  }
next
  case (Cons b w)
  {
    case 1
    then show ?case using Cons.IH(1) [of "cur @ [b]"] by (subst split_ws.simps) (simp add: ws_len_plain)
  next
    case 2
    then show ?case using Cons.IH(2) [of "cur @ [b]"] by (subst split_ws.simps) (simp add: ws_len_plain)
  }
qed

lemma split_whitespace_join:
  "ws \<noteq> [] \<Longrightarrow> \<forall>w \<in> set ws. w \<noteq> [] \<and> list_all plain_char w \<Longrightarrow> split_whitespace (join [0x20] ws) = ws"
  unfolding split_whitespace_def
proof (induction ws)
  case (Cons w ws)
  then show ?case by (cases ws) (simp_all add: split_ws_word)
qed simp

text \<open>Numbers and addresses are words of bounded length.\<close>

definition short_word :: "nat \<Rightarrow> bytes \<Rightarrow> bool" where
  "short_word n w \<longleftrightarrow> length w \<le> n \<and> list_all plain_char w"

lemma digit_char_plain: "d < 16 \<Longrightarrow> plain_char (digit_char d)"
  by (auto simp: plain_char_def word_le_nat_alt word_less_nat_alt unat_digit_char)

lemma show_radix_plain: "2 \<le> r \<Longrightarrow> r \<le> 16 \<Longrightarrow> list_all plain_char (show_radix r n)"
proof (induction r n rule: show_radix.induct)
  case (1 r n)
  show ?case
  proof (cases "n < r")
    case True
    then show ?thesis using 1(3) by (subst show_radix.simps) (simp add: digit_char_plain)
  next
    case False
    have "n mod r < r" using 1(2) by simp
    then have "n mod r < 16" using 1(3) by simp
    then show ?thesis using 1 False by (simp add: show_radix_step digit_char_plain)
  qed
qed

lemma show_radix_short: "2 \<le> r \<Longrightarrow> r \<le> 16 \<Longrightarrow> 0 < k \<Longrightarrow> n < r ^ k \<Longrightarrow> short_word k (show_radix r n)"
  by (simp add: short_word_def show_radix_plain show_radix_length)

lemma join_short:
  "plain_char c \<Longrightarrow> \<forall>w \<in> set ws. short_word n w \<Longrightarrow> short_word ((n + 1) * length ws) (join [c] ws)"
proof (induction ws)
  case (Cons w ws)
  then show ?case by (cases ws) (auto simp: short_word_def)
qed (simp add: short_word_def)

lemma short_append: "short_word m a \<Longrightarrow> short_word n b \<Longrightarrow> m + n \<le> k \<Longrightarrow> short_word k (a @ b)"
  by (auto simp: short_word_def)

lemma show_v4_short: "short_word 16 (show_v4 a)"
proof -
  have "short_word 3 (dec_nat (unat b))" for b :: byte
    using show_radix_short [of 10 3 "unat b"] byte_bound [of b] by (simp add: dec_nat_def)
  then show ?thesis
    using join_short [of "0x2e" "map (\<lambda>b. dec_nat (unat b)) (v4_octets a)" 3] by (simp add: show_v4_def plain_char_def)
qed

lemma show_groups_short: "length gs \<le> 8 \<Longrightarrow> short_word 40 (show_groups gs)"
proof -
  assume l: "length gs \<le> 8"
  have "short_word 4 (hex_nat (unat g))" for g :: u16
    using show_radix_short [of 16 4 "unat g"] word_bound(1) [of g] by (simp add: hex_nat_def)
  then have "short_word (5 * length gs) (show_groups gs)"
    using join_short [of "0x3a" "map (\<lambda>g. hex_nat (unat g)) gs" 4] by (simp add: show_groups_def plain_char_def)
  then show ?thesis using l by (auto simp: short_word_def)
qed

lemma show_v6_short: "short_word 82 (show_v6 a)"
proof (cases "to_ipv4_mapped a")
  case (Some b)
  have "short_word 7 (ascii ''::ffff:'')" by (simp add: short_word_def ascii_def plain_char_def)
  then show ?thesis using Some show_v4_short [of b] by (simp add: show_v6_def short_append)
next
  case None
  obtain s n where z: "zero_span 0 (0, 0) (0, 0) (segments a) = (s, n)" by fastforce
  have c: "short_word 2 (ascii ''::'')" by (simp add: short_word_def ascii_def plain_char_def)
  have g: "short_word 40 (show_groups (segments a))" "short_word 40 (show_groups (take s (segments a)))"
    "short_word 40 (show_groups (drop (s + n) (segments a)))"
    using segments_roundtrip(2) [of a] by (simp_all add: show_groups_short)
  have "short_word 82 (show_groups (take s (segments a)) @ ascii ''::'' @ show_groups (drop (s + n) (segments a)))"
    by (rule short_append [OF g(2) short_append [OF c g(3), of 42]]) simp_all
  moreover have "short_word 82 (show_groups (segments a))" using g(1) by (auto simp: short_word_def)
  ultimately show ?thesis using None z by (simp add: show_v6_def Let_def)
qed

lemma show_ip_short: "short_word 82 (show_ip ip)"
  using show_v4_short show_v6_short
  by (cases ip) (auto simp: short_word_def intro: order_trans [of _ 16])

lemma show_u16_short: "short_word 5 (show_u16 p)"
  using show_radix_short [of 10 5 "unat p"] word_bound(1) [of p] by (simp add: show_u16_def dec_nat_def)

lemma show_nonempty: "show_ip ip \<noteq> []" "show_u16 p \<noteq> []"
proof -
  show "show_u16 p \<noteq> []" by (simp add: show_u16_def dec_nat_def)
  show "show_ip ip \<noteq> []" using parse_ip_show [of ip]
    by (auto simp: parse_ip_def read_colon read_ipv6_def read_groups_stop group_stop_def read_char_def whole_def)
qed

end
