(* ===== verification/Tls_Front.thy ===== *)
theory Tls_Front
  imports Tls_Hello Net_Text
begin

section \<open>TLS fronting: the profile cache and the emulated answer (\<open>tls_front/\<close>)\<close>

text \<open>
  The proxy can imitate a real web server: the profiles of the fronted domains are kept in a cache
  (\<open>cache.rs\<close>), and the ServerHello is built from the cached profile (\<open>emulator.rs\<close>). A Rust \<open>String\<close> is
  its UTF-8 bytes. Times are counts of milliseconds, passed as arguments; \<open>duration_since\<close> saturates at zero,
  as subtraction on the naturals does.
\<close>

record tls_extension =
  te_ext_type :: u16
  te_data :: bytes

record parsed_server_hello =
  psh_version :: bytes
  psh_random :: bytes
  psh_session_id :: bytes
  psh_cipher_suite :: bytes
  psh_compression :: byte
  psh_extensions :: "tls_extension list"

record parsed_certificate_info =
  pci_not_after_unix :: "int option"
  pci_not_before_unix :: "int option"
  pci_issuer_cn :: "bytes option"
  pci_subject_cn :: "bytes option"
  pci_san_names :: "bytes list"

record tls_cert_payload =
  tcp_cert_chain_der :: "bytes list"
  tcp_certificate_message :: bytes

record cached_tls_data =
  ctd_server_hello_template :: parsed_server_hello
  ctd_cert_info :: "parsed_certificate_info option"
  ctd_cert_payload :: "tls_cert_payload option"
  ctd_app_data_records_sizes :: "nat list"
  ctd_total_app_data_len :: nat
  ctd_fetched_at :: nat
  ctd_domain :: bytes

record tls_fetch_result =
  tfr_server_hello_parsed :: parsed_server_hello
  tfr_app_data_records_sizes :: "nat list"
  tfr_total_app_data_len :: nat
  tfr_cert_info :: "parsed_certificate_info option"
  tfr_cert_payload :: "tls_cert_payload option"

subsection \<open>The cache\<close>

record tls_front_cache =
  tfc_memory :: "bytes \<rightharpoonup> cached_tls_data"
  tfc_default :: cached_tls_data
  tfc_full_cert_sent :: "ip_addr \<rightharpoonup> nat"

definition default_template :: parsed_server_hello where
  "default_template = \<lparr>psh_version = [0x03, 0x03], psh_random = replicate 32 0, psh_session_id = [],
     psh_cipher_suite = [0x13, 0x01], psh_compression = 0, psh_extensions = []\<rparr>"

definition tls_front_cache_new :: "bytes list \<Rightarrow> nat \<Rightarrow> nat \<Rightarrow> tls_front_cache" where
  "tls_front_cache_new domains default_len now =
     (let default = \<lparr>ctd_server_hello_template = default_template, ctd_cert_info = None, ctd_cert_payload = None,
            ctd_app_data_records_sizes = [default_len], ctd_total_app_data_len = default_len, ctd_fetched_at = now,
            ctd_domain = ascii ''default''\<rparr>
      in \<lparr>tfc_memory = foldl (\<lambda>m d. m(d \<mapsto> default)) Map.empty domains, tfc_default = default,
          tfc_full_cert_sent = Map.empty\<rparr>)"

definition tfc_get :: "bytes \<Rightarrow> tls_front_cache \<Rightarrow> cached_tls_data" where
  "tfc_get sni c = (case tfc_memory c sni of Some d \<Rightarrow> d | None \<Rightarrow> tfc_default c)"

definition contains_domain :: "bytes \<Rightarrow> tls_front_cache \<Rightarrow> bool" where
  "contains_domain domain c \<longleftrightarrow> tfc_memory c domain \<noteq> None"

definition retain_young :: "nat \<Rightarrow> nat \<Rightarrow> (ip_addr \<rightharpoonup> nat) \<Rightarrow> ip_addr \<rightharpoonup> nat" where
  "retain_young now ttl m = (\<lambda>ip. case m ip of Some t \<Rightarrow> if now - t < ttl then Some t else None | None \<Rightarrow> None)"

definition take_full_cert_budget_for_ip :: "ip_addr \<Rightarrow> nat \<Rightarrow> nat \<Rightarrow> tls_front_cache \<Rightarrow> bool \<times> tls_front_cache" where
  "take_full_cert_budget_for_ip client_ip ttl now c =
     (if ttl = 0 then (True, c\<lparr>tfc_full_cert_sent := (tfc_full_cert_sent c)(client_ip \<mapsto> now)\<rparr>)
      else
        let guard = retain_young now ttl (tfc_full_cert_sent c) in
        case guard client_ip of
          Some seen_at \<Rightarrow>
            if ttl \<le> now - seen_at then (True, c\<lparr>tfc_full_cert_sent := guard(client_ip \<mapsto> now)\<rparr>)
            else (False, c\<lparr>tfc_full_cert_sent := guard\<rparr>)
        | None \<Rightarrow> (True, c\<lparr>tfc_full_cert_sent := guard(client_ip \<mapsto> now)\<rparr>))"

definition tfc_set :: "bytes \<Rightarrow> cached_tls_data \<Rightarrow> tls_front_cache \<Rightarrow> tls_front_cache" where
  "tfc_set domain data c = c\<lparr>tfc_memory := (tfc_memory c)(domain \<mapsto> data)\<rparr>"

text \<open>What the directory holds: per entry the file name (\<open>None\<close> when it is not Unicode), the profile that
  reading and \<open>serde_json\<close> give (\<open>None\<close> on failure), and the modification time when it is known. The
  profile's time is the time of reading until the modification time replaces it.\<close>

record disk_entry =
  de_name :: "bytes option"
  de_parsed :: "cached_tls_data option"
  de_modified :: "nat option"

definition ascii_alphanumeric :: "byte \<Rightarrow> bool" where
  "ascii_alphanumeric b \<longleftrightarrow> 0x30 \<le> b \<and> b \<le> 0x39 \<or> 0x41 \<le> b \<and> b \<le> 0x5a \<or> 0x61 \<le> b \<and> b \<le> 0x7a"

definition domain_valid :: "bytes \<Rightarrow> bool" where
  "domain_valid d \<longleftrightarrow> \<not> (d = [] \<or> 255 < length d \<or> \<not> list_all (\<lambda>b. ascii_alphanumeric b \<or> b = 0x2e \<or> b = 0x2d) d)"

definition load_entry :: "nat \<Rightarrow> disk_entry \<Rightarrow> tls_front_cache \<Rightarrow> tls_front_cache" where
  "load_entry now e c =
     (case de_name e of
        None \<Rightarrow> c
      | Some name \<Rightarrow>
          if \<not> ends_with name (ascii ''.json'') then c
          else case de_parsed e of
              None \<Rightarrow> c
            | Some cached \<Rightarrow>
                if \<not> domain_valid (ctd_domain cached) then c
                else
                  let cached = (case de_modified e of Some t \<Rightarrow> cached\<lparr>ctd_fetched_at := t\<rparr> | None \<Rightarrow> cached) in
                  if ctd_fetched_at cached \<le> now \<and> 72 * 3600 * 1000 < now - ctd_fetched_at cached then c
                  else tfc_set (ctd_domain cached) cached c)"

definition load_from_disk :: "nat \<Rightarrow> disk_entry list option \<Rightarrow> tls_front_cache \<Rightarrow> tls_front_cache" where
  "load_from_disk now dir c = (case dir of None \<Rightarrow> c | Some es \<Rightarrow> foldl (\<lambda>c e. load_entry now e c) c es)"

definition update_from_fetch :: "bytes \<Rightarrow> tls_fetch_result \<Rightarrow> nat \<Rightarrow> tls_front_cache \<Rightarrow> tls_front_cache" where
  "update_from_fetch domain fetched now c =
     tfc_set domain
       \<lparr>ctd_server_hello_template = tfr_server_hello_parsed fetched, ctd_cert_info = tfr_cert_info fetched,
        ctd_cert_payload = tfr_cert_payload fetched, ctd_app_data_records_sizes = tfr_app_data_records_sizes fetched,
        ctd_total_app_data_len = tfr_total_app_data_len fetched, ctd_fetched_at = now, ctd_domain = domain\<rparr> c"

subsection \<open>The emulator\<close>

definition MIN_APP_DATA :: nat where "MIN_APP_DATA = 64"
definition MAX_APP_DATA :: nat where "MAX_APP_DATA = 16640"

lemmas app_data_bounds = MIN_APP_DATA_def MAX_APP_DATA_def

text \<open>\<open>((base as f64) * 0.03).round()\<close>, for \<open>base\<close> of at most 16640. The double nearest to 0.03 is below it by
  a relative error of less than \<open>2 ^ -54\<close>, so a product that is a half-integer over the reals is rounded to that
  half-integer by the multiplication, and then away from zero; every other product is at least 0.01 from a half.\<close>

definition jitter_range :: "nat \<Rightarrow> nat" where
  "jitter_range base = (base * 3 + 50) div 100"

fun jitter_and_clamp_sizes :: "'r std_rng \<Rightarrow> nat list \<Rightarrow> 'r secure_random \<Rightarrow> nat list \<times> 'r secure_random" where
  "jitter_and_clamp_sizes R [] rng = ([], rng)"
| "jitter_and_clamp_sizes R (sz # sizes) rng =
     (let base = clamp sz MIN_APP_DATA MAX_APP_DATA; jr = jitter_range base in
      if jr = 0 then
        (case jitter_and_clamp_sizes R sizes rng of (rest, rng) \<Rightarrow> (base # rest, rng))
      else
        case sr_bytes R rng 2 of (rand_bytes, rng) \<Rightarrow>
          let span = 2 * int jr + 1;
              delta = int (unat (u16_from_le_bytes rand_bytes)) mod span - int jr;
              adjusted = max (int MIN_APP_DATA) (min (int base + delta) (int MAX_APP_DATA))
          in case jitter_and_clamp_sizes R sizes rng of (rest, rng) \<Rightarrow> (nat adjusted # rest, rng))"

definition app_data_body_capacity :: "nat list \<Rightarrow> nat" where
  "app_data_body_capacity sizes = sum_list (map (\<lambda>sz. sz - 17) sizes)"

function push_chunks :: "nat list \<Rightarrow> nat \<Rightarrow> nat \<Rightarrow> nat list" where
  "push_chunks sizes body_total payload_len =
     (if body_total < payload_len then
        let remaining = payload_len - body_total; chunk = clamp (remaining + 17) MIN_APP_DATA MAX_APP_DATA
        in push_chunks (sizes @ [chunk]) (body_total + (chunk - 17)) payload_len
      else sizes)"
  by pat_completeness auto
termination
  by (relation "measure (\<lambda>(s, b, p). p - b)") (auto simp: clamp_def app_data_bounds)

declare push_chunks.simps [simp del]

definition ensure_payload_capacity :: "nat list \<Rightarrow> nat \<Rightarrow> nat list" where
  "ensure_payload_capacity sizes payload_len =
     (if payload_len = 0 then sizes
      else
        let body_total = app_data_body_capacity sizes in
        if payload_len \<le> body_total then sizes
        else
          let (sizes, body_total) =
            (if sizes = [] then (sizes, body_total)
             else let free = MAX_APP_DATA - last sizes; grow = min free (payload_len - body_total)
                  in (butlast sizes @ [last sizes + grow], body_total + grow))
          in push_chunks sizes body_total payload_len)"

definition build_compact_cert_info_payload :: "parsed_certificate_info \<Rightarrow> bytes option" where
  "build_compact_cert_info_payload cert_info =
     (let fields =
        (case pci_subject_cn cert_info of Some s \<Rightarrow> [ascii ''CN='' @ s] | None \<Rightarrow> []) @
        (case pci_issuer_cn cert_info of Some s \<Rightarrow> [ascii ''ISSUER='' @ s] | None \<Rightarrow> []) @
        (case pci_not_before_unix cert_info of Some t \<Rightarrow> [ascii ''NB='' @ dec_int t] | None \<Rightarrow> []) @
        (case pci_not_after_unix cert_info of Some t \<Rightarrow> [ascii ''NA='' @ dec_int t] | None \<Rightarrow> []) @
        (if pci_san_names cert_info = [] then []
         else [ascii ''SAN='' @ join (ascii '','') (take 8 (pci_san_names cert_info))])
      in if fields = [] then None else Some (take 512 (join (ascii '';'') fields)))"

text \<open>The loop over the record sizes. The offset counts the payload bytes already sent.\<close>

fun emulated_records :: "'r std_rng \<Rightarrow> bytes option \<Rightarrow> nat \<Rightarrow> nat list \<Rightarrow> 'r secure_random \<Rightarrow> bytes \<times> 'r secure_random" where
  "emulated_records R payload payload_offset [] rng = ([], rng)"
| "emulated_records R payload payload_offset (sz # sizes) rng =
     (let header = [TLS_RECORD_APPLICATION] @ TLS_VERSION @ u16_to_be_bytes (word_of_nat sz);
          body_len = sz - 17 in
      if 17 < sz then
        let copied = (case payload of
               Some p \<Rightarrow> let copy_len = min (length p - payload_offset) body_len
                         in subslice p payload_offset (payload_offset + copy_len)
             | None \<Rightarrow> [])
        in case (if length copied < body_len then sr_bytes R rng (body_len - length copied) else ([], rng)) of (fill, rng) \<Rightarrow>
           case sr_bytes R rng 16 of (tag, rng) \<Rightarrow>
           case emulated_records R payload (payload_offset + length copied) sizes rng of (rest, rng) \<Rightarrow>
             (header @ copied @ fill @ [0x16] @ tag @ rest, rng)
      else
        case sr_bytes R rng sz of (body, rng) \<Rightarrow>
        case emulated_records R payload payload_offset sizes rng of (rest, rng) \<Rightarrow> (header @ body @ rest, rng))"

definition emulated_extensions :: "bytes \<Rightarrow> bytes option \<Rightarrow> bytes" where
  "emulated_extensions key alpn =
     u16_to_be_bytes 0x0033 @ u16_to_be_bytes (2 + 2 + 32) @ u16_to_be_bytes 0x001d @ u16_to_be_bytes 32 @ key @
     u16_to_be_bytes 0x002b @ u16_to_be_bytes 2 @ u16_to_be_bytes 0x0304 @
     (case alpn of
        Some alpn_proto \<Rightarrow>
          let list_len = 1 + word_of_nat (length alpn_proto) :: u16; ext_len = 2 + list_len
          in u16_to_be_bytes 0x0010 @ u16_to_be_bytes ext_len @ u16_to_be_bytes list_len @
             [word_of_nat (length alpn_proto)] @ alpn_proto
      | None \<Rightarrow> [])"

definition emulated_message :: "parsed_server_hello \<Rightarrow> bytes \<Rightarrow> bytes \<Rightarrow> bytes" where
  "emulated_message template session_id extensions =
     (let body_len = 2 + 32 + 1 + length session_id + 2 + 1 + 2 + length extensions;
          cipher = (if psh_cipher_suite template = [0, 0] then [0x13, 0x01] else psh_cipher_suite template)
      in [0x02] @ drop 1 (u32_to_be_bytes (word_of_nat body_len)) @ psh_version template @ replicate 32 0 @
         [word_of_nat (length session_id)] @ session_id @ cipher @ [psh_compression template] @
         u16_to_be_bytes (word_of_nat (length extensions)) @ extensions)"

definition selected_payload :: "cached_tls_data \<Rightarrow> bool \<Rightarrow> bytes option" where
  "selected_payload cached use_full_cert_payload =
     (let compact = Option.bind (ctd_cert_info cached) build_compact_cert_info_payload in
      if use_full_cert_payload then
        (case ctd_cert_payload cached of
           Some payload \<Rightarrow> if tcp_certificate_message payload \<noteq> [] then Some (tcp_certificate_message payload) else compact
         | None \<Rightarrow> compact)
      else compact)"

definition build_emulated_server_hello :: "(bytes \<Rightarrow> bytes \<Rightarrow> bytes) \<Rightarrow> 'r std_rng \<Rightarrow> bytes \<Rightarrow> bytes \<Rightarrow> bytes \<Rightarrow>
    cached_tls_data \<Rightarrow> bool \<Rightarrow> bytes option \<Rightarrow> byte \<Rightarrow> 'r secure_random \<Rightarrow> bytes \<times> 'r secure_random" where
  "build_emulated_server_hello hmac R secret client_digest session_id cached use_full_cert_payload alpn
     new_session_tickets rng =
     (case gen_fake_x25519_key R rng of (key, rng) \<Rightarrow>
        let message = emulated_message (ctd_server_hello_template cached) session_id (emulated_extensions key alpn);
            server_hello = [TLS_RECORD_HANDSHAKE] @ TLS_VERSION @ u16_to_be_bytes (word_of_nat (length message)) @ message;
            sizes = (if ctd_app_data_records_sizes cached = [] then [max (ctd_total_app_data_len cached) 1024]
                     else ctd_app_data_records_sizes cached)
        in case jitter_and_clamp_sizes R sizes rng of (sizes, rng) \<Rightarrow>
        let payload = selected_payload cached use_full_cert_payload;
            sizes = (case payload of Some p \<Rightarrow> ensure_payload_capacity sizes (length p) | None \<Rightarrow> sizes)
        in case emulated_records R payload 0 sizes rng of (app_data, rng) \<Rightarrow>
           case build_tickets R (unat new_session_tickets) rng of (tickets, rng) \<Rightarrow>
             let response = server_hello @ change_cipher_spec @ app_data @ concat tickets;
                 digest = hmac secret (client_digest @ response)
             in (put response TLS_DIGEST_POS digest, rng))"

subsection \<open>The certificate budget\<close>

text \<open>A run of budget requests: address and time of each, all with the same time to live.\<close>

primrec budget_run :: "nat \<Rightarrow> (ip_addr \<times> nat) list \<Rightarrow> tls_front_cache \<Rightarrow> bool list \<times> tls_front_cache" where
  "budget_run ttl [] c = ([], c)"
| "budget_run ttl (r # rs) c =
     (case take_full_cert_budget_for_ip (fst r) ttl (snd r) c of (b, c) \<Rightarrow>
      case budget_run ttl rs c of (bs, c) \<Rightarrow> (b # bs, c))"

lemma budget_denied:
  assumes "tfc_full_cert_sent c ip = Some t" "0 < ttl" "now < t + ttl"
  shows "take_full_cert_budget_for_ip ip' ttl now c = (b, c') \<Longrightarrow>
    tfc_full_cert_sent c' ip = Some t \<and> (ip' = ip \<longrightarrow> \<not> b)"
  using assms by (auto simp: take_full_cert_budget_for_ip_def retain_young_def Let_def split: option.splits if_splits)

lemma budget_run_denied:
  assumes "tfc_full_cert_sent c ip = Some t" "0 < ttl" "\<forall>r \<in> set rs. snd r < t + ttl"
  shows "budget_run ttl rs c = (bs, c') \<Longrightarrow>
    tfc_full_cert_sent c' ip = Some t \<and> length bs = length rs \<and> (\<forall>i < length rs. fst (rs ! i) = ip \<longrightarrow> \<not> bs ! i)"
  using assms
proof (induction rs arbitrary: c bs)
  case (Cons r rs)
  obtain b c1 where 1: "take_full_cert_budget_for_ip (fst r) ttl (snd r) c = (b, c1)" by fastforce
  obtain bs1 where 2: "budget_run ttl rs c1 = (bs1, c')" "bs = b # bs1" using Cons.prems(1) 1 by (auto split: prod.splits)
  note d = budget_denied [OF Cons.prems(2,3) _ 1]
  then show ?case using Cons.IH [OF 2(1)] Cons.prems 2 by (auto simp: nth_Cons split: nat.split)
qed simp

text \<open>The full certificate is sent to an address at most once per time-to-live: after a request of an
  address was granted, every later request of that address that comes before the time has passed is denied, whatever
  other addresses ask in between; and the first request after it has passed is granted.\<close>

theorem cert_budget_once:
  assumes "take_full_cert_budget_for_ip ip ttl t c = (True, c1)" "0 < ttl"
    and "\<forall>r \<in> set rs. snd r < t + ttl" "budget_run ttl rs c1 = (bs, c2)"
  shows "(\<forall>i < length rs. fst (rs ! i) = ip \<longrightarrow> \<not> bs ! i) \<and>
    (\<forall>now. t + ttl \<le> now \<longrightarrow> fst (take_full_cert_budget_for_ip ip ttl now c2))"
proof -
  have "tfc_full_cert_sent c1 ip = Some t"
    using assms(1,2) by (auto simp: take_full_cert_budget_for_ip_def Let_def split: option.splits if_splits)
  from budget_run_denied [OF this assms(2,3,4)] show ?thesis
    using assms(2) by (auto simp: take_full_cert_budget_for_ip_def retain_young_def Let_def)
qed

theorem cert_budget_once_witness:
  "\<exists>c1 bs c2. take_full_cert_budget_for_ip (IpV4 7) 80 0 (tls_front_cache_new [] 1024 0) = (True, c1) \<and>
     budget_run 80 [(IpV4 9, 10), (IpV4 7, 20), (IpV4 7, 79)] c1 = (bs, c2) \<and> \<not> bs ! 1 \<and> \<not> bs ! 2 \<and>
     fst (take_full_cert_budget_for_ip (IpV4 7) 80 80 c2)"
proof -
  obtain c1 where 1: "take_full_cert_budget_for_ip (IpV4 7) 80 0 (tls_front_cache_new [] 1024 0) = (True, c1)"
    by (simp add: take_full_cert_budget_for_ip_def tls_front_cache_new_def retain_young_def Let_def)
  obtain bs c2 where 2: "budget_run 80 [(IpV4 9, 10), (IpV4 7, 20), (IpV4 7, 79)] c1 = (bs, c2)" by fastforce
  show ?thesis using cert_budget_once [OF 1 _ _ 2] 1 2 by fastforce
qed

subsection \<open>The emulated answer\<close>

definition size_ok :: "nat \<Rightarrow> bool" where
  "size_ok n \<longleftrightarrow> 64 \<le> n \<and> n \<le> 16640"

lemma clamped_ok:
  "size_ok (clamp n MIN_APP_DATA MAX_APP_DATA)" "size_ok (nat (max (int MIN_APP_DATA) (min x (int MAX_APP_DATA))))"
  by (auto simp: size_ok_def clamp_def app_data_bounds)

lemma jitter_sizes:
  "jitter_and_clamp_sizes R sizes rng = (out, rng') \<Longrightarrow> length out = length sizes \<and> list_all size_ok out"
proof (induction R sizes rng arbitrary: out rng' rule: jitter_and_clamp_sizes.induct)
  case (2 R sz sizes rng)
  let ?base = "clamp sz MIN_APP_DATA MAX_APP_DATA"
  show ?case
  proof (cases "jitter_range ?base = 0")
    case True
    then show ?thesis using 2(1) [OF refl refl True] 2(3) by (auto simp: clamped_ok Let_def split: prod.splits)
  next
    case False
    obtain bs r1 where r: "sr_bytes R rng 2 = (bs, r1)" by fastforce
    obtain rest r2 where "jitter_and_clamp_sizes R sizes r1 = (rest, r2)" by fastforce
    then show ?thesis
      using 2(2) [OF refl refl False r [symmetric] refl refl refl] 2(3) r False by (auto simp: clamped_ok Let_def)
  qed
qed simp

lemma capacity_append [simp]: "app_data_body_capacity (xs @ ys) = app_data_body_capacity xs + app_data_body_capacity ys"
  "app_data_body_capacity [x] = x - 17"
  by (simp_all add: app_data_body_capacity_def)

lemma push_chunks_capacity:
  "list_all size_ok sizes \<Longrightarrow> body_total = app_data_body_capacity sizes \<Longrightarrow>
   list_all size_ok (push_chunks sizes body_total n) \<and> n \<le> app_data_body_capacity (push_chunks sizes body_total n)"
proof (induction sizes body_total n rule: push_chunks.induct)
  case (1 sizes body_total n)
  show ?case
  proof (cases "body_total < n")
    case True
    show ?thesis using clamped_ok(1) 1(1) [OF True refl refl] 1(2,3) True by (subst (1 2) push_chunks.simps) (simp add: Let_def)
  next
    case False
    then show ?thesis using 1(2,3) by (subst (1 2) push_chunks.simps) simp
  qed
qed

lemma ensure_capacity:
  assumes "list_all size_ok sizes"
  shows "list_all size_ok (ensure_payload_capacity sizes n) \<and> n \<le> app_data_body_capacity (ensure_payload_capacity sizes n)"
proof -
  let ?b = "app_data_body_capacity sizes"
  consider "n = 0 \<or> n \<le> ?b" | "n \<noteq> 0" "\<not> n \<le> ?b" "sizes = []" | "n \<noteq> 0" "\<not> n \<le> ?b" "sizes \<noteq> []" by blast
  then show ?thesis
  proof cases
    case 1
    then show ?thesis using assms by (auto simp: ensure_payload_capacity_def Let_def)
  next
    case 2
    then show ?thesis using push_chunks_capacity [of "[]" 0 n]
      by (simp add: ensure_payload_capacity_def Let_def app_data_body_capacity_def)
  next
    case 3
    let ?g = "min (MAX_APP_DATA - last sizes) (n - ?b)" and ?i = "butlast sizes"
    have s: "sizes = ?i @ [last sizes]" using 3 by simp
    have ok: "size_ok (last sizes)" "list_all size_ok ?i" using assms by (subst (asm) s, simp)+
    have "list_all size_ok (?i @ [last sizes + ?g])"
      using ok by (auto simp: size_ok_def MAX_APP_DATA_def)
    moreover have "app_data_body_capacity (?i @ [last sizes + ?g]) = ?b + ?g"
      using ok(1) by (subst (3) s) (simp add: size_ok_def)
    ultimately show ?thesis
      using push_chunks_capacity [of "?i @ [last sizes + ?g]" "?b + ?g" n] 3
      by (simp add: ensure_payload_capacity_def Let_def)
  qed
qed

lemma push_chunks_nonempty: "sizes \<noteq> [] \<Longrightarrow> push_chunks sizes b n \<noteq> []"
  by (induction sizes b n rule: push_chunks.induct) (subst push_chunks.simps, simp add: Let_def)

lemma ensure_capacity_nonempty: "sizes \<noteq> [] \<Longrightarrow> ensure_payload_capacity sizes n \<noteq> []"
  by (simp add: ensure_payload_capacity_def Let_def push_chunks_nonempty)

text \<open>What a record carries before its content type and tag.\<close>

definition record_content :: "bytes \<Rightarrow> bytes" where
  "record_content b = take (length b - 17) b"

lemma copied_eq: "subslice p off (off + min (length p - off) n) = take n (drop off p)"
  by (simp add: subslice_def min_def)

lemma emulated_records_ok:
  assumes "list_all size_ok sizes" "emulated_records R payload off sizes rng = (app, rng')"
  shows "\<exists>bodies. app = concat (map (tls_record TLS_RECORD_APPLICATION) bodies) \<and> map length bodies = sizes \<and>
    (\<forall>p. payload = Some p \<longrightarrow> length p - off \<le> app_data_body_capacity sizes \<longrightarrow>
      (\<exists>z. concat (map record_content bodies) = drop off p @ z))"
  using assms
proof (induction sizes arbitrary: off rng app rng')
  case Nil
  then show ?case by (intro exI [of _ "[]"]) (auto simp: app_data_body_capacity_def)
next
  case (Cons sz sizes)
  let ?n = "sz - 17"
  define copied where "copied = (case payload of Some p \<Rightarrow> take ?n (drop off p) | None \<Rightarrow> [])"
  have sz: "17 < sz" "sz < 65536" using Cons.prems(1) by (auto simp: size_ok_def)
  have lc: "length copied \<le> ?n" by (auto simp: copied_def split: option.split)
  obtain fill r1 where 1: "(if length copied < ?n then sr_bytes R rng (?n - length copied) else ([], rng)) = (fill, r1)" by fastforce
  obtain tag r2 where 2: "sr_bytes R r1 16 = (tag, r2)" by fastforce
  obtain rest r3 where 3: "emulated_records R payload (off + length copied) sizes r2 = (rest, r3)" by fastforce
  have lf: "length fill = ?n - length copied"
    using 1 lc by (auto split: if_splits dest: sr_bytes_length)
  have lt: "length tag = 16" using 2 by (rule sr_bytes_length)
  let ?b = "copied @ fill @ [0x16] @ tag"
  have lb: "length ?b = sz" using lc lf lt sz by simp
  have cc: "(case payload of None \<Rightarrow> [] | Some p \<Rightarrow> subslice p off (off + min (length p - off) ?n)) = copied"
    by (simp add: copied_def copied_eq split: option.split)
  have app: "app = tls_record TLS_RECORD_APPLICATION ?b @ rest"
    using Cons.prems(2) sz 1 2 3 lb unfolding emulated_records.simps Let_def cc by (simp add: tls_record_def)
  obtain bodies where b: "rest = concat (map (tls_record TLS_RECORD_APPLICATION) bodies)" "map length bodies = sizes"
      "\<And>p. payload = Some p \<Longrightarrow> length p - (off + length copied) \<le> app_data_body_capacity sizes \<Longrightarrow>
        \<exists>z. concat (map record_content bodies) = drop (off + length copied) p @ z"
    using Cons.IH [OF _ 3] Cons.prems(1) by auto
  have rc: "record_content ?b = copied @ fill" using lf lt lc by (simp add: record_content_def)
  have "\<exists>z. concat (map record_content (?b # bodies)) = drop off p @ z"
    if p: "payload = Some p" "length p - off \<le> app_data_body_capacity (sz # sizes)" for p
  proof (cases "length copied < ?n")
    case True
    then have "copied = drop off p" using p(1) by (simp add: copied_def)
    then show ?thesis using rc by simp
  next
    case False
    then have c: "length copied = ?n" "fill = []" using lc lf by simp_all
    then have "copied @ drop (off + length copied) p = drop off p"
      using p(1) append_take_drop_id [of ?n "drop off p"] by (simp add: copied_def add.commute)
    moreover have "length p - (off + length copied) \<le> app_data_body_capacity sizes"
      using p(2) c(1) by (simp add: app_data_body_capacity_def)
    then obtain z where "concat (map record_content bodies) = drop (off + length copied) p @ z" using b(3) [OF p(1)] by blast
    ultimately have "concat (map record_content (?b # bodies)) = drop off p @ z" using rc c(2) by (simp flip: append.assoc)
    then show ?thesis ..
  qed
  then show ?case using app b(1,2) lb by (intro exI [of _ "?b # bodies"]) simp
qed

text \<open>The ServerHello record: eleven bytes, the random field, and the rest.\<close>

definition template_wf :: "parsed_server_hello \<Rightarrow> bool" where
  "template_wf t \<longleftrightarrow> length (psh_version t) = 2 \<and> length (psh_cipher_suite t) = 2"

lemma emulated_extensions_length:
  "length key = 32 \<Longrightarrow> length (emulated_extensions key alpn) = 46 + (case alpn of None \<Rightarrow> 0 | Some a \<Rightarrow> 7 + length a)"
  by (simp add: emulated_extensions_def Let_def split: option.split)

lemma emulated_hello_ok:
  assumes "hmac_ok hmac" "std_rng_ok R" "template_wf (ctd_server_hello_template cached)"
    and "length session_id \<le> 255" "\<forall>a. alpn = Some a \<longrightarrow> length a \<le> 255"
    and "build_emulated_server_hello hmac R secret client_digest session_id cached full alpn tickets rng = (resp, rng')"
  shows "answer_signed hmac secret client_digest resp \<and>
    (\<exists>msg bodies ts. answer_records resp session_id (unat tickets) msg bodies ts \<and>
      (\<forall>p. selected_payload cached full = Some p \<longrightarrow> (\<exists>z. concat (map record_content bodies) = p @ z)))"
proof -
  obtain key r1 where 1: "gen_fake_x25519_key R rng = (key, r1)" by fastforce
  have key: "length key = 32" using gen_key_length [of R rng] 1 by simp
  define sz0 where "sz0 = (if ctd_app_data_records_sizes cached = [] then [max (ctd_total_app_data_len cached) 1024]
    else ctd_app_data_records_sizes cached)"
  obtain sz1 r2 where 2: "jitter_and_clamp_sizes R sz0 r1 = (sz1, r2)" by fastforce
  let ?pl = "selected_payload cached full"
  define sz where "sz = (case ?pl of Some p \<Rightarrow> ensure_payload_capacity sz1 (length p) | None \<Rightarrow> sz1)"
  have sz1: "list_all size_ok sz1" "length sz1 = length sz0" using jitter_sizes [OF 2] by simp_all
  have sz: "list_all size_ok sz" using sz1(1) ensure_capacity [OF sz1(1)] by (simp add: sz_def split: option.split)
  have "sz1 \<noteq> []" using sz1(2) by (auto simp: sz0_def split: if_splits)
  then have sz_ne: "sz \<noteq> []" by (simp add: sz_def ensure_capacity_nonempty split: option.split)
  obtain app r3 where 3: "emulated_records R ?pl 0 sz r2 = (app, r3)" by fastforce
  obtain bodies where b: "app = concat (map (tls_record TLS_RECORD_APPLICATION) bodies)" "map length bodies = sz"
      "\<And>p. ?pl = Some p \<Longrightarrow> length p \<le> app_data_body_capacity sz \<Longrightarrow> \<exists>z. concat (map record_content bodies) = p @ z"
    using emulated_records_ok [OF sz 3] by auto
  obtain tk r4 where 4: "build_tickets R (unat tickets) r3 = (tk, r4)" by fastforce
  obtain ts where ts: "tk = map (tls_record TLS_RECORD_APPLICATION) ts" "length ts = unat tickets"
      "\<forall>t \<in> set ts. 48 \<le> length t \<and> length t \<le> 95"
    using tickets_records [OF assms(2) 4] by blast
  let ?t = "ctd_server_hello_template cached" and ?e = "emulated_extensions key alpn"
  define P where "P = [0x02] @ drop 1 (u32_to_be_bytes (word_of_nat (2 + 32 + 1 + length session_id + 2 + 1 + 2 + length ?e))) @
    psh_version ?t"
  define Z where "Z = (if psh_cipher_suite ?t = [0, 0] then [0x13, 0x01] else psh_cipher_suite ?t) @ [psh_compression ?t] @
    u16_to_be_bytes (word_of_nat (length ?e)) @ ?e"
  let ?Q = "[word_of_nat (length session_id)] @ session_id @ Z"
  have P: "length P = 6" using assms(3) by (simp add: P_def template_wf_def)
  have m: "emulated_message ?t session_id ?e = P @ replicate 32 0 @ ?Q" by (simp add: emulated_message_def Let_def P_def Z_def)
  have Q: "length ?Q \<le> 65000"
    using assms(3-5) emulated_extensions_length [OF key, of alpn] by (fastforce simp: Z_def template_wf_def split: option.splits)
  let ?r0 = "tls_record TLS_RECORD_HANDSHAKE (P @ replicate 32 0 @ ?Q) @ change_cipher_spec @
      concat (map (tls_record TLS_RECORD_APPLICATION) (bodies @ ts))"
  have resp: "resp = put ?r0 11 (hmac secret (client_digest @ ?r0))"
    using assms(6) 1 2 3 4 b(1) ts(1)
    by (simp add: build_emulated_server_hello_def Let_def sz0_def [symmetric] sz_def [symmetric] m tls_record_def digest_defs)
  have bd: "\<forall>b \<in> set bodies. 64 \<le> length b \<and> length b \<le> 16640"
    using sz unfolding b(2) [symmetric] by (simp add: list_all_iff size_ok_def)
  have "bodies \<noteq> []" using b(2) sz_ne by auto
  from answer_assembled [OF assms(1) P Q sh_message_echoes [OF P] this bd ts(2,3) refl resp]
  show ?thesis using b(3) ensure_capacity [OF sz1(1)] by (fastforce simp: sz_def)
qed

text \<open>C28: The emulated answer carries the selected certificate payload completely: whatever sizes the profile
  recorded and however they are jittered, the application records together have room for the payload and
  hold it from its first byte, and each of them is between 64 and 16640 bytes long.\<close>

theorem emulated_payload_complete:
  assumes "hmac_ok hmac" "std_rng_ok R" "template_wf (ctd_server_hello_template cached)"
    and "length session_id \<le> 255" "\<forall>a. alpn = Some a \<longrightarrow> length a \<le> 255"
    and "build_emulated_server_hello hmac R secret client_digest session_id cached full alpn tickets rng = (resp, rng')"
    and "selected_payload cached full = Some p"
  shows "\<exists>sh ccs bodies ts z. split_records resp = Some ([sh, ccs] @ map (Pair TLS_RECORD_APPLICATION) (bodies @ ts)) \<and>
    length ts = unat tickets \<and> (\<forall>b \<in> set bodies. 64 \<le> length b \<and> length b \<le> 16640) \<and>
    concat (map (\<lambda>b. take (length b - 17) b) bodies) = p @ z"
proof -
  have rc: "map (\<lambda>b. take (length b - 17) b) bodies = map record_content bodies" for bodies
    by (simp add: record_content_def)
  show ?thesis using emulated_hello_ok [OF assms(1-6)] assms(7) unfolding rc answer_records_def by blast
qed

definition sample_profile :: cached_tls_data where
  "sample_profile = (tfc_default (tls_front_cache_new [] 1024 0))\<lparr>ctd_cert_payload :=
     Some \<lparr>tcp_cert_chain_der = [], tcp_certificate_message = replicate 2000 9\<rparr>\<rparr>"

lemma sample_profile_wf: "template_wf (ctd_server_hello_template sample_profile)"
  by (simp add: sample_profile_def template_wf_def tls_front_cache_new_def default_template_def Let_def)

theorem emulated_payload_complete_witness:
  "\<exists>resp rng' sh ccs bodies ts z.
     build_emulated_server_hello (\<lambda>k m. replicate 32 5) zero_rng [1] (replicate 32 2) [3, 4] sample_profile True
       (Some [0x68, 0x32]) 1 zero_sr = (resp, rng') \<and>
     split_records resp = Some ([sh, ccs] @ map (Pair TLS_RECORD_APPLICATION) (bodies @ ts)) \<and> length ts = 1 \<and>
     concat (map (\<lambda>b. take (length b - 17) b) bodies) = replicate 2000 9 @ z"
proof -
  have ok: "hmac_ok (\<lambda>k m. replicate 32 5)" "std_rng_ok zero_rng"
    by (simp_all add: hmac_ok_def std_rng_ok_def zero_rng_def)
  have p: "selected_payload sample_profile True = Some (replicate 2000 9)"
    by (simp add: selected_payload_def sample_profile_def Let_def)
  obtain resp rng' where r: "build_emulated_server_hello (\<lambda>k m. replicate 32 5) zero_rng [1] (replicate 32 2) [3, 4]
     sample_profile True (Some [0x68, 0x32]) 1 zero_sr = (resp, rng')" by fastforce
  have "length [3 :: byte, 4] \<le> 255" "\<forall>a. Some [0x68, 0x32 :: byte] = Some a \<longrightarrow> length a \<le> 255" by auto
  from emulated_payload_complete [OF ok sample_profile_wf this r p] r show ?thesis unfolding unat_1 by blast
qed

end
