(* ===== verification/Tls_Handshake.thy ===== *)
theory Tls_Handshake
  imports Handshake Client_Hello Tls_Front Tls_Writer
begin

section \<open>The FakeTLS handshake (\<open>handle_tls_handshake\<close> of \<open>proxy/handshake.rs\<close>)\<close>

text \<open>
  A ClientHello is checked for replay and validated against the users' secrets; a valid one is answered
  with a built or emulated ServerHello, written and flushed to the socket. The result is \<open>None\<close> where a parser would
  panic and while the socket does not take the answer within the fuel; the theorems show that neither
  happens on a live socket. The pause before the answer (\<open>server_hello_delay_*\<close>) only delays and is not modelled.
\<close>

record censorship_config =
  cc_tls_domain :: bytes
  cc_tls_emulation :: bool
  cc_tls_full_cert_ttl_secs :: nat
  cc_alpn_enforce :: bool
  cc_fake_cert_len :: nat
  cc_tls_new_session_tickets :: byte

record tls_hs_config =
  tc_users :: "(string \<times> string) list"
  tc_ignore_time_skew :: bool
  tc_censorship :: censorship_config

text \<open>The clocks read by one handshake: the replay checker's, the wall clock in Unix seconds, the cache's.\<close>

record hs_clock =
  ck_instant :: nat
  ck_unix :: int
  ck_cache :: nat

definition decode_secrets :: "hs_crypto \<Rightarrow> (string \<times> string) list \<Rightarrow> (string \<times> bytes) list" where
  "decode_secrets C users = List.map_filter (\<lambda>u. map_option (Pair (fst u)) (hc_hex_decode C (snd u))) users"

definition select_cached :: "censorship_config \<Rightarrow> bytes \<Rightarrow> ip_addr \<Rightarrow> nat \<Rightarrow> tls_front_cache option \<Rightarrow>
    ((cached_tls_data \<times> bool) option \<times> tls_front_cache option) option" where
  "select_cached cfg handshake ip now tls_cache =
     (if cc_tls_emulation cfg then
        (case tls_cache of
           None \<Rightarrow> Some (None, None)
         | Some cache \<Rightarrow>
             (case extract_sni_from_client_hello handshake of
                None \<Rightarrow> None
              | Some sni_opt \<Rightarrow>
                  let selected_domain = (case sni_opt of
                        Some sni \<Rightarrow> if contains_domain sni cache then sni else cc_tls_domain cfg
                      | None \<Rightarrow> cc_tls_domain cfg);
                      cached_entry = tfc_get selected_domain cache
                  in case take_full_cert_budget_for_ip ip (1000 * cc_tls_full_cert_ttl_secs cfg) now cache of
                       (use_full, cache) \<Rightarrow> Some (Some (cached_entry, use_full), Some cache)))
      else Some (None, tls_cache))"

definition select_alpn :: "censorship_config \<Rightarrow> bytes \<Rightarrow> bytes option option" where
  "select_alpn cfg handshake =
     (if cc_alpn_enforce cfg then
        (case extract_alpn_from_client_hello handshake of
           None \<Rightarrow> None
         | Some protos \<Rightarrow>
             Some (if ascii ''h2'' \<in> set protos then Some (ascii ''h2'')
                   else if ascii ''http/1.1'' \<in> set protos then Some (ascii ''http/1.1'')
                   else None))
      else Some None)"

definition server_answer :: "(bytes \<Rightarrow> bytes \<Rightarrow> bytes) \<Rightarrow> 'r std_rng \<Rightarrow> censorship_config \<Rightarrow> bytes \<Rightarrow> tls_validation \<Rightarrow>
    (cached_tls_data \<times> bool) option \<Rightarrow> bytes option \<Rightarrow> 'r secure_random \<Rightarrow> bytes \<times> 'r secure_random" where
  "server_answer hmac R cfg secret validation cached selected_alpn rng =
     (case cached of
        Some (cached_entry, use_full) \<Rightarrow>
          build_emulated_server_hello hmac R secret (tv_digest validation) (tv_session_id validation) cached_entry use_full
            selected_alpn (cc_tls_new_session_tickets cfg) rng
      | None \<Rightarrow>
          build_server_hello hmac R secret (tv_digest validation) (tv_session_id validation) (cc_fake_cert_len cfg)
            selected_alpn (cc_tls_new_session_tickets cfg) rng)"

definition send_answer :: "nat \<Rightarrow> bytes \<Rightarrow> sink \<Rightarrow> (unit io_result \<times> sink) option" where
  "send_answer fuel response writer =
     (case write_loop sink_poll fuel response writer of
        None \<Rightarrow> None
      | Some (Inl e, writer) \<Rightarrow> Some (Inl e, writer)
      | Some (Inr _, writer) \<Rightarrow> flush_loop sink_control fuel writer)"

text \<open>The state the handshake shares with other clients: the replay checker, the profile cache, the generator.\<close>

record ('c, 'r) hs_shared =
  sh_replay :: "'c replay_checker"
  sh_cache :: "tls_front_cache option"
  sh_rng :: "'r secure_random"

record ('c, 'r) hs_env =
  en_crypto :: hs_crypto
  en_hmac :: "bytes \<Rightarrow> bytes \<Rightarrow> bytes"
  en_lru :: "'c replay_lru"
  en_hash :: "bytes \<Rightarrow> u64"
  en_rng :: "'r std_rng"

definition handle_tls_handshake :: "('c, 'r) hs_env \<Rightarrow> nat \<Rightarrow> bytes \<Rightarrow> source \<Rightarrow> sink \<Rightarrow> socket_addr \<Rightarrow> tls_hs_config \<Rightarrow> hs_clock \<Rightarrow>
    ('c, 'r) hs_shared \<Rightarrow>
    ((tls_reader \<times> tls_writer \<times> string, source, sink) handshake_result \<times> ('c, 'r) hs_shared) option" where
  "handle_tls_handshake E fuel handshake reader writer peer cfg clock g =
     (if length handshake < TLS_DIGEST_POS + TLS_DIGEST_LEN + 1 then Some (HsBadClient reader writer, g)
      else
        let digest = subslice handshake TLS_DIGEST_POS (TLS_DIGEST_POS + TLS_DIGEST_LEN);
            digest_half = take TLS_DIGEST_HALF_LEN digest
        in case check_and_add_tls_digest (en_lru E) (en_hash E) digest_half (ck_instant clock) (sh_replay g) of
             (replayed, rc) \<Rightarrow>
        let g = g\<lparr>sh_replay := rc\<rparr>; secrets = decode_secrets (en_crypto E) (tc_users cfg) in
        if replayed then Some (HsBadClient reader writer, g)
        else case validate_tls_handshake (en_hmac E) handshake secrets (tc_ignore_time_skew cfg) (ck_unix clock) of
            None \<Rightarrow> Some (HsBadClient reader writer, g)
          | Some validation \<Rightarrow>
        (case List.find (\<lambda>s. fst s = tv_user validation) secrets of
            None \<Rightarrow> Some (HsBadClient reader writer, g)
          | Some (_, secret) \<Rightarrow>
        (case select_cached (tc_censorship cfg) handshake (sa_ip peer) (ck_cache clock) (sh_cache g) of
            None \<Rightarrow> None
          | Some (cached, cache) \<Rightarrow>
        (case select_alpn (tc_censorship cfg) handshake of
            None \<Rightarrow> None
          | Some selected_alpn \<Rightarrow>
        (case server_answer (en_hmac E) (en_rng E) (tc_censorship cfg) secret validation cached selected_alpn (sh_rng g) of
            (response, rng) \<Rightarrow>
        let g = g\<lparr>sh_cache := cache, sh_rng := rng\<rparr> in
        (case send_answer fuel response writer of
            None \<Rightarrow> None
          | Some (Inl e, _) \<Rightarrow> Some (HsError (ProxyIo e), g)
          | Some (Inr _, writer) \<Rightarrow> Some (HsSuccess (tls_reader_new reader, tls_writer_new writer, tv_user validation), g)))))))"

subsection \<open>Which hellos are answered\<close>

text \<open>A cache holds only profiles whose version and cipher suite are two bytes each, as their array types say.\<close>

definition cache_wf :: "tls_front_cache \<Rightarrow> bool" where
  "cache_wf c \<longleftrightarrow> template_wf (ctd_server_hello_template (tfc_default c)) \<and>
     (\<forall>d \<in> ran (tfc_memory c). template_wf (ctd_server_hello_template d))"

lemma cache_get_wf: "cache_wf c \<Longrightarrow> template_wf (ctd_server_hello_template (tfc_get d c))"
  by (auto simp: cache_wf_def tfc_get_def ran_def split: option.split)

lemma cache_new_wf: "cache_wf (tls_front_cache_new domains n now)"
proof -
  have "ran (foldl (\<lambda>m d. m(d \<mapsto> e)) m domains) \<subseteq> insert e (ran m)" for m :: "bytes \<rightharpoonup> cached_tls_data" and e
  proof (induction domains arbitrary: m)
    case (Cons d domains)
    have "ran (m(d \<mapsto> e)) \<subseteq> insert e (ran m)" by (auto simp: ran_def split: if_splits)
    then show ?case using Cons [of "m(d \<mapsto> e)"] unfolding foldl_Cons by blast
  qed auto
  from this [of _ Map.empty] show ?thesis
    by (fastforce simp: cache_wf_def tls_front_cache_new_def Let_def template_wf_def default_template_def)
qed

lemma cache_set_wf: "cache_wf c \<Longrightarrow> template_wf (ctd_server_hello_template e) \<Longrightarrow> cache_wf (tfc_set d e c)"
  by (auto simp: cache_wf_def tfc_set_def ran_def)

lemma cache_budget_wf: "cache_wf c \<Longrightarrow> take_full_cert_budget_for_ip ip ttl now c = (b, c') \<Longrightarrow> cache_wf c'"
  by (auto simp: cache_wf_def take_full_cert_budget_for_ip_def Let_def split: if_splits option.splits)

definition caches_wf :: "tls_front_cache option \<Rightarrow> bool" where
  "caches_wf c \<longleftrightarrow> (\<forall>x. c = Some x \<longrightarrow> cache_wf x)"

text \<open>The parsers always return, so a profile and a protocol are always selected.\<close>

lemma select_cached_total:
  assumes "caches_wf cache"
  shows "\<exists>cached cache'. select_cached cfg h ip now cache = Some (cached, cache') \<and> caches_wf cache' \<and>
    (\<forall>e full. cached = Some (e, full) \<longrightarrow> template_wf (ctd_server_hello_template e))"
proof (cases "cc_tls_emulation cfg \<and> cache \<noteq> None")
  case True
  then obtain c where c: "cache = Some c" "cache_wf c" using assms by (auto simp: caches_wf_def)
  obtain s where s: "extract_sni_from_client_hello h = Some s" using extract_sni_safe [of h] by blast
  obtain b c' where b: "take_full_cert_budget_for_ip ip (1000 * cc_tls_full_cert_ttl_secs cfg) now c = (b, c')" by fastforce
  then show ?thesis using True c s cache_budget_wf [OF c(2) b] cache_get_wf [OF c(2)]
    by (auto simp: select_cached_def caches_wf_def)
next
  case False
  then show ?thesis using assms by (auto simp: select_cached_def caches_wf_def)
qed

lemma select_alpn_total: "\<exists>a. select_alpn cfg h = Some a \<and> (\<forall>p. a = Some p \<longrightarrow> length p \<le> 255)"
  using extract_alpn_safe [of h] by (auto simp: select_alpn_def ascii_def)

lemma decode_secrets_set:
  "(u, secret) \<in> set (decode_secrets C users) \<longleftrightarrow> (\<exists>hex. (u, hex) \<in> set users \<and> hc_hex_decode C hex = Some secret)"
  by (force simp: decode_secrets_def map_filter_def)

lemma find_secret:
  assumes "distinct (map fst users)" "(u, secret) \<in> set (decode_secrets C users)"
  shows "List.find (\<lambda>s. fst s = u) (decode_secrets C users) = Some (u, secret)"
  using assms
proof (induction users)
  case (Cons x users)
  have "decode_secrets C (x # users) =
      (case hc_hex_decode C (snd x) of None \<Rightarrow> [] | Some s \<Rightarrow> [(fst x, s)]) @ decode_secrets C users"
    by (simp add: decode_secrets_def map_filter_def split: option.split)
  moreover have "fst y \<in> fst ` set users" if "y \<in> set (decode_secrets C users)" for y
    using that decode_secrets_set [of "fst y" "snd y" C users] by force
  ultimately show ?case using Cons by (force split: option.splits)
qed (simp add: decode_secrets_def map_filter_def)

lemma server_answer_ok:
  assumes "hmac_ok hmac" "std_rng_ok R" "length (tv_session_id v) \<le> 255" "\<forall>p. alpn = Some p \<longrightarrow> length p \<le> 255"
    and "\<forall>e full. cached = Some (e, full) \<longrightarrow> template_wf (ctd_server_hello_template e)"
    and "server_answer hmac R cfg secret v cached alpn rng = (resp, rng')"
  shows "answer_signed hmac secret (tv_digest v) resp \<and>
    (\<exists>msg bodies ts. answer_records resp (tv_session_id v) (unat (cc_tls_new_session_tickets cfg)) msg bodies ts)"
proof (cases cached)
  case None
  then show ?thesis using server_hello_ok [OF assms(1-4)] assms(6) by (simp add: server_answer_def)
next
  case (Some c)
  obtain e full where "c = (e, full)" by fastforce
  then show ?thesis
    using emulated_hello_ok [OF assms(1,2) _ assms(3,4), of e] assms(5,6) Some by (simp add: server_answer_def) blast
qed

lemma send_answer_live:
  assumes "sink_live w" "length resp < ok_count w" "length (sk_script w) + length resp < fuel"
  shows "\<exists>w'. send_answer fuel resp w = Some (Inr (), w') \<and> sk_written w' = sk_written w @ resp"
proof -
  have b: "sink_ready w (ok_count w)" using assms(1) by (simp add: sink_ready_def)
  obtain w1 where w1: "write_loop sink_poll fuel resp w = Some (Inr (), w1)" "sink_ready w1 (ok_count w - length resp)"
      "length (sk_script w1) \<le> length (sk_script w)"
    using raw_out.write_loop_live [OF TrueI b, of resp fuel] assms(2,3) by auto
  obtain w2 where w2: "flush_loop sink_control fuel w1 = Some (Inr (), w2)"
    using raw_out.flush_loop_live [OF TrueI w1(2), of fuel] assms(2,3) w1(3) by auto
  show ?thesis
    using raw_out.write_loop_plain [OF TrueI w1(1)] raw_out.flush_loop_plain [OF TrueI w2] w1(1) w2
    by (auto simp: send_answer_def)
qed

text \<open>A client that knows a secret is answered. When the hello was signed with the secret of a configured user at an
  acceptable time and is not a replay, then the handshake with a live socket succeeds for that user, whatever
  profiles are cached and whatever else the hello holds: exactly the answer is written to the socket, and this answer is a
  well-formed sequence of TLS records that echoes the session id and is signed with the user's secret.\<close>

lemma tls_handshake_answers:
  assumes "hmac_ok (en_hmac E)" "std_rng_ok (en_rng E)" "distinct (map fst (tc_users cfg))" "caches_wf (sh_cache g)"
    and "check_and_add_tls_digest (en_lru E) (en_hash E) (subslice h 11 27) (ck_instant clock) (sh_replay g) = (False, rc)"
    and "validate_tls_handshake (en_hmac E) h (decode_secrets (en_crypto E) (tc_users cfg)) (tc_ignore_time_skew cfg)
      (ck_unix clock) = Some v"
  shows "\<exists>hex secret resp g'. (tv_user v, hex) \<in> set (tc_users cfg) \<and> hc_hex_decode (en_crypto E) hex = Some secret \<and>
    hello_signed (en_hmac E) h secret (tv_timestamp v) \<and> sh_replay g' = rc \<and> caches_wf (sh_cache g') \<and>
    answer_signed (en_hmac E) secret (subslice h 11 43) resp \<and>
    (\<exists>msg bodies ts. answer_records resp (tv_session_id v) (unat (cc_tls_new_session_tickets (tc_censorship cfg))) msg bodies ts) \<and>
    (\<forall>reader w fuel. sink_live w \<and> length resp < ok_count w \<and> length (sk_script w) + length resp < fuel \<longrightarrow>
      (\<exists>w'. handle_tls_handshake E fuel h reader w peer cfg clock g =
         Some (HsSuccess (tls_reader_new reader, tls_writer_new w', tv_user v), g') \<and> sk_written w' = sk_written w @ resp))"
proof -
  let ?s = "decode_secrets (en_crypto E) (tc_users cfg)" and ?C = "tc_censorship cfg"
  have l: "44 \<le> length h" and dg: "tv_digest v = subslice h 11 43" and sid: "length (tv_session_id v) \<le> 255"
    using validate_SomeD [OF assms(1,6)] by simp_all
  obtain secret where sec: "(tv_user v, secret) \<in> set ?s" "hello_signed (en_hmac E) h secret (tv_timestamp v)"
    using validate_SomeD [OF assms(1,6)] by blast
  obtain hex where hex: "(tv_user v, hex) \<in> set (tc_users cfg)" "hc_hex_decode (en_crypto E) hex = Some secret"
    using sec(1) unfolding decode_secrets_set by blast
  note fnd = find_secret [OF assms(3) sec(1)]
  obtain cached cache' where c: "select_cached ?C h (sa_ip peer) (ck_cache clock) (sh_cache g) = Some (cached, cache')"
      "caches_wf cache'" "\<forall>e full. cached = Some (e, full) \<longrightarrow> template_wf (ctd_server_hello_template e)"
    using select_cached_total [OF assms(4)] by blast
  obtain alpn where a: "select_alpn ?C h = Some alpn" "\<forall>p. alpn = Some p \<longrightarrow> length p \<le> 255"
    using select_alpn_total by blast
  obtain resp rng where r: "server_answer (en_hmac E) (en_rng E) ?C secret v cached alpn (sh_rng g) = (resp, rng)" by fastforce
  let ?g = "g\<lparr>sh_replay := rc, sh_cache := cache', sh_rng := rng\<rparr>"
  have half: "take 16 (subslice h 11 43) = subslice h 11 27" by (simp add: subslice_def)
  have run: "handle_tls_handshake E fuel h reader w peer cfg clock g =
      Some (HsSuccess (tls_reader_new reader, tls_writer_new w', tv_user v), ?g)"
    if "send_answer fuel resp w = Some (Inr (), w')" for fuel w w' reader
    using that l assms(5,6) fnd c(1) a(1) r half
    by (simp add: handle_tls_handshake_def digest_defs Let_def)
  have sent: "\<forall>reader w fuel. sink_live w \<and> length resp < ok_count w \<and> length (sk_script w) + length resp < fuel \<longrightarrow>
      (\<exists>w'. handle_tls_handshake E fuel h reader w peer cfg clock g =
         Some (HsSuccess (tls_reader_new reader, tls_writer_new w', tv_user v), ?g) \<and> sk_written w' = sk_written w @ resp)"
    using run send_answer_live by blast
  show ?thesis
    by (rule exI [of _ hex], rule exI [of _ secret], rule exI [of _ resp], rule exI [of _ ?g])
      (use server_answer_ok [OF assms(1,2) sid a(2) c(3) r] hex sec(2) c(2) dg sent in simp)
qed

text \<open>The hello of a client: \<open>hello_by\<close>, the user signed it at an acceptable time; \<open>hello_valid\<close>, it is long enough, not a
  replay, and some configured user signed it.\<close>

definition hello_by :: "('c, 'r) hs_env \<Rightarrow> tls_hs_config \<Rightarrow> hs_clock \<Rightarrow> bytes \<Rightarrow> string \<Rightarrow> bool" where
  "hello_by E cfg clock h u \<longleftrightarrow>
     (\<exists>hex secret ts. (u, hex) \<in> set (tc_users cfg) \<and> hc_hex_decode (en_crypto E) hex = Some secret \<and>
       hello_signed (en_hmac E) h secret ts \<and> time_ok (tc_ignore_time_skew cfg) (ck_unix clock) ts)"

definition hello_valid :: "('c, 'r) hs_env \<Rightarrow> tls_hs_config \<Rightarrow> hs_clock \<Rightarrow> 'c replay_checker \<Rightarrow> bytes \<Rightarrow> bool" where
  "hello_valid E cfg clock rc h \<longleftrightarrow> 44 \<le> length h \<and> 44 + unat (h ! 43) \<le> length h \<and>
     \<not> fst (check_and_add_tls_digest (en_lru E) (en_hash E) (subslice h 11 27) (ck_instant clock) rc) \<and>
     (\<exists>u. hello_by E cfg clock h u)"

lemma hello_valid_iff:
  assumes "hmac_ok (en_hmac E)"
  shows "hello_valid E cfg clock rc h \<longleftrightarrow> 44 \<le> length h \<and>
    \<not> fst (check_and_add_tls_digest (en_lru E) (en_hash E) (subslice h 11 27) (ck_instant clock) rc) \<and>
    (\<exists>v. validate_tls_handshake (en_hmac E) h (decode_secrets (en_crypto E) (tc_users cfg)) (tc_ignore_time_skew cfg) (ck_unix clock) = Some v)"
  unfolding hello_valid_def hello_by_def validate_iff_signed [OF assms] Bex_def split_paired_Ex snd_conv decode_secrets_set by blast

text \<open>The FakeTLS handshake is sound: it succeeds only for a valid hello, and names a user who signed it; every other hello
  makes a bad client, which gets its reader and writer back untouched, to be masked, with the profile cache and the
  generator as before; and the only error is one of the socket, after a valid hello.\<close>

lemma tls_handshake_sound:
  assumes "hmac_ok (en_hmac E)" "distinct (map fst (tc_users cfg))"
    and "handle_tls_handshake E fuel h reader w peer cfg clock g = Some (res, g')"
  shows "case res of
      HsSuccess (r, w', user) \<Rightarrow> hello_valid E cfg clock (sh_replay g) h \<and> hello_by E cfg clock h user \<and> r = tls_reader_new reader \<and>
        sh_replay g' = snd (check_and_add_tls_digest (en_lru E) (en_hash E) (subslice h 11 27) (ck_instant clock) (sh_replay g))
    | HsBadClient r w' \<Rightarrow> \<not> hello_valid E cfg clock (sh_replay g) h \<and> r = reader \<and> w' = w \<and>
        sh_cache g' = sh_cache g \<and> sh_rng g' = sh_rng g
    | HsError e \<Rightarrow> hello_valid E cfg clock (sh_replay g) h \<and> (\<exists>x. e = ProxyIo x)"
proof -
  let ?s = "decode_secrets (en_crypto E) (tc_users cfg)"
  let ?v = "validate_tls_handshake (en_hmac E) h ?s (tc_ignore_time_skew cfg) (ck_unix clock)"
  have half: "take 16 (subslice h 11 43) = subslice h 11 27" by (simp add: subslice_def)
  have named: "hello_by E cfg clock h (tv_user v)" if "?v = Some v" for v
    using validate_SomeD [OF assms(1) that] unfolding hello_by_def decode_secrets_set by blast
  have fnd: "\<exists>secret. List.find (\<lambda>s. fst s = tv_user v) ?s = Some (tv_user v, secret)" if "?v = Some v" for v
    using find_secret [OF assms(2)] validate_SomeD [OF assms(1) that] by blast
  show ?thesis
    using assms(3) fnd named half unfolding hello_valid_iff [OF assms(1)]
    by (auto simp: handle_tls_handshake_def digest_defs Let_def split: if_splits prod.splits option.splits sum.splits)
qed

subsection \<open>Witnesses\<close>

definition sample_env :: "(nat \<times> (bytes \<times> replay_entry) list, unit) hs_env" where
  "sample_env = \<lparr>en_crypto = plain_crypto, en_hmac = (\<lambda>k m. replicate 32 0), en_lru = list_lru, en_hash = (\<lambda>k. 0), en_rng = zero_rng\<rparr>"

definition sample_tls_cfg :: tls_hs_config where
  "sample_tls_cfg = \<lparr>tc_users = [(''alice'', ''00'')], tc_ignore_time_skew = False,
     tc_censorship = \<lparr>cc_tls_domain = ascii ''a.b'', cc_tls_emulation = True, cc_tls_full_cert_ttl_secs = 90,
       cc_alpn_enforce = True, cc_fake_cert_len = 2048, cc_tls_new_session_tickets = 1\<rparr>\<rparr>"

definition sample_clock :: hs_clock where
  "sample_clock = \<lparr>ck_instant = 100, ck_unix = 0, ck_cache = 5\<rparr>"

definition sample_shared :: "(nat \<times> (bytes \<times> replay_entry) list, unit) hs_shared" where
  "sample_shared = \<lparr>sh_replay = sample_rc, sh_cache = Some (tls_front_cache_new [ascii ''a.b''] 1024 0), sh_rng = zero_sr\<rparr>"

lemma sample_env_ok: "hmac_ok (en_hmac sample_env)" "std_rng_ok (en_rng sample_env)" "distinct (map fst (tc_users sample_tls_cfg))"
  "caches_wf (sh_cache sample_shared)"
  by (simp_all add: sample_env_def hmac_ok_def std_rng_ok_def zero_rng_def sample_tls_cfg_def sample_shared_def caches_wf_def
      cache_new_wf)

lemma sample_tls_fresh:
  "\<exists>rc. check_and_add_tls_digest (en_lru sample_env) (en_hash sample_env) k (ck_instant sample_clock) (sh_replay sample_shared) = (False, rc)"
  using sample_fresh [of k]
  by (simp add: check_and_add_tls_digest_def check_and_add_handshake_def sample_env_def sample_clock_def sample_shared_def)

lemma sample_tls_valid:
  "\<exists>v. validate_tls_handshake (en_hmac sample_env) (replicate 64 0) (decode_secrets (en_crypto sample_env) (tc_users sample_tls_cfg))
     (tc_ignore_time_skew sample_tls_cfg) (ck_unix sample_clock) = Some v"
  unfolding validate_iff_signed [OF sample_env_ok(1)]
  using zero_hello_signed [of "[]"]
  by (auto simp: decode_secrets_def map_filter_def sample_tls_cfg_def sample_env_def plain_crypto_def time_ok_def is_boot_time_def
      sample_clock_def intro!: exI [of _ 0])

end
