(* ===== verification/Raw_Io.thy ===== *)
theory Raw_Io
  imports Async_Io Errors
begin

section \<open>Exact reads and writes on a socket\<close>

text \<open>
  \<open>AsyncReadExt::read_exact\<close> of tokio on any stream, and on a plain socket: like the exact reads of the wrappers, but an end
  of file before the last byte is the error \<open>early eof\<close>.
\<close>

fun exact_loop :: "('s \<Rightarrow> nat \<Rightarrow> bytes io_result poll \<times> 's) \<Rightarrow> nat \<Rightarrow> nat \<Rightarrow> bytes \<Rightarrow> 's \<Rightarrow> (bytes io_result \<times> 's) option" where
  "exact_loop poll 0 n acc u = None"
| "exact_loop poll (Suc fuel) n acc u =
     (if length acc \<ge> n then Some (Inr acc, u)
      else case poll u (n - length acc) of
          (Pending, u') \<Rightarrow> exact_loop poll fuel n acc u'
        | (Ready (Inl e), u') \<Rightarrow> Some (Inl e, u')
        | (Ready (Inr bs), u') \<Rightarrow>
            if bs = [] then Some (Inl (io_err UnexpectedEof ''early eof'' []), u')
            else exact_loop poll fuel n (acc @ bs) u')"

definition read_exact :: "nat \<Rightarrow> nat \<Rightarrow> source \<Rightarrow> (bytes io_result \<times> source) option" where
  "read_exact fuel n u = exact_loop (\<lambda>u n. source_poll n u) fuel n [] u"

lemma exact_loop_read_loop:
  "exact_loop poll fuel n acc u = Some (Inr xs, u') \<longleftrightarrow> read_loop poll fuel n acc u = Some (Inr xs, u')"
  "exact_loop poll fuel n acc u = None \<longleftrightarrow> read_loop poll fuel n acc u = None"
  by (induction fuel arbitrary: acc u) (auto split: prod.splits poll.splits sum.splits)

lemma exact_loop_mono: "exact_loop poll fuel n acc u = Some r \<Longrightarrow> fuel \<le> fuel' \<Longrightarrow> exact_loop poll fuel' n acc u = Some r"
proof (induction fuel arbitrary: acc u fuel')
  case (Suc fuel)
  then obtain f' where "fuel' = Suc f'" "fuel \<le> f'" by (cases fuel') auto
  then show ?case using Suc.prems(1) Suc.IH by (auto split: prod.splits poll.splits sum.splits if_splits)
qed simp

lemma exact_loop_meas: "exact_loop (\<lambda>u n. source_poll n u) fuel n acc u = Some (r, u') \<Longrightarrow> source_meas u' \<le> source_meas u"
proof (induction fuel arbitrary: acc u)
  case (Suc fuel)
  show ?case
  proof (cases "length acc \<ge> n")
    case False
    obtain p t where p: "source_poll (n - length acc) u = (p, t)" by fastforce
    note m = source_poll_size [OF p]
    show ?thesis
      using Suc.prems Suc.IH [of acc t] Suc.IH [of "acc @ bs" t for bs] False p m
      by (auto split: poll.splits sum.splits if_splits intro: le_trans)
  qed (use Suc.prems in simp)
qed simp

text \<open>The read of what the socket has succeeds and takes exactly that; a read always ends.\<close>

lemma read_exact_ok:
  assumes "source_wf u" "n \<le> length (source_bytes u)" "source_meas u < fuel"
  obtains u' where "read_exact fuel n u = Some (Inr (take n (source_bytes u)), u')" "source_wf u'"
    "source_bytes u' = drop n (source_bytes u)" "source_meas u' \<le> source_meas u"
proof -
  obtain xs u' where r: "read_loop (\<lambda>u n. source_poll n u) fuel n [] u = Some (Inr xs, u')"
    using raw_in.read_loop_succeeds [OF assms(1,3), of "[]" n] assms(2) by auto
  have c: "source_bytes u = xs @ source_bytes u'" "length xs = n" "source_wf u'"
    using raw_in.read_loop_content [OF assms(1) _ r] by simp_all
  have e: "exact_loop (\<lambda>u n. source_poll n u) fuel n [] u = Some (Inr xs, u')" using r by (simp add: exact_loop_read_loop)
  have x: "take n (source_bytes u) = xs" unfolding c(1) using c(2) by simp
  have d: "source_bytes u' = drop n (source_bytes u)" unfolding c(1) using c(2) by simp
  show ?thesis by (rule that [OF _ c(3) d exact_loop_meas [OF e]]) (simp add: read_exact_def e x)
qed

lemma read_exact_ends: "source_wf u \<Longrightarrow> source_meas u < fuel \<Longrightarrow> \<exists>r u'. read_exact fuel n u = Some (r, u')"
  using raw_in.read_loop_ends [of u fuel n "[]"] exact_loop_read_loop(2) [of "\<lambda>u n. source_poll n u" fuel n "[]" u]
  by (cases "exact_loop (\<lambda>u n. source_poll n u) fuel n [] u") (auto simp: read_exact_def)

lemma read_exact_content:
  assumes "source_wf u" "read_exact fuel n u = Some (Inr xs, u')"
  shows "source_bytes u = xs @ source_bytes u' \<and> length xs = n \<and> source_wf u'"
  using raw_in.read_loop_content [OF assms(1), of "[]" n fuel xs u'] assms(2)
  by (simp add: read_exact_def exact_loop_read_loop)

lemma read_exact_short:
  assumes "source_wf u" "length (source_bytes u) < n" "read_exact fuel n u = Some (r, u')"
  shows "\<exists>e. r = Inl e"
  using read_exact_content [OF assms(1), of fuel n _ u'] assms(2,3) by (cases r) force+

lemma exact_loop_wf: "source_wf u \<Longrightarrow> exact_loop (\<lambda>u n. source_poll n u) fuel n acc u = Some (r, u') \<Longrightarrow> source_wf u'"
proof (induction fuel arbitrary: acc u)
  case (Suc fuel)
  obtain p t where p: "source_poll (n - length acc) u = (p, t)" by fastforce
  then have "source_wf t" by (rule source_poll_wf [OF Suc.prems(1)])
  then show ?case using Suc p by (auto split: if_splits poll.splits sum.splits)
qed simp

lemma read_exact_state:
  "source_wf u \<Longrightarrow> read_exact fuel n u = Some (r, u') \<Longrightarrow> source_wf u' \<and> source_meas u' \<le> source_meas u"
  unfolding read_exact_def using exact_loop_wf exact_loop_meas by blast

text \<open>\<open>read\<close> into a buffer of \<open>n\<close> bytes: one read, waiting while the socket has nothing.\<close>

fun read_some :: "nat \<Rightarrow> nat \<Rightarrow> source \<Rightarrow> (bytes io_result \<times> source) option" where
  "read_some 0 n u = None"
| "read_some (Suc fuel) n u =
     (case source_poll n u of (Pending, u') \<Rightarrow> read_some fuel n u' | (Ready r, u') \<Rightarrow> Some (r, u'))"

lemma read_some_content: "read_some fuel n u = Some (Inr bs, u') \<Longrightarrow> source_bytes u = bs @ source_bytes u'"
  by (induction fuel arbitrary: u)
    (auto split: prod.splits poll.splits simp: source_poll_bytes dest: source_poll_pending)


text \<open>The same for every reader of the stack.\<close>

context byte_reader
begin

lemma exact_loop_down:
  "inv s \<Longrightarrow> exact_loop poll fuel n acc s = Some (Inr xs, s') \<Longrightarrow> meas s' \<le> meas s \<and> (length acc < n \<longrightarrow> meas s' < meas s)"
proof (induction fuel arbitrary: acc s)
  case (Suc fuel)
  obtain r t where p: "poll s (n - length acc) = (r, t)" by fastforce
  note i = poll_inv [OF Suc.prems(1) p]
  show ?case
  proof (cases "length acc \<ge> n")
    case False
    show ?thesis
    proof (cases r)
      case Pending
      then have "meas t < meas s" using poll_pending [OF Suc.prems(1)] p by blast
      then show ?thesis using Suc.IH [OF i, of acc] Suc.prems(2) False p Pending by simp
    next
      case (Ready x)
      then obtain bs where x: "x = Inr bs" "bs \<noteq> []" using Suc.prems(2) False p by (cases x) (auto split: if_splits)
      have "meas t < meas s" using poll_progress [OF Suc.prems(1)] p Ready x by blast
      then show ?thesis using Suc.IH [OF i, of "acc @ bs"] Suc.prems(2) False p Ready x by force
    qed
  qed (use Suc.prems in simp)
qed simp

lemma exact_content:
  assumes "inv s" "exact_loop poll fuel n [] s = Some (Inr xs, s')"
  shows "content s = xs @ content s' \<and> length xs = n \<and> inv s'"
  using read_loop_content [OF assms(1), of "[]" n fuel xs s'] assms(2) by (simp add: exact_loop_read_loop)

lemma exact_ends: "inv s \<Longrightarrow> meas s < fuel \<Longrightarrow> \<exists>r s'. exact_loop poll fuel n [] s = Some (r, s')"
  using read_loop_ends [of s fuel n "[]"] exact_loop_read_loop(2) [of poll fuel n "[]" s]
  by (cases "exact_loop poll fuel n [] s") auto

end

context complete_reader
begin

lemma exact_ok:
  assumes "inv s" "n \<le> length (content s)" "meas s < fuel"
  obtains s' where "exact_loop poll fuel n [] s = Some (Inr (take n (content s)), s')" "inv s'"
    "content s' = drop n (content s)" "meas s' \<le> meas s" "0 < n \<Longrightarrow> meas s' < meas s"
proof -
  obtain xs s' where r: "exact_loop poll fuel n [] s = Some (Inr xs, s')"
    using read_loop_succeeds [OF assms(1,3), of "[]" n] assms(2) by (auto simp: exact_loop_read_loop)
  from exact_content [OF assms(1) r] have c: "content s = xs @ content s'" "length xs = n" "inv s'" by simp_all
  show ?thesis by (rule that [of s']) (use r c exact_loop_down [OF assms(1) r] in simp_all)
qed

lemma exact_short:
  assumes "inv s" "length (content s) < n" "meas s < fuel"
  obtains e s' where "exact_loop poll fuel n [] s = Some (Inl e, s')"
proof -
  obtain r s' where r: "exact_loop poll fuel n [] s = Some (r, s')" using exact_ends [OF assms(1,3)] by blast
  moreover have "\<And>xs. r \<noteq> Inr xs" using exact_content [OF assms(1)] r assms(2) by fastforce
  ultimately show ?thesis using that by (cases r) blast+
qed

end

end
