(* ===== verification/Proxy_Protocol.thy ===== *)
theory Proxy_Protocol
  imports Raw_Io Net_Text Client_Hello
begin

section \<open>The PROXY protocol (\<open>transport/proxy_protocol.rs\<close>)\<close>

text \<open>
  The header that a load balancer puts in front of a connection, versions 1 (text) and 2 (binary): the parser, which reads
  from the client socket, and the two builders, which the proxy uses towards the mask host. The parser maps every
  read error to the one protocol error; \<open>None\<close> is a read that is still waiting when its fuel ends.
\<close>

definition PROXY_V1_SIGNATURE :: bytes where "PROXY_V1_SIGNATURE = ascii ''PROXY ''"
definition PROXY_V2_SIGNATURE :: bytes where
  "PROXY_V2_SIGNATURE = [0x0d, 0x0a, 0x0d, 0x0a, 0x00, 0x0d, 0x0a, 0x51, 0x55, 0x49, 0x54, 0x0a]"
definition PROXY_V1_MIN_LEN :: nat where "PROXY_V1_MIN_LEN = 6"
definition PROXY_V2_MIN_LEN :: nat where "PROXY_V2_MIN_LEN = 16"

lemmas pp_defs = PROXY_V1_SIGNATURE_def PROXY_V2_SIGNATURE_def PROXY_V1_MIN_LEN_def PROXY_V2_MIN_LEN_def

record proxy_protocol_info =
  ppi_src_addr :: socket_addr
  ppi_dst_addr :: "socket_addr option"
  ppi_version :: byte

subsection \<open>Version 1\<close>

definition CRLF :: bytes where "CRLF = [0x0d, 0x0a]"

text \<open>The loop that reads the line byte by byte.\<close>

function v1_line :: "nat \<Rightarrow> source \<Rightarrow> bytes \<Rightarrow> ((proxy_error + bytes) \<times> source) option" where
  "v1_line fuel u line =
     (case read_exact fuel 1 u of
        None \<Rightarrow> None
      | Some (Inl e, u) \<Rightarrow> Some (Inl InvalidProxyProtocol, u)
      | Some (Inr b, u) \<Rightarrow>
          let line = line @ [hd b] in
          if ends_with line CRLF then Some (Inr line, u)
          else if 256 < length line then Some (Inl InvalidProxyProtocol, u)
          else v1_line fuel u line)"
  by pat_completeness auto
termination
  by (relation "measure (\<lambda>(fuel, u, line). 257 - length line)") auto

declare v1_line.simps [simp del]

definition v1_fields :: "bytes list \<Rightarrow> socket_addr \<Rightarrow> proxy_error + proxy_protocol_info" where
  "v1_fields parts default_peer =
     (case parts of
        [] \<Rightarrow> Inl InvalidProxyProtocol
      | family # args \<Rightarrow>
          if (family = ascii ''TCP4'' \<or> family = ascii ''TCP6'') \<and> 5 \<le> length parts then
            (case (parse_ip (parts ! 1), parse_ip (parts ! 2), parse_u16 (parts ! 3), parse_u16 (parts ! 4)) of
               (Some src_ip, Some dst_ip, Some src_port, Some dst_port) \<Rightarrow>
                 Inr \<lparr>ppi_src_addr = SocketAddr src_ip src_port, ppi_dst_addr = Some (SocketAddr dst_ip dst_port), ppi_version = 1\<rparr>
             | _ \<Rightarrow> Inl InvalidProxyProtocol)
          else if family = ascii ''UNKNOWN'' then
            Inr \<lparr>ppi_src_addr = default_peer, ppi_dst_addr = None, ppi_version = 1\<rparr>
          else Inl InvalidProxyProtocol)"

definition parse_v1 :: "nat \<Rightarrow> source \<Rightarrow> socket_addr \<Rightarrow> ((proxy_error + proxy_protocol_info) \<times> source) option" where
  "parse_v1 fuel u default_peer =
     (case v1_line fuel u PROXY_V1_SIGNATURE of
        None \<Rightarrow> None
      | Some (Inl e, u) \<Rightarrow> Some (Inl e, u)
      | Some (Inr line, u) \<Rightarrow>
          let text = subslice line PROXY_V1_MIN_LEN (length line - 2) in
          if \<not> utf8_valid text then Some (Inl InvalidProxyProtocol, u)
          else Some (v1_fields (split_whitespace text) default_peer, u))"

subsection \<open>Version 2\<close>

definition v2_addresses :: "byte \<Rightarrow> bytes \<Rightarrow> socket_addr \<Rightarrow> proxy_error + proxy_protocol_info" where
  "v2_addresses family addr_data default_peer =
     (if family = 1 \<and> 12 \<le> length addr_data then
        Inr \<lparr>ppi_src_addr = SocketAddr (IpV4 (v4_of_octets (subslice addr_data 0 4))) (u16_from_be_bytes (subslice addr_data 8 10)),
             ppi_dst_addr = Some (SocketAddr (IpV4 (v4_of_octets (subslice addr_data 4 8))) (u16_from_be_bytes (subslice addr_data 10 12))),
             ppi_version = 2\<rparr>
      else if family = 2 \<and> 36 \<le> length addr_data then
        Inr \<lparr>ppi_src_addr = SocketAddr (IpV6 (v6_of_octets (subslice addr_data 0 16))) (u16_from_be_bytes (subslice addr_data 32 34)),
             ppi_dst_addr = Some (SocketAddr (IpV6 (v6_of_octets (subslice addr_data 16 32))) (u16_from_be_bytes (subslice addr_data 34 36))),
             ppi_version = 2\<rparr>
      else if family = 0 then Inr \<lparr>ppi_src_addr = default_peer, ppi_dst_addr = None, ppi_version = 2\<rparr>
      else Inl InvalidProxyProtocol)"

definition parse_v2 :: "nat \<Rightarrow> source \<Rightarrow> bytes \<Rightarrow> socket_addr \<Rightarrow> ((proxy_error + proxy_protocol_info) \<times> source) option" where
  "parse_v2 fuel u header default_peer =
     (let version_command = header ! 12; version = drop_bit 4 version_command; command = version_command AND 0x0f in
      if version \<noteq> 2 then Some (Inl InvalidProxyProtocol, u)
      else
        let family_protocol = header ! 13; addr_len = unat (u16_from_be_bytes [header ! 14, header ! 15]) in
        case (if 0 < addr_len then read_exact fuel addr_len u else Some (Inr [], u)) of
          None \<Rightarrow> None
        | Some (Inl e, u) \<Rightarrow> Some (Inl InvalidProxyProtocol, u)
        | Some (Inr addr_data, u) \<Rightarrow>
            if command = 0 then Some (Inr \<lparr>ppi_src_addr = default_peer, ppi_dst_addr = None, ppi_version = 2\<rparr>, u)
            else if command \<noteq> 1 then Some (Inl InvalidProxyProtocol, u)
            else Some (v2_addresses (drop_bit 4 family_protocol) addr_data default_peer, u))"

definition parse_proxy_protocol :: "nat \<Rightarrow> source \<Rightarrow> socket_addr \<Rightarrow> ((proxy_error + proxy_protocol_info) \<times> source) option" where
  "parse_proxy_protocol fuel u default_peer =
     (case read_exact fuel PROXY_V1_MIN_LEN u of
        None \<Rightarrow> None
      | Some (Inl e, u) \<Rightarrow> Some (Inl InvalidProxyProtocol, u)
      | Some (Inr h1, u) \<Rightarrow>
          if h1 = PROXY_V1_SIGNATURE then parse_v1 fuel u default_peer
          else case read_exact fuel (PROXY_V2_MIN_LEN - PROXY_V1_MIN_LEN) u of
              None \<Rightarrow> None
            | Some (Inl e, u) \<Rightarrow> Some (Inl InvalidProxyProtocol, u)
            | Some (Inr h2, u) \<Rightarrow>
                let header = h1 @ h2 in
                if take 12 header = PROXY_V2_SIGNATURE then parse_v2 fuel u header default_peer
                else Some (Inl InvalidProxyProtocol, u))"

subsection \<open>The builders\<close>

record proxy_v1_builder =
  pb1_family :: bytes
  pb1_src_addr :: "socket_addr option"
  pb1_dst_addr :: "socket_addr option"

definition pb1_new :: proxy_v1_builder where
  "pb1_new = \<lparr>pb1_family = ascii ''UNKNOWN'', pb1_src_addr = None, pb1_dst_addr = None\<rparr>"

definition pb1_tcp4 :: "socket_addr \<Rightarrow> socket_addr \<Rightarrow> proxy_v1_builder \<Rightarrow> proxy_v1_builder" where
  "pb1_tcp4 src dst b = b\<lparr>pb1_family := ascii ''TCP4'', pb1_src_addr := Some src, pb1_dst_addr := Some dst\<rparr>"

definition pb1_tcp6 :: "socket_addr \<Rightarrow> socket_addr \<Rightarrow> proxy_v1_builder \<Rightarrow> proxy_v1_builder" where
  "pb1_tcp6 src dst b = b\<lparr>pb1_family := ascii ''TCP6'', pb1_src_addr := Some src, pb1_dst_addr := Some dst\<rparr>"

definition pb1_build :: "proxy_v1_builder \<Rightarrow> bytes" where
  "pb1_build b =
     (case (pb1_src_addr b, pb1_dst_addr b) of
        (Some src, Some dst) \<Rightarrow>
          ascii ''PROXY '' @ pb1_family b @ [0x20] @ show_ip (sa_ip src) @ [0x20] @ show_ip (sa_ip dst) @ [0x20] @
          show_u16 (sa_port src) @ [0x20] @ show_u16 (sa_port dst) @ CRLF
      | _ \<Rightarrow> ascii ''PROXY UNKNOWN'' @ CRLF)"

record proxy_v2_builder =
  pb2_src :: "socket_addr option"
  pb2_dst :: "socket_addr option"

definition pb2_new :: proxy_v2_builder where
  "pb2_new = \<lparr>pb2_src = None, pb2_dst = None\<rparr>"

definition pb2_with_addrs :: "socket_addr \<Rightarrow> socket_addr \<Rightarrow> proxy_v2_builder \<Rightarrow> proxy_v2_builder" where
  "pb2_with_addrs src dst b = b\<lparr>pb2_src := Some src, pb2_dst := Some dst\<rparr>"

definition pb2_build :: "proxy_v2_builder \<Rightarrow> bytes" where
  "pb2_build b =
     (let header = PROXY_V2_SIGNATURE @ [0x21] in
      case (pb2_src b, pb2_dst b) of
        (Some (SocketAddr (IpV4 src) sp), Some (SocketAddr (IpV4 dst) dp)) \<Rightarrow>
          header @ [0x11] @ u16_to_be_bytes 12 @ v4_octets src @ v4_octets dst @ u16_to_be_bytes sp @ u16_to_be_bytes dp
      | (Some (SocketAddr (IpV6 src) sp), Some (SocketAddr (IpV6 dst) dp)) \<Rightarrow>
          header @ [0x21] @ u16_to_be_bytes 36 @ v6_octets src @ v6_octets dst @ u16_to_be_bytes sp @ u16_to_be_bytes dp
      | _ \<Rightarrow> header[12 := 0x20] @ [0x00] @ u16_to_be_bytes 0)"

subsection \<open>The parser reads what the builders write\<close>

lemma ends_with_crlf: "ends_with (line @ [b]) CRLF \<longleftrightarrow> b = 0x0a \<and> line \<noteq> [] \<and> last line = 0x0d"
proof (cases line rule: rev_cases)
  case (snoc ys y)
  then show ?thesis by (auto simp: ends_with_def CRLF_def)
qed (simp add: ends_with_def CRLF_def)

lemma v1_line_reads:
  "source_wf u \<Longrightarrow> source_meas u < fuel \<Longrightarrow> source_bytes u = t @ CRLF @ rest \<Longrightarrow> 0x0d \<notin> set t \<Longrightarrow>
   length line + length t \<le> 255 \<Longrightarrow> line \<noteq> [] \<Longrightarrow> last line \<noteq> 0x0d \<Longrightarrow>
   \<exists>u'. v1_line fuel u line = Some (Inr (line @ t @ CRLF), u') \<and> source_wf u' \<and> source_bytes u' = rest \<and>
     source_meas u' \<le> source_meas u"
proof (induction t arbitrary: u line)
  case Nil
  obtain u1 where 1: "read_exact fuel 1 u = Some (Inr [0x0d], u1)" "source_wf u1" "source_bytes u1 = 0x0a # rest"
      "source_meas u1 \<le> source_meas u"
    using read_exact_ok [OF Nil.prems(1) _ Nil.prems(2), of 1] Nil.prems(3) by (auto simp: CRLF_def)
  obtain u2 where 2: "read_exact fuel 1 u1 = Some (Inr [0x0a], u2)" "source_wf u2" "source_bytes u2 = rest"
      "source_meas u2 \<le> source_meas u1"
    using read_exact_ok [OF 1(2), of 1 fuel] Nil.prems(2) 1(3,4) by auto
  have "v1_line fuel u1 (line @ [0x0d]) = Some (Inr (line @ CRLF), u2)"
    using 2(1) ends_with_crlf [of "line @ [0x0d]" "0x0a"] by (subst v1_line.simps) (simp add: Let_def, simp add: CRLF_def)
  then have "v1_line fuel u line = Some (Inr (line @ CRLF), u2)"
    using 1(1) ends_with_crlf [of line "0x0d"] Nil.prems(5) by (subst v1_line.simps) (simp add: Let_def)
  then show ?case using 2 1(4) by auto
next
  case (Cons b t)
  obtain u1 where 1: "read_exact fuel 1 u = Some (Inr [b], u1)" "source_wf u1" "source_bytes u1 = t @ CRLF @ rest"
      "source_meas u1 \<le> source_meas u"
    using read_exact_ok [OF Cons.prems(1) _ Cons.prems(2), of 1] Cons.prems(3) by auto
  obtain u' where "v1_line fuel u1 (line @ [b]) = Some (Inr ((line @ [b]) @ t @ CRLF), u')" "source_wf u'"
      "source_bytes u' = rest" "source_meas u' \<le> source_meas u1"
    using Cons.IH [OF 1(2) _ 1(3), of "line @ [b]"] Cons.prems 1(4) by auto
  moreover have "v1_line fuel u line = v1_line fuel u1 (line @ [b])"
    using 1(1) ends_with_crlf [of line b] Cons.prems(5,7) by (subst v1_line.simps) (simp add: Let_def)
  ultimately show ?case using 1(4) by auto
qed

lemma utf8_ascii: "list_all (\<lambda>b. b < 0x80) bs \<Longrightarrow> utf8_valid bs"
  by (induction bs) simp_all

lemma join_space_ascii:
  "\<forall>w \<in> set ws. list_all plain_char w \<Longrightarrow> list_all (\<lambda>b. b < 0x80 \<and> b \<noteq> 0x0d) (join [0x20] ws)"
proof (induction ws)
  case (Cons w ws)
  have "list_all (\<lambda>b. b < 0x80 \<and> b \<noteq> 0x0d) w" using Cons.prems by (auto simp: list_all_iff plain_char_def)
  then show ?case using Cons by (cases ws) auto
qed simp

text \<open>A line of words after the signature.\<close>

lemma parse_v1_words:
  assumes "source_wf u" "source_meas u < fuel" "source_bytes u = join [0x20] ws @ CRLF @ rest"
    and "ws \<noteq> []" "\<forall>w \<in> set ws. w \<noteq> [] \<and> list_all plain_char w" "length (join [0x20] ws) \<le> 249"
  shows "\<exists>u'. parse_v1 fuel u peer = Some (v1_fields ws peer, u') \<and> source_wf u' \<and> source_bytes u' = rest"
proof -
  let ?t = "join [0x20] ws"
  have a: "list_all (\<lambda>b. b < 0x80 \<and> b \<noteq> 0x0d) ?t" by (rule join_space_ascii) (use assms(5) in blast)
  have cr: "0x0d \<notin> set ?t" "utf8_valid ?t" using a by (auto simp: list_all_iff intro!: utf8_ascii)
  have sig: "length PROXY_V1_SIGNATURE = 6" "PROXY_V1_SIGNATURE \<noteq> []" "last PROXY_V1_SIGNATURE \<noteq> 0x0d"
    by (simp_all add: PROXY_V1_SIGNATURE_def ascii_def)
  obtain u' where u': "v1_line fuel u PROXY_V1_SIGNATURE = Some (Inr (PROXY_V1_SIGNATURE @ ?t @ CRLF), u')"
      "source_wf u'" "source_bytes u' = rest"
    using v1_line_reads [OF assms(1-3) cr(1) _ sig(2,3)] assms(6) sig(1) by auto
  have "subslice (PROXY_V1_SIGNATURE @ ?t @ CRLF) 6 (length (PROXY_V1_SIGNATURE @ ?t @ CRLF) - 2) = ?t"
    using sig(1) by (simp add: subslice_def CRLF_def)
  then show ?thesis
    using u' cr(2) split_whitespace_join [OF assms(4,5)] by (simp add: parse_v1_def Let_def PROXY_V1_MIN_LEN_def)
qed

lemma parse_proxy_v1:
  assumes "source_wf u" "source_meas u < fuel" "source_bytes u = ascii ''PROXY '' @ join [0x20] ws @ CRLF @ rest"
    and "ws \<noteq> []" "\<forall>w \<in> set ws. w \<noteq> [] \<and> list_all plain_char w" "length (join [0x20] ws) \<le> 249"
  shows "\<exists>u'. parse_proxy_protocol fuel u peer = Some (v1_fields ws peer, u') \<and> source_wf u' \<and> source_bytes u' = rest"
proof -
  obtain u1 where 1: "read_exact fuel 6 u = Some (Inr (ascii ''PROXY ''), u1)" "source_wf u1"
      "source_bytes u1 = join [0x20] ws @ CRLF @ rest" "source_meas u1 \<le> source_meas u"
    using read_exact_ok [OF assms(1) _ assms(2), of 6] assms(3) by (auto simp: ascii_def)
  show ?thesis
    using parse_v1_words [OF 1(2) _ 1(3) assms(4-6), of fuel peer] 1 assms(2)
    by (simp add: parse_proxy_protocol_def pp_defs)
qed

lemma parse_proxy_v2:
  assumes "source_wf u" "source_meas u < fuel" "length data < 65536"
    and "source_bytes u = PROXY_V2_SIGNATURE @ [vc, fp] @ u16_to_be_bytes (word_of_nat (length data)) @ data @ rest"
    and "drop_bit 4 vc = 2"
  shows "\<exists>u'. parse_proxy_protocol fuel u peer =
      Some (if vc AND 0x0f = 0 then Inr \<lparr>ppi_src_addr = peer, ppi_dst_addr = None, ppi_version = 2\<rparr>
            else if vc AND 0x0f \<noteq> 1 then Inl InvalidProxyProtocol
            else v2_addresses (drop_bit 4 fp) data peer, u') \<and> source_wf u' \<and> source_bytes u' = rest"
proof -
  let ?l = "u16_to_be_bytes (word_of_nat (length data))"
  have "length ?l = Suc (Suc 0)" by simp
  then obtain l0 l1 where l: "?l = [l0, l1]" unfolding length_Suc_conv length_0_conv by blast
  have n: "unat (u16_from_be_bytes [l0, l1]) = length data" using assms(3) by (simp flip: l add: unat_of_nat)
  obtain u1 where 1: "read_exact fuel 6 u = Some (Inr (take 6 PROXY_V2_SIGNATURE), u1)" "source_wf u1"
      "source_bytes u1 = drop 6 PROXY_V2_SIGNATURE @ [vc, fp, l0, l1] @ data @ rest" "source_meas u1 \<le> source_meas u"
    using read_exact_ok [OF assms(1) _ assms(2), of 6] assms(4) l by (auto simp: PROXY_V2_SIGNATURE_def)
  obtain u2 where 2: "read_exact fuel 10 u1 = Some (Inr (drop 6 PROXY_V2_SIGNATURE @ [vc, fp, l0, l1]), u2)" "source_wf u2"
      "source_bytes u2 = data @ rest" "source_meas u2 \<le> source_meas u1"
    using read_exact_ok [OF 1(2), where n = 10 and fuel = fuel] 1(3,4) assms(2) by (auto simp: PROXY_V2_SIGNATURE_def)
  have "\<exists>u3. (if 0 < length data then read_exact fuel (length data) u2 else Some (Inr [], u2)) = Some (Inr data, u3) \<and>
      source_wf u3 \<and> source_bytes u3 = rest"
  proof (cases "data = []")
    case False
    obtain u3 where "read_exact fuel (length data) u2 = Some (Inr (take (length data) (source_bytes u2)), u3)" "source_wf u3"
        "source_bytes u3 = drop (length data) (source_bytes u2)"
      using read_exact_ok [OF 2(2), where n = "length data" and fuel = fuel] 2(3,4) 1(4) assms(2) by auto
    then show ?thesis using False 2(3) by simp
  qed (use 2 in simp)
  then obtain u3 where 3: "(if 0 < length data then read_exact fuel (length data) u2 else Some (Inr [], u2)) = Some (Inr data, u3)"
      "source_wf u3" "source_bytes u3 = rest" by blast
  show ?thesis
    using 1(1) 2(1) 3 n assms(5)
    by (simp add: parse_proxy_protocol_def parse_v2_def pp_defs Let_def ascii_def)
qed

lemma v1_roundtrip:
  assumes "source_wf u" "source_meas u < fuel" "family = ascii ''TCP4'' \<or> family = ascii ''TCP6''"
    and "source_bytes u = pb1_build \<lparr>pb1_family = family, pb1_src_addr = Some src, pb1_dst_addr = Some dst\<rparr> @ rest"
  shows "\<exists>u'. parse_proxy_protocol fuel u peer =
      Some (Inr \<lparr>ppi_src_addr = src, ppi_dst_addr = Some dst, ppi_version = 1\<rparr>, u') \<and> source_wf u' \<and> source_bytes u' = rest"
proof -
  let ?ws = "[family, show_ip (sa_ip src), show_ip (sa_ip dst), show_u16 (sa_port src), show_u16 (sa_port dst)]"
  have f: "family \<noteq> []" "length family = 4" "list_all plain_char family" using assms(3) by (auto simp: ascii_def plain_char_def)
  note w = show_ip_short [of "sa_ip src"] show_ip_short [of "sa_ip dst"] show_u16_short [of "sa_port src"] show_u16_short [of "sa_port dst"]
  have ws: "\<forall>w \<in> set ?ws. w \<noteq> [] \<and> list_all plain_char w" using f w by (simp add: short_word_def show_nonempty)
  have len: "length (join [0x20] ?ws) \<le> 249" using f w by (simp add: short_word_def)
  have b: "source_bytes u = ascii ''PROXY '' @ join [0x20] ?ws @ CRLF @ rest" using assms(4) by (simp add: pb1_build_def)
  have "v1_fields ?ws peer = Inr \<lparr>ppi_src_addr = src, ppi_dst_addr = Some dst, ppi_version = 1\<rparr>"
    using assms(3) by (cases src; cases dst) (auto simp: v1_fields_def parse_ip_show)
  then show ?thesis using parse_proxy_v1 [OF assms(1,2) b _ ws len, of peer] by simp
qed

lemma v1_unknown:
  assumes "source_wf u" "source_meas u < fuel" "source_bytes u = pb1_build pb1_new @ rest"
  shows "\<exists>u'. parse_proxy_protocol fuel u peer =
      Some (Inr \<lparr>ppi_src_addr = peer, ppi_dst_addr = None, ppi_version = 1\<rparr>, u') \<and> source_wf u' \<and> source_bytes u' = rest"
proof -
  have b: "source_bytes u = ascii ''PROXY '' @ join [0x20] [ascii ''UNKNOWN''] @ CRLF @ rest"
    using assms(3) by (simp add: pb1_build_def pb1_new_def ascii_def)
  have w: "\<forall>w \<in> set [ascii ''UNKNOWN'']. w \<noteq> [] \<and> list_all plain_char w" by (simp add: ascii_def plain_char_def)
  have "length (join [0x20] [ascii ''UNKNOWN'']) \<le> 249"
    "v1_fields [ascii ''UNKNOWN''] peer = Inr \<lparr>ppi_src_addr = peer, ppi_dst_addr = None, ppi_version = 1\<rparr>"
    by (simp_all add: v1_fields_def ascii_def)
  then show ?thesis using parse_proxy_v1 [OF assms(1,2) b _ w, of peer] by simp
qed

definition same_family :: "socket_addr \<Rightarrow> socket_addr \<Rightarrow> bool" where
  "same_family a b \<longleftrightarrow> (case (sa_ip a, sa_ip b) of (IpV4 _, IpV4 _) \<Rightarrow> True | (IpV6 _, IpV6 _) \<Rightarrow> True | _ \<Rightarrow> False)"

lemma v2_roundtrip:
  assumes "source_wf u" "source_meas u < fuel" "source_bytes u = pb2_build (pb2_with_addrs src dst pb2_new) @ rest"
  shows "\<exists>u'. parse_proxy_protocol fuel u peer =
      Some (Inr (if same_family src dst then \<lparr>ppi_src_addr = src, ppi_dst_addr = Some dst, ppi_version = 2\<rparr>
                 else \<lparr>ppi_src_addr = peer, ppi_dst_addr = None, ppi_version = 2\<rparr>), u') \<and>
      source_wf u' \<and> source_bytes u' = rest"
proof -
  obtain a sp where s: "src = SocketAddr a sp" by (cases src)
  obtain b dp where d: "dst = SocketAddr b dp" by (cases dst)
  have f: "drop_bit 4 (0x21 :: byte) = 2" "(0x21 :: byte) AND 0x0f = 1" "drop_bit 4 (0x11 :: byte) = 1"
    "drop_bit 4 (0x20 :: byte) = 2" "(0x20 :: byte) AND 0x0f = 0" by simp_all
  consider (v4) x y where "a = IpV4 x" "b = IpV4 y" | (v6) x y where "a = IpV6 x" "b = IpV6 y" | (no) "\<not> same_family src dst"
    by (cases a; cases b) (auto simp: same_family_def s d)
  then show ?thesis
  proof cases
    case v4
    let ?data = "v4_octets x @ v4_octets y @ u16_to_be_bytes sp @ u16_to_be_bytes dp"
    have b: "source_bytes u = PROXY_V2_SIGNATURE @ [0x21, 0x11] @ u16_to_be_bytes (word_of_nat (length ?data)) @ ?data @ rest"
      using assms(3) by (simp add: pb2_build_def pb2_with_addrs_def pb2_new_def s d v4)
    have "v2_addresses 1 ?data peer = Inr \<lparr>ppi_src_addr = src, ppi_dst_addr = Some dst, ppi_version = 2\<rparr>"
      by (simp add: v2_addresses_def s d v4 subslice_def)
    then show ?thesis using parse_proxy_v2 [OF assms(1,2) _ b f(1), of peer] f by (simp add: same_family_def s d v4)
  next
    case v6
    let ?data = "v6_octets x @ v6_octets y @ u16_to_be_bytes sp @ u16_to_be_bytes dp"
    have b: "source_bytes u = PROXY_V2_SIGNATURE @ [0x21, 0x21] @ u16_to_be_bytes (word_of_nat (length ?data)) @ ?data @ rest"
      using assms(3) by (simp add: pb2_build_def pb2_with_addrs_def pb2_new_def s d v6)
    have "v2_addresses 2 ?data peer = Inr \<lparr>ppi_src_addr = src, ppi_dst_addr = Some dst, ppi_version = 2\<rparr>"
      by (simp add: v2_addresses_def s d v6 subslice_def)
    then show ?thesis using parse_proxy_v2 [OF assms(1,2) _ b f(1), of peer] f by (simp add: same_family_def s d v6)
  next
    case no
    have b: "source_bytes u = PROXY_V2_SIGNATURE @ [0x20, 0] @ u16_to_be_bytes (word_of_nat (length ([] :: bytes))) @ [] @ rest"
      using assms(3) no unfolding pb2_build_def pb2_with_addrs_def pb2_new_def s d
      by (cases a; cases b) (simp_all add: same_family_def s d PROXY_V2_SIGNATURE_def)
    then show ?thesis using parse_proxy_v2 [OF assms(1,2) _ b f(4), of peer] f no by simp
  qed
qed

subsection \<open>The parser always returns, and takes from the socket only what it parsed\<close>

definition takes :: "source \<Rightarrow> proxy_error + 'a \<Rightarrow> source \<Rightarrow> bool" where
  "takes u r u' \<longleftrightarrow> source_wf u' \<and> source_meas u' \<le> source_meas u \<and>
     (case r of Inl e \<Rightarrow> e = InvalidProxyProtocol | Inr _ \<Rightarrow> \<exists>c. source_bytes u = c @ source_bytes u')"

lemma takes_fail: "source_wf u \<Longrightarrow> read_exact fuel n u = Some (Inl e, u') \<Longrightarrow> takes u (Inl InvalidProxyProtocol) u'"
  using read_exact_state by (fastforce simp: takes_def)

lemma takes_here: "source_wf u \<Longrightarrow> (case r of Inl e \<Rightarrow> e = InvalidProxyProtocol | Inr _ \<Rightarrow> True) \<Longrightarrow> takes u r u"
  by (auto simp: takes_def split: sum.splits)

lemma takes_after:
  assumes "source_wf u" "read_exact fuel n u = Some (Inr xs, u1)" "takes u1 r u'"
  shows "takes u r u'"
proof -
  have "source_bytes u = xs @ source_bytes u1" using read_exact_content [OF assms(1,2)] by simp
  moreover have "source_meas u1 \<le> source_meas u" using read_exact_state [OF assms(1,2)] by simp
  ultimately show ?thesis using assms(3) by (auto simp: takes_def split: sum.splits intro: exI [of _ "xs @ c" for c])
qed

lemma v1_line_total:
  "source_wf u \<Longrightarrow> source_meas u < fuel \<Longrightarrow> \<exists>r u'. v1_line fuel u line = Some (r, u') \<and> takes u r u'"
proof (induction fuel u line rule: v1_line.induct)
  case (1 fuel u line)
  obtain r u1 where r: "read_exact fuel 1 u = Some (r, u1)" using read_exact_ends [OF 1(2,3)] by blast
  note s = read_exact_state [OF 1(2) r]
  show ?case
  proof (cases r)
    case (Inl e)
    then show ?thesis using r takes_fail [OF 1(2), of fuel 1 e u1] by (subst v1_line.simps) simp
  next
    case (Inr b)
    let ?l = "line @ [hd b]"
    note after = takes_after [OF 1(2) r [unfolded Inr]]
    show ?thesis
    proof (cases "ends_with ?l CRLF \<or> 256 < length ?l")
      case True
      have "source_wf u1" using s by blast
      then show ?thesis using r Inr True
        by (subst v1_line.simps) (auto simp: Let_def intro!: after takes_here)
    next
      case False
      then obtain r' u' where "v1_line fuel u1 ?l = Some (r', u')" "takes u1 r' u'"
        using 1(1) [OF r refl Inr refl] s 1(3) by auto
      moreover have "v1_line fuel u line = v1_line fuel u1 ?l" using r Inr False by (subst v1_line.simps) (simp add: Let_def)
      ultimately show ?thesis using after by auto
    qed
  qed
qed

lemma fields_error: "case v1_fields ps peer of Inl e \<Rightarrow> e = InvalidProxyProtocol | Inr _ \<Rightarrow> True"
  "case v2_addresses f d peer of Inl e \<Rightarrow> e = InvalidProxyProtocol | Inr _ \<Rightarrow> True"
  by (auto simp: v1_fields_def v2_addresses_def split: list.split option.split)

lemma takes_map: "takes u (Inr x) u' \<Longrightarrow> (case r of Inl e \<Rightarrow> e = InvalidProxyProtocol | Inr _ \<Rightarrow> True) \<Longrightarrow> takes u r u'"
  by (auto simp: takes_def split: sum.splits)

lemma parse_v1_total:
  assumes "source_wf u" "source_meas u < fuel"
  shows "\<exists>r u'. parse_v1 fuel u peer = Some (r, u') \<and> takes u r u'"
proof -
  obtain r u' where r: "v1_line fuel u PROXY_V1_SIGNATURE = Some (r, u')" "takes u r u'" using v1_line_total [OF assms] by blast
  show ?thesis
  proof (cases r)
    case (Inl e)
    then show ?thesis using r by (auto simp: parse_v1_def takes_def)
  next
    case (Inr l)
    then show ?thesis using r takes_map [of u l u'] fields_error(1) by (auto simp: parse_v1_def Let_def)
  qed
qed

lemma parse_v2_total:
  assumes "source_wf u" "source_meas u < fuel"
  shows "\<exists>r u'. parse_v2 fuel u header peer = Some (r, u') \<and> takes u r u'"
proof -
  let ?n = "unat (u16_from_be_bytes [header ! 14, header ! 15])"
  obtain r u1 where r: "(if 0 < ?n then read_exact fuel ?n u else Some (Inr [], u)) = Some (r, u1)"
    using read_exact_ends [OF assms] by (cases "0 < ?n") fastforce+
  show ?thesis
  proof (cases r)
    case (Inl e)
    then have "takes u (Inl InvalidProxyProtocol :: proxy_error + proxy_protocol_info) u1"
      using r takes_fail [OF assms(1)] by (auto split: if_splits)
    then show ?thesis
      using r Inl takes_here [OF assms(1), of "Inl InvalidProxyProtocol"] by (auto simp: parse_v2_def Let_def)
  next
    case (Inr d)
    have u1: "takes u (Inr ()) u1"
      using r Inr takes_after [OF assms(1), of fuel ?n d u1 "Inr ()" u1] takes_here [of u1 "Inr ()"] takes_here [OF assms(1), of "Inr ()"]
        read_exact_state [OF assms(1), of fuel ?n "Inr d" u1]
      by (auto split: if_splits)
    show ?thesis
      using r Inr fields_error(2)
      by (auto simp: parse_v2_def Let_def intro!: takes_map [OF u1] takes_here [OF assms(1)])
  qed
qed

lemma parse_proxy_total:
  assumes "source_wf u" "source_meas u < fuel"
  shows "\<exists>r u'. parse_proxy_protocol fuel u peer = Some (r, u') \<and> takes u r u'"
proof -
  obtain r1 u1 where 1: "read_exact fuel 6 u = Some (r1, u1)" using read_exact_ends [OF assms] by blast
  note s1 = read_exact_state [OF assms(1) 1]
  obtain r2 u2 where 2: "read_exact fuel 10 u1 = Some (r2, u2)" using read_exact_ends [of u1 fuel 10] s1 assms(2) by fastforce
  have s2: "source_wf u2" "source_meas u2 < fuel" using read_exact_state [OF _ 2] s1 assms(2) by auto
  show ?thesis
  proof (cases r1)
    case (Inl e)
    then show ?thesis using 1 takes_fail [OF assms(1)] by (fastforce simp: parse_proxy_protocol_def pp_defs)
  next
    case (Inr h1)
    note after = takes_after [OF assms(1) 1 [unfolded Inr]]
    have v1: "\<exists>r u'. parse_v1 fuel u1 peer = Some (r, u') \<and> takes u r u'"
      using parse_v1_total [of u1 fuel peer] s1 assms(2) after by fastforce
    have rest: "\<exists>r u'. (case r2 of Inl e \<Rightarrow> Some (Inl InvalidProxyProtocol, u2)
        | Inr h2 \<Rightarrow> if take 12 (h1 @ h2) = PROXY_V2_SIGNATURE then parse_v2 fuel u2 (h1 @ h2) peer
                    else Some (Inl InvalidProxyProtocol, u2)) = Some (r, u') \<and> takes u r u'"
    proof (cases r2)
      case (Inl e)
      then show ?thesis using takes_fail [of u1 fuel 10 e u2] 2 s1 after by auto
    next
      case (Inr h2)
      note after2 = takes_after [of u1 fuel 10 h2 u2, OF _ 2 [unfolded Inr]]
      obtain r u' where "parse_v2 fuel u2 (h1 @ h2) peer = Some (r, u')" "takes u2 r u'" using parse_v2_total [OF s2] by blast
      then show ?thesis
        using Inr after after2 s1 takes_here [OF s2(1), of "Inl InvalidProxyProtocol"] by (auto split: if_splits)
    qed
    show ?thesis
      using 1 2 Inr v1 rest by (auto simp: parse_proxy_protocol_def pp_defs Let_def split: sum.splits)
  qed
qed

end
