(* ===== verification/Dns_Overrides.thy ===== *)
theory Dns_Overrides
  imports Net_Text Errors
begin

section \<open>Runtime DNS overrides (\<open>network/dns_overrides.rs\<close>)\<close>

text \<open>
  Entries \<open>host:port:ip\<close> from the configuration replace name resolution for the host and port they name. The store, a
  process-wide lock-protected map, is passed explicitly; its lock is only poisoned by a panic while it is held, and
  none of the code below panics. The error messages omit the quoted entry.
\<close>

type_synonym override_map = "(bytes \<times> u16) \<rightharpoonup> ip_addr"

definition cfg_err :: "string \<Rightarrow> proxy_error" where
  "cfg_err m = Config (Msg m [])"

definition find_byte :: "byte \<Rightarrow> bytes \<Rightarrow> nat option" where
  "find_byte c bs = (let n = length (takeWhile (\<lambda>b. b \<noteq> c) bs) in if n < length bs then Some n else None)"

definition rfind_byte :: "byte \<Rightarrow> bytes \<Rightarrow> nat option" where
  "rfind_byte c bs = map_option (\<lambda>n. length bs - Suc n) (find_byte c (rev bs))"

definition to_ascii_lowercase :: "bytes \<Rightarrow> bytes" where
  "to_ascii_lowercase bs = map (\<lambda>b. if 0x41 \<le> b \<and> b \<le> 0x5a then b + 0x20 else b) bs"

definition parse_ip_spec :: "bytes \<Rightarrow> proxy_error + ip_addr" where
  "parse_ip_spec ip_spec =
     (if ip_spec \<noteq> [] \<and> hd ip_spec = 0x5b \<and> last ip_spec = 0x5d then
        (case parse_ipv6 (subslice ip_spec 1 (length ip_spec - 1)) of
           None \<Rightarrow> Inl (cfg_err ''network.dns_overrides IPv6 override is invalid'')
         | Some a \<Rightarrow> Inr (IpV6 a))
      else case parse_ip ip_spec of
          None \<Rightarrow> Inl (cfg_err ''network.dns_overrides IP is invalid'')
        | Some (IpV6 a) \<Rightarrow> Inl (cfg_err ''network.dns_overrides IPv6 must be bracketed'')
        | Some (IpV4 a) \<Rightarrow> Inr (IpV4 a))"

definition parse_entry :: "bytes \<Rightarrow> proxy_error + ((bytes \<times> u16) \<times> ip_addr)" where
  "parse_entry entry =
     (let trimmed = trim entry in
      if trimmed = [] then Inl (cfg_err ''network.dns_overrides entry cannot be empty'')
      else case find_byte 0x3a trimmed of
          None \<Rightarrow> Inl (cfg_err ''network.dns_overrides entry must use host:port:ip format'')
        | Some first_sep \<Rightarrow>
      (case find_byte 0x3a (drop (first_sep + 1) trimmed) of
          None \<Rightarrow> Inl (cfg_err ''network.dns_overrides entry must use host:port:ip format'')
        | Some k \<Rightarrow>
            let second_sep = first_sep + 1 + k;
                host = trim (take first_sep trimmed);
                port_str = trim (subslice trimmed (first_sep + 1) second_sep);
                ip_str = trim (drop (second_sep + 1) trimmed)
            in if host = [] then Inl (cfg_err ''network.dns_overrides host cannot be empty'')
               else if 0x3a \<in> set host then
                 Inl (cfg_err ''network.dns_overrides host must be a domain name without colon in this format'')
               else case parse_u16 port_str of
                   None \<Rightarrow> Inl (cfg_err ''network.dns_overrides port is invalid'')
                 | Some port \<Rightarrow>
                     (case parse_ip_spec ip_str of
                        Inl e \<Rightarrow> Inl e
                      | Inr ip \<Rightarrow> Inr ((to_ascii_lowercase host, port), ip))))"

fun parse_entries_into :: "override_map \<Rightarrow> bytes list \<Rightarrow> proxy_error + override_map" where
  "parse_entries_into parsed [] = Inr parsed"
| "parse_entries_into parsed (entry # entries) =
     (case parse_entry entry of
        Inl e \<Rightarrow> Inl e
      | Inr (key, ip) \<Rightarrow> parse_entries_into (parsed(key \<mapsto> ip)) entries)"

definition parse_entries :: "bytes list \<Rightarrow> proxy_error + override_map" where
  "parse_entries entries = parse_entries_into Map.empty entries"

definition validate_entries :: "bytes list \<Rightarrow> proxy_error + unit" where
  "validate_entries entries = (case parse_entries entries of Inl e \<Rightarrow> Inl e | Inr _ \<Rightarrow> Inr ())"

definition install_entries :: "bytes list \<Rightarrow> override_map \<Rightarrow> (proxy_error + unit) \<times> override_map" where
  "install_entries entries store =
     (case parse_entries entries of Inl e \<Rightarrow> (Inl e, store) | Inr parsed \<Rightarrow> (Inr (), parsed))"

definition resolve :: "bytes \<Rightarrow> u16 \<Rightarrow> override_map \<Rightarrow> ip_addr option" where
  "resolve host port store = store (to_ascii_lowercase host, port)"

definition resolve_socket_addr :: "bytes \<Rightarrow> u16 \<Rightarrow> override_map \<Rightarrow> socket_addr option" where
  "resolve_socket_addr host port store = map_option (\<lambda>ip. SocketAddr ip port) (resolve host port store)"

definition split_host_port :: "bytes \<Rightarrow> (bytes \<times> u16) option" where
  "split_host_port endpoint =
     (if endpoint \<noteq> [] \<and> hd endpoint = 0x5b then
        (case find_byte 0x5d endpoint of
           None \<Rightarrow> None
         | Some bracket_end \<Rightarrow>
             if \<not> (bracket_end + 1 < length endpoint \<and> endpoint ! (bracket_end + 1) = 0x3a) then None
             else
               let host = trim (subslice endpoint 1 bracket_end) in
               case parse_u16 (trim (drop (bracket_end + 2) endpoint)) of
                 None \<Rightarrow> None
               | Some port \<Rightarrow> if host = [] then None else Some (to_ascii_lowercase host, port))
      else case rfind_byte 0x3a endpoint of
          None \<Rightarrow> None
        | Some split_idx \<Rightarrow>
            let host = trim (take split_idx endpoint) in
            case parse_u16 (trim (drop (split_idx + 1) endpoint)) of
              None \<Rightarrow> None
            | Some port \<Rightarrow> if host = [] \<or> 0x3a \<in> set host then None else Some (to_ascii_lowercase host, port))"

subsection \<open>Entries mean what they say\<close>

text \<open>The entry for a host, port and address; IPv6 addresses are bracketed.\<close>

fun show_spec :: "ip_addr \<Rightarrow> bytes" where
  "show_spec (IpV4 a) = show_v4 a"
| "show_spec (IpV6 a) = [0x5b] @ show_v6 a @ [0x5d]"

definition show_entry :: "bytes \<times> u16 \<times> ip_addr \<Rightarrow> bytes" where
  "show_entry e = (case e of (host, port, ip) \<Rightarrow> host @ [0x3a] @ show_u16 port @ [0x3a] @ show_spec ip)"

definition host_ok :: "bytes \<Rightarrow> bool" where
  "host_ok host \<longleftrightarrow> host \<noteq> [] \<and> list_all plain_char host \<and> 0x3a \<notin> set host"

lemma trim_plain: "list_all plain_char w \<Longrightarrow> trim w = w"
proof -
  assume w: "list_all plain_char w"
  have "trim_start w = w" using w by (cases w) (subst trim_start.simps, simp add: ws_len_plain)+
  moreover have "trim_end_from k [] w = k @ w" for k
    using w
  proof (induction w arbitrary: k)
    case (Cons b w)
    then show ?case by (subst trim_end_from.simps) (simp add: ws_len_plain)
  qed (subst trim_end_from.simps, simp)
  ultimately show ?thesis by (simp add: trim_def)
qed

lemma find_byte_at: "c \<notin> set xs \<Longrightarrow> find_byte c (xs @ c # ys) = Some (length xs)"
proof -
  assume "c \<notin> set xs"
  then have "takeWhile (\<lambda>b. b \<noteq> c) (xs @ c # ys) = xs" by (induction xs) auto
  then show ?thesis by (simp add: find_byte_def)
qed

lemma u16_no_colon: "0x3a \<notin> set (show_u16 p)"
  using show_radix_digits [of 10 "0x3a" "unat p"] by (auto simp: show_u16_def dec_nat_def digit_value_def)

lemma show_spec_plain: "list_all plain_char (show_spec ip)"
  using show_v4_short show_v6_short by (cases ip) (auto simp: short_word_def plain_char_def)

lemma show_v4_head: "\<exists>b r. show_v4 a = b # r \<and> b \<noteq> 0x5b"
proof -
  obtain b r where s: "show_v4 a = b # r" using show_nonempty(1) [of "IpV4 a"] by (cases "show_v4 a") auto
  have "b \<noteq> 0x5b"
  proof
    assume "b = 0x5b"
    then have "read_ipv4 (show_v4 a) = None"
      by (simp add: s read_ipv4_def read_octets_numeral(1) read_separator_def read_number_def digit_value_def)
    then show False using read_ipv4_show [of "[]" a] by (simp add: no_digit_sep)
  qed
  then show ?thesis using s by blast
qed

lemma parse_spec_show: "parse_ip_spec (show_spec ip) = Inr ip"
proof (cases ip)
  case (IpV4 a)
  then show ?thesis using show_v4_head [of a] parse_ip_show [of ip] by (auto simp: parse_ip_spec_def)
next
  case (IpV6 a)
  have "subslice (0x5b # show_v6 a @ [0x5d]) 1 (length (0x5b # show_v6 a @ [0x5d]) - 1) = show_v6 a"
    by (simp add: subslice_def)
  then show ?thesis using IpV6 read_ipv6_show [of a] by (simp add: parse_ip_spec_def parse_ipv6_def whole_def)
qed

lemma parse_entry_show:
  assumes "host_ok host"
  shows "parse_entry (show_entry (host, port, ip)) = Inr ((to_ascii_lowercase host, port), ip)"
proof -
  let ?e = "show_entry (host, port, ip)"
  let ?r = "show_u16 port @ 0x3a # show_spec ip"
  have e: "?e = host @ 0x3a # ?r" by (simp add: show_entry_def)
  have p: "list_all plain_char (show_u16 port)" using show_u16_short [of port] by (simp add: short_word_def)
  have "list_all plain_char ?e" using assms p show_spec_plain by (simp add: e host_ok_def plain_char_def)
  then have t: "trim ?e = ?e" by (rule trim_plain)
  have 1: "find_byte 0x3a ?e = Some (length host)" unfolding e using assms by (intro find_byte_at) (simp add: host_ok_def)
  have 2: "find_byte 0x3a ?r = Some (length (show_u16 port))" by (rule find_byte_at [OF u16_no_colon])
  have d: "drop (length host + 1) ?e = ?r" "take (length host) ?e = host" by (simp_all add: e)
  have m: "subslice ?e (length host + 1) (length host + 1 + length (show_u16 port)) = show_u16 port"
    by (simp add: e subslice_def)
  have l: "drop (length host + 1 + length (show_u16 port) + 1) ?e = show_spec ip" by (simp add: e)
  have h: "trim host = host" "0x3a \<notin> set host" "host \<noteq> []" using assms trim_plain by (simp_all add: host_ok_def)
  have "?e \<noteq> []" by (simp add: e)
  then show ?thesis
    unfolding parse_entry_def Let_def t
    using 1 2 d m l h trim_plain [OF p] trim_plain [OF show_spec_plain, of ip] parse_spec_show [of ip] by simp
qed

lemma parse_entries_into_show:
  "\<forall>e \<in> set es. host_ok (fst e) \<Longrightarrow>
   parse_entries_into m (map show_entry es) = Inr (m ++ map_of (rev (map (\<lambda>(h, p, ip). ((to_ascii_lowercase h, p), ip)) es)))"
proof (induction es arbitrary: m)
  case (Cons e es)
  obtain h p ip where e: "e = (h, p, ip)" by (cases e)
  have "m((to_ascii_lowercase h, p) \<mapsto> ip) ++ map_of xs = m ++ (map_of (xs @ [((to_ascii_lowercase h, p), ip)]))" for xs
    by (rule ext) (auto simp: map_add_def split: option.split)
  then show ?case using Cons by (simp add: e parse_entry_show)
qed simp

lemma parse_entries_into_error:
  "parse_entry bad = Inl e \<Longrightarrow> \<exists>e'. parse_entries_into m (pre @ bad # post) = Inl e'"
proof (induction pre arbitrary: m)
  case (Cons x pre)
  then show ?case by (cases "parse_entry x") (auto split: prod.splits)
qed simp

text \<open>C30: Installing overrides is effective and atomic. Entries written for any hosts, ports and addresses (IPv4, or IPv6
  in brackets) are accepted, and afterwards a name resolves, whatever its case, to the address of the last entry for this
  host and port and to nothing else; one entry that does not parse rejects the whole list and leaves the store as it was.\<close>

theorem dns_overrides_installed:
  assumes "\<forall>e \<in> set es. host_ok (fst e)" "parse_entry bad = Inl err"
  shows "(\<exists>store'. install_entries (map show_entry es) store = (Inr (), store') \<and>
      (\<forall>h p. resolve_socket_addr h p store' = map_option (\<lambda>ip. SocketAddr ip p)
         (map_of (rev (map (\<lambda>(h, p, ip). ((to_ascii_lowercase h, p), ip)) es)) (to_ascii_lowercase h, p)))) \<and>
    (\<exists>err'. install_entries (pre @ bad # post) store = (Inl err', store) \<and> validate_entries (pre @ bad # post) = Inl err')"
  using parse_entries_into_show [OF assms(1), of Map.empty] parse_entries_into_error [OF assms(2), of Map.empty pre post]
  by (auto simp: install_entries_def validate_entries_def parse_entries_def resolve_socket_addr_def resolve_def)

definition sample_entry :: "bytes \<times> u16 \<times> ip_addr" where
  "sample_entry = (ascii ''Tg.org'', 443, IpV6 1)"

theorem dns_overrides_installed_witness:
  "\<exists>store'. install_entries [show_entry sample_entry] Map.empty = (Inr (), store') \<and>
     resolve_socket_addr (ascii ''tG.oRG'') 443 store' = Some (SocketAddr (IpV6 1) 443)"
proof -
  have ok: "\<forall>e \<in> set [sample_entry]. host_ok (fst e)" by (simp add: sample_entry_def host_ok_def ascii_def plain_char_def)
  have bad: "parse_entry [] = Inl (cfg_err ''network.dns_overrides entry cannot be empty'')"
    by (simp add: parse_entry_def trim_plain)
  show ?thesis
    using conjunct1 [OF dns_overrides_installed [OF ok bad, of Map.empty "[]" "[]"]]
    by (auto simp: sample_entry_def to_ascii_lowercase_def ascii_def)
qed

end
