(* ===== verification/Masking.thy ===== *)
theory Masking
  imports Proxy_Protocol Dns_Overrides
begin

section \<open>Masking of bad clients (\<open>proxy/masking.rs\<close>, \<open>stats/beobachten.rs\<close>)\<close>

text \<open>
  A client that is not authenticated is forwarded to a mask host, so that a probe sees an ordinary server. Connecting is a
  parameter: for a target it gives the two halves of the connection, or nothing when it fails or times out. The relay
  runs as two concurrent tasks, one per direction: it is a step relation over the states of the four halves, a step
  being one iteration of one task. The one-minute limit on waiting for the tasks does not stop them and so has no part
  in the model.
\<close>

subsection \<open>The observation store\<close>

record beobachten_entry =
  be_tries :: nat
  be_last_seen :: nat

record beobachten_store =
  bs_entries :: "(string \<times> ip_addr) \<rightharpoonup> beobachten_entry"
  bs_last_cleanup :: "nat option"

definition BEOBACHTEN_CLEANUP_INTERVAL :: nat where "BEOBACHTEN_CLEANUP_INTERVAL = 30 * 1000"

definition beobachten_new :: beobachten_store where
  "beobachten_new = \<lparr>bs_entries = Map.empty, bs_last_cleanup = None\<rparr>"

definition bs_cleanup :: "nat \<Rightarrow> nat \<Rightarrow> beobachten_store \<Rightarrow> beobachten_store" where
  "bs_cleanup now ttl s = s\<lparr>bs_entries := (\<lambda>k. case bs_entries s k of
     Some e \<Rightarrow> if now - be_last_seen e \<le> ttl then Some e else None | None \<Rightarrow> None)\<rparr>"

definition cleanup_if_needed :: "nat \<Rightarrow> nat \<Rightarrow> beobachten_store \<Rightarrow> beobachten_store" where
  "cleanup_if_needed now ttl s =
     (let should_cleanup = (case bs_last_cleanup s of Some t \<Rightarrow> BEOBACHTEN_CLEANUP_INTERVAL \<le> now - t | None \<Rightarrow> True)
      in if should_cleanup then (bs_cleanup now ttl s)\<lparr>bs_last_cleanup := Some now\<rparr> else s)"

definition bs_record :: "string \<Rightarrow> ip_addr \<Rightarrow> nat \<Rightarrow> nat \<Rightarrow> beobachten_store \<Rightarrow> beobachten_store" where
  "bs_record cls ip ttl now s =
     (if cls = [] \<or> ttl = 0 then s
      else
        let s = cleanup_if_needed now ttl s;
            e = (case bs_entries s (cls, ip) of Some e \<Rightarrow> e | None \<Rightarrow> \<lparr>be_tries = 0, be_last_seen = now\<rparr>)
        in s\<lparr>bs_entries := (bs_entries s)((cls, ip) \<mapsto>
             \<lparr>be_tries = min (be_tries e + 1) (2 ^ 64 - 1), be_last_seen = now\<rparr>)\<rparr>)"

subsection \<open>Choosing the target\<close>

definition MASK_BUFFER_SIZE :: nat where "MASK_BUFFER_SIZE = 8192"

definition starts_with :: "bytes \<Rightarrow> bytes \<Rightarrow> bool" where
  "starts_with bs p \<longleftrightarrow> take (length p) bs = p"

definition detect_client_type :: "bytes \<Rightarrow> string" where
  "detect_client_type data =
     (if 4 < length data \<and>
         (starts_with data (ascii ''GET '') \<or> starts_with data (ascii ''POST'') \<or> starts_with data (ascii ''HEAD'') \<or>
          starts_with data (ascii ''PUT '') \<or> starts_with data (ascii ''DELETE'') \<or> starts_with data (ascii ''OPTIONS''))
      then ''HTTP''
      else if 3 < length data \<and> data ! 0 = 0x16 \<and> data ! 1 = 0x03 then ''TLS-scanner''
      else if starts_with data (ascii ''SSH-'') then ''SSH''
      else if length data < 10 then ''port-scanner''
      else ''unknown'')"

record mask_config =
  mc_beobachten :: bool
  mc_beobachten_minutes :: nat
  mc_mask :: bool
  mc_mask_unix_sock :: "bytes option"
  mc_mask_host :: "bytes option"
  mc_tls_domain :: bytes
  mc_mask_port :: u16
  mc_mask_proxy_protocol :: byte

datatype mask_target = MaskUnix bytes | MaskTcp bytes

definition mask_target_of :: "mask_config \<Rightarrow> override_map \<Rightarrow> mask_target" where
  "mask_target_of cfg overrides =
     (case mc_mask_unix_sock cfg of
        Some path \<Rightarrow> MaskUnix path
      | None \<Rightarrow>
          let host = (case mc_mask_host cfg of Some h \<Rightarrow> h | None \<Rightarrow> mc_tls_domain cfg); port = mc_mask_port cfg
          in MaskTcp (case resolve_socket_addr host port overrides of
                        Some addr \<Rightarrow> show_socket_addr addr
                      | None \<Rightarrow> host @ [0x3a] @ show_u16 port))"

definition mask_proxy_header :: "byte \<Rightarrow> socket_addr \<Rightarrow> socket_addr \<Rightarrow> bytes option" where
  "mask_proxy_header version peer local_addr =
     (if version = 0 then None
      else Some
        (if version = 2 then pb2_build (pb2_with_addrs peer local_addr pb2_new)
         else case (sa_ip peer, sa_ip local_addr) of
             (IpV4 _, IpV4 _) \<Rightarrow> pb1_build (pb1_tcp4 peer local_addr pb1_new)
           | (IpV6 _, IpV6 _) \<Rightarrow> pb1_build (pb1_tcp6 peer local_addr pb1_new)
           | _ \<Rightarrow> pb1_build pb1_new))"

subsection \<open>The relay\<close>

record mask_relay =
  mr_reader :: source
  mr_writer :: sink
  mr_mask_read :: source
  mr_mask_write :: sink
  mr_c2m_done :: bool
  mr_m2c_done :: bool

text \<open>One iteration of a copying task: read at most a buffer, write all of it; end the task on an empty or failed read,
  shutting the destination down, and on a failed write. \<open>None\<close> while the task waits.\<close>

definition pump :: "nat \<Rightarrow> source \<Rightarrow> sink \<Rightarrow> (bool \<times> source \<times> sink) option" where
  "pump fuel src dst =
     (case read_some fuel MASK_BUFFER_SIZE src of
        None \<Rightarrow> None
      | Some (Inl e, src) \<Rightarrow>
          (case flush_loop sink_control fuel dst of None \<Rightarrow> None | Some (_, dst) \<Rightarrow> Some (True, src, dst))
      | Some (Inr bs, src) \<Rightarrow>
          if bs = [] then
            (case flush_loop sink_control fuel dst of None \<Rightarrow> None | Some (_, dst) \<Rightarrow> Some (True, src, dst))
          else case write_loop sink_poll fuel bs dst of
              None \<Rightarrow> None
            | Some (Inl e, dst) \<Rightarrow> Some (True, src, dst)
            | Some (Inr _, dst) \<Rightarrow> Some (False, src, dst))"

inductive mask_step :: "mask_relay \<Rightarrow> mask_relay \<Rightarrow> bool" where
  c2m: "\<not> mr_c2m_done r \<Longrightarrow> pump fuel (mr_reader r) (mr_mask_write r) = Some (done, src, dst) \<Longrightarrow>
    mask_step r (r\<lparr>mr_c2m_done := done, mr_reader := src, mr_mask_write := dst\<rparr>)"
| m2c: "\<not> mr_m2c_done r \<Longrightarrow> pump fuel (mr_mask_read r) (mr_writer r) = Some (done, src, dst) \<Longrightarrow>
    mask_step r (r\<lparr>mr_m2c_done := done, mr_mask_read := src, mr_writer := dst\<rparr>)"

inductive mask_reaches :: "mask_relay \<Rightarrow> mask_relay \<Rightarrow> bool" where
  here: "mask_reaches r r"
| further: "mask_reaches r r1 \<Longrightarrow> mask_step r1 r2 \<Longrightarrow> mask_reaches r r2"

subsection \<open>Handling a bad client\<close>

datatype mask_outcome = MaskConsumed source sink | MaskAborted | MaskRelaying mask_relay

fun consume_client_data :: "nat \<Rightarrow> source \<Rightarrow> source option" where
  "consume_client_data 0 u = None"
| "consume_client_data (Suc fuel) u =
     (case source_poll MASK_BUFFER_SIZE u of
        (Pending, u') \<Rightarrow> consume_client_data fuel u'
      | (Ready (Inl e), u') \<Rightarrow> Some u'
      | (Ready (Inr bs), u') \<Rightarrow> if bs = [] then Some u' else consume_client_data fuel u')"

definition relay_to_mask :: "nat \<Rightarrow> source \<Rightarrow> sink \<Rightarrow> source \<Rightarrow> sink \<Rightarrow> bytes \<Rightarrow> mask_outcome option" where
  "relay_to_mask fuel reader writer mask_read mask_write initial_data =
     (case write_loop sink_poll fuel initial_data mask_write of
        None \<Rightarrow> None
      | Some (Inl e, _) \<Rightarrow> Some MaskAborted
      | Some (Inr _, mask_write) \<Rightarrow>
          Some (MaskRelaying \<lparr>mr_reader = reader, mr_writer = writer, mr_mask_read = mask_read, mr_mask_write = mask_write,
                  mr_c2m_done = False, mr_m2c_done = False\<rparr>))"

definition beobachten_ttl :: "mask_config \<Rightarrow> nat" where
  "beobachten_ttl cfg = 1000 * min (mc_beobachten_minutes cfg * 60) (2 ^ 64 - 1)"

definition handle_bad_client :: "(mask_target \<Rightarrow> (source \<times> sink) option) \<Rightarrow> nat \<Rightarrow> source \<Rightarrow> sink \<Rightarrow> bytes \<Rightarrow> socket_addr \<Rightarrow>
    socket_addr \<Rightarrow> mask_config \<Rightarrow> override_map \<Rightarrow> nat \<Rightarrow> beobachten_store \<Rightarrow> (mask_outcome \<times> beobachten_store) option" where
  "handle_bad_client connect fuel reader writer initial_data peer local_addr cfg overrides now store =
     (let client_type = detect_client_type initial_data;
          store = (if mc_beobachten cfg then bs_record client_type (sa_ip peer) (beobachten_ttl cfg) now store else store);
          consumed = map_option (\<lambda>u. (MaskConsumed u writer, store)) (consume_client_data fuel reader)
      in if \<not> mc_mask cfg then consumed
         else case connect (mask_target_of cfg overrides) of
             None \<Rightarrow> consumed
           | Some (mask_read, mask_write) \<Rightarrow>
               let header = (case mask_proxy_header (mc_mask_proxy_protocol cfg) peer local_addr of Some h \<Rightarrow> h | None \<Rightarrow> []) in
               (case write_loop sink_poll fuel header mask_write of
                  None \<Rightarrow> None
                | Some (Inl e, _) \<Rightarrow> Some (MaskAborted, store)
                | Some (Inr _, mask_write) \<Rightarrow>
                    map_option (\<lambda>r. (r, store)) (relay_to_mask fuel reader writer mask_read mask_write initial_data)))"

subsection \<open>The mask host sees what the client sent\<close>

lemma write_loop_prefix:
  "write_loop sink_poll fuel xs k = Some (r, k') \<Longrightarrow>
   \<exists>n. sk_written k' = sk_written k @ take n xs \<and> (r = Inr () \<longrightarrow> take n xs = xs)"
proof (induction fuel arbitrary: xs k)
  case (Suc fuel)
  show ?case
  proof (cases "xs = []")
    case False
    obtain p t where p: "sink_poll k xs = (p, t)" by fastforce
    show ?thesis
    proof (cases p)
      case Pending
      then have "write_loop sink_poll fuel xs t = Some (r, k')" "sk_written t = sk_written k"
        using Suc.prems False p sink_poll_not_ok(1) [of k xs t] by simp_all
      then show ?thesis using Suc.IH [of xs t] by simp
    next
      case (Ready x)
      show ?thesis
      proof (cases x)
        case (Inl e)
        then show ?thesis using Suc.prems False p Ready sink_poll_not_ok(2) [of k xs e t] by (auto intro: exI [of _ 0])
      next
        case (Inr m)
        note ok = sink_poll_ok [OF p [unfolded Ready Inr]]
        show ?thesis
        proof (cases "m = 0")
          case True
          then show ?thesis using Suc.prems False p Ready Inr ok by (auto intro: exI [of _ 0])
        next
          case m: False
          then obtain n where "sk_written k' = sk_written t @ take n (drop m xs)" "r = Inr () \<longrightarrow> take n (drop m xs) = drop m xs"
            using Suc.IH [of "drop m xs" t] Suc.prems False p Ready Inr by auto
          moreover have "take (m + n) xs = take m xs @ take n (drop m xs)" by (rule take_add)
          ultimately show ?thesis using ok by (intro exI [of _ "m + n"]) auto
        qed
      qed
    qed
  qed (use Suc.prems in simp)
qed simp

lemma flush_loop_written: "flush_loop sink_control fuel k = Some (r, k') \<Longrightarrow> sk_written k' = sk_written k"
  by (induction fuel arbitrary: k) (auto split: prod.splits poll.splits dest: sink_control_written)

text \<open>What has been copied of \<open>sent\<close>: a prefix, and all that was read as long as the task runs.\<close>

definition copied :: "bytes \<Rightarrow> bytes \<Rightarrow> bool \<Rightarrow> source \<Rightarrow> sink \<Rightarrow> bool" where
  "copied base sent fin src dst \<longleftrightarrow> (\<exists>c d. sk_written dst = base @ c \<and> sent = c @ d \<and> (\<not> fin \<longrightarrow> d = source_bytes src))"

lemma pump_copied:
  assumes "copied base sent False src dst" "pump fuel src dst = Some (fin, src', dst')"
  shows "copied base sent fin src' dst'"
proof -
  obtain c where c: "sk_written dst = base @ c" "sent = c @ source_bytes src" using assms(1) by (auto simp: copied_def)
  obtain r s where r: "read_some fuel MASK_BUFFER_SIZE src = Some (r, s)" using assms(2) by (auto simp: pump_def split: option.splits)
  show ?thesis
  proof (cases "\<exists>bs. r = Inr bs \<and> bs \<noteq> []")
    case True
    then obtain bs where b: "r = Inr bs" "bs \<noteq> []" by blast
    have sb: "source_bytes src = bs @ source_bytes s" using read_some_content [OF r [unfolded b(1)]] .
    obtain x k where w: "write_loop sink_poll fuel bs dst = Some (x, k)" "s = src'" "k = dst'" "fin \<longleftrightarrow> (\<exists>e. x = Inl e)"
      using assms(2) r b by (auto simp: pump_def split: option.splits sum.splits)
    obtain n where n: "sk_written k = sk_written dst @ take n bs" "x = Inr () \<longrightarrow> take n bs = bs"
      using write_loop_prefix [OF w(1)] by blast
    have "sent = (c @ take n bs) @ (drop n bs @ source_bytes s)" using c(2) sb append_take_drop_id [of n bs] by simp
    moreover have "drop n bs = []" if "\<not> fin" using that w(4) n(2) by (cases x) (auto dest: arg_cong [of _ _ length])
    ultimately show ?thesis
      unfolding copied_def using n(1) c(1) w(2,3) by (intro exI [of _ "c @ take n bs"] exI [of _ "drop n bs @ source_bytes s"]) auto
  next
    case False
    then have "fin" "sk_written dst' = sk_written dst"
      using assms(2) r by (auto simp: pump_def split: option.splits sum.splits dest: flush_loop_written)
    then show ?thesis using c by (auto simp: copied_def)
  qed
qed

definition relay_inv :: "bytes \<Rightarrow> bytes \<Rightarrow> bytes \<Rightarrow> bytes \<Rightarrow> mask_relay \<Rightarrow> bool" where
  "relay_inv up sent down replies r \<longleftrightarrow>
     copied up sent (mr_c2m_done r) (mr_reader r) (mr_mask_write r) \<and>
     copied down replies (mr_m2c_done r) (mr_mask_read r) (mr_writer r)"

lemma mask_step_inv: "mask_step r r' \<Longrightarrow> relay_inv up sent down replies r \<Longrightarrow> relay_inv up sent down replies r'"
  by (induction rule: mask_step.induct) (auto simp: relay_inv_def intro: pump_copied)

lemma mask_reaches_inv: "mask_reaches r r' \<Longrightarrow> relay_inv up sent down replies r \<Longrightarrow> relay_inv up sent down replies r'"
  by (induction rule: mask_reaches.induct) (blast intro: mask_step_inv)+

text \<open>So in every interleaving of the two tasks the mask host has received the configured PROXY header, the bytes read
  before the client was rejected and then the client's further bytes in order, and the client the mask host's bytes.\<close>

definition mask_header :: "mask_config \<Rightarrow> socket_addr \<Rightarrow> socket_addr \<Rightarrow> bytes" where
  "mask_header cfg peer local_addr =
     (case mask_proxy_header (mc_mask_proxy_protocol cfg) peer local_addr of Some h \<Rightarrow> h | None \<Rightarrow> [])"

lemma mask_relay_transparent:
  assumes "handle_bad_client connect fuel reader writer initial_data peer local_addr cfg overrides now store = Some (MaskRelaying r0, store')"
    and "mask_reaches r0 r"
  obtains mask_read mask_write where "connect (mask_target_of cfg overrides) = Some (mask_read, mask_write)"
    "relay_inv (sk_written mask_write @ mask_header cfg peer local_addr @ initial_data) (source_bytes reader)
       (sk_written writer) (source_bytes mask_read) r"
proof -
  let ?h = "mask_header cfg peer local_addr"
  obtain mask_read mask_write where m: "connect (mask_target_of cfg overrides) = Some (mask_read, mask_write)"
    using assms(1) by (auto simp: handle_bad_client_def Let_def split: if_splits option.splits)
  obtain w1 w2 where w: "write_loop sink_poll fuel ?h mask_write = Some (Inr (), w1)"
      "write_loop sink_poll fuel initial_data w1 = Some (Inr (), w2)"
      "r0 = \<lparr>mr_reader = reader, mr_writer = writer, mr_mask_read = mask_read, mr_mask_write = w2, mr_c2m_done = False, mr_m2c_done = False\<rparr>"
    using assms(1) m unfolding handle_bad_client_def Let_def relay_to_mask_def mask_header_def
    by (auto split: if_splits option.splits sum.splits)
  have "sk_written w2 = sk_written mask_write @ ?h @ initial_data"
    using raw_out.write_loop_plain [OF TrueI w(1)] raw_out.write_loop_plain [OF TrueI w(2)] by simp
  then have "relay_inv (sk_written mask_write @ ?h @ initial_data) (source_bytes reader) (sk_written writer) (source_bytes mask_read) r0"
    by (simp add: relay_inv_def copied_def w(3))
  then show ?thesis using that [OF m] mask_reaches_inv [OF assms(2)] by blast
qed

text \<open>C29: The PROXY header tells the mask host the client's address. For both versions and every pair of addresses of one
  family, IPv4 or IPv6, a host that reads the forwarded stream with the protocol's parser obtains the client's address
  and port and the local address and port, and the stream goes on with exactly the bytes after the header; for
  addresses of different families the header names none and the parser falls back to the connection's peer.\<close>

theorem proxy_header_roundtrip:
  assumes "mask_proxy_header version peer local_addr = Some h"
    and "source_wf u" "source_meas u < fuel" "source_bytes u = h @ rest"
  shows "\<exists>info u'. parse_proxy_protocol fuel u default_peer = Some (Inr info, u') \<and> source_wf u' \<and> source_bytes u' = rest \<and>
    ppi_version info = (if version = 2 then 2 else 1) \<and>
    (if same_family peer local_addr then ppi_src_addr info = peer \<and> ppi_dst_addr info = Some local_addr
     else ppi_src_addr info = default_peer \<and> ppi_dst_addr info = None)"
proof (cases "version = 2")
  case True
  then have "source_bytes u = pb2_build (pb2_with_addrs peer local_addr pb2_new) @ rest"
    using assms(1,4) by (simp add: mask_proxy_header_def)
  from v2_roundtrip [OF assms(2,3) this, of default_peer] show ?thesis using True by (auto split: if_splits)
next
  case v: False
  show ?thesis
  proof (cases "same_family peer local_addr")
    case True
    then obtain family where f: "family = ascii ''TCP4'' \<or> family = ascii ''TCP6''"
        "source_bytes u = pb1_build \<lparr>pb1_family = family, pb1_src_addr = Some peer, pb1_dst_addr = Some local_addr\<rparr> @ rest"
      using assms(1,4) v
      by (auto simp: mask_proxy_header_def same_family_def pb1_tcp4_def pb1_tcp6_def pb1_new_def split: if_splits ip_addr.splits)
    from v1_roundtrip [OF assms(2,3) f, of default_peer] show ?thesis using v True by auto
  next
    case False
    then have "source_bytes u = pb1_build pb1_new @ rest"
      using assms(1,4) v by (auto simp: mask_proxy_header_def same_family_def split: if_splits ip_addr.splits)
    from v1_unknown [OF assms(2,3) this, of default_peer] show ?thesis using v False by auto
  qed
qed

theorem proxy_header_roundtrip_witness:
  "\<exists>h info u'. mask_proxy_header 1 (SocketAddr (IpV6 5) 80) (SocketAddr (IpV6 7) 443) = Some h \<and>
     parse_proxy_protocol (Suc (source_meas [RdBytes (h @ [9])])) [RdBytes (h @ [9])] (SocketAddr (IpV4 0) 0) = Some (Inr info, u') \<and>
     ppi_src_addr info = SocketAddr (IpV6 5) 80 \<and> source_bytes u' = [9]"
proof -
  obtain h where h: "mask_proxy_header 1 (SocketAddr (IpV6 5) 80) (SocketAddr (IpV6 7) 443) = Some h"
    by (simp add: mask_proxy_header_def)
  have "source_wf [RdBytes (h @ [9])]" "source_bytes [RdBytes (h @ [9])] = h @ [9]" by (simp_all add: source_wf_def)
  from proxy_header_roundtrip [OF h this(1) lessI this(2)] h show ?thesis by (fastforce simp: same_family_def)
qed

end
