(* ===== verification/Client_Handler.thy ===== *)
theory Client_Handler
  imports Tls_Handshake Masking
begin

section \<open>The client handler (\<open>proxy/client.rs\<close>)\<close>

text \<open>
  What happens to a new connection: the optional PROXY header, detection of the transport from the first bytes, the FakeTLS
  and MTProto handshakes, masking of everything that is not authenticated, and the timeout around all this. A
  handler that is still waiting when its fuel ends is one that the timeout cuts off. The outcome carries what masking
  did, where the code only says that the connection was handled.
\<close>

definition normalize_ip :: "socket_addr \<Rightarrow> socket_addr" where
  "normalize_ip addr =
     (case sa_ip addr of
        IpV6 a \<Rightarrow> (case to_ipv4_mapped a of Some b \<Rightarrow> SocketAddr (IpV4 b) (sa_port addr) | None \<Rightarrow> addr)
      | IpV4 _ \<Rightarrow> addr)"

record client_config =
  cl_handshake :: hs_config
  cl_tls :: tls_hs_config
  cl_mask :: mask_config
  cl_server_port :: u16

record connect_stats =
  st_core_enabled :: bool
  st_connects_all :: u64
  st_connects_bad :: u64
  st_handshake_timeouts :: u64

definition increment_connects_all :: "connect_stats \<Rightarrow> connect_stats" where
  "increment_connects_all s = (if st_core_enabled s then s\<lparr>st_connects_all := st_connects_all s + 1\<rparr> else s)"

definition increment_connects_bad :: "connect_stats \<Rightarrow> connect_stats" where
  "increment_connects_bad s = (if st_core_enabled s then s\<lparr>st_connects_bad := st_connects_bad s + 1\<rparr> else s)"

definition increment_handshake_timeouts :: "connect_stats \<Rightarrow> connect_stats" where
  "increment_handshake_timeouts s = (if st_core_enabled s then s\<lparr>st_handshake_timeouts := st_handshake_timeouts s + 1\<rparr> else s)"

text \<open>The state shared by all clients.\<close>

record ('c, 'r) client_world =
  wo_shared :: "('c, 'r) hs_shared"
  wo_stats :: connect_stats
  wo_store :: beobachten_store

record ('c, 'r) client_env =
  ce_hs :: "('c, 'r) hs_env"
  ce_connect :: "mask_target \<Rightarrow> (source \<times> sink) option"
  ce_overrides :: override_map

datatype handshake_outcome =
    RelayTls "tls_reader crypto_reader" "tls_writer crypto_writer" handshake_success
  | RelayPlain "source crypto_reader" "sink crypto_writer" handshake_success
  | Masked mask_outcome
  | Handled

definition record_beobachten_class :: "mask_config \<Rightarrow> ip_addr \<Rightarrow> string \<Rightarrow> nat \<Rightarrow> beobachten_store \<Rightarrow> beobachten_store" where
  "record_beobachten_class cfg peer_ip cls now store =
     (if \<not> mc_beobachten cfg then store else bs_record cls peer_ip (beobachten_ttl cfg) now store)"

text \<open>The text \<open>expected 64 bytes, got 0\<close> in the message of an error.\<close>

definition says_64_got_0 :: "message \<Rightarrow> bool" where
  "says_64_got_0 m = (case m of Msg s ns \<Rightarrow>
     ns = [64, 0] \<and> length ''expected {} bytes, got {}'' \<le> length s \<and>
     drop (length s - length ''expected {} bytes, got {}'') s = ''expected {} bytes, got {}'')"

definition handshake_failure_class :: "proxy_error \<Rightarrow> string" where
  "handshake_failure_class e =
     (if (case e of ProxyIo x \<Rightarrow> says_64_got_0 (io_msg x) | Stream x \<Rightarrow> says_64_got_0 (stream_error_display x) | _ \<Rightarrow> False)
      then ''expected_64_got_0'' else ''other'')"

text \<open>A rejected client: count it and hand it to masking with what was read so far.\<close>

definition reject_client :: "('c, 'r) client_env \<Rightarrow> nat \<Rightarrow> client_config \<Rightarrow> hs_clock \<Rightarrow> source \<Rightarrow> sink \<Rightarrow> bytes \<Rightarrow> socket_addr \<Rightarrow> socket_addr \<Rightarrow>
    ('c, 'r) client_world \<Rightarrow> ((proxy_error + handshake_outcome) \<times> ('c, 'r) client_world) option" where
  "reject_client E fuel cfg clock reader writer initial_data peer local_addr w =
     (case handle_bad_client (ce_connect E) fuel reader writer initial_data peer local_addr (cl_mask cfg) (ce_overrides E)
             (ck_cache clock) (wo_store w) of
        None \<Rightarrow> None
      | Some (out, store) \<Rightarrow>
          Some (Inr (Masked out), w\<lparr>wo_stats := increment_connects_bad (wo_stats w), wo_store := store\<rparr>))"

definition handle_tls_client :: "('c, 'r) client_env \<Rightarrow> nat \<Rightarrow> client_config \<Rightarrow> hs_clock \<Rightarrow> bytes \<Rightarrow> source \<Rightarrow> sink \<Rightarrow> socket_addr \<Rightarrow> socket_addr \<Rightarrow>
    ('c, 'r) client_world \<Rightarrow> ((proxy_error + handshake_outcome) \<times> ('c, 'r) client_world) option" where
  "handle_tls_client E fuel cfg clock first_bytes reader writer peer local_addr w =
     (let tls_len = unat (u16_from_be_bytes [first_bytes ! 3, first_bytes ! 4]) in
      if tls_len < 512 then reject_client E fuel cfg clock reader writer first_bytes peer local_addr w
      else case read_exact fuel tls_len reader of
          None \<Rightarrow> None
        | Some (Inl e, _) \<Rightarrow> Some (Inl (ProxyIo e), w)
        | Some (Inr body, reader) \<Rightarrow>
      (let handshake = first_bytes @ body in
       case handle_tls_handshake (ce_hs E) fuel handshake reader writer peer (cl_tls cfg) clock (wo_shared w) of
          None \<Rightarrow> None
        | Some (HsError e, g) \<Rightarrow> Some (Inl e, w\<lparr>wo_shared := g\<rparr>)
        | Some (HsBadClient reader writer, g) \<Rightarrow>
            reject_client E fuel cfg clock reader writer handshake peer local_addr (w\<lparr>wo_shared := g\<rparr>)
        | Some (HsSuccess (tls_reader, tls_writer, _), g) \<Rightarrow>
      (case tls_read_exact fuel tls_reader HANDSHAKE_LEN of
          None \<Rightarrow> None
        | Some (Inl e, _) \<Rightarrow> Some (Inl (ProxyIo e), w\<lparr>wo_shared := g\<rparr>)
        | Some (Inr mtproto_handshake, tls_reader) \<Rightarrow>
            if length mtproto_handshake \<noteq> HANDSHAKE_LEN then
              Some (Inl (InvalidHandshake (Msg ''Short MTProto handshake'' [])), w\<lparr>wo_shared := g\<rparr>)
            else case handle_mtproto_handshake (en_crypto (ce_hs E)) (en_lru (ce_hs E)) (en_hash (ce_hs E)) mtproto_handshake tls_reader
                        tls_writer peer (cl_handshake cfg) (ck_instant clock) True (sh_replay g) of
                (HsSuccess (cr, cw, success), rc) \<Rightarrow>
                  Some (Inr (RelayTls cr cw success), w\<lparr>wo_shared := g\<lparr>sh_replay := rc\<rparr>\<rparr>)
              | (HsBadClient _ _, rc) \<Rightarrow>
                  Some (Inr Handled, w\<lparr>wo_shared := g\<lparr>sh_replay := rc\<rparr>, wo_stats := increment_connects_bad (wo_stats w)\<rparr>)
              | (HsError e, rc) \<Rightarrow> Some (Inl e, w\<lparr>wo_shared := g\<lparr>sh_replay := rc\<rparr>\<rparr>))))"

definition handle_direct_client :: "('c, 'r) client_env \<Rightarrow> nat \<Rightarrow> client_config \<Rightarrow> hs_clock \<Rightarrow> bytes \<Rightarrow> source \<Rightarrow> sink \<Rightarrow> socket_addr \<Rightarrow> socket_addr \<Rightarrow>
    ('c, 'r) client_world \<Rightarrow> ((proxy_error + handshake_outcome) \<times> ('c, 'r) client_world) option" where
  "handle_direct_client E fuel cfg clock first_bytes reader writer peer local_addr w =
     (if \<not> mode_classic (cfg_modes (cl_handshake cfg)) \<and> \<not> mode_secure (cfg_modes (cl_handshake cfg)) then
        reject_client E fuel cfg clock reader writer first_bytes peer local_addr w
      else case read_exact fuel (HANDSHAKE_LEN - 5) reader of
          None \<Rightarrow> None
        | Some (Inl e, _) \<Rightarrow> Some (Inl (ProxyIo e), w)
        | Some (Inr body, reader) \<Rightarrow>
            (let handshake = first_bytes @ body; g = wo_shared w in
             case handle_mtproto_handshake (en_crypto (ce_hs E)) (en_lru (ce_hs E)) (en_hash (ce_hs E)) handshake reader
                    writer peer (cl_handshake cfg) (ck_instant clock) False (sh_replay g) of
                (HsSuccess (cr, cw, success), rc) \<Rightarrow>
                  Some (Inr (RelayPlain cr cw success), w\<lparr>wo_shared := g\<lparr>sh_replay := rc\<rparr>\<rparr>)
              | (HsBadClient reader writer, rc) \<Rightarrow>
                  reject_client E fuel cfg clock reader writer handshake peer local_addr (w\<lparr>wo_shared := g\<lparr>sh_replay := rc\<rparr>\<rparr>)
              | (HsError e, rc) \<Rightarrow> Some (Inl e, w\<lparr>wo_shared := g\<lparr>sh_replay := rc\<rparr>\<rparr>)))"

text \<open>From the first bytes on: the part that the TCP and the generic handler share.\<close>

definition client_handshake :: "('c, 'r) client_env \<Rightarrow> nat \<Rightarrow> client_config \<Rightarrow> hs_clock \<Rightarrow> source \<Rightarrow> sink \<Rightarrow> socket_addr \<Rightarrow> socket_addr \<Rightarrow>
    ('c, 'r) client_world \<Rightarrow> ((proxy_error + handshake_outcome) \<times> ('c, 'r) client_world) option" where
  "client_handshake E fuel cfg clock reader writer peer local_addr w =
     (case read_exact fuel 5 reader of
        None \<Rightarrow> None
      | Some (Inl e, _) \<Rightarrow> Some (Inl (ProxyIo e), w)
      | Some (Inr first_bytes, reader) \<Rightarrow>
          if is_tls_handshake (take 3 first_bytes)
          then handle_tls_client E fuel cfg clock first_bytes reader writer peer local_addr w
          else handle_direct_client E fuel cfg clock first_bytes reader writer peer local_addr w)"

text \<open>The optional PROXY header: the client's address and the local address, or the rejection.\<close>

definition proxy_stage :: "nat \<Rightarrow> client_config \<Rightarrow> hs_clock \<Rightarrow> bool \<Rightarrow> source \<Rightarrow> socket_addr \<Rightarrow> socket_addr \<Rightarrow> socket_addr \<Rightarrow>
    ('c, 'r) client_world \<Rightarrow> ((proxy_error + source \<times> socket_addr \<times> socket_addr) \<times> ('c, 'r) client_world) option" where
  "proxy_stage fuel cfg clock enabled reader default_peer peer local_addr w =
     (if \<not> enabled then Some (Inr (reader, peer, local_addr), w)
      else case parse_proxy_protocol fuel reader default_peer of
          None \<Rightarrow> None
        | Some (Inl e, _) \<Rightarrow>
            Some (Inl e, w\<lparr>wo_stats := increment_connects_bad (wo_stats w),
              wo_store := record_beobachten_class (cl_mask cfg) (sa_ip default_peer) ''other'' (ck_cache clock) (wo_store w)\<rparr>)
        | Some (Inr info, reader) \<Rightarrow>
            Some (Inr (reader, normalize_ip (ppi_src_addr info),
              (case ppi_dst_addr info of Some dst \<Rightarrow> dst | None \<Rightarrow> local_addr)), w))"

definition do_handshake :: "('c, 'r) client_env \<Rightarrow> nat \<Rightarrow> client_config \<Rightarrow> hs_clock \<Rightarrow> bool \<Rightarrow> source \<Rightarrow> sink \<Rightarrow> socket_addr \<Rightarrow> socket_addr \<Rightarrow>
    ('c, 'r) client_world \<Rightarrow> ((proxy_error + handshake_outcome) \<times> ('c, 'r) client_world) option" where
  "do_handshake E fuel cfg clock proxy_protocol_enabled reader writer peer local_addr w =
     (case proxy_stage fuel cfg clock proxy_protocol_enabled reader peer peer local_addr w of
        None \<Rightarrow> None
      | Some (Inl e, w) \<Rightarrow> Some (Inl e, w)
      | Some (Inr (reader, peer, local_addr), w) \<Rightarrow> client_handshake E fuel cfg clock reader writer peer local_addr w)"

text \<open>The handlers return the error of the handshake, or what is left to do after it. When the timeout cuts the handshake
  off, \<open>interrupted\<close> is the shared state it leaves behind.\<close>

definition after_handshake :: "client_config \<Rightarrow> hs_clock \<Rightarrow> ip_addr \<Rightarrow> ('c, 'r) client_world \<Rightarrow>
    ((proxy_error + handshake_outcome) \<times> ('c, 'r) client_world) option \<Rightarrow>
    (proxy_error + handshake_outcome) \<times> ('c, 'r) client_world" where
  "after_handshake cfg clock peer_for_timeout interrupted res =
     (case res of
        Some (Inr out, w) \<Rightarrow> (Inr out, w)
      | Some (Inl e, w) \<Rightarrow>
          (Inl e, w\<lparr>wo_store := record_beobachten_class (cl_mask cfg) peer_for_timeout (handshake_failure_class e) (ck_cache clock) (wo_store w)\<rparr>)
      | None \<Rightarrow>
          (Inl TgHandshakeTimeout, interrupted\<lparr>wo_stats := increment_handshake_timeouts (wo_stats interrupted),
             wo_store := record_beobachten_class (cl_mask cfg) peer_for_timeout ''other'' (ck_cache clock) (wo_store interrupted)\<rparr>))"

text \<open>\<open>RunningClientHandler::run\<close>, for TCP.\<close>

definition client_run :: "('c, 'r) client_env \<Rightarrow> nat \<Rightarrow> client_config \<Rightarrow> hs_clock \<Rightarrow> bool \<Rightarrow> source \<Rightarrow> sink \<Rightarrow> socket_addr \<Rightarrow> socket_addr \<Rightarrow>
    ('c, 'r) client_world \<Rightarrow> ('c, 'r) client_world \<Rightarrow> (proxy_error + handshake_outcome) \<times> ('c, 'r) client_world" where
  "client_run E fuel cfg clock proxy_protocol_enabled reader writer peer local_addr interrupted w =
     (let w = w\<lparr>wo_stats := increment_connects_all (wo_stats w)\<rparr>; peer = normalize_ip peer in
      after_handshake cfg clock (sa_ip peer) interrupted
        (do_handshake E fuel cfg clock proxy_protocol_enabled reader writer peer local_addr w))"

text \<open>\<open>handle_client_stream\<close>, for other streams: the PROXY header is read before the timeout starts, so its result is an
  option.\<close>

definition handle_client_stream :: "('c, 'r) client_env \<Rightarrow> nat \<Rightarrow> client_config \<Rightarrow> hs_clock \<Rightarrow> bool \<Rightarrow> source \<Rightarrow> sink \<Rightarrow> socket_addr \<Rightarrow>
    ('c, 'r) client_world \<Rightarrow> ('c, 'r) client_world \<Rightarrow> ((proxy_error + handshake_outcome) \<times> ('c, 'r) client_world) option" where
  "handle_client_stream E fuel cfg clock proxy_protocol_enabled reader writer peer interrupted w =
     (let w = w\<lparr>wo_stats := increment_connects_all (wo_stats w)\<rparr>; real_peer = normalize_ip peer;
          local_addr = SocketAddr (IpV4 0) (cl_server_port cfg)
      in case proxy_stage fuel cfg clock proxy_protocol_enabled reader peer real_peer local_addr w of
           None \<Rightarrow> None
         | Some (Inl e, w) \<Rightarrow> Some (Inl e, w)
         | Some (Inr (reader, real_peer, local_addr), w) \<Rightarrow>
             Some (after_handshake cfg clock (sa_ip real_peer) interrupted
               (client_handshake E fuel cfg clock reader writer real_peer local_addr w)))"

subsection \<open>Clients that are not authenticated\<close>

lemma relay_inv_shift: "relay_inv (up @ h @ i) sent down replies r \<Longrightarrow> relay_inv (up @ h) (i @ sent) down replies r"
proof -
  have "copied (up @ h @ i) sent fin src dst \<Longrightarrow> copied (up @ h) (i @ sent) fin src dst" for fin src dst by (auto simp: copied_def)
  then show "relay_inv (up @ h @ i) sent down replies r \<Longrightarrow> ?thesis" by (simp add: relay_inv_def)
qed

text \<open>What a rejected client can observe: with its stream \<open>sent\<close>, every outcome of masking passes the stream on from its first
  byte, and the client's side has been written nothing but what the mask host said.\<close>

definition masked_like_host :: "('c, 'r) client_env \<Rightarrow> client_config \<Rightarrow> socket_addr \<Rightarrow> socket_addr \<Rightarrow> bytes \<Rightarrow> sink \<Rightarrow> mask_outcome \<Rightarrow> bool" where
  "masked_like_host E cfg peer local_addr sent writer out =
     (case out of
        MaskConsumed u writer' \<Rightarrow> writer' = writer
      | MaskAborted \<Rightarrow> True
      | MaskRelaying r0 \<Rightarrow> (\<forall>r. mask_reaches r0 r \<longrightarrow>
          (\<exists>mask_read mask_write. ce_connect E (mask_target_of (cl_mask cfg) (ce_overrides E)) = Some (mask_read, mask_write) \<and>
             relay_inv (sk_written mask_write @ mask_header (cl_mask cfg) peer local_addr) sent (sk_written writer) (source_bytes mask_read) r)))"

lemma handle_bad_client_masks:
  assumes "handle_bad_client (ce_connect E) fuel reader writer initial_data peer local_addr (cl_mask cfg) (ce_overrides E) now store = Some (out, store')"
  shows "masked_like_host E cfg peer local_addr (initial_data @ source_bytes reader) writer out"
proof (cases out)
  case (MaskRelaying r0)
  have "\<exists>mask_read mask_write. ce_connect E (mask_target_of (cl_mask cfg) (ce_overrides E)) = Some (mask_read, mask_write) \<and>
      relay_inv (sk_written mask_write @ mask_header (cl_mask cfg) peer local_addr) (initial_data @ source_bytes reader)
        (sk_written writer) (source_bytes mask_read) r" if "mask_reaches r0 r" for r
    using mask_relay_transparent [OF assms [unfolded MaskRelaying] that] relay_inv_shift by metis
  then show ?thesis by (simp add: masked_like_host_def MaskRelaying)
next
  case (MaskConsumed u writer')
  then show ?thesis
    using assms by (auto simp: masked_like_host_def handle_bad_client_def relay_to_mask_def Let_def split: if_splits option.splits sum.splits)
qed (simp add: masked_like_host_def)

lemma reject_client_masks:
  assumes "reject_client E fuel cfg clock reader writer initial_data peer local_addr w = Some (res, w')"
  shows "\<exists>out. res = Inr (Masked out) \<and> masked_like_host E cfg peer local_addr (initial_data @ source_bytes reader) writer out \<and>
    wo_stats w' = increment_connects_bad (wo_stats w) \<and> wo_shared w' = wo_shared w"
  using assms handle_bad_client_masks [of E fuel reader writer initial_data peer local_addr cfg]
  by (auto simp: reject_client_def split: option.splits)

subsection \<open>Who is served\<close>

text \<open>The session of a served client: the handshake was not a replay, and the session belongs to the first configured user whose
  secret opens it with an enabled protocol.\<close>

definition session_authentic :: "('c, 'r) client_env \<Rightarrow> client_config \<Rightarrow> hs_clock \<Rightarrow> 'c replay_checker \<Rightarrow> bool \<Rightarrow> bytes \<Rightarrow> socket_addr \<Rightarrow>
    handshake_success \<Rightarrow> bool" where
  "session_authentic E cfg clock rc is_tls h peer s \<longleftrightarrow>
     length h = HANDSHAKE_LEN \<and>
     \<not> fst (check_and_add_handshake (en_lru (ce_hs E)) (en_hash (ce_hs E)) (subslice h 8 56) (ck_instant clock) rc) \<and>
     (\<exists>pre hex post secret. cfg_users (cl_handshake cfg) = pre @ (hs_user s, hex) # post \<and>
        (\<forall>us \<in> set pre. accepts (en_crypto (ce_hs E)) (cfg_modes (cl_handshake cfg)) is_tls h us = None) \<and>
        hc_hex_decode (en_crypto (ce_hs E)) hex = Some secret \<and>
        opens (hc_sha256 (en_crypto (ce_hs E))) (hc_keystream (en_crypto (ce_hs E))) h secret = Some (hs_proto_tag s) \<and>
        mode_ok (cfg_modes (cl_handshake cfg)) is_tls (hs_proto_tag s)) \<and>
     hs_peer s = peer \<and> hs_is_tls s = is_tls"

lemma handle_direct_client_sound:
  assumes "handle_direct_client E fuel cfg clock first reader writer peer local_addr w = Some (res, w')"
    and "source_wf reader" "length first = 5" "\<not> is_tls_handshake (take 3 first)"
  shows "case res of
      Inr (Masked out) \<Rightarrow> masked_like_host E cfg peer local_addr (first @ source_bytes reader) writer out \<and>
        wo_stats w' = increment_connects_bad (wo_stats w)
    | Inr (RelayPlain cr cw s) \<Rightarrow> (\<exists>h. first @ source_bytes reader = h @ source_bytes (cr_upstream cr) \<and> \<not> is_tls_handshake (take 3 h) \<and>
        session_authentic E cfg clock (sh_replay (wo_shared w)) False h peer s)
    | Inr _ \<Rightarrow> False
    | Inl e \<Rightarrow> \<exists>x. e = ProxyIo x"
proof (cases "\<not> mode_classic (cfg_modes (cl_handshake cfg)) \<and> \<not> mode_secure (cfg_modes (cl_handshake cfg))")
  case True
  then show ?thesis using assms(1) by (auto simp: handle_direct_client_def dest!: reject_client_masks)
next
  case False
  then obtain x reader1 where x: "read_exact fuel (HANDSHAKE_LEN - 5) reader = Some (x, reader1)"
    using assms(1) by (cases "read_exact fuel (HANDSHAKE_LEN - 5) reader") (auto simp: handle_direct_client_def)
  show ?thesis
  proof (cases x)
    case (Inl e)
    then show ?thesis using assms(1) False x by (auto simp: handle_direct_client_def split: if_splits)
  next
    case (Inr body)
    let ?h = "first @ body"
    have c: "source_bytes reader = body @ source_bytes reader1" "length body = HANDSHAKE_LEN - 5"
      using read_exact_content [OF assms(2) x [unfolded Inr]] by simp_all
    then have len: "length ?h = HANDSHAKE_LEN" using assms(3) by (simp add: HANDSHAKE_LEN_def)
    obtain r rc where r: "handle_mtproto_handshake (en_crypto (ce_hs E)) (en_lru (ce_hs E)) (en_hash (ce_hs E)) ?h reader1 writer peer
        (cl_handshake cfg) (ck_instant clock) False (sh_replay (wo_shared w)) = (r, rc)" by fastforce
    note S = mtproto_handshake_sound [OF r]
    show ?thesis
    proof (cases r)
      case (HsSuccess z)
      obtain cr cw s where z: "z = (cr, cw, s)" by (cases z)
      have "cr_upstream cr = reader1"
        using r HsSuccess z by (auto simp: handle_mtproto_handshake_def crypto_reader_new_def Let_def split: prod.splits bool.splits option.splits)
      moreover have "session_authentic E cfg clock (sh_replay (wo_shared w)) False ?h peer s"
        using S HsSuccess z len by (auto simp: session_authentic_def)
      moreover have "res = Inr (RelayPlain cr cw s)"
        using assms(1) False x Inr r HsSuccess z by (auto simp: handle_direct_client_def Let_def split: if_splits)
      ultimately show ?thesis using c assms(3,4) by (auto intro!: exI [of _ ?h])
    next
      case (HsBadClient r1 w1)
      then show ?thesis
        using assms(1) False x Inr r S c
        by (auto simp: handle_direct_client_def Let_def split: if_splits dest!: reject_client_masks)
    next
      case (HsError e)
      then show ?thesis using S by simp
    qed
  qed
qed

lemma tls_read_exact_content:
  assumes "source_wf u" "tls_read_exact fuel (tls_reader_new u) n = Some (Inr bs, r')"
  shows "tls_payload (tls_records (source_bytes u)) = bs @ tls_content r' \<and> length bs = n"
  using tls_in.read_loop_content [OF tls_reader_new_wf [OF assms(1)], of "[]" n fuel bs r'] assms(2)
  by (simp add: tls_read_exact_def tls_reader_new_content del: read_loop.simps) (simp add: tls_reader_new_def)

text \<open>What a FakeTLS client can get: masking unless its hello is valid, and service only with an authentic session inside the
  application records that follow the hello.\<close>

definition tls_client_ok :: "('c, 'r) client_env \<Rightarrow> client_config \<Rightarrow> hs_clock \<Rightarrow> bytes \<Rightarrow> sink \<Rightarrow> socket_addr \<Rightarrow> socket_addr \<Rightarrow>
    ('c, 'r) client_world \<Rightarrow> ('c, 'r) client_world \<Rightarrow> (proxy_error + handshake_outcome) \<Rightarrow> bool" where
  "tls_client_ok E cfg clock sent writer peer local_addr w w' res =
     (case res of
        Inr (Masked out) \<Rightarrow> masked_like_host E cfg peer local_addr sent writer out \<and> wo_stats w' = increment_connects_bad (wo_stats w)
      | Inr (RelayTls cr cw s) \<Rightarrow> (\<exists>hello rest h rc. sent = hello @ rest \<and>
          hello_valid (ce_hs E) (cl_tls cfg) clock (sh_replay (wo_shared w)) hello \<and>
          tls_payload (tls_records rest) = h @ tls_content (cr_upstream cr) \<and> session_authentic E cfg clock rc True h peer s)
      | Inr Handled \<Rightarrow> (\<exists>hello rest. sent = hello @ rest \<and>
          hello_valid (ce_hs E) (cl_tls cfg) clock (sh_replay (wo_shared w)) hello) \<and> wo_stats w' = increment_connects_bad (wo_stats w)
      | Inr (RelayPlain _ _ _) \<Rightarrow> False
      | Inl e \<Rightarrow> \<exists>x. e = ProxyIo x)"

lemma tls_client_session:
  assumes "handle_mtproto_handshake (en_crypto (ce_hs E)) (en_lru (ce_hs E)) (en_hash (ce_hs E)) h tr tw peer
      (cl_handshake cfg) (ck_instant clock) True rc = (HsSuccess (cr, cw, s), rc')"
    and "length h = HANDSHAKE_LEN"
  shows "session_authentic E cfg clock rc True h peer s \<and> cr_upstream cr = tr"
  using mtproto_handshake_sound [OF assms(1)] assms
  by (auto simp: session_authentic_def handle_mtproto_handshake_def crypto_reader_new_def Let_def split: prod.splits bool.splits option.splits)

lemma handle_tls_client_sound:
  assumes "handle_tls_client E fuel cfg clock first reader writer peer local_addr w = Some (res, w')"
    and "source_wf reader" "hmac_ok (en_hmac (ce_hs E))" "distinct (map fst (tc_users (cl_tls cfg)))"
  shows "tls_client_ok E cfg clock (first @ source_bytes reader) writer peer local_addr w w' res"
proof -
  let ?n = "unat (u16_from_be_bytes [first ! 3, first ! 4])"
  note D = handle_tls_client_def Let_def
  show ?thesis
  proof (cases "?n < 512")
    case True
    then show ?thesis using assms(1) by (auto simp: D tls_client_ok_def dest!: reject_client_masks)
  next
    case big: False
    then obtain x reader1 where x: "read_exact fuel ?n reader = Some (x, reader1)"
      using assms(1) by (cases "read_exact fuel ?n reader") (auto simp: D)
    show ?thesis
    proof (cases x)
      case (Inl e)
      then show ?thesis using assms(1) big x by (auto simp: D tls_client_ok_def)
    next
      case (Inr body)
      have c: "source_bytes reader = body @ source_bytes reader1" "source_wf reader1"
        using read_exact_content [OF assms(2) x [unfolded Inr]] by simp_all
      obtain r g where r: "handle_tls_handshake (ce_hs E) fuel (first @ body) reader1 writer peer (cl_tls cfg) clock (wo_shared w) = Some (r, g)"
        using assms(1) big x Inr by (auto simp: D split: option.splits)
      note S = tls_handshake_sound [OF assms(3,4) r]
      note run = assms(1) [unfolded D] big x Inr r
      show ?thesis
      proof (cases r)
        case (HsError e)
        then show ?thesis using run S by (auto simp: tls_client_ok_def)
      next
        case (HsBadClient r1 w1)
        then show ?thesis using run S c by (auto simp: tls_client_ok_def dest!: reject_client_masks)
      next
        case (HsSuccess z)
        then obtain w1 u where z: "r = HsSuccess (tls_reader_new reader1, w1, u)"
          using S by (cases z) auto
        have valid: "hello_valid (ce_hs E) (cl_tls cfg) clock (sh_replay (wo_shared w)) (first @ body)" using S z by simp
        obtain y tr where y: "tls_read_exact fuel (tls_reader_new reader1) HANDSHAKE_LEN = Some (y, tr)"
          using run z by (auto split: option.splits)
        show ?thesis
        proof (cases y)
          case (Inl e)
          then show ?thesis using run z y by (auto simp: tls_client_ok_def)
        next
          case y': (Inr h)
          note h = tls_read_exact_content [OF c(2) y [unfolded y']]
          obtain q rc where q: "handle_mtproto_handshake (en_crypto (ce_hs E)) (en_lru (ce_hs E)) (en_hash (ce_hs E)) h tr w1 peer
              (cl_handshake cfg) (ck_instant clock) True (sh_replay g) = (q, rc)" by fastforce
          show ?thesis
          proof (cases q)
            case (HsSuccess p)
            obtain cr cw s where p: "p = (cr, cw, s)" by (cases p)
            have "res = Inr (RelayTls cr cw s)" using run z y y' h q HsSuccess p by auto
            moreover have "first @ source_bytes reader = (first @ body) @ source_bytes reader1" using c by simp
            then have "\<exists>hello rest h rc. first @ source_bytes reader = hello @ rest \<and>
                hello_valid (ce_hs E) (cl_tls cfg) clock (sh_replay (wo_shared w)) hello \<and>
                tls_payload (tls_records rest) = h @ tls_content (cr_upstream cr) \<and> session_authentic E cfg clock rc True h peer s"
              using tls_client_session [OF q [unfolded HsSuccess p]] h valid by metis
            ultimately show ?thesis by (simp add: tls_client_ok_def)
          next
            case (HsBadClient r2 w2)
            then have "res = Inr Handled" "wo_stats w' = increment_connects_bad (wo_stats w)" using run z y y' h q by auto
            moreover have "first @ source_bytes reader = (first @ body) @ source_bytes reader1" using c by simp
            ultimately show ?thesis using valid unfolding tls_client_ok_def by (simp, metis append.assoc)
          next
            case (HsError e)
            then show ?thesis using mtproto_handshake_sound [OF q] by simp
          qed
        qed
      qed
    qed
  qed
qed


subsection \<open>Clients with a secret are served\<close>

lemma tls_read_exact_clean:
  assumes "source_wf u" "no_alert (tls_records (source_bytes u))" "source_meas u < fuel"
    and "tls_payload (tls_records (source_bytes u)) = h @ rest"
  shows "\<exists>r'. tls_read_exact fuel (tls_reader_new u) (length h) = Some (Inr h, r') \<and> tls_clean r' \<and> tls_content r' = rest"
proof -
  let ?r = "tls_reader_new u"
  have cl: "tls_clean ?r" using tls_reader_new_wf [OF assms(1)] assms(2) by (simp add: tls_clean_def tls_reader_records_def tls_reader_new_def)
  have m: "tls_reader_meas ?r < fuel" using assms(3) by (simp add: tls_reader_meas_def tls_reader_new_def)
  have c: "tls_content ?r = h @ rest" using assms(4) by (simp add: tls_reader_new_content)
  obtain xs r' where xs: "read_loop tls_poll_read fuel (length h) [] ?r = Some (Inr xs, r')"
    using tls_full.read_loop_succeeds [OF cl m, of "[]" "length h"] c by auto
  have rc: "[] @ tls_content ?r = xs @ tls_content r' \<and> length xs = length h \<and> tls_clean r'"
    by (rule tls_full.read_loop_content [OF cl _ xs]) simp
  then have "xs = h" "tls_content r' = rest" using c by auto
  with xs rc show ?thesis by (simp add: tls_read_exact_def tls_reader_new_def del: read_loop.simps)
qed

text \<open>The client's side of the MTProto handshake: built with the secret of a configured user from a nonce that carries tag and
  datacenter, the protocol enabled, no earlier user opening it, and fresh.\<close>

definition offers :: "('c, 'r) client_env \<Rightarrow> client_config \<Rightarrow> hs_clock \<Rightarrow> 'c replay_checker \<Rightarrow> bool \<Rightarrow> string \<Rightarrow> bytes \<Rightarrow> proto_tag \<Rightarrow> u16 \<Rightarrow>
    bytes \<Rightarrow> bytes \<Rightarrow> bool" where
  "offers E cfg clock rc is_tls user secret tag dc n h \<longleftrightarrow>
     carries n tag dc \<and> h = client_hello (hc_sha256 (en_crypto (ce_hs E))) (hc_keystream (en_crypto (ce_hs E))) secret n \<and>
     (\<exists>pre hex post. cfg_users (cl_handshake cfg) = pre @ (user, hex) # post \<and> hc_hex_decode (en_crypto (ce_hs E)) hex = Some secret \<and>
        (\<forall>us \<in> set pre. accepts (en_crypto (ce_hs E)) (cfg_modes (cl_handshake cfg)) is_tls h us = None)) \<and>
     mode_ok (cfg_modes (cl_handshake cfg)) is_tls tag \<and>
     \<not> fst (check_and_add_handshake (en_lru (ce_hs E)) (en_hash (ce_hs E)) (subslice n 8 56) (ck_instant clock) rc)"

text \<open>The session a served client obtains: its own data, and the ciphers in step with its own.\<close>

definition session_serves :: "('c, 'r) client_env \<Rightarrow> client_config \<Rightarrow> bool \<Rightarrow> string \<Rightarrow> bytes \<Rightarrow> proto_tag \<Rightarrow> u16 \<Rightarrow> bytes \<Rightarrow> socket_addr \<Rightarrow>
    'rd crypto_reader \<Rightarrow> 'wr crypto_writer \<Rightarrow> handshake_success \<Rightarrow> 'rd \<Rightarrow> 'wr \<Rightarrow> bool" where
  "session_serves E cfg is_tls user secret tag dc n peer cr cw s reader writer \<longleftrightarrow>
     hs_user s = user \<and> hs_proto_tag s = tag \<and> hs_dc_idx s = dc \<and> hs_peer s = peer \<and> hs_is_tls s = is_tls \<and>
     cr = crypto_reader_new reader
       (ctr_after (client_cipher (hc_sha256 (en_crypto (ce_hs E))) (hc_keystream (en_crypto (ce_hs E))) secret n) n) \<and>
     cw = crypto_writer_new writer
       (aes_ctr_new (hc_keystream (en_crypto (ce_hs E))) (hc_sha256 (en_crypto (ce_hs E)) (take 32 (rev (subslice n 8 56)) @ secret))
         (u128_from_be_bytes (drop 32 (rev (subslice n 8 56))))) (cfg_crypto_pending_buffer (cl_handshake cfg))"

lemma offers_served:
  assumes "offers E cfg clock rc is_tls user secret tag dc n h"
  shows "\<exists>cr cw s rc'. handle_mtproto_handshake (en_crypto (ce_hs E)) (en_lru (ce_hs E)) (en_hash (ce_hs E)) h reader writer peer
      (cl_handshake cfg) (ck_instant clock) is_tls rc = (HsSuccess (cr, cw, s), rc') \<and>
    session_serves E cfg is_tls user secret tag dc n peer cr cw s reader writer"
proof -
  obtain pre hex post where u: "cfg_users (cl_handshake cfg) = pre @ (user, hex) # post" "hc_hex_decode (en_crypto (ce_hs E)) hex = Some secret"
      "\<forall>us \<in> set pre. accepts (en_crypto (ce_hs E)) (cfg_modes (cl_handshake cfg)) is_tls h us = None"
    using assms unfolding offers_def by blast
  obtain rc' where f: "check_and_add_handshake (en_lru (ce_hs E)) (en_hash (ce_hs E)) (subslice n 8 56) (ck_instant clock) rc = (False, rc')"
    using assms unfolding offers_def by (metis (full_types) prod.collapse)
  have "carries n tag dc" "h = client_hello (hc_sha256 (en_crypto (ce_hs E))) (hc_keystream (en_crypto (ce_hs E))) secret n"
      "mode_ok (cfg_modes (cl_handshake cfg)) is_tls tag" using assms by (simp_all add: offers_def)
  from mtproto_handshake_complete [OF this(1,2) u this(3) f, of reader writer peer]
  show ?thesis unfolding session_serves_def by blast
qed

lemma offers_length: "offers E cfg clock rc is_tls user secret tag dc n h \<Longrightarrow> length h = HANDSHAKE_LEN"
  by (auto simp: offers_def carries_def HANDSHAKE_LEN_def hello_material(2))

text \<open>C2: A client that knows a secret is served over FakeTLS, end to end. When its stream starts with a hello record of at least
  512 bytes, signed with the secret of a configured user at an acceptable time and fresh, and goes on with application records
  that carry an MTProto handshake built with the secret of a configured user, in any sizes and however the bytes arrive,
  then on a live socket the handler ends with exactly the signed answer written and a session for that user, with its tag and
  datacenter; reading the session gives the decryption of the rest of the records with the client's own cipher.\<close>

theorem client_tls_served:
  assumes "hmac_ok (en_hmac (ce_hs E))" "std_rng_ok (en_rng (ce_hs E))" "distinct (map fst (tc_users (cl_tls cfg)))"
    "caches_wf (sh_cache (wo_shared w))" "source_wf reader" "source_bytes reader = hello @ rest" "source_meas reader < fuel0"
    and "is_tls_handshake (take 3 hello)" "length hello = 5 + unat (u16_from_be_bytes [hello ! 3, hello ! 4])" "517 \<le> length hello"
    and "hello_valid (ce_hs E) (cl_tls cfg) clock (sh_replay (wo_shared w)) hello"
    and "no_alert (tls_records rest)" "tls_payload (tls_records rest) = h @ data"
    and "offers E cfg clock (snd (check_and_add_tls_digest (en_lru (ce_hs E)) (en_hash (ce_hs E)) (subslice hello 11 27)
      (ck_instant clock) (sh_replay (wo_shared w)))) True user secret tag dc n h"
  shows "\<exists>u hex tls_secret resp. (u, hex) \<in> set (tc_users (cl_tls cfg)) \<and> hc_hex_decode (en_crypto (ce_hs E)) hex = Some tls_secret \<and>
    answer_signed (en_hmac (ce_hs E)) tls_secret (subslice hello 11 43) resp \<and>
    (\<forall>writer fuel. fuel0 \<le> fuel \<and> sink_live writer \<and> length resp < ok_count writer \<and> length (sk_script writer) + length resp < fuel \<longrightarrow>
      (\<exists>cr cw s tr writer' w'. client_handshake E fuel cfg clock reader writer peer local_addr w = Some (Inr (RelayTls cr cw s), w') \<and>
         sk_written writer' = sk_written writer @ resp \<and> tls_clean tr \<and> tls_content tr = data \<and>
         session_serves E cfg True user secret tag dc n peer cr cw s tr (tls_writer_new writer')))"
proof -
  let ?g = "wo_shared w" and ?L = "en_lru (ce_hs E)" and ?H = "en_hash (ce_hs E)"
  let ?chk = "check_and_add_tls_digest ?L ?H (subslice hello 11 27) (ck_instant clock) (sh_replay ?g)"
  obtain v where v: "validate_tls_handshake (en_hmac (ce_hs E)) hello (decode_secrets (en_crypto (ce_hs E)) (tc_users (cl_tls cfg)))
      (tc_ignore_time_skew (cl_tls cfg)) (ck_unix clock) = Some v" and nr: "\<not> fst ?chk"
    using assms(11) unfolding hello_valid_iff [OF assms(1)] by blast
  have chk: "?chk = (False, snd ?chk)" using nr by (metis (full_types) prod.collapse)
  obtain hex tls_secret resp g' where A: "(tv_user v, hex) \<in> set (tc_users (cl_tls cfg))"
      "hc_hex_decode (en_crypto (ce_hs E)) hex = Some tls_secret" "sh_replay g' = snd ?chk"
      "answer_signed (en_hmac (ce_hs E)) tls_secret (subslice hello 11 43) resp"
      "\<And>reader writer fuel. sink_live writer \<and> length resp < ok_count writer \<and> length (sk_script writer) + length resp < fuel \<Longrightarrow>
        \<exists>w'. handle_tls_handshake (ce_hs E) fuel hello reader writer peer (cl_tls cfg) clock ?g =
           Some (HsSuccess (tls_reader_new reader, tls_writer_new w', tv_user v), g') \<and> sk_written w' = sk_written writer @ resp"
    using tls_handshake_answers [OF assms(1-4) chk v, of peer] by blast
  have "\<exists>cr cw s tr writer' w'. client_handshake E fuel cfg clock reader writer peer local_addr w = Some (Inr (RelayTls cr cw s), w') \<and>
         sk_written writer' = sk_written writer @ resp \<and> tls_clean tr \<and> tls_content tr = data \<and>
         session_serves E cfg True user secret tag dc n peer cr cw s tr (tls_writer_new writer')"
    if l: "fuel0 \<le> fuel" "sink_live writer" "length resp < ok_count writer" "length (sk_script writer) + length resp < fuel" for writer fuel
  proof -
    let ?n = "unat (u16_from_be_bytes [hello ! 3, hello ! 4])"
    have m: "source_meas reader < fuel" using assms(7) l(1) by simp
    obtain reader1 where r1: "read_exact fuel 5 reader = Some (Inr (take 5 hello), reader1)" "source_wf reader1"
        "source_bytes reader1 = drop 5 hello @ rest" "source_meas reader1 \<le> source_meas reader"
      using read_exact_ok [OF assms(5) _ m, of 5] assms(6,10) by (auto simp: drop_append)
    obtain reader2 where r2: "read_exact fuel ?n reader1 = Some (Inr (drop 5 hello), reader2)" "source_wf reader2"
        "source_bytes reader2 = rest" "source_meas reader2 \<le> source_meas reader1"
      using read_exact_ok [OF r1(2), of ?n fuel] r1(3,4) m assms(9) by auto
    obtain writer' where w': "handle_tls_handshake (ce_hs E) fuel hello reader2 writer peer (cl_tls cfg) clock ?g =
           Some (HsSuccess (tls_reader_new reader2, tls_writer_new writer', tv_user v), g')" "sk_written writer' = sk_written writer @ resp"
      using A(5) l(2-4) by blast
    have "source_meas reader2 < fuel" using m r1(4) r2(4) by simp
    from tls_read_exact_clean [OF r2(2) _ this, of h data] obtain tr where
        tr: "tls_read_exact fuel (tls_reader_new reader2) HANDSHAKE_LEN = Some (Inr h, tr)" "tls_clean tr" "tls_content tr = data"
      using assms(12,13) r2(3) offers_length [OF assms(14)] by auto
    obtain cr cw s rc' where q: "handle_mtproto_handshake (en_crypto (ce_hs E)) ?L ?H h tr (tls_writer_new writer') peer
        (cl_handshake cfg) (ck_instant clock) True (sh_replay g') = (HsSuccess (cr, cw, s), rc')"
        "session_serves E cfg True user secret tag dc n peer cr cw s tr (tls_writer_new writer')"
      using offers_served [OF assms(14), of tr "tls_writer_new writer'" peer] A(3) by auto
    have "take 5 hello ! 3 = hello ! 3" "take 5 hello ! 4 = hello ! 4" "take 5 hello @ drop 5 hello = hello" "take 3 (take 5 hello) = take 3 hello"
      by simp_all
    then have "client_handshake E fuel cfg clock reader writer peer local_addr w =
        Some (Inr (RelayTls cr cw s), w\<lparr>wo_shared := g'\<lparr>sh_replay := rc'\<rparr>\<rparr>)"
      using r1(1) r2(1) w'(1) tr(1) q(1) assms(8-10) offers_length [OF assms(14)]
      by (simp add: client_handshake_def handle_tls_client_def Let_def)
    with w'(2) tr(2,3) q(2) show ?thesis by blast
  qed
  with A show ?thesis by blast
qed

text \<open>C15: A client that knows a secret is served over plain obfuscation, end to end, when the operator enabled classic or secure
  mode: a stream that starts with a fresh handshake built with the secret of a configured user (and not like a TLS record)
  ends in a session for that user with nothing written to the client, whose reader goes on with exactly the bytes after the
  handshake and the client's cipher.\<close>

theorem client_plain_served:
  assumes "source_wf reader" "source_bytes reader = h @ data" "source_meas reader < fuel"
    and "mode_classic (cfg_modes (cl_handshake cfg)) \<or> mode_secure (cfg_modes (cl_handshake cfg))" "\<not> is_tls_handshake (take 3 h)"
    and "offers E cfg clock (sh_replay (wo_shared w)) False user secret tag dc n h"
  shows "\<exists>cr cw s tr w'. client_handshake E fuel cfg clock reader writer peer local_addr w = Some (Inr (RelayPlain cr cw s), w') \<and>
    wo_stats w' = wo_stats w \<and> wo_store w' = wo_store w \<and> source_wf tr \<and> source_bytes tr = data \<and>
    session_serves E cfg False user secret tag dc n peer cr cw s tr writer"
proof -
  have len: "length h = 64" using offers_length [OF assms(6)] by (simp add: HANDSHAKE_LEN_def)
  obtain reader1 where r1: "read_exact fuel 5 reader = Some (Inr (take 5 h), reader1)" "source_wf reader1"
      "source_bytes reader1 = drop 5 h @ data" "source_meas reader1 \<le> source_meas reader"
    using read_exact_ok [OF assms(1) _ assms(3), of 5] assms(2) len by (auto simp: drop_append)
  obtain tr where r2: "read_exact fuel 59 reader1 = Some (Inr (drop 5 h), tr)" "source_wf tr" "source_bytes tr = data"
    using read_exact_ok [OF r1(2), of 59 fuel] r1(3,4) assms(3) len by auto
  obtain cr cw s rc' where q: "handle_mtproto_handshake (en_crypto (ce_hs E)) (en_lru (ce_hs E)) (en_hash (ce_hs E)) h tr writer peer
      (cl_handshake cfg) (ck_instant clock) False (sh_replay (wo_shared w)) = (HsSuccess (cr, cw, s), rc')"
      "session_serves E cfg False user secret tag dc n peer cr cw s tr writer"
    using offers_served [OF assms(6), of tr writer peer] by auto
  have "take 3 (take 5 h) = take 3 h" "take 5 h @ drop 5 h = h" by simp_all
  then have "client_handshake E fuel cfg clock reader writer peer local_addr w =
      Some (Inr (RelayPlain cr cw s), w\<lparr>wo_shared := (wo_shared w)\<lparr>sh_replay := rc'\<rparr>\<rparr>)"
    using r1(1) r2(1) q(1) assms(4,5)
    by (auto simp: client_handshake_def handle_direct_client_def HANDSHAKE_LEN_def Let_def)
  with r2(2,3) q(2) show ?thesis by (intro exI) (auto intro: exI)
qed

subsection \<open>Witnesses\<close>

definition sample_client_env :: "(nat \<times> (bytes \<times> replay_entry) list, unit) client_env" where
  "sample_client_env = \<lparr>ce_hs = sample_env, ce_connect = (\<lambda>t. None), ce_overrides = Map.empty\<rparr>"

definition sample_client_cfg :: client_config where
  "sample_client_cfg = \<lparr>cl_handshake = sample_cfg, cl_tls = sample_tls_cfg,
     cl_mask = \<lparr>mc_beobachten = False, mc_beobachten_minutes = 10, mc_mask = True, mc_mask_unix_sock = None, mc_mask_host = None,
       mc_tls_domain = ascii ''a.b'', mc_mask_port = 443, mc_mask_proxy_protocol = 0\<rparr>, cl_server_port = 443\<rparr>"

definition sample_world :: "(nat \<times> (bytes \<times> replay_entry) list, unit) client_world" where
  "sample_world = \<lparr>wo_shared = sample_shared,
     wo_stats = \<lparr>st_core_enabled = True, st_connects_all = 0, st_connects_bad = 0, st_handshake_timeouts = 0\<rparr>, wo_store = beobachten_new\<rparr>"

definition sample_fake_hello :: bytes where
  "sample_fake_hello = [0x16, 3, 1, 2, 0] @ replicate 512 0"

lemma sample_fake_hello_valid:
  "hello_valid (ce_hs sample_client_env) (cl_tls sample_client_cfg) sample_clock (sh_replay (wo_shared sample_world)) sample_fake_hello"
proof -
  have "hello_signed (en_hmac sample_env) sample_fake_hello [] 0"
    using zero_digest_signed [of sample_fake_hello "[]"] by (simp add: sample_env_def sample_fake_hello_def subslice_def drop_Cons')
  then have "hello_by sample_env sample_tls_cfg sample_clock sample_fake_hello ''alice''"
    by (auto simp: hello_by_def sample_tls_cfg_def sample_env_def plain_crypto_def time_ok_def is_boot_time_def sample_clock_def)
  moreover have "sample_fake_hello ! 43 = 0" "length sample_fake_hello = 517" by (simp_all add: sample_fake_hello_def nth_Cons')
  ultimately show ?thesis
    using sample_tls_fresh [of "subslice sample_fake_hello 11 27"]
    by (auto simp: hello_valid_def sample_client_env_def sample_client_cfg_def sample_world_def)
qed

lemma sample_offers:
  assumes "\<not> fst (check_and_add_handshake list_lru (\<lambda>k. 0) (subslice sample_hello 8 56) 100 rc)"
  shows "offers sample_client_env sample_client_cfg sample_clock rc is_tls ''alice'' [] Secure 2 sample_hello sample_hello"
proof -
  have "mode_ok (cfg_modes sample_cfg) is_tls Secure" by (simp add: sample_cfg_def)
  moreover have "\<exists>pre hex post. cfg_users sample_cfg = pre @ (''alice'', hex) # post \<and> hc_hex_decode plain_crypto hex = Some [] \<and>
      (\<forall>us \<in> set pre. accepts plain_crypto (cfg_modes sample_cfg) is_tls sample_hello us = None)"
    by (rule exI [of _ "[]"], rule exI [of _ "''00''"], rule exI [of _ "[]"]) (simp add: sample_cfg_def plain_crypto_def)
  ultimately show ?thesis
    unfolding offers_def using assms sample_carries sample_client_hello
    by (simp add: sample_client_env_def sample_client_cfg_def sample_env_def sample_clock_def)
qed

lemma sample_fresh_after:
  "k' \<noteq> k \<Longrightarrow> \<not> fst (check_and_add_handshake list_lru (\<lambda>k. 0) k' 100 (snd (check_and_add_tls_digest list_lru (\<lambda>k. 0) k 100 sample_rc)))"
  by (simp add: sample_rc_def check_and_add_handshake_def check_and_add_tls_digest_def check_and_add_internal_def replay_checker_new_def
      Let_def case_prod_unfold shard_check_def shard_add_def next_seq_def shard_cleanup_def shard_new_def list_lru_def get_shard_idx_def
      cutoff_def)

theorem client_plain_served_witness:
  "\<exists>cr cw s w'. client_handshake sample_client_env 70 sample_client_cfg sample_clock [RdBytes (sample_hello @ [9])] \<lparr>sk_script = [], sk_written = []\<rparr>
     sample_peer sample_peer sample_world = Some (Inr (RelayPlain cr cw s), w') \<and> hs_user s = ''alice'' \<and> hs_dc_idx s = 2"
proof -
  have l: "length sample_hello = 64" and f: "sample_hello ! 0 = 7"
    by (simp_all add: sample_hello_def proto_tag_to_bytes_def nth_append)
  have "source_wf [RdBytes (sample_hello @ [9])]" "source_bytes [RdBytes (sample_hello @ [9])] = sample_hello @ [9]"
      "source_meas [RdBytes (sample_hello @ [9])] < 70" "\<not> is_tls_handshake (take 3 sample_hello)"
      "mode_classic (cfg_modes (cl_handshake sample_client_cfg)) \<or> mode_secure (cfg_modes (cl_handshake sample_client_cfg))"
    using f by (simp_all add: source_wf_def l is_tls_handshake_def sample_client_cfg_def sample_cfg_def TLS_RECORD_HANDSHAKE_def)
  note C = client_plain_served [OF this(1-3) this(5,4)]
  have "\<not> fst (check_and_add_handshake list_lru (\<lambda>k. 0) (subslice sample_hello 8 56) 100 sample_rc)"
    using sample_fresh [of "subslice sample_hello 8 56"] by auto
  note o = sample_offers [OF this, of False]
  have w: "sh_replay (wo_shared sample_world) = sample_rc" by (simp add: sample_world_def sample_shared_def)
  show ?thesis using C [of sample_client_env sample_clock sample_world, OF o [folded w]] unfolding session_serves_def by blast
qed

theorem client_tls_served_witness:
  "\<exists>writer fuel cr cw s w'. client_handshake sample_client_env fuel sample_client_cfg sample_clock
     [RdBytes sample_fake_hello, RdPending, RdBytes (build_record sample_hello)] writer sample_peer sample_peer sample_world =
       Some (Inr (RelayTls cr cw s), w') \<and> hs_user s = ''alice'' \<and> hs_dc_idx s = 2 \<and> hs_is_tls s"
proof -
  let ?u = "[RdBytes sample_fake_hello, RdPending, RdBytes (build_record sample_hello)]"
  have l: "length sample_hello = 64" by (simp add: sample_hello_def proto_tag_to_bytes_def)
  have E: "hmac_ok (en_hmac (ce_hs sample_client_env))" "std_rng_ok (en_rng (ce_hs sample_client_env))"
      "distinct (map fst (tc_users (cl_tls sample_client_cfg)))" "caches_wf (sh_cache (wo_shared sample_world))"
    using sample_env_ok by (simp_all add: sample_client_env_def sample_client_cfg_def sample_world_def)
  have u: "source_wf ?u" "source_bytes ?u = sample_fake_hello @ build_record sample_hello"
    using l by (auto simp: source_wf_def sample_fake_hello_def build_record_def)
  have h: "is_tls_handshake (take 3 sample_fake_hello)"
      "length sample_fake_hello = 5 + unat (u16_from_be_bytes [sample_fake_hello ! 3, sample_fake_hello ! 4])" "517 \<le> length sample_fake_hello"
    by (simp_all add: is_tls_handshake_def sample_fake_hello_def TLS_RECORD_HANDSHAKE_def u16_from_be_bytes_def from_be_def)
  have r: "tls_records (build_record sample_hello) = [(TLS_RECORD_APPLICATION, sample_hello)]"
    using tls_records_build [of sample_hello "[]"] l by (simp add: MAX_TLS_PAYLOAD_def tls_records_short)
  then have a: "no_alert (tls_records (build_record sample_hello))" "tls_payload (tls_records (build_record sample_hello)) = sample_hello @ []"
    using tls_payload_chunks [of "[sample_hello]" "[]"] by (simp_all add: no_alert_def record_types_distinct [symmetric])
  have "length (subslice sample_hello 8 56) = 48" "length (subslice sample_fake_hello 11 27) = 16"
    using h(3) l by (simp_all add: length_subslice)
  then have "subslice sample_hello 8 56 \<noteq> subslice sample_fake_hello 11 27" by auto
  note o = sample_offers [OF sample_fresh_after [OF this], of True]
  have w: "snd (check_and_add_tls_digest (en_lru (ce_hs sample_client_env)) (en_hash (ce_hs sample_client_env))
      (subslice sample_fake_hello 11 27) (ck_instant sample_clock) (sh_replay (wo_shared sample_world))) =
      snd (check_and_add_tls_digest list_lru (\<lambda>k. 0) (subslice sample_fake_hello 11 27) 100 sample_rc)"
    by (simp add: sample_world_def sample_shared_def sample_client_env_def sample_env_def sample_clock_def)
  from client_tls_served [OF E u lessI h sample_fake_hello_valid a o [folded w], of sample_peer sample_peer]
  obtain resp where R: "\<forall>writer fuel. Suc (source_meas ?u) \<le> fuel \<and> sink_live writer \<and> length resp < ok_count writer \<and>
      length (sk_script writer) + length resp < fuel \<longrightarrow>
      (\<exists>cr cw s tr writer' w'. client_handshake sample_client_env fuel sample_client_cfg sample_clock ?u writer sample_peer sample_peer sample_world =
        Some (Inr (RelayTls cr cw s), w') \<and> sk_written writer' = sk_written writer @ resp \<and> tls_clean tr \<and> tls_content tr = [] \<and>
        session_serves sample_client_env sample_client_cfg True ''alice'' [] Secure 2 sample_hello sample_peer cr cw s tr (tls_writer_new writer'))"
    by blast
  let ?w = "\<lparr>sk_script = replicate (length resp + 1) (WrOk 1), sk_written = []\<rparr>"
  have "sink_live ?w" "ok_count ?w = length resp + 1" by (simp_all add: sink_live_def ok_count_def list_all_iff)
  with R [rule_format, of "Suc (source_meas ?u) + 2 * length resp + 2" ?w]
  obtain cr cw s w' where "client_handshake sample_client_env (Suc (source_meas ?u) + 2 * length resp + 2) sample_client_cfg sample_clock ?u ?w
      sample_peer sample_peer sample_world = Some (Inr (RelayTls cr cw s), w')" "hs_user s = ''alice''" "hs_dc_idx s = 2" "hs_is_tls s"
    by (auto simp: session_serves_def)
  then show ?thesis by blast
qed


end
