(* ===== verification/Client_Frames.thy ===== *)
theory Client_Frames
  imports Frame_Codec Raw_Io Registry Rpc_Wire
begin

section \<open>Client frames of the middle relay (\<open>proxy/middle_relay.rs\<close>)\<close>

text \<open>
  The middle relay does not use the buffer codecs: it reads a client's frames field by field from the decrypted stream and
  writes frames of its own. The reader is a function of the stream's poll, so it applies to every stream of the
  stack; the desync report keeps its counters and its table of recent reports as state, with the hash of the
  table's keys as an argument.
\<close>

subsection \<open>Reports of desynchronised streams\<close>

definition DESYNC_DEDUP_WINDOW :: nat where "DESYNC_DEDUP_WINDOW = 60 * 1000"

record desync_state =
  dy_allows_normal :: bool
  dy_secure_padding_invalid :: u64
  dy_desync_total :: u64
  dy_full_logged :: u64
  dy_suppressed :: u64
  dy_bucket_0 :: u64
  dy_bucket_1_2 :: u64
  dy_bucket_3_10 :: u64
  dy_bucket_gt_10 :: u64
  dy_dedup :: "u64 \<rightharpoonup> nat"

definition increment_secure_padding_invalid :: "desync_state \<Rightarrow> desync_state" where
  "increment_secure_padding_invalid y =
     (if dy_allows_normal y then y\<lparr>dy_secure_padding_invalid := dy_secure_padding_invalid y + 1\<rparr> else y)"

definition increment_desync_total :: "desync_state \<Rightarrow> desync_state" where
  "increment_desync_total y = (if dy_allows_normal y then y\<lparr>dy_desync_total := dy_desync_total y + 1\<rparr> else y)"

definition increment_desync_full_logged :: "desync_state \<Rightarrow> desync_state" where
  "increment_desync_full_logged y = (if dy_allows_normal y then y\<lparr>dy_full_logged := dy_full_logged y + 1\<rparr> else y)"

definition increment_desync_suppressed :: "desync_state \<Rightarrow> desync_state" where
  "increment_desync_suppressed y = (if dy_allows_normal y then y\<lparr>dy_suppressed := dy_suppressed y + 1\<rparr> else y)"

definition observe_desync_frames_ok :: "u64 \<Rightarrow> desync_state \<Rightarrow> desync_state" where
  "observe_desync_frames_ok frames_ok y =
     (if \<not> dy_allows_normal y then y
      else if frames_ok = 0 then y\<lparr>dy_bucket_0 := dy_bucket_0 y + 1\<rparr>
      else if frames_ok \<le> 2 then y\<lparr>dy_bucket_1_2 := dy_bucket_1_2 y + 1\<rparr>
      else if frames_ok \<le> 10 then y\<lparr>dy_bucket_3_10 := dy_bucket_3_10 y + 1\<rparr>
      else y\<lparr>dy_bucket_gt_10 := dy_bucket_gt_10 y + 1\<rparr>)"

definition should_emit_full_desync :: "u64 \<Rightarrow> bool \<Rightarrow> nat \<Rightarrow> (u64 \<rightharpoonup> nat) \<Rightarrow> bool \<times> (u64 \<rightharpoonup> nat)" where
  "should_emit_full_desync key all_full now dedup =
     (if all_full then (True, dedup)
      else
        let guard = (\<lambda>k. case dedup k of
              Some seen_at \<Rightarrow> if now - seen_at < DESYNC_DEDUP_WINDOW then Some seen_at else None | None \<Rightarrow> None)
        in case guard key of
             Some seen_at \<Rightarrow>
               if DESYNC_DEDUP_WINDOW \<le> now - seen_at then (True, guard(key \<mapsto> now)) else (False, guard)
           | None \<Rightarrow> (True, guard(key \<mapsto> now)))"

record forensics =
  fo_trace_id :: u64
  fo_conn_id :: u64
  fo_user :: string
  fo_peer :: socket_addr
  fo_peer_hash :: u64
  fo_bytes_c2me :: u64
  fo_desync_all_full :: bool

definition report_desync_frame_too_large :: "(string \<Rightarrow> u64 \<Rightarrow> proto_tag \<Rightarrow> u64) \<Rightarrow> forensics \<Rightarrow> proto_tag \<Rightarrow> u64 \<Rightarrow> nat \<Rightarrow> nat \<Rightarrow> nat \<Rightarrow>
    desync_state \<Rightarrow> proxy_error \<times> desync_state" where
  "report_desync_frame_too_large hash_key state tag frame_counter max_frame len now y =
     (let dedup_key = hash_key (fo_user state) (fo_peer_hash state) tag in
      case should_emit_full_desync dedup_key (fo_desync_all_full state) now (dy_dedup y) of (emit_full, dedup) \<Rightarrow>
        let y = observe_desync_frames_ok frame_counter (increment_desync_total (y\<lparr>dy_dedup := dedup\<rparr>));
            y = (if emit_full then increment_desync_full_logged y else increment_desync_suppressed y)
        in (ProxyMsg (Msg ''Frame too large: {} (max {}), frames_ok={}, conn_id={}, trace_id=0x{:016x}''
              [len, max_frame, unat frame_counter, unat (fo_conn_id state), unat (fo_trace_id state)]), y))"

subsection \<open>Reading\<close>

datatype header_result = HdrEof | HdrErr proxy_error | HdrLen nat bool

text \<open>The end of the stream is clean only in front of a header.\<close>

definition header_error :: "io_error \<Rightarrow> header_result" where
  "header_error e = (if kind e = UnexpectedEof then HdrEof else HdrErr (ProxyIo e))"

definition read_frame_header :: "('s \<Rightarrow> nat \<Rightarrow> bytes io_result poll \<times> 's) \<Rightarrow> nat \<Rightarrow> proto_tag \<Rightarrow> 's \<Rightarrow> (header_result \<times> 's) option" where
  "read_frame_header poll fuel tag s =
     (case tag of
        Abridged \<Rightarrow>
          (case exact_loop poll fuel 1 [] s of
             None \<Rightarrow> None
           | Some (Inl e, s) \<Rightarrow> Some (header_error e, s)
           | Some (Inr first, s) \<Rightarrow>
               (let quickack = (first ! 0 AND 0x80 \<noteq> 0) in
                if first ! 0 AND 0x7f = 0x7f then
                  (case exact_loop poll fuel 3 [] s of
                     None \<Rightarrow> None
                   | Some (Inl e, s) \<Rightarrow> Some (HdrErr (ProxyIo e), s)
                   | Some (Inr ext, s) \<Rightarrow>
                       (case checked_mul (unat (u32_from_le_bytes [ext ! 0, ext ! 1, ext ! 2, 0])) 4 of
                          None \<Rightarrow> Some (HdrErr (ProxyMsg (Msg ''Abridged frame length overflow'' [])), s)
                        | Some len \<Rightarrow> Some (HdrLen len quickack, s)))
                else
                  (case checked_mul (unat (first ! 0 AND 0x7f)) 4 of
                     None \<Rightarrow> Some (HdrErr (ProxyMsg (Msg ''Abridged frame length overflow'' [])), s)
                   | Some len \<Rightarrow> Some (HdrLen len quickack, s))))
      | _ \<Rightarrow>
          (case exact_loop poll fuel 4 [] s of
             None \<Rightarrow> None
           | Some (Inl e, s) \<Rightarrow> Some (header_error e, s)
           | Some (Inr len_buf, s) \<Rightarrow>
               Some (HdrLen (unat (u32_from_le_bytes len_buf AND 0x7fffffff)) (len_buf ! 3 AND 0x80 \<noteq> 0), s)))"

text \<open>The loop skips frames of length zero. Besides the payload it keeps the number of frames read and the reports.\<close>

primrec client_payload_loop :: "('s \<Rightarrow> nat \<Rightarrow> bytes io_result poll \<times> 's) \<Rightarrow> nat \<Rightarrow> (string \<Rightarrow> u64 \<Rightarrow> proto_tag \<Rightarrow> u64) \<Rightarrow> forensics \<Rightarrow>
    proto_tag \<Rightarrow> nat \<Rightarrow> nat \<Rightarrow> nat \<Rightarrow> u64 \<Rightarrow> desync_state \<Rightarrow> 's \<Rightarrow>
    ((proxy_error + (bytes \<times> bool) option) \<times> u64 \<times> desync_state \<times> 's) option" where
  "client_payload_loop poll fuel hash_key state tag max_frame now 0 cnt y s = None"
| "client_payload_loop poll fuel hash_key state tag max_frame now (Suc k) cnt y s =
     (case read_frame_header poll fuel tag s of
        None \<Rightarrow> None
      | Some (HdrEof, s) \<Rightarrow> Some (Inr None, cnt, y, s)
      | Some (HdrErr e, s) \<Rightarrow> Some (Inl e, cnt, y, s)
      | Some (HdrLen len qa, s) \<Rightarrow>
          if len = 0 then client_payload_loop poll fuel hash_key state tag max_frame now k cnt y s
          else if len < 4 \<and> tag \<noteq> Abridged then Some (Inl (ProxyMsg (Msg ''Frame too small: {}'' [len])), cnt, y, s)
          else if max_frame < len then
            (case report_desync_frame_too_large hash_key state tag cnt max_frame len now y of (e, y) \<Rightarrow> Some (Inl e, cnt, y, s))
          else
            (case (if tag = Secure then secure_payload_len_from_wire_len len else Some len) of
               None \<Rightarrow> Some (Inl (ProxyMsg (Msg ''Invalid secure frame length: {}'' [len])), cnt, increment_secure_padding_invalid y, s)
             | Some payload_len \<Rightarrow>
                 (case exact_loop poll fuel len [] s of
                    None \<Rightarrow> None
                  | Some (Inl e, s) \<Rightarrow> Some (Inl (ProxyIo e), cnt, y, s)
                  | Some (Inr payload, s) \<Rightarrow>
                      Some (Inr (Some (if tag = Secure then take payload_len payload else payload, qa)), cnt + 1, y, s))))"

definition read_client_payload :: "('s \<Rightarrow> nat \<Rightarrow> bytes io_result poll \<times> 's) \<Rightarrow> nat \<Rightarrow> (string \<Rightarrow> u64 \<Rightarrow> proto_tag \<Rightarrow> u64) \<Rightarrow> forensics \<Rightarrow>
    proto_tag \<Rightarrow> nat \<Rightarrow> nat \<Rightarrow> u64 \<Rightarrow> desync_state \<Rightarrow> 's \<Rightarrow>
    ((proxy_error + (bytes \<times> bool) option) \<times> u64 \<times> desync_state \<times> 's) option" where
  "read_client_payload poll fuel hash_key state tag max_frame now cnt y s =
     client_payload_loop poll fuel hash_key state tag max_frame now fuel cnt y s"

subsection \<open>Writing\<close>

text \<open>The frame for a payload, or the error; the padding of secure frames is drawn from the generator.\<close>

definition client_frame :: "'r std_rng \<Rightarrow> proto_tag \<Rightarrow> u32 \<Rightarrow> bytes \<Rightarrow> 'r secure_random \<Rightarrow> (proxy_error + bytes) \<times> 'r secure_random" where
  "client_frame R tag flags data rng =
     (let quickack = (flags AND RPC_FLAG_QUICKACK \<noteq> 0) in
      case tag of
        Abridged \<Rightarrow>
          (if \<not> 4 dvd length data then
             (Inl (ProxyMsg (Msg ''Abridged payload must be 4-byte aligned, got {}'' [length data])), rng)
           else
             let len_words = length data div 4 in
             if len_words < 0x7f then
               (let first = (word_of_nat len_words :: byte); first = (if quickack then first OR 0x80 else first)
                in (Inr ([first] @ data), rng))
             else if len_words < 2 ^ 24 then
               (let first = (if quickack then 0x7f OR 0x80 else (0x7f :: byte)); lw = u32_to_le_bytes (word_of_nat len_words)
                in (Inr ([first, lw ! 0, lw ! 1, lw ! 2] @ data), rng))
             else (Inl (ProxyMsg (Msg ''Abridged frame too large: {}'' [length data])), rng))
      | _ \<Rightarrow>
          (if tag = Secure \<and> \<not> is_valid_secure_payload_len (length data) then
             (Inl (ProxyMsg (Msg ''Secure payload must be 4-byte aligned, got {}'' [length data])), rng)
           else
             (case (if tag = Secure then secure_padding_len R (length data) rng else (0, rng)) of (pad_len, rng) \<Rightarrow>
                let len_val = (word_of_nat (length data + pad_len) :: u32);
                    len_val = (if quickack then len_val OR 0x80000000 else len_val);
                    frame_buf = u32_to_le_bytes len_val @ data
                in if pad_len > 0 then (case sr_bytes R rng pad_len of (pad, rng) \<Rightarrow> (Inr (frame_buf @ pad), rng))
                   else (Inr frame_buf, rng))))"

definition write_client_payload :: "('w \<Rightarrow> bytes \<Rightarrow> nat io_result poll \<times> 'w) \<Rightarrow> nat \<Rightarrow> 'r std_rng \<Rightarrow> proto_tag \<Rightarrow> u32 \<Rightarrow> bytes \<Rightarrow>
    'r secure_random \<Rightarrow> 'w \<Rightarrow> ((proxy_error + unit) \<times> 'r secure_random \<times> 'w) option" where
  "write_client_payload poll fuel R tag flags data rng w =
     (case client_frame R tag flags data rng of
        (Inl e, rng) \<Rightarrow> Some (Inl e, rng, w)
      | (Inr frame_buf, rng) \<Rightarrow>
          (case write_loop poll fuel frame_buf w of
             None \<Rightarrow> None
           | Some (Inl e, w) \<Rightarrow> Some (Inl (ProxyIo e), rng, w)
           | Some (Inr _, w) \<Rightarrow> Some (Inr (), rng, w)))"

definition ack_bytes :: "proto_tag \<Rightarrow> u32 \<Rightarrow> bytes" where
  "ack_bytes tag confirm = (if tag = Abridged then u32_to_be_bytes confirm else u32_to_le_bytes confirm)"

definition write_client_ack :: "('w \<Rightarrow> bytes \<Rightarrow> nat io_result poll \<times> 'w) \<Rightarrow> ('w \<Rightarrow> unit io_result poll \<times> 'w) \<Rightarrow> nat \<Rightarrow> proto_tag \<Rightarrow> u32 \<Rightarrow>
    'w \<Rightarrow> ((proxy_error + unit) \<times> 'w) option" where
  "write_client_ack poll flush fuel tag confirm w =
     (case write_loop poll fuel (ack_bytes tag confirm) w of
        None \<Rightarrow> None
      | Some (Inl e, w) \<Rightarrow> Some (Inl (ProxyIo e), w)
      | Some (Inr _, w) \<Rightarrow>
          (case flush_loop flush fuel w of
             None \<Rightarrow> None
           | Some (Inl e, w) \<Rightarrow> Some (Inl (ProxyIo e), w)
           | Some (Inr _, w) \<Rightarrow> Some (Inr (), w)))"


subsection \<open>Reading refines the codec\<close>

text \<open>The header as the buffer shows it: length of the body, QuickACK flag, length of the header.\<close>

definition wire_header :: "proto_tag \<Rightarrow> bytes \<Rightarrow> (nat \<times> bool \<times> nat) option" where
  "wire_header tag bs =
     (case tag of
        Abridged \<Rightarrow>
          (if bs = [] then None
           else if bs ! 0 AND 0x7f \<noteq> 0x7f then Some (unat (bs ! 0 AND 0x7f) * 4, bs ! 0 AND 0x80 \<noteq> 0, 1)
           else if length bs < 4 then None
           else Some (unat (u32_from_le_bytes [bs ! 1, bs ! 2, bs ! 3, 0]) * 4, bs ! 0 AND 0x80 \<noteq> 0, 4))
      | _ \<Rightarrow>
          (if length bs < 4 then None
           else Some (unat (u32_from_le_bytes (take 4 bs) AND 0x7fffffff), bs ! 3 AND 0x80 \<noteq> 0, 4)))"

definition body_len :: "proto_tag \<Rightarrow> nat \<Rightarrow> nat option" where
  "body_len tag len = (if tag = Secure then secure_payload_len_from_wire_len len else Some len)"

lemma take4: "4 \<le> length bs \<Longrightarrow> take 4 bs = [bs ! 0, bs ! 1, bs ! 2, bs ! 3]"
  by (intro nth_equalityI) (auto simp: nth_Cons' numeral_eq_Suc less_Suc_eq)

lemma byte_top_bit: "(b AND 0x80 \<noteq> 0) \<longleftrightarrow> 0x80 \<le> b" for b :: byte
proof -
  have "(b AND 0x80 \<noteq> 0) \<longleftrightarrow> bit b 7" using and_exp_eq_0_iff_not_bit [of b 7] by simp
  also have "\<dots> \<longleftrightarrow> bit (unat b) 7" by (simp add: bit_unsigned_iff)
  also have "\<dots> \<longleftrightarrow> odd (unat b div 2 ^ 7)" by (rule bit_iff_odd)
  also have "\<dots> \<longleftrightarrow> 0x80 \<le> unat b"
  proof -
    have "unat b < 256" using unsigned_less [of b] by simp
    then have "unat b div 128 < 2" by (simp add: less_mult_imp_div_less)
    then show ?thesis by (cases "unat b < 128") (auto simp: div_greater_zero_iff not_less dest: less_2_cases)
  qed
  finally show ?thesis by (simp add: word_le_nat_alt)
qed

lemma mask31: "unat (w AND 0x7fffffff) = unat w mod 2 ^ 31" for w :: u32
proof -
  have "(0x7fffffff :: u32) = mask 31" by (simp add: mask_eq_exp_minus_1)
  then have "w AND 0x7fffffff = take_bit 31 w" by (simp only: take_bit_eq_mask)
  then show ?thesis by (simp only: unsigned_take_bit_eq take_bit_nat_def)
qed

lemma length_word:
  "(d AND 0x80 \<noteq> 0) \<longleftrightarrow> 0x80000000 \<le> unat (u32_from_le_bytes [a, b, c, d])"
  "unat (u32_from_le_bytes bs AND 0x7fffffff) =
     (let n = unat (u32_from_le_bytes bs) in if 0x80000000 \<le> n then n - 0x80000000 else n)"
proof -
  have "unat a < 256" "unat b < 256" "unat c < 256" using unsigned_less [of a] unsigned_less [of b] unsigned_less [of c] by simp_all
  then have "0x80 \<le> unat d \<longleftrightarrow> 0x80000000 \<le> unat (u32_from_le_bytes [a, b, c, d])" by auto
  then show "(d AND 0x80 \<noteq> 0) \<longleftrightarrow> 0x80000000 \<le> unat (u32_from_le_bytes [a, b, c, d])"
    unfolding byte_top_bit by (simp add: word_le_nat_alt)
  have l: "unat (u32_from_le_bytes bs) < 2 ^ 32" using unsigned_less [of "u32_from_le_bytes bs"] by simp
  have "n mod 2 ^ 31 = (if 0x80000000 \<le> n then n - 0x80000000 else n)" if "n < 2 ^ 32" for n :: nat
    using that le_mod_geq [of "2 ^ 31" n] by simp
  then show "unat (u32_from_le_bytes bs AND 0x7fffffff) =
     (let n = unat (u32_from_le_bytes bs) in if 0x80000000 \<le> n then n - 0x80000000 else n)"
    unfolding mask31 Let_def using l by blast
qed

lemma unat_127: "unat b = 127 \<longleftrightarrow> b = 127" for b :: byte
  by (auto simp: word_unat_eq_iff)

lemma length_header:
  "tag \<noteq> Abridged \<Longrightarrow> wire_header tag bs =
     (if length bs < 4 then None
      else let n = unat (u32_from_le_bytes [bs ! 0, bs ! 1, bs ! 2, bs ! 3])
           in Some (if 0x80000000 \<le> n then n - 0x80000000 else n, 0x80000000 \<le> n, 4))"
  using length_word(1) [of "bs ! 3" "bs ! 0" "bs ! 1" "bs ! 2"]
  by (auto simp: wire_header_def take4 length_word(2) Let_def not_less simp del: unat_from_le_bytes split: proto_tag.split)

lemma codec_decode_header:
  "codec_decode \<lparr>fc_proto_tag = tag, fc_max_frame_size = mx\<rparr> bs = (x, rest) \<Longrightarrow>
   (case wire_header tag bs of
      None \<Rightarrow> x = Inr None
    | Some (len, qa, h) \<Rightarrow> 0 < h \<and> h \<le> length bs \<and>
        (if mx < len then \<exists>e. x = Inl e
         else if length bs < h + len then x = Inr None
         else case body_len tag len of
             None \<Rightarrow> \<exists>e. x = Inl e
           | Some n \<Rightarrow> \<exists>g. x = Inr (Some g) \<and> rest = drop (h + len) bs \<and> fr_data g = take n (take len (drop h bs)) \<and> quickack (fr_meta g) = qa))"
proof (cases tag)
  case Abridged
  assume d: "codec_decode \<lparr>fc_proto_tag = tag, fc_max_frame_size = mx\<rparr> bs = (x, rest)"
  show ?thesis
  proof (cases "bs = [] \<or> bs ! 0 AND 0x7f = 0x7f \<and> length bs < 4")
    case True
    then show ?thesis using d Abridged by (cases bs) (auto simp: codec_decode_def decode_abridged_def wire_header_def Let_def unat_127)
  next
    case False
    define lw where "lw = (if bs ! 0 AND 0x7f = 0x7f then unat (u32_from_le_bytes [bs ! 1, bs ! 2, bs ! 3, 0]) else unat (bs ! 0 AND 0x7f))"
    define hl where "hl = (if bs ! 0 AND 0x7f = 0x7f then 4 else 1 :: nat)"
    have "unat (u32_from_le_bytes [bs ! 1, bs ! 2, bs ! 3, 0]) < 2 ^ LENGTH(32)" "unat (bs ! 0 AND 0x7f) < 2 ^ LENGTH(8)"
      by (rule unsigned_less)+
    then have "lw < 2 ^ 32" unfolding lw_def by auto
    then have cm: "checked_mul lw 4 = Some (lw * 4)" by (simp add: checked_mul_def)
    have w: "wire_header tag bs = Some (lw * 4, 0x80 \<le> bs ! 0, hl)"
      using False Abridged by (auto simp: wire_header_def lw_def hl_def byte_top_bit)
    have e: "codec_decode \<lparr>fc_proto_tag = tag, fc_max_frame_size = mx\<rparr> bs =
      (if mx < lw * 4 then (Inl (frame_too_large (lw * 4) mx), bs)
       else if length bs < hl + lw * 4 then (Inr None, bs)
       else (Inr (Some (frame_with_meta (take (lw * 4) (drop hl bs)) (meta_of (0x80 \<le> bs ! 0)))), drop (hl + lw * 4) bs))"
      using False cm Abridged
      by (auto simp: codec_decode_def decode_abridged_def Let_def unat_127 lw_def hl_def meta_of_if)
    show ?thesis
      using d False unfolding e w by (auto simp: Abridged body_len_def frame_with_meta_def hl_def Suc_le_eq split: if_splits)
  qed
next
  case Intermediate
  assume d: "codec_decode \<lparr>fc_proto_tag = tag, fc_max_frame_size = mx\<rparr> bs = (x, rest)"
  show ?thesis
    using d Intermediate length_header [of tag bs]
    by (auto simp: codec_decode_def decode_intermediate_def body_len_def frame_with_meta_def frame_meta_new_def Let_def split: if_splits
        simp del: unat_from_le_bytes)
next
  case Secure
  assume d: "codec_decode \<lparr>fc_proto_tag = tag, fc_max_frame_size = mx\<rparr> bs = (x, rest)"
  show ?thesis
    using d Secure length_header [of tag bs]
    by (auto simp: codec_decode_def decode_secure_def body_len_def frame_with_meta_def frame_meta_new_def Let_def split: if_splits option.splits
        simp del: unat_from_le_bytes)
qed

lemma codec_decode_frame:
  assumes "codec_decode \<lparr>fc_proto_tag = tag, fc_max_frame_size = mx\<rparr> bs = (Inr (Some g), rest)"
  obtains len h n where "wire_header tag bs = Some (len, quickack (fr_meta g), h)" "len \<le> mx" "h + len \<le> length bs" "0 < h"
    "body_len tag len = Some n" "fr_data g = take n (take len (drop h bs))" "rest = drop (h + len) bs"
  using codec_decode_header [OF assms] that by (auto simp: not_less split: option.splits if_splits)

lemma codec_decode_waits:
  assumes "codec_decode \<lparr>fc_proto_tag = tag, fc_max_frame_size = mx\<rparr> bs = (Inr None, rest)"
  obtains "wire_header tag bs = None" | len qa h where "wire_header tag bs = Some (len, qa, h)" "len \<le> mx" "length bs < h + len" "h \<le> length bs"
  using codec_decode_header [OF assms] that by (auto simp: not_less split: option.splits if_splits)

context complete_reader
begin

lemma read_frame_header_some:
  assumes "inv s" "wire_header tag (content s) = Some (len, qa, h)" "meas s < fuel"
  obtains s' where "read_frame_header poll fuel tag s = Some (HdrLen len qa, s')" "inv s'" "content s' = drop h (content s)" "meas s' < meas s"
proof (cases "tag = Abridged")
  case True
  have ne: "1 \<le> length (content s)" using assms(2) True by (cases "content s") (auto simp: wire_header_def)
  obtain s1 where s1: "exact_loop poll fuel 1 [] s = Some (Inr (take 1 (content s)), s1)" "inv s1" "content s1 = drop 1 (content s)" "meas s1 < meas s"
    using exact_ok [OF assms(1) ne assms(3)] by force
  have f: "take 1 (content s) ! 0 = content s ! 0" by simp
  show ?thesis
  proof (cases "content s ! 0 AND 0x7f = 0x7f")
    case long: True
    then have l: "4 \<le> length (content s)" "len = unat (u32_from_le_bytes [content s ! 1, content s ! 2, content s ! 3, 0]) * 4"
        "qa \<longleftrightarrow> content s ! 0 AND 0x80 \<noteq> 0" "h = 4"
      using assms(2) True by (auto simp: wire_header_def split: if_splits)
    have a: "3 \<le> length (content s1)" "meas s1 < fuel" using l(1) s1(3,4) assms(3) by simp_all
    obtain s2 where s2: "exact_loop poll fuel 3 [] s1 = Some (Inr (take 3 (content s1)), s2)" "inv s2" "content s2 = drop 3 (content s1)"
        "meas s2 \<le> meas s1"
      using exact_ok [OF s1(2) a] by blast
    have "take 3 (content s1) ! i = content s ! Suc i" if "i < 3" for i using that s1(3) l(1) by simp
    then have e: "take 3 (content s1) ! 0 = content s ! 1" "take 3 (content s1) ! 1 = content s ! 2" "take 3 (content s1) ! 2 = content s ! 3"
      by (simp_all add: numeral_eq_Suc)
    have "unat (u32_from_le_bytes [content s ! 1, content s ! 2, content s ! 3, 0]) < 2 ^ LENGTH(32)" by (rule unsigned_less)
    then have "checked_mul (unat (u32_from_le_bytes [content s ! 1, content s ! 2, content s ! 3, 0])) 4 = Some len"
      unfolding l(2) checked_mul_def by simp
    then have "read_frame_header poll fuel tag s = Some (HdrLen len qa, s2)"
      unfolding read_frame_header_def using True s1(1) f long s2(1) e l(3) by (simp add: Let_def)
    then show ?thesis by (rule that) (use s2 s1 l(4) in simp_all)
  next
    case False
    then have l: "len = unat (content s ! 0 AND 0x7f) * 4" "qa \<longleftrightarrow> content s ! 0 AND 0x80 \<noteq> 0" "h = 1"
      using assms(2) True by (auto simp: wire_header_def split: if_splits)
    have "unat (content s ! 0 AND 0x7f) < 2 ^ LENGTH(8)" by (rule unsigned_less)
    then have "checked_mul (unat (content s ! 0 AND 0x7f)) 4 = Some len" unfolding l(1) checked_mul_def by simp
    then have "read_frame_header poll fuel tag s = Some (HdrLen len qa, s1)"
      unfolding read_frame_header_def using True s1(1) f False l(2) by (simp add: Let_def)
    then show ?thesis by (rule that) (use s1 l(3) in simp_all)
  qed
next
  case False
  then have l: "4 \<le> length (content s)" "len = unat (u32_from_le_bytes (take 4 (content s)) AND 0x7fffffff)"
      "qa \<longleftrightarrow> content s ! 3 AND 0x80 \<noteq> 0" "h = 4"
    using assms(2) by (auto simp: wire_header_def split: proto_tag.splits if_splits)
  obtain s1 where s1: "exact_loop poll fuel 4 [] s = Some (Inr (take 4 (content s)), s1)" "inv s1" "content s1 = drop 4 (content s)" "meas s1 < meas s"
    using exact_ok [OF assms(1) l(1) assms(3)] by force
  have "read_frame_header poll fuel tag s = Some (HdrLen len qa, s1)"
    unfolding read_frame_header_def using False s1(1) l(2,3) by (simp split: proto_tag.split)
  then show ?thesis by (rule that) (use s1 l(4) in simp_all)
qed

lemma header_error_cases: "header_error e = HdrEof \<or> header_error e = HdrErr (ProxyIo e)"
  by (simp add: header_error_def)

lemma read_frame_header_none:
  assumes "inv s" "wire_header tag (content s) = None" "meas s < fuel"
  obtains x s' where "read_frame_header poll fuel tag s = Some (x, s')" "x = HdrEof \<or> (\<exists>e. x = HdrErr (ProxyIo e))"
proof (cases "content s = [] \<and> tag = Abridged \<or> length (content s) < 4 \<and> tag \<noteq> Abridged")
  case True
  then have "length (content s) < (if tag = Abridged then 1 else 4)" by auto
  from exact_short [OF assms(1) this assms(3)] obtain e s'
    where "exact_loop poll fuel (if tag = Abridged then 1 else 4) [] s = Some (Inl e, s')" by metis
  then show ?thesis using that [of "header_error e" s'] header_error_cases [of e]
    by (auto simp: read_frame_header_def split: proto_tag.splits if_splits)
next
  case False
  then have l: "tag = Abridged" "1 \<le> length (content s)" "content s ! 0 AND 0x7f = 0x7f" "length (content s) < 4"
    using assms(2) by (auto simp: wire_header_def Suc_le_eq split: proto_tag.splits if_splits)
  obtain s1 where s1: "exact_loop poll fuel 1 [] s = Some (Inr (take 1 (content s)), s1)" "inv s1" "content s1 = drop 1 (content s)" "meas s1 \<le> meas s"
    using exact_ok [OF assms(1) l(2) assms(3)] by blast
  have a: "length (content s1) < 3" "meas s1 < fuel" using l(2,4) s1(3,4) assms(3) by auto
  from exact_short [OF s1(2) a] obtain e s2 where "exact_loop poll fuel 3 [] s1 = Some (Inl e, s2)" by metis
  then show ?thesis using that [of "HdrErr (ProxyIo e)" s2] s1(1) l(1,3) by (simp add: read_frame_header_def Let_def)
qed

text \<open>A frame that the codec would decode: the reader returns it, or skips it when it is empty.\<close>

lemma payload_step:
  assumes "inv s" "meas s < fuel" "codec_decode \<lparr>fc_proto_tag = tag, fc_max_frame_size = mx\<rparr> (content s) = (Inr (Some g), rest)"
    and "fr_data g = [] \<or> 4 \<le> length (fr_data g)"
  obtains s' where "inv s'" "content s' = rest" "meas s' < meas s"
    "client_payload_loop poll fuel H Z tag mx now (Suc k) cnt y s =
       (if fr_data g = [] then client_payload_loop poll fuel H Z tag mx now k cnt y s'
        else Some (Inr (Some (fr_data g, quickack (fr_meta g))), cnt + 1, y, s'))"
proof -
  obtain len h n where d: "wire_header tag (content s) = Some (len, quickack (fr_meta g), h)" "len \<le> mx" "h + len \<le> length (content s)"
      "0 < h" "body_len tag len = Some n" "fr_data g = take n (take len (drop h (content s)))" "rest = drop (h + len) (content s)"
    using codec_decode_frame [OF assms(3)] by metis
  obtain s1 where s1: "read_frame_header poll fuel tag s = Some (HdrLen len (quickack (fr_meta g)), s1)" "inv s1"
      "content s1 = drop h (content s)" "meas s1 < meas s"
    using read_frame_header_some [OF assms(1) d(1) assms(2)] by metis
  have n: "tag \<noteq> Secure \<longrightarrow> n = len" "tag = Secure \<longrightarrow> 4 \<le> len \<and> n = len - len mod 4"
    using d(5) by (auto simp: body_len_def secure_payload_len_from_wire_len_def split: if_splits)
  have l: "length (fr_data g) = min n len" using d(3,6) by simp
  have m4: "4 \<le> n" if "tag = Secure" using n(2) that minus_mod_eq_mult_div [of len 4] by (auto simp: div_greater_zero_iff)
  show ?thesis
  proof (cases "len = 0")
    case True
    then show ?thesis using that [of s1] s1 d by simp
  next
    case False
    then have ne: "4 \<le> length (fr_data g)" using assms(4) l n m4 by (cases "tag = Secure") auto
    then have len4: "4 \<le> len" using l by simp
    have a: "len \<le> length (content s1)" "meas s1 < fuel" using d(3) s1(3,4) assms(2) by simp_all
    obtain s2 where s2: "exact_loop poll fuel len [] s1 = Some (Inr (take len (content s1)), s2)" "inv s2" "content s2 = drop len (content s1)"
        "meas s2 \<le> meas s1"
      using exact_ok [OF s1(2) a] by blast
    have "client_payload_loop poll fuel H Z tag mx now (Suc k) cnt y s =
        Some (Inr (Some (fr_data g, quickack (fr_meta g))), cnt + 1, y, s2)"
      using s1(1,3) s2(1) len4 False d(2,5,6) n(1) unfolding body_len_def by auto
    moreover have "content s2 = rest" using s2(3) s1(3) d(7) by (simp add: add.commute)
    ultimately show ?thesis by (intro that [of s2]) (use s2(2,4) s1(4) ne in \<open>auto simp del: client_payload_loop.simps\<close>)
  qed
qed

text \<open>A stream that ends in front of a frame or within one: the reader ends too.\<close>

lemma payload_end:
  assumes "inv s" "meas s < fuel" "codec_decode \<lparr>fc_proto_tag = tag, fc_max_frame_size = mx\<rparr> (content s) = (Inr None, rest)"
  obtains x s' where "client_payload_loop poll fuel H Z tag mx now (Suc k) cnt y s = Some (x, cnt, y, s')" "x = Inr None \<or> (\<exists>e. x = Inl e)"
  using assms(3)
proof (cases rule: codec_decode_waits)
  case 1
  obtain x s' where h: "read_frame_header poll fuel tag s = Some (x, s')" "x = HdrEof \<or> (\<exists>e. x = HdrErr (ProxyIo e))"
    using read_frame_header_none [OF assms(1) 1 assms(2)] by metis
  from h(2) show ?thesis
  proof
    assume "x = HdrEof"
    then show ?thesis using that [of "Inr None" s'] h(1) by simp
  next
    assume "\<exists>e. x = HdrErr (ProxyIo e)"
    then obtain e where "x = HdrErr (ProxyIo e)" by blast
    then show ?thesis using that [of "Inl (ProxyIo e)" s'] h(1) by simp
  qed
next
  case (2 len qa h)
  obtain s1 where s1: "read_frame_header poll fuel tag s = Some (HdrLen len qa, s1)" "inv s1" "content s1 = drop h (content s)" "meas s1 < meas s"
    using read_frame_header_some [OF assms(1) 2(1) assms(2)] by metis
  have a: "length (content s1) < len" "meas s1 < fuel" using s1(3,4) 2(3,4) assms(2) by simp_all
  obtain e s2 where e: "exact_loop poll fuel len [] s1 = Some (Inl e, s2)" using exact_short [OF s1(2) a] by metis
  show ?thesis
  proof (cases "len < 4 \<and> tag \<noteq> Abridged")
    case True
    then show ?thesis using that [of "Inl (ProxyMsg (Msg ''Frame too small: {}'' [len]))" s1] s1(1) a(1) by simp
  next
    case False
    then have "(if tag = Secure then secure_payload_len_from_wire_len len else Some len) \<noteq> None"
      by (auto simp: secure_payload_len_from_wire_len_def)
    then show ?thesis using that [of "Inl (ProxyIo e)" s2] False s1(1) a(1) e 2(2) by auto
  qed
qed

text \<open>So the reader yields the frames that the codec decodes from the whole stream, without the empty ones.\<close>

lemma payload_frames:
  assumes "inv s" "meas s < fuel" "meas s < k"
    and "drain (codec_decode \<lparr>fc_proto_tag = tag, fc_max_frame_size = mx\<rparr>) n (content s) = (gs, rest)"
    and "codec_decode \<lparr>fc_proto_tag = tag, fc_max_frame_size = mx\<rparr> rest = (Inr None, rest')"
    and "\<forall>g \<in> set gs. fr_data g = [] \<or> 4 \<le> length (fr_data g)"
  shows "case filter (\<lambda>g. fr_data g \<noteq> []) gs of
      [] \<Rightarrow> \<exists>x s'. client_payload_loop poll fuel H Z tag mx now k cnt y s = Some (x, cnt, y, s') \<and> (x = Inr None \<or> (\<exists>e. x = Inl e))
    | g # _ \<Rightarrow> \<exists>s' n' gs'. client_payload_loop poll fuel H Z tag mx now k cnt y s =
          Some (Inr (Some (fr_data g, quickack (fr_meta g))), cnt + 1, y, s') \<and> inv s' \<and> meas s' < meas s \<and>
        drain (codec_decode \<lparr>fc_proto_tag = tag, fc_max_frame_size = mx\<rparr>) n' (content s') = (gs', rest) \<and> set gs' \<subseteq> set gs \<and>
        filter (\<lambda>g. fr_data g \<noteq> []) gs = g # filter (\<lambda>g. fr_data g \<noteq> []) gs'"
  using assms
proof (induction gs arbitrary: s k n)
  case Nil
  then have "content s = rest"
    by (cases n) (auto split: prod.splits sum.splits option.splits)
  then have c: "codec_decode \<lparr>fc_proto_tag = tag, fc_max_frame_size = mx\<rparr> (content s) = (Inr None, rest')" using Nil.prems(5) by simp
  obtain k' where k: "k = Suc k'" using Nil.prems(3) by (cases k) auto
  obtain x s' where "client_payload_loop poll fuel H Z tag mx now k cnt y s = Some (x, cnt, y, s')" "x = Inr None \<or> (\<exists>e. x = Inl e)"
    unfolding k using payload_end [OF Nil.prems(1,2) c, of H Z now k' cnt y] by metis
  then show ?case unfolding filter.simps list.case by blast
next
  case (Cons g gs)
  obtain m r where n: "n = Suc m" and c: "codec_decode \<lparr>fc_proto_tag = tag, fc_max_frame_size = mx\<rparr> (content s) = (Inr (Some g), r)"
      and dr: "drain (codec_decode \<lparr>fc_proto_tag = tag, fc_max_frame_size = mx\<rparr>) m r = (gs, rest)"
    using Cons.prems(4) by (cases n) (auto split: prod.splits sum.splits option.splits)
  obtain k' where k: "k = Suc k'" using Cons.prems(3) by (cases k) auto
  obtain s1 where s1: "inv s1" "content s1 = r" "meas s1 < meas s"
      "client_payload_loop poll fuel H Z tag mx now (Suc k') cnt y s =
       (if fr_data g = [] then client_payload_loop poll fuel H Z tag mx now k' cnt y s1
        else Some (Inr (Some (fr_data g, quickack (fr_meta g))), cnt + 1, y, s1))"
    using payload_step [OF Cons.prems(1,2) c, of H Z now k' cnt y] Cons.prems(6) by (metis list.set_intros(1))
  show ?case
  proof (cases "fr_data g = []")
    case False
    then have e: "client_payload_loop poll fuel H Z tag mx now k cnt y s = Some (Inr (Some (fr_data g, quickack (fr_meta g))), cnt + 1, y, s1)"
      unfolding k s1(4) by simp
    show ?thesis using e False s1(1,3) dr [folded s1(2)] by (simp del: client_payload_loop.simps) blast
  next
    case True
    have "drain (codec_decode \<lparr>fc_proto_tag = tag, fc_max_frame_size = mx\<rparr>) m (content s1) = (gs, rest)" using dr s1(2) by simp
    note IH = Cons.IH [OF s1(1) _ _ this Cons.prems(5), of k']
    have "meas s1 < fuel" "meas s1 < k'" "\<forall>g \<in> set gs. fr_data g = [] \<or> 4 \<le> length (fr_data g)"
      using s1(3) Cons.prems(2,3,6) k by auto
    note IH = IH [OF this]
    show ?thesis
    proof (cases "filter (\<lambda>g. fr_data g \<noteq> []) gs")
      case Nil
      then show ?thesis using IH True unfolding k s1(4) by (simp del: client_payload_loop.simps)
    next
      case f: (Cons g' fs)
      obtain s' n' gs' where "client_payload_loop poll fuel H Z tag mx now k' cnt y s1 =
          Some (Inr (Some (fr_data g', quickack (fr_meta g'))), cnt + 1, y, s')" "inv s'" "meas s' < meas s1"
          "drain (codec_decode \<lparr>fc_proto_tag = tag, fc_max_frame_size = mx\<rparr>) n' (content s') = (gs', rest)" "set gs' \<subseteq> set gs"
          "filter (\<lambda>g. fr_data g \<noteq> []) gs = g' # filter (\<lambda>g. fr_data g \<noteq> []) gs'"
        using IH unfolding f list.case by blast
      note r = this
      have e: "client_payload_loop poll fuel H Z tag mx now k cnt y s = Some (Inr (Some (fr_data g', quickack (fr_meta g'))), cnt + 1, y, s')"
        unfolding k s1(4) using True r(1) by simp
      have "meas s' < meas s" "set gs' \<subseteq> set (g # gs)" "filter (\<lambda>g. fr_data g \<noteq> []) (g # gs) = g' # filter (\<lambda>g. fr_data g \<noteq> []) gs'"
        using r(3,5,6) s1(3) True by auto
      then show ?thesis using e r(2,4) by (simp del: client_payload_loop.simps) blast
    qed
  qed
qed

end

text \<open>More fuel does not change a result.\<close>

lemma read_frame_header_mono:
  assumes "read_frame_header poll fuel tag s = Some r" "fuel \<le> fuel'"
  shows "read_frame_header poll fuel' tag s = Some r"
proof -
  have m: "exact_loop poll fuel n [] u = Some x \<Longrightarrow> exact_loop poll fuel' n [] u = Some x" for n u x
    by (rule exact_loop_mono [OF _ assms(2)])
  show ?thesis
    using assms(1) by (auto simp: read_frame_header_def Let_def split: proto_tag.splits option.splits sum.splits if_splits dest!: m)
qed

lemma client_payload_loop_mono:
  "client_payload_loop poll fuel H Z tag mx now k cnt y s = Some r \<Longrightarrow> fuel \<le> fuel' \<Longrightarrow> k \<le> k' \<Longrightarrow>
   client_payload_loop poll fuel' H Z tag mx now k' cnt y s = Some r"
proof (induction k arbitrary: k' s)
  case (Suc k)
  then obtain j where k': "k' = Suc j" "k \<le> j" by (cases k') auto
  obtain x s1 where h: "read_frame_header poll fuel tag s = Some (x, s1)"
    using Suc.prems(1) by (cases "read_frame_header poll fuel tag s") auto
  note h' = read_frame_header_mono [OF h Suc.prems(2)]
  show ?case
  proof (cases x)
    case (HdrLen len qa)
    have m: "exact_loop poll fuel len [] s1 = Some z \<Longrightarrow> exact_loop poll fuel' len [] s1 = Some z" for z
      by (rule exact_loop_mono [OF _ Suc.prems(2)])
    show ?thesis
      using Suc.prems(1) Suc.IH [OF _ Suc.prems(2) k'(2)] m h h' HdrLen k'(1)
      by (cases "exact_loop poll fuel len [] s1") (auto split: if_splits option.splits)
  qed (use Suc.prems(1) h h' k' in auto)
qed simp

subsection \<open>Writing is the codec\<close>

lemma u32_le_bytes: "u32_to_le_bytes w = [u32_to_le_bytes w ! 0, u32_to_le_bytes w ! 1, u32_to_le_bytes w ! 2, u32_to_le_bytes w ! 3]"
  by (simp add: u32_to_le_bytes_def to_le_explicit)

text \<open>The relay's own frame writer agrees with the codec on every payload, with the same draws of padding.\<close>

lemma client_frame_encodes:
  "(case client_frame R tag flags data rng of
      (Inr w, rng') \<Rightarrow> codec_encode R (frame_codec_new tag) rng \<lparr>fr_data = data, fr_meta = meta_of (flags AND RPC_FLAG_QUICKACK \<noteq> 0)\<rparr> [] = (Inr (), w, rng')
    | (Inl e, rng') \<Rightarrow> \<exists>e'. codec_encode R (frame_codec_new tag) rng \<lparr>fr_data = data, fr_meta = meta_of (flags AND RPC_FLAG_QUICKACK \<noteq> 0)\<rparr> [] = (Inl e', [], rng'))"
proof (cases tag)
  case Abridged
  have t: "take 3 (u32_to_le_bytes w) = [u32_to_le_bytes w ! 0, u32_to_le_bytes w ! 1, u32_to_le_bytes w ! 2]" for w
    by (subst u32_le_bytes) simp
  show ?thesis
    by (simp add: Abridged client_frame_def codec_encode_def frame_codec_new_def encode_abridged_def t Let_def)
next
  case Intermediate
  then show ?thesis
    by (simp add: client_frame_def codec_encode_def frame_codec_new_def encode_intermediate_def length_field_def Let_def)
next
  case Secure
  then show ?thesis
    by (simp add: client_frame_def codec_encode_def frame_codec_new_def encode_secure_def length_field_def Let_def split: prod.split)
qed

end
