(* ===== verification/Middle_Relay.thy ===== *)
theory Middle_Relay
  imports Client_Frames Crypto_Writer User_Limits Handshake
begin

section \<open>The relay through a middle proxy (\<open>proxy/middle_relay.rs\<close>)\<close>

text \<open>
  A session through a middle proxy runs as three tasks: the main loop reads the client's frames and queues commands, a
  sender hands the commands to the pool, and a writer passes the pool's answers to the client. The session is a step
  relation over their common state; a step of a task is one message. The pool's verdict on a request and the arrival of
  answers are the environment's choice. Reading a frame and queueing it is one step: the client's reader belongs to
  the main loop alone. Two fields record history: the commands handed to the pool and the answers taken.
\<close>

datatype c2me_command = C2MeData bytes u32 | C2MeClose

definition C2ME_CHANNEL_CAPACITY :: nat where "C2ME_CHANNEL_CAPACITY = 1024"

definition C2ME_SENDER_FAIRNESS_BUDGET :: nat where "C2ME_SENDER_FAIRNESS_BUDGET = 32"

definition should_yield_c2me_sender :: "nat \<Rightarrow> bool \<Rightarrow> bool" where
  "should_yield_c2me_sender sent_since_yield has_backlog \<longleftrightarrow> has_backlog \<and> C2ME_SENDER_FAIRNESS_BUDGET \<le> sent_since_yield"

text \<open>The user's own tag, or the general one; a tag is 16 bytes of hex.\<close>

definition ad_tag_of :: "(string \<Rightarrow> bytes option) \<Rightarrow> string option \<Rightarrow> bytes option" where
  "ad_tag_of hex_decode t =
     (case t of None \<Rightarrow> None
      | Some x \<Rightarrow> (case hex_decode x of None \<Rightarrow> None | Some v \<Rightarrow> if length v = 16 then Some v else None))"

definition effective_tag :: "(string \<Rightarrow> bytes option) \<Rightarrow> (string \<rightharpoonup> string) \<Rightarrow> string option \<Rightarrow> string \<Rightarrow> bytes option" where
  "effective_tag hex_decode user_ad_tags ad_tag user =
     (case ad_tag_of hex_decode (user_ad_tags user) of Some t \<Rightarrow> Some t | None \<Rightarrow> ad_tag_of hex_decode ad_tag)"

subsection \<open>State\<close>

record ('s, 'w, 'r) relay_env =
  me_read :: "'s \<Rightarrow> nat \<Rightarrow> bytes io_result poll \<times> 's"
  me_write :: "'w \<Rightarrow> bytes \<Rightarrow> nat io_result poll \<times> 'w"
  me_flush :: "'w \<Rightarrow> unit io_result poll \<times> 'w"
  me_rng :: "'r std_rng"
  me_hash :: "string \<Rightarrow> u64 \<Rightarrow> proto_tag \<Rightarrow> u64"
  me_tag :: proto_tag
  me_limit :: nat
  me_proto_flags :: u32
  me_user :: string

datatype main_task = MnRun | MnDone "proxy_error + unit" bool
datatype sender_task = SdRun nat | SdDone "proxy_error + unit"
datatype writer_task = WtIdle | WtBatch | WtDone "proxy_error + unit"

record ('s, 'w, 'r) me_session =
  ms_reader :: 's
  ms_writer :: 'w
  ms_rng :: "'r secure_random"
  ms_forensics :: forensics
  ms_frame_counter :: u64
  ms_desync :: desync_state
  ms_stats :: stats
  ms_bytes_me2c :: u64
  ms_main :: main_task
  ms_queue :: "c2me_command list"
  ms_sender :: sender_task
  ms_sent :: "c2me_command list"
  ms_me_queue :: "me_response list"
  ms_me_closed :: bool
  ms_writer_task :: writer_task
  ms_taken :: "me_response list"
  ms_stop :: bool

text \<open>The flags of a request.\<close>

definition request_flags :: "u32 \<Rightarrow> bytes \<Rightarrow> bool \<Rightarrow> u32" where
  "request_flags base payload qa =
     (let flags = (if qa then base OR RPC_FLAG_QUICKACK else base)
      in if 8 \<le> length payload \<and> list_all (\<lambda>b. b = 0) (take 8 payload) then flags OR RPC_FLAG_NOT_ENCRYPTED else flags)"

definition saturating_add :: "u64 \<Rightarrow> nat \<Rightarrow> u64" where
  "saturating_add a n = word_of_nat (min (unat a + n) (2 ^ 64 - 1))"

text \<open>What the main loop counts for a frame.\<close>

definition count_c2me :: "string \<Rightarrow> bytes \<Rightarrow> ('s, 'w, 'r) me_session \<Rightarrow> ('s, 'w, 'r) me_session" where
  "count_c2me user payload st =
     st\<lparr>ms_forensics := (ms_forensics st)\<lparr>fo_bytes_c2me := saturating_add (fo_bytes_c2me (ms_forensics st)) (length payload)\<rparr>,
        ms_stats := add_user_octets_from (word_of_nat (length payload)) user (ms_stats st)\<rparr>"

definition count_me2c :: "string \<Rightarrow> bytes \<Rightarrow> ('s, 'w, 'r) me_session \<Rightarrow> ('s, 'w, 'r) me_session" where
  "count_me2c user data st =
     st\<lparr>ms_bytes_me2c := ms_bytes_me2c st + word_of_nat (length data),
        ms_stats := add_user_octets_to (word_of_nat (length data)) user (ms_stats st)\<rparr>"

subsection \<open>The tasks\<close>

text \<open>One turn of the main loop, with the clock for desync reports. The command queue is a bounded channel that is closed when
  the sender has ended: \<open>None\<close> while the main loop waits for the client or for room.\<close>

definition enqueue_c2me_command :: "c2me_command \<Rightarrow> ('s, 'w, 'r) me_session \<Rightarrow> (bool \<times> ('s, 'w, 'r) me_session) option" where
  "enqueue_c2me_command cmd st =
     (case ms_sender st of
        SdDone _ \<Rightarrow> Some (False, st)
      | SdRun _ \<Rightarrow> if length (ms_queue st) < C2ME_CHANNEL_CAPACITY then Some (True, st\<lparr>ms_queue := ms_queue st @ [cmd]\<rparr>) else None)"

definition main_turn :: "('s, 'w, 'r) relay_env \<Rightarrow> nat \<Rightarrow> nat \<Rightarrow> ('s, 'w, 'r) me_session \<Rightarrow> ('s, 'w, 'r) me_session option" where
  "main_turn C fuel now st =
     (case read_client_payload (me_read C) fuel (me_hash C) (ms_forensics st) (me_tag C) (me_limit C) now (ms_frame_counter st)
             (ms_desync st) (ms_reader st) of
        None \<Rightarrow> None
      | Some (res, cnt, y, reader) \<Rightarrow>
          let st = st\<lparr>ms_frame_counter := cnt, ms_desync := y, ms_reader := reader\<rparr> in
          (case res of
             Inr (Some (payload, qa)) \<Rightarrow>
               (case enqueue_c2me_command (C2MeData payload (request_flags (me_proto_flags C) payload qa)) (count_c2me (me_user C) payload st) of
                  None \<Rightarrow> None
                | Some (True, st) \<Rightarrow> Some st
                | Some (False, st) \<Rightarrow> Some (st\<lparr>ms_main := MnDone (Inl (ProxyMsg (Msg ''ME sender channel closed'' []))) False\<rparr>))
           | Inr None \<Rightarrow>
               (case enqueue_c2me_command C2MeClose st of
                  None \<Rightarrow> None
                | Some (_, st) \<Rightarrow> Some (st\<lparr>ms_main := MnDone (Inr ()) True\<rparr>))
           | Inl e \<Rightarrow> Some (st\<lparr>ms_main := MnDone (Inl e) False\<rparr>)))"

text \<open>One turn of the sender; \<open>verdict\<close> is the pool's answer to a request. The end of the queue is the end of the task once
  the main loop has dropped its side.\<close>

definition sender_turn :: "(proxy_error + unit) \<Rightarrow> nat \<Rightarrow> ('s, 'w, 'r) me_session \<Rightarrow> ('s, 'w, 'r) me_session option" where
  "sender_turn verdict sent_since_yield st =
     (case ms_queue st of
        C2MeData payload flags # rest \<Rightarrow>
          let st = st\<lparr>ms_queue := rest, ms_sent := ms_sent st @ [C2MeData payload flags]\<rparr> in
          (case verdict of
             Inl e \<Rightarrow> Some (st\<lparr>ms_sender := SdDone (Inl e)\<rparr>)
           | Inr _ \<Rightarrow>
               let n = sent_since_yield + 1 in
               Some (st\<lparr>ms_sender := SdRun (if should_yield_c2me_sender n (rest \<noteq> []) then 0 else n)\<rparr>))
      | C2MeClose # rest \<Rightarrow> Some (st\<lparr>ms_queue := rest, ms_sent := ms_sent st @ [C2MeClose], ms_sender := SdDone (Inr ())\<rparr>)
      | [] \<Rightarrow> (case ms_main st of MnRun \<Rightarrow> None | MnDone _ _ \<Rightarrow> Some (st\<lparr>ms_sender := SdDone (Inr ())\<rparr>)))"

text \<open>One turn of the writer: an answer, in or out of a batch; the end of a batch; a closed channel; the stop signal.\<close>

definition write_answer :: "('s, 'w, 'r) relay_env \<Rightarrow> nat \<Rightarrow> me_response \<Rightarrow> ('s, 'w, 'r) me_session \<Rightarrow> ('s, 'w, 'r) me_session option" where
  "write_answer C fuel m st =
     (case m of
        MeData flags data \<Rightarrow>
          let st = count_me2c (me_user C) data st in
          (case write_client_payload (me_write C) fuel (me_rng C) (me_tag C) flags data (ms_rng st) (ms_writer st) of
             None \<Rightarrow> None
           | Some (res, rng, w) \<Rightarrow>
               let st = st\<lparr>ms_rng := rng, ms_writer := w\<rparr> in
               Some (case res of Inl e \<Rightarrow> st\<lparr>ms_writer_task := WtDone (Inl e)\<rparr> | Inr _ \<Rightarrow> st\<lparr>ms_writer_task := WtBatch\<rparr>))
      | MeAck confirm \<Rightarrow>
          (case write_client_ack (me_write C) (me_flush C) fuel (me_tag C) confirm (ms_writer st) of
             None \<Rightarrow> None
           | Some (res, w) \<Rightarrow>
               let st = st\<lparr>ms_writer := w\<rparr> in
               Some (case res of Inl e \<Rightarrow> st\<lparr>ms_writer_task := WtDone (Inl e)\<rparr> | Inr _ \<Rightarrow> st))
      | MeClose \<Rightarrow>
          (case flush_loop (me_flush C) fuel (ms_writer st) of
             None \<Rightarrow> None
           | Some (_, w) \<Rightarrow> Some (st\<lparr>ms_writer := w, ms_writer_task := WtDone (Inr ())\<rparr>)))"

definition writer_turn :: "('s, 'w, 'r) relay_env \<Rightarrow> nat \<Rightarrow> ('s, 'w, 'r) me_session \<Rightarrow> ('s, 'w, 'r) me_session option" where
  "writer_turn C fuel st =
     (case ms_me_queue st of
        m # rest \<Rightarrow> write_answer C fuel m (st\<lparr>ms_me_queue := rest, ms_taken := ms_taken st @ [m]\<rparr>)
      | [] \<Rightarrow>
          (case ms_writer_task st of
             WtBatch \<Rightarrow>
               (case flush_loop (me_flush C) fuel (ms_writer st) of
                  None \<Rightarrow> None
                | Some (Inl e, w) \<Rightarrow> Some (st\<lparr>ms_writer := w, ms_writer_task := WtDone (Inl (ProxyIo e))\<rparr>)
                | Some (Inr _, w) \<Rightarrow> Some (st\<lparr>ms_writer := w, ms_writer_task := WtIdle\<rparr>))
           | _ \<Rightarrow>
               if ms_me_closed st then Some (st\<lparr>ms_writer_task := WtDone (Inl (ProxyMsg (Msg ''ME connection lost'' [])))\<rparr>)
               else None))"

inductive me_step :: "('s, 'w, 'r) relay_env \<Rightarrow> ('s, 'w, 'r) me_session \<Rightarrow> ('s, 'w, 'r) me_session \<Rightarrow> bool" for C where
  main: "ms_main st = MnRun \<Longrightarrow> main_turn C fuel now st = Some st' \<Longrightarrow> me_step C st st'"
| sender: "ms_sender st = SdRun n \<Longrightarrow> sender_turn verdict n st = Some st' \<Longrightarrow> me_step C st st'"
| writer: "\<forall>r. ms_writer_task st \<noteq> WtDone r \<Longrightarrow> writer_turn C fuel st = Some st' \<Longrightarrow> me_step C st st'"
| answer: "\<not> ms_me_closed st \<Longrightarrow> me_step C st (st\<lparr>ms_me_queue := ms_me_queue st @ [m]\<rparr>)"
| closed: "me_step C st (st\<lparr>ms_me_closed := True\<rparr>)"
| stop: "ms_main st \<noteq> MnRun \<Longrightarrow> ms_sender st = SdDone r \<Longrightarrow> me_step C st (st\<lparr>ms_stop := True\<rparr>)"
| stopped: "ms_stop st \<Longrightarrow> ms_writer_task st = WtIdle \<Longrightarrow> me_step C st (st\<lparr>ms_writer_task := WtDone (Inr ())\<rparr>)"

inductive me_reaches :: "('s, 'w, 'r) relay_env \<Rightarrow> ('s, 'w, 'r) me_session \<Rightarrow> ('s, 'w, 'r) me_session \<Rightarrow> bool" for C where
  here: "me_reaches C st st"
| further: "me_reaches C st st1 \<Longrightarrow> me_step C st1 st2 \<Longrightarrow> me_reaches C st st2"

subsection \<open>Beginning and end\<close>

definition me_session_start :: "'s \<Rightarrow> 'w \<Rightarrow> 'r secure_random \<Rightarrow> handshake_success \<Rightarrow> bool \<Rightarrow> (ip_addr \<Rightarrow> u64) \<Rightarrow> desync_state \<Rightarrow> stats \<Rightarrow>
    'tx registry \<Rightarrow> ('s, 'w, 'r) me_session \<times> 'tx registry" where
  "me_session_start reader writer rng success desync_all_full hash_ip y stats reg =
     (case reg_register reg of (conn_id, reg) \<Rightarrow>
        (\<lparr>ms_reader = reader, ms_writer = writer, ms_rng = rng,
          ms_forensics = \<lparr>fo_trace_id = conn_id, fo_conn_id = conn_id, fo_user = hs_user success, fo_peer = hs_peer success,
            fo_peer_hash = hash_ip (sa_ip (hs_peer success)), fo_bytes_c2me = 0, fo_desync_all_full = desync_all_full\<rparr>,
          ms_frame_counter = 0, ms_desync = y,
          ms_stats = increment_user_curr_connects (hs_user success) (increment_user_connects (hs_user success) stats),
          ms_bytes_me2c = 0, ms_main = MnRun, ms_queue = [], ms_sender = SdRun 0, ms_sent = [], ms_me_queue = [], ms_me_closed = False,
          ms_writer_task = WtIdle, ms_taken = [], ms_stop = False\<rparr>, reg))"

text \<open>The result once all tasks have ended; the connection leaves the registry and the user's count.\<close>

definition me_session_result :: "('s, 'w, 'r) me_session \<Rightarrow> (proxy_error + unit) option" where
  "me_session_result st =
     (case (ms_main st, ms_sender st, ms_writer_task st) of
        (MnDone main_result client_closed, SdDone c2me_result, WtDone writer_result) \<Rightarrow>
          let writer_result =
                (if client_closed \<and> writer_result = Inl (ProxyMsg (Msg ''ME connection lost'' [])) then Inr () else writer_result)
          in Some (case main_result of Inl e \<Rightarrow> Inl e
                   | Inr _ \<Rightarrow> (case c2me_result of Inl e \<Rightarrow> Inl e
                   | Inr _ \<Rightarrow> writer_result))
      | _ \<Rightarrow> None)"

definition me_session_end :: "('s, 'w, 'r) me_session \<Rightarrow> 'tx registry \<Rightarrow> stats \<times> 'tx registry" where
  "me_session_end st reg =
     (decrement_user_curr_connects (fo_user (ms_forensics st)) (ms_stats st), snd (reg_unregister (fo_conn_id (ms_forensics st)) reg))"

subsection \<open>From the client to the pool\<close>

definition frame_command :: "u32 \<Rightarrow> frame \<Rightarrow> c2me_command" where
  "frame_command base g = C2MeData (fr_data g) (request_flags base (fr_data g) (quickack (fr_meta g)))"

abbreviation commands :: "('s, 'w, 'r) me_session \<Rightarrow> c2me_command list" where
  "commands st \<equiv> ms_sent st @ ms_queue st"

text \<open>What the commands are when the client's frames \<open>ys\<close> have been forwarded and \<open>zs\<close> have not: the frames in order, and then
  the close command when the client's stream has ended and the sender has not failed.\<close>

definition c2me_ok :: "u32 \<Rightarrow> frame list \<Rightarrow> frame list \<Rightarrow> ('s, 'w, 'r) me_session \<Rightarrow> bool" where
  "c2me_ok base ys zs st \<longleftrightarrow>
     (case ms_main st of
        MnRun \<Rightarrow> commands st = map (frame_command base) ys \<and> (\<forall>r. ms_sender st \<noteq> SdDone (Inr r))
      | MnDone _ closed \<Rightarrow>
          if \<not> closed then commands st = map (frame_command base) ys \<and> (\<forall>r. ms_sender st = SdDone (Inr r) \<longrightarrow> ms_queue st = [])
          else zs = [] \<and>
            (case ms_sender st of
               SdRun _ \<Rightarrow> commands st = map (frame_command base) ys @ [C2MeClose] \<and> (\<exists>q. ms_queue st = q @ [C2MeClose])
             | SdDone (Inr _) \<Rightarrow> ms_sent st = map (frame_command base) ys @ [C2MeClose] \<and> ms_queue st = []
             | SdDone (Inl _) \<Rightarrow> commands st = map (frame_command base) ys \<or> commands st = map (frame_command base) ys @ [C2MeClose]))"

lemma c2me_ok_cong:
  assumes "ms_main st' = ms_main st" "ms_sender st' = ms_sender st" "ms_queue st' = ms_queue st" "ms_sent st' = ms_sent st"
  shows "c2me_ok base ys zs st' = c2me_ok base ys zs st"
  unfolding c2me_ok_def assms ..

lemma frame_command_data: "frame_command base g \<noteq> C2MeClose"
  by (simp add: frame_command_def)

lemma close_is_last: "xs @ C2MeClose # rest = map (frame_command base) ys @ [C2MeClose] \<Longrightarrow> rest = [] \<and> xs = map (frame_command base) ys"
proof (cases rest rule: rev_cases)
  case (snoc r x)
  moreover assume "xs @ C2MeClose # rest = map (frame_command base) ys @ [C2MeClose]"
  ultimately have "C2MeClose \<in> set (map (frame_command base) ys)" by (metis append.assoc append_Cons butlast_snoc in_set_conv_decomp)
  then show ?thesis using frame_command_data by (auto dest: sym)
qed simp

lemma sender_turn_c2me:
  assumes "c2me_ok base ys zs st" "ms_sender st = SdRun n" "sender_turn verdict n st = Some st'"
  shows "c2me_ok base ys zs st' \<and> ms_main st' = ms_main st \<and> ms_reader st' = ms_reader st"
proof (cases "ms_queue st")
  case Nil
  then show ?thesis
    using assms by (auto simp: c2me_ok_def sender_turn_def split: main_task.splits if_splits)
next
  case (Cons c rest)
  show ?thesis
  proof (cases c)
    case (C2MeData payload flags)
    have q: "\<exists>q. rest = q @ [C2MeClose]" if "ms_queue st = q @ [C2MeClose]" for q
      using that Cons C2MeData by (cases q) auto
    show ?thesis
      using assms q Cons C2MeData
      by (auto simp: c2me_ok_def sender_turn_def Let_def split: main_task.splits if_splits sum.splits)
  next
    case C2MeClose
    have "commands st \<noteq> map (frame_command base) ys"
      using Cons C2MeClose frame_command_data by (metis in_set_conv_decomp imageE set_map)
    then obtain res where m: "ms_main st = MnDone res True" "zs = []" "commands st = map (frame_command base) ys @ [C2MeClose]"
      using assms(1,2) by (auto simp: c2me_ok_def split: main_task.splits if_splits)
    then have "rest = []" "ms_sent st = map (frame_command base) ys"
      using Cons C2MeClose close_is_last [of "ms_sent st" rest base ys] by auto
    then show ?thesis using assms(3) Cons C2MeClose m by (auto simp: c2me_ok_def sender_turn_def)
  qed
qed

text \<open>The client's reader stands in front of the frames \<open>zs\<close>, as the codec decodes them, and then of nothing complete.\<close>

definition ahead :: "('s \<Rightarrow> bytes) \<Rightarrow> ('s \<Rightarrow> bool) \<Rightarrow> proto_tag \<Rightarrow> nat \<Rightarrow> frame list \<Rightarrow> 's \<Rightarrow> bool" where
  "ahead content ok tag mx zs s \<longleftrightarrow> ok s \<and> (\<exists>n gs rest rest'.
     drain (codec_decode \<lparr>fc_proto_tag = tag, fc_max_frame_size = mx\<rparr>) n (content s) = (gs, rest) \<and>
     codec_decode \<lparr>fc_proto_tag = tag, fc_max_frame_size = mx\<rparr> rest = (Inr None, rest') \<and>
     (\<forall>g \<in> set gs. fr_data g = [] \<or> 4 \<le> length (fr_data g)) \<and> zs = filter (\<lambda>g. fr_data g \<noteq> []) gs)"

context complete_reader
begin

lemma read_ahead:
  assumes "ahead content inv tag mx zs s" "read_client_payload poll fuel H Z tag mx now cnt y s = Some (x, cnt', y', s')"
  shows "case zs of
      [] \<Rightarrow> x = Inr None \<or> (\<exists>e. x = Inl e)
    | g # zs' \<Rightarrow> x = Inr (Some (fr_data g, quickack (fr_meta g))) \<and> ahead content inv tag mx zs' s'"
proof -
  obtain n gs rest rest' where a: "inv s" "drain (codec_decode \<lparr>fc_proto_tag = tag, fc_max_frame_size = mx\<rparr>) n (content s) = (gs, rest)"
      "codec_decode \<lparr>fc_proto_tag = tag, fc_max_frame_size = mx\<rparr> rest = (Inr None, rest')"
      "\<forall>g \<in> set gs. fr_data g = [] \<or> 4 \<le> length (fr_data g)" "zs = filter (\<lambda>g. fr_data g \<noteq> []) gs"
    using assms(1) unfolding ahead_def by blast
  let ?k = "Suc (meas s) + fuel"
  have r: "client_payload_loop poll ?k H Z tag mx now ?k cnt y s = Some (x, cnt', y', s')"
    using assms(2) unfolding read_client_payload_def by (rule client_payload_loop_mono) simp_all
  have m: "meas s < ?k" by simp
  note P = payload_frames [OF a(1) m m a(2-4), of H Z now cnt y, folded a(5)]
  show ?thesis
  proof (cases zs)
    case Nil
    then show ?thesis using P r by auto
  next
    case (Cons g zs')
    then obtain s1 n' gs' where "client_payload_loop poll ?k H Z tag mx now ?k cnt y s =
          Some (Inr (Some (fr_data g, quickack (fr_meta g))), cnt + 1, y, s1)" "inv s1"
        "drain (codec_decode \<lparr>fc_proto_tag = tag, fc_max_frame_size = mx\<rparr>) n' (content s1) = (gs', rest)" "set gs' \<subseteq> set gs"
        "zs = g # filter (\<lambda>g. fr_data g \<noteq> []) gs'"
      using P by auto
    with r a(3,4) Cons show ?thesis unfolding ahead_def by auto blast
  qed
qed

lemma main_turn_c2me:
  assumes "c2me_ok base ys zs st" "ms_main st = MnRun" "main_turn C fuel now st = Some st'"
    and "me_read C = poll" "me_proto_flags C = base" "ahead content inv (me_tag C) (me_limit C) zs (ms_reader st)"
  shows "\<exists>ys' zs'. ys' @ zs' = ys @ zs \<and> c2me_ok base ys' zs' st' \<and>
    (ms_main st' = MnRun \<longrightarrow> ahead content inv (me_tag C) (me_limit C) zs' (ms_reader st'))"
proof -
  have c: "commands st = map (frame_command base) ys" and sd: "\<forall>r. ms_sender st \<noteq> SdDone (Inr r)"
    using assms(1,2) unfolding c2me_ok_def by auto
  obtain x cnt y reader where x: "read_client_payload poll fuel (me_hash C) (ms_forensics st) (me_tag C) (me_limit C) now
      (ms_frame_counter st) (ms_desync st) (ms_reader st) = Some (x, cnt, y, reader)"
    using assms(3,4) unfolding main_turn_def by (auto split: option.splits)
  note R = read_ahead [OF assms(6) x]
  note D = main_turn_def assms(4,5) x enqueue_c2me_command_def count_c2me_def Let_def
  show ?thesis
  proof (cases "\<exists>p. x = Inr (Some p)")
    case True
    then obtain g zs' where z: "zs = g # zs'" "x = Inr (Some (fr_data g, quickack (fr_meta g)))"
        "ahead content inv (me_tag C) (me_limit C) zs' reader"
      using R by (cases zs) auto
    show ?thesis
    proof (cases "ms_sender st")
      case (SdRun n)
      then have "st' = (count_c2me (me_user C) (fr_data g) (st\<lparr>ms_frame_counter := cnt, ms_desync := y, ms_reader := reader\<rparr>))
          \<lparr>ms_queue := ms_queue st @ [frame_command base g]\<rparr>"
        using assms(3) z(2) by (auto simp: D frame_command_def split: if_splits)
      then show ?thesis
        using c SdRun assms(2) z by (intro exI [of _ "ys @ [g]"] exI [of _ zs']) (auto simp: c2me_ok_def count_c2me_def)
    next
      case (SdDone r)
      then show ?thesis
        using assms(3) z(2) c sd by (intro exI [of _ ys] exI [of _ zs]) (auto simp: D c2me_ok_def split: if_splits)
    qed
  next
    case False
    show ?thesis
    proof (cases x)
      case (Inl e)
      then show ?thesis using assms(3) c sd by (intro exI [of _ ys] exI [of _ zs]) (auto simp: D c2me_ok_def)
    next
      case (Inr p)
      then have "zs = []" "p = None" using R False by (auto split: list.splits)
      then show ?thesis
        using assms(3) Inr c sd by (intro exI [of _ ys] exI [of _ zs]) (auto simp: D c2me_ok_def split: sender_task.splits if_splits sum.splits)
    qed
  qed
qed

lemma me_step_c2me:
  assumes "me_step C st st'" "me_read C = poll"
    and "c2me_ok (me_proto_flags C) ys zs st" "ms_main st = MnRun \<longrightarrow> ahead content inv (me_tag C) (me_limit C) zs (ms_reader st)"
  shows "\<exists>ys' zs'. ys' @ zs' = ys @ zs \<and> c2me_ok (me_proto_flags C) ys' zs' st' \<and>
    (ms_main st' = MnRun \<longrightarrow> ahead content inv (me_tag C) (me_limit C) zs' (ms_reader st'))"
  using assms
proof (induction rule: me_step.induct)
  case (main st fuel now st')
  then show ?case using main_turn_c2me [OF _ main(1,2)] by blast
next
  case (sender st n verdict st')
  then show ?case using sender_turn_c2me [OF _ sender(1,2)] by metis
next
  case (writer st fuel st')
  have "ms_queue st' = ms_queue st" "ms_sent st' = ms_sent st" "ms_main st' = ms_main st"
      "ms_sender st' = ms_sender st" "ms_reader st' = ms_reader st"
    using writer(2)
    by (auto simp: writer_turn_def write_answer_def count_me2c_def Let_def split: list.splits me_response.splits option.splits sum.splits
        writer_task.splits if_splits)
  note same = this
  show ?case using writer same c2me_ok_cong [OF same(3,4,1,2)] by metis
next
  case (answer st m)
  then show ?case by (rule_tac x = ys in exI, rule_tac x = zs in exI) (simp cong: c2me_ok_cong)
next
  case (closed st)
  then show ?case by (rule_tac x = ys in exI, rule_tac x = zs in exI) (simp cong: c2me_ok_cong)
next
  case (stop st r)
  then show ?case by (rule_tac x = ys in exI, rule_tac x = zs in exI) (simp cong: c2me_ok_cong)
next
  case (stopped st)
  then show ?case by (rule_tac x = ys in exI, rule_tac x = zs in exI) (simp cong: c2me_ok_cong)
qed

lemma me_reaches_c2me:
  assumes "me_reaches C st st'" "me_read C = poll" "c2me_ok (me_proto_flags C) [] fs st" "ahead content inv (me_tag C) (me_limit C) fs (ms_reader st)"
  shows "\<exists>ys zs. ys @ zs = fs \<and> c2me_ok (me_proto_flags C) ys zs st' \<and>
    (ms_main st' = MnRun \<longrightarrow> ahead content inv (me_tag C) (me_limit C) zs (ms_reader st'))"
  using assms
proof (induction rule: me_reaches.induct)
  case (here st)
  then show ?case by (intro exI [of _ "[]"] exI [of _ fs]) simp
next
  case (further st st1 st2)
  then show ?case using me_step_c2me [OF further(2)] by blast
qed

end

subsection \<open>From the pool to the client\<close>

text \<open>The bytes for an answer: a frame of the codec, or an acknowledgement.\<close>

definition me_wire :: "'r std_rng \<Rightarrow> proto_tag \<Rightarrow> me_response \<Rightarrow> bytes \<Rightarrow> bool" where
  "me_wire R tag m w \<longleftrightarrow>
     (case m of
        MeData flags data \<Rightarrow> \<exists>rng rng'. codec_encode R (frame_codec_new tag) rng
          \<lparr>fr_data = data, fr_meta = meta_of (flags AND RPC_FLAG_QUICKACK \<noteq> 0)\<rparr> [] = (Inr (), w, rng')
      | MeAck confirm \<Rightarrow> w = ack_bytes tag confirm
      | MeClose \<Rightarrow> w = [])"

definition me2c_ok :: "('w \<Rightarrow> bytes) \<Rightarrow> ('w \<Rightarrow> bytes) \<Rightarrow> ('w \<Rightarrow> bool) \<Rightarrow> ('w \<Rightarrow> bool) \<Rightarrow> 'r std_rng \<Rightarrow> proto_tag \<Rightarrow>
    bytes \<Rightarrow> ('s, 'w, 'r) me_session \<Rightarrow> bool" where
  "me2c_ok plain queued broken ok R tag base st \<longleftrightarrow>
     (\<forall>r. ms_writer_task st \<noteq> WtDone r) \<longrightarrow>
     ok (ms_writer st) \<and> \<not> broken (ms_writer st) \<and> (ms_writer_task st = WtIdle \<longrightarrow> queued (ms_writer st) = []) \<and>
     (\<exists>ws. plain (ms_writer st) = base @ concat ws \<and> list_all2 (me_wire R tag) (ms_taken st) ws)"

lemma me2c_ok_cong:
  assumes "ms_writer_task st' = ms_writer_task st" "ms_writer st' = ms_writer st" "ms_taken st' = ms_taken st"
  shows "me2c_ok plain queued broken ok R tag base st' = me2c_ok plain queued broken ok R tag base st"
  unfolding me2c_ok_def assms ..

context byte_writer
begin

lemma write_client_payload_wire:
  assumes "inv w" "\<not> broken w" "write_client_payload poll fuel R tag flags data rng w = Some (Inr r, rng', w')"
  shows "\<exists>f. me_wire R tag (MeData flags data) f \<and> plain w' = plain w @ f \<and> inv w' \<and> \<not> broken w'"
proof -
  obtain f rng1 where f: "client_frame R tag flags data rng = (Inr f, rng1)" "write_loop poll fuel f w = Some (Inr (), w')"
    using assms(3) by (auto simp: write_client_payload_def split: prod.splits sum.splits option.splits)
  then show ?thesis
    using client_frame_encodes [where R = R and tag = tag and flags = flags and data = data and rng = rng]
      write_loop_plain [OF assms(1) f(2)] write_loop_alive [OF assms(1,2) f(2)] by (auto simp: me_wire_def)
qed

lemma write_client_ack_wire:
  assumes "inv w" "\<not> broken w" "write_client_ack poll flush fuel tag confirm w = Some (Inr r, w')"
  shows "plain w' = plain w @ ack_bytes tag confirm \<and> inv w' \<and> \<not> broken w' \<and> queued w' = []"
proof -
  obtain w1 where w: "write_loop poll fuel (ack_bytes tag confirm) w = Some (Inr (), w1)" "flush_loop flush fuel w1 = Some (Inr (), w')"
    using assms(3) by (auto simp: write_client_ack_def split: sum.splits option.splits)
  then show ?thesis
    using write_loop_plain [OF assms(1) w(1)] write_loop_alive [OF assms(1,2) w(1)] flush_loop_plain flush_loop_alive by metis
qed

lemma writer_turn_me2c:
  assumes "me2c_ok plain queued broken inv (me_rng C) (me_tag C) base st" "\<forall>r. ms_writer_task st \<noteq> WtDone r"
    and "writer_turn C fuel st = Some st'" "me_write C = poll" "me_flush C = flush"
  shows "me2c_ok plain queued broken inv (me_rng C) (me_tag C) base st'"
  unfolding me2c_ok_def
proof
  let ?G = "inv (ms_writer st') \<and> \<not> broken (ms_writer st') \<and> (ms_writer_task st' = WtIdle \<longrightarrow> queued (ms_writer st') = []) \<and>
    (\<exists>ws. plain (ms_writer st') = base @ concat ws \<and> list_all2 (me_wire (me_rng C) (me_tag C)) (ms_taken st') ws)"
  assume live: "\<forall>r. ms_writer_task st' \<noteq> WtDone r"
  obtain ws where i: "inv (ms_writer st)" "\<not> broken (ms_writer st)" "plain (ms_writer st) = base @ concat ws"
      "list_all2 (me_wire (me_rng C) (me_tag C)) (ms_taken st) ws"
    using assms(1,2) unfolding me2c_ok_def by blast
  have step: ?G
    if "inv (ms_writer st')" "\<not> broken (ms_writer st')" "ms_writer_task st' = WtIdle \<longrightarrow> queued (ms_writer st') = []"
      "plain (ms_writer st') = plain (ms_writer st) @ f" "ms_taken st' = ms_taken st @ [m]" "me_wire (me_rng C) (me_tag C) m f" for f m
    using that i by (intro conjI exI [of _ "ws @ [f]"]) (simp_all add: list_all2_appendI)
  show ?G
  proof (cases "ms_me_queue st")
    case Nil
    then obtain w where w: "flush_loop flush fuel (ms_writer st) = Some (Inr (), w)" "ms_writer st' = w" "ms_taken st' = ms_taken st"
      using assms(3,5) live by (auto simp: writer_turn_def split: writer_task.splits option.splits sum.splits if_splits)
    then show ?thesis using flush_loop_plain [OF i(1) w(1)] flush_loop_alive [OF i(1,2) w(1)] i by auto
  next
    case (Cons m rest)
    show ?thesis
    proof (cases m)
      case (MeData flags data)
      then obtain rng w where "write_client_payload poll fuel (me_rng C) (me_tag C) flags data (ms_rng st) (ms_writer st) = Some (Inr (), rng, w)"
          "ms_writer st' = w" "ms_taken st' = ms_taken st @ [m]" "ms_writer_task st' = WtBatch"
        using assms(3,4) live Cons
        by (auto simp: writer_turn_def write_answer_def count_me2c_def Let_def split: option.splits sum.splits)
      then show ?thesis using write_client_payload_wire [OF i(1,2)] step MeData by (metis writer_task.distinct(1))
    next
      case (MeAck confirm)
      then obtain w where "write_client_ack poll flush fuel (me_tag C) confirm (ms_writer st) = Some (Inr (), w)"
          "ms_writer st' = w" "ms_taken st' = ms_taken st @ [m]"
        using assms(3,4,5) live Cons
        by (auto simp: writer_turn_def write_answer_def Let_def split: option.splits sum.splits)
      then show ?thesis
        using write_client_ack_wire [OF i(1,2)] step [of "ack_bytes (me_tag C) confirm" m] MeAck by (simp add: me_wire_def)
    next
      case MeClose
      then show ?thesis
        using assms(3) live Cons by (auto simp: writer_turn_def write_answer_def split: option.splits)
    qed
  qed
qed

lemma me_step_me2c:
  assumes "me_step C st st'" "me_write C = poll" "me_flush C = flush"
    and "me2c_ok plain queued broken inv (me_rng C) (me_tag C) base st"
  shows "me2c_ok plain queued broken inv (me_rng C) (me_tag C) base st'"
  using assms
proof (induction rule: me_step.induct)
  case (main st fuel now st')
  have "ms_writer_task st' = ms_writer_task st" "ms_writer st' = ms_writer st" "ms_taken st' = ms_taken st"
    using main(2)
    by (auto simp: main_turn_def enqueue_c2me_command_def count_c2me_def Let_def split: option.splits sum.splits sender_task.splits if_splits)
  then show ?case using main me2c_ok_cong by metis
next
  case (sender st n verdict st')
  have "ms_writer_task st' = ms_writer_task st" "ms_writer st' = ms_writer st" "ms_taken st' = ms_taken st"
    using sender(2) by (auto simp: sender_turn_def Let_def split: list.splits c2me_command.splits sum.splits main_task.splits)
  then show ?case using sender me2c_ok_cong by metis
next
  case (writer st fuel st')
  then show ?case using writer_turn_me2c by blast
qed (simp_all add: me2c_ok_def)

lemma me_reaches_me2c:
  assumes "me_reaches C st st'" "me_write C = poll" "me_flush C = flush"
    and "me2c_ok plain queued broken inv (me_rng C) (me_tag C) base st"
  shows "me2c_ok plain queued broken inv (me_rng C) (me_tag C) base st'"
  using assms by (induction rule: me_reaches.induct) (auto intro: me_step_me2c)

end

subsection \<open>The session over the client's stream stack\<close>

lemma me_session_start_fields [simp]:
  "ms_reader (fst (me_session_start reader writer rng success full hash_ip y stats reg)) = reader"
  "ms_writer (fst (me_session_start reader writer rng success full hash_ip y stats reg)) = writer"
  "ms_main (fst (me_session_start reader writer rng success full hash_ip y stats reg)) = MnRun"
  "ms_sender (fst (me_session_start reader writer rng success full hash_ip y stats reg)) = SdRun 0"
  "ms_writer_task (fst (me_session_start reader writer rng success full hash_ip y stats reg)) = WtIdle"
  "ms_queue (fst (me_session_start reader writer rng success full hash_ip y stats reg)) = []"
  "ms_sent (fst (me_session_start reader writer rng success full hash_ip y stats reg)) = []"
  "ms_taken (fst (me_session_start reader writer rng success full hash_ip y stats reg)) = []"
  by (simp_all add: me_session_start_def split: prod.split)

lemma c2me_ok_sent:
  assumes "c2me_ok base ys zs st"
  shows "\<exists>more. ms_sent st @ more = map (frame_command base) (ys @ zs) @ [C2MeClose]"
    and "ms_sender st = SdDone (Inr ()) \<Longrightarrow> ms_main st = MnDone res True \<Longrightarrow> ms_sent st = map (frame_command base) (ys @ zs) @ [C2MeClose]"
proof -
  have "commands st = map (frame_command base) ys \<or> zs = [] \<and> commands st = map (frame_command base) ys @ [C2MeClose]"
    using assms by (auto simp: c2me_ok_def split: main_task.splits if_splits sender_task.splits sum.splits)
  then have "commands st @ map (frame_command base) zs @ [C2MeClose] = map (frame_command base) (ys @ zs) @ [C2MeClose] \<or>
      commands st = map (frame_command base) (ys @ zs) @ [C2MeClose]" by (elim disjE) simp_all
  then show "\<exists>more. ms_sent st @ more = map (frame_command base) (ys @ zs) @ [C2MeClose]" by (metis append.assoc)
  show "ms_sender st = SdDone (Inr ()) \<Longrightarrow> ms_main st = MnDone res True \<Longrightarrow> ms_sent st = map (frame_command base) (ys @ zs) @ [C2MeClose]"
    using assms by (simp add: c2me_ok_def)
qed

text \<open>The tasks do go on: with a frame in front of the reader and room in the queue the main loop queues it, and a writer that
  accepts writes an answer and flushes it.\<close>

context complete_reader
begin

lemma main_turn_forwards:
  assumes "ahead content inv (me_tag C) (me_limit C) (g # zs) (ms_reader st)" "me_read C = poll"
    and "ms_sender st = SdRun n" "length (ms_queue st) < C2ME_CHANNEL_CAPACITY"
  shows "\<exists>fuel st'. main_turn C fuel now st = Some st' \<and> ms_queue st' = ms_queue st @ [frame_command (me_proto_flags C) g] \<and>
    ms_sent st' = ms_sent st \<and> ms_sender st' = SdRun n \<and> ahead content inv (me_tag C) (me_limit C) zs (ms_reader st')"
proof -
  obtain m gs rest rest' where a: "inv (ms_reader st)"
      "drain (codec_decode \<lparr>fc_proto_tag = me_tag C, fc_max_frame_size = me_limit C\<rparr>) m (content (ms_reader st)) = (gs, rest)"
      "codec_decode \<lparr>fc_proto_tag = me_tag C, fc_max_frame_size = me_limit C\<rparr> rest = (Inr None, rest')"
      "\<forall>g \<in> set gs. fr_data g = [] \<or> 4 \<le> length (fr_data g)" "g # zs = filter (\<lambda>g. fr_data g \<noteq> []) gs"
    using assms(1) unfolding ahead_def by blast
  let ?k = "Suc (meas (ms_reader st))"
  obtain s' where r: "read_client_payload poll ?k (me_hash C) (ms_forensics st) (me_tag C) (me_limit C) now (ms_frame_counter st)
      (ms_desync st) (ms_reader st) = Some (Inr (Some (fr_data g, quickack (fr_meta g))), ms_frame_counter st + 1, ms_desync st, s')"
    using payload_frames [OF a(1) _ _ a(2-4), of ?k ?k, folded a(5)] unfolding read_client_payload_def by fastforce
  then have "ahead content inv (me_tag C) (me_limit C) zs s'" using read_ahead [OF assms(1) r] by simp
  then show ?thesis
    using r assms(2-4)
    by (intro exI [of _ ?k]) (simp add: main_turn_def enqueue_c2me_command_def count_c2me_def frame_command_def Let_def)
qed

end

context live_writer
begin

lemma writer_batch:
  assumes "inv (ms_writer st)" "live (ms_writer st) b" "me_write C = poll" "me_flush C = flush"
    and "client_frame (me_rng C) (me_tag C) flags data (ms_rng st) = (Inr f, rng)" "rate * length f < b"
    and "ms_me_queue st = [MeData flags data]"
  shows "\<exists>fuel st1 st2. writer_turn C fuel st = Some st1 \<and> (\<forall>r. ms_writer_task st1 \<noteq> WtDone r) \<and> writer_turn C fuel st1 = Some st2 \<and>
    ms_writer_task st2 = WtIdle \<and> ms_taken st2 = ms_taken st @ [MeData flags data]"
proof -
  let ?k = "Suc (meas (ms_writer st) + length f)"
  obtain w where w: "write_loop poll ?k f (ms_writer st) = Some (Inr (), w)" "live w (b - rate * length f)" "meas w \<le> meas (ms_writer st)"
    using write_loop_live [OF assms(1,2,6)] by blast
  obtain w' where "flush_loop flush ?k w = Some (Inr (), w')"
    using flush_loop_live [OF _ w(2), of ?k] write_loop_plain [OF assms(1) w(1)] w(3) assms(6) by auto
  then show ?thesis
    using w(1) assms(3-5,7)
    by (intro exI [of _ ?k]) (simp add: writer_turn_def write_answer_def count_me2c_def write_client_payload_def Let_def)
qed

end

text \<open>A concrete session, for the witnesses.\<close>

definition demo_env :: "(tls_reader crypto_reader, tls_writer crypto_writer, unit) relay_env" where
  "demo_env = \<lparr>me_read = crypto_poll_read tls_poll_read, me_write = cw_poll_write tls_poll_write,
     me_flush = cw_poll_flush tls_poll_write tls_poll_flush, me_rng = \<lparr>fill_bytes = \<lambda>r n. (\<lambda>i. 0, r), gen_range = \<lambda>r n. (0, r)\<rparr>,
     me_hash = \<lambda>u i t. 0, me_tag = Intermediate, me_limit = 1024, me_proto_flags = 0, me_user = ''u''\<rparr>"

definition demo_start :: "source \<Rightarrow> sink \<Rightarrow> (tls_reader crypto_reader, tls_writer crypto_writer, unit) me_session" where
  "demo_start u k = fst (me_session_start (crypto_reader_new (tls_reader_new u) \<lparr>keystream = \<lambda>i. 0, ctr_pos = 0\<rparr>)
     (crypto_writer_new (tls_writer_new k) \<lparr>keystream = \<lambda>i. 0, ctr_pos = 0\<rparr> 0)
     \<lparr>sr_rng = (), sr_cipher = \<lparr>keystream = \<lambda>i. 0, ctr_pos = 0\<rparr>, sr_buffer = []\<rparr>
     \<lparr>hs_user = ''u'', hs_dc_idx = 2, hs_proto_tag = Intermediate, hs_dec_key = [], hs_dec_iv = 0, hs_enc_key = [], hs_enc_iv = 0,
       hs_peer = SocketAddr (IpV4 1) 443, hs_is_tls = True\<rparr>
     False (\<lambda>i. 0) \<lparr>dy_allows_normal = True, dy_secure_padding_invalid = 0, dy_desync_total = 0, dy_full_logged = 0, dy_suppressed = 0,
       dy_bucket_0 = 0, dy_bucket_1_2 = 0, dy_bucket_3_10 = 0, dy_bucket_gt_10 = 0, dy_dedup = Map.empty\<rparr>
     \<lparr>telemetry_user_enabled = False, stats_users = Map.empty\<rparr> (registry_new 0 :: unit registry))"


definition demo_source :: source where "demo_source = [RdBytes [0x17, 3, 3, 0, 8, 4, 0, 0, 0, 1, 2], RdPending, RdBytes [3, 4]]"

definition demo_sink :: sink where "demo_sink = \<lparr>sk_script = replicate 60 (WrOk 100), sk_written = []\<rparr>"

lemma demo_records: "tls_records [0x17, 3, 3, 0, 8, 4, 0, 0, 0, 1, 2, 3, 4] = [(TLS_RECORD_APPLICATION, [4, 0, 0, 0, 1, 2, 3, 4])]"
  by (simp add: tls_records.simps rh_parse_def rh_validate_def TLS_RECORD_APPLICATION_def TLS_VERSION_def
      u16_from_be_bytes_def from_be_def MAX_TLS_CHUNK_SIZE_def Let_def)

lemma demo_content:
  "crypto_content tls_content (crypto_reader_new (tls_reader_new demo_source) \<lparr>keystream = \<lambda>i. 0, ctr_pos = 0\<rparr>) = [4, 0, 0, 0, 1, 2, 3, 4]"
  by (simp add: demo_source_def crypto_content_def crypto_reader_new_def tls_reader_new_content demo_records ctr_of_def aes_ctr_apply_def upt_rec)

lemma demo_wf: "crypto_reader_wf tls_clean (crypto_reader_new (tls_reader_new demo_source) \<lparr>keystream = \<lambda>i. 0, ctr_pos = 0\<rparr>)"
  by (simp add: demo_source_def crypto_reader_new_def demo_records crypto_reader_wf_def tls_clean_def tls_reader_wf_def
      tls_reader_new_def tls_reader_records_def no_alert_def source_wf_def record_types_distinct [symmetric])

lemma demo_decode:
  "drain (codec_decode \<lparr>fc_proto_tag = Intermediate, fc_max_frame_size = 1024\<rparr>) (Suc 0) [4, 0, 0, 0, 1, 2, 3, 4] =
     ([frame_with_meta [1, 2, 3, 4] frame_meta_new], [])"
  "codec_decode \<lparr>fc_proto_tag = Intermediate, fc_max_frame_size = 1024\<rparr> [] = (Inr None, [])"
  by (simp_all add: codec_decode_def decode_intermediate_def u32_from_le_bytes_def from_le.simps Let_def)

lemma demo_env_simps [simp]:
  "me_read demo_env = crypto_poll_read tls_poll_read" "me_write demo_env = cw_poll_write tls_poll_write"
  "me_flush demo_env = cw_poll_flush tls_poll_write tls_poll_flush" "me_tag demo_env = Intermediate" "me_limit demo_env = 1024"
  "me_proto_flags demo_env = 0" "std_rng_ok (me_rng demo_env)"
  by (simp_all add: demo_env_def std_rng_ok_def)

lemma frame_command_demo: "frame_command 0 (frame_with_meta [1, 2, 3, 4] frame_meta_new) = C2MeData [1, 2, 3, 4] 0"
  by (simp add: frame_command_def frame_with_meta_def frame_meta_new_def request_flags_def)

text \<open>C5: What the middle proxy is sent. The client's bytes, unwrapped from FakeTLS and decrypted, decode with the codec to some
  frames. However the tasks of the session interleave, whatever the pool answers and however the socket cuts the bytes, the
  commands handed to the pool are a prefix of the non-empty frames in their order, each with its payload and the flags for it,
  and then one close command; and when the client's stream has ended and the sender has not failed, they are all of it.\<close>

theorem me_relay_upstream:
  assumes "me_read C = crypto_poll_read tls_poll_read" "crypto_reader_wf tls_clean reader"
    and "drain (codec_decode \<lparr>fc_proto_tag = me_tag C, fc_max_frame_size = me_limit C\<rparr>) n (crypto_content tls_content reader) = (gs, rest)"
    and "codec_decode \<lparr>fc_proto_tag = me_tag C, fc_max_frame_size = me_limit C\<rparr> rest = (Inr None, rest')"
    and "\<forall>g \<in> set gs. fr_data g = [] \<or> 4 \<le> length (fr_data g)"
    and "me_reaches C (fst (me_session_start reader writer rng success full hash_ip y stats reg)) st"
  shows "(\<exists>more. ms_sent st @ more = map (frame_command (me_proto_flags C)) (filter (\<lambda>g. fr_data g \<noteq> []) gs) @ [C2MeClose]) \<and>
    (\<forall>res. ms_main st = MnDone res True \<and> ms_sender st = SdDone (Inr ()) \<longrightarrow>
       ms_sent st = map (frame_command (me_proto_flags C)) (filter (\<lambda>g. fr_data g \<noteq> []) gs) @ [C2MeClose])"
proof -
  let ?fs = "filter (\<lambda>g. fr_data g \<noteq> []) gs"
  have "ahead (crypto_content tls_content) (crypto_reader_wf tls_clean) (me_tag C) (me_limit C) ?fs reader"
    using assms(2-5) unfolding ahead_def by blast
  then obtain ys zs where "ys @ zs = ?fs" "c2me_ok (me_proto_flags C) ys zs st"
    using crypto_tls_full.crypto_full.me_reaches_c2me [OF assms(6,1), of ?fs] by (auto simp: c2me_ok_def)
  then show ?thesis using c2me_ok_sent [of _ ys zs st] by metis
qed

theorem me_relay_upstream_witness:
  "\<exists>st. me_reaches demo_env (demo_start demo_source demo_sink) st \<and> ms_sent st = [C2MeData [1, 2, 3, 4] 0] \<and>
     (\<exists>more. ms_sent st @ more = [C2MeData [1, 2, 3, 4] 0] @ [C2MeClose])"
proof -
  let ?st = "demo_start demo_source demo_sink" and ?g = "frame_with_meta [1, 2, 3, 4] frame_meta_new"
  have "ahead (crypto_content tls_content) (crypto_reader_wf tls_clean) Intermediate 1024 [?g] (ms_reader ?st)"
    unfolding ahead_def using demo_decode demo_wf
    by (intro conjI exI [of _ "Suc 0"] exI [of _ "[?g]"] exI [of _ "[]"]) (simp_all only: demo_start_def me_session_start_fields demo_content, simp_all add: frame_with_meta_def)
  then obtain fuel st1 where m: "main_turn demo_env fuel 0 ?st = Some st1" "ms_queue st1 = [C2MeData [1, 2, 3, 4] 0]" "ms_sender st1 = SdRun 0" "ms_sent st1 = []"
    using crypto_tls_full.crypto_full.main_turn_forwards [of demo_env ?g "[]" ?st 0 0]
    by (auto simp: demo_start_def frame_command_demo C2ME_CHANNEL_CAPACITY_def)
  obtain st2 where s: "sender_turn (Inr ()) 0 st1 = Some st2" "ms_sent st2 = [C2MeData [1, 2, 3, 4] 0]"
    using m by (simp add: sender_turn_def Let_def)
  have r: "me_reaches demo_env ?st st2"
    by (rule me_reaches.further [OF me_reaches.further [OF me_reaches.here me_step.main [OF _ m(1)]] me_step.sender [OF m(3) s(1)]])
      (simp add: demo_start_def)
  note P = me_relay_upstream [OF _ demo_wf, of demo_env "Suc 0" "[?g]" "[]" "[]", unfolded demo_env_simps, OF refl
      demo_decode(1) [folded demo_content] demo_decode(2) _ r [unfolded demo_start_def]]
  then show ?thesis
    using r s(2) by (auto simp: frame_command_demo frame_with_meta_def intro!: exI [of _ st2])
qed

text \<open>The frame that carries an answer.\<close>

fun answer_frame :: "me_response \<Rightarrow> frame option" where
  "answer_frame (MeData flags data) = Some \<lparr>fr_data = data, fr_meta = meta_of (flags AND RPC_FLAG_QUICKACK \<noteq> 0)\<rparr>"
| "answer_frame _ = None"

lemma me_wire_codec:
  assumes "list_all2 (me_wire R tag) as ws" "std_rng_ok R"
    and "\<forall>a \<in> set as. \<exists>f. answer_frame a = Some f \<and> frame_fits (frame_codec_new tag) f"
  shows "list_all2 (codec_wire R (frame_codec_new tag)) (map (the \<circ> answer_frame) as) ws"
  using assms(1,3)
proof (induction as ws rule: list_all2_induct)
  case (Cons a as w ws)
  then show ?case using assms(2) by (cases a) (auto simp: me_wire_def codec_wire_def)
qed simp



end
