(* ===== verification/Relay.thy ===== *)
theory Relay
  imports Crypto_Writer User_Limits
begin

section \<open>The direct relay (\<open>proxy/relay.rs\<close>)\<close>

text \<open>
  The two wrappers around the client's and the server's halves, the counters they share with the watchdog, and the relay
  itself. The copying is tokio's \<open>copy_bidirectional\<close>: its documented behaviour is that each direction reads
  into a buffer, writes what is buffered, flushes, and after the end of its input and a complete flush shuts the writing
  side down. Which polls it makes, when and with which buffer sizes is the argument \<open>events\<close> of the definitions below.
  Instants are nanoseconds.
\<close>

definition ACTIVITY_TIMEOUT :: nat where "ACTIVITY_TIMEOUT = 1800 * 1000"

definition WATCHDOG_INTERVAL :: nat where "WATCHDOG_INTERVAL = 10 * 1000"

subsection \<open>Wrappers\<close>

record ('r, 'w) combined_stream =
  cs_reader :: 'r
  cs_writer :: 'w

definition combined_new :: "'r \<Rightarrow> 'w \<Rightarrow> ('r, 'w) combined_stream" where
  "combined_new reader writer = \<lparr>cs_reader = reader, cs_writer = writer\<rparr>"

definition combined_poll_read :: "('r \<Rightarrow> nat \<Rightarrow> bytes io_result poll \<times> 'r) \<Rightarrow> ('r, 'w) combined_stream \<Rightarrow> nat \<Rightarrow>
    bytes io_result poll \<times> ('r, 'w) combined_stream" where
  "combined_poll_read poll s n = (case poll (cs_reader s) n of (r, x) \<Rightarrow> (r, s\<lparr>cs_reader := x\<rparr>))"

definition combined_poll_write :: "('w \<Rightarrow> bytes \<Rightarrow> nat io_result poll \<times> 'w) \<Rightarrow> ('r, 'w) combined_stream \<Rightarrow> bytes \<Rightarrow>
    nat io_result poll \<times> ('r, 'w) combined_stream" where
  "combined_poll_write poll s xs = (case poll (cs_writer s) xs of (r, x) \<Rightarrow> (r, s\<lparr>cs_writer := x\<rparr>))"

text \<open>\<open>poll_flush\<close> and \<open>poll_shutdown\<close> both delegate to the writer.\<close>

definition combined_poll_control :: "('w \<Rightarrow> unit io_result poll \<times> 'w) \<Rightarrow> ('r, 'w) combined_stream \<Rightarrow>
    unit io_result poll \<times> ('r, 'w) combined_stream" where
  "combined_poll_control control s = (case control (cs_writer s) of (r, x) \<Rightarrow> (r, s\<lparr>cs_writer := x\<rparr>))"

record shared_counters =
  c2s_bytes :: u64
  s2c_bytes :: u64
  c2s_ops :: u64
  s2c_ops :: u64
  last_activity_ms :: u64

definition counters_new :: shared_counters where
  "counters_new = \<lparr>c2s_bytes = 0, s2c_bytes = 0, c2s_ops = 0, s2c_ops = 0, last_activity_ms = 0\<rparr>"

text \<open>Milliseconds since the epoch, as 64 bits; \<open>duration_since\<close> saturates at zero.\<close>

definition millis_since :: "nat \<Rightarrow> nat \<Rightarrow> u64" where
  "millis_since now epoch = word_of_nat ((now - epoch) div 1000000)"

definition touch :: "nat \<Rightarrow> nat \<Rightarrow> shared_counters \<Rightarrow> shared_counters" where
  "touch now epoch c = c\<lparr>last_activity_ms := millis_since now epoch\<rparr>"

definition idle_duration :: "nat \<Rightarrow> nat \<Rightarrow> shared_counters \<Rightarrow> nat" where
  "idle_duration now epoch c = unat (millis_since now epoch) - unat (last_activity_ms c)"

record 'i stats_io =
  si_inner :: 'i
  si_counters :: shared_counters
  si_stats :: stats
  si_user :: string
  si_epoch :: nat

definition stats_io_new :: "nat \<Rightarrow> 'i \<Rightarrow> shared_counters \<Rightarrow> stats \<Rightarrow> string \<Rightarrow> nat \<Rightarrow> 'i stats_io" where
  "stats_io_new now inner counters stats user epoch =
     \<lparr>si_inner = inner, si_counters = touch now epoch counters, si_stats = stats, si_user = user, si_epoch = epoch\<rparr>"

definition count_read :: "nat \<Rightarrow> nat \<Rightarrow> 'i stats_io \<Rightarrow> 'i stats_io" where
  "count_read now n s =
     (let c = si_counters s in
      s\<lparr>si_counters := touch now (si_epoch s) (c\<lparr>c2s_bytes := c2s_bytes c + word_of_nat n, c2s_ops := c2s_ops c + 1\<rparr>),
        si_stats := increment_user_msgs_from (si_user s) (add_user_octets_from (word_of_nat n) (si_user s) (si_stats s))\<rparr>)"

definition count_write :: "nat \<Rightarrow> nat \<Rightarrow> 'i stats_io \<Rightarrow> 'i stats_io" where
  "count_write now n s =
     (let c = si_counters s in
      s\<lparr>si_counters := touch now (si_epoch s) (c\<lparr>s2c_bytes := s2c_bytes c + word_of_nat n, s2c_ops := s2c_ops c + 1\<rparr>),
        si_stats := increment_user_msgs_to (si_user s) (add_user_octets_to (word_of_nat n) (si_user s) (si_stats s))\<rparr>)"

definition stats_poll_read :: "('i \<Rightarrow> nat \<Rightarrow> bytes io_result poll \<times> 'i) \<Rightarrow> nat \<Rightarrow> 'i stats_io \<Rightarrow> nat \<Rightarrow>
    bytes io_result poll \<times> 'i stats_io" where
  "stats_poll_read poll now s n =
     (case poll (si_inner s) n of (r, i) \<Rightarrow>
        let s = s\<lparr>si_inner := i\<rparr> in
        (r, case r of Ready (Inr bs) \<Rightarrow> if 0 < length bs then count_read now (length bs) s else s | _ \<Rightarrow> s))"

definition stats_poll_write :: "('i \<Rightarrow> bytes \<Rightarrow> nat io_result poll \<times> 'i) \<Rightarrow> nat \<Rightarrow> 'i stats_io \<Rightarrow> bytes \<Rightarrow>
    nat io_result poll \<times> 'i stats_io" where
  "stats_poll_write poll now s xs =
     (case poll (si_inner s) xs of (r, i) \<Rightarrow>
        let s = s\<lparr>si_inner := i\<rparr> in
        (r, case r of Ready (Inr n) \<Rightarrow> if 0 < n then count_write now n s else s | _ \<Rightarrow> s))"

definition stats_poll_control :: "('i \<Rightarrow> unit io_result poll \<times> 'i) \<Rightarrow> 'i stats_io \<Rightarrow> unit io_result poll \<times> 'i stats_io" where
  "stats_poll_control control s = (case control (si_inner s) of (r, i) \<Rightarrow> (r, s\<lparr>si_inner := i\<rparr>))"

subsection \<open>One direction of the copy\<close>

record direction =
  dr_buf :: bytes
  dr_eof :: bool
  dr_flushed :: bool
  dr_shut :: bool
  dr_amount :: nat

definition direction_new :: direction where
  "direction_new = \<lparr>dr_buf = [], dr_eof = False, dr_flushed = False, dr_shut = False, dr_amount = 0\<rparr>"

datatype copy_op = CopyRead nat | CopyWrite | CopyFlush | CopyShutdown

text \<open>A poll that the library may make in the state of the direction; any other is not made. An error ends the copy.\<close>

definition copy_poll :: "('r \<Rightarrow> nat \<Rightarrow> bytes io_result poll \<times> 'r) \<Rightarrow> ('w \<Rightarrow> bytes \<Rightarrow> nat io_result poll \<times> 'w) \<Rightarrow>
    ('w \<Rightarrow> unit io_result poll \<times> 'w) \<Rightarrow> ('w \<Rightarrow> unit io_result poll \<times> 'w) \<Rightarrow>
    copy_op \<Rightarrow> direction \<Rightarrow> 'r \<Rightarrow> 'w \<Rightarrow> io_error option \<times> direction \<times> 'r \<times> 'w" where
  "copy_poll read write flush shutdown op d r w =
     (case op of
        CopyRead n \<Rightarrow>
          if dr_eof d \<or> n = 0 then (None, d, r, w)
          else (case read r n of
              (Pending, r) \<Rightarrow> (None, d, r, w)
            | (Ready (Inl e), r) \<Rightarrow> (Some e, d, r, w)
            | (Ready (Inr bs), r) \<Rightarrow>
                (None, if bs = [] then d\<lparr>dr_eof := True\<rparr> else d\<lparr>dr_buf := dr_buf d @ bs\<rparr>, r, w))
      | CopyWrite \<Rightarrow>
          if dr_buf d = [] then (None, d, r, w)
          else (case write w (dr_buf d) of
              (Pending, w) \<Rightarrow> (None, d, r, w)
            | (Ready (Inl e), w) \<Rightarrow> (Some e, d, r, w)
            | (Ready (Inr n), w) \<Rightarrow>
                if n = 0 then (Some (io_err WriteZero ''write zero byte into writer'' []), d, r, w)
                else (None, d\<lparr>dr_buf := drop n (dr_buf d), dr_amount := dr_amount d + n\<rparr>, r, w))
      | CopyFlush \<Rightarrow>
          if dr_flushed d then (None, d, r, w)
          else (case flush w of
              (Pending, w) \<Rightarrow> (None, d, r, w)
            | (Ready (Inl e), w) \<Rightarrow> (Some e, d, r, w)
            | (Ready (Inr _), w) \<Rightarrow> (None, if dr_eof d \<and> dr_buf d = [] then d\<lparr>dr_flushed := True\<rparr> else d, r, w))
      | CopyShutdown \<Rightarrow>
          if \<not> dr_flushed d \<or> dr_shut d then (None, d, r, w)
          else (case shutdown w of
              (Pending, w) \<Rightarrow> (None, d, r, w)
            | (Ready (Inl e), w) \<Rightarrow> (Some e, d, r, w)
            | (Ready (Inr _), w) \<Rightarrow> (None, d\<lparr>dr_shut := True\<rparr>, r, w)))"

subsection \<open>The relay\<close>

record ('cr, 'cw, 'sr, 'sw) relay_io =
  io_client_read :: "'cr \<Rightarrow> nat \<Rightarrow> bytes io_result poll \<times> 'cr"
  io_client_write :: "'cw \<Rightarrow> bytes \<Rightarrow> nat io_result poll \<times> 'cw"
  io_client_flush :: "'cw \<Rightarrow> unit io_result poll \<times> 'cw"
  io_client_shutdown :: "'cw \<Rightarrow> unit io_result poll \<times> 'cw"
  io_server_read :: "'sr \<Rightarrow> nat \<Rightarrow> bytes io_result poll \<times> 'sr"
  io_server_write :: "'sw \<Rightarrow> bytes \<Rightarrow> nat io_result poll \<times> 'sw"
  io_server_flush :: "'sw \<Rightarrow> unit io_result poll \<times> 'sw"
  io_server_shutdown :: "'sw \<Rightarrow> unit io_result poll \<times> 'sw"

record ('cr, 'cw, 'sr, 'sw) relay =
  rl_client :: "('cr, 'cw) combined_stream stats_io"
  rl_server :: "('sr, 'sw) combined_stream"
  rl_c2s :: direction
  rl_s2c :: direction

text \<open>An event is a poll of one direction or a round of the watchdog, at an instant.\<close>

datatype relay_event = PollC2S copy_op | PollS2C copy_op | WatchdogRound

datatype relay_end = CopyEnded "(nat \<times> nat) io_result" | ActivityTimeout

definition relay_copy_poll :: "('cr, 'cw, 'sr, 'sw) relay_io \<Rightarrow> nat \<Rightarrow> relay_event \<Rightarrow> ('cr, 'cw, 'sr, 'sw) relay \<Rightarrow>
    io_error option \<times> ('cr, 'cw, 'sr, 'sw) relay" where
  "relay_copy_poll E now ev s =
     (case ev of
        PollC2S op \<Rightarrow>
          (case copy_poll (stats_poll_read (combined_poll_read (io_client_read E)) now) (combined_poll_write (io_server_write E))
                  (combined_poll_control (io_server_flush E)) (combined_poll_control (io_server_shutdown E)) op
                  (rl_c2s s) (rl_client s) (rl_server s) of
             (e, d, client, server) \<Rightarrow> (e, s\<lparr>rl_c2s := d, rl_client := client, rl_server := server\<rparr>))
      | PollS2C op \<Rightarrow>
          (case copy_poll (combined_poll_read (io_server_read E)) (stats_poll_write (combined_poll_write (io_client_write E)) now)
                  (stats_poll_control (combined_poll_control (io_client_flush E)))
                  (stats_poll_control (combined_poll_control (io_client_shutdown E))) op
                  (rl_s2c s) (rl_server s) (rl_client s) of
             (e, d, server, client) \<Rightarrow> (e, s\<lparr>rl_s2c := d, rl_client := client, rl_server := server\<rparr>))
      | WatchdogRound \<Rightarrow> (None, s))"

definition watchdog_fires :: "nat \<Rightarrow> 'i stats_io \<Rightarrow> bool" where
  "watchdog_fires now client \<longleftrightarrow> ACTIVITY_TIMEOUT \<le> idle_duration now (si_epoch client) (si_counters client)"

text \<open>The \<open>select!\<close>: the copy ends when both directions are shut down or on an error, the watchdog when it finds the relay idle;
  \<open>None\<close> while neither has happened.\<close>

fun relay_run :: "('cr, 'cw, 'sr, 'sw) relay_io \<Rightarrow> (nat \<times> relay_event) list \<Rightarrow> ('cr, 'cw, 'sr, 'sw) relay \<Rightarrow>
    relay_end option \<times> ('cr, 'cw, 'sr, 'sw) relay" where
  "relay_run E [] s = (None, s)"
| "relay_run E ((now, ev) # evs) s =
     (if ev = WatchdogRound \<and> watchdog_fires now (rl_client s) then (Some ActivityTimeout, s)
      else case relay_copy_poll E now ev s of
          (Some e, s) \<Rightarrow> (Some (CopyEnded (Inl e)), s)
        | (None, s) \<Rightarrow>
            if dr_shut (rl_c2s s) \<and> dr_shut (rl_s2c s) then
              (Some (CopyEnded (Inr (dr_amount (rl_c2s s), dr_amount (rl_s2c s)))), s)
            else relay_run E evs s)"

definition relay_start :: "nat \<Rightarrow> nat \<Rightarrow> 'cr \<Rightarrow> 'cw \<Rightarrow> 'sr \<Rightarrow> 'sw \<Rightarrow> string \<Rightarrow> stats \<Rightarrow> ('cr, 'cw, 'sr, 'sw) relay" where
  "relay_start epoch now client_reader client_writer server_reader server_writer user stats =
     \<lparr>rl_client = stats_io_new now (combined_new client_reader client_writer) counters_new stats user epoch,
      rl_server = combined_new server_reader server_writer, rl_c2s = direction_new, rl_s2c = direction_new\<rparr>"

text \<open>Both writing sides are shut down at the end, whatever the outcome; the results of that are ignored.\<close>

definition relay_bidirectional :: "('cr, 'cw, 'sr, 'sw) relay_io \<Rightarrow> nat \<Rightarrow> nat \<Rightarrow> nat \<Rightarrow> (nat \<times> relay_event) list \<Rightarrow> 'cr \<Rightarrow> 'cw \<Rightarrow> 'sr \<Rightarrow>
    'sw \<Rightarrow> string \<Rightarrow> stats \<Rightarrow> ((proxy_error + unit) \<times> ('cr, 'cw, 'sr, 'sw) relay) option" where
  "relay_bidirectional E fuel epoch now events client_reader client_writer server_reader server_writer user stats =
     (case relay_run E events (relay_start epoch now client_reader client_writer server_reader server_writer user stats) of
        (None, s) \<Rightarrow> None
      | (Some result, s) \<Rightarrow>
          (case flush_loop (stats_poll_control (combined_poll_control (io_client_shutdown E))) fuel (rl_client s) of
             None \<Rightarrow> None
           | Some (_, client) \<Rightarrow>
               (case flush_loop (combined_poll_control (io_server_shutdown E)) fuel (rl_server s) of
                  None \<Rightarrow> None
                | Some (_, server) \<Rightarrow>
                    Some (case result of
                        CopyEnded (Inr _) \<Rightarrow> Inr ()
                      | CopyEnded (Inl e) \<Rightarrow> Inl (ProxyIo e)
                      | ActivityTimeout \<Rightarrow> Inr (),
                      s\<lparr>rl_client := client, rl_server := server\<rparr>))))"

subsection \<open>The wrappers keep the contracts\<close>

text \<open>A writer that can be shut down: once everything is flushed, shutting down changes nothing of what was written.\<close>

locale closing_writer = byte_writer +
  fixes shutdown :: "'a \<Rightarrow> unit io_result poll \<times> 'a"
  assumes shutdown_flushed: "inv s \<Longrightarrow> \<not> broken s \<Longrightarrow> queued s = [] \<Longrightarrow> shutdown s = (r, s') \<Longrightarrow>
    inv s' \<and> \<not> broken s' \<and> queued s' = [] \<and> plain s' = plain s"

lemma sink_close: "sink_control k = (r, k') \<Longrightarrow> sk_written k' = sk_written k"
  by (rule sink_control_written)

interpretation raw_close: closing_writer sink_poll sink_control sk_written "\<lambda>k. []" "\<lambda>k. False" "\<lambda>k. True" sink_control
  by unfold_locales (auto dest: sink_close)

lemma wb_pending_empty: "wb_wf rec \<Longrightarrow> wb_pending rec = [] \<Longrightarrow> wb_is_empty rec"
  by (simp add: wb_is_empty_def wb_pending_def wb_wf_def)

lemma tls_shutdown_flushed:
  assumes "tls_writer_inv b w" "\<not> tls_writer_broken w" "tls_queued w = []" "tls_poll_shutdown w = (r, w')"
  shows "tls_writer_inv b w' \<and> \<not> tls_writer_broken w' \<and> tls_queued w' = [] \<and> tls_accepted b w' = tls_accepted b w"
proof -
  have up: "(case tw_state w of WWritingRecord rec _ \<Rightarrow> fst (snd (poll_flush_record_inner (tw_upstream w) rec)) | _ \<Rightarrow> tw_upstream w) = tw_upstream w"
    using assms(1,3) wb_pending_empty
    by (auto simp: tls_writer_inv_def tls_queued_def poll_flush_record_inner.simps split: tls_writer_state.splits)
  obtain k where k: "sink_control (tw_upstream w) = (r, k)" "w' = \<lparr>tw_upstream = k, tw_state = WIdle\<rparr>"
    using assms(4) by (auto simp: tls_poll_shutdown_def up Let_def split: prod.splits)
  then show ?thesis
    using assms(1-3) sink_close [OF k(1)]
    by (auto simp: tls_writer_inv_def tls_writer_broken_def tls_queued_def tls_accepted_def tls_wire_def)
qed

interpretation tls_close: closing_writer tls_poll_write tls_poll_flush "tls_accepted b" tls_queued tls_writer_broken "tls_writer_inv b"
    tls_poll_shutdown for b
  by unfold_locales (rule tls_shutdown_flushed)

locale crypto_closing = crypto_out + closing_writer
begin

lemma cw_shutdown_flushed:
  assumes "cw_inv inv broken plain base c w" "\<not> cw_broken broken w" "cw_queued w @ queued (cw_upstream w) = []"
    and "cw_poll_shutdown poll shutdown w = (r, w')"
  shows "cw_inv inv broken plain base c w' \<and> \<not> cw_broken broken w' \<and> cw_queued w' @ queued (cw_upstream w') = [] \<and>
    cw_plain plain base c w' = cw_plain plain base c w"
proof -
  have up: "inv (cw_upstream w)" "\<not> broken (cw_upstream w)" "queued (cw_upstream w) = []"
    using assms(1-3) by (auto simp: cw_inv_def cw_defs)
  obtain st where st: "snd (cw_poll_flush_pending poll w) = w\<lparr>cw_state := st\<rparr>" "st = CwIdle"
    using assms(1-3) by (cases "cw_state w") (auto simp: cw_inv_def cw_defs cw_poll_flush_pending.simps [of poll w]
        pc_is_empty_def pc_pending_len_def pc_pending_slice_def pc_wf_def)
  then obtain u where u: "shutdown (cw_upstream w) = (r, u)" "w' = w\<lparr>cw_state := CwIdle, cw_upstream := u\<rparr>"
    using assms(4) by (auto simp: cw_poll_shutdown_def split: prod.splits)
  note S = shutdown_flushed [OF up u(1)]
  show ?thesis
    using assms(1-3) S u(2) by (auto simp: cw_inv_def cw_defs cw_plain_def)
qed

end

sublocale crypto_closing \<subseteq> crypto_close: closing_writer "cw_poll_write poll" "cw_poll_flush poll flush"
    "cw_plain plain base c" "\<lambda>w. cw_queued w @ queued (cw_upstream w)" "cw_broken broken"
    "cw_inv inv broken plain base c" "cw_poll_shutdown poll shutdown" for base c
  by unfold_locales (rule cw_shutdown_flushed)

interpretation crypto_raw_close: crypto_closing sink_poll sink_control sk_written "\<lambda>k. []" "\<lambda>k. False" "\<lambda>k. True" sink_control
  by unfold_locales

interpretation crypto_tls_close: crypto_closing tls_poll_write tls_poll_flush "tls_accepted b" tls_queued tls_writer_broken
    "tls_writer_inv b" tls_poll_shutdown for b
  by unfold_locales

text \<open>The wrappers are transparent: a poll of the copy through them is the poll on the two halves, and the other halves do not
  move. The counters of the client side follow.\<close>

lemma count_read_fields [simp]:
  "si_inner (count_read now n s) = si_inner s" "c2s_bytes (si_counters (count_read now n s)) = c2s_bytes (si_counters s) + word_of_nat n"
  "s2c_bytes (si_counters (count_read now n s)) = s2c_bytes (si_counters s)"
  by (simp_all add: count_read_def touch_def Let_def)

lemma count_write_fields [simp]:
  "si_inner (count_write now n s) = si_inner s" "s2c_bytes (si_counters (count_write now n s)) = s2c_bytes (si_counters s) + word_of_nat n"
  "c2s_bytes (si_counters (count_write now n s)) = c2s_bytes (si_counters s)"
  by (simp_all add: count_write_def touch_def Let_def)

lemma c2s_transparent:
  assumes "copy_poll (stats_poll_read (combined_poll_read read) now) (combined_poll_write write) (combined_poll_control flush)
      (combined_poll_control shutdown) op d client server = (e, d', client', server')"
  shows "copy_poll read write flush shutdown op d (cs_reader (si_inner client)) (cs_writer server) =
      (e, d', cs_reader (si_inner client'), cs_writer server')"
    and "cs_writer (si_inner client') = cs_writer (si_inner client)" "cs_reader server' = cs_reader server"
    and "s2c_bytes (si_counters client') = s2c_bytes (si_counters client)"
    and "e = None \<Longrightarrow> c2s_bytes (si_counters client) = word_of_nat (dr_amount d + length (dr_buf d)) \<Longrightarrow>
      \<forall>n w'. write (cs_writer server) (dr_buf d) = (Ready (Inr n), w') \<longrightarrow> n \<le> length (dr_buf d) \<Longrightarrow>
      c2s_bytes (si_counters client') = word_of_nat (dr_amount d' + length (dr_buf d'))"
  using assms
  by (cases op; auto simp: copy_poll_def stats_poll_read_def combined_poll_read_def combined_poll_write_def combined_poll_control_def Let_def
      simp del: of_nat_add split: if_splits prod.splits poll.splits sum.splits; simp add: add_ac)+

lemma s2c_transparent:
  assumes "copy_poll (combined_poll_read read) (stats_poll_write (combined_poll_write write) now)
      (stats_poll_control (combined_poll_control flush)) (stats_poll_control (combined_poll_control shutdown)) op d server client =
      (e, d', server', client')"
  shows "copy_poll read write flush shutdown op d (cs_reader server) (cs_writer (si_inner client)) =
      (e, d', cs_reader server', cs_writer (si_inner client'))"
    and "cs_reader (si_inner client') = cs_reader (si_inner client)" "cs_writer server' = cs_writer server"
    and "c2s_bytes (si_counters client') = c2s_bytes (si_counters client)"
    and "e = None \<Longrightarrow> s2c_bytes (si_counters client) = word_of_nat (dr_amount d) \<Longrightarrow>
      s2c_bytes (si_counters client') = word_of_nat (dr_amount d')"
  using assms
  by (cases op; auto simp: copy_poll_def combined_poll_read_def stats_poll_write_def combined_poll_write_def stats_poll_control_def combined_poll_control_def Let_def
      split: if_splits prod.splits poll.splits sum.splits)+

subsection \<open>One direction never loses or invents a byte\<close>

definition direction_ok :: "('r \<Rightarrow> bytes) \<Rightarrow> ('w \<Rightarrow> bytes) \<Rightarrow> ('w \<Rightarrow> bytes) \<Rightarrow> bytes \<Rightarrow> bytes \<Rightarrow> direction \<Rightarrow> 'r \<Rightarrow> 'w \<Rightarrow> bool" where
  "direction_ok content plain queued input base d r w \<longleftrightarrow>
     (\<exists>xs. plain w = base @ xs \<and> length xs = dr_amount d \<and> input = xs @ dr_buf d @ content r) \<and>
     (dr_eof d \<longrightarrow> content r = []) \<and> (dr_flushed d \<longrightarrow> dr_eof d \<and> dr_buf d = [] \<and> queued w = []) \<and> (dr_shut d \<longrightarrow> dr_flushed d)"

locale relay_direction =
  src: complete_reader rpoll content rinv rmeas + dst: closing_writer wpoll flush plain queued broken winv shutdown
  for rpoll :: "'r \<Rightarrow> nat \<Rightarrow> bytes io_result poll \<times> 'r" and content and rinv and rmeas
    and wpoll :: "'w \<Rightarrow> bytes \<Rightarrow> nat io_result poll \<times> 'w" and flush and plain and queued and broken and winv and shutdown
begin

lemma copy_poll_ok:
  assumes "copy_poll rpoll wpoll flush shutdown op d r w = (None, d', r', w')" "rinv r" "winv w" "\<not> broken w"
    and ok: "direction_ok content plain queued input base d r w"
  shows "rinv r' \<and> winv w' \<and> \<not> broken w' \<and> direction_ok content plain queued input base d' r' w'"
proof -
  obtain xs where xs: "plain w = base @ xs" "length xs = dr_amount d" "input = xs @ dr_buf d @ content r"
    using ok by (auto simp: direction_ok_def)
  show ?thesis
  proof (cases op)
    case (CopyRead n)
    then consider "d' = d" "r' = r" "w' = w" | "w' = w" "d' = d" "rpoll r n = (Pending, r')"
      | bs where "w' = w" "rpoll r n = (Ready (Inr bs), r')" "d' = (if bs = [] then d\<lparr>dr_eof := True\<rparr> else d\<lparr>dr_buf := dr_buf d @ bs\<rparr>)"
          "0 < n" "\<not> dr_eof d"
      using assms(1) by (auto simp: copy_poll_def split: if_splits prod.splits poll.splits sum.splits)
    then show ?thesis
    proof cases
      case 1
      then show ?thesis using assms by simp
    next
      case 2
      then show ?thesis
        using assms src.poll_inv [OF assms(2) 2(3)] src.poll_pending [OF assms(2) 2(3)] by (simp add: direction_ok_def)
    next
      case 3
      then show ?thesis
        using assms src.poll_inv [OF assms(2) 3(2)] src.poll_ready [OF assms(2) 3(2)] src.poll_eof [OF assms(2) 3(4), of r'] xs
        by (auto simp: direction_ok_def)
    qed
  next
    case CopyWrite
    then consider "d' = d" "r' = r" "w' = w" | "r' = r" "d' = d" "wpoll w (dr_buf d) = (Pending, w')" "dr_buf d \<noteq> []"
      | n where "r' = r" "wpoll w (dr_buf d) = (Ready (Inr n), w')" "d' = d\<lparr>dr_buf := drop n (dr_buf d), dr_amount := dr_amount d + n\<rparr>"
          "dr_buf d \<noteq> []"
      using assms(1) by (auto simp: copy_poll_def split: if_splits prod.splits poll.splits sum.splits)
    then show ?thesis
    proof cases
      case 1
      then show ?thesis using assms by simp
    next
      case 2
      then show ?thesis
        using assms dst.poll_inv [OF assms(3) 2(3)] dst.poll_pending [OF assms(3) 2(3)] dst.poll_alive [OF assms(3,4) 2(3)]
        by (auto simp: direction_ok_def)
    next
      case 3
      note W = dst.poll_inv [OF assms(3) 3(2)] dst.poll_ok [OF assms(3) 3(2)] dst.poll_alive [OF assms(3,4) 3(2)]
      have "input = (xs @ take n (dr_buf d)) @ drop n (dr_buf d) @ content r" using xs(3) by simp
      moreover have "plain w' = base @ (xs @ take n (dr_buf d))" "length (xs @ take n (dr_buf d)) = dr_amount d + n"
        using W(2) xs by auto
      ultimately show ?thesis
        using assms(2) W 3 ok unfolding direction_ok_def by (auto intro!: exI [of _ "xs @ take n (dr_buf d)"])
    qed
  next
    case CopyFlush
    then consider "d' = d" "r' = r" "w' = w" | "r' = r" "d' = d" "flush w = (Pending, w')" "\<not> dr_flushed d"
      | "r' = r" "flush w = (Ready (Inr ()), w')" "d' = (if dr_eof d \<and> dr_buf d = [] then d\<lparr>dr_flushed := True\<rparr> else d)" "\<not> dr_flushed d"
      using assms(1) by (auto simp: copy_poll_def split: if_splits prod.splits poll.splits sum.splits)
    then show ?thesis
    proof cases
      case 1
      then show ?thesis using assms by simp
    next
      case 2
      then show ?thesis
        using assms dst.flush_inv [OF assms(3) 2(3)] dst.flush_pending [OF assms(3) 2(3)] dst.flush_alive [OF assms(3,4) 2(3)]
        by (auto simp: direction_ok_def)
    next
      case 3
      then show ?thesis
        using assms dst.flush_inv [OF assms(3) 3(2)] dst.flush_ok [OF assms(3) 3(2)] dst.flush_alive [OF assms(3,4) 3(2)]
        by (auto simp: direction_ok_def)
    qed
  next
    case CopyShutdown
    then consider "d' = d" "r' = r" "w' = w" | x where "r' = r" "shutdown w = (x, w')" "dr_flushed d" "d' = d \<or> d' = d\<lparr>dr_shut := True\<rparr>"
      using assms(1) by (auto simp: copy_poll_def split: if_splits prod.splits poll.splits sum.splits)
    then show ?thesis
    proof cases
      case 1
      then show ?thesis using assms by simp
    next
      case 2
      then have "queued w = []" using ok by (simp add: direction_ok_def)
      then show ?thesis
        using assms(2) ok 2 dst.shutdown_flushed [OF assms(3,4) _ 2(2)] by (auto simp: direction_ok_def)
    qed
  qed
qed

end

subsection \<open>Both directions\<close>

abbreviation client_in :: "('cr, 'cw, 'sr, 'sw) relay \<Rightarrow> 'cr" where "client_in s \<equiv> cs_reader (si_inner (rl_client s))"
abbreviation client_out :: "('cr, 'cw, 'sr, 'sw) relay \<Rightarrow> 'cw" where "client_out s \<equiv> cs_writer (si_inner (rl_client s))"
abbreviation server_in :: "('cr, 'cw, 'sr, 'sw) relay \<Rightarrow> 'sr" where "server_in s \<equiv> cs_reader (rl_server s)"
abbreviation server_out :: "('cr, 'cw, 'sr, 'sw) relay \<Rightarrow> 'sw" where "server_out s \<equiv> cs_writer (rl_server s)"

locale relay_pair =
  up: relay_direction crpoll ccontent crinv crmeas swpoll swflush splain squeued sbroken swinv swshut +
  down: relay_direction srpoll scontent srinv srmeas cwpoll cwflush cplain cqueued cbroken cwinv cwshut
  for crpoll :: "'cr \<Rightarrow> nat \<Rightarrow> bytes io_result poll \<times> 'cr" and ccontent and crinv and crmeas
    and swpoll :: "'sw \<Rightarrow> bytes \<Rightarrow> nat io_result poll \<times> 'sw" and swflush and splain and squeued and sbroken and swinv and swshut
    and srpoll :: "'sr \<Rightarrow> nat \<Rightarrow> bytes io_result poll \<times> 'sr" and scontent and srinv and srmeas
    and cwpoll :: "'cw \<Rightarrow> bytes \<Rightarrow> nat io_result poll \<times> 'cw" and cwflush and cplain and cqueued and cbroken and cwinv and cwshut
begin

definition io :: "('cr, 'cw, 'sr, 'sw) relay_io" where
  "io = \<lparr>io_client_read = crpoll, io_client_write = cwpoll, io_client_flush = cwflush, io_client_shutdown = cwshut,
     io_server_read = srpoll, io_server_write = swpoll, io_server_flush = swflush, io_server_shutdown = swshut\<rparr>"

definition relay_ok :: "bytes \<Rightarrow> bytes \<Rightarrow> bytes \<Rightarrow> bytes \<Rightarrow> ('cr, 'cw, 'sr, 'sw) relay \<Rightarrow> bool" where
  "relay_ok cin sbase sin cbase s \<longleftrightarrow>
     crinv (client_in s) \<and> swinv (server_out s) \<and> \<not> sbroken (server_out s) \<and>
     direction_ok ccontent splain squeued cin sbase (rl_c2s s) (client_in s) (server_out s) \<and>
     srinv (server_in s) \<and> cwinv (client_out s) \<and> \<not> cbroken (client_out s) \<and>
     direction_ok scontent cplain cqueued sin cbase (rl_s2c s) (server_in s) (client_out s) \<and>
     c2s_bytes (si_counters (rl_client s)) = word_of_nat (dr_amount (rl_c2s s) + length (dr_buf (rl_c2s s))) \<and>
     s2c_bytes (si_counters (rl_client s)) = word_of_nat (dr_amount (rl_s2c s))"

lemma relay_start_ok:
  assumes "crinv cr" "swinv sw" "\<not> sbroken sw" "srinv sr" "cwinv cw" "\<not> cbroken cw"
  shows "relay_ok (ccontent cr) (splain sw) (scontent sr) (cplain cw) (relay_start epoch now cr cw sr sw user stats)"
  using assms
  by (simp add: relay_ok_def relay_start_def stats_io_new_def combined_new_def counters_new_def touch_def direction_ok_def direction_new_def)

lemma relay_copy_poll_ok:
  assumes "relay_ok cin sbase sin cbase s" "relay_copy_poll io now ev s = (None, s')"
  shows "relay_ok cin sbase sin cbase s'"
proof (cases ev)
  case (PollC2S op)
  then obtain d client server where p: "copy_poll (stats_poll_read (combined_poll_read crpoll) now) (combined_poll_write swpoll)
      (combined_poll_control swflush) (combined_poll_control swshut) op (rl_c2s s) (rl_client s) (rl_server s) = (None, d, client, server)"
      "s' = s\<lparr>rl_c2s := d, rl_client := client, rl_server := server\<rparr>"
    using assms(2) by (auto simp: relay_copy_poll_def io_def split: prod.splits)
  note T = c2s_transparent [OF p(1)]
  have "crinv (cs_reader (si_inner client)) \<and> swinv (cs_writer server) \<and> \<not> sbroken (cs_writer server) \<and>
      direction_ok ccontent splain squeued cin sbase d (cs_reader (si_inner client)) (cs_writer server)"
    using up.copy_poll_ok [OF T(1)] assms(1) unfolding relay_ok_def by blast
  moreover have "c2s_bytes (si_counters client) = word_of_nat (dr_amount d + length (dr_buf d))"
    using T(5) up.dst.poll_ok assms(1) by (auto simp: relay_ok_def)
  ultimately show ?thesis using assms(1) T(2-4) p(2) by (simp add: relay_ok_def)
next
  case (PollS2C op)
  then obtain d client server where p: "copy_poll (combined_poll_read srpoll) (stats_poll_write (combined_poll_write cwpoll) now)
      (stats_poll_control (combined_poll_control cwflush)) (stats_poll_control (combined_poll_control cwshut)) op
      (rl_s2c s) (rl_server s) (rl_client s) = (None, d, server, client)"
      "s' = s\<lparr>rl_s2c := d, rl_client := client, rl_server := server\<rparr>"
    using assms(2) by (auto simp: relay_copy_poll_def io_def split: prod.splits)
  note T = s2c_transparent [OF p(1)]
  have "srinv (cs_reader server) \<and> cwinv (cs_writer (si_inner client)) \<and> \<not> cbroken (cs_writer (si_inner client)) \<and>
      direction_ok scontent cplain cqueued sin cbase d (cs_reader server) (cs_writer (si_inner client))"
    using down.copy_poll_ok [OF T(1)] assms(1) unfolding relay_ok_def by blast
  then show ?thesis using assms(1) T(2-5) p(2) by (simp add: relay_ok_def)
next
  case WatchdogRound
  then show ?thesis using assms by (simp add: relay_copy_poll_def)
qed

lemma relay_run_ok:
  assumes "relay_ok cin sbase sin cbase s" "relay_run io evs s = (res, s')" "\<forall>e. res \<noteq> Some (CopyEnded (Inl e))"
  shows "relay_ok cin sbase sin cbase s' \<and>
    (\<forall>p. res = Some (CopyEnded (Inr p)) \<longrightarrow> dr_shut (rl_c2s s') \<and> dr_shut (rl_s2c s') \<and> p = (dr_amount (rl_c2s s'), dr_amount (rl_s2c s')))"
  using assms
proof (induction evs arbitrary: s)
  case Nil
  then show ?case by simp
next
  case (Cons x evs)
  obtain now ev where x: "x = (now, ev)" by fastforce
  obtain e s1 where p: "relay_copy_poll io now ev s = (e, s1)" by fastforce
  show ?case
  proof (cases "(ev = WatchdogRound \<and> watchdog_fires now (rl_client s)) \<or> e \<noteq> None")
    case True
    then show ?thesis using Cons.prems p by (auto simp: x split: if_splits)
  next
    case False
    then have "relay_ok cin sbase sin cbase s1" using relay_copy_poll_ok [OF Cons.prems(1)] p by simp
    then show ?thesis using Cons.IH [of s1] Cons.prems(2,3) False p by (auto simp: x split: if_splits)
  qed
qed

text \<open>While the relay has not failed, what each writer has taken is a prefix of what the other side sent, the rest being in the
  buffer or still ahead of the reader; when the copy has ended, everything has arrived and nothing is queued.\<close>

lemma relay_transparent:
  assumes "crinv cr" "swinv sw" "\<not> sbroken sw" "srinv sr" "cwinv cw" "\<not> cbroken cw"
    and "relay_run io evs (relay_start epoch now cr cw sr sw user stats) = (res, s)" "\<forall>e. res \<noteq> Some (CopyEnded (Inl e))"
  shows "\<exists>xs ys. splain (server_out s) = splain sw @ xs \<and> xs @ dr_buf (rl_c2s s) @ ccontent (client_in s) = ccontent cr \<and>
    cplain (client_out s) = cplain cw @ ys \<and> ys @ dr_buf (rl_s2c s) @ scontent (server_in s) = scontent sr \<and>
    s2c_bytes (si_counters (rl_client s)) = word_of_nat (length ys) \<and>
    c2s_bytes (si_counters (rl_client s)) = word_of_nat (length (ccontent cr) - length (ccontent (client_in s))) \<and>
    (\<forall>p. res = Some (CopyEnded (Inr p)) \<longrightarrow> xs = ccontent cr \<and> ys = scontent sr \<and> p = (length xs, length ys) \<and>
       squeued (server_out s) = [] \<and> cqueued (client_out s) = []) \<and>
    swinv (server_out s) \<and> \<not> sbroken (server_out s) \<and> cwinv (client_out s) \<and> \<not> cbroken (client_out s)"
proof -
  note R = relay_run_ok [OF relay_start_ok [OF assms(1-6)] assms(7,8)]
  obtain xs where xs: "splain (server_out s) = splain sw @ xs" "length xs = dr_amount (rl_c2s s)" "ccontent cr = xs @ dr_buf (rl_c2s s) @ ccontent (client_in s)"
    using R by (auto simp: relay_ok_def direction_ok_def)
  obtain ys where ys: "cplain (client_out s) = cplain cw @ ys" "length ys = dr_amount (rl_s2c s)" "scontent sr = ys @ dr_buf (rl_s2c s) @ scontent (server_in s)"
    using R by (auto simp: relay_ok_def direction_ok_def)
  have "c2s_bytes (si_counters (rl_client s)) = word_of_nat (length (ccontent cr) - length (ccontent (client_in s)))"
    using R xs by (simp add: relay_ok_def)
  moreover have "s2c_bytes (si_counters (rl_client s)) = word_of_nat (length ys)"
    using R ys(2) by (simp add: relay_ok_def)
  moreover have "\<forall>p. res = Some (CopyEnded (Inr p)) \<longrightarrow> xs = ccontent cr \<and> ys = scontent sr \<and> p = (length xs, length ys) \<and>
       squeued (server_out s) = [] \<and> cqueued (client_out s) = []"
    using R xs ys by (auto simp: relay_ok_def direction_ok_def)
  moreover have "swinv (server_out s)" "\<not> sbroken (server_out s)" "cwinv (client_out s)" "\<not> cbroken (client_out s)"
    using R by (simp_all add: relay_ok_def direction_ok_def)
  ultimately show ?thesis
    using xs(1,3) ys(1,3) by (intro exI [of _ xs] exI [of _ ys]) simp
qed

end

text \<open>The stacks that the relay runs on: to a datacenter over a bare socket, to the client over FakeTLS or a bare socket.\<close>

interpretation tls_relay: relay_pair "crypto_poll_read tls_poll_read" "crypto_content tls_content" "crypto_reader_wf tls_clean"
    "crypto_reader_meas tls_reader_meas" "cw_poll_write sink_poll" "cw_poll_flush sink_poll sink_control" "cw_plain sk_written sb sc"
    "\<lambda>w. cw_queued w @ []" "cw_broken (\<lambda>k. False)" "cw_inv (\<lambda>k. True) (\<lambda>k. False) sk_written sb sc" "cw_poll_shutdown sink_poll sink_control"
    "crypto_poll_read (\<lambda>u n. source_poll n u)" "crypto_content source_bytes" "crypto_reader_wf source_wf" "crypto_reader_meas source_meas"
    "cw_poll_write tls_poll_write" "cw_poll_flush tls_poll_write tls_poll_flush" "cw_plain (tls_accepted b) cb cc"
    "\<lambda>w. cw_queued w @ tls_queued (cw_upstream w)" "cw_broken tls_writer_broken"
    "cw_inv (tls_writer_inv b) tls_writer_broken (tls_accepted b) cb cc" "cw_poll_shutdown tls_poll_write tls_poll_shutdown"
  for sb sc b cb cc
  by unfold_locales

interpretation raw_relay: relay_pair "crypto_poll_read (\<lambda>u n. source_poll n u)" "crypto_content source_bytes" "crypto_reader_wf source_wf"
    "crypto_reader_meas source_meas" "cw_poll_write sink_poll" "cw_poll_flush sink_poll sink_control" "cw_plain sk_written sb sc"
    "\<lambda>w. cw_queued w @ []" "cw_broken (\<lambda>k. False)" "cw_inv (\<lambda>k. True) (\<lambda>k. False) sk_written sb sc" "cw_poll_shutdown sink_poll sink_control"
    "crypto_poll_read (\<lambda>u n. source_poll n u)" "crypto_content source_bytes" "crypto_reader_wf source_wf" "crypto_reader_meas source_meas"
    "cw_poll_write sink_poll" "cw_poll_flush sink_poll sink_control" "cw_plain sk_written cb cc"
    "\<lambda>w. cw_queued w @ []" "cw_broken (\<lambda>k. False)" "cw_inv (\<lambda>k. True) (\<lambda>k. False) sk_written cb cc" "cw_poll_shutdown sink_poll sink_control"
  for sb sc cb cc
  by unfold_locales

subsection \<open>The watchdog\<close>

text \<open>C32: The activity timeout keeps its bounds. If the last activity was at instant \<open>t\<close>, a round of the watchdog at instant \<open>now\<close>
  ends the relay when 30 minutes have passed since then, and does not end it when less than 30 minutes minus the
  millisecond lost in rounding have passed; times in nanoseconds, for relays of less than \<open>2 ^ 64\<close> milliseconds.\<close>

theorem watchdog_bounds:
  assumes "epoch \<le> t" "t \<le> now" "(now - epoch) div 1000000 < 2 ^ 64"
    and "last_activity_ms (si_counters client) = millis_since t (si_epoch client)" "si_epoch client = epoch"
  shows "(1800 * 10 ^ 9 \<le> now - t \<longrightarrow> watchdog_fires now client) \<and>
    (watchdog_fires now client \<longrightarrow> 1800 * 10 ^ 9 < now - t + 10 ^ 6)"
proof -
  have le: "(t - epoch) div 1000000 \<le> (now - epoch) div 1000000" using assms(2) by (intro div_le_mono diff_le_mono)
  then have "idle_duration now epoch (si_counters client) = (now - epoch) div 1000000 - (t - epoch) div 1000000"
    using assms(3-5) by (simp add: idle_duration_def millis_since_def unsigned_of_nat take_bit_nat_eq_self)
  then have "watchdog_fires now client \<longleftrightarrow> 1800000 \<le> (now - epoch) div 1000000 - (t - epoch) div 1000000"
    using assms(5) by (simp add: watchdog_fires_def ACTIVITY_TIMEOUT_def)
  then show ?thesis using assms(1,2) by (auto simp: div_le_mono)
qed

theorem watchdog_bounds_witness:
  "watchdog_fires (1800 * 10 ^ 9 + 5) (stats_io_new 5 () counters_new \<lparr>telemetry_user_enabled = True, stats_users = Map.empty\<rparr> ''u'' 0)"
  using watchdog_bounds [of 0 5 "1800 * 10 ^ 9 + 5" "stats_io_new 5 () counters_new \<lparr>telemetry_user_enabled = True, stats_users = Map.empty\<rparr> ''u'' 0"]
  by (simp add: stats_io_new_def touch_def)

end
