(* ===== verification/Direct_Relay.thy ===== *)
theory Direct_Relay
  imports Relay Handshake Net_Text
begin

section \<open>Relaying to a datacenter (\<open>proxy/direct_relay.rs\<close>)\<close>

text \<open>
  The choice of the datacenter's address, the handshake with it and the session. Connecting is the upstream manager's
  business and an argument; configured texts are bytes.
\<close>

record direct_config =
  dc_net_prefer :: byte
  dc_net_ipv6 :: "bool option"
  dc_overrides :: "bytes \<rightharpoonup> bytes list"
  dc_default_dc :: "byte option"
  dc_fast_mode :: bool
  dc_crypto_pending_buffer :: nat

subsection \<open>The address\<close>

definition prefer_v6 :: "direct_config \<Rightarrow> bool" where
  "prefer_v6 cfg \<longleftrightarrow> dc_net_prefer cfg = 6 \<and> (case dc_net_ipv6 cfg of Some b \<Rightarrow> b | None \<Rightarrow> True)"

definition dc_override :: "u16 \<Rightarrow> direct_config \<Rightarrow> socket_addr option" where
  "dc_override dc_idx cfg =
     (case dc_overrides cfg (dec_int (sint dc_idx)) of
        None \<Rightarrow> None
      | Some addrs \<Rightarrow>
          let parsed = List.map_filter parse_socket_addr addrs in
          (case find (\<lambda>a. is_ipv6 a = prefer_v6 cfg) parsed of
             Some a \<Rightarrow> Some a
           | None \<Rightarrow> (case parsed of a # _ \<Rightarrow> Some a | [] \<Rightarrow> None)))"

definition get_dc_addr_static :: "u16 \<Rightarrow> direct_config \<Rightarrow> socket_addr" where
  "get_dc_addr_static dc_idx cfg =
     (let datacenters = (if prefer_v6 cfg then TG_DATACENTERS_V6 else TG_DATACENTERS_V4); num_dcs = length datacenters in
      case dc_override dc_idx cfg of
        Some addr \<Rightarrow> addr
      | None \<Rightarrow>
          let abs_dc = nat \<bar>sint dc_idx\<bar> in
          if 1 \<le> abs_dc \<and> abs_dc \<le> num_dcs then SocketAddr (datacenters ! (abs_dc - 1)) TG_DATACENTER_PORT
          else
            let default_dc = unat (case dc_default_dc cfg of Some d \<Rightarrow> d | None \<Rightarrow> 2);
                fallback_idx = (if 1 \<le> default_dc \<and> default_dc \<le> num_dcs then default_dc - 1 else 1)
            in SocketAddr (datacenters ! fallback_idx) TG_DATACENTER_PORT)"

subsection \<open>The handshake and the session\<close>

text \<open>The nonce loop and the socket carry fuel.\<close>

definition do_tg_handshake_static :: "ctr_cipher \<Rightarrow> 'r std_rng \<Rightarrow> nat \<Rightarrow> source \<Rightarrow> sink \<Rightarrow> handshake_success \<Rightarrow> direct_config \<Rightarrow> 'r secure_random \<Rightarrow>
    ((proxy_error + (source crypto_reader \<times> sink crypto_writer)) \<times> 'r secure_random) option" where
  "do_tg_handshake_static ks R fuel tg_read tg_write success cfg rng =
     (case generate_tg_nonce fuel R (hs_proto_tag success) (hs_dc_idx success) (hs_enc_key success) (hs_enc_iv success)
             (dc_fast_mode cfg) rng of
        None \<Rightarrow> None
      | Some ((nonce, _), rng) \<Rightarrow>
          (case encrypt_tg_nonce_with_ciphers ks nonce of (encrypted_nonce, tg_encryptor, tg_decryptor) \<Rightarrow>
             (case write_loop sink_poll fuel encrypted_nonce tg_write of
                None \<Rightarrow> None
              | Some (Inl e, _) \<Rightarrow> Some (Inl (ProxyIo e), rng)
              | Some (Inr _, tg_write) \<Rightarrow>
                  (case flush_loop sink_control fuel tg_write of
                     None \<Rightarrow> None
                   | Some (Inl e, _) \<Rightarrow> Some (Inl (ProxyIo e), rng)
                   | Some (Inr _, tg_write) \<Rightarrow>
                       Some (Inr (crypto_reader_new tg_read tg_decryptor,
                                  crypto_writer_new tg_write tg_encryptor (dc_crypto_pending_buffer cfg)), rng)))))"

text \<open>The scope of a user named \<open>scope_...\<close>.\<close>

definition user_scope :: "string \<Rightarrow> string option" where
  "user_scope user = (if take 6 user = ''scope_'' \<and> drop 6 user \<noteq> [] then Some (drop 6 user) else None)"

record ('cr, 'cw) client_io =
  ci_read :: "'cr \<Rightarrow> nat \<Rightarrow> bytes io_result poll \<times> 'cr"
  ci_write :: "'cw \<Rightarrow> bytes \<Rightarrow> nat io_result poll \<times> 'cw"
  ci_flush :: "'cw \<Rightarrow> unit io_result poll \<times> 'cw"
  ci_shutdown :: "'cw \<Rightarrow> unit io_result poll \<times> 'cw"

definition direct_io :: "('cr, 'cw) client_io \<Rightarrow> ('cr, 'cw, source crypto_reader, sink crypto_writer) relay_io" where
  "direct_io K =
     \<lparr>io_client_read = ci_read K, io_client_write = ci_write K, io_client_flush = ci_flush K, io_client_shutdown = ci_shutdown K,
      io_server_read = crypto_poll_read (\<lambda>u n. source_poll n u), io_server_write = cw_poll_write sink_poll,
      io_server_flush = cw_poll_flush sink_poll sink_control, io_server_shutdown = cw_poll_shutdown sink_poll sink_control\<rparr>"

definition handle_via_direct :: "('cr, 'cw) client_io \<Rightarrow> ctr_cipher \<Rightarrow> 'r std_rng \<Rightarrow>
    (socket_addr \<Rightarrow> u16 \<Rightarrow> string option \<Rightarrow> proxy_error + (source \<times> sink)) \<Rightarrow> nat \<Rightarrow> nat \<Rightarrow> nat \<Rightarrow> (nat \<times> relay_event) list \<Rightarrow>
    'cr \<Rightarrow> 'cw \<Rightarrow> handshake_success \<Rightarrow> stats \<Rightarrow> direct_config \<Rightarrow> 'r secure_random \<Rightarrow>
    ((proxy_error + unit) \<times> stats \<times> 'r secure_random) option" where
  "handle_via_direct K ks R connect fuel epoch now events client_reader client_writer success stats cfg rng =
     (let user = hs_user success; dc_addr = get_dc_addr_static (hs_dc_idx success) cfg in
      case connect dc_addr (hs_dc_idx success) (user_scope user) of
        Inl e \<Rightarrow> Some (Inl e, stats, rng)
      | Inr (tg_read, tg_write) \<Rightarrow>
          (case do_tg_handshake_static ks R fuel tg_read tg_write success cfg rng of
             None \<Rightarrow> None
           | Some (Inl e, rng) \<Rightarrow> Some (Inl e, stats, rng)
           | Some (Inr (tg_reader, tg_writer), rng) \<Rightarrow>
               let stats = increment_user_curr_connects user (increment_user_connects user stats) in
               (case relay_bidirectional (direct_io K) fuel epoch now events client_reader client_writer tg_reader tg_writer user stats of
                  None \<Rightarrow> None
                | Some (result, s) \<Rightarrow> Some (result, decrement_user_curr_connects user (si_stats (rl_client s)), rng))))"

definition tls_client_io :: "(tls_reader crypto_reader, tls_writer crypto_writer) client_io" where
  "tls_client_io =
     \<lparr>ci_read = crypto_poll_read tls_poll_read, ci_write = cw_poll_write tls_poll_write,
      ci_flush = cw_poll_flush tls_poll_write tls_poll_flush, ci_shutdown = cw_poll_shutdown tls_poll_write tls_poll_shutdown\<rparr>"

subsection \<open>The address is always one of the configured or built-in ones\<close>

lemma datacenters_length: "length TG_DATACENTERS_V4 = 5" "length TG_DATACENTERS_V6 = 5"
  by (simp_all add: TG_DATACENTERS_V4_def TG_DATACENTERS_V6_def)

lemma datacenters_family:
  "a \<in> set TG_DATACENTERS_V4 \<Longrightarrow> \<not> is_ipv6 (SocketAddr a p)" "a \<in> set TG_DATACENTERS_V6 \<Longrightarrow> is_ipv6 (SocketAddr a p)"
  by (auto simp: TG_DATACENTERS_V4_def TG_DATACENTERS_V6_def v4_def)

lemma dc_override_parses:
  assumes "dc_override dc_idx cfg = Some a"
  shows "\<exists>addrs t. dc_overrides cfg (dec_int (sint dc_idx)) = Some addrs \<and> t \<in> set addrs \<and> parse_socket_addr t = Some a \<and>
    ((\<exists>t' \<in> set addrs. \<exists>b. parse_socket_addr t' = Some b \<and> is_ipv6 b = prefer_v6 cfg) \<longrightarrow> is_ipv6 a = prefer_v6 cfg)"
proof -
  obtain addrs where d: "dc_overrides cfg (dec_int (sint dc_idx)) = Some addrs"
    using assms by (auto simp: dc_override_def split: option.splits)
  let ?p = "List.map_filter parse_socket_addr addrs"
  have m: "b \<in> set ?p \<longleftrightarrow> (\<exists>t \<in> set addrs. parse_socket_addr t = Some b)" for b
    by (force simp: List.map_filter_def)
  have "a \<in> set ?p \<and> ((\<exists>b \<in> set ?p. is_ipv6 b = prefer_v6 cfg) \<longrightarrow> is_ipv6 a = prefer_v6 cfg)"
  proof (cases "find (\<lambda>a. is_ipv6 a = prefer_v6 cfg) ?p")
    case None
    then obtain r where "?p = a # r"
      using assms d by (auto simp: dc_override_def Let_def simp del: find.simps split: list.splits)
    moreover have "\<not> (\<exists>b \<in> set ?p. is_ipv6 b = prefer_v6 cfg)" using None by (auto simp: find_None_iff)
    ultimately show ?thesis by simp
  next
    case (Some b)
    then have "a = b" using assms d by (simp add: dc_override_def Let_def)
    then show ?thesis using Some by (auto simp: find_Some_iff)
  qed
  then show ?thesis using d m by blast
qed

text \<open>A datacenter index, known or not, always gets an address: a configured one for that index if any of its texts parses, and
  then one of the preferred family if there is one; otherwise a built-in address of the preferred family, the one of that
  index (of its absolute value) for the five known datacenters, on the standard port.\<close>

theorem dc_address:
  "(\<exists>addrs t. dc_overrides cfg (dec_int (sint dc_idx)) = Some addrs \<and> t \<in> set addrs \<and> parse_socket_addr t = Some (get_dc_addr_static dc_idx cfg) \<and>
      ((\<exists>t' \<in> set addrs. \<exists>b. parse_socket_addr t' = Some b \<and> is_ipv6 b = prefer_v6 cfg) \<longrightarrow> is_ipv6 (get_dc_addr_static dc_idx cfg) = prefer_v6 cfg)) \<or>
   (\<exists>i < 5. get_dc_addr_static dc_idx cfg =
        SocketAddr ((if prefer_v6 cfg then TG_DATACENTERS_V6 else TG_DATACENTERS_V4) ! i) TG_DATACENTER_PORT \<and>
      is_ipv6 (get_dc_addr_static dc_idx cfg) = prefer_v6 cfg \<and>
      (1 \<le> \<bar>sint dc_idx\<bar> \<and> \<bar>sint dc_idx\<bar> \<le> 5 \<longrightarrow> int i = \<bar>sint dc_idx\<bar> - 1))"
proof (cases "dc_override dc_idx cfg")
  case (Some a)
  then have "get_dc_addr_static dc_idx cfg = a" by (simp add: get_dc_addr_static_def Let_def)
  then show ?thesis using dc_override_parses [OF Some] by blast
next
  case None
  let ?dcs = "if prefer_v6 cfg then TG_DATACENTERS_V6 else TG_DATACENTERS_V4"
  define d where "d = unat (case dc_default_dc cfg of Some d \<Rightarrow> d | None \<Rightarrow> 2)"
  define n where "n = nat \<bar>sint dc_idx\<bar>"
  define i where "i = (if 1 \<le> n \<and> n \<le> 5 then n - 1 else if 1 \<le> d \<and> d \<le> 5 then d - 1 else 1)"
  have len: "length ?dcs = 5" by (simp add: datacenters_length)
  have i: "i < 5" "get_dc_addr_static dc_idx cfg = SocketAddr (?dcs ! i) TG_DATACENTER_PORT"
    unfolding get_dc_addr_static_def Let_def len None option.case d_def [symmetric] n_def [symmetric] by (auto simp: i_def)
  moreover have "1 \<le> \<bar>sint dc_idx\<bar> \<and> \<bar>sint dc_idx\<bar> \<le> 5 \<longrightarrow> int i = \<bar>sint dc_idx\<bar> - 1"
    by (auto simp: i_def n_def)
  moreover have "?dcs ! i \<in> set ?dcs" using i(1) by (intro nth_mem) (simp add: datacenters_length)
  then have "is_ipv6 (SocketAddr (?dcs ! i) TG_DATACENTER_PORT) = prefer_v6 cfg" using datacenters_family by (auto split: if_splits)
  ultimately show ?thesis by (intro disjI2 exI [of _ i]) simp
qed

theorem dc_address_witness:
  "get_dc_addr_static 2 \<lparr>dc_net_prefer = 4, dc_net_ipv6 = None, dc_overrides = Map.empty, dc_default_dc = None, dc_fast_mode = False,
     dc_crypto_pending_buffer = 0\<rparr> = SocketAddr (v4 149 154 167 51) TG_DATACENTER_PORT"
  using dc_address [of "\<lparr>dc_net_prefer = 4, dc_net_ipv6 = None, dc_overrides = Map.empty, dc_default_dc = None, dc_fast_mode = False,
     dc_crypto_pending_buffer = 0\<rparr>" 2]
  by (auto simp: prefer_v6_def TG_DATACENTERS_V4_def)

subsection \<open>The session\<close>

lemma do_tg_handshake_result:
  assumes "do_tg_handshake_static ks R fuel tg_read tg_write success cfg rng = Some (Inr (tgr, tgw), rng')" "sk_written tg_write = []"
    and "length (hs_enc_key success) = 32"
  shows "\<exists>h enc dec u. length h = 64 \<and> is_valid_nonce h \<and> dc_read ks h = ((Some (hs_proto_tag success), hs_dc_idx success), enc, dec) \<and>
    tgr = crypto_reader_new tg_read dec \<and> tgw = crypto_writer_new u enc (dc_crypto_pending_buffer cfg) \<and> sk_written u = h"
proof -
  obtain nonce keys rng1 where n: "generate_tg_nonce fuel R (hs_proto_tag success) (hs_dc_idx success) (hs_enc_key success) (hs_enc_iv success)
      (dc_fast_mode cfg) rng = Some ((nonce, keys), rng1)"
    using assms(1) by (auto simp: do_tg_handshake_static_def split: option.splits)
  obtain h enc dec where h: "encrypt_tg_nonce_with_ciphers ks nonce = (h, enc, dec)" by (metis prod_cases3)
  obtain w1 u where w: "write_loop sink_poll fuel h tg_write = Some (Inr (), w1)" "flush_loop sink_control fuel w1 = Some (Inr (), u)"
      "tgr = crypto_reader_new tg_read dec" "tgw = crypto_writer_new u enc (dc_crypto_pending_buffer cfg)"
    using assms(1) n h by (auto simp: do_tg_handshake_static_def split: option.splits sum.splits)
  have "sk_written u = h"
    using raw_out.write_loop_plain [OF TrueI w(1)] raw_out.flush_loop_plain [OF TrueI w(2)] assms(2) by simp
  then show ?thesis
    using tg_nonce_roundtrip [OF n assms(3) h] w by (auto simp: HANDSHAKE_LEN_def)
qed

text \<open>The writer to the datacenter, seen from the first byte of the socket under the cipher that the datacenter derives.\<close>

lemma dc_writer_inv:
  assumes "ctr_after c0 (sk_written u) = enc"
  shows "cw_inv (\<lambda>k. True) (\<lambda>k. False) sk_written 0 c0 (crypto_writer_new u enc m)" "\<not> cw_broken (\<lambda>k. False) (crypto_writer_new u enc m)"
    and "cw_plain sk_written 0 c0 (crypto_writer_new u enc m) = ctr_of c0 (sk_written u)"
  using assms
  by (simp_all add: cw_inv_def cw_defs cw_plain_def crypto_writer_new_def Let_def DEFAULT_MAX_PENDING_WRITE_def)

lemma dc_wire_split:
  assumes "cw_plain sk_written 0 c0 w = ctr_of c0 h @ xs" "length h \<le> length (sk_written (cw_upstream w))"
  shows "take (length h) (sk_written (cw_upstream w)) = h"
    and "ctr_of (ctr_after c0 h) (drop (length h) (sk_written (cw_upstream w)) @ cw_queued w) = xs"
proof -
  let ?s = "sk_written (cw_upstream w)" and ?n = "length h"
  have "ctr_of c0 (take ?n ?s) @ ctr_of (ctr_after c0 (take ?n ?s)) (drop ?n ?s @ cw_queued w) = ctr_of c0 h @ xs"
    using assms(1) by (metis (no_types, lifting) append.assoc append_take_drop_id ctr_of_append cw_cipher_def cw_plain_def drop0)
  then have e: "ctr_of c0 (take ?n ?s) = ctr_of c0 h" "ctr_of (ctr_after c0 (take ?n ?s)) (drop ?n ?s @ cw_queued w) = xs"
    using assms(2) by (auto simp: append_eq_append_conv)
  show "take ?n ?s = h" using arg_cong [OF e(1), of "ctr_of c0"] by simp
  then show "ctr_of (ctr_after c0 h) (drop ?n ?s @ cw_queued w) = xs" using e(2) by simp
qed

text \<open>C6: The direct session is transparent. The proxy has completed its handshake with the datacenter and relays a FakeTLS client. For
  every order in which the library polls the two directions, every cutting of the bytes and every pending poll, as long as no
  poll has failed: the datacenter finds in the first 64 bytes of its socket the client's protocol and datacenter and derives
  two ciphers; what it decrypts from the rest is a prefix of what the client sent; what the client has been sent is a
  prefix of what the datacenter encrypted; and when the copy has ended, the datacenter has all of it, and a client that
  reads its socket through FakeTLS and AES-CTR has all of the datacenter's answer.\<close>

theorem direct_session_transparent:
  assumes "do_tg_handshake_static ks R fuel tg_read tg_write success cfg rng = Some (Inr (tgr, tgw), rng')"
    and "sk_written tg_write = []" "source_wf tg_read" "length (hs_enc_key success) = 32" "crypto_reader_wf tls_clean cr"
    and "relay_run (direct_io tls_client_io) events (relay_start epoch now cr (crypto_writer_new (tls_writer_new k) c m) tgr tgw user stats) = (res, s)"
    and "\<forall>e. res \<noteq> Some (CopyEnded (Inl e))"
  shows "\<exists>enc dec. let sent = sk_written (cw_upstream (server_out s)); plain = crypto_content tls_content cr; back = ctr_of dec (source_bytes tg_read) in
    dc_read ks (take 64 sent) = ((Some (hs_proto_tag success), hs_dc_idx success), enc, dec) \<and>
    prefix (ctr_of enc (drop 64 sent)) plain \<and> prefix (cw_plain (tls_accepted (length (sk_written k))) 0 c (client_out s)) back \<and>
    (\<forall>p. res = Some (CopyEnded (Inr p)) \<longrightarrow> ctr_of enc (drop 64 sent) = plain \<and>
       (\<forall>u. source_wf u \<and> source_bytes u = drop (length (sk_written k)) (sk_written (tw_upstream (cw_upstream (client_out s)))) \<longrightarrow>
         crypto_content tls_content (crypto_reader_new (tls_reader_new u) c) = back))"
proof -
  let ?b = "length (sk_written k)" and ?cw = "crypto_writer_new (tls_writer_new k) c m"
  obtain h enc dec u where h: "length h = 64" "is_valid_nonce h" "dc_read ks h = ((Some (hs_proto_tag success), hs_dc_idx success), enc, dec)"
      "tgr = crypto_reader_new tg_read dec" "tgw = crypto_writer_new u enc (dc_crypto_pending_buffer cfg)" "sk_written u = h"
    using do_tg_handshake_result [OF assms(1,2,4)] by blast
  define c0 where "c0 = aes_ctr_new ks (subslice h 8 40) (u128_from_be_bytes (subslice h 40 56))"
  have c0: "ctr_after c0 h = enc" using h(3) by (simp add: dc_read_def c0_def Let_def)
  note W = dc_writer_inv [of c0 u enc "dc_crypto_pending_buffer cfg", unfolded h(6), OF c0, folded h(5)]
  have sr: "crypto_reader_wf source_wf tgr" "crypto_content source_bytes tgr = ctr_of dec (source_bytes tg_read)"
    using assms(3) by (simp_all add: h(4) crypto_reader_wf_def crypto_content_def crypto_reader_new_def)
  note cw = stack_writer_new [of k c m]
  have io: "direct_io tls_client_io = tls_relay.io" by (simp add: direct_io_def tls_client_io_def tls_relay.io_def)
  note run = assms(6) [unfolded io] assms(7)
  obtain xs ys where T: "cw_plain sk_written 0 c0 (server_out s) = ctr_of c0 h @ xs"
      "xs @ dr_buf (rl_c2s s) @ crypto_content tls_content (client_in s) = crypto_content tls_content cr"
      "cw_plain (tls_accepted ?b) 0 c (client_out s) = ys"
      "ys @ dr_buf (rl_s2c s) @ crypto_content source_bytes (server_in s) = ctr_of dec (source_bytes tg_read)"
      "\<forall>p. res = Some (CopyEnded (Inr p)) \<longrightarrow> xs = crypto_content tls_content cr \<and> ys = ctr_of dec (source_bytes tg_read) \<and>
         cw_queued (server_out s) = [] \<and> cw_queued (client_out s) @ tls_queued (cw_upstream (client_out s)) = []"
      "cw_inv (tls_writer_inv ?b) tls_writer_broken (tls_accepted ?b) 0 c (client_out s)" "\<not> cw_broken tls_writer_broken (client_out s)"
    using tls_relay.relay_transparent [OF assms(5) W(1,2) sr(1) cw(1,2) run, unfolded W(3) cw(4) sr(2) append_Nil append_Nil2] by blast
  note P = prefixI [OF T(2) [symmetric]] prefixI [OF T(4) [symmetric]]
  have "cw_inv (\<lambda>k. True) (\<lambda>k. False) sk_written 64 enc (server_out s)" "\<not> cw_broken (\<lambda>k. False) (server_out s)"
    using tls_relay.relay_transparent [OF assms(5) _ W(2) sr(1) cw(1,2) run, of 64 enc] crypto_writer_new_inv [of "\<lambda>k. True" u "\<lambda>k. False" sk_written enc]
    by (auto simp: h(1,5,6))
  then have len: "length h \<le> length (sk_written (cw_upstream (server_out s)))" by (simp add: h(1) cw_inv_def cw_sound_def)
  note S = dc_wire_split [OF T(1) len, unfolded h(1) c0]
  have "prefix (ctr_of enc (drop 64 (sk_written (cw_upstream (server_out s))))) xs" using S(2) by (metis ctr_of_append prefixI)
  then have "prefix (ctr_of enc (drop 64 (sk_written (cw_upstream (server_out s))))) (crypto_content tls_content cr)"
    using P(1) by (rule prefix_order.trans)
  then show ?thesis
    using h(3) S T P(2) stack_wire_content(2) [OF T(6,7)] unfolding Let_def by (intro exI [of _ enc] exI [of _ dec]) auto
qed

lemma demo_relay_read:
  assumes "crypto_content tls_content cr \<noteq> []" "crypto_reader_wf tls_clean cr"
    and "relay_run (direct_io tls_client_io) [(0, PollC2S (CopyRead 16))] (relay_start 0 0 cr cw sr sw user stats) = (res, s)"
  shows "res = None"
proof -
  have "\<nexists>e r. crypto_poll_read tls_poll_read cr 16 = (Ready (Inl e), r)"
    using crypto_tls_full.crypto_full.poll_fail [OF assms(2), of 16] assms(1) by blast
  then show ?thesis
    using assms(3)
    by (auto simp: relay_copy_poll_def direct_io_def tls_client_io_def copy_poll_def stats_poll_read_def combined_poll_read_def relay_start_def
        stats_io_new_def combined_new_def direction_new_def Let_def split: prod.splits poll.splits sum.splits if_splits)
qed

theorem direct_session_transparent_witness:
  "\<exists>tgr tgw rng' res s enc dec. relay_run (direct_io tls_client_io) [(0, PollC2S (CopyRead 16))]
      (relay_start 0 0 (crypto_reader_new (tls_reader_new [RdBytes [0x17, 3, 3, 0, 2, 7, 8]]) \<lparr>keystream = \<lambda>i. 0, ctr_pos = 0\<rparr>)
         (crypto_writer_new (tls_writer_new \<lparr>sk_script = [], sk_written = []\<rparr>) \<lparr>keystream = \<lambda>i. 0, ctr_pos = 0\<rparr> 0) tgr tgw ''u''
         \<lparr>telemetry_user_enabled = True, stats_users = Map.empty\<rparr>) = (res, s) \<and>
    do_tg_handshake_static (\<lambda>k iv n. word_of_nat n) const_rng 3 [] \<lparr>sk_script = [WrOk 64, WrOk 1], sk_written = []\<rparr>
      \<lparr>hs_user = ''u'', hs_dc_idx = 2, hs_proto_tag = Intermediate, hs_dec_key = [], hs_dec_iv = 0, hs_enc_key = replicate 32 1, hs_enc_iv = 0,
       hs_peer = SocketAddr (IpV4 1) 443, hs_is_tls = True\<rparr>
      \<lparr>dc_net_prefer = 4, dc_net_ipv6 = None, dc_overrides = Map.empty, dc_default_dc = None, dc_fast_mode = False, dc_crypto_pending_buffer = 0\<rparr>
      const_sr = Some (Inr (tgr, tgw), rng') \<and>
    dc_read (\<lambda>k iv n. word_of_nat n) (take 64 (sk_written (cw_upstream (server_out s)))) = ((Some Intermediate, 2), enc, dec)"
proof -
  let ?cr = "crypto_reader_new (tls_reader_new [RdBytes [0x17, 3, 3, 0, 2, 7, 8]]) \<lparr>keystream = \<lambda>i. 0, ctr_pos = 0\<rparr>"
  let ?k = "\<lparr>sk_script = [WrOk 64, WrOk 1], sk_written = []\<rparr>" and ?ks = "\<lambda>k iv n. word_of_nat n :: byte"
  let ?success = "\<lparr>hs_user = ''u'', hs_dc_idx = 2, hs_proto_tag = Intermediate, hs_dec_key = [], hs_dec_iv = 0, hs_enc_key = replicate 32 1, hs_enc_iv = 0,
       hs_peer = SocketAddr (IpV4 1) 443, hs_is_tls = True\<rparr>"
  let ?cfg = "\<lparr>dc_net_prefer = 4, dc_net_ipv6 = None, dc_overrides = Map.empty, dc_default_dc = None, dc_fast_mode = False, dc_crypto_pending_buffer = 0\<rparr>"
  obtain n keys g where n: "generate_tg_nonce 3 const_rng Intermediate 2 (replicate 32 1) 0 False const_sr = Some ((n, keys), g)"
    using const_nonce [of 2 Intermediate 2 "replicate 32 1" 0 False] by (auto simp: numeral_3_eq_3)
  obtain h e d where h: "encrypt_tg_nonce_with_ciphers ?ks n = (h, e, d)" by (metis prod_cases3)
  have l: "length h = 64" "h \<noteq> []" using tg_nonce_roundtrip [OF n _ h] by (auto simp: HANDSHAKE_LEN_def)
  have w: "write_loop sink_poll 3 h ?k = Some (Inr (), \<lparr>sk_script = [WrOk 1], sk_written = h\<rparr>)"
    using l by (simp add: numeral_3_eq_3 sink_poll.simps)
  have f: "flush_loop sink_control 3 \<lparr>sk_script = [WrOk 1], sk_written = h\<rparr> = Some (Inr (), \<lparr>sk_script = [], sk_written = h\<rparr>)"
    by (simp add: numeral_3_eq_3 sink_control.simps)
  obtain tgr tgw where t: "do_tg_handshake_static ?ks const_rng 3 [] ?k ?success ?cfg const_sr = Some (Inr (tgr, tgw), g)"
    using n h w f by (simp add: do_tg_handshake_static_def)
  have "length (crypto_content tls_content ?cr) = 2"
    by (simp add: crypto_reader_new_def crypto_content_def tls_reader_new_content tls_record_example)
  then have cr: "crypto_content tls_content ?cr \<noteq> []" "crypto_reader_wf tls_clean ?cr"
    by (auto simp: crypto_reader_new_def tls_record_example crypto_reader_wf_def tls_clean_def tls_reader_wf_def
        tls_reader_records_def tls_reader_new_def no_alert_def source_wf_def record_types_distinct [symmetric])
  obtain res s where r: "relay_run (direct_io tls_client_io) [(0, PollC2S (CopyRead 16))] (relay_start 0 0 ?cr
      (crypto_writer_new (tls_writer_new \<lparr>sk_script = [], sk_written = []\<rparr>) \<lparr>keystream = \<lambda>i. 0, ctr_pos = 0\<rparr> 0) tgr tgw ''u''
         \<lparr>telemetry_user_enabled = True, stats_users = Map.empty\<rparr>) = (res, s)" by fastforce
  have "\<exists>enc dec. dc_read ?ks (take 64 (sk_written (cw_upstream (server_out s)))) = ((Some Intermediate, 2), enc, dec)"
    using direct_session_transparent [OF t _ _ _ cr(2) r] demo_relay_read [OF cr r] by (auto simp: source_wf_def Let_def)
  then show ?thesis using r t by blast
qed

subsection \<open>The connection count\<close>

lemma count_curr_connects [simp]:
  "get_user_curr_connects u (si_stats (count_read now n s)) = get_user_curr_connects u (si_stats s)"
  "get_user_curr_connects u (si_stats (count_write now n s)) = get_user_curr_connects u (si_stats s)"
  by (auto simp: count_read_def count_write_def get_user_curr_connects_def add_user_octets_from_def add_user_octets_to_def
      increment_user_msgs_from_def increment_user_msgs_to_def bump_user_def user_stats_default_def Let_def split: option.splits)

lemma copy_poll_reader_kept:
  "copy_poll read write flush shutdown op d r w = (e, d', r', w') \<Longrightarrow> (\<And>r n. f (snd (read r n)) = f r) \<Longrightarrow> f r' = f r"
  by (cases op; auto simp: copy_poll_def split: prod.splits poll.splits sum.splits if_splits; metis snd_conv)

lemma copy_poll_writer_kept:
  assumes "copy_poll read write flush shutdown op d r w = (e, d', r', w')"
    and "\<And>w xs. f (snd (write w xs)) = f w" "\<And>w. f (snd (flush w)) = f w" "\<And>w. f (snd (shutdown w)) = f w"
  shows "f w' = f w"
  using assms by (cases op; auto simp: copy_poll_def split: prod.splits poll.splits sum.splits if_splits; metis snd_conv)

lemma stats_polls_connects:
  "get_user_curr_connects u (si_stats (snd (stats_poll_read p now s n))) = get_user_curr_connects u (si_stats s)"
  "get_user_curr_connects u (si_stats (snd (stats_poll_write q now s xs))) = get_user_curr_connects u (si_stats s)"
  "get_user_curr_connects u (si_stats (snd (stats_poll_control c s))) = get_user_curr_connects u (si_stats s)"
  by (simp_all add: stats_poll_read_def stats_poll_write_def stats_poll_control_def Let_def split: prod.split poll.split sum.split)

lemma relay_copy_poll_connects:
  assumes "relay_copy_poll E now ev s = (e, s')"
  shows "get_user_curr_connects u (si_stats (rl_client s')) = get_user_curr_connects u (si_stats (rl_client s))"
  using assms copy_poll_reader_kept [where f = "\<lambda>c. get_user_curr_connects u (si_stats c)", OF _ stats_polls_connects(1)]
    copy_poll_writer_kept [where f = "\<lambda>c. get_user_curr_connects u (si_stats c)", OF _ stats_polls_connects(2,3,3)]
  by (cases ev) (auto simp: relay_copy_poll_def split: prod.splits)

lemma relay_run_connects:
  "relay_run E evs s = (res, s') \<Longrightarrow> get_user_curr_connects u (si_stats (rl_client s')) = get_user_curr_connects u (si_stats (rl_client s))"
proof (induction E evs s rule: relay_run.induct)
  case (2 E now ev evs s)
  obtain e s1 where p: "relay_copy_poll E now ev s = (e, s1)" by fastforce
  then show ?case using 2 relay_copy_poll_connects [OF p, of u] by (auto split: if_splits option.splits)
qed simp

lemma flush_loop_stats: "flush_loop (stats_poll_control f) fuel c = Some (r, c') \<Longrightarrow> si_stats c' = si_stats c"
  by (induction fuel arbitrary: c) (auto simp: stats_poll_control_def split: prod.splits poll.splits)



end
