(* ===== verification/Net_Probe.thy ===== *)
theory Net_Probe
  imports Client_Hello Dns_Overrides
begin

section \<open>Probing the network (\<open>network/probe.rs\<close>, \<open>network/stun.rs\<close>)\<close>

text \<open>
  Which address families the proxy can use: the local addresses, the public ones as STUN servers or HTTP services report them, and
  the decision drawn from them. The host (sockets, name resolution, HTTP) is a parameter; a STUN exchange reads what the socket
  delivers, one event per round of its loop. Reads by index out of range are the value \<open>None\<close>, the panic of the source.
\<close>

subsection \<open>Addresses that are not public\<close>

text \<open>The predicates of the standard library.\<close>

definition v4_is_private :: "u32 \<Rightarrow> bool" where
  "v4_is_private ip =
     (let os = v4_octets ip in os ! 0 = 10 \<or> os ! 0 = 172 \<and> 16 \<le> os ! 1 \<and> os ! 1 \<le> 31 \<or> os ! 0 = 192 \<and> os ! 1 = 168)"

definition v4_is_loopback :: "u32 \<Rightarrow> bool" where "v4_is_loopback ip \<longleftrightarrow> v4_octets ip ! 0 = 127"

definition v4_is_link_local :: "u32 \<Rightarrow> bool" where "v4_is_link_local ip \<longleftrightarrow> v4_octets ip ! 0 = 169 \<and> v4_octets ip ! 1 = 254"

definition v4_is_multicast :: "u32 \<Rightarrow> bool" where "v4_is_multicast ip \<longleftrightarrow> 224 \<le> v4_octets ip ! 0 \<and> v4_octets ip ! 0 \<le> 239"

definition v6_is_unique_local :: "u128 \<Rightarrow> bool" where "v6_is_unique_local ip \<longleftrightarrow> segments ip ! 0 AND 0xfe00 = 0xfc00"

definition v6_is_multicast :: "u128 \<Rightarrow> bool" where "v6_is_multicast ip \<longleftrightarrow> segments ip ! 0 AND 0xff00 = 0xff00"

fun ip_is_loopback :: "ip_addr \<Rightarrow> bool" where
  "ip_is_loopback (IpV4 a) = v4_is_loopback a"
| "ip_is_loopback (IpV6 a) = (a = 1)"

fun ip_is_unspecified :: "ip_addr \<Rightarrow> bool" where
  "ip_is_unspecified (IpV4 a) = (a = 0)"
| "ip_is_unspecified (IpV6 a) = (a = 0)"

definition is_bogon_v4 :: "u32 \<Rightarrow> bool" where
  "is_bogon_v4 ip =
     (let octets = v4_octets ip in
      (v4_is_private ip \<or> v4_is_loopback ip \<or> v4_is_link_local ip) \<or>
      octets ! 0 = 0 \<or>
      octets ! 0 = 100 \<and> octets ! 1 AND 0xc0 = 64 \<or>
      octets ! 0 = 192 \<and> octets ! 1 = 0 \<and> octets ! 2 = 0 \<or>
      octets ! 0 = 192 \<and> octets ! 1 = 0 \<and> octets ! 2 = 2 \<or>
      octets ! 0 = 198 \<and> octets ! 1 AND 0xfe = 18 \<or>
      octets ! 0 = 198 \<and> octets ! 1 = 51 \<and> octets ! 2 = 100 \<or>
      octets ! 0 = 203 \<and> octets ! 1 = 0 \<and> octets ! 2 = 113 \<or>
      v4_is_multicast ip \<or>
      240 \<le> octets ! 0 \<or>
      ip = - 1)"

definition is_bogon_v6 :: "u128 \<Rightarrow> bool" where
  "is_bogon_v6 ip =
     (let segs = segments ip in
      (ip = 0 \<or> ip = 1 \<or> v6_is_unique_local ip) \<or>
      segs ! 0 AND 0xffc0 = 0xfe80 \<or>
      take 5 segs = [0, 0, 0, 0, 0] \<and> segs ! 5 = 0xffff \<or>
      segs ! 0 = 0x0100 \<and> subslice segs 1 4 = [0, 0, 0] \<or>
      segs ! 0 = 0x2001 \<and> segs ! 1 = 0x0db8 \<or>
      segs ! 0 = 0x2002 \<or>
      v6_is_multicast ip)"

fun is_bogon :: "ip_addr \<Rightarrow> bool" where
  "is_bogon (IpV4 a) = is_bogon_v4 a"
| "is_bogon (IpV6 a) = is_bogon_v6 a"

subsection \<open>A STUN exchange\<close>

datatype ip_family = FamV4 | FamV6

record stun_probe_result =
  sp_local_addr :: socket_addr
  sp_reflected_addr :: socket_addr
  sp_family :: ip_family

record dual_stun_result =
  ds_v4 :: "stun_probe_result option"
  ds_v6 :: "stun_probe_result option"

definition STUN_MAGIC :: u32 where "STUN_MAGIC = 0x2112A442"

definition stun_request :: "bytes \<Rightarrow> bytes" where
  "stun_request txid =
     (let req = replicate 20 0;
          req = put req 0 (u16_to_be_bytes 1);
          req = put req 2 (u16_to_be_bytes 0);
          req = put req 4 (u32_to_be_bytes STUN_MAGIC)
      in put req 8 txid)"

text \<open>The address of an attribute: its type, family byte, raw address and port.\<close>

definition reflected_addr_of :: "bytes \<Rightarrow> nat \<Rightarrow> nat \<Rightarrow> bytes \<Rightarrow> u16 \<Rightarrow> socket_addr" where
  "reflected_addr_of txid atype family_byte raw_ip port =
     (let magic = u32_to_be_bytes STUN_MAGIC in
      if atype = 0x20 then
        let port = port XOR u16_from_be_bytes (take 2 magic) in
        if family_byte = 1 then SocketAddr (IpV4 (v4_of_octets (map2 (XOR) raw_ip magic))) port
        else SocketAddr (IpV6 (v6_of_octets (map2 (XOR) raw_ip (magic @ txid)))) port
      else if family_byte = 1 then SocketAddr (IpV4 (v4_of_octets raw_ip)) port
      else SocketAddr (IpV6 (v6_of_octets raw_ip)) port)"

text \<open>The attributes of an answer of \<open>n\<close> bytes in the buffer, from \<open>i\<close> on: the first address, if there is one.\<close>

function stun_attributes :: "bytes \<Rightarrow> bytes \<Rightarrow> nat \<Rightarrow> nat \<Rightarrow> socket_addr option option" where
  "stun_attributes txid buf n i =
     (if n < i + 4 then Some None
      else case be16 buf i of None \<Rightarrow> None | Some atype \<Rightarrow>
           case be16 buf (i + 2) of None \<Rightarrow> None | Some alen \<Rightarrow>
           if n < i + 4 + alen then Some None
           else if atype = 0x20 \<or> atype = 1 then
             (if alen < 8 then Some None
              else case idx buf (i + 4 + 1) of None \<Rightarrow> None | Some family_byte \<Rightarrow>
                   case be16 buf (i + 4 + 2) of None \<Rightarrow> None | Some port \<Rightarrow>
                   let len_check = (if family_byte = 1 then 4 else if family_byte = 2 then 16 else 0) in
                   if len_check = 0 \<or> alen < 4 + len_check then Some None
                   else case slice buf (i + 4 + 4) (i + 4 + 4 + len_check) of None \<Rightarrow> None | Some raw_ip \<Rightarrow>
                     Some (Some (reflected_addr_of txid atype family_byte raw_ip (word_of_nat port))))
           else stun_attributes txid buf n (i + 4 + (alen + 3) div 4 * 4))"
  by pat_completeness auto
termination by (relation "measure (\<lambda>(txid, buf, n, i). n - i)") auto

declare stun_attributes.simps [simp del]

text \<open>One round sends the request and waits for a datagram. An answer with no address starts another round.\<close>

datatype stun_event = StunSendFailed | StunRecvFailed | StunRecvTimeout | StunRecv bytes

datatype stun_outcome = StunRunning | StunPanic | StunDone "proxy_error + stun_probe_result option"

definition stun_receive :: "bytes \<Rightarrow> bytes \<Rightarrow> bytes" where
  "stun_receive buf d = put buf 0 (take 256 d)"

fun stun_loop :: "socket_addr option \<Rightarrow> ip_family \<Rightarrow> bytes \<Rightarrow> nat \<Rightarrow> bytes \<Rightarrow> stun_event list \<Rightarrow> stun_outcome" where
  "stun_loop local family txid attempt buf [] = StunRunning"
| "stun_loop local family txid attempt buf (StunSendFailed # es) = StunDone (Inl (ProxyMsg (Msg ''STUN send failed: {}'' [])))"
| "stun_loop local family txid attempt buf (StunRecvFailed # es) = StunDone (Inl (ProxyMsg (Msg ''STUN recv failed: {}'' [])))"
| "stun_loop local family txid attempt buf (StunRecvTimeout # es) =
     (if 3 \<le> attempt + 1 then StunDone (Inr None) else stun_loop local family txid (attempt + 1) buf es)"
| "stun_loop local family txid attempt buf (StunRecv d # es) =
     (let buf = stun_receive buf d; n = length (take 256 d) in
      if n < 20 then StunDone (Inr None)
      else case stun_attributes txid buf n 20 of
          None \<Rightarrow> StunPanic
        | Some None \<Rightarrow> stun_loop local family txid attempt buf es
        | Some (Some a) \<Rightarrow>
            (case local of
               None \<Rightarrow> StunDone (Inl (ProxyMsg (Msg ''STUN local_addr failed: {}'' [])))
             | Some l \<Rightarrow> StunDone (Inr (Some \<lparr>sp_local_addr = l, sp_reflected_addr = a, sp_family = family\<rparr>))))"

text \<open>The sockets and the resolver one exchange meets. A connect fails as unreachable (network or host unreachable, network down,
  unsupported) or otherwise.\<close>

datatype udp_connect = UdpConnected | UdpUnreachable | UdpFailed

record stun_net =
  st_bind :: "socket_addr \<Rightarrow> bool"
  st_overrides :: override_map
  st_lookup :: "bytes \<Rightarrow> socket_addr list option"
  st_connect :: "socket_addr \<Rightarrow> udp_connect"
  st_local_addr :: "socket_addr \<Rightarrow> socket_addr option"
  st_txid :: bytes
  st_events :: "socket_addr \<Rightarrow> stun_event list"

definition of_family :: "ip_family \<Rightarrow> socket_addr \<Rightarrow> bool" where
  "of_family family addr \<longleftrightarrow> is_ipv6 addr = (family = FamV6)"

definition resolve_stun_addr :: "stun_net \<Rightarrow> bytes \<Rightarrow> ip_family \<Rightarrow> proxy_error + socket_addr option" where
  "resolve_stun_addr N stun_addr family =
     (case parse_socket_addr stun_addr of
        Some addr \<Rightarrow> Inr (if of_family family addr then Some addr else None)
      | None \<Rightarrow>
          (case Option.bind (split_host_port stun_addr) (\<lambda>(host, port). map_option (\<lambda>ip. SocketAddr ip port) (resolve host port (st_overrides N))) of
             Some addr \<Rightarrow> Inr (if of_family family addr then Some addr else None)
           | None \<Rightarrow>
               (case st_lookup N stun_addr of
                  None \<Rightarrow> Inl (ProxyMsg (Msg ''STUN resolve failed: {}'' []))
                | Some addrs \<Rightarrow> Inr (List.find (of_family family) addrs))))"

fun stun_bind_addr :: "ip_family \<Rightarrow> ip_addr option \<Rightarrow> socket_addr option" where
  "stun_bind_addr FamV4 (Some (IpV4 ip)) = Some (SocketAddr (IpV4 ip) 0)"
| "stun_bind_addr FamV6 (Some (IpV6 ip)) = Some (SocketAddr (IpV6 ip) 0)"
| "stun_bind_addr FamV4 (Some (IpV6 ip)) = None"
| "stun_bind_addr FamV6 (Some (IpV4 ip)) = None"
| "stun_bind_addr FamV4 None = Some (SocketAddr (IpV4 0) 0)"
| "stun_bind_addr FamV6 None = Some (SocketAddr (IpV6 0) 0)"

definition stun_probe_family_with_bind :: "stun_net \<Rightarrow> bytes \<Rightarrow> ip_family \<Rightarrow> ip_addr option \<Rightarrow> stun_outcome" where
  "stun_probe_family_with_bind N stun_addr family bind_ip =
     (case stun_bind_addr family bind_ip of
        None \<Rightarrow> StunDone (Inr None)
      | Some bind_addr \<Rightarrow>
          if \<not> st_bind N bind_addr then
            StunDone (if bind_ip \<noteq> None then Inr None else Inl (ProxyMsg (Msg ''STUN bind failed: {}'' [])))
          else (case resolve_stun_addr N stun_addr family of
              Inl e \<Rightarrow> StunDone (Inl e)
            | Inr None \<Rightarrow> StunDone (Inr None)
            | Inr (Some addr) \<Rightarrow>
                (case st_connect N addr of
                   UdpConnected \<Rightarrow>
                     stun_loop (st_local_addr N bind_addr) family (st_txid N) 0 (replicate 256 0) (st_events N addr)
                 | UdpUnreachable \<Rightarrow>
                     StunDone (if family = FamV6 then Inr None else Inl (ProxyMsg (Msg ''STUN connect failed: {}'' [])))
                 | UdpFailed \<Rightarrow> StunDone (Inl (ProxyMsg (Msg ''STUN connect failed: {}'' []))))))"

definition stun_probe_family :: "stun_net \<Rightarrow> bytes \<Rightarrow> ip_family \<Rightarrow> stun_outcome" where
  "stun_probe_family N stun_addr family = stun_probe_family_with_bind N stun_addr family None"

text \<open>Both families at once: the result is there when both are done, and an error of either is the error of both. \<open>None\<close>: still running,
  or a panic.\<close>

definition stun_probe_dual :: "(ip_family \<Rightarrow> stun_net) \<Rightarrow> bytes \<Rightarrow> (proxy_error + dual_stun_result) option" where
  "stun_probe_dual N stun_addr =
     (case (stun_probe_family (N FamV4) stun_addr FamV4, stun_probe_family (N FamV6) stun_addr FamV6) of
        (StunDone x4, StunDone x6) \<Rightarrow>
          Some (case x4 of
              Inl e \<Rightarrow> Inl e
            | Inr r4 \<Rightarrow> (case x6 of Inl e \<Rightarrow> Inl e | Inr r6 \<Rightarrow> Inr \<lparr>ds_v4 = r4, ds_v6 = r6\<rparr>))
      | _ \<Rightarrow> None)"

subsection \<open>Many servers\<close>

text \<open>A bounded set of probes runs at a time; \<open>pick k\<close> says which of those running is the \<open>k\<close>-th to end. The result lists the
  servers in the order in which their probes end.\<close>

function probe_order :: "nat \<Rightarrow> (nat \<Rightarrow> nat) \<Rightarrow> nat \<Rightarrow> 'a list \<Rightarrow> 'a list \<Rightarrow> 'a list" where
  "probe_order concurrency pick k servers running =
     (let room = concurrency - length running;
          started = running @ take room servers;
          i = pick k mod length started
      in if started = [] then []
         else started ! i # probe_order concurrency pick (Suc k) (drop room servers) (take i started @ drop (Suc i) started))"
  by pat_completeness auto
termination
proof (relation "measure (\<lambda>(c, pick, k, servers, running). length servers + length running)")
  fix c k :: nat and pick :: "nat \<Rightarrow> nat" and servers running started :: "'a list" and room i
  assume "room = c - length running" "started = running @ take room servers" "i = pick k mod length started" "started \<noteq> []"
  then have "i < length started" "length started + length (drop room servers) = length servers + length running" by auto
  then show "((c, pick, Suc k, drop room servers, take i started @ drop (Suc i) started), (c, pick, k, servers, running)) \<in>
      measure (\<lambda>(c, pick, k, servers, running). length servers + length running)"
    by simp
qed simp

declare probe_order.simps [simp del]

text \<open>The votes for each reflected address, with the first result for it, as a list in the order of the first votes; the hash map
  lists them in another order, \<open>order\<close>. \<open>max_by_key\<close> takes the last of the largest.\<close>

fun tally :: "ip_addr \<Rightarrow> 'a \<Rightarrow> (ip_addr \<times> nat \<times> 'a) list \<Rightarrow> (ip_addr \<times> nat \<times> 'a) list" where
  "tally ip x [] = [(ip, 1, x)]"
| "tally ip x ((k, n, y) # m) = (if k = ip then (k, n + 1, y) # m else (k, n, y) # tally ip x m)"

fun max_by_count :: "(nat \<times> 'a) list \<Rightarrow> (nat \<times> 'a) option \<Rightarrow> (nat \<times> 'a) option" where
  "max_by_count [] best = best"
| "max_by_count (v # vs) best =
     max_by_count vs (case best of None \<Rightarrow> Some v | Some b \<Rightarrow> if fst b \<le> fst v then Some v else Some b)"

type_synonym 'a vote_order = "(ip_addr \<times> nat \<times> 'a) list \<Rightarrow> (ip_addr \<times> nat \<times> 'a) list"

definition quorum :: "'a vote_order \<Rightarrow> ('a \<Rightarrow> ip_addr) \<Rightarrow> 'a list \<Rightarrow> 'a option" where
  "quorum order ip xs = map_option snd (max_by_count (map snd (order (fold (\<lambda>x. tally (ip x) x) xs []))) None)"

definition collect_stun_servers :: "bytes list \<Rightarrow> bytes list" where
  "collect_stun_servers stun_servers = fold (\<lambda>s out. if s \<noteq> [] \<and> s \<notin> set out then out @ [s] else out) stun_servers []"

text \<open>\<open>N i\<close> is the network the \<open>i\<close>-th server's probe meets. A probe that times out or fails counts for nothing.\<close>

definition probe_stun_servers_parallel :: "(nat \<Rightarrow> ip_family \<Rightarrow> stun_net) \<Rightarrow> (nat \<Rightarrow> nat) \<Rightarrow> stun_probe_result vote_order \<Rightarrow> bytes list \<Rightarrow> nat \<Rightarrow> dual_stun_result" where
  "probe_stun_servers_parallel N pick order servers concurrency =
     (let results = List.map_filter (\<lambda>(i, s). case stun_probe_dual (N i) s of Some (Inr r) \<Rightarrow> Some r | _ \<Rightarrow> None)
                      (probe_order concurrency pick 0 (enumerate 0 servers) []);
          ip = (\<lambda>r. sa_ip (sp_reflected_addr r))
      in \<lparr>ds_v4 = quorum order ip (List.map_filter ds_v4 results), ds_v6 = quorum order ip (List.map_filter ds_v6 results)\<rparr>)"

subsection \<open>The probe and the decision\<close>

record network_config =
  nc_ipv4 :: bool
  nc_ipv6 :: "bool option"
  nc_prefer :: byte
  nc_multipath :: bool
  nc_stun_use :: bool
  nc_stun_servers :: "bytes list"
  nc_http_ip_detect_urls :: "bytes list"

record network_probe =
  np_detected_ipv4 :: "u32 option"
  np_detected_ipv6 :: "u128 option"
  np_reflected_ipv4 :: "socket_addr option"
  np_reflected_ipv6 :: "socket_addr option"
  np_ipv4_is_bogon :: bool
  np_ipv6_is_bogon :: bool
  np_ipv4_nat_detected :: bool
  np_ipv6_nat_detected :: bool
  np_ipv4_usable :: bool
  np_ipv6_usable :: bool

record network_decision =
  nd_ipv4_dc :: bool
  nd_ipv6_dc :: bool
  nd_ipv4_me :: bool
  nd_ipv6_me :: bool
  nd_effective_prefer :: byte
  nd_effective_multipath :: bool

definition prefer_ipv6 :: "network_decision \<Rightarrow> bool" where
  "prefer_ipv6 d \<longleftrightarrow> nd_effective_prefer d = 6"

definition me_families :: "network_decision \<Rightarrow> ip_family list" where
  "me_families d = (if nd_ipv4_me d then [FamV4] else []) @ (if nd_ipv6_me d then [FamV6] else [])"

text \<open>The host: the local address of a UDP socket connected to a well-known address of each family, if every step succeeds, the networks
  of the STUN probes, and the body an HTTP service answers with. \<open>ph_client\<close> says whether the HTTP client can be built.\<close>

record probe_host =
  ph_udp_v4 :: "socket_addr option"
  ph_udp_v6 :: "socket_addr option"
  ph_stun :: "nat \<Rightarrow> ip_family \<Rightarrow> stun_net"
  ph_pick :: "nat \<Rightarrow> nat"
  ph_order :: "stun_probe_result vote_order"
  ph_client :: bool
  ph_http :: "bytes \<Rightarrow> bytes option"

definition detect_local_ip_v4 :: "probe_host \<Rightarrow> u32 option" where
  "detect_local_ip_v4 H = (case ph_udp_v4 H of Some (SocketAddr (IpV4 a) _) \<Rightarrow> Some a | _ \<Rightarrow> None)"

definition detect_local_ip_v6 :: "probe_host \<Rightarrow> u128 option" where
  "detect_local_ip_v6 H = (case ph_udp_v6 H of Some (SocketAddr (IpV6 a) _) \<Rightarrow> Some a | _ \<Rightarrow> None)"

definition parse_ipv4 :: "bytes \<Rightarrow> u32 option" where
  "parse_ipv4 t = whole (read_ipv4 t)"

fun http_ips :: "probe_host \<Rightarrow> bytes list \<Rightarrow> u32 option" where
  "http_ips H [] = None"
| "http_ips H (url # urls) =
     (case Option.bind (ph_http H url) (\<lambda>body. parse_ipv4 (trim body)) of
        Some ip \<Rightarrow> if \<not> is_bogon_v4 ip then Some ip else http_ips H urls
      | None \<Rightarrow> http_ips H urls)"

definition detect_public_ipv4_http :: "probe_host \<Rightarrow> bytes list \<Rightarrow> u32 option" where
  "detect_public_ipv4_http H urls = (if ph_client H then http_ips H urls else None)"

definition run_probe :: "probe_host \<Rightarrow> network_config \<Rightarrow> bool \<Rightarrow> nat \<Rightarrow> network_probe" where
  "run_probe H config nat_probe concurrency =
     (let l4 = detect_local_ip_v4 H;
          l6 = detect_local_ip_v6 H;
          bogon4 = (case l4 of Some a \<Rightarrow> is_bogon_v4 a | None \<Rightarrow> False);
          bogon6 = (case l6 of Some a \<Rightarrow> is_bogon_v6 a | None \<Rightarrow> False);
          servers = collect_stun_servers (nc_stun_servers config);
          stun_res = (if nat_probe \<and> nc_stun_use config \<and> servers \<noteq> []
                      then probe_stun_servers_parallel (ph_stun H) (ph_pick H) (ph_order H) servers (max concurrency 1)
                      else \<lparr>ds_v4 = None, ds_v6 = None\<rparr>);
          r4 = map_option sp_reflected_addr (ds_v4 stun_res);
          r6 = map_option sp_reflected_addr (ds_v6 stun_res);
          r4 = (if nat_probe \<and> r4 = None \<and> bogon4
                then map_option (\<lambda>ip. SocketAddr (IpV4 ip) 0) (detect_public_ipv4_http H (nc_http_ip_detect_urls config)) else r4);
          public = (\<lambda>r. case r of Some a \<Rightarrow> \<not> is_bogon (sa_ip a) | None \<Rightarrow> False);
          ipv6_enabled = (case nc_ipv6 config of Some b \<Rightarrow> b | None \<Rightarrow> l6 \<noteq> None)
      in \<lparr>np_detected_ipv4 = l4, np_detected_ipv6 = l6, np_reflected_ipv4 = r4, np_reflected_ipv6 = r6,
          np_ipv4_is_bogon = bogon4, np_ipv6_is_bogon = bogon6,
          np_ipv4_nat_detected = (case (l4, r4) of (Some det, Some r) \<Rightarrow> IpV4 det \<noteq> sa_ip r | _ \<Rightarrow> False),
          np_ipv6_nat_detected = (case (l6, r6) of (Some det, Some r) \<Rightarrow> IpV6 det \<noteq> sa_ip r | _ \<Rightarrow> False),
          np_ipv4_usable = (nc_ipv4 config \<and> l4 \<noteq> None \<and> (\<not> bogon4 \<or> public r4)),
          np_ipv6_usable = (ipv6_enabled \<and> l6 \<noteq> None \<and> (\<not> bogon6 \<or> public r6))\<rparr>)"

definition decide_network_capabilities :: "network_config \<Rightarrow> network_probe \<Rightarrow> network_decision" where
  "decide_network_capabilities config probe =
     (let ipv6_enabled = (case nc_ipv6 config of Some b \<Rightarrow> b | None \<Rightarrow> np_detected_ipv6 probe \<noteq> None);
          ipv4_dc = (nc_ipv4 config \<and> np_detected_ipv4 probe \<noteq> None);
          ipv6_dc = (ipv6_enabled \<and> np_detected_ipv6 probe \<noteq> None);
          ipv4_me = (nc_ipv4 config \<and> np_detected_ipv4 probe \<noteq> None \<and> (\<not> np_ipv4_is_bogon probe \<or> np_reflected_ipv4 probe \<noteq> None));
          ipv6_me = (ipv6_enabled \<and> np_detected_ipv6 probe \<noteq> None \<and> (\<not> np_ipv6_is_bogon probe \<or> np_reflected_ipv6 probe \<noteq> None));
          effective_prefer = (if nc_prefer config = 6 \<and> (ipv6_me \<or> ipv6_dc) then 6
                              else if nc_prefer config = 4 \<and> (ipv4_me \<or> ipv4_dc) then 4
                              else if nc_prefer config = 6 then 4 else 4);
          me_families = (if ipv4_me then 1 else 0) + (if ipv6_me then 1 else 0 :: nat)
      in \<lparr>nd_ipv4_dc = ipv4_dc, nd_ipv6_dc = ipv6_dc, nd_ipv4_me = ipv4_me, nd_ipv6_me = ipv6_me,
          nd_effective_prefer = effective_prefer, nd_effective_multipath = (nc_multipath config \<and> 2 \<le> me_families)\<rparr>)"

subsection \<open>STUN answers are read right\<close>

lemma stun_attributes_safe: "n \<le> length buf \<Longrightarrow> \<exists>r. stun_attributes txid buf n i = Some r"
proof (induction txid buf n i rule: stun_attributes.induct)
  case (1 txid buf n i)
  show ?case
  proof (cases "n < i + 4")
    case False
    then obtain atype alen where b: "be16 buf i = Some atype" "be16 buf (i + 2) = Some alen"
      using "1.prems" by (auto simp: be16_def)
    consider "n < i + 4 + alen" | "\<not> n < i + 4 + alen" "atype = 0x20 \<or> atype = 1" | "\<not> n < i + 4 + alen" "\<not> (atype = 0x20 \<or> atype = 1)"
      by blast
    then show ?thesis
    proof cases
      case 2
      then show ?thesis
        using "1.prems" False b by (auto simp: stun_attributes.simps [of txid buf n i] idx_def be16_def slice_def Let_def)
    next
      case 3
      then show ?thesis using "1.IH" [OF False b] "1.prems" False b by (auto simp: stun_attributes.simps [of txid buf n i])
    qed (use False b in \<open>auto simp: stun_attributes.simps [of txid buf n i]\<close>)
  qed (simp add: stun_attributes.simps)
qed

lemma stun_loop_safe: "length buf = 256 \<Longrightarrow> stun_loop local family txid attempt buf es \<noteq> StunPanic"
proof (induction es arbitrary: attempt buf)
  case (Cons e es)
  show ?case
  proof (cases e)
    case (StunRecv d)
    have len: "length (stun_receive buf d) = 256" using Cons.prems by (simp add: stun_receive_def length_put)
    then obtain r where "stun_attributes txid (stun_receive buf d) (length (take 256 d)) 20 = Some r"
      using stun_attributes_safe [of "length (take 256 d)" "stun_receive buf d"] by fastforce
    then show ?thesis using Cons.IH [OF len] StunRecv by (simp add: Let_def split: option.splits)
  qed (use Cons in simp_all)
qed simp

text \<open>What a server sends: a header, attributes of other kinds, and the address of the client, xored.\<close>

definition stun_attr :: "u16 \<Rightarrow> bytes \<Rightarrow> bytes" where
  "stun_attr t v = u16_to_be_bytes t @ u16_to_be_bytes (word_of_nat (length v)) @ v @ replicate ((4 - length v mod 4) mod 4) 0"

definition mapped_value :: "bytes \<Rightarrow> socket_addr \<Rightarrow> bytes" where
  "mapped_value txid addr =
     (case sa_ip addr of
        IpV4 a \<Rightarrow> [0, 1] @ u16_to_be_bytes (sa_port addr XOR 0x2112) @ map2 (XOR) (v4_octets a) (u32_to_be_bytes STUN_MAGIC)
      | IpV6 a \<Rightarrow> [0, 2] @ u16_to_be_bytes (sa_port addr XOR 0x2112) @ map2 (XOR) (v6_octets a) (u32_to_be_bytes STUN_MAGIC @ txid))"

definition xor_mapped :: "bytes \<Rightarrow> socket_addr \<Rightarrow> bytes" where
  "xor_mapped txid addr =
     stun_attr 0x20 (mapped_value txid addr)"

lemma round_up: "(n + 3) div 4 * 4 = n + (4 - n mod 4) mod 4" for n :: nat
proof -
  define q where "q = n div 4"
  have n: "n = 4 * q + n mod 4" by (simp add: q_def)
  consider "n = 4 * q" | "n = 4 * q + 1" | "n = 4 * q + 2" | "n = 4 * q + 3" using n mod_less_divisor [of 4 n] by linarith
  then show ?thesis
  proof cases
    case 3
    have "(4 * q + 2) mod 4 = 2" "(4 * q + 2 + 3) div 4 = q + 1" by presburger+
    then show ?thesis unfolding 3 by simp
  qed simp_all
qed

lemma stun_attr_length: "length (stun_attr t v) = 4 + (length v + 3) div 4 * 4"
  by (simp add: stun_attr_def round_up)

lemma stun_attr_header:
  assumes "length v < 2 ^ 16"
  shows "be16 (pre @ stun_attr t v @ rest) (length pre) = Some (unat t)"
    "be16 (pre @ stun_attr t v @ rest) (length pre + 2) = Some (length v)"
proof -
  let ?l = "word_of_nat (length v) :: u16" and ?p = "replicate ((4 - length v mod 4) mod 4) (0 :: byte)"
  show "be16 (pre @ stun_attr t v @ rest) (length pre) = Some (unat t)"
    using be16_at [of pre "length pre" t "u16_to_be_bytes ?l @ v @ ?p @ rest"] by (simp add: stun_attr_def)
  show "be16 (pre @ stun_attr t v @ rest) (length pre + 2) = Some (length v)"
    using be16_at [of "pre @ u16_to_be_bytes t" "length pre + 2" ?l "v @ ?p @ rest"] assms
    by (simp add: stun_attr_def unat_of_nat)
qed

text \<open>An attribute of another kind is skipped; the address is found.\<close>

lemma stun_attr_skip:
  assumes "length v < 2 ^ 16" "unat t \<noteq> 0x20" "unat t \<noteq> 1" "length pre + length (stun_attr t v) \<le> n"
  shows "stun_attributes txid (pre @ stun_attr t v @ rest) n (length pre) =
    stun_attributes txid (pre @ stun_attr t v @ rest) n (length (pre @ stun_attr t v))"
proof -
  have "length v \<le> (length v + 3) div 4 * 4" by (simp add: round_up)
  then show ?thesis
    using stun_attr_header [OF assms(1), of pre t rest] assms(2-4)
    by (subst stun_attributes.simps) (simp add: stun_attr_length add.assoc)
qed

lemma xor_port: "(p XOR 0x2112) XOR u16_from_be_bytes (take 2 (u32_to_be_bytes STUN_MAGIC)) = p"
proof -
  have "u32_to_be_bytes STUN_MAGIC = [0x21, 0x12, 0xa4, 0x42]"
    by (simp add: STUN_MAGIC_def u32_to_be_bytes_def to_be_def to_le_explicit)
  then have "u16_from_be_bytes (take 2 (u32_to_be_bytes STUN_MAGIC)) = 0x2112"
    by (simp add: u16_from_be_bytes_def from_be_def)
  then show ?thesis by (simp add: xor.assoc)
qed

lemma mapped_value_fields:
  assumes "length txid = 12" "addr = SocketAddr ip port"
  shows "length (mapped_value txid addr) = (case ip of IpV4 a \<Rightarrow> 8 | IpV6 a \<Rightarrow> 20)"
    "idx (pre @ mapped_value txid addr @ rest) (length pre + 1) = Some (case ip of IpV4 a \<Rightarrow> 1 | IpV6 a \<Rightarrow> 2)"
    "be16 (pre @ mapped_value txid addr @ rest) (length pre + 2) = Some (unat (port XOR 0x2112))"
    "slice (pre @ mapped_value txid addr @ rest) (length pre + 4) (length pre + length (mapped_value txid addr)) =
       Some (case ip of IpV4 a \<Rightarrow> map2 (XOR) (v4_octets a) (u32_to_be_bytes STUN_MAGIC)
                     | IpV6 a \<Rightarrow> map2 (XOR) (v6_octets a) (u32_to_be_bytes STUN_MAGIC @ txid))"
proof -
  let ?p = "u16_to_be_bytes (port XOR 0x2112)"
  show len: "length (mapped_value txid addr) = (case ip of IpV4 a \<Rightarrow> 8 | IpV6 a \<Rightarrow> 20)"
    using assms by (simp add: mapped_value_def split: ip_addr.split)
  show "idx (pre @ mapped_value txid addr @ rest) (length pre + 1) = Some (case ip of IpV4 a \<Rightarrow> 1 | IpV6 a \<Rightarrow> 2)"
    using assms by (simp add: mapped_value_def idx_def nth_append split: ip_addr.split)
  show "be16 (pre @ mapped_value txid addr @ rest) (length pre + 2) = Some (unat (port XOR 0x2112))"
    using be16_at [of "pre @ [0, 1]" "length pre + 2" "port XOR 0x2112"] be16_at [of "pre @ [0, 2]" "length pre + 2" "port XOR 0x2112"] assms
    by (simp add: mapped_value_def split: ip_addr.split)
  show "slice (pre @ mapped_value txid addr @ rest) (length pre + 4) (length pre + length (mapped_value txid addr)) =
       Some (case ip of IpV4 a \<Rightarrow> map2 (XOR) (v4_octets a) (u32_to_be_bytes STUN_MAGIC)
                     | IpV6 a \<Rightarrow> map2 (XOR) (v6_octets a) (u32_to_be_bytes STUN_MAGIC @ txid))"
    using assms by (simp add: mapped_value_def slice_def subslice_def split: ip_addr.split)
qed

lemma xor_mapped_found:
  assumes "length txid = 12" "length pre + length (xor_mapped txid addr) \<le> n"
  shows "stun_attributes txid (pre @ xor_mapped txid addr @ rest) n (length pre) = Some (Some addr)"
proof -
  obtain ip port where addr: "addr = SocketAddr ip port" by (cases addr)
  let ?v = "mapped_value txid addr"
  have x: "xor_mapped txid addr = stun_attr 0x20 ?v" by (simp add: xor_mapped_def)
  note V = mapped_value_fields [OF assms(1) addr]
  have l: "length ?v = 8 \<or> length ?v = 20" using V(1) by (simp split: ip_addr.splits)
  let ?pre = "pre @ u16_to_be_bytes 0x20 @ u16_to_be_bytes (word_of_nat (length ?v))"
  have p: "replicate ((4 - length ?v mod 4) mod 4) (0 :: byte) = []" using l by auto
  have buf: "pre @ xor_mapped txid addr @ rest = ?pre @ ?v @ rest" unfolding x stun_attr_def p by simp
  have lp: "length ?pre = length pre + 4" by simp
  have h: "be16 (?pre @ ?v @ rest) (length pre) = Some 0x20" "be16 (?pre @ ?v @ rest) (length pre + 2) = Some (length ?v)"
    using stun_attr_header [of ?v pre "0x20" rest] l unfolding buf [symmetric] x by auto
  have n: "length pre + 4 + length ?v \<le> n" using assms(2) l unfolding x stun_attr_length by auto
  note F = V(2-4) [of ?pre rest, unfolded lp]
  show ?thesis
  proof (cases ip)
    case (IpV4 a)
    then have "length ?v = 8" using V(1) by simp
    then show ?thesis
      unfolding buf using F h n addr IpV4
      by (subst stun_attributes.simps)
        (simp add: reflected_addr_of_def Let_def map2_xor_self xor_port)
  next
    case (IpV6 a)
    then have "length ?v = 20" using V(1) by simp
    then show ?thesis
      unfolding buf using F h n addr IpV6 assms(1)
      by (subst stun_attributes.simps)
        (simp add: reflected_addr_of_def Let_def map2_xor_self xor_port)
  qed
qed

definition other_attr :: "u16 \<times> bytes \<Rightarrow> bool" where
  "other_attr a \<longleftrightarrow> fst a \<noteq> 1 \<and> fst a \<noteq> 0x20 \<and> length (snd a) < 2 ^ 16"

definition stun_answer :: "bytes \<Rightarrow> bytes \<Rightarrow> (u16 \<times> bytes) list \<Rightarrow> socket_addr \<Rightarrow> bytes \<Rightarrow> bytes" where
  "stun_answer txid header others addr tail = header @ concat (map (\<lambda>(t, v). stun_attr t v) others) @ xor_mapped txid addr @ tail"

lemma others_skipped:
  assumes "length txid = 12" "list_all other_attr others"
    "length pre + length (concat (map (\<lambda>(t, v). stun_attr t v) others)) + length (xor_mapped txid addr) \<le> n"
  shows "stun_attributes txid (pre @ concat (map (\<lambda>(t, v). stun_attr t v) others) @ xor_mapped txid addr @ rest) n (length pre) = Some (Some addr)"
  using assms(2,3)
proof (induction others arbitrary: pre)
  case Nil
  then show ?case using xor_mapped_found [OF assms(1), of pre addr n rest] by simp
next
  case (Cons a others)
  obtain t v where a: "a = (t, v)" by fastforce
  have "t \<noteq> 0x20" "t \<noteq> 1" "t = word_of_nat (unat t)" using Cons.prems a by (simp_all add: other_attr_def)
  then have "unat t \<noteq> 0x20" "unat t \<noteq> 1" by (metis of_nat_numeral, metis of_nat_1)
  then show ?case
    using Cons.IH [of "pre @ stun_attr t v"] Cons.prems a
      stun_attr_skip [of v t pre n txid "concat (map (\<lambda>(t, v). stun_attr t v) others) @ xor_mapped txid addr @ rest"]
    by (simp add: other_attr_def)
qed

lemma stun_timeouts:
  "attempt + k < 3 \<Longrightarrow> stun_loop local family txid attempt buf (replicate k StunRecvTimeout @ es) = stun_loop local family txid (attempt + k) buf es"
  by (induction k arbitrary: attempt) simp_all

text \<open>C38: A STUN exchange is safe and reads the address the server reports. Whatever datagrams arrive, no read of the parser is out of
  range; and when a server answers the request, after at most two lost rounds, with a datagram of at most 256 bytes that carries the client's address
  xored with the magic cookie and the transaction id, behind any attributes of other kinds and in front of anything, the result is exactly that address.\<close>

theorem stun_reads_address:
  assumes "length txid = 12" "length header = 20" "list_all other_attr others" "length (stun_answer txid header others addr tail) \<le> 256" "k < 3"
  shows "stun_loop local family txid 0 (replicate 256 0) es \<noteq> StunPanic \<and>
    stun_loop (Some l) family txid 0 (replicate 256 0) (replicate k StunRecvTimeout @ StunRecv (stun_answer txid header others addr tail) # es) =
      StunDone (Inr (Some \<lparr>sp_local_addr = l, sp_reflected_addr = addr, sp_family = family\<rparr>))"
proof
  show "stun_loop local family txid 0 (replicate 256 0) es \<noteq> StunPanic" by (rule stun_loop_safe) simp
  let ?d = "stun_answer txid header others addr tail"
  have d: "take 256 ?d = ?d" using assms(4) by simp
  have buf: "stun_receive (replicate 256 0) ?d = ?d @ drop (length ?d) (replicate 256 0)" by (simp add: stun_receive_def put_def d del: drop_replicate)
  have "stun_attributes txid (stun_receive (replicate 256 0) ?d) (length ?d) 20 = Some (Some addr)"
    unfolding buf using others_skipped [OF assms(1,3), of header addr "length ?d" "tail @ drop (length ?d) (replicate 256 0)"] assms(2)
    by (simp add: stun_answer_def del: drop_replicate)
  moreover have "20 \<le> length ?d" using assms(2) by (simp add: stun_answer_def)
  ultimately show "stun_loop (Some l) family txid 0 (replicate 256 0) (replicate k StunRecvTimeout @ StunRecv ?d # es) =
      StunDone (Inr (Some \<lparr>sp_local_addr = l, sp_reflected_addr = addr, sp_family = family\<rparr>))"
    using assms(5) by (simp add: stun_timeouts Let_def d)
qed

theorem stun_reads_address_witness:
  "stun_loop (Some (SocketAddr (IpV4 1) 2)) FamV6 (replicate 12 7) 0 (replicate 256 0)
     [StunRecvTimeout, StunRecv (stun_answer (replicate 12 7) (replicate 20 1) [(0x8022, [1, 2, 3])] (SocketAddr (IpV6 0x20010db8) 443) [9])] =
   StunDone (Inr (Some \<lparr>sp_local_addr = SocketAddr (IpV4 1) 2, sp_reflected_addr = SocketAddr (IpV6 0x20010db8) 443, sp_family = FamV6\<rparr>))"
proof -
  have l: "length (stun_answer (replicate 12 7) (replicate 20 1) [(0x8022, [1, 2, 3])] (SocketAddr (IpV6 0x20010db8) 443) [9]) \<le> 256"
    by (simp add: stun_answer_def xor_mapped_def stun_attr_length mapped_value_def)
  show ?thesis
    using stun_reads_address [OF _ _ _ l, of 1 None FamV6 "[]" "SocketAddr (IpV4 1) 2"] by (simp add: other_attr_def)
qed

subsection \<open>The quorum\<close>

lemma mset_without: "i < length xs \<Longrightarrow> mset xs = add_mset (xs ! i) (mset (take i xs @ drop (Suc i) xs))"
  by (metis Cons_nth_drop_Suc append_take_drop_id mset.simps(2) mset_append union_mset_add_mset_right)

lemma probe_order_mset: "0 < c \<Longrightarrow> mset (probe_order c pick k servers running) = mset servers + mset running"
proof (induction c pick k servers running rule: probe_order.induct)
  case (1 c pick k servers running)
  define room where "room = c - length running"
  define started where "started = running @ take room servers"
  define i where "i = pick k mod length started"
  note IH = "1.IH" [OF room_def started_def i_def]
  have run: "probe_order c pick k servers running =
      (if started = [] then []
       else started ! i # probe_order c pick (Suc k) (drop room servers) (take i started @ drop (Suc i) started))"
    by (subst probe_order.simps) (simp only: Let_def room_def started_def i_def)
  have split: "mset servers = mset (take room servers) + mset (drop room servers)" by (metis append_take_drop_id mset_append)
  show ?case
  proof (cases "started = []")
    case True
    then have "running = []" "take c servers = []" by (auto simp: started_def room_def)
    then show ?thesis using run True "1.prems" by simp
  next
    case False
    then have "i < length started" unfolding i_def by (meson length_greater_0_conv mod_less_divisor)
    from mset_without [OF this] IH [OF False "1.prems"] False run split
    show ?thesis by (simp add: started_def [THEN arg_cong [where f = mset]] add.commute)
  qed
qed

definition votes :: "('a \<Rightarrow> ip_addr) \<Rightarrow> ip_addr \<Rightarrow> 'a list \<Rightarrow> nat" where
  "votes f ip xs = length (filter (\<lambda>x. f x = ip) xs)"

lemma tally_entries:
  "(k, n, y) \<in> set (tally ip x m) \<Longrightarrow>
     (k, n, y) \<in> set m \<and> k \<noteq> ip \<or> k = ip \<and> (n = 1 \<and> y = x \<and> ip \<notin> fst ` set m \<or> (\<exists>n'. n = n' + 1 \<and> (ip, n', y) \<in> set m))"
  if "distinct (map fst m)"
  using that by (induction m) (force split: if_splits)+

lemma tally_keys: "fst ` set (tally ip x m) = insert ip (fst ` set m)"
  by (induction ip x m rule: tally.induct) auto

lemma tally_distinct: "distinct (map fst m) \<Longrightarrow> distinct (map fst (tally ip x m))"
proof (induction ip x m rule: tally.induct)
  case (2 ip x k n y m)
  then show ?case using tally_keys [of ip x m] by (auto simp: image_iff)
qed simp

lemma tallied:
  fixes f :: "'a \<Rightarrow> ip_addr"
  defines "t xs \<equiv> fold (\<lambda>x. tally (f x) x) xs []"
  shows "distinct (map fst (t xs))" "fst ` set (t xs) = f ` set xs"
    "(k, n, y) \<in> set (t xs) \<Longrightarrow> n = votes f k xs \<and> y \<in> set xs \<and> f y = k"
proof -
  have "distinct (map fst (t xs)) \<and> fst ` set (t xs) = f ` set xs \<and>
      (\<forall>k n y. (k, n, y) \<in> set (t xs) \<longrightarrow> n = votes f k xs \<and> y \<in> set xs \<and> f y = k)"
  proof (induction xs rule: rev_induct)
    case (snoc x xs)
    have s: "t (xs @ [x]) = tally (f x) x (t xs)" by (simp add: t_def)
    have "votes f (f x) xs = 0" if "f x \<notin> f ` set xs"
    proof -
      have "filter (\<lambda>y. f y = f x) xs = []" using that by (metis (mono_tags, lifting) filter_False image_eqI)
      then show ?thesis by (simp add: votes_def)
    qed
    note none = this
    have v: "votes f k (xs @ [x]) = votes f k xs + (if f x = k then 1 else 0)" for k by (simp add: votes_def)
    have "n = votes f k (xs @ [x]) \<and> y \<in> set (xs @ [x]) \<and> f y = k" if "(k, n, y) \<in> set (t (xs @ [x]))" for k n y
      using tally_entries [OF conjunct1 [OF snoc] that [unfolded s]]
    proof (elim disjE conjE exE)
      assume "k = f x" "n = 1" "y = x" "f x \<notin> fst ` set (t xs)"
      then show ?thesis using snoc none v by simp
    next
      fix n' assume "k = f x" "n = n' + 1" "(f x, n', y) \<in> set (t xs)"
      then show ?thesis using snoc v by auto
    qed (use snoc v in auto)
    then show ?case
      using snoc tally_distinct [of "t xs" "f x" x] tally_keys [of "f x" x "t xs"] unfolding s by auto
  qed (simp add: t_def)
  then show "distinct (map fst (t xs))" "fst ` set (t xs) = f ` set xs"
    "(k, n, y) \<in> set (t xs) \<Longrightarrow> n = votes f k xs \<and> y \<in> set xs \<and> f y = k" by blast+
qed

lemma max_by_count_spec:
  "max_by_count vs best = None \<longleftrightarrow> vs = [] \<and> best = None"
  "max_by_count vs best = Some b \<Longrightarrow> (b \<in> set vs \<or> best = Some b) \<and> (\<forall>v \<in> set vs. fst v \<le> fst b) \<and> (\<forall>v. best = Some v \<longrightarrow> fst v \<le> fst b)"
proof -
  show "max_by_count vs best = None \<longleftrightarrow> vs = [] \<and> best = None"
    by (induction vs arbitrary: best) (auto split: option.splits if_splits)
  show "max_by_count vs best = Some b \<Longrightarrow> (b \<in> set vs \<or> best = Some b) \<and> (\<forall>v \<in> set vs. fst v \<le> fst b) \<and> (\<forall>v. best = Some v \<longrightarrow> fst v \<le> fst b)"
  proof (induction vs arbitrary: best)
    case (Cons v vs)
    let ?best = "case best of None \<Rightarrow> Some v | Some b \<Rightarrow> if fst b \<le> fst v then Some v else Some b"
    have "max_by_count vs ?best = Some b" using Cons.prems by simp
    from Cons.IH [OF this] show ?case by (cases v; cases best) (auto split: if_splits)
  qed auto
qed

definition majority_of :: "('a \<Rightarrow> ip_addr) \<Rightarrow> 'a option \<Rightarrow> 'a list \<Rightarrow> bool" where
  "majority_of f r xs = (case r of None \<Rightarrow> xs = [] | Some b \<Rightarrow> b \<in> set xs \<and> (\<forall>ip. votes f ip xs \<le> votes f (f b) xs))"

lemma quorum_majority:
  assumes "\<And>m. mset (order m) = mset m"
  shows "majority_of f (quorum order f xs) xs"
proof -
  let ?t = "fold (\<lambda>x. tally (f x) x) xs []"
  have o: "set (order ?t) = set ?t" using arg_cong [OF assms [of ?t], of set_mset] by simp
  show ?thesis
  proof (cases "max_by_count (map snd (order ?t)) None")
    case None
    then have "order ?t = []" by (simp add: max_by_count_spec(1))
    then have "?t = []" using o by simp
    then have "xs = []" using tallied(2) [of f xs] by simp
    then show ?thesis using None by (simp add: majority_of_def quorum_def)
  next
    case (Some b)
    from max_by_count_spec(2) [OF this] obtain k where b: "(k, b) \<in> set ?t" and le: "\<And>v. v \<in> set ?t \<Longrightarrow> fst (snd v) \<le> fst b"
      using o by auto
    obtain n y where y: "b = (n, y)" by fastforce
    have yx: "n = votes f k xs" "y \<in> set xs" "f y = k" using tallied(3) [of k n y f xs] b y by auto
    have "votes f ip xs \<le> n" for ip
    proof (cases "ip \<in> f ` set xs")
      case True
      then obtain m z where "(ip, m, z) \<in> set ?t" using tallied(2) [of f xs] by (metis (no_types, lifting) imageE prod.collapse)
      then show ?thesis using le [of "(ip, m, z)"] tallied(3) [of ip m z f xs] y by simp
    next
      case False
      then have "filter (\<lambda>x. f x = ip) xs = []" by (metis (mono_tags, lifting) filter_False image_eqI)
      then show ?thesis by (simp add: votes_def)
    qed
    then show ?thesis using Some y yx by (simp add: majority_of_def quorum_def)
  qed
qed

text \<open>What the servers answer, in the order of the configuration.\<close>

definition stun_answers :: "(dual_stun_result \<Rightarrow> stun_probe_result option) \<Rightarrow> (nat \<Rightarrow> ip_family \<Rightarrow> stun_net) \<Rightarrow> bytes list \<Rightarrow> stun_probe_result list" where
  "stun_answers sel N servers =
     List.map_filter sel (List.map_filter (\<lambda>(i, s). case stun_probe_dual (N i) s of Some (Inr r) \<Rightarrow> Some r | _ \<Rightarrow> None) (enumerate 0 servers))"

lemma mset_map_filter: "mset xs = mset ys \<Longrightarrow> mset (List.map_filter f xs) = mset (List.map_filter f ys)"
  by (simp add: List.map_filter_def mset_filter)

lemma votes_mset: "mset xs = mset ys \<Longrightarrow> votes f ip xs = votes f ip ys"
  unfolding votes_def by (metis mset_filter size_mset)

lemma majority_mset: "mset xs = mset ys \<Longrightarrow> majority_of f r xs \<longleftrightarrow> majority_of f r ys"
  using votes_mset [of xs ys f] by (auto simp: majority_of_def dest: mset_eq_setD split: option.splits)


text \<open>A network in which every server answers with the same address.\<close>

definition demo_stun_net :: "socket_addr \<Rightarrow> stun_net" where
  "demo_stun_net a =
     \<lparr>st_bind = \<lambda>b. \<not> is_ipv6 b, st_overrides = Map.empty, st_lookup = \<lambda>h. None, st_connect = \<lambda>b. UdpConnected,
      st_local_addr = \<lambda>b. Some (SocketAddr (IpV4 0x0a000001) 5000), st_txid = replicate 12 7,
      st_events = \<lambda>b. [StunRecv (stun_answer (replicate 12 7) (replicate 20 1) [] a [])]\<rparr>"


text \<open>An error in one family loses the answer in the other: on a host where an IPv6 socket cannot be bound, no server's IPv4 answer counts.\<close>

lemma ipv6_bind_failure_loses_ipv4:
  assumes "\<And>i. \<not> st_bind (N i FamV6) (SocketAddr (IpV6 0) 0)"
  shows "stun_answers ds_v4 N servers = []"
proof -
  have "(case stun_probe_dual (N i) s of Some (Inr r) \<Rightarrow> Some r | _ \<Rightarrow> None) = None" for i s
    using assms [of i]
    by (auto simp: stun_probe_dual_def stun_probe_family_def stun_probe_family_with_bind_def [of "N i FamV6"]
        split: stun_outcome.splits sum.splits option.splits)
  then show ?thesis by (simp add: stun_answers_def List.map_filter_def case_prod_unfold)
qed

text \<open>An answer without an address does not count as an attempt: the loop goes on for as long as such answers arrive.\<close>

lemma stun_answers_without_address:
  assumes "\<And>buf. stun_attributes txid (stun_receive buf d) (length (take 256 d)) 20 = Some None" "20 \<le> length d"
  shows "stun_loop local family txid attempt buf (replicate k (StunRecv d)) = StunRunning"
  using assms by (induction k arbitrary: buf) (simp_all add: Let_def)

subsection \<open>The decision\<close>

text \<open>The decision follows the probe: a family is used for middle proxies only when it is enabled, has a local address, and that
  address is public or was reflected; everything the probe calls usable is used; both families at once only with both available; IPv6 is preferred only when
  configured and available.\<close>

theorem network_decision_sound:
  shows "let probe = run_probe H config nat_probe concurrency; d = decide_network_capabilities config probe in
    (nd_ipv4_me d \<longrightarrow> nc_ipv4 config \<and> (\<exists>a. np_detected_ipv4 probe = Some a \<and> (\<not> is_bogon_v4 a \<or> nat_probe \<and> np_reflected_ipv4 probe \<noteq> None))) \<and>
    (nd_ipv6_me d \<longrightarrow> nc_ipv6 config \<noteq> Some False \<and> (\<exists>a. np_detected_ipv6 probe = Some a \<and> (\<not> is_bogon_v6 a \<or> nat_probe \<and> np_reflected_ipv6 probe \<noteq> None))) \<and>
    (np_ipv4_usable probe \<longrightarrow> nd_ipv4_me d) \<and> (np_ipv6_usable probe \<longrightarrow> nd_ipv6_me d) \<and>
    (nd_ipv4_me d \<longrightarrow> nd_ipv4_dc d) \<and> (nd_ipv6_me d \<longrightarrow> nd_ipv6_dc d) \<and>
    (nd_effective_multipath d \<longrightarrow> me_families d = [FamV4, FamV6]) \<and>
    (prefer_ipv6 d \<longleftrightarrow> nc_prefer config = 6 \<and> nd_ipv6_dc d)"
proof -
  let ?p = "run_probe H config nat_probe concurrency"
  have b4: "np_ipv4_is_bogon ?p = (case np_detected_ipv4 ?p of Some a \<Rightarrow> is_bogon_v4 a | None \<Rightarrow> False)"
    and b6: "np_ipv6_is_bogon ?p = (case np_detected_ipv6 ?p of Some a \<Rightarrow> is_bogon_v6 a | None \<Rightarrow> False)"
    and u4: "np_ipv4_usable ?p = (nc_ipv4 config \<and> np_detected_ipv4 ?p \<noteq> None \<and> (\<not> np_ipv4_is_bogon ?p \<or>
      (case np_reflected_ipv4 ?p of Some a \<Rightarrow> \<not> is_bogon (sa_ip a) | None \<Rightarrow> False)))"
    and u6: "np_ipv6_usable ?p = ((case nc_ipv6 config of Some b \<Rightarrow> b | None \<Rightarrow> np_detected_ipv6 ?p \<noteq> None) \<and> np_detected_ipv6 ?p \<noteq> None \<and>
      (\<not> np_ipv6_is_bogon ?p \<or> (case np_reflected_ipv6 ?p of Some a \<Rightarrow> \<not> is_bogon (sa_ip a) | None \<Rightarrow> False)))"
    by (simp_all add: run_probe_def Let_def) (cases "nc_ipv6 config"; simp add: run_probe_def Let_def)
  have r: "\<not> nat_probe \<Longrightarrow> np_reflected_ipv4 ?p = None \<and> np_reflected_ipv6 ?p = None" by (simp add: run_probe_def Let_def)
  define probe where "probe = ?p"
  note F = b4 u4 b6 u6 r
  show ?thesis
    using F unfolding probe_def [symmetric] Let_def
    by (auto simp: decide_network_capabilities_def Let_def me_families_def prefer_ipv6_def split: option.splits if_splits)
qed

subsection \<open>The prefixes of addresses that are not public\<close>

text \<open>A prefix is a network and the number of its leading bits.\<close>

definition in_prefix :: "'a :: len word \<Rightarrow> 'a word \<times> nat \<Rightarrow> bool" where
  "in_prefix ip p \<longleftrightarrow> unat ip div 2 ^ (LENGTH('a) - snd p) = unat (fst p) div 2 ^ (LENGTH('a) - snd p)"

lemma in_prefix32: "in_prefix (ip :: u32) (w, k) \<longleftrightarrow> unat ip div 2 ^ (32 - k) = unat w div 2 ^ (32 - k)"
  by (simp add: in_prefix_def)

definition bogon_prefixes_v4 :: "(u32 \<times> nat) list" where
  "bogon_prefixes_v4 =
     [(0x00000000, 8), (0x0a000000, 8), (0x64400000, 10), (0x7f000000, 8), (0xa9fe0000, 16), (0xac100000, 12), (0xc0000000, 24),
      (0xc0000200, 24), (0xc0a80000, 16), (0xc6120000, 15), (0xc6336400, 24), (0xcb007100, 24), (0xe0000000, 4), (0xf0000000, 4)]"

lemma and_mask_byte:
  "b AND 0xc0 = 64 \<longleftrightarrow> unat b div 64 = 1" "b AND 0xfe = 18 \<longleftrightarrow> unat b div 2 = 9" for b :: byte
proof -
  have m: "w AND NOT (mask k) = c \<longleftrightarrow> unat w div 2 ^ k = unat c div 2 ^ k" if "c AND NOT (mask k) = c" for w c :: byte and k
  proof -
    have p: "x AND NOT (mask k) = push_bit k (drop_bit k x)" for x :: byte by (rule bit_eqI) (auto simp: bit_simps)
    have d: "drop_bit k (x AND NOT (mask k)) = drop_bit k x" for x :: byte
      by (rule bit_eqI) (auto simp: bit_simps dest: bit_imp_le_length)
    have "w AND NOT (mask k) = c \<longleftrightarrow> drop_bit k w = drop_bit k c" using p [of w] p [of c] d [of w] that by metis
    also have "\<dots> \<longleftrightarrow> unat (drop_bit k w) = unat (drop_bit k c)" by (auto dest: unsigned_word_eqI)
    finally show ?thesis unfolding unat_drop_bit_eq drop_bit_eq_div [where 'a = nat] .
  qed
  have k: "NOT (mask 6) = (0xc0 :: byte)" "NOT (mask 1) = (0xfe :: byte)" by (simp_all add: mask_eq_exp_minus_1)
  show "b AND 0xc0 = 64 \<longleftrightarrow> unat b div 64 = 1" "b AND 0xfe = 18 \<longleftrightarrow> unat b div 2 = 9"
    using m [of 64 6 b, unfolded k] m [of 18 1 b, unfolded k] by simp_all
qed

lemma byte_eq_unat: "x = y \<longleftrightarrow> unat x = unat y" for x y :: byte
  by (auto dest: unsigned_word_eqI)

lemma div_eq_range: "0 < m \<Longrightarrow> n div m = k \<longleftrightarrow> k * m \<le> n \<and> n < k * m + m" for n m k :: nat
  by (metis add.commute div_nat_eqI div_times_less_eq_dividend dividend_less_div_times mult.commute mult_Suc)

lemma digit_eq: "r < m \<Longrightarrow> s < m \<Longrightarrow> x * m + r = y * m + s \<longleftrightarrow> x = y \<and> r = s" for x y r s m :: nat
proof -
  assume "r < m" "s < m"
  then have "(x * m + r) div m = x" "(x * m + r) mod m = r" "(y * m + s) div m = y" "(y * m + s) mod m = s" by simp_all
  then show ?thesis by metis
qed

lemma v4_bytes:
  obtains a b c d where "v4_octets ip = [a, b, c, d]" "unat ip = ((unat a * 256 + unat b) * 256 + unat c) * 256 + unat d"
proof -
  obtain a b c d where o: "v4_octets ip = [a, b, c, d]" by (simp add: v4_octets_def u32_to_be_bytes_def to_be_def to_le_explicit)
  have "ip = v4_of_octets [a, b, c, d]" using octets_roundtrip(1) [of ip] unfolding o ..
  then have "unat ip = from_be [a, b, c, d]"
    using from_be_bound [of "[a, b, c, d]"] by (simp add: v4_of_octets_def unat_of_nat)
  then show ?thesis by (intro that [OF o]) (simp add: from_be_def)
qed

lemma v4_prefix_divs:
  fixes A B C D :: nat
  assumes "B < 256" "C < 256" "D < 256"
  defines "N \<equiv> ((A * 256 + B) * 256 + C) * 256 + D"
  shows "N div 2 ^ 8 = (A * 256 + B) * 256 + C" "N div 2 ^ 16 = A * 256 + B" "N div 2 ^ 17 = A * 128 + B div 2" "N div 2 ^ 20 = A * 16 + B div 16"
    "N div 2 ^ 22 = A * 4 + B div 64" "N div 2 ^ 24 = A" "N div 2 ^ 28 = A div 16"
proof -
  have n8: "N div 2 ^ 8 = (A * 256 + B) * 256 + C" using assms by simp
  have n16: "N div 2 ^ 16 = A * 256 + B" using assms by (simp add: N_def)
  have up: "N div 2 ^ (16 + k) = (A * 256 + B) div 2 ^ k" for k unfolding power_add div_mult2_eq n16 ..
  show "N div 2 ^ 8 = (A * 256 + B) * 256 + C" "N div 2 ^ 16 = A * 256 + B" using n8 n16 by blast+
  show "N div 2 ^ 17 = A * 128 + B div 2" using up [of 1] by simp
  show "N div 2 ^ 20 = A * 16 + B div 16" using up [of 4] by simp
  show "N div 2 ^ 22 = A * 4 + B div 64" using up [of 6] by simp
  show n24: "N div 2 ^ 24 = A" using up [of 8] assms(1) by simp
  show "N div 2 ^ 28 = A div 16" using up [of 12] assms(1) by (simp add: div_mult2_eq [of _ 256 16, simplified])
qed

definition reserved_octets :: "nat \<Rightarrow> nat \<Rightarrow> nat \<Rightarrow> bool" where
  "reserved_octets a b c \<longleftrightarrow>
     a = 0 \<or> a = 10 \<or> a = 100 \<and> b div 64 = 1 \<or> a = 127 \<or> a = 169 \<and> b = 254 \<or> a = 172 \<and> b div 16 = 1 \<or>
     a = 192 \<and> b = 0 \<and> c = 0 \<or> a = 192 \<and> b = 0 \<and> c = 2 \<or> a = 192 \<and> b = 168 \<or> a = 198 \<and> b div 2 = 9 \<or>
     a = 198 \<and> b = 51 \<and> c = 100 \<or> a = 203 \<and> b = 0 \<and> c = 113 \<or> a div 16 = 14 \<or> a div 16 = 15"

lemma bogon_octets:
  assumes o: "v4_octets ip = [a, b, c, d]" and n: "unat ip = ((unat a * 256 + unat b) * 256 + unat c) * 256 + unat d"
  shows "is_bogon_v4 ip \<longleftrightarrow> reserved_octets (unat a) (unat b) (unat c)"
proof -
  have b: "unat a < 256" "unat b < 256" "unat c < 256" "unat d < 256" by (simp_all add: byte_bound)
  have r: "16 \<le> b \<and> b \<le> 31 \<longleftrightarrow> unat b div 16 = 1" "224 \<le> a \<and> a \<le> 239 \<longleftrightarrow> unat a div 16 = 14" "240 \<le> a \<longleftrightarrow> unat a div 16 = 15"
    using b(1,2) div_eq_range [of 16 "unat b" 1] div_eq_range [of 16 "unat a" 14] div_eq_range [of 16 "unat a" 15]
    by (auto simp: word_le_nat_alt)
  have m: "ip = - 1 \<longrightarrow> unat a div 16 = 15"
  proof
    assume "ip = - 1"
    then have "unat a = 255" using n b by (simp add: unsigned_minus_1_eq_mask mask_eq_exp_minus_1)
    then show "unat a div 16 = 15" by simp
  qed
  show ?thesis
    using m unfolding is_bogon_v4_def v4_is_private_def v4_is_loopback_def v4_is_link_local_def v4_is_multicast_def Let_def o reserved_octets_def
    by (simp add: and_mask_byte r byte_eq_unat [of a] byte_eq_unat [of b] byte_eq_unat [of c]) argo
qed

lemma prefix_octets:
  fixes A B C D :: nat and ip :: u32
  assumes n: "unat ip = ((A * 256 + B) * 256 + C) * 256 + D" and b: "B < 256" "C < 256" "D < 256"
  shows "in_prefix ip (w, 8) \<longleftrightarrow> A = unat w div 2 ^ 24" "in_prefix ip (w, 10) \<longleftrightarrow> A * 4 + B div 64 = unat w div 2 ^ 22"
    "in_prefix ip (w, 12) \<longleftrightarrow> A * 16 + B div 16 = unat w div 2 ^ 20" "in_prefix ip (w, 15) \<longleftrightarrow> A * 128 + B div 2 = unat w div 2 ^ 17"
    "in_prefix ip (w, 16) \<longleftrightarrow> A * 256 + B = unat w div 2 ^ 16" "in_prefix ip (w, 4) \<longleftrightarrow> A div 16 = unat w div 2 ^ 28"
    "in_prefix ip (w, 24) \<longleftrightarrow> (A * 256 + B) * 256 + C = unat w div 2 ^ 8"
proof -
  have k: "32 - 8 = (24 :: nat)" "32 - 10 = (22 :: nat)" "32 - 12 = (20 :: nat)" "32 - 15 = (17 :: nat)" "32 - 16 = (16 :: nat)"
    "32 - 4 = (28 :: nat)" "32 - 24 = (8 :: nat)" by simp_all
  note D = v4_prefix_divs [OF b, of A, folded n]
  show "in_prefix ip (w, 8) \<longleftrightarrow> A = unat w div 2 ^ 24" "in_prefix ip (w, 10) \<longleftrightarrow> A * 4 + B div 64 = unat w div 2 ^ 22"
    "in_prefix ip (w, 12) \<longleftrightarrow> A * 16 + B div 16 = unat w div 2 ^ 20" "in_prefix ip (w, 15) \<longleftrightarrow> A * 128 + B div 2 = unat w div 2 ^ 17"
    "in_prefix ip (w, 16) \<longleftrightarrow> A * 256 + B = unat w div 2 ^ 16" "in_prefix ip (w, 4) \<longleftrightarrow> A div 16 = unat w div 2 ^ 28"
    "in_prefix ip (w, 24) \<longleftrightarrow> (A * 256 + B) * 256 + C = unat w div 2 ^ 8"
    by (simp_all only: in_prefix32 k D)
qed

lemma prefix_values:
  fixes A B C :: nat
  assumes "B < 256" "C < 256"
  shows "A * 4 + B div 64 = 401 \<longleftrightarrow> A = 100 \<and> B div 64 = 1" "A * 16 + B div 16 = 2753 \<longleftrightarrow> A = 172 \<and> B div 16 = 1"
    "A * 128 + B div 2 = 25353 \<longleftrightarrow> A = 198 \<and> B div 2 = 9" "A * 256 + B = 43518 \<longleftrightarrow> A = 169 \<and> B = 254"
    "A * 256 + B = 49320 \<longleftrightarrow> A = 192 \<and> B = 168" "(A * 256 + B) * 256 + C = 12582912 \<longleftrightarrow> A = 192 \<and> B = 0 \<and> C = 0"
    "(A * 256 + B) * 256 + C = 12582914 \<longleftrightarrow> A = 192 \<and> B = 0 \<and> C = 2"
    "(A * 256 + B) * 256 + C = 12989284 \<longleftrightarrow> A = 198 \<and> B = 51 \<and> C = 100"
    "(A * 256 + B) * 256 + C = 13303921 \<longleftrightarrow> A = 203 \<and> B = 0 \<and> C = 113"
proof -
  have T: "z < 256 \<Longrightarrow> y < 256 \<Longrightarrow> (A * 256 + B) * 256 + C = (x * 256 + y) * 256 + z \<longleftrightarrow> A = x \<and> B = y \<and> C = z" for x y z
    using digit_eq [of C 256 z "A * 256 + B" "x * 256 + y"] digit_eq [of B 256 y A x] assms by blast
  show "A * 4 + B div 64 = 401 \<longleftrightarrow> A = 100 \<and> B div 64 = 1" using digit_eq [of "B div 64" 4 1 A 100] assms(1) by simp
  show "A * 16 + B div 16 = 2753 \<longleftrightarrow> A = 172 \<and> B div 16 = 1" using digit_eq [of "B div 16" 16 1 A 172] assms(1) by simp
  show "A * 128 + B div 2 = 25353 \<longleftrightarrow> A = 198 \<and> B div 2 = 9" using digit_eq [of "B div 2" 128 9 A 198] assms(1) by simp
  show "A * 256 + B = 43518 \<longleftrightarrow> A = 169 \<and> B = 254" using digit_eq [of B 256 254 A 169] assms(1) by simp
  show "A * 256 + B = 49320 \<longleftrightarrow> A = 192 \<and> B = 168" using digit_eq [of B 256 168 A 192] assms(1) by simp
  show "(A * 256 + B) * 256 + C = 12582912 \<longleftrightarrow> A = 192 \<and> B = 0 \<and> C = 0" using T [of 0 0 192] by simp
  show "(A * 256 + B) * 256 + C = 12582914 \<longleftrightarrow> A = 192 \<and> B = 0 \<and> C = 2" using T [of 2 0 192] by simp
  show "(A * 256 + B) * 256 + C = 12989284 \<longleftrightarrow> A = 198 \<and> B = 51 \<and> C = 100" using T [of 100 51 198] by simp
  show "(A * 256 + B) * 256 + C = 13303921 \<longleftrightarrow> A = 203 \<and> B = 0 \<and> C = 113" using T [of 113 0 203] by simp
qed

text \<open>C40: The addresses the proxy does not take for public are exactly those of the reserved IPv4 prefixes: this network, private use, shared
  address space, loopback, link local, protocol assignments, the three documentation networks, benchmarking, multicast and reserved
  (with the broadcast address).\<close>

theorem bogon_prefixes: "is_bogon_v4 ip \<longleftrightarrow> (\<exists>p \<in> set bogon_prefixes_v4. in_prefix ip p)"
proof -
  obtain a b c d where o: "v4_octets ip = [a, b, c, d]" and n: "unat ip = ((unat a * 256 + unat b) * 256 + unat c) * 256 + unat d"
    by (rule v4_bytes)
  note P = prefix_octets [OF n byte_bound byte_bound byte_bound]
  note V = prefix_values [OF byte_bound [of b] byte_bound [of c], of "unat a"]
  have "(\<exists>p \<in> set bogon_prefixes_v4. in_prefix ip p) \<longleftrightarrow> list_ex (in_prefix ip) bogon_prefixes_v4" by (simp add: list_ex_iff)
  also have "\<dots> \<longleftrightarrow> reserved_octets (unat a) (unat b) (unat c)"
    unfolding bogon_prefixes_v4_def reserved_octets_def by (simp add: P V del: distrib_right_numeral)
  finally show ?thesis using bogon_octets [OF o n] by simp
qed

end
