(* ===== verification/Socks.thy ===== *)
theory Socks
  imports Raw_Io
begin

section \<open>SOCKS4 and SOCKS5 client (\<open>transport/socks.rs\<close>)\<close>

text \<open>
  The two handshakes over a new connection. A connection is the script of what it delivers and the script of what it takes;
  every awaited read and write has the given fuel, and \<open>None\<close> is a handshake that still waits.
\<close>

type_synonym connection = "source \<times> sink"

type_synonym 'a handshake = "connection \<Rightarrow> ((proxy_error + 'a) \<times> connection) option"

definition hs_then :: "'a handshake \<Rightarrow> ('a \<Rightarrow> 'b handshake) \<Rightarrow> 'b handshake" where
  "hs_then m f c =
     (case m c of None \<Rightarrow> None | Some (Inl e, c) \<Rightarrow> Some (Inl e, c) | Some (Inr a, c) \<Rightarrow> f a c)"

definition hs_return :: "'a \<Rightarrow> 'a handshake" where
  "hs_return a c = Some (Inr a, c)"

definition hs_fail :: "string \<Rightarrow> nat list \<Rightarrow> 'a handshake" where
  "hs_fail m args c = Some (Inl (ProxyMsg (Msg m args)), c)"

text \<open>\<open>write_all\<close> and \<open>read_exact\<close> with the error mapped to \<open>ProxyError::Io\<close>.\<close>

definition hs_write :: "nat \<Rightarrow> bytes \<Rightarrow> unit handshake" where
  "hs_write fuel bs c =
     (case write_loop sink_poll fuel bs (snd c) of
        None \<Rightarrow> None
      | Some (Inl e, k) \<Rightarrow> Some (Inl (ProxyIo e), fst c, k)
      | Some (Inr _, k) \<Rightarrow> Some (Inr (), fst c, k))"

definition hs_read :: "nat \<Rightarrow> nat \<Rightarrow> bytes handshake" where
  "hs_read fuel n c =
     (case read_exact fuel n (fst c) of
        None \<Rightarrow> None
      | Some (Inl e, u) \<Rightarrow> Some (Inl (ProxyIo e), u, snd c)
      | Some (Inr bs, u) \<Rightarrow> Some (Inr bs, u, snd c))"

subsection \<open>SOCKS4\<close>

definition socks4_request :: "u32 \<Rightarrow> u16 \<Rightarrow> bytes \<Rightarrow> bytes" where
  "socks4_request ip port user = [4, 1] @ u16_to_be_bytes port @ v4_octets ip @ user @ [0]"

definition connect_socks4 :: "nat \<Rightarrow> socket_addr \<Rightarrow> bytes option \<Rightarrow> socket_addr handshake" where
  "connect_socks4 fuel target user_id =
     (case sa_ip target of
        IpV6 _ \<Rightarrow> hs_fail ''SOCKS4 does not support IPv6'' []
      | IpV4 ip \<Rightarrow>
          let user = (case user_id of Some u \<Rightarrow> u | None \<Rightarrow> []) in
          hs_then (hs_write fuel (socks4_request ip (sa_port target) user)) (\<lambda>_.
          hs_then (hs_read fuel 8) (\<lambda>resp.
            if resp ! 1 \<noteq> 90 then hs_fail ''SOCKS4 request rejected: code {}'' [unat (resp ! 1)]
            else hs_return (SocketAddr (IpV4 (v4_of_octets (drop 4 resp))) (u16_from_be_bytes (take 2 (drop 2 resp)))))))"

subsection \<open>SOCKS5\<close>

definition socks5_greeting :: "bytes option \<Rightarrow> bytes" where
  "socks5_greeting username =
     (let methods = [0] @ (if username \<noteq> None then [2] else []) in [5, word_of_nat (length methods)] @ methods)"

text \<open>The credentials; a length is cut to its low byte.\<close>

definition socks5_credentials :: "bytes \<Rightarrow> bytes \<Rightarrow> bytes" where
  "socks5_credentials u p = [1, word_of_nat (length u)] @ u @ [word_of_nat (length p)] @ p"

definition socks5_auth :: "nat \<Rightarrow> byte \<Rightarrow> bytes option \<Rightarrow> bytes option \<Rightarrow> unit handshake" where
  "socks5_auth fuel meth username password =
     (if meth = 0 then hs_return ()
      else if meth = 2 then
        (case (username, password) of
           (Some u, Some p) \<Rightarrow>
             hs_then (hs_write fuel (socks5_credentials u p)) (\<lambda>_.
             hs_then (hs_read fuel 2) (\<lambda>auth_resp.
               if auth_resp ! 1 \<noteq> 0 then hs_fail ''SOCKS5 authentication failed'' [] else hs_return ()))
         | _ \<Rightarrow> hs_fail ''SOCKS5 server requires authentication'' [])
      else hs_fail ''Unsupported SOCKS5 auth meth'' [])"

definition socks5_request :: "socket_addr \<Rightarrow> bytes" where
  "socks5_request target =
     [5, 1, 0] @ (case sa_ip target of IpV4 a \<Rightarrow> 1 # v4_octets a | IpV6 a \<Rightarrow> 4 # v6_octets a) @ u16_to_be_bytes (sa_port target)"

definition socks5_bound :: "nat \<Rightarrow> byte \<Rightarrow> socket_addr handshake" where
  "socks5_bound fuel atyp =
     (if atyp = 1 then
        hs_then (hs_read fuel 6) (\<lambda>addr.
          hs_return (SocketAddr (IpV4 (v4_of_octets (take 4 addr))) (u16_from_be_bytes (drop 4 addr))))
      else if atyp = 3 then
        hs_then (hs_read fuel 1) (\<lambda>len.
        hs_then (hs_read fuel (unat (len ! 0) + 2)) (\<lambda>addr.
          hs_return (SocketAddr (IpV4 0) (u16_from_be_bytes (drop (length addr - 2) addr)))))
      else if atyp = 4 then
        hs_then (hs_read fuel 18) (\<lambda>addr.
          hs_return (SocketAddr (IpV6 (v6_of_octets (take 16 addr))) (u16_from_be_bytes (drop 16 addr))))
      else hs_fail ''Invalid address type in SOCKS5 response'' [])"

definition connect_socks5 :: "nat \<Rightarrow> socket_addr \<Rightarrow> bytes option \<Rightarrow> bytes option \<Rightarrow> socket_addr handshake" where
  "connect_socks5 fuel target username password =
     hs_then (hs_write fuel (socks5_greeting username)) (\<lambda>_.
     hs_then (hs_read fuel 2) (\<lambda>resp.
       if resp ! 0 \<noteq> 5 then hs_fail ''Invalid SOCKS5 version'' []
       else
         hs_then (socks5_auth fuel (resp ! 1) username password) (\<lambda>_.
         hs_then (hs_write fuel (socks5_request target)) (\<lambda>_.
         hs_then (hs_read fuel 4) (\<lambda>head.
           if head ! 1 \<noteq> 0 then hs_fail ''SOCKS5 request failed: code {}'' [unat (head ! 1)]
           else socks5_bound fuel (head ! 3))))))"

subsection \<open>What a handshake that succeeds has exchanged\<close>

text \<open>\<open>exchanged c w r c'\<close>: from \<open>c\<close> to \<open>c'\<close> exactly the bytes \<open>w\<close> were written and exactly the bytes \<open>r\<close> read.\<close>

definition exchanged :: "connection \<Rightarrow> bytes \<Rightarrow> bytes \<Rightarrow> connection \<Rightarrow> bool" where
  "exchanged c w r c' \<longleftrightarrow> source_wf (fst c') \<and> sk_written (snd c') = sk_written (snd c) @ w \<and> source_bytes (fst c) = r @ source_bytes (fst c')"

lemma exchanged_trans: "exchanged c w r c' \<Longrightarrow> exchanged c' w' r' c'' \<Longrightarrow> exchanged c (w @ w') (r @ r') c''"
  by (simp add: exchanged_def)

lemma hs_write_exchanged: "source_wf (fst c) \<Longrightarrow> hs_write fuel bs c = Some (Inr x, c') \<Longrightarrow> exchanged c bs [] c'"
  by (auto simp: hs_write_def exchanged_def split: option.splits sum.splits dest!: raw_out.write_loop_plain [OF TrueI])

lemma hs_read_exchanged: "source_wf (fst c) \<Longrightarrow> hs_read fuel n c = Some (Inr bs, c') \<Longrightarrow> exchanged c [] bs c' \<and> length bs = n"
  using read_exact_content [of "fst c" fuel n bs] by (auto simp: hs_read_def exchanged_def split: option.splits sum.splits)

lemma hs_then_ok: "hs_then m f c = Some (Inr b, c') \<longleftrightarrow> (\<exists>a c1. m c = Some (Inr a, c1) \<and> f a c1 = Some (Inr b, c'))"
  by (auto simp: hs_then_def split: option.splits sum.splits)

lemma hs_simps [simp]: "hs_return a c = Some (Inr b, c') \<longleftrightarrow> a = b \<and> c = c'" "hs_fail m as c \<noteq> Some (Inr b, c')"
  by (simp_all add: hs_return_def hs_fail_def)

lemma exchanged_wf: "exchanged c w r c' \<Longrightarrow> source_wf (fst c')"
  by (simp add: exchanged_def)

text \<open>With bytes to read and a socket that accepts, the steps succeed; \<open>ready c n fuel\<close> leaves room for \<open>n\<close> bytes of writing.\<close>

definition ready :: "connection \<Rightarrow> nat \<Rightarrow> nat \<Rightarrow> bool" where
  "ready c n fuel \<longleftrightarrow> source_wf (fst c) \<and> source_meas (fst c) < fuel \<and> sink_ready (snd c) (Suc n) \<and> length (sk_script (snd c)) + n < fuel"

lemma hs_write_ready:
  assumes "ready c (length bs + n) fuel"
  shows "\<exists>c'. hs_write fuel bs c = Some (Inr (), c') \<and> exchanged c bs [] c' \<and> ready c' n fuel"
proof -
  have r: "sink_ready (snd c) (Suc (length bs + n))" "source_wf (fst c)" using assms by (simp_all add: ready_def)
  obtain k where k: "write_loop sink_poll fuel bs (snd c) = Some (Inr (), k)" "sink_ready k (Suc (length bs + n) - 1 * length bs)"
      "length (sk_script k) \<le> length (sk_script (snd c))"
    using raw_out.write_loop_live [OF TrueI r(1), of bs fuel] assms by (auto simp: ready_def)
  then have w: "hs_write fuel bs c = Some (Inr (), fst c, k)" by (simp add: hs_write_def)
  show ?thesis using w hs_write_exchanged [OF r(2) w] k assms by (auto simp: ready_def)
qed

lemma hs_read_ready:
  assumes "ready c n fuel" "source_bytes (fst c) = bs @ rest"
  shows "\<exists>c'. hs_read fuel (length bs) c = Some (Inr bs, c') \<and> exchanged c [] bs c' \<and> ready c' n fuel"
proof -
  have l: "length bs \<le> length (source_bytes (fst c))" and i: "source_wf (fst c)" "source_meas (fst c) < fuel"
    using assms by (simp_all add: ready_def)
  obtain u where u: "read_exact fuel (length bs) (fst c) = Some (Inr (take (length bs) (source_bytes (fst c))), u)" "source_meas u \<le> source_meas (fst c)"
    by (rule read_exact_ok [OF i(1) l i(2)])
  then have r: "hs_read fuel (length bs) c = Some (Inr bs, u, snd c)" using assms(2) by (simp add: hs_read_def)
  show ?thesis using r hs_read_exchanged [OF i(1) r] u(2) assms(1) by (auto simp: ready_def exchanged_def)
qed

subsection \<open>Servers\<close>

text \<open>What a server of either version reads in the bytes of the client, following the two protocols.\<close>

definition server_socks4 :: "bytes \<Rightarrow> (socket_addr \<times> bytes) option" where
  "server_socks4 w =
     (if 9 \<le> length w \<and> take 2 w = [4, 1] \<and> 0 \<in> set (drop 8 w) then
        Some (SocketAddr (IpV4 (v4_of_octets (take 4 (drop 4 w)))) (u16_from_be_bytes (take 2 (drop 2 w))), takeWhile (\<lambda>b. b \<noteq> 0) (drop 8 w))
      else None)"

fun server_counted :: "bytes \<Rightarrow> (bytes \<times> bytes) option" where
  "server_counted [] = None"
| "server_counted (n # w) = (if unat n \<le> length w then Some (take (unat n) w, drop (unat n) w) else None)"

definition server_greeting :: "bytes \<Rightarrow> (bytes \<times> bytes) option" where
  "server_greeting w = (if take 1 w = [5] then server_counted (drop 1 w) else None)"

definition server_credentials :: "bytes \<Rightarrow> (bytes \<times> bytes \<times> bytes) option" where
  "server_credentials w =
     (if take 1 w \<noteq> [1] then None
      else case server_counted (drop 1 w) of
          None \<Rightarrow> None
        | Some (u, w) \<Rightarrow> map_option (\<lambda>(p, w). (u, p, w)) (server_counted w))"

definition server_request :: "bytes \<Rightarrow> socket_addr option" where
  "server_request w =
     (if take 4 w = [5, 1, 0, 1] \<and> length w = 10 then Some (SocketAddr (IpV4 (v4_of_octets (take 4 (drop 4 w)))) (u16_from_be_bytes (drop 8 w)))
      else if take 4 w = [5, 1, 0, 4] \<and> length w = 22 then Some (SocketAddr (IpV6 (v6_of_octets (take 16 (drop 4 w)))) (u16_from_be_bytes (drop 20 w)))
      else None)"

text \<open>A server that chose \<open>meth\<close>: the methods offered, the credentials when it asked for them, and the target.\<close>

definition server_socks5 :: "byte \<Rightarrow> bytes \<Rightarrow> (bytes \<times> (bytes \<times> bytes) option \<times> socket_addr) option" where
  "server_socks5 meth w =
     (case server_greeting w of
        None \<Rightarrow> None
      | Some (methods, w) \<Rightarrow>
          if meth = 2 then
            (case server_credentials w of
               None \<Rightarrow> None
             | Some (u, p, w) \<Rightarrow> map_option (\<lambda>t. (methods, Some (u, p), t)) (server_request w))
          else map_option (\<lambda>t. (methods, None, t)) (server_request w))"

definition socks5_addr :: "socket_addr \<Rightarrow> bytes" where
  "socks5_addr a = (case sa_ip a of IpV4 x \<Rightarrow> 1 # v4_octets x | IpV6 x \<Rightarrow> 4 # v6_octets x) @ u16_to_be_bytes (sa_port a)"

lemma server_request_reads: "server_request (socks5_request t) = Some t"
  by (cases t; cases "sa_ip t") (simp_all add: server_request_def socks5_request_def)

lemma server_counted_word: "length u < 256 \<Longrightarrow> server_counted (word_of_nat (length u) # u @ w) = Some (u, w)"
  by (simp add: unsigned_of_nat take_bit_nat_eq_self)

lemma server_credentials_reads:
  "length u < 256 \<Longrightarrow> length p < 256 \<Longrightarrow> server_credentials (socks5_credentials u p @ w) = Some (u, p, w)"
  by (simp add: server_credentials_def socks5_credentials_def server_counted_word del: server_counted.simps)

lemma server_greeting_reads: "server_greeting (socks5_greeting username @ w) = Some ([0] @ (if username \<noteq> None then [2] else []), w)"
  by (simp add: server_greeting_def socks5_greeting_def)

lemma server_socks5_reads:
  assumes "meth = 0 \<or> meth = 2 \<and> length u < 256 \<and> length p < 256"
  shows "server_socks5 meth (socks5_greeting username @ (if meth = 2 then socks5_credentials u p else []) @ socks5_request t) =
    Some ([0] @ (if username \<noteq> None then [2] else []), if meth = 2 then Some (u, p) else None, t)"
  using assms by (auto simp: server_socks5_def server_greeting_reads server_credentials_reads server_request_reads)

lemma socks5_bound_ready:
  assumes "ready c n fuel" "source_bytes (fst c) = drop 1 (socks5_addr a) @ rest"
  shows "\<exists>c'. socks5_bound fuel (hd (socks5_addr a)) c = Some (Inr a, c') \<and> exchanged c [] (drop 1 (socks5_addr a)) c'"
proof -
  obtain c' where r: "hs_read fuel (length (drop 1 (socks5_addr a))) c = Some (Inr (drop 1 (socks5_addr a)), c')" "exchanged c [] (drop 1 (socks5_addr a)) c'"
    using hs_read_ready [OF assms] by blast
  then show ?thesis
    by (cases a; cases "sa_ip a") (simp_all add: socks5_bound_def socks5_addr_def hs_then_ok)
qed

lemma socks5_auth_ready:
  assumes "ready c (length (if meth = 2 then socks5_credentials u p else []) + n) fuel"
    and "source_bytes (fst c) = (if meth = 2 then [v, 0] else []) @ rest"
    and "meth = 0 \<or> meth = 2 \<and> username = Some u \<and> password = Some p"
  shows "\<exists>c'. socks5_auth fuel meth username password c = Some (Inr (), c') \<and> ready c' n fuel \<and>
    exchanged c (if meth = 2 then socks5_credentials u p else []) (if meth = 2 then [v, 0] else []) c'"
proof (cases "meth = 2")
  case True
  obtain c1 where w: "hs_write fuel (socks5_credentials u p) c = Some (Inr (), c1)" "exchanged c (socks5_credentials u p) [] c1" "ready c1 n fuel"
    using hs_write_ready [of c "socks5_credentials u p" n fuel] assms(1) True by auto
  then have "source_bytes (fst c1) = [v, 0] @ rest" using assms(2) True by (simp add: exchanged_def)
  then obtain c2 where r: "hs_read fuel (length [v, 0]) c1 = Some (Inr [v, 0], c2)" "exchanged c1 [] [v, 0] c2" "ready c2 n fuel"
    using hs_read_ready [OF w(3)] by blast
  show ?thesis
    using assms(3) True w r exchanged_trans [OF w(2) r(2)] by (auto simp: socks5_auth_def hs_then_def hs_return_def numeral_2_eq_2)
next
  case False
  then show ?thesis using assms by (auto simp: socks5_auth_def exchanged_def ready_def)
qed

text \<open>C33: Connecting through a SOCKS5 proxy works with every server that follows the protocol. If the server picks no authentication,
  or user and password when they are configured and shorter than 256 bytes, accepts, and answers with any address,
  then the handshake returns that address; the server has read exactly the methods offered, the credentials if it asked
  for them, and the target; and whatever the server sends after its answer is left for the session, whole.\<close>

theorem socks5_connects:
  assumes "source_bytes u = [5, meth] @ (if meth = 2 then [v, 0] else []) @ [5, 0, rsv] @ socks5_addr bound @ rest"
    and "meth = 0 \<or> meth = 2 \<and> username = Some name \<and> password = Some pass \<and> length name < 256 \<and> length pass < 256"
    and "ready (u, k) (length (socks5_greeting username @ (if meth = 2 then socks5_credentials name pass else []) @ socks5_request target)) fuel"
  shows "\<exists>u' k'. connect_socks5 fuel target username password (u, k) = Some (Inr bound, u', k') \<and> source_bytes u' = rest \<and>
    server_socks5 meth (drop (length (sk_written k)) (sk_written k')) =
      Some ([0] @ (if username \<noteq> None then [2] else []), if meth = 2 then Some (name, pass) else None, target)"
proof -
  let ?g = "socks5_greeting username" and ?a = "if meth = 2 then socks5_credentials name pass else []" and ?r = "socks5_request target"
  obtain c1 where w: "hs_write fuel ?g (u, k) = Some (Inr (), c1)" "exchanged (u, k) ?g [] c1" "ready c1 (length ?a + length ?r) fuel"
    using hs_write_ready [of "(u, k)" ?g "length ?a + length ?r" fuel] assms(3) by auto
  then have "source_bytes (fst c1) = [5, meth] @ (if meth = 2 then [v, 0] else []) @ [5, 0, rsv] @ socks5_addr bound @ rest"
    using assms(1) by (simp add: exchanged_def)
  then obtain c2 where r: "hs_read fuel (length [5, meth]) c1 = Some (Inr [5, meth], c2)" "exchanged c1 [] [5, meth] c2" "ready c2 (length ?a + length ?r) fuel"
    using hs_read_ready [OF w(3)] by blast
  have "source_bytes (fst c2) = (if meth = 2 then [v, 0] else []) @ [5, 0, rsv] @ socks5_addr bound @ rest"
    using r(2) w(2) assms(1) by (simp add: exchanged_def)
  then obtain c3 where a: "socks5_auth fuel meth username password c2 = Some (Inr (), c3)" "ready c3 (length ?r) fuel"
      "exchanged c2 ?a (if meth = 2 then [v, 0] else []) c3"
    using socks5_auth_ready [OF r(3), of v] assms(2) by blast
  obtain c4 where q: "hs_write fuel ?r c3 = Some (Inr (), c4)" "exchanged c3 ?r [] c4" "ready c4 0 fuel"
    using hs_write_ready [of c3 ?r 0 fuel] a(2) by auto
  obtain t ts where h: "socks5_addr bound = t # ts" by (cases "sa_ip bound") (simp_all add: socks5_addr_def)
  have s4: "source_bytes (fst c4) = [5, 0, rsv, t] @ ts @ rest"
    using a(3) q(2) r(2) w(2) assms(1) h by (simp add: exchanged_def)
  then obtain c5 where d: "hs_read fuel (length [5, 0, rsv, t]) c4 = Some (Inr [5, 0, rsv, t], c5)" "exchanged c4 [] [5, 0, rsv, t] c5" "ready c5 0 fuel"
    using hs_read_ready [OF q(3)] by blast
  then have s5: "source_bytes (fst c5) = ts @ rest" using s4 by (simp add: exchanged_def)
  then obtain c6 where b: "socks5_bound fuel t c5 = Some (Inr bound, c6)" "exchanged c5 [] ts c6"
    using socks5_bound_ready [OF d(3), of bound rest] h by auto
  have "connect_socks5 fuel target username password (u, k) = Some (Inr bound, c6)"
    using w(1) r(1) a(1) q(1) d(1) b(1) by (simp add: connect_socks5_def hs_then_def numeral_eq_Suc)
  moreover have "source_bytes (fst c6) = rest" using b(2) s5 by (simp add: exchanged_def)
  moreover have "sk_written (snd c6) = sk_written k @ ?g @ ?a @ ?r"
    using w(2) r(2) a(3) q(2) d(2) b(2) by (simp add: exchanged_def)
  ultimately show ?thesis
    using server_socks5_reads [of meth name pass username target] assms(2) by (cases c6) auto
qed

theorem socks5_connects_witness:
  "\<exists>u' k'. connect_socks5 100 (SocketAddr (IpV4 0x01020304) 443) (Some [0x61]) (Some [0x62])
      ([RdBytes [5, 2], RdPending, RdBytes [1, 0, 5, 0, 0], RdBytes ([1] @ v4_octets 0x0a000001 @ u16_to_be_bytes 80 @ [7])],
       \<lparr>sk_script = WrPending # replicate 25 (WrOk 2), sk_written = []\<rparr>) = Some (Inr (SocketAddr (IpV4 0x0a000001) 80), u', k') \<and>
     source_bytes u' = [7]"
  using socks5_connects [of "[RdBytes [5, 2], RdPending, RdBytes [1, 0, 5, 0, 0], RdBytes ([1] @ v4_octets 0x0a000001 @ u16_to_be_bytes 80 @ [7])]"
      2 1 0 "SocketAddr (IpV4 0x0a000001) 80" "[7]" "Some [0x61]" "[0x61]" "Some [0x62]" "[0x62]"
      "\<lparr>sk_script = WrPending # replicate 25 (WrOk 2), sk_written = []\<rparr>" "SocketAddr (IpV4 0x01020304) 443" 100]
  by (auto simp: socks5_addr_def ready_def source_wf_def sink_ready_def sink_live_def ok_count_def list_all_iff socks5_greeting_def
      socks5_credentials_def socks5_request_def)

text \<open>The same for SOCKS4, whose user ids end at the first zero byte.\<close>

lemma socks4_connects:
  assumes "source_bytes u = [vn, 90] @ u16_to_be_bytes bport @ v4_octets bip @ rest" "sa_ip target = IpV4 ip" "0 \<notin> set user"
    and "ready (u, k) (length (socks4_request ip (sa_port target) user)) fuel"
  shows "\<exists>u' k'. connect_socks4 fuel target (Some user) (u, k) = Some (Inr (SocketAddr (IpV4 bip) bport), u', k') \<and> source_bytes u' = rest \<and>
    server_socks4 (drop (length (sk_written k)) (sk_written k')) = Some (target, user)"
proof -
  let ?r = "socks4_request ip (sa_port target) user" and ?b = "[vn, 90] @ u16_to_be_bytes bport @ v4_octets bip"
  obtain c1 where w: "hs_write fuel ?r (u, k) = Some (Inr (), c1)" "exchanged (u, k) ?r [] c1" "ready c1 0 fuel"
    using hs_write_ready [of "(u, k)" ?r 0 fuel] assms(4) by auto
  then have "source_bytes (fst c1) = ?b @ rest" using assms(1) by (simp add: exchanged_def)
  then obtain c2 where r: "hs_read fuel (length ?b) c1 = Some (Inr ?b, c2)" "exchanged c1 [] ?b c2"
    using hs_read_ready [OF w(3)] by blast
  have l: "length ?b = 8" by simp
  have "connect_socks4 fuel target (Some user) (u, k) = Some (Inr (SocketAddr (IpV4 bip) bport), c2)"
    using w(1) r(1) assms(2) unfolding l by (simp add: connect_socks4_def hs_then_def hs_return_def)
  moreover have "source_bytes (fst c2) = rest" "sk_written (snd c2) = sk_written k @ ?r"
    using w(2) r(2) assms(1) by (auto simp: exchanged_def)
  moreover have "takeWhile (\<lambda>b. b \<noteq> 0) (user @ [0]) = user" using assms(3) by (induction user) auto
  then have "server_socks4 ?r = Some (target, user)"
    using assms(2) by (cases target) (simp add: server_socks4_def socks4_request_def)
  ultimately show ?thesis by (cases c2) auto
qed

end
