(* ===== verification/Upstream.thy ===== *)
theory Upstream
  imports Socks Dns_Overrides Constants "HOL-Library.Product_Lexorder"
begin

section \<open>Upstreams (\<open>transport/upstream.rs\<close>)\<close>

text \<open>
  How the proxy reaches a datacenter: the choice among the configured upstreams, a direct or a SOCKS connection through the
  chosen one with retries, and the health of upstreams, from connections and from periodic checks. The network itself (sockets,
  interfaces, name resolution) is the record \<open>network\<close>, at every step of a sequence of connections another one; a
  connection or a handshake that does not end within its fuel has timed out. Latencies are 64-bit floating-point numbers: their arithmetic is
  the record \<open>float_ops\<close>, about which nothing is assumed. Random choices are arguments.
\<close>

record 'f float_ops =
  f_lit :: "nat \<Rightarrow> nat \<Rightarrow> 'f"
  f_add :: "'f \<Rightarrow> 'f \<Rightarrow> 'f"
  f_sub :: "'f \<Rightarrow> 'f \<Rightarrow> 'f"
  f_mul :: "'f \<Rightarrow> 'f \<Rightarrow> 'f"
  f_div :: "'f \<Rightarrow> 'f \<Rightarrow> 'f"
  f_lt :: "'f \<Rightarrow> 'f \<Rightarrow> bool"
  f_le :: "'f \<Rightarrow> 'f \<Rightarrow> bool"

text \<open>\<open>f_lit m k\<close> is the literal \<open>m / 10 ^ k\<close>.\<close>

definition NUM_DCS :: nat where "NUM_DCS = 5"

definition MIN_HEALTHY_DC_GROUPS :: nat where "MIN_HEALTHY_DC_GROUPS = 3"

subsection \<open>State\<close>

record 'f latency_ema =
  le_value_ms :: "'f option"
  le_alpha :: 'f

definition ema_new :: "'f \<Rightarrow> 'f latency_ema" where
  "ema_new alpha = \<lparr>le_value_ms = None, le_alpha = alpha\<rparr>"

definition ema_update :: "'f float_ops \<Rightarrow> 'f \<Rightarrow> 'f latency_ema \<Rightarrow> 'f latency_ema" where
  "ema_update F sample_ms l =
     l\<lparr>le_value_ms := Some (case le_value_ms l of
         None \<Rightarrow> sample_ms
       | Some prev \<Rightarrow> f_add F (f_mul F prev (f_sub F (f_lit F 1 0) (le_alpha l))) (f_mul F sample_ms (le_alpha l)))\<rparr>"

datatype ip_preference = PrefUnknown | PreferV6 | PreferV4 | BothWork | Unavailable

datatype upstream_type =
    Direct "bytes option" "bytes list option"
  | Socks4 bytes "bytes option" "bytes option"
  | Socks5 bytes "bytes option" "bytes option" "bytes option"

record upstream_config =
  uc_type :: upstream_type
  uc_weight :: u16
  uc_enabled :: bool
  uc_scopes :: bytes
  uc_selected_scope :: bytes

record 'f upstream_state =
  us_config :: upstream_config
  us_healthy :: bool
  us_fails :: u32
  us_dc_latency :: "'f latency_ema list"
  us_dc_ip_pref :: "ip_preference list"
  us_bind_rr :: u64

definition upstream_state_new :: "'f float_ops \<Rightarrow> upstream_config \<Rightarrow> 'f upstream_state" where
  "upstream_state_new F config =
     \<lparr>us_config = config, us_healthy = True, us_fails = 0, us_dc_latency = replicate NUM_DCS (ema_new (f_lit F 3 1)),
      us_dc_ip_pref = replicate NUM_DCS PrefUnknown, us_bind_rr = 0\<rparr>"

definition dc_array_idx :: "u16 \<Rightarrow> nat option" where
  "dc_array_idx dc_idx =
     (let abs_dc = nat \<bar>sint dc_idx\<bar> in
      if abs_dc = 0 then None else if 1 \<le> abs_dc \<and> abs_dc \<le> NUM_DCS then Some (abs_dc - 1) else Some 1)"

definition effective_latency :: "'f float_ops \<Rightarrow> 'f upstream_state \<Rightarrow> u16 option \<Rightarrow> 'f option" where
  "effective_latency F u dc_idx =
     (case Option.bind (Option.bind dc_idx dc_array_idx) (\<lambda>di. le_value_ms (us_dc_latency u ! di)) of
        Some ms \<Rightarrow> Some ms
      | None \<Rightarrow>
          let known = List.map_filter le_value_ms (us_dc_latency u);
              (sum, count) = fold (\<lambda>v (s, c). (f_add F s v, c + 1)) known (f_lit F 0 0, 0)
          in if 0 < count then Some (f_div F sum (f_lit F count 0)) else None)"

record 'f upstream_manager =
  um_upstreams :: "'f upstream_state list"
  um_connect_retry_attempts :: u32
  um_unhealthy_fail_threshold :: u32

definition upstream_manager_new :: "'f float_ops \<Rightarrow> upstream_config list \<Rightarrow> u32 \<Rightarrow> u32 \<Rightarrow> 'f upstream_manager" where
  "upstream_manager_new F configs attempts threshold =
     \<lparr>um_upstreams = map (upstream_state_new F) (filter uc_enabled configs), um_connect_retry_attempts = max attempts 1,
      um_unhealthy_fail_threshold = max threshold 1\<rparr>"

subsection \<open>The network\<close>

record tcp_stream =
  tcp_connection :: connection
  tcp_local_addr :: "socket_addr option"
  tcp_peer_addr :: "socket_addr option"

record network =
  net_dial :: "socket_addr \<Rightarrow> ip_addr option \<Rightarrow> proxy_error + tcp_stream"
  net_dial_host :: "bytes \<Rightarrow> proxy_error + tcp_stream"
  net_interface_addrs :: "bytes \<Rightarrow> bool \<Rightarrow> ip_addr list"
  net_interface_ip :: "bytes \<Rightarrow> bool \<Rightarrow> ip_addr option"
  net_overrides :: override_map

fun ip_is_v6 :: "ip_addr \<Rightarrow> bool" where
  "ip_is_v6 (IpV6 _) = True"
| "ip_is_v6 (IpV4 _) = False"

definition is_ip_text :: "bytes \<Rightarrow> bool" where
  "is_ip_text t \<longleftrightarrow> parse_ip t \<noteq> None"

text \<open>The address to bind, and the round-robin counter after it.\<close>

definition bind_candidates :: "network \<Rightarrow> bytes option \<Rightarrow> bytes list \<Rightarrow> bool \<Rightarrow> bool \<Rightarrow> ip_addr list" where
  "bind_candidates N interface addrs want_ipv6 validate =
     (let candidates = filter (\<lambda>ip. ip_is_v6 ip = want_ipv6) (List.map_filter parse_ip addrs) in
      case interface of
        Some iface \<Rightarrow>
          if validate \<and> \<not> is_ip_text iface then
            (let iface_addrs = net_interface_addrs N iface want_ipv6 in
             if iface_addrs \<noteq> [] then filter (\<lambda>ip. ip \<in> set iface_addrs) candidates else [])
          else candidates
      | None \<Rightarrow> candidates)"

definition interface_bind :: "network \<Rightarrow> bytes option \<Rightarrow> bool \<Rightarrow> ip_addr option" where
  "interface_bind N interface want_ipv6 =
     (case interface of
        None \<Rightarrow> None
      | Some iface \<Rightarrow>
          (case parse_ip iface of
             Some ip \<Rightarrow> if ip_is_v6 ip = want_ipv6 then Some ip else None
           | None \<Rightarrow> net_interface_ip N iface want_ipv6))"

definition resolve_bind_address :: "network \<Rightarrow> bytes option \<Rightarrow> bytes list option \<Rightarrow> socket_addr \<Rightarrow> u64 option \<Rightarrow> bool \<Rightarrow>
    ip_addr option \<times> u64 option" where
  "resolve_bind_address N interface bind_addresses target rr validate =
     (let want_ipv6 = is_ipv6 target in
      case bind_addresses of
        None \<Rightarrow> (interface_bind N interface want_ipv6, rr)
      | Some addrs \<Rightarrow>
          let candidates = bind_candidates N interface addrs want_ipv6 validate in
          if candidates \<noteq> [] then
            (case rr of
               Some counter \<Rightarrow> (Some (candidates ! (unat counter mod length candidates)), Some (counter + 1))
             | None \<Rightarrow> (Some (hd candidates), rr))
          else if validate \<and> (case interface of Some iface \<Rightarrow> \<not> is_ip_text iface | None \<Rightarrow> False) then (None, rr)
          else (interface_bind N interface want_ipv6, rr))"

definition connect_hostname_with_dns_override :: "network \<Rightarrow> bytes \<Rightarrow> proxy_error + tcp_stream" where
  "connect_hostname_with_dns_override N address =
     (case Option.bind (split_host_port address) (\<lambda>(host, port). resolve_socket_addr host port (net_overrides N)) of
        Some addr \<Rightarrow> net_dial N addr None
      | None \<Rightarrow> net_dial_host N address)"

subsection \<open>Connecting through an upstream\<close>

datatype route_kind = RouteDirect | RouteSocks4 | RouteSocks5

record egress_info =
  eg_route_kind :: route_kind
  eg_local_addr :: "socket_addr option"
  eg_direct_bind_ip :: "ip_addr option"
  eg_socks_bound_addr :: "socket_addr option"
  eg_socks_proxy_addr :: "socket_addr option"

text \<open>The connection to a SOCKS proxy.\<close>

definition dial_proxy :: "network \<Rightarrow> bytes \<Rightarrow> bytes option \<Rightarrow> u64 option \<Rightarrow> (proxy_error + tcp_stream) \<times> u64 option" where
  "dial_proxy N address interface rr =
     (case parse_socket_addr address of
        Some proxy_addr \<Rightarrow>
          (case resolve_bind_address N interface None proxy_addr rr False of (bind_ip, rr) \<Rightarrow> (net_dial N proxy_addr bind_ip, rr))
      | None \<Rightarrow> (connect_hostname_with_dns_override N address, rr))"

text \<open>The SOCKS handshake over it, within its time.\<close>

definition socks_session :: "route_kind \<Rightarrow> socket_addr \<Rightarrow> socket_addr handshake \<Rightarrow> tcp_stream \<Rightarrow> proxy_error + (tcp_stream \<times> egress_info)" where
  "socks_session route target hs s =
     (case hs (tcp_connection s) of
        None \<Rightarrow> Inl (ConnectionTimeout (text_of (show_socket_addr target)))
      | Some (Inl e, _) \<Rightarrow> Inl e
      | Some (Inr bound, c) \<Rightarrow>
          Inr (s\<lparr>tcp_connection := c\<rparr>,
               \<lparr>eg_route_kind = route, eg_local_addr = tcp_local_addr s, eg_direct_bind_ip = None,
                eg_socks_bound_addr = Some bound, eg_socks_proxy_addr = tcp_peer_addr s\<rparr>))"

text \<open>A selected scope replaces the configured credentials.\<close>

definition scope_or :: "upstream_config \<Rightarrow> bytes option \<Rightarrow> bytes option" where
  "scope_or config x = (if uc_selected_scope config \<noteq> [] then Some (uc_selected_scope config) else x)"

definition connect_via_upstream :: "network \<Rightarrow> nat \<Rightarrow> upstream_config \<Rightarrow> socket_addr \<Rightarrow> u64 option \<Rightarrow>
    (proxy_error + (tcp_stream \<times> egress_info)) \<times> u64 option" where
  "connect_via_upstream N fuel config target rr =
     (case uc_type config of
        Direct interface bind_addresses \<Rightarrow>
          (case resolve_bind_address N interface bind_addresses target rr True of (bind_ip, rr) \<Rightarrow>
             (case net_dial N target bind_ip of
                Inl e \<Rightarrow> Inl e
              | Inr s \<Rightarrow>
                  Inr (s, \<lparr>eg_route_kind = RouteDirect, eg_local_addr = tcp_local_addr s, eg_direct_bind_ip = bind_ip,
                           eg_socks_bound_addr = None, eg_socks_proxy_addr = None\<rparr>), rr))
      | Socks4 address interface user_id \<Rightarrow>
          (case dial_proxy N address interface rr of
             (Inl e, rr) \<Rightarrow> (Inl e, rr)
           | (Inr s, rr) \<Rightarrow> (socks_session RouteSocks4 target (connect_socks4 fuel target (scope_or config user_id)) s, rr))
      | Socks5 address interface username password \<Rightarrow>
          (case dial_proxy N address interface rr of
             (Inl e, rr) \<Rightarrow> (Inl e, rr)
           | (Inr s, rr) \<Rightarrow>
               (socks_session RouteSocks5 target
                  (connect_socks5 fuel target (scope_or config username) (scope_or config password)) s, rr)))"

subsection \<open>Selection\<close>

text \<open>\<open>split(',')\<close>.\<close>

fun split_commas :: "bytes \<Rightarrow> bytes list" where
  "split_commas [] = [[]]"
| "split_commas (b # bs) =
     (if b = 0x2c then [] # split_commas bs
      else case split_commas bs of w # ws \<Rightarrow> (b # w) # ws | [] \<Rightarrow> [[b]])"

definition scope_matches :: "bytes option \<Rightarrow> upstream_config \<Rightarrow> bool" where
  "scope_matches scope config =
     (case scope of
        None \<Rightarrow> uc_scopes config = []
      | Some req_scope \<Rightarrow> list_ex (\<lambda>s. trim s = req_scope) (split_commas (uc_scopes config)))"

definition upstream_weight :: "'f float_ops \<Rightarrow> u16 option \<Rightarrow> 'f upstream_state \<Rightarrow> 'f" where
  "upstream_weight F dc_idx u =
     f_mul F (f_lit F (unat (uc_weight (us_config u))) 0)
       (case effective_latency F u dc_idx of
          Some ms \<Rightarrow> if f_lt F (f_lit F 1 0) ms then f_div F (f_lit F 1000 0) ms else f_lit F 1000 0
        | None \<Rightarrow> f_lit F 1 0)"

fun weighted_choice :: "'f float_ops \<Rightarrow> 'f \<Rightarrow> (nat \<times> 'f) list \<Rightarrow> nat option" where
  "weighted_choice F choice [] = None"
| "weighted_choice F choice ((idx, weight) # ws) =
     (if f_lt F choice weight then Some idx else weighted_choice F (f_sub F choice weight) ws)"

text \<open>\<open>pick n\<close> is the draw from \<open>0..n\<close> and \<open>draw total\<close> the draw from \<open>0.0..total\<close>.\<close>

definition select_upstream :: "'f float_ops \<Rightarrow> (nat \<Rightarrow> nat) \<Rightarrow> ('f \<Rightarrow> 'f) \<Rightarrow> 'f upstream_state list \<Rightarrow> u16 option \<Rightarrow> bytes option \<Rightarrow> nat option" where
  "select_upstream F pick draw upstreams dc_idx scope =
     (let filtered = filter (\<lambda>i. scope_matches scope (us_config (upstreams ! i))) [0 ..< length upstreams];
          healthy = filter (\<lambda>i. us_healthy (upstreams ! i)) filtered
      in if filtered = [] then None
         else if healthy = [] then Some (filtered ! pick (length filtered))
         else if length healthy = 1 then Some (healthy ! 0)
         else
           let weights = map (\<lambda>i. (i, upstream_weight F dc_idx (upstreams ! i))) healthy;
               total = foldl (f_add F) (f_lit F 0 0) (map snd weights)
           in if f_le F total (f_lit F 0 0) then Some (healthy ! pick (length healthy))
              else Some (case weighted_choice F (draw total) weights of Some i \<Rightarrow> i | None \<Rightarrow> healthy ! 0))"

subsection \<open>Connecting with retries\<close>

text \<open>The attempts from the given one on; \<open>Ns\<close> is the network of each attempt. The result names the attempt that succeeded.\<close>

fun connect_attempts :: "(nat \<Rightarrow> network) \<Rightarrow> nat \<Rightarrow> upstream_config \<Rightarrow> socket_addr \<Rightarrow> nat \<Rightarrow> nat \<Rightarrow> u64 option \<Rightarrow> proxy_error option \<Rightarrow>
    (proxy_error + (nat \<times> tcp_stream \<times> egress_info)) \<times> u64 option" where
  "connect_attempts Ns fuel config target attempt 0 rr last_error =
     (Inl (case last_error of Some e \<Rightarrow> e | None \<Rightarrow> cfg_err ''Upstream connect attempts exhausted''), rr)"
| "connect_attempts Ns fuel config target attempt (Suc left) rr last_error =
     (case connect_via_upstream (Ns attempt) fuel config target rr of
        (Inr x, rr) \<Rightarrow> (Inr (attempt, x), rr)
      | (Inl e, rr) \<Rightarrow> connect_attempts Ns fuel config target (Suc attempt) left rr (Some e))"

text \<open>What a success and a failure make of the upstream; \<open>u32\<close> addition.\<close>

definition note_success :: "'f float_ops \<Rightarrow> u16 option \<Rightarrow> 'f \<Rightarrow> 'f upstream_state \<Rightarrow> 'f upstream_state" where
  "note_success F dc_idx rtt_ms u =
     (let u = u\<lparr>us_healthy := True, us_fails := 0\<rparr> in
      case Option.bind dc_idx dc_array_idx of
        Some di \<Rightarrow> u\<lparr>us_dc_latency := (us_dc_latency u)[di := ema_update F rtt_ms (us_dc_latency u ! di)]\<rparr>
      | None \<Rightarrow> u)"

definition note_failure :: "u32 \<Rightarrow> 'f upstream_state \<Rightarrow> 'f upstream_state" where
  "note_failure threshold u =
     (let u = u\<lparr>us_fails := us_fails u + 1\<rparr> in if threshold \<le> us_fails u then u\<lparr>us_healthy := False\<rparr> else u)"

definition update_upstream :: "nat \<Rightarrow> ('f upstream_state \<Rightarrow> 'f upstream_state) \<Rightarrow> 'f upstream_manager \<Rightarrow> 'f upstream_manager" where
  "update_upstream idx f m =
     (if idx < length (um_upstreams m) then m\<lparr>um_upstreams := (um_upstreams m)[idx := f (um_upstreams m ! idx)]\<rparr> else m)"

text \<open>\<open>rtt n\<close> is the time the attempt \<open>n\<close> took.\<close>

definition connect_with_details :: "'f float_ops \<Rightarrow> (nat \<Rightarrow> nat) \<Rightarrow> ('f \<Rightarrow> 'f) \<Rightarrow> (nat \<Rightarrow> network) \<Rightarrow> (nat \<Rightarrow> 'f) \<Rightarrow> nat \<Rightarrow> socket_addr \<Rightarrow> u16 option \<Rightarrow>
    bytes option \<Rightarrow> 'f upstream_manager \<Rightarrow> (proxy_error + (tcp_stream \<times> egress_info)) \<times> 'f upstream_manager" where
  "connect_with_details F pick draw Ns rtt fuel target dc_idx scope m =
     (case select_upstream F pick draw (um_upstreams m) dc_idx scope of
        None \<Rightarrow> (Inl (cfg_err ''No upstreams available''), m)
      | Some idx \<Rightarrow>
          let u = um_upstreams m ! idx;
              config = (case scope of Some s \<Rightarrow> (us_config u)\<lparr>uc_selected_scope := s\<rparr> | None \<Rightarrow> us_config u)
          in case connect_attempts Ns fuel config target 1 (unat (um_connect_retry_attempts m)) (Some (us_bind_rr u)) None of
               (res, rr) \<Rightarrow>
                 let m = update_upstream idx (\<lambda>u. u\<lparr>us_bind_rr := (case rr of Some n \<Rightarrow> n | None \<Rightarrow> us_bind_rr u)\<rparr>) m in
                 (case res of
                    Inr (attempt, x) \<Rightarrow> (Inr x, update_upstream idx (note_success F dc_idx (rtt attempt)) m)
                  | Inl e \<Rightarrow> (Inl e, update_upstream idx (note_failure (um_unhealthy_fail_threshold m)) m)))"

definition upstream_connect :: "'f float_ops \<Rightarrow> (nat \<Rightarrow> nat) \<Rightarrow> ('f \<Rightarrow> 'f) \<Rightarrow> (nat \<Rightarrow> network) \<Rightarrow> (nat \<Rightarrow> 'f) \<Rightarrow> nat \<Rightarrow> socket_addr \<Rightarrow> u16 option \<Rightarrow>
    bytes option \<Rightarrow> 'f upstream_manager \<Rightarrow> (proxy_error + tcp_stream) \<times> 'f upstream_manager" where
  "upstream_connect F pick draw Ns rtt fuel target dc_idx scope m =
     (case connect_with_details F pick draw Ns rtt fuel target dc_idx scope m of
        (Inl e, m) \<Rightarrow> (Inl e, m)
      | (Inr (s, _), m) \<Rightarrow> (Inr s, m))"

subsection \<open>Health checks\<close>

record health_check_group =
  hg_dc_idx :: int
  hg_primary :: "socket_addr list"
  hg_fallback :: "socket_addr list"

definition required_healthy_group_count :: "nat \<Rightarrow> nat" where
  "required_healthy_group_count total_groups = (if total_groups = 0 then 0 else min total_groups MIN_HEALTHY_DC_GROUPS)"

text \<open>The maps from a datacenter to its addresses, as lists of entries; \<open>entry(dc).or_default().push(addr)\<close>. The overrides come in the order
  in which their map is walked.\<close>

fun push_addr :: "int \<Rightarrow> socket_addr \<Rightarrow> (int \<times> socket_addr list) list \<Rightarrow> (int \<times> socket_addr list) list" where
  "push_addr dc a [] = [(dc, [a])]"
| "push_addr dc a ((d, as) # es) = (if d = dc then (d, as @ [a]) # es else (d, as) # push_addr dc a es)"

definition builtin_addrs :: "ip_addr list \<Rightarrow> (int \<times> socket_addr list) list" where
  "builtin_addrs ips = fold (\<lambda>(i, ip). push_addr (int i + 1) (SocketAddr ip TG_DATACENTER_PORT)) (enumerate 0 ips) []"

definition override_addr :: "bool \<Rightarrow> bool \<Rightarrow> int \<Rightarrow> bytes \<Rightarrow> (int \<times> socket_addr list) list \<times> (int \<times> socket_addr list) list \<Rightarrow>
    (int \<times> socket_addr list) list \<times> (int \<times> socket_addr list) list" where
  "override_addr ipv4_enabled ipv6_enabled dc t vs =
     (case parse_socket_addr t of
        None \<Rightarrow> vs
      | Some a \<Rightarrow>
          if is_ipv6 a then (fst vs, if ipv6_enabled then push_addr dc a (snd vs) else snd vs)
          else (if ipv4_enabled then push_addr dc a (fst vs) else fst vs, snd vs))"

definition override_entry :: "bool \<Rightarrow> bool \<Rightarrow> bytes \<times> bytes list \<Rightarrow> (int \<times> socket_addr list) list \<times> (int \<times> socket_addr list) list \<Rightarrow>
    (int \<times> socket_addr list) list \<times> (int \<times> socket_addr list) list" where
  "override_entry ipv4_enabled ipv6_enabled e vs =
     (case parse_i16 (fst e) of
        Some dc \<Rightarrow> if 0 < dc then fold (override_addr ipv4_enabled ipv6_enabled dc) (snd e) vs else vs
      | None \<Rightarrow> vs)"

text \<open>\<open>sort_unstable\<close> and \<open>dedup\<close> of addresses of one family.\<close>

fun addr_key :: "socket_addr \<Rightarrow> nat \<times> nat \<times> nat" where
  "addr_key (SocketAddr (IpV4 a) p) = (0, unat a, unat p)"
| "addr_key (SocketAddr (IpV6 a) p) = (1, unat a, unat p)"

definition sort_dedup :: "socket_addr list \<Rightarrow> socket_addr list" where
  "sort_dedup as = remdups_adj (sort_key addr_key as)"

definition addrs_of :: "int \<Rightarrow> (int \<times> socket_addr list) list \<Rightarrow> socket_addr list" where
  "addrs_of dc es = (case map_of es dc of Some as \<Rightarrow> sort_dedup as | None \<Rightarrow> [])"

definition build_health_check_groups :: "bool \<Rightarrow> bool \<Rightarrow> bool \<Rightarrow> (bytes \<times> bytes list) list \<Rightarrow> health_check_group list" where
  "build_health_check_groups prefer_ipv6 ipv4_enabled ipv6_enabled overrides =
     (let v4 = (if ipv4_enabled then builtin_addrs TG_DATACENTERS_V4 else []);
          v6 = (if ipv6_enabled then builtin_addrs TG_DATACENTERS_V6 else []);
          (v4, v6) = fold (override_entry ipv4_enabled ipv6_enabled) overrides (v4, v6);
          all_dcs = sorted_list_of_set (fst ` set v4 \<union> fst ` set v6)
      in List.map_filter (\<lambda>dc.
           let (primary, fallback) = (if prefer_ipv6 then (addrs_of dc v6, addrs_of dc v4) else (addrs_of dc v4, addrs_of dc v6)) in
           if primary = [] \<and> fallback = [] then None
           else Some \<lparr>hg_dc_idx = dc, hg_primary = primary, hg_fallback = fallback\<rparr>) all_dcs)"

text \<open>One check. The clock counts the connections made; \<open>Ns\<close> and \<open>rtt\<close> give the network and the time of each.\<close>

type_synonym rotation = "(nat \<times> int \<times> bool) \<rightharpoonup> nat"

fun probe_endpoints :: "(nat \<Rightarrow> network) \<Rightarrow> nat \<Rightarrow> upstream_config \<Rightarrow> socket_addr list \<Rightarrow> nat \<Rightarrow> nat list \<Rightarrow> nat \<Rightarrow> u64 option \<Rightarrow>
    (nat \<times> nat) option \<times> nat \<times> u64 option" where
  "probe_endpoints Ns fuel config endpoints start [] clock rr = (None, clock, rr)"
| "probe_endpoints Ns fuel config endpoints start (step # steps) clock rr =
     (let endpoint_idx = (start + step) mod length endpoints in
      case connect_via_upstream (Ns clock) fuel config (endpoints ! endpoint_idx) rr of
        (Inr _, rr) \<Rightarrow> (Some (endpoint_idx, clock), Suc clock, rr)
      | (Inl _, rr) \<Rightarrow> probe_endpoints Ns fuel config endpoints start steps (Suc clock) rr)"

definition probe_side :: "(nat \<Rightarrow> network) \<Rightarrow> nat \<Rightarrow> upstream_config \<Rightarrow> nat \<times> int \<times> bool \<Rightarrow> socket_addr list \<Rightarrow> rotation \<Rightarrow> nat \<Rightarrow> u64 option \<Rightarrow>
    nat option \<times> rotation \<times> nat \<times> u64 option" where
  "probe_side Ns fuel config key endpoints rot clock rr =
     (if endpoints = [] then (None, rot, clock, rr)
      else
        let start = (case rot key of Some n \<Rightarrow> n | None \<Rightarrow> 0) mod length endpoints in
        case probe_endpoints Ns fuel config endpoints start [0 ..< length endpoints] clock rr of
          (Some (idx, at), clock, rr) \<Rightarrow> (Some at, rot(key \<mapsto> (idx + 1) mod length endpoints), clock, rr)
        | (None, clock, rr) \<Rightarrow> (None, rot(key \<mapsto> (start + 1) mod length endpoints), clock, rr))"

definition probe_group :: "(nat \<Rightarrow> network) \<Rightarrow> nat \<Rightarrow> upstream_config \<Rightarrow> nat \<Rightarrow> health_check_group \<Rightarrow> rotation \<Rightarrow> nat \<Rightarrow> u64 option \<Rightarrow>
    nat option \<times> rotation \<times> nat \<times> u64 option" where
  "probe_group Ns fuel config i g rot clock rr =
     (case probe_side Ns fuel config (i, hg_dc_idx g, True) (hg_primary g) rot clock rr of
        (Some at, rot, clock, rr) \<Rightarrow> (Some at, rot, clock, rr)
      | (None, rot, clock, rr) \<Rightarrow> probe_side Ns fuel config (i, hg_dc_idx g, False) (hg_fallback g) rot clock rr)"

fun probe_groups :: "(nat \<Rightarrow> network) \<Rightarrow> nat \<Rightarrow> upstream_config \<Rightarrow> nat \<Rightarrow> health_check_group list \<Rightarrow> rotation \<Rightarrow> nat \<Rightarrow> u64 option \<Rightarrow>
    nat \<times> (nat \<times> nat) list \<times> rotation \<times> nat \<times> u64 option" where
  "probe_groups Ns fuel config i [] rot clock rr = (0, [], rot, clock, rr)"
| "probe_groups Ns fuel config i (g # gs) rot clock rr =
     (case probe_group Ns fuel config i g rot clock rr of
        (ok, rot, clock, rr) \<Rightarrow>
          (case probe_groups Ns fuel config i gs rot clock rr of
             (healthy_groups, latency_updates, rot, clock, rr) \<Rightarrow>
               (case ok of
                  Some at \<Rightarrow>
                    (healthy_groups + 1,
                     (case dc_array_idx (word_of_int (hg_dc_idx g)) of Some di \<Rightarrow> [(di, at)] | None \<Rightarrow> []) @ latency_updates, rot, clock, rr)
                | None \<Rightarrow> (healthy_groups, latency_updates, rot, clock, rr))))"

definition check_upstream :: "'f float_ops \<Rightarrow> (nat \<Rightarrow> network) \<Rightarrow> (nat \<Rightarrow> 'f) \<Rightarrow> nat \<Rightarrow> health_check_group list \<Rightarrow> nat \<Rightarrow>
    'f upstream_manager \<times> rotation \<times> nat \<Rightarrow> 'f upstream_manager \<times> rotation \<times> nat" where
  "check_upstream F Ns rtt fuel groups i st =
     (case st of (m, rot, clock) \<Rightarrow>
        let u = um_upstreams m ! i in
        case probe_groups Ns fuel (us_config u) i groups rot clock (Some (us_bind_rr u)) of
          (healthy_groups, latency_updates, rot, clock, rr) \<Rightarrow>
            (update_upstream i (\<lambda>u.
               let u = u\<lparr>us_bind_rr := (case rr of Some n \<Rightarrow> n | None \<Rightarrow> us_bind_rr u),
                         us_dc_latency := fold (\<lambda>(di, at) ls. ls[di := ema_update F (rtt at) (ls ! di)]) latency_updates (us_dc_latency u)\<rparr> in
               if required_healthy_group_count (length groups) \<le> healthy_groups then u\<lparr>us_healthy := True, us_fails := 0\<rparr>
               else note_failure (um_unhealthy_fail_threshold m) u) m, rot, clock))"

text \<open>One round of the loop.\<close>

definition health_check_cycle :: "'f float_ops \<Rightarrow> (nat \<Rightarrow> network) \<Rightarrow> (nat \<Rightarrow> 'f) \<Rightarrow> nat \<Rightarrow> health_check_group list \<Rightarrow>
    'f upstream_manager \<times> rotation \<times> nat \<Rightarrow> 'f upstream_manager \<times> rotation \<times> nat" where
  "health_check_cycle F Ns rtt fuel groups st =
     (if groups = [] \<or> required_healthy_group_count (length groups) = 0 then st
      else fold (check_upstream F Ns rtt fuel groups) [0 ..< length (um_upstreams (fst st))] st)"

definition get_dc_ip_preference :: "u16 \<Rightarrow> 'f upstream_manager \<Rightarrow> ip_preference option" where
  "get_dc_ip_preference dc_idx m =
     (if um_upstreams m = [] then None else map_option (\<lambda>i. us_dc_ip_pref (um_upstreams m ! 0) ! i) (dc_array_idx dc_idx))"

definition get_dc_addr :: "u16 \<Rightarrow> bool \<Rightarrow> socket_addr option" where
  "get_dc_addr dc_idx prefer_ipv6 =
     map_option (\<lambda>i. SocketAddr ((if prefer_ipv6 then TG_DATACENTERS_V6 else TG_DATACENTERS_V4) ! i) TG_DATACENTER_PORT) (dc_array_idx dc_idx)"

subsection \<open>The ping at start-up\<close>

datatype ping_error = PingFailed proxy_error | PingTimeout | PingDisabled

record 'f dc_ping_result =
  dp_dc_idx :: nat
  dp_dc_addr :: socket_addr
  dp_rtt_ms :: "'f option"
  dp_error :: "ping_error option"

record 'f startup_ping_result =
  sp_v6_results :: "'f dc_ping_result list"
  sp_v4_results :: "'f dc_ping_result list"
  sp_upstream_name :: bytes
  sp_both_available :: bool

definition upstream_name :: "upstream_type \<Rightarrow> bytes" where
  "upstream_name t =
     (case t of
        Direct interface bind_addresses \<Rightarrow>
          let parts = (case interface of Some dev \<Rightarrow> if dev \<noteq> [] then [ascii ''dev='' @ dev] else [] | None \<Rightarrow> []) @
                (case bind_addresses of Some src \<Rightarrow> if src \<noteq> [] then [ascii ''src='' @ join (ascii '','') src] else [] | None \<Rightarrow> [])
          in if parts = [] then ascii ''direct'' else ascii ''direct '' @ join (ascii '' '') parts
      | Socks4 address _ _ \<Rightarrow> ascii ''socks4://'' @ address
      | Socks5 address _ _ _ \<Rightarrow> ascii ''socks5://'' @ address)"

text \<open>One ping: \<open>expired n\<close> tells whether connection \<open>n\<close> outlasts the ping's timeout. The text of an error is not kept.\<close>

definition ping_target :: "(nat \<Rightarrow> network) \<Rightarrow> (nat \<Rightarrow> bool) \<Rightarrow> (nat \<Rightarrow> 'f) \<Rightarrow> nat \<Rightarrow> upstream_config \<Rightarrow> nat \<times> socket_addr \<Rightarrow> nat \<times> u64 option \<Rightarrow>
    'f dc_ping_result \<times> nat \<times> u64 option" where
  "ping_target Ns expired rtt fuel config t st =
     (case st of (clock, rr) \<Rightarrow>
        (case connect_via_upstream (Ns clock) fuel config (snd t) rr of (res, rr) \<Rightarrow>
           (\<lparr>dp_dc_idx = fst t, dp_dc_addr = snd t,
             dp_rtt_ms = (if expired clock then None else case res of Inr _ \<Rightarrow> Some (rtt clock) | Inl _ \<Rightarrow> None),
             dp_error = (if expired clock then Some PingTimeout else case res of Inr _ \<Rightarrow> None | Inl e \<Rightarrow> Some (PingFailed e))\<rparr>, Suc clock, rr)))"

fun ping_targets :: "(nat \<Rightarrow> network) \<Rightarrow> (nat \<Rightarrow> bool) \<Rightarrow> (nat \<Rightarrow> 'f) \<Rightarrow> nat \<Rightarrow> upstream_config \<Rightarrow> (nat \<times> socket_addr) list \<Rightarrow> nat \<times> u64 option \<Rightarrow>
    'f dc_ping_result list \<times> nat \<times> u64 option" where
  "ping_targets Ns expired rtt fuel config [] st = ([], st)"
| "ping_targets Ns expired rtt fuel config (t # ts) st =
     (case ping_target Ns expired rtt fuel config t st of (r, st) \<Rightarrow>
        (case ping_targets Ns expired rtt fuel config ts st of (rs, st) \<Rightarrow> (r # rs, st)))"

definition builtin_targets :: "ip_addr list \<Rightarrow> (nat \<times> socket_addr) list" where
  "builtin_targets ips = map (\<lambda>i. (i + 1, SocketAddr (ips ! i) TG_DATACENTER_PORT)) [0 ..< NUM_DCS]"

definition override_targets :: "bool \<Rightarrow> bool \<Rightarrow> (bytes \<times> bytes list) list \<Rightarrow> (nat \<times> socket_addr) list" where
  "override_targets ipv4_enabled ipv6_enabled overrides =
     concat (map (\<lambda>(key, addrs).
       case parse_i16 key of
         None \<Rightarrow> []
       | Some dc \<Rightarrow>
           if 0 < dc then
             map (\<lambda>a. (nat dc, a)) (filter (\<lambda>a. if is_ipv6 a then ipv6_enabled else ipv4_enabled) (List.map_filter parse_socket_addr addrs))
           else []) overrides)"

definition ping_family :: "(nat \<Rightarrow> network) \<Rightarrow> (nat \<Rightarrow> bool) \<Rightarrow> (nat \<Rightarrow> 'f) \<Rightarrow> nat \<Rightarrow> upstream_config \<Rightarrow> bool \<Rightarrow> ip_addr list \<Rightarrow> nat \<times> u64 option \<Rightarrow>
    'f dc_ping_result list \<times> nat \<times> u64 option" where
  "ping_family Ns expired rtt fuel config enabled ips st =
     (if enabled then ping_targets Ns expired rtt fuel config (builtin_targets ips) st
      else (map (\<lambda>(i, a). \<lparr>dp_dc_idx = i, dp_dc_addr = a, dp_rtt_ms = None, dp_error = Some PingDisabled\<rparr>) (builtin_targets ips), st))"

definition ping_latency :: "'f float_ops \<Rightarrow> 'f dc_ping_result list \<Rightarrow> 'f latency_ema list \<Rightarrow> 'f latency_ema list" where
  "ping_latency F rs ls =
     fold (\<lambda>r ls. case dp_rtt_ms r of Some ms \<Rightarrow> ls[dp_dc_idx r - 1 := ema_update F ms (ls ! (dp_dc_idx r - 1))] | None \<Rightarrow> ls) rs ls"

definition pref_of :: "bool \<Rightarrow> bool \<Rightarrow> ip_preference" where
  "pref_of v6_ok v4_ok = (if v6_ok then (if v4_ok then BothWork else PreferV6) else (if v4_ok then PreferV4 else Unavailable))"

text \<open>One upstream: the built-in addresses of both families, then the overrides, which do not touch latencies.\<close>

definition ping_upstream :: "'f float_ops \<Rightarrow> (nat \<Rightarrow> network) \<Rightarrow> (nat \<Rightarrow> bool) \<Rightarrow> (nat \<Rightarrow> 'f) \<Rightarrow> nat \<Rightarrow> (bytes \<times> bytes list) list \<Rightarrow> bool \<Rightarrow> bool \<Rightarrow>
    nat \<Rightarrow> 'f upstream_manager \<times> nat \<Rightarrow> 'f startup_ping_result \<times> 'f upstream_manager \<times> nat" where
  "ping_upstream F Ns expired rtt fuel overrides ipv4_enabled ipv6_enabled i st =
     (case st of (m, clock) \<Rightarrow>
        let u = um_upstreams m ! i; config = us_config u in
        case ping_family Ns expired rtt fuel config ipv6_enabled TG_DATACENTERS_V6 (clock, Some (us_bind_rr u)) of (rs6, w) \<Rightarrow>
        (case ping_family Ns expired rtt fuel config ipv4_enabled TG_DATACENTERS_V4 w of (rs4, w) \<Rightarrow>
        (case ping_targets Ns expired rtt fuel config (override_targets ipv4_enabled ipv6_enabled overrides) w of (os, clock, rr) \<Rightarrow>
          let v6_results = rs6 @ filter (\<lambda>r. is_ipv6 (dp_dc_addr r)) os;
              v4_results = rs4 @ filter (\<lambda>r. \<not> is_ipv6 (dp_dc_addr r)) os
          in (\<lparr>sp_v6_results = v6_results, sp_v4_results = v4_results, sp_upstream_name = upstream_name (uc_type config),
               sp_both_available = list_ex (\<lambda>r. dp_rtt_ms r \<noteq> None) v6_results \<and> list_ex (\<lambda>r. dp_rtt_ms r \<noteq> None) v4_results\<rparr>,
              update_upstream i (\<lambda>u. u\<lparr>us_bind_rr := (case rr of Some n \<Rightarrow> n | None \<Rightarrow> us_bind_rr u),
                us_dc_latency := ping_latency F rs4 (ping_latency F rs6 (us_dc_latency u)),
                us_dc_ip_pref := map (\<lambda>d. pref_of (dp_rtt_ms (v6_results ! d) \<noteq> None) (dp_rtt_ms (v4_results ! d) \<noteq> None)) [0 ..< NUM_DCS]\<rparr>) m,
              clock))))"

fun ping_upstreams :: "'f float_ops \<Rightarrow> (nat \<Rightarrow> network) \<Rightarrow> (nat \<Rightarrow> bool) \<Rightarrow> (nat \<Rightarrow> 'f) \<Rightarrow> nat \<Rightarrow> (bytes \<times> bytes list) list \<Rightarrow> bool \<Rightarrow> bool \<Rightarrow>
    nat list \<Rightarrow> 'f upstream_manager \<times> nat \<Rightarrow> 'f startup_ping_result list \<times> 'f upstream_manager \<times> nat" where
  "ping_upstreams F Ns expired rtt fuel overrides ipv4_enabled ipv6_enabled [] st = ([], st)"
| "ping_upstreams F Ns expired rtt fuel overrides ipv4_enabled ipv6_enabled (i # is) st =
     (case ping_upstream F Ns expired rtt fuel overrides ipv4_enabled ipv6_enabled i st of (r, st) \<Rightarrow>
        (case ping_upstreams F Ns expired rtt fuel overrides ipv4_enabled ipv6_enabled is st of (rs, st) \<Rightarrow> (r # rs, st)))"

definition ping_all_dcs :: "'f float_ops \<Rightarrow> (nat \<Rightarrow> network) \<Rightarrow> (nat \<Rightarrow> bool) \<Rightarrow> (nat \<Rightarrow> 'f) \<Rightarrow> nat \<Rightarrow> (bytes \<times> bytes list) list \<Rightarrow> bool \<Rightarrow> bool \<Rightarrow>
    'f upstream_manager \<Rightarrow> 'f startup_ping_result list \<times> 'f upstream_manager" where
  "ping_all_dcs F Ns expired rtt fuel overrides ipv4_enabled ipv6_enabled m =
     (case ping_upstreams F Ns expired rtt fuel overrides ipv4_enabled ipv6_enabled [0 ..< length (um_upstreams m)] (m, 0) of
        (rs, m, _) \<Rightarrow> (rs, m))"

subsection \<open>Histories of a manager\<close>

text \<open>The managers reached from a configuration in \<open>n\<close> steps that may record a failure: a connection, or the check of one upstream (the task that
  checks takes the lock once for each upstream, so a connection may come between two of them). The ping records none.\<close>

inductive manager_reach :: "'f float_ops \<Rightarrow> upstream_config list \<Rightarrow> u32 \<Rightarrow> u32 \<Rightarrow> nat \<Rightarrow> 'f upstream_manager \<Rightarrow> bool"
  for F configs attempts threshold where
  reach_new: "manager_reach F configs attempts threshold 0 (upstream_manager_new F configs attempts threshold)"
| reach_connect: "manager_reach F configs attempts threshold n m \<Longrightarrow>
    manager_reach F configs attempts threshold (Suc n) (snd (connect_with_details F pick draw Ns rtt fuel target dc_idx scope m))"
| reach_check: "manager_reach F configs attempts threshold n m \<Longrightarrow>
    manager_reach F configs attempts threshold (Suc n) (fst (check_upstream F Ns rtt fuel groups i (m, rot, clock)))"
| reach_ping: "manager_reach F configs attempts threshold n m \<Longrightarrow>
    manager_reach F configs attempts threshold n (snd (ping_all_dcs F Ns expired rtt fuel overrides ipv4_enabled ipv6_enabled m))"

subsection \<open>Selection respects scope and health\<close>

lemma weighted_choice_mem: "weighted_choice F c ws = Some i \<Longrightarrow> i \<in> fst ` set ws"
  by (induction F c ws rule: weighted_choice.induct) (auto split: if_splits)

lemma split_commas_nonempty [simp]: "split_commas bs \<noteq> []"
  by (induction bs) (auto split: list.split)

text \<open>C34: Selection is sound whatever the latencies and whatever the floating-point arithmetic makes of them. It fails exactly when no upstream has
  the requested scope (or, without one, no upstream is unscoped); otherwise it returns the index of such an upstream,
  and a healthy one as long as one of them is healthy.\<close>

theorem select_upstream_sound:
  assumes "\<forall>n > 0. pick n < n"
  shows "case select_upstream F pick draw us dc_idx scope of
      None \<Rightarrow> \<forall>u \<in> set us. \<not> scope_matches scope (us_config u)
    | Some i \<Rightarrow> i < length us \<and> scope_matches scope (us_config (us ! i)) \<and>
        ((\<exists>u \<in> set us. scope_matches scope (us_config u) \<and> us_healthy u) \<longrightarrow> us_healthy (us ! i))"
proof -
  let ?f = "filter (\<lambda>i. scope_matches scope (us_config (us ! i))) [0 ..< length us]"
  let ?h = "filter (\<lambda>i. us_healthy (us ! i)) ?f"
  let ?ws = "map (\<lambda>i. (i, upstream_weight F dc_idx (us ! i))) ?h"
  have f: "i \<in> set ?f \<longleftrightarrow> i < length us \<and> scope_matches scope (us_config (us ! i))" for i by auto
  have p: "xs \<noteq> [] \<Longrightarrow> xs ! pick (length xs) \<in> set xs" for xs :: "nat list" using assms by simp
  show ?thesis
  proof (cases "?f = []")
    case True
    then have "select_upstream F pick draw us dc_idx scope = None" by (simp add: select_upstream_def Let_def)
    moreover have "\<forall>u \<in> set us. \<not> scope_matches scope (us_config u)"
      using True f by (metis in_set_conv_nth list.set(1) empty_iff)
    ultimately show ?thesis by simp
  next
    case ne: False
    show ?thesis
    proof (cases "?h = []")
      case True
      then have s: "select_upstream F pick draw us dc_idx scope = Some (?f ! pick (length ?f))"
        using ne by (simp only: select_upstream_def Let_def if_False if_True simp_thms)
      have "\<not> (\<exists>u \<in> set us. scope_matches scope (us_config u) \<and> us_healthy u)"
        using True f by (metis (no_types, lifting) filter_empty_conv in_set_conv_nth)
      then show ?thesis using p [OF ne] f unfolding s by (simp only: option.case) blast
    next
      case False
      have w: "weighted_choice F c ?ws = Some i \<Longrightarrow> i \<in> set ?h" for c i
        using weighted_choice_mem [of F c ?ws i] by (simp add: image_image)
      have "\<exists>i \<in> set ?h. select_upstream F pick draw us dc_idx scope = Some i"
        using ne False p [OF False] w nth_mem [of 0 ?h]
        unfolding select_upstream_def Let_def by (auto split: option.splits simp del: set_filter filter_filter)
      then show ?thesis by auto
    qed
  qed
qed

text \<open>Integers in place of floating-point numbers, and one unscoped direct upstream, as concrete inputs.\<close>

definition int_ops :: "int float_ops" where
  "int_ops = \<lparr>f_lit = \<lambda>m k. int m div 10 ^ k, f_add = (+), f_sub = (-), f_mul = (*), f_div = (div), f_lt = (<), f_le = (\<le>)\<rparr>"

definition demo_config :: upstream_config where
  "demo_config = \<lparr>uc_type = Direct None None, uc_weight = 1, uc_enabled = True, uc_scopes = [], uc_selected_scope = []\<rparr>"

theorem select_upstream_sound_witness:
  "select_upstream int_ops (\<lambda>n. n - 1) (\<lambda>t. t) (map (upstream_state_new int_ops) [demo_config, demo_config]) None None \<noteq> None"
  using select_upstream_sound [where pick = "\<lambda>n. n - 1" and F = int_ops and draw = "\<lambda>t. t" and dc_idx = None and scope = None
      and us = "map (upstream_state_new int_ops) [demo_config, demo_config]"]
  by (auto simp: scope_matches_def upstream_state_new_def demo_config_def split: option.splits)

subsection \<open>Health and failures\<close>

definition upstream_ok :: "u32 \<Rightarrow> nat \<Rightarrow> 'f upstream_state \<Rightarrow> bool" where
  "upstream_ok threshold n u \<longleftrightarrow>
     us_healthy u = (us_fails u < threshold) \<and> unat (us_fails u) \<le> n \<and>
     length (us_dc_latency u) = NUM_DCS \<and> length (us_dc_ip_pref u) = NUM_DCS"

definition manager_ok :: "nat \<Rightarrow> 'f upstream_manager \<Rightarrow> bool" where
  "manager_ok n m \<longleftrightarrow> 0 < um_unhealthy_fail_threshold m \<and> 0 < um_connect_retry_attempts m \<and>
     (\<forall>u \<in> set (um_upstreams m). upstream_ok (um_unhealthy_fail_threshold m) n u)"

lemma upstream_ok_mono: "upstream_ok thr n u \<Longrightarrow> n \<le> k \<Longrightarrow> upstream_ok thr k u"
  by (simp add: upstream_ok_def)

lemma manager_ok_mono: "manager_ok n m \<Longrightarrow> n \<le> k \<Longrightarrow> manager_ok k m"
  by (auto simp: manager_ok_def intro: upstream_ok_mono)

lemma update_upstream_ok:
  assumes "manager_ok n m" and "n \<le> k"
    and "\<And>u. upstream_ok (um_unhealthy_fail_threshold m) n u \<Longrightarrow> upstream_ok (um_unhealthy_fail_threshold m) k (f u)"
  shows "manager_ok k (update_upstream i f m)"
  using assms manager_ok_mono [OF assms(1, 2)]
  by (auto simp: manager_ok_def update_upstream_def dest!: set_update_subset_insert [THEN subsetD])

lemma update_upstream_threshold [simp]:
  "um_unhealthy_fail_threshold (update_upstream i f m) = um_unhealthy_fail_threshold m"
  by (simp add: update_upstream_def)

lemma note_success_ok: "upstream_ok thr n u \<Longrightarrow> 0 < thr \<Longrightarrow> upstream_ok thr k (note_success F dc r u)"
  by (auto simp: upstream_ok_def note_success_def Let_def split: option.split)

lemma note_failure_ok:
  assumes "upstream_ok thr n u" and "Suc n < 2 ^ 32"
  shows "upstream_ok thr (Suc n) (note_failure thr u)"
proof -
  have le: "unat (us_fails u) \<le> n" using assms by (simp add: upstream_ok_def)
  then have "unat (us_fails u + 1) = Suc (unat (us_fails u))"
    using assms(2) by (simp add: unat_word_ariths)
  then show ?thesis
    using assms(1) le by (auto simp: upstream_ok_def note_failure_def Let_def word_less_nat_alt word_le_nat_alt)
qed

lemma upstream_ok_bind_rr [simp]: "upstream_ok thr n (u\<lparr>us_bind_rr := r\<rparr>) = upstream_ok thr n u"
  by (simp add: upstream_ok_def)

lemma connect_ok:
  assumes "manager_ok n m" and "Suc n < 2 ^ 32"
  shows "manager_ok (Suc n) (snd (connect_with_details F pick draw Ns rtt fuel target dc_idx scope m))"
proof -
  have thr: "0 < um_unhealthy_fail_threshold m" using assms by (simp add: manager_ok_def)
  have rr: "manager_ok n (update_upstream i (\<lambda>u. u\<lparr>us_bind_rr := g u\<rparr>) m)" for i g
    using assms(1) by (rule update_upstream_ok) simp_all
  show ?thesis
    using manager_ok_mono [OF assms(1)] rr thr
    by (auto simp: connect_with_details_def Let_def split: option.split prod.split sum.split
        intro!: update_upstream_ok [OF rr] note_success_ok note_failure_ok [OF _ assms(2)])
qed

lemma latency_fold_length [simp]:
  "length (fold (\<lambda>(di, at) ls. ls[di := ema_update F (rtt at) (ls ! di)]) ups ls) = length ls"
  by (induction ups arbitrary: ls) auto

lemma check_ok:
  assumes "manager_ok n m" and "Suc n < 2 ^ 32"
  shows "manager_ok (Suc n) (fst (check_upstream F Ns rtt fuel groups i (m, rot, clock)))"
proof -
  let ?thr = "um_unhealthy_fail_threshold m"
  have thr: "0 < ?thr" using assms by (simp add: manager_ok_def)
  have lat: "upstream_ok ?thr n (u\<lparr>us_bind_rr := r, us_dc_latency := ls\<rparr>)"
    if "upstream_ok ?thr n u" "length ls = length (us_dc_latency u)" for u :: "'a upstream_state" and r ls
    using that by (simp add: upstream_ok_def)
  have up: "upstream_ok ?thr (Suc n) (u\<lparr>us_healthy := True, us_fails := 0\<rparr>)"
    if "upstream_ok ?thr n u" for u :: "'a upstream_state"
    using that thr by (simp add: upstream_ok_def)
  show ?thesis
    unfolding check_upstream_def Let_def
    by (auto split: prod.split intro!: update_upstream_ok [OF assms(1)] note_failure_ok [OF _ assms(2)] up lat)
qed

lemma ping_latency_length [simp]: "length (ping_latency F rs ls) = length ls"
proof -
  have "length (fold (\<lambda>r ls. case dp_rtt_ms r of Some ms \<Rightarrow> ls[dp_dc_idx r - 1 := ema_update F ms (ls ! (dp_dc_idx r - 1))] | None \<Rightarrow> ls) rs ls) = length ls"
    by (induction rs arbitrary: ls) (auto split: option.split)
  then show ?thesis by (simp add: ping_latency_def)
qed

lemma ping_upstream_ok:
  assumes "manager_ok n (fst st)"
  shows "manager_ok n (fst (snd (ping_upstream F Ns expired rtt fuel overrides e4 e6 i st)))"
  using assms by (cases st) (auto simp: ping_upstream_def Let_def upstream_ok_def split: prod.split intro!: update_upstream_ok)

lemma ping_upstreams_ok:
  "manager_ok n (fst st) \<Longrightarrow> manager_ok n (fst (snd (ping_upstreams F Ns expired rtt fuel overrides e4 e6 is st)))"
proof (induction "is" arbitrary: st)
  case (Cons i "is")
  have "manager_ok n (fst (snd (ping_upstream F Ns expired rtt fuel overrides e4 e6 i st)))"
    using Cons.prems by (rule ping_upstream_ok)
  then show ?case using Cons.IH [of "snd (ping_upstream F Ns expired rtt fuel overrides e4 e6 i st)"]
    by (auto split: prod.split)
qed simp

lemma ping_ok: "manager_ok n m \<Longrightarrow> manager_ok n (snd (ping_all_dcs F Ns expired rtt fuel overrides e4 e6 m))"
  using ping_upstreams_ok [of n "(m, 0)"] by (simp add: ping_all_dcs_def split: prod.split) (metis fst_conv snd_conv)

lemma new_manager_ok: "manager_ok 0 (upstream_manager_new F configs attempts threshold)"
  by (auto simp: manager_ok_def upstream_ok_def upstream_manager_new_def upstream_state_new_def NUM_DCS_def max_def
      not_le word_gt_0)

lemma manager_reach_ok: "manager_reach F configs attempts threshold n m \<Longrightarrow> n < 2 ^ 32 \<Longrightarrow> manager_ok n m"
proof (induction rule: manager_reach.induct)
  case reach_new
  show ?case by (rule new_manager_ok)
next
  case (reach_connect n m pick draw Ns rtt fuel target dc_idx scope)
  then show ?case by (intro connect_ok) simp_all
next
  case (reach_check n m Ns rtt fuel groups i rot clock)
  then show ?case by (intro check_ok) simp_all
next
  case (reach_ping n m Ns expired rtt fuel overrides e4 e6)
  then show ?case by (intro ping_ok)
qed

text \<open>C35: In every manager reached from a configuration by connections, health checks and pings, as long as fewer than \<open>2 ^ 32\<close> of them could have failed,
  an upstream is healthy exactly when the failures since its last success are fewer than the threshold, which is at least one;
  there are never more failures than steps, and the tables indexed by datacenter keep one entry for each of the five datacenters.\<close>

theorem upstream_health_invariant:
  assumes "manager_reach F configs attempts threshold n m" and "n < 2 ^ 32" and "u \<in> set (um_upstreams m)"
  shows "us_healthy u = (us_fails u < um_unhealthy_fail_threshold m) \<and> 0 < um_unhealthy_fail_threshold m \<and>
    unat (us_fails u) \<le> n \<and> length (us_dc_latency u) = NUM_DCS \<and> length (us_dc_ip_pref u) = NUM_DCS"
  using manager_reach_ok [OF assms(1, 2)] assms(3) by (auto simp: manager_ok_def upstream_ok_def)

text \<open>A network on which nothing answers.\<close>

definition dead_net :: network where
  "dead_net = \<lparr>net_dial = \<lambda>a b. Inl (cfg_err ''unreachable''), net_dial_host = \<lambda>h. Inl (cfg_err ''unreachable''), net_interface_addrs = \<lambda>i b. [],
     net_interface_ip = \<lambda>i b. None, net_overrides = Map.empty\<rparr>"

definition demo_failed :: "int upstream_manager" where
  "demo_failed = snd (connect_with_details int_ops (\<lambda>n. 0) (\<lambda>t. 0) (\<lambda>n. dead_net) (\<lambda>n. 1) 1
     (SocketAddr (IpV4 0x01020304) 443) None None (upstream_manager_new int_ops [demo_config] 2 1))"

lemma demo_failed_upstreams:
  "um_upstreams demo_failed =
     [(upstream_state_new int_ops demo_config)\<lparr>us_healthy := False, us_fails := 1\<rparr>]"
  by code_simp

theorem upstream_health_invariant_witness:
  "\<not> us_healthy (hd (um_upstreams demo_failed)) \<and> unat (us_fails (hd (um_upstreams demo_failed))) \<le> 1 \<and>
   \<not> us_fails (hd (um_upstreams demo_failed)) < um_unhealthy_fail_threshold demo_failed"
proof -
  have r: "manager_reach int_ops [demo_config] 2 1 1 demo_failed"
    unfolding demo_failed_def One_nat_def by (rule reach_connect [OF reach_new])
  have "hd (um_upstreams demo_failed) \<in> set (um_upstreams demo_failed)" by (simp add: demo_failed_upstreams)
  from upstream_health_invariant [OF r _ this] show ?thesis by (simp add: demo_failed_upstreams)
qed

subsection \<open>What a health check finds\<close>

text \<open>A network on which, during the check, the endpoints that can be reached through the upstream are those of \<open>up\<close>.\<close>

definition reachable_are :: "(socket_addr \<Rightarrow> bool) \<Rightarrow> (nat \<Rightarrow> network) \<Rightarrow> nat \<Rightarrow> upstream_config \<Rightarrow> bool" where
  "reachable_are up Ns fuel config \<longleftrightarrow> (\<forall>t a rr. isl (fst (connect_via_upstream (Ns t) fuel config a rr)) = (\<not> up a))"

lemma probe_endpoints_found:
  assumes "reachable_are up Ns fuel config"
  shows "(fst (probe_endpoints Ns fuel config endpoints start steps clock rr) \<noteq> None) =
    (\<exists>k \<in> set steps. up (endpoints ! ((start + k) mod length endpoints)))"
proof (induction steps arbitrary: clock rr)
  case (Cons k steps)
  then show ?case
    using assms [unfolded reachable_are_def, rule_format, of clock "endpoints ! ((start + k) mod length endpoints)" rr]
    by (auto simp: Let_def split: prod.split sum.split)
qed simp

lemma rotated_all:
  assumes "xs \<noteq> []"
  shows "(\<exists>k \<in> set [0 ..< length xs]. P (xs ! ((s + k) mod length xs))) = (\<exists>x \<in> set xs. P x)"
proof
  assume "\<exists>x \<in> set xs. P x"
  then obtain i where i: "i < length xs" "P (xs ! i)" by (auto simp: in_set_conv_nth)
  let ?k = "(i + (length xs - s mod length xs)) mod length xs"
  have le: "s mod length xs \<le> length xs" using assms by (simp add: less_imp_le)
  have "(s + ?k) mod length xs = (s mod length xs + (i + (length xs - s mod length xs))) mod length xs"
    by (simp add: mod_simps)
  also have "\<dots> = (i + length xs) mod length xs"
    using le by (intro arg_cong2 [where f = "(mod)"] refl) linarith
  also have "\<dots> = i" using i by simp
  finally show "\<exists>k \<in> set [0 ..< length xs]. P (xs ! ((s + k) mod length xs))"
    using i assms by (intro bexI [of _ ?k]) simp_all
qed (use assms in \<open>auto intro!: nth_mem\<close>)

lemma probe_side_found:
  assumes "reachable_are up Ns fuel config"
  shows "(fst (probe_side Ns fuel config key endpoints rot clock rr) \<noteq> None) = (\<exists>a \<in> set endpoints. up a)"
proof (cases "endpoints = []")
  case False
  have "(fst (probe_side Ns fuel config key endpoints rot clock rr) \<noteq> None) =
      (fst (probe_endpoints Ns fuel config endpoints ((case rot key of Some n \<Rightarrow> n | None \<Rightarrow> 0) mod length endpoints)
        [0 ..< length endpoints] clock rr) \<noteq> None)"
    using False by (auto simp: probe_side_def Let_def split: prod.split option.split)
  then show ?thesis unfolding probe_endpoints_found [OF assms] rotated_all [OF False] .
qed (simp add: probe_side_def)

lemma probe_group_found:
  assumes "reachable_are up Ns fuel config"
  shows "(fst (probe_group Ns fuel config i g rot clock rr) \<noteq> None) = (\<exists>a \<in> set (hg_primary g) \<union> set (hg_fallback g). up a)"
proof (cases "probe_side Ns fuel config (i, hg_dc_idx g, True) (hg_primary g) rot clock rr")
  case (fields ok rot' clock' rr')
  then show ?thesis
    using probe_side_found [OF assms, of "(i, hg_dc_idx g, True)" "hg_primary g" rot clock rr]
      probe_side_found [OF assms, of "(i, hg_dc_idx g, False)" "hg_fallback g" rot' clock' rr']
    by (cases ok) (auto simp: probe_group_def)
qed

lemma probe_groups_count:
  assumes "reachable_are up Ns fuel config"
  shows "fst (probe_groups Ns fuel config i gs rot clock rr) =
    length (filter (\<lambda>g. \<exists>a \<in> set (hg_primary g) \<union> set (hg_fallback g). up a) gs)"
proof (induction gs arbitrary: rot clock rr)
  case (Cons g gs)
  obtain ok rot' clock' rr' where p: "probe_group Ns fuel config i g rot clock rr = (ok, rot', clock', rr')"
    by (rule prod_cases4)
  show ?case
    using Cons.IH [of rot' clock' rr'] probe_group_found [OF assms, of i g rot clock rr] p
    by (auto split: prod.split option.split)
qed simp

text \<open>C36: A health check of an upstream counts exactly the datacenter groups with at least one endpoint, primary or fallback, that can be reached
  through it, wherever the rotation starts; the upstream is healthy again, with no failures, when enough groups are reachable (three, or all of
  them when there are fewer), and otherwise has one more failure and stays healthy only below the threshold.\<close>

theorem health_check_verdict:
  assumes "reachable_are up Ns fuel (us_config (um_upstreams m ! i))"
    and "i < length (um_upstreams m)"
  shows "let u = um_upstreams m ! i;
             u' = um_upstreams (fst (check_upstream F Ns rtt fuel groups i (m, rot, clock))) ! i;
             live = length (filter (\<lambda>g. \<exists>a \<in> set (hg_primary g) \<union> set (hg_fallback g). up a) groups)
         in us_config u' = us_config u \<and>
            (if min 3 (length groups) \<le> live then us_healthy u' \<and> us_fails u' = 0
             else us_fails u' = us_fails u + 1 \<and> us_healthy u' = (us_healthy u \<and> us_fails u' < um_unhealthy_fail_threshold m))"
proof -
  let ?live = "length (filter (\<lambda>g. \<exists>a \<in> set (hg_primary g) \<union> set (hg_fallback g). up a) groups)"
  obtain live lat rot' clock' rr where
    p: "probe_groups Ns fuel (us_config (um_upstreams m ! i)) i groups rot clock (Some (us_bind_rr (um_upstreams m ! i))) = (live, lat, rot', clock', rr)"
    by (rule prod_cases5)
  have live: "?live = live"
    using probe_groups_count [OF assms(1), of i groups rot clock "Some (us_bind_rr (um_upstreams m ! i))"] p by simp
  have req: "required_healthy_group_count (length groups) = min 3 (length groups)"
    by (simp add: required_healthy_group_count_def MIN_HEALTHY_DC_GROUPS_def min.commute)
  show ?thesis
    unfolding check_upstream_def Let_def prod.case p req live
    by (auto simp: update_upstream_def note_failure_def Let_def assms(2) min_def split: if_splits)
qed

definition demo_group :: health_check_group where
  "demo_group = \<lparr>hg_dc_idx = 1, hg_primary = [SocketAddr (IpV4 0x01020304) 443], hg_fallback = []\<rparr>"

lemma dead_net_reaches_none: "reachable_are (\<lambda>a. False) (\<lambda>n. dead_net) fuel demo_config"
  by (simp add: reachable_are_def connect_via_upstream_def demo_config_def dead_net_def resolve_bind_address_def split: prod.split)

theorem health_check_verdict_witness:
  "us_fails (um_upstreams (fst (check_upstream int_ops (\<lambda>n. dead_net) (\<lambda>n. 1) 1 [demo_group] 0
      (upstream_manager_new int_ops [demo_config] 1 1, Map.empty, 0))) ! 0) = 1"
proof -
  have u: "um_upstreams (upstream_manager_new int_ops [demo_config] 1 1) = [upstream_state_new int_ops demo_config]"
    by (simp add: upstream_manager_new_def demo_config_def)
  have c: "us_config (upstream_state_new int_ops demo_config) = demo_config" "us_fails (upstream_state_new int_ops demo_config) = 0"
    by (simp_all add: upstream_state_new_def)
  have r: "reachable_are (\<lambda>a. False) (\<lambda>n. dead_net) 1 (us_config (um_upstreams (upstream_manager_new int_ops [demo_config] 1 1) ! 0))"
    using dead_net_reaches_none by (simp add: u c)
  show ?thesis
    using health_check_verdict [OF r, of int_ops "\<lambda>n. 1" "[demo_group]" Map.empty 0] by (simp add: u c Let_def)
qed

end
