(* ===== verification/Me_Pool.thy ===== *)
theory Me_Pool
  imports Registry Upstream Net_Probe
begin

section \<open>The middle-proxy pool (\<open>transport/middle_proxy/pool.rs\<close>, \<open>pool_writer.rs\<close>, \<open>pool_refill.rs\<close>)\<close>

text \<open>
  The pool keeps the connections to middle proxies (its writers), each with a channel of commands, the addresses of the proxies of
  each datacenter, and generations of writers. A channel is shared by its writer, the registry and every snapshot of the
  writers: channels are a store indexed by the writer's id, and the registry's senders are these ids. Connecting (the TCP connection and
  the handshake) is a parameter: whether attempt number \<open>n\<close> of the pool's history succeeds. So are both clocks, and how waits on full answer channels end.
  Tasks that an operation spawns are entries of the state and take their own steps.
\<close>

subsection \<open>Enumerations\<close>

datatype writer_contour = Warm | Active | Draining

fun contour_as_u8 :: "writer_contour \<Rightarrow> byte" where
  "contour_as_u8 Warm = 0"
| "contour_as_u8 Active = 1"
| "contour_as_u8 Draining = 2"

definition contour_from_u8 :: "byte \<Rightarrow> writer_contour" where
  "contour_from_u8 value = (if value = 0 then Warm else if value = 1 then Active else Draining)"

datatype me_bind_stale_mode = StaleNever | StaleTtl | StaleAlways

fun stale_as_u8 :: "me_bind_stale_mode \<Rightarrow> byte" where
  "stale_as_u8 StaleNever = 0"
| "stale_as_u8 StaleTtl = 1"
| "stale_as_u8 StaleAlways = 2"

definition stale_from_u8 :: "byte \<Rightarrow> me_bind_stale_mode" where
  "stale_from_u8 raw = (if raw = 0 then StaleNever else if raw = 2 then StaleAlways else StaleTtl)"

datatype me_floor_mode = FloorStatic | FloorAdaptive

fun floor_as_u8 :: "me_floor_mode \<Rightarrow> byte" where
  "floor_as_u8 FloorStatic = 0"
| "floor_as_u8 FloorAdaptive = 1"

definition floor_from_u8 :: "byte \<Rightarrow> me_floor_mode" where
  "floor_from_u8 raw = (if raw = 1 then FloorAdaptive else FloorStatic)"

datatype me_telemetry_level = TelNormal | TelSilent | TelDebug

definition allows_normal :: "me_telemetry_level \<Rightarrow> bool" where "allows_normal l \<longleftrightarrow> l \<noteq> TelSilent"

definition allows_debug :: "me_telemetry_level \<Rightarrow> bool" where "allows_debug l \<longleftrightarrow> l = TelDebug"

subsection \<open>Counters\<close>

datatype me_counter =
    PoolSwap | PoolForceClose | PoolStalePick | WriterRemoved | WriterRemovedUnexpected | RefillTriggered | RefillSkippedInflight
  | RefillFailed | RestoredSameEndpoint | RestoredFallback | ReconnectAttempt | ReconnectSuccess | EndpointQuarantine
  | HardswapPendingReuse | HardswapPendingTtlExpired | FloorModeSwitch | FloorStaticToAdaptive | FloorAdaptiveToStatic

text \<open>The counters that are only kept at the debug level.\<close>

definition debug_counter :: "me_counter \<Rightarrow> bool" where
  "debug_counter c \<longleftrightarrow> c \<in> {WriterRemoved, RefillTriggered, RefillSkippedInflight, HardswapPendingReuse}"

record pool_stats =
  ps_level :: me_telemetry_level
  ps_count :: "me_counter \<Rightarrow> u64"
  ps_drain_active :: u64

definition increment :: "me_counter \<Rightarrow> pool_stats \<Rightarrow> pool_stats" where
  "increment c s =
     (if (if debug_counter c then allows_debug (ps_level s) else allows_normal (ps_level s))
      then s\<lparr>ps_count := (ps_count s)(c := ps_count s c + 1)\<rparr> else s)"

definition increment_pool_drain_active :: "pool_stats \<Rightarrow> pool_stats" where
  "increment_pool_drain_active s = (if allows_debug (ps_level s) then s\<lparr>ps_drain_active := ps_drain_active s + 1\<rparr> else s)"

definition decrement_pool_drain_active :: "pool_stats \<Rightarrow> pool_stats" where
  "decrement_pool_drain_active s =
     (if \<not> allows_debug (ps_level s) \<or> ps_drain_active s = 0 then s else s\<lparr>ps_drain_active := ps_drain_active s - 1\<rparr>)"

subsection \<open>State\<close>

type_synonym proxy_map = "(int \<times> (ip_addr \<times> u16) list) list"

definition WRITER_CHANNEL_CAPACITY :: nat where "WRITER_CHANNEL_CAPACITY = 4096"

text \<open>A channel of commands: its queue, whether the writer task is gone, and whether it has been cancelled.\<close>

record wr_channel =
  wc_queue :: "writer_command list"
  wc_closed :: bool
  wc_cancelled :: bool

record me_writer =
  mw_id :: u64
  mw_addr :: socket_addr
  mw_generation :: u64
  mw_contour :: byte
  mw_created_at :: nat
  mw_degraded :: bool
  mw_draining :: bool
  mw_draining_started_at_epoch_secs :: u64
  mw_allow_drain_fallback :: bool

record secret_snapshot =
  ss_epoch :: u64
  ss_key_selector :: u32
  ss_secret :: bytes

record reinit_policy =
  rp_hardswap :: bool
  rp_drain_ttl_secs :: u64
  rp_force_close_secs :: u64
  rp_min_fresh_ratio_permille :: u32
  rp_warmup_delay_min_ms :: u64
  rp_warmup_delay_max_ms :: u64
  rp_warmup_extra_passes :: u32
  rp_warmup_pass_backoff_base_ms :: u64
  rp_bind_stale_mode :: byte
  rp_bind_stale_ttl_secs :: u64
  rp_secret_atomic_snapshot :: bool
  rp_deterministic_writer_sort :: bool
  rp_shadow_writers :: byte
  rp_outage_mode_enabled :: bool
  rp_outage_disable_quarantine :: bool
  rp_outage_backoff_min_ms :: u64
  rp_outage_backoff_max_ms :: u64
  rp_shadow_rotate_every_secs :: u64
  rp_floor_mode :: byte
  rp_adaptive_floor_idle_secs :: u64
  rp_adaptive_floor_min_writers :: byte
  rp_adaptive_floor_recover_grace_secs :: u64

text \<open>The stages of a refill task: started for an endpoint, the endpoint claimed, and at work with the datacenters claimed too.\<close>

type_synonym refill_dc_key = "int \<times> bool"

datatype refill_task = RfStarted socket_addr | RfClaimed socket_addr "refill_dc_key list" | RfWorking socket_addr "refill_dc_key list"

record me_pool =
  mp_registry :: "u64 registry"
  mp_channels :: "u64 \<rightharpoonup> wr_channel"
  mp_writers :: "me_writer list"
  mp_rr :: u64
  mp_decision :: network_decision
  mp_proxy_tag :: "bytes option"
  mp_secret :: secret_snapshot
  mp_policy :: reinit_policy
  mp_fast_retry_count :: u32
  mp_backoff_cap_ms :: u64
  mp_map_v4 :: proxy_map
  mp_map_v6 :: proxy_map
  mp_default_dc :: int
  mp_next_writer_id :: u64
  mp_refill_inflight :: "socket_addr list"
  mp_refill_inflight_dc :: "refill_dc_key list"
  mp_conn_count :: u64
  mp_stats :: pool_stats
  mp_generation :: u64
  mp_active_generation :: u64
  mp_warm_generation :: u64
  mp_pending_generation :: u64
  mp_pending_started_at :: u64
  mp_pending_map_hash :: u64
  mp_quarantine :: "socket_addr \<rightharpoonup> nat"
  mp_refills :: "refill_task list"
  mp_drains :: "(u64 \<times> nat option) list"
  mp_clock :: nat

text \<open>The environment: connections, the monotonic clock in milliseconds, the clock of the epoch in seconds, waits on answer channels and
  shuffles, all at a given point of the pool's history.\<close>

record pool_env =
  pe_connect :: "nat \<Rightarrow> socket_addr \<Rightarrow> proxy_error + unit"
  pe_instant :: "nat \<Rightarrow> nat"
  pe_epoch :: "nat \<Rightarrow> u64"
  pe_waits :: "nat \<Rightarrow> u64 \<Rightarrow> u64 \<Rightarrow> send_wait"
  pe_shuffle :: "nat \<Rightarrow> socket_addr list \<Rightarrow> socket_addr list"

definition key_selector_of :: "bytes \<Rightarrow> u32" where
  "key_selector_of secret = (if 4 \<le> length secret then u32_from_le_bytes (take 4 secret) else 0)"

definition me_pool_new :: "u64 \<Rightarrow> u64 \<Rightarrow> u64 \<Rightarrow> byte \<Rightarrow> bytes option \<Rightarrow> bytes \<Rightarrow> network_decision \<Rightarrow> reinit_policy \<Rightarrow> u32 \<Rightarrow> u64 \<Rightarrow> proxy_map \<Rightarrow> proxy_map \<Rightarrow>
    int option \<Rightarrow> pool_stats \<Rightarrow> me_pool" where
  "me_pool_new random base_timeout_ms high_timeout_ms high_watermark_pct tag secret decision policy fast_retries backoff_cap_ms map_v4 map_v6 default_dc st =
     \<lparr>mp_registry = update_route_backpressure_policy base_timeout_ms high_timeout_ms high_watermark_pct (registry_new random),
      mp_channels = Map.empty, mp_writers = [], mp_rr = 0, mp_decision = decision, mp_proxy_tag = tag,
      mp_secret = \<lparr>ss_epoch = 1, ss_key_selector = key_selector_of secret, ss_secret = secret\<rparr>, mp_policy = policy,
      mp_fast_retry_count = fast_retries, mp_backoff_cap_ms = backoff_cap_ms, mp_map_v4 = map_v4, mp_map_v6 = map_v6,
      mp_default_dc = (case default_dc of Some dc \<Rightarrow> dc | None \<Rightarrow> 0), mp_next_writer_id = 1, mp_refill_inflight = [], mp_refill_inflight_dc = [],
      mp_conn_count = 0, mp_stats = st, mp_generation = 1, mp_active_generation = 1, mp_warm_generation = 0, mp_pending_generation = 0,
      mp_pending_started_at = 0, mp_pending_map_hash = 0, mp_quarantine = Map.empty, mp_refills = [], mp_drains = [], mp_clock = 0\<rparr>"

definition on_stats :: "(pool_stats \<Rightarrow> pool_stats) \<Rightarrow> me_pool \<Rightarrow> me_pool" where
  "on_stats f p = p\<lparr>mp_stats := f (mp_stats p)\<rparr>"

definition bump :: "me_counter \<Rightarrow> me_pool \<Rightarrow> me_pool" where
  "bump c = on_stats (increment c)"

definition current_generation :: "me_pool \<Rightarrow> u64" where
  "current_generation p = mp_active_generation p"

definition update_runtime_reinit_policy :: "reinit_policy \<Rightarrow> me_pool \<Rightarrow> me_pool" where
  "update_runtime_reinit_policy policy p =
     (let previous = floor_from_u8 (rp_floor_mode (mp_policy p));
          new = floor_from_u8 (rp_floor_mode policy);
          p = p\<lparr>mp_policy := policy\<rparr>
      in if previous = new then p
         else let p = bump FloorModeSwitch p in
           (case (previous, new) of
              (FloorStatic, FloorAdaptive) \<Rightarrow> bump FloorStaticToAdaptive p
            | (FloorAdaptive, FloorStatic) \<Rightarrow> bump FloorAdaptiveToStatic p
            | _ \<Rightarrow> p))"

definition force_close_timeout :: "me_pool \<Rightarrow> nat option" where
  "force_close_timeout p = (let secs = rp_force_close_secs (mp_policy p) in if secs = 0 then None else Some (unat secs))"

definition required_writers_for_dc :: "nat \<Rightarrow> me_pool \<Rightarrow> nat" where
  "required_writers_for_dc endpoint_count p =
     (if endpoint_count = 0 then 0
      else if endpoint_count = 1 then max (1 + unat (rp_shadow_writers (mp_policy p))) 3
      else max endpoint_count 3)"

definition required_writers_for_dc_with_floor_mode :: "nat \<Rightarrow> bool \<Rightarrow> me_pool \<Rightarrow> nat" where
  "required_writers_for_dc_with_floor_mode endpoint_count reduce_for_idle p =
     (let base_required = required_writers_for_dc endpoint_count p in
      if \<not> reduce_for_idle then base_required
      else if endpoint_count \<noteq> 1 \<or> floor_from_u8 (rp_floor_mode (mp_policy p)) \<noteq> FloorAdaptive then base_required
      else min base_required (max (unat (rp_adaptive_floor_min_writers (mp_policy p))) 1))"

definition single_endpoint_outage_backoff_bounds_ms :: "me_pool \<Rightarrow> u64 \<times> u64" where
  "single_endpoint_outage_backoff_bounds_ms p =
     (let min_ms = rp_outage_backoff_min_ms (mp_policy p); max_ms = rp_outage_backoff_max_ms (mp_policy p) in
      if min_ms \<le> max_ms then (min_ms, max_ms) else (max_ms, min_ms))"

definition family_order :: "me_pool \<Rightarrow> bool list" where
  "family_order p =
     (let d = mp_decision p; v6 = (if nd_ipv6_me d then [True] else []); v4 = (if nd_ipv4_me d then [False] else []) in
      if nd_effective_prefer d = 6 then v6 @ v4 else v4 @ v6)"

text \<open>A family is named by whether it is IPv6.\<close>

definition proxy_map_for_family :: "bool \<Rightarrow> me_pool \<Rightarrow> proxy_map" where
  "proxy_map_for_family is_v6 p = (if is_v6 then mp_map_v6 p else mp_map_v4 p)"

definition endpoints_of :: "(ip_addr \<times> u16) list \<Rightarrow> socket_addr list" where
  "endpoints_of addrs = map (\<lambda>(ip, port). SocketAddr ip port) addrs"

subsection \<open>Quarantine\<close>

definition ME_FLAP_UPTIME_THRESHOLD_SECS :: nat where "ME_FLAP_UPTIME_THRESHOLD_SECS = 20"

definition ME_FLAP_QUARANTINE_SECS :: nat where "ME_FLAP_QUARANTINE_SECS = 25"

definition retain_quarantined :: "nat \<Rightarrow> (socket_addr \<rightharpoonup> nat) \<Rightarrow> (socket_addr \<rightharpoonup> nat)" where
  "retain_quarantined now q = (\<lambda>a. case q a of Some expiry \<Rightarrow> if now < expiry then Some expiry else None | None \<Rightarrow> None)"

definition maybe_quarantine_flapping_endpoint :: "pool_env \<Rightarrow> socket_addr \<Rightarrow> nat \<Rightarrow> me_pool \<Rightarrow> me_pool" where
  "maybe_quarantine_flapping_endpoint E addr uptime p =
     (if ME_FLAP_UPTIME_THRESHOLD_SECS * 1000 < uptime then p
      else let now = pe_instant E (mp_clock p) in
        bump EndpointQuarantine
          (p\<lparr>mp_quarantine := (retain_quarantined now (mp_quarantine p))(addr \<mapsto> now + ME_FLAP_QUARANTINE_SECS * 1000)\<rparr>))"

definition is_endpoint_quarantined :: "pool_env \<Rightarrow> socket_addr \<Rightarrow> me_pool \<Rightarrow> bool \<times> me_pool" where
  "is_endpoint_quarantined E addr p =
     (let q = retain_quarantined (pe_instant E (mp_clock p)) (mp_quarantine p) in (q addr \<noteq> None, p\<lparr>mp_quarantine := q\<rparr>))"

text \<open>The endpoints that are not quarantined, or else the one whose quarantine ends first.\<close>

fun earliest_quarantine :: "(socket_addr \<rightharpoonup> nat) \<Rightarrow> socket_addr list \<Rightarrow> (socket_addr \<times> nat) option \<Rightarrow> (socket_addr \<times> nat) option" where
  "earliest_quarantine q [] e = e"
| "earliest_quarantine q (a # as) e =
     (case q a of
        None \<Rightarrow> earliest_quarantine q as e
      | Some expiry \<Rightarrow>
          earliest_quarantine q as
            (case e of Some (_, current) \<Rightarrow> if current \<le> expiry then e else Some (a, expiry) | None \<Rightarrow> Some (a, expiry)))"

definition connectable_endpoints :: "pool_env \<Rightarrow> socket_addr list \<Rightarrow> me_pool \<Rightarrow> socket_addr list \<times> me_pool" where
  "connectable_endpoints E endpoints p =
     (if endpoints = [] then ([], p)
      else let q = retain_quarantined (pe_instant E (mp_clock p)) (mp_quarantine p);
               p = p\<lparr>mp_quarantine := q\<rparr>;
               rdy = filter (\<lambda>a. q a = None) endpoints
        in if rdy \<noteq> [] then (rdy, p)
           else case earliest_quarantine q endpoints None of Some (a, _) \<Rightarrow> ([a], p) | None \<Rightarrow> ([], p))"

subsection \<open>Writers\<close>

definition fresh_channel :: wr_channel where
  "fresh_channel = \<lparr>wc_queue = [], wc_closed = False, wc_cancelled = False\<rparr>"

definition connect_one_with_generation_contour :: "pool_env \<Rightarrow> socket_addr \<Rightarrow> u64 \<Rightarrow> writer_contour \<Rightarrow> me_pool \<Rightarrow> (proxy_error + unit) \<times> me_pool" where
  "connect_one_with_generation_contour E addr gen contour p =
     (if length (ss_secret (mp_secret p)) < 32 then (Inl (ProxyMsg (Msg ''proxy-secret too short for ME auth'' [])), p)
      else case pe_connect E (mp_clock p) addr of
          Inl e \<Rightarrow> (Inl e, p\<lparr>mp_clock := Suc (mp_clock p)\<rparr>)
        | Inr _ \<Rightarrow>
            let writer_id = mp_next_writer_id p;
                w = \<lparr>mw_id = writer_id, mw_addr = addr, mw_generation = gen, mw_contour = contour_as_u8 contour,
                     mw_created_at = pe_instant E (mp_clock p), mw_degraded = False, mw_draining = False,
                     mw_draining_started_at_epoch_secs = 0, mw_allow_drain_fallback = False\<rparr>
            in (Inr (), p\<lparr>mp_clock := Suc (mp_clock p), mp_next_writer_id := writer_id + 1, mp_channels := (mp_channels p)(writer_id \<mapsto> fresh_channel),
                  mp_writers := mp_writers p @ [w], mp_conn_count := mp_conn_count p + 1\<rparr>))"

text \<open>The task of a writer on one command of its channel, over the encrypted connection of the handshake; \<open>False\<close> when it ends.\<close>

fun writer_task_turn :: "block_cipher \<Rightarrow> checksums \<Rightarrow> nat \<Rightarrow> writer_command \<Rightarrow> rpc_writer \<Rightarrow> (bool \<times> rpc_writer) option" where
  "writer_task_turn E ck fuel (WcData payload) w = map_option (\<lambda>(r, w). (\<not> isl r, w)) (rpc_send E ck fuel w payload)"
| "writer_task_turn E ck fuel (WcDataAndFlush payload) w = map_option (\<lambda>(r, w). (\<not> isl r, w)) (rpc_send_and_flush E ck fuel w payload)"
| "writer_task_turn E ck fuel WcClose w = Some (False, w)"

definition connect_one :: "pool_env \<Rightarrow> socket_addr \<Rightarrow> me_pool \<Rightarrow> (proxy_error + unit) \<times> me_pool" where
  "connect_one E addr p = connect_one_with_generation_contour E addr (current_generation p) Active p"

definition find_writer :: "u64 \<Rightarrow> me_pool \<Rightarrow> me_writer option" where
  "find_writer writer_id p = List.find (\<lambda>w. mw_id w = writer_id) (mp_writers p)"

definition drop_writer :: "u64 \<Rightarrow> me_writer list \<Rightarrow> me_writer list" where
  "drop_writer writer_id ws = takeWhile (\<lambda>w. mw_id w \<noteq> writer_id) ws @ tl (dropWhile (\<lambda>w. mw_id w \<noteq> writer_id) ws)"

text \<open>Cancelling the writer's task, and the command to close, which is lost when the channel is closed or full (the
  cancelled task then drops the receiver).\<close>

definition cancel_channel :: "u64 \<Rightarrow> me_pool \<Rightarrow> me_pool" where
  "cancel_channel writer_id p =
     (case mp_channels p writer_id of
        None \<Rightarrow> p
      | Some ch \<Rightarrow>
          let ch = ch\<lparr>wc_cancelled := True\<rparr>;
              ch = (if wc_closed ch \<or> WRITER_CHANNEL_CAPACITY \<le> length (wc_queue ch) then ch else ch\<lparr>wc_queue := wc_queue ch @ [WcClose]\<rparr>)
          in p\<lparr>mp_channels := (mp_channels p)(writer_id \<mapsto> ch)\<rparr>)"

definition trigger_immediate_refill :: "socket_addr \<Rightarrow> me_pool \<Rightarrow> me_pool" where
  "trigger_immediate_refill addr p = p\<lparr>mp_refills := mp_refills p @ [RfStarted addr]\<rparr>"

definition remove_writer_only :: "pool_env \<Rightarrow> u64 \<Rightarrow> me_pool \<Rightarrow> bound_conn list \<times> me_pool" where
  "remove_writer_only E writer_id p =
     (let p = (case find_writer writer_id p of
                 None \<Rightarrow> p
               | Some w \<Rightarrow>
                   let uptime = pe_instant E (mp_clock p) - mw_created_at w;
                       p = p\<lparr>mp_writers := drop_writer writer_id (mp_writers p)\<rparr>;
                       p = (if mw_draining w then on_stats decrement_pool_drain_active p else p);
                       p = bump WriterRemoved p;
                       p = (if mw_draining w then p else bump WriterRemovedUnexpected p);
                       p = cancel_channel writer_id (p\<lparr>mp_conn_count := mp_conn_count p - 1\<rparr>)
                   in if mw_draining w then p
                      else trigger_immediate_refill (mw_addr w) (maybe_quarantine_flapping_endpoint E (mw_addr w) uptime p));
          (conns, reg) = reg_writer_lost writer_id (mp_registry p)
      in (conns, p\<lparr>mp_registry := reg\<rparr>))"

fun close_clients :: "pool_env \<Rightarrow> nat \<Rightarrow> bound_conn list \<Rightarrow> u64 registry \<Rightarrow> u64 registry" where
  "close_clients E n [] r = r"
| "close_clients E n (b # bs) r =
     close_clients E n bs (snd (reg_unregister (bc_conn_id b) (snd (reg_route (bc_conn_id b) MeClose (pe_waits E n (bc_conn_id b)) r))))"

definition remove_writer_and_close_clients :: "pool_env \<Rightarrow> u64 \<Rightarrow> me_pool \<Rightarrow> me_pool" where
  "remove_writer_and_close_clients E writer_id p =
     (case remove_writer_only E writer_id p of
        (conns, p) \<Rightarrow> p\<lparr>mp_registry := close_clients E (mp_clock p) conns (mp_registry p)\<rparr>)"

definition channel_closed :: "me_pool \<Rightarrow> u64 \<Rightarrow> bool" where
  "channel_closed p writer_id = (case mp_channels p writer_id of Some ch \<Rightarrow> wc_closed ch | None \<Rightarrow> True)"

definition prune_closed_writers :: "pool_env \<Rightarrow> me_pool \<Rightarrow> me_pool" where
  "prune_closed_writers E p =
     fold (\<lambda>i p. if reg_is_writer_empty i (mp_registry p) then snd (remove_writer_only E i p) else remove_writer_and_close_clients E i p)
       (map mw_id (filter (\<lambda>w. channel_closed p (mw_id w)) (mp_writers p))) p"

subsection \<open>Draining\<close>

definition on_writer :: "u64 \<Rightarrow> (me_writer \<Rightarrow> me_writer) \<Rightarrow> me_writer list \<Rightarrow> me_writer list" where
  "on_writer writer_id f ws =
     takeWhile (\<lambda>w. mw_id w \<noteq> writer_id) ws @
     (case dropWhile (\<lambda>w. mw_id w \<noteq> writer_id) ws of w # r \<Rightarrow> f w # r | [] \<Rightarrow> [])"

text \<open>The timeout is in seconds; the task that waits for the writer to drain has its deadline in milliseconds.\<close>

definition mark_writer_draining_with_timeout :: "pool_env \<Rightarrow> u64 \<Rightarrow> nat option \<Rightarrow> bool \<Rightarrow> me_pool \<Rightarrow> me_pool" where
  "mark_writer_draining_with_timeout E writer_id timeout allow_drain_fallback p =
     (case find_writer writer_id p of
        None \<Rightarrow> p
      | Some w \<Rightarrow>
          let started = pe_epoch E (mp_clock p);
              p = p\<lparr>mp_writers := on_writer writer_id (\<lambda>w. w\<lparr>mw_allow_drain_fallback := allow_drain_fallback,
                        mw_draining_started_at_epoch_secs := started, mw_contour := contour_as_u8 Draining, mw_draining := True\<rparr>) (mp_writers p)\<rparr>;
              p = (if mw_draining w then p else on_stats increment_pool_drain_active p);
              deadline = (case timeout of Some t \<Rightarrow> if t = 0 then None else Some (pe_instant E (mp_clock p) + t * 1000) | None \<Rightarrow> None)
          in p\<lparr>mp_drains := mp_drains p @ [(writer_id, deadline)]\<rparr>)"

definition mark_writer_draining :: "pool_env \<Rightarrow> u64 \<Rightarrow> me_pool \<Rightarrow> me_pool" where
  "mark_writer_draining E writer_id p = mark_writer_draining_with_timeout E writer_id (Some 300) False p"

text \<open>One round of a task that waits for a writer to drain; it tells whether the task has ended.\<close>

definition drain_turn :: "pool_env \<Rightarrow> nat \<Rightarrow> u64 \<times> nat option \<Rightarrow> me_pool \<Rightarrow> bool \<times> me_pool" where
  "drain_turn E now d p =
     (case d of (writer_id, deadline) \<Rightarrow>
        if (case deadline of Some t \<Rightarrow> t \<le> now | None \<Rightarrow> False)
        then (True, remove_writer_and_close_clients E writer_id (bump PoolForceClose p))
        else if reg_is_writer_empty writer_id (mp_registry p) then (True, snd (remove_writer_only E writer_id p))
        else (False, p))"

definition writer_accepts_new_binding :: "pool_env \<Rightarrow> me_pool \<Rightarrow> me_writer \<Rightarrow> bool" where
  "writer_accepts_new_binding E p w =
     (if \<not> mw_draining w then True
      else if \<not> mw_allow_drain_fallback w then False
      else case stale_from_u8 (rp_bind_stale_mode (mp_policy p)) of
          StaleNever \<Rightarrow> False
        | StaleAlways \<Rightarrow> True
        | StaleTtl \<Rightarrow>
            let ttl_secs = rp_bind_stale_ttl_secs (mp_policy p); started = mw_draining_started_at_epoch_secs w; now = pe_epoch E (mp_clock p) in
            if ttl_secs = 0 then True
            else if started = 0 then False
            else (if started \<le> now then now - started else 0) \<le> ttl_secs)"

subsection \<open>Refill\<close>

definition resolve_refill_dc_key_for_addr :: "socket_addr \<Rightarrow> me_pool \<Rightarrow> refill_dc_key option" where
  "resolve_refill_dc_key_for_addr addr p =
     map_option (\<lambda>(dc, _). (\<bar>dc\<bar>, is_ipv6 addr)) (List.find (\<lambda>(dc, endpoints). addr \<in> set (endpoints_of endpoints)) (proxy_map_for_family (is_ipv6 addr) p))"

definition resolve_refill_dc_keys_for_endpoints :: "socket_addr list \<Rightarrow> me_pool \<Rightarrow> refill_dc_key list" where
  "resolve_refill_dc_keys_for_endpoints endpoints p = remdups (List.map_filter (\<lambda>a. resolve_refill_dc_key_for_addr a p) endpoints)"

definition has_refill_inflight_for_endpoints :: "socket_addr list \<Rightarrow> me_pool \<Rightarrow> bool" where
  "has_refill_inflight_for_endpoints endpoints p =
     (if endpoints = [] then False
      else if list_ex (\<lambda>a. a \<in> set (mp_refill_inflight p)) endpoints then True
      else list_ex (\<lambda>k. k \<in> set (mp_refill_inflight_dc p)) (resolve_refill_dc_keys_for_endpoints endpoints p))"

text \<open>Both loops over endpoints stop at the first connection.\<close>

fun connect_first :: "pool_env \<Rightarrow> u64 \<Rightarrow> writer_contour \<Rightarrow> socket_addr list \<Rightarrow> me_pool \<Rightarrow> bool \<times> me_pool" where
  "connect_first E gen contour [] p = (False, p)"
| "connect_first E gen contour (a # as) p =
     (case connect_one_with_generation_contour E a gen contour p of
        (Inr _, p) \<Rightarrow> (True, p)
      | (Inl _, p) \<Rightarrow> connect_first E gen contour as p)"

definition rotate_from :: "nat \<Rightarrow> 'a list \<Rightarrow> 'a list" where
  "rotate_from start xs = map (\<lambda>offset. xs ! ((start + offset) mod length xs)) [0 ..< length xs]"

definition connect_endpoints_round_robin_with_generation_contour :: "pool_env \<Rightarrow> socket_addr list \<Rightarrow> u64 \<Rightarrow> writer_contour \<Rightarrow> me_pool \<Rightarrow> bool \<times> me_pool" where
  "connect_endpoints_round_robin_with_generation_contour E endpoints gen contour p =
     (case connectable_endpoints E endpoints p of (candidates, p) \<Rightarrow>
        if candidates = [] then (False, p)
        else let start = unat (mp_rr p) mod length candidates; p = p\<lparr>mp_rr := mp_rr p + 1\<rparr> in
          connect_first E gen contour (rotate_from start candidates) p)"

definition connect_endpoints_round_robin :: "pool_env \<Rightarrow> socket_addr list \<Rightarrow> me_pool \<Rightarrow> bool \<times> me_pool" where
  "connect_endpoints_round_robin E endpoints p =
     connect_endpoints_round_robin_with_generation_contour E endpoints (current_generation p) Active p"

text \<open>The endpoints of the datacenters that an address belongs to, in both families; the datacenters found in the IPv4 map count for the IPv6 map too.\<close>

definition dcs_of_addr :: "socket_addr \<Rightarrow> proxy_map \<Rightarrow> int list" where
  "dcs_of_addr addr m = map (\<lambda>(dc, _). \<bar>dc\<bar>) (filter (\<lambda>(dc, addrs). addr \<in> set (endpoints_of addrs)) m)"

definition endpoints_of_dcs :: "int list \<Rightarrow> proxy_map \<Rightarrow> socket_addr list" where
  "endpoints_of_dcs dcs m =
     concat (map (\<lambda>dc. concat (map (\<lambda>key. case map_of m key of Some addrs \<Rightarrow> endpoints_of addrs | None \<Rightarrow> []) [dc, - dc])) dcs)"

definition endpoints_for_same_dc :: "socket_addr \<Rightarrow> me_pool \<Rightarrow> socket_addr list" where
  "endpoints_for_same_dc addr p =
     (let d4 = (if nd_ipv4_me (mp_decision p) then dcs_of_addr addr (mp_map_v4 p) else []);
          e4 = (if nd_ipv4_me (mp_decision p) then endpoints_of_dcs d4 (mp_map_v4 p) else []);
          d6 = (if nd_ipv6_me (mp_decision p) then d4 @ dcs_of_addr addr (mp_map_v6 p) else d4);
          e6 = (if nd_ipv6_me (mp_decision p) then endpoints_of_dcs d6 (mp_map_v6 p) else [])
      in sort_key addr_key (remdups (e4 @ e6)))"

fun retry_same :: "pool_env \<Rightarrow> socket_addr \<Rightarrow> nat \<Rightarrow> me_pool \<Rightarrow> bool \<times> me_pool" where
  "retry_same E addr 0 p = (False, p)"
| "retry_same E addr (Suc n) p =
     (case connect_one E addr (bump ReconnectAttempt p) of
        (Inr _, p) \<Rightarrow> (True, bump RestoredSameEndpoint (bump ReconnectSuccess p))
      | (Inl _, p) \<Rightarrow> retry_same E addr n p)"

fun retry_dc :: "pool_env \<Rightarrow> socket_addr list \<Rightarrow> nat \<Rightarrow> me_pool \<Rightarrow> bool \<times> me_pool" where
  "retry_dc E endpoints 0 p = (False, bump RefillFailed p)"
| "retry_dc E endpoints (Suc n) p =
     (case connect_endpoints_round_robin E endpoints (bump ReconnectAttempt p) of
        (True, p) \<Rightarrow> (True, bump RestoredFallback (bump ReconnectSuccess p))
      | (False, p) \<Rightarrow> retry_dc E endpoints n p)"

definition refill_writer_after_loss :: "pool_env \<Rightarrow> socket_addr \<Rightarrow> me_pool \<Rightarrow> bool \<times> me_pool" where
  "refill_writer_after_loss E addr p =
     (let fast_retries = unat (max (mp_fast_retry_count p) 1) in
      case is_endpoint_quarantined E addr p of (quarantined, p) \<Rightarrow>
      (case (if quarantined then (False, p) else retry_same E addr fast_retries p) of
         (True, p) \<Rightarrow> (True, p)
       | (False, p) \<Rightarrow>
           let dc_endpoints = endpoints_for_same_dc addr p in
           if dc_endpoints = [] then (False, bump RefillFailed p) else retry_dc E dc_endpoints fast_retries p))"

text \<open>The stages of the task, each under one lock: claiming the endpoint, claiming its datacenters (or giving the endpoint back), and
  the work, after which both claims are dropped. A task that has ended is gone.\<close>

definition refill_claim :: "socket_addr \<Rightarrow> me_pool \<Rightarrow> refill_task option \<times> me_pool" where
  "refill_claim addr p =
     (let dc_keys = resolve_refill_dc_keys_for_endpoints (endpoints_for_same_dc addr p) p in
      if addr \<in> set (mp_refill_inflight p) then (None, bump RefillSkippedInflight p)
      else (Some (RfClaimed addr dc_keys), p\<lparr>mp_refill_inflight := addr # mp_refill_inflight p\<rparr>))"

definition refill_claim_dc :: "socket_addr \<Rightarrow> refill_dc_key list \<Rightarrow> me_pool \<Rightarrow> refill_task option \<times> me_pool" where
  "refill_claim_dc addr dc_keys p =
     (if list_ex (\<lambda>k. k \<in> set (mp_refill_inflight_dc p)) dc_keys
      then (None, (bump RefillSkippedInflight p)\<lparr>mp_refill_inflight := removeAll addr (mp_refill_inflight p)\<rparr>)
      else (Some (RfWorking addr dc_keys), bump RefillTriggered (p\<lparr>mp_refill_inflight_dc := dc_keys @ mp_refill_inflight_dc p\<rparr>)))"

definition refill_work :: "pool_env \<Rightarrow> socket_addr \<Rightarrow> refill_dc_key list \<Rightarrow> me_pool \<Rightarrow> refill_task option \<times> me_pool" where
  "refill_work E addr dc_keys p =
     (case refill_writer_after_loss E addr p of (_, p) \<Rightarrow>
        (None, p\<lparr>mp_refill_inflight := removeAll addr (mp_refill_inflight p),
                 mp_refill_inflight_dc := filter (\<lambda>k. k \<notin> set dc_keys) (mp_refill_inflight_dc p)\<rparr>))"

definition refill_turn :: "pool_env \<Rightarrow> nat \<Rightarrow> me_pool \<Rightarrow> me_pool" where
  "refill_turn E i p =
     (let rest = take i (mp_refills p) @ drop (Suc i) (mp_refills p);
          step = (case mp_refills p ! i of
                    RfStarted addr \<Rightarrow> refill_claim addr p
                  | RfClaimed addr keys \<Rightarrow> refill_claim_dc addr keys p
                  | RfWorking addr keys \<Rightarrow> refill_work E addr keys p)
      in case step of
           (None, p') \<Rightarrow> p'\<lparr>mp_refills := rest\<rparr>
         | (Some t, p') \<Rightarrow> p'\<lparr>mp_refills := t # rest\<rparr>)"

subsection \<open>Well-formed pools\<close>

text \<open>The writers have distinct ids, which have been handed out and whose channels exist; they are as many as the counter of connections says, and
  the gauge of draining writers is exact at the debug level; a draining writer has the draining contour.\<close>

definition writer_ok :: "me_pool \<Rightarrow> me_writer \<Rightarrow> bool" where
  "writer_ok p w \<longleftrightarrow> mw_id w < mp_next_writer_id p \<and> mp_channels p (mw_id w) \<noteq> None \<and>
     (mw_draining w \<longrightarrow> mw_contour w = contour_as_u8 Draining)"

definition writers_ok :: "me_pool \<Rightarrow> bool" where
  "writers_ok p \<longleftrightarrow> distinct (map mw_id (mp_writers p)) \<and> (\<forall>w \<in> set (mp_writers p). writer_ok p w) \<and>
     unat (mp_next_writer_id p) \<le> Suc (mp_clock p) \<and> length (mp_writers p) \<le> mp_clock p \<and>
     mp_conn_count p = word_of_nat (length (mp_writers p)) \<and>
     (ps_level (mp_stats p) = TelDebug \<longrightarrow> ps_drain_active (mp_stats p) = word_of_nat (length (filter mw_draining (mp_writers p))))"

text \<open>The claims are exactly those of the tasks that hold them, and no two tasks hold the same endpoint or the same datacenter.\<close>

fun claimed_addrs :: "refill_task \<Rightarrow> socket_addr list" where
  "claimed_addrs (RfStarted a) = []"
| "claimed_addrs (RfClaimed a ks) = [a]"
| "claimed_addrs (RfWorking a ks) = [a]"

fun claimed_dcs :: "refill_task \<Rightarrow> refill_dc_key list" where
  "claimed_dcs (RfWorking a ks) = ks"
| "claimed_dcs t = []"

fun task_keys :: "refill_task \<Rightarrow> refill_dc_key list" where
  "task_keys (RfStarted a) = []"
| "task_keys (RfClaimed a ks) = ks"
| "task_keys (RfWorking a ks) = ks"

definition refills_ok :: "me_pool \<Rightarrow> bool" where
  "refills_ok p \<longleftrightarrow>
     distinct (concat (map claimed_addrs (mp_refills p))) \<and> set (mp_refill_inflight p) = set (concat (map claimed_addrs (mp_refills p))) \<and>
     distinct (concat (map claimed_dcs (mp_refills p))) \<and> set (mp_refill_inflight_dc p) = set (concat (map claimed_dcs (mp_refills p))) \<and>
     (\<forall>t \<in> set (mp_refills p). distinct (task_keys t))"

definition pool_wf :: "me_pool \<Rightarrow> bool" where
  "pool_wf p \<longleftrightarrow> writers_ok p \<and> refills_ok p \<and> reg_wf (mp_registry p)"

text \<open>An operation keeps pools well-formed as long as the ids of writers do not wrap around, which the number of attempts to connect bounds.\<close>

definition keeps :: "me_pool \<Rightarrow> me_pool \<Rightarrow> bool" where
  "keeps p p' \<longleftrightarrow> mp_clock p \<le> mp_clock p' \<and> (Suc (mp_clock p') < 2 ^ 64 \<longrightarrow> pool_wf p \<longrightarrow> pool_wf p')"

lemma keeps_refl [simp, intro]: "keeps p p"
  by (simp add: keeps_def)

lemma keeps_trans [trans]: "keeps p q \<Longrightarrow> keeps q r \<Longrightarrow> keeps p r"
  by (auto simp: keeps_def)

text \<open>What well-formedness depends on.\<close>

definition same_core :: "me_pool \<Rightarrow> me_pool \<Rightarrow> bool" where
  "same_core p q \<longleftrightarrow> mp_writers q = mp_writers p \<and> mp_channels q = mp_channels p \<and> mp_next_writer_id q = mp_next_writer_id p \<and>
     mp_conn_count q = mp_conn_count p \<and> ps_level (mp_stats q) = ps_level (mp_stats p) \<and> ps_drain_active (mp_stats q) = ps_drain_active (mp_stats p) \<and>
     mp_clock q = mp_clock p"

lemma same_core_writers_ok: "same_core p q \<Longrightarrow> writers_ok q = writers_ok p"
  by (simp add: same_core_def writers_ok_def writer_ok_def)

definition same_claims :: "me_pool \<Rightarrow> me_pool \<Rightarrow> bool" where
  "same_claims p q \<longleftrightarrow> mp_refills q = mp_refills p \<and> mp_refill_inflight q = mp_refill_inflight p \<and> mp_refill_inflight_dc q = mp_refill_inflight_dc p"

lemma same_claims_refills_ok: "same_claims p q \<Longrightarrow> refills_ok q = refills_ok p"
  by (simp add: same_claims_def refills_ok_def)

lemma keepsI:
  assumes "same_core p q" "same_claims p q" "reg_wf (mp_registry p) \<Longrightarrow> reg_wf (mp_registry q)"
  shows "keeps p q"
  using assms same_core_writers_ok [OF assms(1)] same_claims_refills_ok [OF assms(2)]
  by (auto simp: keeps_def pool_wf_def same_core_def)

lemma increment_fields [simp]:
  "ps_level (increment c s) = ps_level s" "ps_drain_active (increment c s) = ps_drain_active s"
  by (simp_all add: increment_def)

lemma on_stats_fields [simp]:
  "mp_writers (on_stats f p) = mp_writers p" "mp_channels (on_stats f p) = mp_channels p" "mp_next_writer_id (on_stats f p) = mp_next_writer_id p"
  "mp_conn_count (on_stats f p) = mp_conn_count p" "mp_stats (on_stats f p) = f (mp_stats p)" "mp_clock (on_stats f p) = mp_clock p"
  "mp_registry (on_stats f p) = mp_registry p" "mp_refills (on_stats f p) = mp_refills p" "mp_refill_inflight (on_stats f p) = mp_refill_inflight p"
  "mp_refill_inflight_dc (on_stats f p) = mp_refill_inflight_dc p" "mp_policy (on_stats f p) = mp_policy p" "mp_map_v4 (on_stats f p) = mp_map_v4 p"
  "mp_map_v6 (on_stats f p) = mp_map_v6 p" "mp_decision (on_stats f p) = mp_decision p" "mp_active_generation (on_stats f p) = mp_active_generation p"
  "mp_quarantine (on_stats f p) = mp_quarantine p" "mp_drains (on_stats f p) = mp_drains p" "mp_secret (on_stats f p) = mp_secret p"
  by (simp_all add: on_stats_def)

lemma bump_stats [simp]:
  "ps_level (mp_stats (bump c p)) = ps_level (mp_stats p)" "ps_drain_active (mp_stats (bump c p)) = ps_drain_active (mp_stats p)"
  by (simp_all add: bump_def)

lemma bump_fields [simp]:
  "mp_writers (bump c p) = mp_writers p" "mp_channels (bump c p) = mp_channels p" "mp_next_writer_id (bump c p) = mp_next_writer_id p"
  "mp_conn_count (bump c p) = mp_conn_count p" "mp_clock (bump c p) = mp_clock p" "mp_registry (bump c p) = mp_registry p"
  "mp_refills (bump c p) = mp_refills p" "mp_refill_inflight (bump c p) = mp_refill_inflight p" "mp_refill_inflight_dc (bump c p) = mp_refill_inflight_dc p"
  "mp_policy (bump c p) = mp_policy p" "mp_map_v4 (bump c p) = mp_map_v4 p" "mp_map_v6 (bump c p) = mp_map_v6 p" "mp_decision (bump c p) = mp_decision p"
  "mp_active_generation (bump c p) = mp_active_generation p" "mp_quarantine (bump c p) = mp_quarantine p" "mp_drains (bump c p) = mp_drains p"
  "mp_secret (bump c p) = mp_secret p"
  by (simp_all add: bump_def)

lemma bump_keeps [simp, intro]: "keeps p (bump c p)"
  by (rule keepsI) (simp_all add: same_core_def same_claims_def)

lemma connect_keeps: "keeps p (snd (connect_one_with_generation_contour E addr gen contour p))"
proof -
  let ?n = "mp_next_writer_id p"
  have "writers_ok (snd (connect_one_with_generation_contour E addr gen contour p))"
    if ok: "writers_ok p" and b: "Suc (mp_clock (snd (connect_one_with_generation_contour E addr gen contour p))) < 2 ^ 64"
  proof (cases "length (ss_secret (mp_secret p)) < 32")
    case False
    show ?thesis
    proof (cases "pe_connect E (mp_clock p) addr")
      case (Inr u)
      have "Suc (Suc (mp_clock p)) < 2 ^ 64"
        using b False Inr by (simp add: connect_one_with_generation_contour_def Let_def)
      then have n: "unat (?n + 1) = Suc (unat ?n)"
        using ok by (simp add: writers_ok_def unat_word_ariths)
      have lt: "i < ?n \<Longrightarrow> i < ?n + 1" and lt1: "?n < ?n + 1" for i using n by (simp_all add: word_less_nat_alt)
      show ?thesis
        using ok n False Inr
        by (auto simp: connect_one_with_generation_contour_def Let_def writers_ok_def writer_ok_def lt lt1)
    qed (use ok False in \<open>auto simp: connect_one_with_generation_contour_def writers_ok_def writer_ok_def\<close>)
  qed (use ok in \<open>simp add: connect_one_with_generation_contour_def\<close>)
  moreover have "same_claims p (snd (connect_one_with_generation_contour E addr gen contour p))"
    "mp_registry (snd (connect_one_with_generation_contour E addr gen contour p)) = mp_registry p"
    "mp_clock p \<le> mp_clock (snd (connect_one_with_generation_contour E addr gen contour p))"
    by (auto simp: connect_one_with_generation_contour_def Let_def same_claims_def split: sum.split)
  ultimately show ?thesis
    using same_claims_refills_ok by (auto simp: keeps_def pool_wf_def)
qed

lemma drop_writer_filter:
  "distinct (map mw_id ws) \<Longrightarrow> drop_writer i ws = filter (\<lambda>w. mw_id w \<noteq> i) ws"
proof (induction ws)
  case (Cons w ws)
  show ?case
  proof (cases "mw_id w = i")
    case True
    then have "\<forall>v \<in> set ws. mw_id v \<noteq> i" using Cons.prems by (auto simp: image_iff)
    then show ?thesis using True by (simp add: drop_writer_def)
  qed (use Cons in \<open>simp add: drop_writer_def\<close>)
qed (simp add: drop_writer_def)

lemma on_writer_map:
  "distinct (map mw_id ws) \<Longrightarrow> on_writer i f ws = map (\<lambda>w. if mw_id w = i then f w else w) ws"
proof (induction ws)
  case (Cons w ws)
  show ?case
  proof (cases "mw_id w = i")
    case True
    then have "\<forall>v \<in> set ws. mw_id v \<noteq> i" using Cons.prems by (auto simp: image_iff)
    then show ?thesis using True by (simp add: on_writer_def map_idI)
  qed (use Cons in \<open>simp add: on_writer_def\<close>)
qed (simp add: on_writer_def)

lemma find_writer_Some: "find_writer i p = Some w \<Longrightarrow> w \<in> set (mp_writers p) \<and> mw_id w = i"
  by (auto simp: find_writer_def find_Some_iff)

lemma drop_writer_lengths:
  assumes "distinct (map mw_id ws)" "w \<in> set ws"
  shows "length ws = Suc (length (drop_writer (mw_id w) ws))"
    "length (filter P ws) = (if P w then 1 else 0) + length (filter P (drop_writer (mw_id w) ws))"
proof -
  obtain xs ys where ws: "ws = xs @ w # ys" using assms(2) by (auto simp: in_set_conv_decomp)
  then have "drop_writer (mw_id w) ws = xs @ ys"
    using assms(1) by (subst drop_writer_filter) (auto simp: image_iff intro!: arg_cong2 [where f = append] filter_True)
  then show "length ws = Suc (length (drop_writer (mw_id w) ws))"
    "length (filter P ws) = (if P w then 1 else 0) + length (filter P (drop_writer (mw_id w) ws))"
    using ws by simp_all
qed

lemma cancel_channel_fields [simp]:
  "mp_writers (cancel_channel i p) = mp_writers p" "mp_next_writer_id (cancel_channel i p) = mp_next_writer_id p"
  "mp_conn_count (cancel_channel i p) = mp_conn_count p" "mp_stats (cancel_channel i p) = mp_stats p" "mp_clock (cancel_channel i p) = mp_clock p"
  "mp_registry (cancel_channel i p) = mp_registry p" "mp_refills (cancel_channel i p) = mp_refills p"
  "mp_refill_inflight (cancel_channel i p) = mp_refill_inflight p" "mp_refill_inflight_dc (cancel_channel i p) = mp_refill_inflight_dc p"
  "(mp_channels (cancel_channel i p) j = None) = (mp_channels p j = None)"
  by (auto simp: cancel_channel_def Let_def split: option.split)

lemma quarantine_fields [simp]:
  "same_core (maybe_quarantine_flapping_endpoint E a u p) q = same_core p q"
  "mp_writers (maybe_quarantine_flapping_endpoint E a u p) = mp_writers p" "mp_channels (maybe_quarantine_flapping_endpoint E a u p) = mp_channels p"
  "mp_next_writer_id (maybe_quarantine_flapping_endpoint E a u p) = mp_next_writer_id p"
  "mp_conn_count (maybe_quarantine_flapping_endpoint E a u p) = mp_conn_count p"
  "ps_level (mp_stats (maybe_quarantine_flapping_endpoint E a u p)) = ps_level (mp_stats p)"
  "ps_drain_active (mp_stats (maybe_quarantine_flapping_endpoint E a u p)) = ps_drain_active (mp_stats p)"
  "mp_clock (maybe_quarantine_flapping_endpoint E a u p) = mp_clock p" "mp_registry (maybe_quarantine_flapping_endpoint E a u p) = mp_registry p"
  "mp_refills (maybe_quarantine_flapping_endpoint E a u p) = mp_refills p"
  "mp_refill_inflight (maybe_quarantine_flapping_endpoint E a u p) = mp_refill_inflight p"
  "mp_refill_inflight_dc (maybe_quarantine_flapping_endpoint E a u p) = mp_refill_inflight_dc p"
  by (simp_all add: maybe_quarantine_flapping_endpoint_def Let_def same_core_def)

lemma refill_spawn_fields [simp]:
  "mp_writers (trigger_immediate_refill a p) = mp_writers p" "mp_channels (trigger_immediate_refill a p) = mp_channels p"
  "mp_next_writer_id (trigger_immediate_refill a p) = mp_next_writer_id p" "mp_conn_count (trigger_immediate_refill a p) = mp_conn_count p"
  "mp_stats (trigger_immediate_refill a p) = mp_stats p" "mp_clock (trigger_immediate_refill a p) = mp_clock p"
  "mp_registry (trigger_immediate_refill a p) = mp_registry p" "mp_refills (trigger_immediate_refill a p) = mp_refills p @ [RfStarted a]"
  "mp_refill_inflight (trigger_immediate_refill a p) = mp_refill_inflight p" "mp_refill_inflight_dc (trigger_immediate_refill a p) = mp_refill_inflight_dc p"
  by (simp_all add: trigger_immediate_refill_def)

lemma decrement_gauge:
  assumes "0 < n" "n < 2 ^ 64" "ps_drain_active s = word_of_nat n" "ps_level s = TelDebug"
  shows "ps_drain_active (decrement_pool_drain_active s) = word_of_nat (n - 1)"
proof -
  have "(word_of_nat n :: u64) \<noteq> 0" using assms(1,2) by (simp add: word_of_nat_eq_0_iff nat_dvd_not_less)
  then show ?thesis using assms by (simp add: decrement_pool_drain_active_def allows_debug_def of_nat_diff)
qed

lemma decrement_level [simp]: "ps_level (decrement_pool_drain_active s) = ps_level s"
  by (simp add: decrement_pool_drain_active_def)

lemma remove_writer_keeps: "keeps p (snd (remove_writer_only E i p))"
proof -
  let ?q = "snd (remove_writer_only E i p)"
  obtain conns reg where lost: "reg_writer_lost i (mp_registry p) = (conns, reg)" by fastforce
  have reg: "mp_registry ?q = reg"
    using lost by (simp add: remove_writer_only_def Let_def split: option.split)
  have clk: "mp_clock ?q = mp_clock p" using lost by (simp add: remove_writer_only_def Let_def split: option.split prod.split)
  have "refills_ok p \<Longrightarrow> refills_ok ?q"
    by (simp add: remove_writer_only_def Let_def refills_ok_def split: option.split prod.split)
  moreover have "writers_ok ?q" if ok: "writers_ok p" and b: "Suc (mp_clock p) < 2 ^ 64"
  proof (cases "find_writer i p")
    case None
    then have "same_core p ?q" by (simp add: remove_writer_only_def Let_def same_core_def split: prod.split)
    then show ?thesis using ok by (simp add: same_core_writers_ok)
  next
    case (Some w)
    let ?ws = "drop_writer i (mp_writers p)"
    have w: "w \<in> set (mp_writers p)" "mw_id w = i" and d: "distinct (map mw_id (mp_writers p))"
      using find_writer_Some [OF Some] ok by (simp_all add: writers_ok_def)
    note len = drop_writer_lengths [OF d w(1), unfolded w(2)]
    have f: "mp_writers ?q = ?ws" "mp_next_writer_id ?q = mp_next_writer_id p" "mp_conn_count ?q = mp_conn_count p - 1"
      "ps_level (mp_stats ?q) = ps_level (mp_stats p)" "(mp_channels ?q j = None) = (mp_channels p j = None)" for j
      using Some by (simp_all add: remove_writer_only_def Let_def split: prod.split)
    have g: "ps_drain_active (mp_stats ?q) = (if mw_draining w then ps_drain_active (decrement_pool_drain_active (mp_stats p)) else ps_drain_active (mp_stats p))"
      using Some by (simp add: remove_writer_only_def Let_def split: prod.split)
    have gauge: "ps_drain_active (mp_stats ?q) = word_of_nat (length (filter mw_draining ?ws))" if "ps_level (mp_stats p) = TelDebug"
      using that ok b len(2) [of mw_draining] decrement_gauge [of "length (filter mw_draining (mp_writers p))" "mp_stats p"]
        length_filter_le [of mw_draining "mp_writers p"]
      by (auto simp: g writers_ok_def)
    have "distinct (map mw_id ?ws)" "set ?ws \<subseteq> set (mp_writers p)"
      using d by (auto simp: drop_writer_filter [OF d] distinct_map_filter)
    then show ?thesis
      using ok f clk gauge len(1) by (auto simp: writers_ok_def writer_ok_def)
  qed
  ultimately show ?thesis
    using reg_wf_lost [of "mp_registry p" i] lost reg clk by (auto simp: keeps_def pool_wf_def)
qed

lemma close_clients_wf: "reg_wf r \<Longrightarrow> reg_wf (close_clients E n bs r)"
  by (induction bs arbitrary: r) (auto intro: reg_wf_unregister reg_wf_route)

lemma registry_keeps:
  assumes "reg_wf (mp_registry p) \<Longrightarrow> reg_wf r"
  shows "keeps p (p\<lparr>mp_registry := r\<rparr>)"
  using assms by (intro keepsI) (simp_all add: same_core_def same_claims_def)

lemma remove_and_close_keeps: "keeps p (remove_writer_and_close_clients E i p)"
proof -
  obtain conns q where q: "remove_writer_only E i p = (conns, q)" by fastforce
  have "keeps p q" using remove_writer_keeps [of p E i] q by simp
  also have "keeps q (q\<lparr>mp_registry := close_clients E (mp_clock q) conns (mp_registry q)\<rparr>)"
    by (rule registry_keeps) (rule close_clients_wf)
  finally show ?thesis using q by (simp add: remove_writer_and_close_clients_def)
qed

lemma keeps_fold: "(\<And>x p. x \<in> set xs \<Longrightarrow> keeps p (f x p)) \<Longrightarrow> keeps p (fold f xs p)"
proof (induction xs arbitrary: p)
  case (Cons x xs)
  have "keeps p (f x p)" using Cons.prems by simp
  also have "keeps (f x p) (fold f xs (f x p))" using Cons by simp
  finally show ?case by simp
qed simp

lemma prune_keeps: "keeps p (prune_closed_writers E p)"
  unfolding prune_closed_writers_def by (rule keeps_fold) (simp add: remove_writer_keeps remove_and_close_keeps)

lemma gauge_marked:
  assumes "distinct (map mw_id ws)" "w \<in> set ws" "mw_id w = i" "\<And>v. mw_draining (f v)"
  shows "length (filter mw_draining (map (\<lambda>v. if mw_id v = i then f v else v) ws)) =
    length (filter mw_draining ws) + (if mw_draining w then 0 else 1)"
proof -
  obtain xs ys where ws: "ws = xs @ w # ys" using assms(2) by (auto simp: in_set_conv_decomp)
  then have "\<forall>v \<in> set xs \<union> set ys. mw_id v \<noteq> i" using assms(1,3) by (auto simp: image_iff)
  then have "map (\<lambda>v. if mw_id v = i then f v else v) ws = xs @ f w # ys" using ws assms(3) by (simp add: map_idI)
  then show ?thesis using ws assms(4) by simp
qed

lemma mark_draining_keeps: "keeps p (mark_writer_draining_with_timeout E i timeout fb p)"
proof (cases "find_writer i p")
  case (Some w)
  let ?q = "mark_writer_draining_with_timeout E i timeout fb p"
  let ?f = "\<lambda>w. w\<lparr>mw_allow_drain_fallback := fb, mw_draining_started_at_epoch_secs := pe_epoch E (mp_clock p),
      mw_contour := contour_as_u8 Draining, mw_draining := True\<rparr>"
  have w: "w \<in> set (mp_writers p)" "mw_id w = i" using find_writer_Some [OF Some] by simp_all
  have q: "mp_writers ?q = on_writer i ?f (mp_writers p)" "mp_next_writer_id ?q = mp_next_writer_id p" "mp_conn_count ?q = mp_conn_count p"
    "mp_channels ?q = mp_channels p" "mp_clock ?q = mp_clock p" "mp_registry ?q = mp_registry p" "same_claims p ?q"
    "mp_stats ?q = (if mw_draining w then mp_stats p else increment_pool_drain_active (mp_stats p))"
    using Some by (simp_all add: mark_writer_draining_with_timeout_def Let_def same_claims_def)
  have "writers_ok ?q" if ok: "writers_ok p"
  proof -
    let ?ws = "map (\<lambda>v. if mw_id v = i then ?f v else v) (mp_writers p)"
    have d: "distinct (map mw_id (mp_writers p))" using ok by (simp add: writers_ok_def)
    have ws: "mp_writers ?q = ?ws" unfolding q(1) by (rule on_writer_map [OF d])
    have ids: "map mw_id ?ws = map mw_id (mp_writers p)" by simp
    have "length (filter mw_draining ?ws) = length (filter mw_draining (mp_writers p)) + (if mw_draining w then 0 else 1)"
      by (rule gauge_marked [OF d w]) simp
    then have "ps_level (mp_stats p) = TelDebug \<Longrightarrow> ps_drain_active (mp_stats ?q) = word_of_nat (length (filter mw_draining ?ws))"
      using ok by (auto simp: q(8) writers_ok_def increment_pool_drain_active_def allows_debug_def)
    moreover have "ps_level (mp_stats ?q) = ps_level (mp_stats p)" by (simp add: q(8) increment_pool_drain_active_def)
    moreover have "\<forall>v \<in> set ?ws. writer_ok ?q v" using ok q(2,4) by (auto simp: writers_ok_def writer_ok_def)
    ultimately show ?thesis using ok q(2,3,5) ids unfolding writers_ok_def ws by (simp only: length_map simp_thms) blast
  qed
  then show ?thesis using same_claims_refills_ok [OF q(7)] q(5,6) by (simp add: keeps_def pool_wf_def)
qed (simp add: mark_writer_draining_with_timeout_def)

lemma drain_turn_keeps: "keeps p (snd (drain_turn E now d p))"
proof -
  have "keeps p (remove_writer_and_close_clients E i (bump PoolForceClose p))" for i
    using bump_keeps remove_and_close_keeps by (rule keeps_trans)
  then show ?thesis by (cases d) (simp add: drain_turn_def remove_writer_keeps)
qed

subsection \<open>Refills keep pools well-formed\<close>

text \<open>Connecting does not touch the claims of refills.\<close>

definition quiet :: "me_pool \<Rightarrow> me_pool \<Rightarrow> bool" where
  "quiet p q \<longleftrightarrow> keeps p q \<and> same_claims p q"

lemma quiet_refl [simp, intro]: "quiet p p"
  by (simp add: quiet_def same_claims_def)

lemma quiet_trans [trans]: "quiet p q \<Longrightarrow> quiet q r \<Longrightarrow> quiet p r"
  by (auto simp: quiet_def same_claims_def intro: keeps_trans)

lemma quietI: "same_core p q \<Longrightarrow> same_claims p q \<Longrightarrow> (reg_wf (mp_registry p) \<Longrightarrow> reg_wf (mp_registry q)) \<Longrightarrow> quiet p q"
  by (simp add: quiet_def keepsI)

lemma bump_quiet [simp, intro]: "quiet p (bump c p)"
  by (simp add: quiet_def bump_keeps same_claims_def)

lemma connect_quiet: "quiet p (snd (connect_one_with_generation_contour E addr gen contour p))"
  using connect_keeps by (auto simp: quiet_def connect_one_with_generation_contour_def Let_def same_claims_def split: sum.split)

lemma quarantine_check_quiet:
  "quiet p (snd (is_endpoint_quarantined E a p))" "quiet p (snd (connectable_endpoints E as p))"
  by (auto simp: is_endpoint_quarantined_def connectable_endpoints_def Let_def same_core_def same_claims_def intro!: quietI split: option.split)

lemma connect_first_quiet: "quiet p (snd (connect_first E gen contour as p))"
proof (induction as arbitrary: p)
  case (Cons a as)
  obtain r q where q: "connect_one_with_generation_contour E a gen contour p = (r, q)" by fastforce
  have k: "quiet p q" using connect_quiet [of p E a gen contour] q by simp
  show ?case using k quiet_trans [OF k Cons.IH [of q]] by (simp add: q split: sum.split)
qed simp

lemma round_robin_quiet: "quiet p (snd (connect_endpoints_round_robin_with_generation_contour E as gen contour p))"
proof -
  obtain cs q where q: "connectable_endpoints E as p = (cs, q)" by fastforce
  have k: "quiet p q" using quarantine_check_quiet(2) [of p E as] q by simp
  also have "quiet q (q\<lparr>mp_rr := mp_rr q + 1\<rparr>)" by (rule quietI) (simp_all add: same_core_def same_claims_def)
  finally have "quiet p (q\<lparr>mp_rr := mp_rr q + 1\<rparr>)" .
  then have "quiet p (snd (connect_first E gen contour xs (q\<lparr>mp_rr := mp_rr q + 1\<rparr>)))" for xs
    using connect_first_quiet by (rule quiet_trans)
  then show ?thesis using k by (simp add: connect_endpoints_round_robin_with_generation_contour_def q Let_def)
qed

lemma retry_same_quiet: "quiet p (snd (retry_same E a n p))"
proof (induction n arbitrary: p)
  case (Suc n)
  obtain r q where q: "connect_one E a (bump ReconnectAttempt p) = (r, q)" by fastforce
  have k: "quiet p q"
    using quiet_trans [OF bump_quiet connect_quiet] q by (metis connect_one_def snd_conv)
  have "quiet p (bump RestoredSameEndpoint (bump ReconnectSuccess q))" by (rule quiet_trans [OF quiet_trans [OF k bump_quiet] bump_quiet])
  then show ?case using quiet_trans [OF k Suc.IH [of q]] by (simp add: q split: sum.split)
qed simp

lemma retry_dc_quiet: "quiet p (snd (retry_dc E as n p))"
proof (induction n arbitrary: p)
  case (Suc n)
  obtain r q where q: "connect_endpoints_round_robin E as (bump ReconnectAttempt p) = (r, q)" by fastforce
  have k: "quiet p q"
    using quiet_trans [OF bump_quiet round_robin_quiet] q by (metis connect_endpoints_round_robin_def snd_conv)
  have "quiet p (bump RestoredFallback (bump ReconnectSuccess q))" by (rule quiet_trans [OF quiet_trans [OF k bump_quiet] bump_quiet])
  then show ?case using quiet_trans [OF k Suc.IH [of q]] by (cases r) (simp_all add: q)
qed simp

lemma refill_loss_quiet: "quiet p (snd (refill_writer_after_loss E a p))"
proof -
  obtain qd q where q: "is_endpoint_quarantined E a p = (qd, q)" by fastforce
  obtain ok q' where q': "(if qd then (False, q) else retry_same E a (unat (max (mp_fast_retry_count p) 1)) q) = (ok, q')" by fastforce
  have "quiet p q" using quarantine_check_quiet(1) [of p E a] q by simp
  also have "quiet q q'" using retry_same_quiet [of q E a] q' by (metis quiet_refl snd_conv)
  finally have k: "quiet p q'" .
  then show ?thesis
    using quiet_trans [OF k bump_quiet] quiet_trans [OF k retry_dc_quiet]
    by (cases ok) (simp_all add: refill_writer_after_loss_def q q' Let_def)
qed

lemma claims_released:
  assumes "distinct (concat (map f (xs @ t # ys)))"
  shows "distinct (concat (map f (xs @ ys)))" "set (concat (map f (xs @ t # ys))) - set (f t) = set (concat (map f (xs @ ys)))"
  using assms by auto

lemma refill_turn_keeps:
  assumes "i < length (mp_refills p)"
  shows "keeps p (refill_turn E i p)"
proof -
  obtain xs t ys where r: "mp_refills p = xs @ t # ys" "take i (mp_refills p) = xs" "mp_refills p ! i = t" "drop (Suc i) (mp_refills p) = ys"
    using id_take_nth_drop [OF assms] by metis
  have claims: "keeps p (q\<lparr>mp_refills := ts, mp_refill_inflight := as, mp_refill_inflight_dc := ks\<rparr>)"
    if "keeps p q" "refills_ok p \<Longrightarrow> refills_ok (q\<lparr>mp_refills := ts, mp_refill_inflight := as, mp_refill_inflight_dc := ks\<rparr>)" for q ts as ks
  proof -
    have "same_core q (q\<lparr>mp_refills := ts, mp_refill_inflight := as, mp_refill_inflight_dc := ks\<rparr>)" by (simp add: same_core_def)
    from same_core_writers_ok [OF this] show ?thesis using that by (simp add: keeps_def pool_wf_def)
  qed
  show ?thesis
  proof (cases t)
    case (RfStarted a)
    let ?keys = "resolve_refill_dc_keys_for_endpoints (endpoints_for_same_dc a p) p"
    have "refill_turn E i p = (if a \<in> set (mp_refill_inflight p)
        then (bump RefillSkippedInflight p)\<lparr>mp_refills := xs @ ys, mp_refill_inflight := mp_refill_inflight p, mp_refill_inflight_dc := mp_refill_inflight_dc p\<rparr>
        else p\<lparr>mp_refills := RfClaimed a ?keys # xs @ ys, mp_refill_inflight := a # mp_refill_inflight p, mp_refill_inflight_dc := mp_refill_inflight_dc p\<rparr>)"
      using RfStarted by (simp add: refill_turn_def refill_claim_def Let_def r(2-4) bump_def on_stats_def)
    moreover have "keeps p ((bump RefillSkippedInflight p)\<lparr>mp_refills := xs @ ys, mp_refill_inflight := mp_refill_inflight p, mp_refill_inflight_dc := mp_refill_inflight_dc p\<rparr>)"
      using RfStarted by (intro claims) (auto simp: refills_ok_def r)
    moreover have "a \<notin> set (mp_refill_inflight p) \<Longrightarrow> keeps p
        (p\<lparr>mp_refills := RfClaimed a ?keys # xs @ ys, mp_refill_inflight := a # mp_refill_inflight p, mp_refill_inflight_dc := mp_refill_inflight_dc p\<rparr>)"
      using RfStarted by (intro claims) (auto simp: refills_ok_def r resolve_refill_dc_keys_for_endpoints_def)
    ultimately show ?thesis by (simp split: if_split)
  next
    case (RfClaimed a keys)
    let ?hit = "list_ex (\<lambda>k. k \<in> set (mp_refill_inflight_dc p)) keys"
    have "refill_turn E i p = (if ?hit
        then (bump RefillSkippedInflight p)\<lparr>mp_refills := xs @ ys, mp_refill_inflight := removeAll a (mp_refill_inflight p), mp_refill_inflight_dc := mp_refill_inflight_dc p\<rparr>
        else (bump RefillTriggered p)\<lparr>mp_refills := RfWorking a keys # xs @ ys, mp_refill_inflight := mp_refill_inflight p,
          mp_refill_inflight_dc := keys @ mp_refill_inflight_dc p\<rparr>)"
      using RfClaimed by (simp add: refill_turn_def refill_claim_dc_def Let_def r(2-4) bump_def on_stats_def)
    moreover have "keeps p ((bump RefillSkippedInflight p)\<lparr>mp_refills := xs @ ys, mp_refill_inflight := removeAll a (mp_refill_inflight p),
        mp_refill_inflight_dc := mp_refill_inflight_dc p\<rparr>)"
      using RfClaimed by (intro claims) (auto simp: refills_ok_def r)
    moreover have "\<not> ?hit \<Longrightarrow> keeps p ((bump RefillTriggered p)\<lparr>mp_refills := RfWorking a keys # xs @ ys, mp_refill_inflight := mp_refill_inflight p,
        mp_refill_inflight_dc := keys @ mp_refill_inflight_dc p\<rparr>)"
      using RfClaimed by (intro claims) (auto simp: refills_ok_def r list_ex_iff)
    ultimately show ?thesis by (simp split: if_split)
  next
    case (RfWorking a keys)
    obtain ok q where q: "refill_writer_after_loss E a p = (ok, q)" by fastforce
    have k: "keeps p q" "same_claims p q" using refill_loss_quiet [of p E a] q by (simp_all add: quiet_def)
    have "refill_turn E i p = q\<lparr>mp_refills := xs @ ys, mp_refill_inflight := removeAll a (mp_refill_inflight q),
        mp_refill_inflight_dc := filter (\<lambda>k. k \<notin> set keys) (mp_refill_inflight_dc q)\<rparr>"
      using RfWorking q by (simp add: refill_turn_def refill_work_def Let_def r(2-4))
    moreover have "refills_ok p \<Longrightarrow> refills_ok (q\<lparr>mp_refills := xs @ ys, mp_refill_inflight := removeAll a (mp_refill_inflight q),
        mp_refill_inflight_dc := filter (\<lambda>k. k \<notin> set keys) (mp_refill_inflight_dc q)\<rparr>)"
      using claims_released [of claimed_addrs xs t ys] claims_released [of claimed_dcs xs t ys] RfWorking k(2)
      unfolding refills_ok_def same_claims_def r by (simp del: concat_append map_append add: set_diff_eq)
    ultimately show ?thesis using claims [OF k(1)] by simp
  qed
qed

lemma new_wf:
  assumes "ps_drain_active st = 0"
  shows "pool_wf (me_pool_new random b h pct tag secret decision policy retries cap m4 m6 dc st)"
  using assms reg_wf_policy [OF reg_wf_new] by (simp add: me_pool_new_def pool_wf_def writers_ok_def refills_ok_def)

subsection \<open>An example\<close>

text \<open>A pool with one writer, in which nothing happens.\<close>

definition demo_pool_env :: pool_env where
  "demo_pool_env = \<lparr>pe_connect = \<lambda>n a. Inr (), pe_instant = \<lambda>n. n, pe_epoch = \<lambda>n. 1, pe_waits = \<lambda>n c t. WaitTimeout, pe_shuffle = \<lambda>n as. as\<rparr>"

definition demo_policy :: reinit_policy where
  "demo_policy = \<lparr>rp_hardswap = True, rp_drain_ttl_secs = 90, rp_force_close_secs = 300, rp_min_fresh_ratio_permille = 800, rp_warmup_delay_min_ms = 0,
     rp_warmup_delay_max_ms = 0, rp_warmup_extra_passes = 3, rp_warmup_pass_backoff_base_ms = 500, rp_bind_stale_mode = 1, rp_bind_stale_ttl_secs = 90,
     rp_secret_atomic_snapshot = True, rp_deterministic_writer_sort = True, rp_shadow_writers = 2, rp_outage_mode_enabled = True,
     rp_outage_disable_quarantine = True, rp_outage_backoff_min_ms = 250, rp_outage_backoff_max_ms = 3000, rp_shadow_rotate_every_secs = 900,
     rp_floor_mode = 0, rp_adaptive_floor_idle_secs = 90, rp_adaptive_floor_min_writers = 1, rp_adaptive_floor_recover_grace_secs = 180\<rparr>"

definition demo_pool :: me_pool where
  "demo_pool = me_pool_new 5 25 120 80 None (replicate 32 7) \<lparr>nd_ipv4_dc = True, nd_ipv6_dc = False, nd_ipv4_me = True, nd_ipv6_me = False, nd_effective_prefer = 4, nd_effective_multipath = False\<rparr>
     demo_policy 3 30000 [(2, [(IpV4 0x01020304, 8888)])] [] (Some 2) \<lparr>ps_level = TelDebug, ps_count = \<lambda>c. 0, ps_drain_active = 0\<rparr>"

definition demo_writer :: me_writer where
  "demo_writer = \<lparr>mw_id = 1, mw_addr = SocketAddr (IpV4 0x01020304) 8888, mw_generation = 1, mw_contour = 1, mw_created_at = 0, mw_degraded = False,
     mw_draining = False, mw_draining_started_at_epoch_secs = 0, mw_allow_drain_fallback = False\<rparr>"

definition demo_connected :: me_pool where
  "demo_connected = snd (connect_one demo_pool_env (SocketAddr (IpV4 0x01020304) 8888) demo_pool)"

lemma demo_connected_fields:
  "mp_writers demo_connected = [demo_writer]" "mp_channels demo_connected = [1 \<mapsto> fresh_channel]"
  "mp_registry demo_connected = mp_registry demo_pool" "mp_rr demo_connected = 0" "mp_proxy_tag demo_connected = None" "mp_policy demo_connected = demo_policy"
  "mp_clock demo_connected = 1"
  by (simp_all add: demo_connected_def connect_one_def connect_one_with_generation_contour_def demo_pool_def me_pool_new_def demo_pool_env_def Let_def
      demo_writer_def current_generation_def)

lemma demo_pool_wf: "pool_wf demo_connected"
proof -
  have "pool_wf demo_pool" unfolding demo_pool_def by (rule new_wf) simp
  moreover have "keeps demo_pool demo_connected" unfolding demo_connected_def connect_one_def by (rule connect_keeps)
  ultimately show ?thesis by (simp add: keeps_def demo_connected_fields)
qed

end
