(* ===== verification/Me_Send.thy ===== *)
theory Me_Send
  imports Me_Pool Rpc_Wire
begin

section \<open>Sending through the pool (\<open>transport/middle_proxy/send.rs\<close>)\<close>

text \<open>
  A request goes to the writer its connection is bound to, or else to one chosen among the writers for the target datacenter, to which the connection is then bound.
  The operation is a loop that waits: for room in a channel, for a writer to appear, after an emergency connection.
  \<open>I n\<close> is what the other tasks do to the pool during wait number \<open>n\<close>, an arbitrary function; acquiring a lock is not a wait here.
  The loop may run for ever when the others keep closing channels: it has fuel, and \<open>None\<close> means that it has not returned.
\<close>

subsection \<open>Candidates\<close>

definition proxies_of :: "proxy_map \<Rightarrow> int \<Rightarrow> socket_addr list" where
  "proxies_of m key = (case map_of m key of Some v \<Rightarrow> endpoints_of v | None \<Rightarrow> [])"

definition prefer_in :: "proxy_map \<Rightarrow> int \<Rightarrow> int \<Rightarrow> socket_addr list \<Rightarrow> socket_addr list" where
  "prefer_in m key default_dc preferred =
     (let preferred = preferred @ proxies_of m key;
          preferred = (if preferred = [] then proxies_of m \<bar>key\<bar> else preferred);
          preferred = (if preferred = [] then proxies_of m (- \<bar>key\<bar>) else preferred)
      in if preferred = [] \<and> default_dc \<noteq> 0 then proxies_of m default_dc else preferred)"

fun preferred_addrs :: "me_pool \<Rightarrow> int \<Rightarrow> bool list \<Rightarrow> socket_addr list \<Rightarrow> socket_addr list" where
  "preferred_addrs p key [] preferred = preferred"
| "preferred_addrs p key (family # families) preferred =
     (let preferred = prefer_in (proxy_map_for_family family p) key (mp_default_dc p) preferred in
      if preferred \<noteq> [] \<and> \<not> nd_effective_multipath (mp_decision p) then preferred
      else preferred_addrs p key families preferred)"

definition writer_eligible_for_selection :: "pool_env \<Rightarrow> me_pool \<Rightarrow> bool \<Rightarrow> me_writer \<Rightarrow> bool" where
  "writer_eligible_for_selection E p include_warm w =
     (if \<not> writer_accepts_new_binding E p w then False
      else case contour_from_u8 (mw_contour w) of Active \<Rightarrow> True | Warm \<Rightarrow> include_warm | Draining \<Rightarrow> True)"

definition candidate_indices_for_dc :: "pool_env \<Rightarrow> me_pool \<Rightarrow> me_writer list \<Rightarrow> int \<Rightarrow> bool \<Rightarrow> nat list" where
  "candidate_indices_for_dc E p writers dc include_warm =
     (let preferred = preferred_addrs p dc (family_order p) [];
          eligible = filter (\<lambda>i. writer_eligible_for_selection E p include_warm (writers ! i)) [0 ..< length writers];
          out = filter (\<lambda>i. mw_addr (writers ! i) \<in> set preferred) eligible
      in if preferred = [] then eligible else if out = [] then eligible else out)"

definition candidates :: "pool_env \<Rightarrow> me_pool \<Rightarrow> me_writer list \<Rightarrow> int \<Rightarrow> nat list" where
  "candidates E p writers dc =
     (let c = candidate_indices_for_dc E p writers dc False in
      if c = [] then candidate_indices_for_dc E p writers dc True else c)"

definition writer_contour_rank_for_selection :: "me_writer \<Rightarrow> nat" where
  "writer_contour_rank_for_selection w = (case contour_from_u8 (mw_contour w) of Active \<Rightarrow> 0 | Warm \<Rightarrow> 1 | Draining \<Rightarrow> 2)"

definition channel_used :: "me_pool \<Rightarrow> u64 \<Rightarrow> nat" where
  "channel_used p i = (case mp_channels p i of Some ch \<Rightarrow> length (wc_queue ch) | None \<Rightarrow> 0)"

text \<open>More capacity first: the order of the used slots is the reverse order of capacities.\<close>

definition selection_key :: "me_pool \<Rightarrow> me_writer \<Rightarrow> nat \<times> nat \<times> nat \<times> nat" where
  "selection_key p w =
     (writer_contour_rank_for_selection w, of_bool (mw_generation w < current_generation p), of_bool (mw_degraded w), channel_used p (mw_id w))"

definition sort_candidates :: "me_pool \<Rightarrow> me_writer list \<Rightarrow> nat list \<Rightarrow> nat list" where
  "sort_candidates p writers idxs =
     (if rp_deterministic_writer_sort (mp_policy p)
      then sort_key (\<lambda>i. (selection_key p (writers ! i), addr_key (mw_addr (writers ! i)), unat (mw_id (writers ! i)))) idxs
      else sort_key (\<lambda>i. selection_key p (writers ! i)) idxs)"

subsection \<open>Channels\<close>

datatype send_outcome = SendOk | SendFull | SendClosed

definition push_command :: "u64 \<Rightarrow> writer_command \<Rightarrow> me_pool \<Rightarrow> me_pool" where
  "push_command i cmd p =
     (case mp_channels p i of
        Some ch \<Rightarrow> p\<lparr>mp_channels := (mp_channels p)(i \<mapsto> ch\<lparr>wc_queue := wc_queue ch @ [cmd]\<rparr>)\<rparr>
      | None \<Rightarrow> p)"

definition send_status :: "u64 \<Rightarrow> me_pool \<Rightarrow> send_outcome" where
  "send_status i p =
     (case mp_channels p i of
        None \<Rightarrow> SendClosed
      | Some ch \<Rightarrow> if wc_closed ch then SendClosed else if WRITER_CHANNEL_CAPACITY \<le> length (wc_queue ch) then SendFull else SendOk)"

text \<open>A send that waits: it fails once the receiver is gone, succeeds when there is room, and otherwise is still waiting.\<close>

definition blocking_send :: "u64 \<Rightarrow> writer_command \<Rightarrow> me_pool \<Rightarrow> (bool \<times> me_pool) option" where
  "blocking_send i cmd p =
     (case send_status i p of SendClosed \<Rightarrow> Some (False, p) | SendFull \<Rightarrow> None | SendOk \<Rightarrow> Some (True, push_command i cmd p))"

subsection \<open>Requests\<close>

record send_req =
  sq_conn_id :: u64
  sq_target_dc :: int
  sq_payload :: bytes
  sq_meta :: conn_meta

definition bind_to :: "send_req \<Rightarrow> me_writer \<Rightarrow> me_pool \<Rightarrow> me_pool" where
  "bind_to q w p =
     (let p = p\<lparr>mp_registry := reg_bind_writer (sq_conn_id q) (mw_id w) (mw_id w) (sq_meta q) (mp_registry p)\<rparr> in
      if mw_generation w < current_generation p then bump PoolStalePick p else p)"

text \<open>The candidates in turn: the first that takes the request at once, and the first whose channel is full.\<close>

fun try_candidates :: "pool_env \<Rightarrow> send_req \<Rightarrow> me_writer list \<Rightarrow> me_writer option \<Rightarrow> me_pool \<Rightarrow> bool \<times> me_writer option \<times> me_pool" where
  "try_candidates E q [] fallback p = (False, fallback, p)"
| "try_candidates E q (w # ws) fallback p =
     (if \<not> writer_accepts_new_binding E p w then try_candidates E q ws fallback p
      else case send_status (mw_id w) p of
          SendOk \<Rightarrow> (True, fallback, bind_to q w (push_command (mw_id w) (WcData (sq_payload q)) p))
        | SendFull \<Rightarrow> try_candidates E q ws (case fallback of None \<Rightarrow> Some w | Some v \<Rightarrow> Some v) p
        | SendClosed \<Rightarrow> try_candidates E q ws fallback (remove_writer_and_close_clients E (mw_id w) p))"

text \<open>Without any writer: one connection for each datacenter of each family.\<close>

fun recover_dcs :: "pool_env \<Rightarrow> proxy_map \<Rightarrow> me_pool \<Rightarrow> me_pool" where
  "recover_dcs E [] p = p"
| "recover_dcs E ((dc, addrs) # m) p = recover_dcs E m (snd (connect_first E (current_generation p) Active (endpoints_of addrs) p))"

definition recover_writers :: "pool_env \<Rightarrow> me_pool \<Rightarrow> me_pool" where
  "recover_writers E p = fold (\<lambda>family p. recover_dcs E (proxy_map_for_family family p) p) (family_order p) p"

text \<open>Emergency connections to the target datacenter, family by family, until there are candidates; \<open>n\<close> counts waits.\<close>

fun emergency :: "pool_env \<Rightarrow> (nat \<Rightarrow> me_pool \<Rightarrow> me_pool) \<Rightarrow> int \<Rightarrow> bool list \<Rightarrow> nat \<Rightarrow> me_pool \<Rightarrow> (me_writer list \<times> nat list) option \<times> nat \<times> me_pool" where
  "emergency E I dc [] n p = (None, n, p)"
| "emergency E I dc (family # families) n p =
     (case map_of (proxy_map_for_family family p) dc of
        None \<Rightarrow> emergency E I dc families n p
      | Some addrs \<Rightarrow>
          let p = snd (connect_first E (current_generation p) Active (pe_shuffle E (mp_clock p) (endpoints_of addrs)) p);
              p = I n p;
              cs = candidates E p (mp_writers p) dc
          in if cs \<noteq> [] then (Some (mp_writers p, cs), Suc n, p) else emergency E I dc families (Suc n) p)"

datatype round_result = SendDone "proxy_error + unit" | SendAgain

text \<open>The choice of a writer from a snapshot and its candidates, and the send.\<close>

definition send_to_candidates :: "pool_env \<Rightarrow> (nat \<Rightarrow> me_pool \<Rightarrow> me_pool) \<Rightarrow> send_req \<Rightarrow> me_writer list \<Rightarrow> nat list \<Rightarrow> nat \<Rightarrow> me_pool \<Rightarrow>
    (round_result \<times> nat \<times> me_pool) option" where
  "send_to_candidates E I q snapshot cs n p =
     (let sorted_cs = sort_candidates p snapshot cs;
          start = unat (mp_rr p) mod length sorted_cs;
          p = p\<lparr>mp_rr := mp_rr p + 1\<rparr>
      in case try_candidates E q (map ((!) snapshot) (rotate_from start sorted_cs)) None p of
           (True, _, p) \<Rightarrow> Some (SendDone (Inr ()), n, p)
         | (False, None, p) \<Rightarrow> Some (SendAgain, n, p)
         | (False, Some w, p) \<Rightarrow>
             if \<not> writer_accepts_new_binding E p w then Some (SendAgain, n, p)
             else case blocking_send (mw_id w) (WcData (sq_payload q)) (I n p) of
                 None \<Rightarrow> None
               | Some (True, p) \<Rightarrow> Some (SendDone (Inr ()), Suc n, bind_to q w p)
               | Some (False, p) \<Rightarrow> Some (SendAgain, Suc n, remove_writer_and_close_clients E (mw_id w) p))"

text \<open>The send to the writer that the connection is bound to.\<close>

definition send_bound :: "pool_env \<Rightarrow> (nat \<Rightarrow> me_pool \<Rightarrow> me_pool) \<Rightarrow> send_req \<Rightarrow> u64 conn_writer \<Rightarrow> nat \<Rightarrow> me_pool \<Rightarrow> (round_result \<times> nat \<times> me_pool) option" where
  "send_bound E I q current n p =
     (case send_status (cw_tx current) p of
        SendOk \<Rightarrow> Some (SendDone (Inr ()), n, push_command (cw_tx current) (WcData (sq_payload q)) p)
      | SendFull \<Rightarrow>
          (case blocking_send (cw_tx current) (WcData (sq_payload q)) (I n p) of
             None \<Rightarrow> None
           | Some (True, p) \<Rightarrow> Some (SendDone (Inr ()), Suc n, p)
           | Some (False, p) \<Rightarrow> Some (SendAgain, Suc n, remove_writer_and_close_clients E (cw_writer_id current) p))
      | SendClosed \<Rightarrow> Some (SendAgain, n, remove_writer_and_close_clients E (cw_writer_id current) p))"

text \<open>One round of the loop; \<open>notified n\<close> tells whether the wait for a writer ends with a notification. The attempts at emergency connections are counted.\<close>

definition send_round :: "pool_env \<Rightarrow> (nat \<Rightarrow> me_pool \<Rightarrow> me_pool) \<Rightarrow> (nat \<Rightarrow> bool) \<Rightarrow> send_req \<Rightarrow> nat \<Rightarrow> nat \<Rightarrow> me_pool \<Rightarrow>
    ((round_result \<times> nat \<times> me_pool) \<times> nat) option" where
  "send_round E I notified q attempts n p =
     (case reg_get_writer (sq_conn_id q) (mp_registry p) of
        Some current \<Rightarrow> map_option (\<lambda>r. (r, attempts)) (send_bound E I q current n p)
      | None \<Rightarrow>
          if mp_writers p = [] then
            (let p = recover_writers E p in
             if mp_writers p \<noteq> [] then Some ((SendAgain, n, p), attempts)
             else let p = I n p in
               if \<not> notified n \<and> mp_writers p = []
               then Some ((SendDone (Inl (ProxyMsg (Msg ''All ME connections dead (waited 3s)'' []))), Suc n, p), attempts)
               else Some ((SendAgain, Suc n, p), attempts))
          else
            let cs = candidates E p (mp_writers p) (sq_target_dc q) in
            if cs \<noteq> [] then map_option (\<lambda>r. (r, attempts)) (send_to_candidates E I q (mp_writers p) cs n p)
            else if 3 \<le> attempts then Some ((SendDone (Inl (ProxyMsg (Msg ''No ME writers available for target DC'' []))), n, p), attempts)
            else case emergency E I (sq_target_dc q) (family_order p) n p of
                (None, n, p) \<Rightarrow> Some ((SendDone (Inl (ProxyMsg (Msg ''No ME writers available for target DC'' []))), n, p), Suc attempts)
              | (Some (snapshot, cs), n, p) \<Rightarrow> map_option (\<lambda>r. (r, Suc attempts)) (send_to_candidates E I q snapshot cs n p))"

fun send_loop :: "pool_env \<Rightarrow> (nat \<Rightarrow> me_pool \<Rightarrow> me_pool) \<Rightarrow> (nat \<Rightarrow> bool) \<Rightarrow> send_req \<Rightarrow> nat \<Rightarrow> nat \<Rightarrow> nat \<Rightarrow> me_pool \<Rightarrow> ((proxy_error + unit) \<times> me_pool) option" where
  "send_loop E I notified q 0 attempts n p = None"
| "send_loop E I notified q (Suc fuel) attempts n p =
     (case send_round E I notified q attempts n p of
        None \<Rightarrow> None
      | Some ((SendDone r, _, p), _) \<Rightarrow> Some (r, p)
      | Some ((SendAgain, n, p), attempts) \<Rightarrow> send_loop E I notified q fuel attempts n p)"

definition send_proxy_req :: "pool_env \<Rightarrow> (nat \<Rightarrow> me_pool \<Rightarrow> me_pool) \<Rightarrow> (nat \<Rightarrow> bool) \<Rightarrow> nat \<Rightarrow> u64 \<Rightarrow> u16 \<Rightarrow> socket_addr \<Rightarrow> socket_addr \<Rightarrow> bytes \<Rightarrow> u32 \<Rightarrow> bytes option \<Rightarrow>
    me_pool \<Rightarrow> ((proxy_error + unit) \<times> me_pool) option" where
  "send_proxy_req E I notified fuel conn_id dc client ours data flags tag_override p =
     (let tag = (case tag_override of Some t \<Rightarrow> Some t | None \<Rightarrow> mp_proxy_tag p);
          q = \<lparr>sq_conn_id = conn_id, sq_target_dc = sint dc, sq_payload = build_proxy_req_payload conn_id client ours data tag flags,
               sq_meta = \<lparr>target_dc = dc, client_addr = client, our_addr = ours, proto_flags = flags\<rparr>\<rparr>
      in send_loop E I notified q fuel 0 0 p)"

definition send_close :: "pool_env \<Rightarrow> (me_pool \<Rightarrow> me_pool) \<Rightarrow> u64 \<Rightarrow> me_pool \<Rightarrow> me_pool option" where
  "send_close E I conn_id p =
     map_option (\<lambda>p. p\<lparr>mp_registry := snd (reg_unregister conn_id (mp_registry p))\<rparr>)
       (case reg_get_writer conn_id (mp_registry p) of
          None \<Rightarrow> Some p
        | Some w \<Rightarrow>
            (case blocking_send (cw_tx w) (WcDataAndFlush (u32_to_le_bytes RPC_CLOSE_EXT_U32 @ u64_to_le_bytes conn_id)) (I p) of
               None \<Rightarrow> None
             | Some (True, p) \<Rightarrow> Some p
             | Some (False, p) \<Rightarrow> Some (remove_writer_and_close_clients E (cw_writer_id w) p)))"

subsection \<open>Who the candidates are\<close>

lemma accepts_eligible: "writer_eligible_for_selection E p True w = writer_accepts_new_binding E p w"
  by (simp add: writer_eligible_for_selection_def split: writer_contour.split)

lemma eligible_accepts: "writer_eligible_for_selection E p warm w \<Longrightarrow> writer_accepts_new_binding E p w"
  by (simp add: writer_eligible_for_selection_def split: if_splits)

lemma candidate_indices_sound:
  assumes "i \<in> set (candidate_indices_for_dc E p ws dc warm)"
  shows "i < length ws" "writer_eligible_for_selection E p warm (ws ! i)"
  using assms by (auto simp: candidate_indices_for_dc_def Let_def split: if_splits)

lemma candidate_indices_empty:
  "(candidate_indices_for_dc E p ws dc warm = []) = (\<forall>w \<in> set ws. \<not> writer_eligible_for_selection E p warm w)"
proof -
  have "(filter (\<lambda>i. writer_eligible_for_selection E p warm (ws ! i)) [0 ..< length ws] = []) = (\<forall>w \<in> set ws. \<not> writer_eligible_for_selection E p warm w)"
    by (simp add: filter_empty_conv) (metis in_set_conv_nth atLeastLessThan_iff le0)
  then show ?thesis by (auto simp: candidate_indices_for_dc_def Let_def)
qed

lemma candidates_empty: "(candidates E p ws dc = []) = (\<forall>w \<in> set ws. \<not> writer_accepts_new_binding E p w)"
  using eligible_accepts by (auto simp: candidates_def Let_def candidate_indices_empty accepts_eligible)

lemma candidates_sound:
  "i \<in> set (candidates E p ws dc) \<Longrightarrow> i < length ws \<and> writer_accepts_new_binding E p (ws ! i)"
  by (auto simp: candidates_def Let_def split: if_splits intro: eligible_accepts dest: candidate_indices_sound)

text \<open>Writers to a preferred address come first, and warm ones only when there are no others.\<close>

lemma candidates_preferred:
  assumes "w \<in> set ws" "writer_eligible_for_selection E p False w" "mw_addr w \<in> set (preferred_addrs p dc (family_order p) [])"
    and "i \<in> set (candidates E p ws dc)"
  shows "mw_addr (ws ! i) \<in> set (preferred_addrs p dc (family_order p) [])" "writer_eligible_for_selection E p False (ws ! i)"
proof -
  let ?pref = "preferred_addrs p dc (family_order p) []"
  let ?el = "filter (\<lambda>i. writer_eligible_for_selection E p False (ws ! i)) [0 ..< length ws]"
  have c: "candidates E p ws dc = candidate_indices_for_dc E p ws dc False"
    using assms(1,2) by (auto simp: candidates_def Let_def candidate_indices_empty)
  obtain j where "j < length ws" "w = ws ! j" using assms(1) by (auto simp: in_set_conv_nth)
  then have "j \<in> set (filter (\<lambda>i. mw_addr (ws ! i) \<in> set ?pref) ?el)" using assms(2,3) by simp
  then have "filter (\<lambda>i. mw_addr (ws ! i) \<in> set ?pref) ?el \<noteq> []" "?pref \<noteq> []" using assms(3) by (metis empty_iff empty_set)+
  then have "candidate_indices_for_dc E p ws dc False = filter (\<lambda>i. mw_addr (ws ! i) \<in> set ?pref) ?el"
    unfolding candidate_indices_for_dc_def Let_def by (simp only: if_False)
  then show "mw_addr (ws ! i) \<in> set ?pref" "writer_eligible_for_selection E p False (ws ! i)" using assms(4) unfolding c by simp_all
qed

subsection \<open>What the registry holds\<close>

text \<open>The sender of a writer in the registry is the writer's own channel.\<close>

definition sender_ids :: "me_pool \<Rightarrow> bool" where
  "sender_ids p \<longleftrightarrow> (\<forall>i tx. rg_writers (mp_registry p) i = Some tx \<longrightarrow> tx = i)"

lemma connect_registry: "mp_registry (snd (connect_one_with_generation_contour E a gen contour p)) = mp_registry p"
  by (auto simp: connect_one_with_generation_contour_def Let_def split: sum.split)

lemma connect_first_registry: "mp_registry (snd (connect_first E gen contour as p)) = mp_registry p"
proof (induction as arbitrary: p)
  case (Cons a as)
  show ?case
    using connect_registry [of E a gen contour p] Cons.IH
    by (auto split: prod.split sum.split)
qed simp

lemma recover_dcs_registry: "mp_registry (recover_dcs E m p) = mp_registry p"
  by (induction E m p rule: recover_dcs.induct) (simp_all add: connect_first_registry)

lemma recover_registry: "mp_registry (recover_writers E p) = mp_registry p"
proof -
  have "mp_registry (fold (\<lambda>family p. recover_dcs E (proxy_map_for_family family p) p) fs p) = mp_registry p" for fs p
    by (induction fs arbitrary: p) (simp_all add: recover_dcs_registry)
  then show ?thesis by (simp add: recover_writers_def)
qed

lemma close_clients_writers: "rg_writers (close_clients E n bs r) = rg_writers r"
  by (induction bs arbitrary: r) (simp_all add: unregister_tables reg_route_tables)

lemma remove_writer_registry: "mp_registry (snd (remove_writer_only E i p)) = snd (reg_writer_lost i (mp_registry p))"
  by (simp add: remove_writer_only_def Let_def split: option.split prod.split)

lemma remove_sender_ids: "sender_ids p \<Longrightarrow> sender_ids (remove_writer_and_close_clients E i p)"
proof -
  assume ids: "sender_ids p"
  obtain conns q where q: "remove_writer_only E i p = (conns, q)" by fastforce
  obtain out r where r: "reg_writer_lost i (mp_registry p) = (out, r)" by fastforce
  have "rg_writers r = (rg_writers (mp_registry p))(i := None)" using writer_lost_spec(2) [OF r] .
  then have "rg_writers (mp_registry q) j = Some tx \<Longrightarrow> tx = j" for j tx
    using remove_writer_registry [of E i p] q r ids by (auto simp: sender_ids_def split: if_splits)
  then show ?thesis by (simp add: remove_writer_and_close_clients_def q sender_ids_def close_clients_writers)
qed

lemma push_registry [simp]: "mp_registry (push_command i cmd p) = mp_registry p"
  by (simp add: push_command_def split: option.split)

lemma bind_to_bound:
  assumes "sender_ids p"
  shows "sender_ids (bind_to q w p)" "reg_get_writer (sq_conn_id q) (mp_registry (bind_to q w p)) = Some (ConnWriter (mw_id w) (mw_id w))"
    "mp_channels (bind_to q w p) = mp_channels p"
proof -
  have r: "mp_registry (bind_to q w p) = reg_bind_writer (sq_conn_id q) (mw_id w) (mw_id w) (sq_meta q) (mp_registry p)"
    by (simp add: bind_to_def Let_def)
  show "sender_ids (bind_to q w p)" using assms unfolding sender_ids_def r by (auto simp: bind_tables split: if_splits)
  have "rg_writers (mp_registry p) (mw_id w) = Some tx \<Longrightarrow> tx = mw_id w" for tx using assms by (simp add: sender_ids_def)
  then show "reg_get_writer (sq_conn_id q) (mp_registry (bind_to q w p)) = Some (ConnWriter (mw_id w) (mw_id w))"
    unfolding r reg_get_writer_def by (auto simp: bind_tables split: option.split)
  show "mp_channels (bind_to q w p) = mp_channels p" by (simp add: bind_to_def Let_def)
qed

subsection \<open>What a request achieves\<close>

text \<open>The request is the last command in an open channel within its capacity.\<close>

definition delivered :: "bytes \<Rightarrow> u64 \<Rightarrow> me_pool \<Rightarrow> bool" where
  "delivered payload i p \<longleftrightarrow> (\<exists>ch. mp_channels p i = Some ch \<and> \<not> wc_closed ch \<and> wc_queue ch \<noteq> [] \<and> last (wc_queue ch) = WcData payload \<and>
     length (wc_queue ch) \<le> WRITER_CHANNEL_CAPACITY)"

definition sent_bound :: "send_req \<Rightarrow> u64 \<Rightarrow> me_pool \<Rightarrow> bool" where
  "sent_bound q i p \<longleftrightarrow> delivered (sq_payload q) i p \<and> reg_get_writer (sq_conn_id q) (mp_registry p) = Some (ConnWriter i i)"

lemma push_delivered: "send_status i p = SendOk \<Longrightarrow> delivered payload i (push_command i (WcData payload) p)"
  by (auto simp: send_status_def push_command_def delivered_def split: option.splits if_splits)

lemma blocking_delivered: "blocking_send i (WcData payload) p = Some (True, p') \<Longrightarrow> delivered payload i p' \<and> mp_registry p' = mp_registry p"
  by (auto simp: blocking_send_def push_delivered split: send_outcome.splits)

lemma blocking_failed: "blocking_send i cmd p = Some (False, p') \<Longrightarrow> p' = p"
  by (auto simp: blocking_send_def split: send_outcome.splits)

lemma bind_sent:
  assumes "sender_ids p" "delivered (sq_payload q) (mw_id w) p"
  shows "sent_bound q (mw_id w) (bind_to q w p)"
  using assms bind_to_bound [OF assms(1), of q w] by (simp add: sent_bound_def delivered_def)

lemma try_candidates_sent:
  "sender_ids p \<Longrightarrow> sender_ids (snd (snd (try_candidates E q ws fb p))) \<and>
   (fst (try_candidates E q ws fb p) \<longrightarrow> (\<exists>i. sent_bound q i (snd (snd (try_candidates E q ws fb p)))))"
proof (induction ws arbitrary: fb p)
  case (Cons w ws)
  have push: "sender_ids (push_command (mw_id w) cmd p)" for cmd using Cons.prems by (simp add: sender_ids_def)
  show ?case
  proof (cases "writer_accepts_new_binding E p w")
    case True
    show ?thesis
    proof (cases "send_status (mw_id w) p")
      case SendOk
      have "try_candidates E q (w # ws) fb p = (True, fb, bind_to q w (push_command (mw_id w) (WcData (sq_payload q)) p))"
        using True SendOk by simp
      then show ?thesis
        using bind_sent [OF push push_delivered [OF SendOk]] bind_to_bound(1) [OF push] by auto
    next
      case SendFull
      have "try_candidates E q (w # ws) fb p = try_candidates E q ws (case fb of None \<Rightarrow> Some w | Some v \<Rightarrow> Some v) p"
        using True SendFull by simp
      then show ?thesis using Cons.IH [OF Cons.prems] by metis
    next
      case SendClosed
      have "try_candidates E q (w # ws) fb p = try_candidates E q ws fb (remove_writer_and_close_clients E (mw_id w) p)"
        using True SendClosed by simp
      then show ?thesis using Cons.IH [OF remove_sender_ids [OF Cons.prems]] by metis
    qed
  next
    case False
    then have "try_candidates E q (w # ws) fb p = try_candidates E q ws fb p" by simp
    then show ?thesis using Cons.IH [OF Cons.prems] by metis
  qed
qed simp

text \<open>The waits of others keep the senders of the registry as they are.\<close>

definition harmless :: "(nat \<Rightarrow> me_pool \<Rightarrow> me_pool) \<Rightarrow> bool" where
  "harmless I \<longleftrightarrow> (\<forall>n p. sender_ids p \<longrightarrow> sender_ids (I n p))"

lemma send_to_candidates_sent:
  assumes "send_to_candidates E I q snapshot cs n p = Some (r, n', p')" "sender_ids p" "harmless I"
  shows "sender_ids p' \<and> (case r of SendAgain \<Rightarrow> True | SendDone res \<Rightarrow> res = Inr () \<and> (\<exists>i. sent_bound q i p'))"
proof -
  let ?p = "p\<lparr>mp_rr := mp_rr p + 1\<rparr>"
  let ?ws = "map ((!) snapshot) (rotate_from (unat (mp_rr p) mod length (sort_candidates p snapshot cs)) (sort_candidates p snapshot cs))"
  obtain b fb t where t: "try_candidates E q ?ws None ?p = (b, fb, t)" by (rule prod_cases3)
  have "sender_ids ?p" using assms(2) by (simp add: sender_ids_def)
  from try_candidates_sent [OF this, of E q ?ws None] have T: "sender_ids t" "b \<Longrightarrow> \<exists>i. sent_bound q i t" unfolding t by simp_all
  have I: "sender_ids (I n t)" using assms(3) T(1) by (simp add: harmless_def)
  have S: "(case (b, fb, t) of (True, _, p) \<Rightarrow> Some (SendDone (Inr ()), n, p) | (False, None, p) \<Rightarrow> Some (SendAgain, n, p)
      | (False, Some w, p) \<Rightarrow>
          if \<not> writer_accepts_new_binding E p w then Some (SendAgain, n, p)
          else case blocking_send (mw_id w) (WcData (sq_payload q)) (I n p) of
              None \<Rightarrow> None
            | Some (True, p) \<Rightarrow> Some (SendDone (Inr ()), Suc n, bind_to q w p)
            | Some (False, p) \<Rightarrow> Some (SendAgain, Suc n, remove_writer_and_close_clients E (mw_id w) p)) = Some (r, n', p')"
    using assms(1) unfolding send_to_candidates_def Let_def t .
  consider "b" | "\<not> b" "fb = None" | w where "\<not> b" "fb = Some w" "\<not> writer_accepts_new_binding E t w"
    | w where "\<not> b" "fb = Some w" "writer_accepts_new_binding E t w" by blast
  then show ?thesis
  proof cases
    case (4 w)
    then obtain ok u where u: "blocking_send (mw_id w) (WcData (sq_payload q)) (I n t) = Some (ok, u)"
      using S by (auto split: option.splits)
    show ?thesis
    proof (cases ok)
      case True
      then have d: "delivered (sq_payload q) (mw_id w) u" "mp_registry u = mp_registry (I n t)" using blocking_delivered u by auto
      then have "sender_ids u" using I by (simp add: sender_ids_def)
      then show ?thesis using S 4 u True bind_sent [OF _ d(1)] bind_to_bound(1) by auto
    next
      case False
      then have "u = I n t" using blocking_failed u by auto
      then show ?thesis using S 4 u False remove_sender_ids [OF I] by auto
    qed
  qed (use S T in auto)
qed

lemma send_bound_sent:
  assumes "send_bound E I q cw n p = Some (r, n', p')" "sender_ids p" "harmless I" "reg_get_writer (sq_conn_id q) (mp_registry p) = Some cw"
  shows "sender_ids p' \<and> (case r of SendAgain \<Rightarrow> True
    | SendDone res \<Rightarrow> res = Inr () \<and> (\<exists>i. delivered (sq_payload q) i p' \<and>
        ((\<forall>n p. reg_get_writer (sq_conn_id q) (mp_registry (I n p)) = reg_get_writer (sq_conn_id q) (mp_registry p)) \<longrightarrow> sent_bound q i p')))"
proof -
  have cw: "cw = ConnWriter (cw_tx cw) (cw_tx cw)"
    using assms(2,4) by (cases cw) (auto simp: reg_get_writer_def sender_ids_def split: option.splits)
  have I: "sender_ids (I n p)" using assms(2,3) by (simp add: harmless_def)
  show ?thesis
  proof (cases "send_status (cw_tx cw) p")
    case SendOk
    then have "r = SendDone (Inr ())" "p' = push_command (cw_tx cw) (WcData (sq_payload q)) p"
      using assms(1) by (simp_all add: send_bound_def)
    then show ?thesis
      using push_delivered [OF SendOk, of "sq_payload q"] assms(2,4) cw by (auto simp: sender_ids_def sent_bound_def)
  next
    case SendFull
    then obtain ok u where u: "blocking_send (cw_tx cw) (WcData (sq_payload q)) (I n p) = Some (ok, u)"
      using assms(1) by (auto simp: send_bound_def split: option.splits)
    show ?thesis
    proof (cases ok)
      case True
      then have d: "delivered (sq_payload q) (cw_tx cw) u" "mp_registry u = mp_registry (I n p)" using blocking_delivered u by auto
      moreover have "r = SendDone (Inr ())" "p' = u" using assms(1) SendFull u True by (simp_all add: send_bound_def)
      ultimately show ?thesis using I assms(4) cw by (auto simp: sender_ids_def sent_bound_def)
    next
      case False
      then have "u = I n p" using blocking_failed u by auto
      then have "r = SendAgain" "p' = remove_writer_and_close_clients E (cw_writer_id cw) (I n p)"
        using assms(1) SendFull u False by (simp_all add: send_bound_def)
      then show ?thesis using remove_sender_ids [OF I] by simp
    qed
  next
    case SendClosed
    then have "r = SendAgain" "p' = remove_writer_and_close_clients E (cw_writer_id cw) p" using assms(1) by (simp_all add: send_bound_def)
    then show ?thesis using remove_sender_ids [OF assms(2)] by simp
  qed
qed

lemma emergency_result:
  assumes "candidates E p (mp_writers p) dc = []" "sender_ids p" "harmless I" "emergency E I dc families n p = (res, n', p')"
  shows "sender_ids p' \<and> (res = None \<longrightarrow> candidates E p' (mp_writers p') dc = [])"
  using assms
proof (induction families arbitrary: n p)
  case (Cons f fs)
  show ?case
  proof (cases "map_of (proxy_map_for_family f p) dc")
    case None
    then have "emergency E I dc fs n p = (res, n', p')" using Cons.prems(4) by simp
    then show ?thesis by (rule Cons.IH [OF Cons.prems(1-3)])
  next
    case (Some addrs)
    let ?p = "I n (snd (connect_first E (current_generation p) Active (pe_shuffle E (mp_clock p) (endpoints_of addrs)) p))"
    have "sender_ids (snd (connect_first E (current_generation p) Active (pe_shuffle E (mp_clock p) (endpoints_of addrs)) p))"
      using Cons.prems(2) by (simp add: sender_ids_def connect_first_registry)
    then have ids: "sender_ids ?p" using Cons.prems(3) unfolding harmless_def by blast
    show ?thesis
    proof (cases "candidates E ?p (mp_writers ?p) dc = []")
      case True
      then have "emergency E I dc fs (Suc n) ?p = (res, n', p')" using Cons.prems(4) Some by (simp add: Let_def)
      then show ?thesis by (rule Cons.IH [OF True ids Cons.prems(3)])
    next
      case False
      then have "res \<noteq> None" "p' = ?p" using Cons.prems(4) Some by (auto simp: Let_def)
      then show ?thesis using ids by blast
    qed
  qed
qed simp

lemma send_round_result:
  assumes "send_round E I notified q attempts n p = Some ((r, n', p'), attempts')" "sender_ids p" "harmless I"
  shows "sender_ids p' \<and> (case r of SendAgain \<Rightarrow> True
    | SendDone (Inr _) \<Rightarrow> \<exists>i. delivered (sq_payload q) i p' \<and>
        ((\<forall>n p. reg_get_writer (sq_conn_id q) (mp_registry (I n p)) = reg_get_writer (sq_conn_id q) (mp_registry p)) \<longrightarrow> sent_bound q i p')
    | SendDone (Inl _) \<Rightarrow> \<forall>w \<in> set (mp_writers p'). \<not> writer_accepts_new_binding E p' w)"
proof (cases "reg_get_writer (sq_conn_id q) (mp_registry p)")
  case (Some cw)
  then have "send_bound E I q cw n p = Some (r, n', p')" using assms(1) by (auto simp: send_round_def)
  from send_bound_sent [OF this assms(2,3) Some] show ?thesis by (auto split: round_result.split)
next
  case None
  note R = assms(1) [unfolded send_round_def None option.case]
  show ?thesis
  proof (cases "mp_writers p = []")
    case True
    let ?p = "recover_writers E p"
    have ids: "sender_ids ?p" using assms(2) by (simp add: sender_ids_def recover_registry)
    then have "sender_ids (I n ?p)" using assms(3) by (simp add: harmless_def)
    then show ?thesis using R True ids by (auto simp: Let_def split: if_splits)
  next
    case False
    let ?cs = "candidates E p (mp_writers p) (sq_target_dc q)"
    have sent: "send_to_candidates E I q snap cs k u = Some (r, n', p') \<Longrightarrow> sender_ids u \<Longrightarrow> ?thesis" for snap cs k u
      using send_to_candidates_sent [OF _ _ assms(3), of E q snap cs k u r n' p']
      by (auto simp: sent_bound_def split: round_result.split)
    consider "?cs \<noteq> []" | "?cs = []" "3 \<le> attempts" | "?cs = []" "\<not> 3 \<le> attempts" by linarith
    then show ?thesis
    proof cases
      case 1
      then have "send_to_candidates E I q (mp_writers p) ?cs n p = Some (r, n', p')" using R False by (auto simp: Let_def)
      then show ?thesis by (rule sent) (rule assms(2))
    next
      case 2
      then show ?thesis using R False assms(2) by (auto simp: candidates_empty)
    next
      case 3
      obtain res k u where e: "emergency E I (sq_target_dc q) (family_order p) n p = (res, k, u)" by (rule prod_cases3)
      note U = emergency_result [OF 3(1) assms(2,3) e]
      show ?thesis
      proof (cases res)
        case None
        then have "r = SendDone (Inl (ProxyMsg (Msg ''No ME writers available for target DC'' [])))" "p' = u" using R False 3 e by simp_all
        then show ?thesis using U None by (simp add: candidates_empty)
      next
        case (Some sc)
        then have "send_to_candidates E I q (fst sc) (snd sc) k u = Some (r, n', p')" using R False 3 e by (cases sc) auto
        then show ?thesis by (rule sent) (use U in simp)
      qed
    qed
  qed
qed

lemma send_loop_result:
  assumes "send_loop E I notified q fuel attempts n p = Some (res, p')" "sender_ids p" "harmless I"
  shows "case res of
      Inr _ \<Rightarrow> \<exists>i. delivered (sq_payload q) i p' \<and>
        ((\<forall>n p. reg_get_writer (sq_conn_id q) (mp_registry (I n p)) = reg_get_writer (sq_conn_id q) (mp_registry p)) \<longrightarrow> sent_bound q i p')
    | Inl _ \<Rightarrow> \<forall>w \<in> set (mp_writers p'). \<not> writer_accepts_new_binding E p' w"
  using assms
proof (induction fuel arbitrary: attempts n p)
  case (Suc fuel)
  then obtain r n1 p1 a1 where r: "send_round E I notified q attempts n p = Some ((r, n1, p1), a1)" by (auto split: option.splits)
  note R = send_round_result [OF r Suc.prems(2,3)]
  show ?case
  proof (cases r)
    case (SendDone x)
    then have x: "x = res" "p1 = p'" using Suc.prems(1) r by simp_all
    show ?thesis using R unfolding SendDone x by simp
  next
    case SendAgain
    then have "send_loop E I notified q fuel a1 n1 p1 = Some (res, p')" using Suc.prems(1) r by simp
    then show ?thesis by (rule Suc.IH) (use R Suc.prems(3) in simp_all)
  qed
qed simp

text \<open>C11: Whatever the other tasks do to the pool while a request waits, as long as the registry's senders stay the writers' own channels: when the request
  succeeds, its payload is the last command in an open channel, within the channel's capacity, and the connection is bound to
  that channel's writer unless another task has changed the connection's binding during a wait; when it fails, not a single writer of
  the pool accepts new bindings.\<close>

theorem send_proxy_req_outcome:
  assumes "send_proxy_req E I notified fuel conn_id dc client ours data flags tag_override p = Some (res, p')"
    and "sender_ids p" and "\<And>n p. sender_ids p \<Longrightarrow> sender_ids (I n p)"
  shows "case res of
      Inr _ \<Rightarrow> \<exists>i ch. mp_channels p' i = Some ch \<and> \<not> wc_closed ch \<and> length (wc_queue ch) \<le> 4096 \<and> wc_queue ch \<noteq> [] \<and>
        last (wc_queue ch) = WcData (build_proxy_req_payload conn_id client ours data (case tag_override of Some t \<Rightarrow> Some t | None \<Rightarrow> mp_proxy_tag p) flags) \<and>
        ((\<forall>n p. reg_get_writer conn_id (mp_registry (I n p)) = reg_get_writer conn_id (mp_registry p)) \<longrightarrow>
           reg_get_writer conn_id (mp_registry p') = Some (ConnWriter i i))
    | Inl _ \<Rightarrow> \<forall>w \<in> set (mp_writers p'). \<not> writer_accepts_new_binding E p' w"
proof -
  have "harmless I" using assms(3) by (simp add: harmless_def)
  from send_loop_result [OF assms(1) [unfolded send_proxy_req_def Let_def] assms(2) this] show ?thesis
    by (cases res) (auto simp: delivered_def sent_bound_def WRITER_CHANNEL_CAPACITY_def)
qed

lemma demo_send:
  "\<exists>p'. send_proxy_req demo_pool_env (\<lambda>n p. p) (\<lambda>n. False) 1 7 2 client ours data flags None demo_connected = Some (Inr (), p')"
proof -
  let ?q = "\<lparr>sq_conn_id = 7, sq_target_dc = 2, sq_payload = build_proxy_req_payload 7 client ours data None flags,
      sq_meta = \<lparr>target_dc = 2, client_addr = client, our_addr = ours, proto_flags = flags\<rparr>\<rparr>"
  have reg: "reg_get_writer 7 (mp_registry demo_connected) = None"
    unfolding demo_connected_fields
    by (simp add: demo_pool_def me_pool_new_def registry_new_def update_route_backpressure_policy_def reg_get_writer_def Let_def)
  have acc: "writer_accepts_new_binding demo_pool_env p demo_writer" for p by (simp add: writer_accepts_new_binding_def demo_writer_def)
  have "candidates demo_pool_env demo_connected [demo_writer] 2 \<noteq> []" using acc by (simp add: candidates_empty)
  moreover have "i \<in> set (candidates demo_pool_env demo_connected [demo_writer] 2) \<Longrightarrow> i = 0" for i
    using candidates_sound [of i demo_pool_env demo_connected "[demo_writer]" 2] by simp
  moreover have "distinct (candidates demo_pool_env demo_connected [demo_writer] 2)"
    by (simp add: candidates_def candidate_indices_for_dc_def Let_def)
  ultimately have cs: "candidates demo_pool_env demo_connected [demo_writer] 2 = [0]"
    by (metis distinct_singleton list.set_intros(1) distinct.simps(2) list.exhaust list.set_intros(2))
  have st: "send_status 1 (demo_connected\<lparr>mp_rr := r\<rparr>) = SendOk" for r
    by (simp add: send_status_def demo_connected_fields fresh_channel_def WRITER_CHANNEL_CAPACITY_def)
  have id: "mw_id demo_writer = 1" by (simp add: demo_writer_def)
  have "\<exists>p'. send_to_candidates demo_pool_env (\<lambda>n p. p) ?q [demo_writer] [0] 0 demo_connected = Some (SendDone (Inr ()), 0, p')"
    by (simp add: send_to_candidates_def Let_def sort_candidates_def rotate_from_def acc id st)
  then show ?thesis
    using reg cs by (auto simp: send_proxy_req_def Let_def send_round_def demo_connected_fields)
qed

theorem send_proxy_req_outcome_witness:
  "\<exists>p' i ch. send_proxy_req demo_pool_env (\<lambda>n p. p) (\<lambda>n. False) 1 7 2 (SocketAddr (IpV4 1) 2) (SocketAddr (IpV4 3) 4) [9] 0 None demo_connected = Some (Inr (), p') \<and>
     mp_channels p' i = Some ch \<and> last (wc_queue ch) = WcData (build_proxy_req_payload 7 (SocketAddr (IpV4 1) 2) (SocketAddr (IpV4 3) 4) [9] None 0) \<and>
     reg_get_writer 7 (mp_registry p') = Some (ConnWriter i i)"
proof -
  obtain p' where p': "send_proxy_req demo_pool_env (\<lambda>n p. p) (\<lambda>n. False) 1 7 2 (SocketAddr (IpV4 1) 2) (SocketAddr (IpV4 3) 4) [9] 0 None demo_connected = Some (Inr (), p')"
    using demo_send by blast
  have ids: "sender_ids demo_connected"
    unfolding sender_ids_def demo_connected_fields
    by (simp add: demo_pool_def me_pool_new_def registry_new_def update_route_backpressure_policy_def Let_def)
  show ?thesis using send_proxy_req_outcome [OF p' ids] p' by (auto simp: demo_connected_fields)
qed

end
