(* ===== verification/Me_Reinit.thy ===== *)
theory Me_Reinit
  imports Me_Pool
begin

section \<open>Generations and proxy maps (\<open>transport/middle_proxy/pool_reinit.rs\<close>, \<open>pool_config.rs\<close>)\<close>

text \<open>
  The pool follows its maps of proxies: a reinitialization brings up writers for every datacenter of the maps and then drains those that are out of date, either
  by address, or generation by generation (the hard swap), where a new generation is warmed up first and a pending one is taken up again. While it sleeps other tasks
  run: \<open>I n\<close> is what they do to the pool during sleep number \<open>n\<close>. From the snapshot of the writers on it runs without a sleep. The hash function and floating-point
  arithmetic are parameters.
\<close>

definition ME_HARDSWAP_PENDING_TTL_SECS :: u64 where "ME_HARDSWAP_PENDING_TTL_SECS = 1800"

subsection \<open>The endpoints that are wanted\<close>

type_synonym dc_endpoints = "(int \<times> socket_addr list) list"

text \<open>\<open>entry(dc).or_default()\<close>, into which every address is inserted.\<close>

fun add_endpoints :: "int \<Rightarrow> socket_addr list \<Rightarrow> dc_endpoints \<Rightarrow> dc_endpoints" where
  "add_endpoints dc as [] = [(dc, remdups as)]"
| "add_endpoints dc as ((d, bs) # es) = (if d = dc then (d, remdups (bs @ as)) # es else (d, bs) # add_endpoints dc as es)"

definition add_map :: "proxy_map \<Rightarrow> dc_endpoints \<Rightarrow> dc_endpoints" where
  "add_map m es = fold (\<lambda>(dc, addrs). add_endpoints \<bar>dc\<bar> (endpoints_of addrs)) m es"

definition desired_dc_endpoints :: "me_pool \<Rightarrow> dc_endpoints" where
  "desired_dc_endpoints p =
     (let out = (if nd_ipv4_me (mp_decision p) then add_map (mp_map_v4 p) [] else []) in
      if nd_ipv6_me (mp_decision p) then add_map (mp_map_v6 p) out else out)"

datatype hash_token = HDc int | HEndpoint socket_addr

definition desired_map_hash :: "(hash_token list \<Rightarrow> u64) \<Rightarrow> dc_endpoints \<Rightarrow> u64" where
  "desired_map_hash H desired =
     H (concat (map (\<lambda>(dc, as). HDc dc # map HEndpoint (sort_key addr_key as)) (sort_key fst desired)))"

definition clear_pending_hardswap_state :: "me_pool \<Rightarrow> me_pool" where
  "clear_pending_hardswap_state p =
     p\<lparr>mp_pending_generation := 0, mp_pending_started_at := 0, mp_pending_map_hash := 0, mp_warm_generation := 0\<rparr>"

definition promote_warm_generation_to_active :: "u64 \<Rightarrow> me_pool \<Rightarrow> me_pool" where
  "promote_warm_generation_to_active gen p =
     p\<lparr>mp_active_generation := gen, mp_warm_generation := 0,
       mp_writers := map (\<lambda>w. if \<not> mw_draining w \<and> mw_generation w = gen then w\<lparr>mw_contour := contour_as_u8 Active\<rparr> else w) (mp_writers p)\<rparr>"

text \<open>The covered share of the datacenters, and those that are not covered.\<close>

definition coverage_ratio :: "'f float_ops \<Rightarrow> dc_endpoints \<Rightarrow> socket_addr list \<Rightarrow> 'f \<times> int list" where
  "coverage_ratio F desired active =
     (if desired = [] then (f_lit F 1 0, [])
      else let covered = (\<lambda>(dc, as). as \<noteq> [] \<and> list_ex (\<lambda>a. a \<in> set active) as);
               missing = map fst (filter (\<lambda>(dc, as). as \<noteq> [] \<and> \<not> list_ex (\<lambda>a. a \<in> set active) as) desired)
        in (f_div F (f_lit F (length (filter covered desired)) 0) (f_lit F (max (length desired) 1) 0), sort missing))"

definition permille_to_ratio :: "'f float_ops \<Rightarrow> u32 \<Rightarrow> 'f" where
  "permille_to_ratio F permille = f_div F (f_lit F (min (unat permille) 1000) 0) (f_lit F 1000 0)"

subsection \<open>Connecting\<close>

fun reconcile_dcs :: "pool_env \<Rightarrow> socket_addr list \<Rightarrow> proxy_map \<Rightarrow> me_pool \<Rightarrow> me_pool" where
  "reconcile_dcs E current [] p = p"
| "reconcile_dcs E current ((dc, addrs) # m) p =
     reconcile_dcs E current m
       (if list_ex (\<lambda>a. a \<in> set current) (endpoints_of addrs) then p
        else snd (connect_first E (current_generation p) Active (pe_shuffle E (mp_clock p) (endpoints_of addrs)) p))"

fun reconcile_families :: "pool_env \<Rightarrow> socket_addr list \<Rightarrow> bool list \<Rightarrow> me_pool \<Rightarrow> me_pool" where
  "reconcile_families E current [] p = p"
| "reconcile_families E current (f # fs) p =
     (let p = reconcile_dcs E current (proxy_map_for_family f p) p in
      if \<not> nd_effective_multipath (mp_decision p) \<and> current \<noteq> [] then p else reconcile_families E current fs p)"

definition reconcile_connections :: "pool_env \<Rightarrow> me_pool \<Rightarrow> me_pool" where
  "reconcile_connections E p =
     reconcile_families E (map mw_addr (filter (\<lambda>w. \<not> mw_draining w) (mp_writers p))) (family_order p) p"

definition is_fresh :: "u64 \<Rightarrow> socket_addr list \<Rightarrow> me_writer \<Rightarrow> bool" where
  "is_fresh gen endpoints w \<longleftrightarrow> \<not> mw_draining w \<and> mw_generation w = gen \<and> mw_addr w \<in> set endpoints"

definition fresh_writer_count_for_endpoints :: "u64 \<Rightarrow> socket_addr list \<Rightarrow> me_pool \<Rightarrow> nat" where
  "fresh_writer_count_for_endpoints gen endpoints p = length (filter (is_fresh gen endpoints) (mp_writers p))"

definition active_writer_count_for_endpoints :: "socket_addr list \<Rightarrow> me_pool \<Rightarrow> nat" where
  "active_writer_count_for_endpoints endpoints p = length (filter (\<lambda>w. \<not> mw_draining w \<and> mw_addr w \<in> set endpoints) (mp_writers p))"

text \<open>Delays, in milliseconds; \<open>draw\<close> is the random number drawn, and \<open>u64\<close> arithmetic saturates.\<close>

definition hardswap_warmup_connect_delay_ms :: "(u64 \<Rightarrow> u64 \<Rightarrow> u64) \<Rightarrow> me_pool \<Rightarrow> u64" where
  "hardswap_warmup_connect_delay_ms draw p =
     (let a = rp_warmup_delay_min_ms (mp_policy p); b = rp_warmup_delay_max_ms (mp_policy p);
          (min_ms, max_ms) = (if a \<le> b then (a, b) else (b, a))
      in if min_ms = max_ms then min_ms else draw min_ms max_ms)"

definition saturate :: "nat \<Rightarrow> u64" where
  "saturate n = (if n < 2 ^ 64 then word_of_nat n else - 1)"

definition hardswap_warmup_backoff_ms :: "(u64 \<Rightarrow> u64 \<Rightarrow> u64) \<Rightarrow> nat \<Rightarrow> me_pool \<Rightarrow> u64" where
  "hardswap_warmup_backoff_ms draw pass_idx p =
     (let base_ms = rp_warmup_pass_backoff_base_ms (mp_policy p);
          cap_ms = max (mp_backoff_cap_ms p) base_ms;
          scaled = saturate (unat base_ms * 2 ^ min pass_idx 20);
          core = min scaled cap_ms;
          jitter = max (core div 2) 1
      in saturate (unat core + unat (draw 0 jitter)))"

subsection \<open>Warm-up\<close>

fun warm_attempts :: "pool_env \<Rightarrow> (nat \<Rightarrow> me_pool \<Rightarrow> me_pool) \<Rightarrow> socket_addr list \<Rightarrow> u64 \<Rightarrow> nat \<Rightarrow> nat \<times> me_pool \<Rightarrow> nat \<times> me_pool" where
  "warm_attempts E I endpoints gen 0 s = s"
| "warm_attempts E I endpoints gen (Suc k) (n, p) =
     warm_attempts E I endpoints gen k (Suc n, snd (connect_endpoints_round_robin_with_generation_contour E endpoints gen Warm (I n p)))"

text \<open>\<open>last_fresh\<close> is the count at the end of the last pass.\<close>

fun warm_passes :: "pool_env \<Rightarrow> (nat \<Rightarrow> me_pool \<Rightarrow> me_pool) \<Rightarrow> socket_addr list \<Rightarrow> u64 \<Rightarrow> nat \<Rightarrow> nat \<Rightarrow> nat \<Rightarrow> nat \<times> me_pool \<Rightarrow> nat \<times> me_pool" where
  "warm_passes E I endpoints gen required 0 last_fresh s = s"
| "warm_passes E I endpoints gen required (Suc k) last_fresh s =
     (if required \<le> last_fresh then s
      else case warm_attempts E I endpoints gen (required - last_fresh) s of (n, p) \<Rightarrow>
        let last_fresh = fresh_writer_count_for_endpoints gen endpoints p in
        if required \<le> last_fresh \<or> k = 0 then (n, p) else warm_passes E I endpoints gen required k last_fresh (Suc n, I n p))"

fun warm_dcs :: "pool_env \<Rightarrow> (nat \<Rightarrow> me_pool \<Rightarrow> me_pool) \<Rightarrow> u64 \<Rightarrow> nat \<Rightarrow> dc_endpoints \<Rightarrow> nat \<times> me_pool \<Rightarrow> nat \<times> me_pool" where
  "warm_dcs E I gen passes [] s = s"
| "warm_dcs E I gen passes ((dc, endpoints) # es) s =
     warm_dcs E I gen passes es
       (if endpoints = [] then s
        else warm_passes E I (sort_key addr_key endpoints) gen (required_writers_for_dc (length endpoints) (snd s)) passes
               (fresh_writer_count_for_endpoints gen endpoints (snd s)) s)"

definition warmup_generation_for_all_dcs :: "pool_env \<Rightarrow> (nat \<Rightarrow> me_pool \<Rightarrow> me_pool) \<Rightarrow> u64 \<Rightarrow> dc_endpoints \<Rightarrow> nat \<times> me_pool \<Rightarrow> nat \<times> me_pool" where
  "warmup_generation_for_all_dcs E I gen desired s =
     warm_dcs E I gen (1 + min (unat (rp_warmup_extra_passes (mp_policy (snd s)))) 10) desired s"

subsection \<open>Reinitialization\<close>

text \<open>The generation to bring up: the pending one, if it is for the same map and not too old, or the next one.\<close>

definition next_generation :: "me_pool \<Rightarrow> u64 \<times> me_pool" where
  "next_generation p = (mp_generation p + 1, p\<lparr>mp_generation := mp_generation p + 1\<rparr>)"

definition reinit_generation :: "pool_env \<Rightarrow> (hash_token list \<Rightarrow> u64) \<Rightarrow> dc_endpoints \<Rightarrow> me_pool \<Rightarrow> u64 \<times> me_pool" where
  "reinit_generation E H desired p =
     (if \<not> rp_hardswap (mp_policy p) then next_generation (clear_pending_hardswap_state p)
      else
        let desired_hash = desired_map_hash H desired;
            now = pe_epoch E (mp_clock p);
            pending = mp_pending_generation p;
            started = mp_pending_started_at p;
            age = (if started \<le> now then now - started else 0);
            expired = (0 < started \<and> ME_HARDSWAP_PENDING_TTL_SECS < age);
            same_map = (mp_pending_map_hash p \<noteq> 0 \<and> mp_pending_map_hash p = desired_hash)
        in if pending \<noteq> 0 \<and> current_generation p \<le> pending \<and> same_map \<and> \<not> expired
           then (pending, bump HardswapPendingReuse p)
           else let p = (if pending \<noteq> 0 \<and> expired then bump HardswapPendingTtlExpired p else p); (gen, p) = next_generation p
             in (gen, p\<lparr>mp_pending_generation := gen, mp_pending_started_at := now, mp_pending_map_hash := desired_hash, mp_warm_generation := gen\<rparr>))"

text \<open>What happens from the snapshot of the writers on.\<close>

definition missing_fresh :: "u64 \<Rightarrow> dc_endpoints \<Rightarrow> me_pool \<Rightarrow> dc_endpoints" where
  "missing_fresh gen desired p =
     filter (\<lambda>(dc, endpoints). endpoints \<noteq> [] \<and> fresh_writer_count_for_endpoints gen endpoints p < required_writers_for_dc (length endpoints) p) desired"

definition stale_writers :: "bool \<Rightarrow> u64 \<Rightarrow> dc_endpoints \<Rightarrow> me_pool \<Rightarrow> u64 list" where
  "stale_writers hardswap gen desired p =
     map mw_id (filter (\<lambda>w. \<not> mw_draining w \<and>
       (if hardswap then mw_generation w < gen else mw_addr w \<notin> set (concat (map snd desired)))) (mp_writers p))"

definition reinit_finish :: "pool_env \<Rightarrow> 'f float_ops \<Rightarrow> bool \<Rightarrow> u64 \<Rightarrow> dc_endpoints \<Rightarrow> me_pool \<Rightarrow> me_pool" where
  "reinit_finish E F hardswap gen desired p =
     (let active = map mw_addr (filter (\<lambda>w. \<not> mw_draining w) (mp_writers p));
          (ratio, missing_dc) = coverage_ratio F desired active
      in if \<not> hardswap \<and> f_lt F ratio (permille_to_ratio F (rp_min_fresh_ratio_permille (mp_policy p))) then p
         else if hardswap \<and> missing_fresh gen desired p \<noteq> [] then p
         else if \<not> hardswap \<and> missing_dc \<noteq> [] then p
         else
           let stale = stale_writers hardswap gen desired p;
               p = (if hardswap then promote_warm_generation_to_active gen p else p)
           in if stale = [] then (if hardswap then clear_pending_hardswap_state p else p)
              else let p = fold (\<lambda>i. mark_writer_draining_with_timeout E i (force_close_timeout p) (\<not> hardswap)) stale (bump PoolSwap p)
                in if hardswap then clear_pending_hardswap_state p else p)"

text \<open>The part before the snapshot.\<close>

definition reinit_prepare :: "pool_env \<Rightarrow> (hash_token list \<Rightarrow> u64) \<Rightarrow> (nat \<Rightarrow> me_pool \<Rightarrow> me_pool) \<Rightarrow> dc_endpoints \<Rightarrow> me_pool \<Rightarrow> u64 \<times> me_pool" where
  "reinit_prepare E H I desired p =
     (case reinit_generation E H desired p of (gen, q) \<Rightarrow>
        (gen, if rp_hardswap (mp_policy p) then snd (warmup_generation_for_all_dcs E I gen desired (0, q\<lparr>mp_warm_generation := gen\<rparr>))
              else reconcile_connections E q))"

definition zero_downtime_reinit_after_map_change :: "pool_env \<Rightarrow> 'f float_ops \<Rightarrow> (hash_token list \<Rightarrow> u64) \<Rightarrow> (nat \<Rightarrow> me_pool \<Rightarrow> me_pool) \<Rightarrow> me_pool \<Rightarrow> me_pool" where
  "zero_downtime_reinit_after_map_change E F H I p =
     (let desired = desired_dc_endpoints p in
      if desired = [] then p
      else case reinit_prepare E H I desired p of (gen, q) \<Rightarrow> reinit_finish E F (rp_hardswap (mp_policy p)) gen desired q)"

subsection \<open>Maps and secret\<close>

datatype snapshot_apply_outcome = AppliedChanged | AppliedNoDelta | RejectedEmpty

text \<open>Equality of hash maps, and the entries of negative datacenters, which mirror those of positive ones that have none.\<close>

definition same_map :: "proxy_map \<Rightarrow> proxy_map \<Rightarrow> bool" where
  "same_map m m' \<longleftrightarrow> list_all (\<lambda>(k, _). map_of m k = map_of m' k) (m @ m')"

definition mirror_negative :: "proxy_map \<Rightarrow> proxy_map" where
  "mirror_negative m =
     fold (\<lambda>k m. if map_of m (- k) = None then (case map_of m k of Some addrs \<Rightarrow> m @ [(- k, addrs)] | None \<Rightarrow> m) else m) (filter (\<lambda>k. 0 < k) (map fst m)) m"

definition update_proxy_maps :: "proxy_map \<Rightarrow> proxy_map option \<Rightarrow> me_pool \<Rightarrow> snapshot_apply_outcome \<times> me_pool" where
  "update_proxy_maps new_v4 new_v6 p =
     (if new_v4 = [] \<and> (case new_v6 of None \<Rightarrow> True | Some m \<Rightarrow> m = []) then (RejectedEmpty, p)
      else
        let changed4 = (new_v4 \<noteq> [] \<and> \<not> same_map (mp_map_v4 p) new_v4);
            changed6 = (case new_v6 of None \<Rightarrow> False | Some m \<Rightarrow> m \<noteq> [] \<and> \<not> same_map (mp_map_v6 p) m);
            p = (if changed4 then p\<lparr>mp_map_v4 := new_v4\<rparr> else p);
            p = (if changed6 then p\<lparr>mp_map_v6 := the new_v6\<rparr> else p);
            p = p\<lparr>mp_map_v4 := mirror_negative (mp_map_v4 p), mp_map_v6 := mirror_negative (mp_map_v6 p)\<rparr>
        in (if changed4 \<or> changed6 then AppliedChanged else AppliedNoDelta, p))"

text \<open>A connection for every writer, which is then drained; a sleep follows each.\<close>

fun reconnect_each :: "pool_env \<Rightarrow> (nat \<Rightarrow> me_pool \<Rightarrow> me_pool) \<Rightarrow> me_writer list \<Rightarrow> nat \<Rightarrow> me_pool \<Rightarrow> me_pool" where
  "reconnect_each E I [] n p = p"
| "reconnect_each E I (w # ws) n p =
     (case connect_one E (mw_addr w) p of
        (Inr _, p) \<Rightarrow> reconnect_each E I ws (Suc n) (I n (mark_writer_draining E (mw_id w) p))
      | (Inl _, p) \<Rightarrow> reconnect_each E I ws n p)"

definition reconnect_all :: "pool_env \<Rightarrow> (nat \<Rightarrow> me_pool \<Rightarrow> me_pool) \<Rightarrow> me_pool \<Rightarrow> me_pool" where
  "reconnect_all E I p = reconnect_each E I (mp_writers p) 0 p"

definition update_secret :: "pool_env \<Rightarrow> (nat \<Rightarrow> me_pool \<Rightarrow> me_pool) \<Rightarrow> bytes \<Rightarrow> me_pool \<Rightarrow> bool \<times> me_pool" where
  "update_secret E I new_secret p =
     (if length new_secret < 32 then (False, p)
      else if ss_secret (mp_secret p) = new_secret then (False, p)
      else (True, reconnect_all E I
        (p\<lparr>mp_secret := \<lparr>ss_epoch = saturate (unat (ss_epoch (mp_secret p)) + 1), ss_key_selector = key_selector_of new_secret, ss_secret = new_secret\<rparr>\<rparr>)))"

subsection \<open>Draining leaves the others alone\<close>

lemma length_filter_mono: "(\<And>x. x \<in> set xs \<Longrightarrow> P x \<Longrightarrow> Q x) \<Longrightarrow> length (filter P xs) \<le> length (filter Q xs)"
  by (induction xs) (simp_all add: le_SucI)

text \<open>What marking writers as draining does to the list of writers: each keeps its id, address and generation, and one that is not marked is as it was.\<close>

definition only_marks :: "u64 list \<Rightarrow> me_writer list \<Rightarrow> (me_writer \<Rightarrow> me_writer) \<Rightarrow> bool" where
  "only_marks ids ws g \<longleftrightarrow> (\<forall>w \<in> set ws. mw_id (g w) = mw_id w \<and> mw_addr (g w) = mw_addr w \<and> mw_generation (g w) = mw_generation w \<and> (mw_id w \<notin> set ids \<longrightarrow> g w = w))"

lemma mark_one:
  assumes "distinct (map mw_id (mp_writers p))"
  shows "\<exists>g. mp_writers (mark_writer_draining_with_timeout E i t fb p) = map g (mp_writers p) \<and> only_marks [i] (mp_writers p) g"
proof (cases "find_writer i p")
  case None
  then show ?thesis by (intro exI [of _ id]) (simp add: mark_writer_draining_with_timeout_def only_marks_def)
next
  case (Some w)
  let ?f = "\<lambda>w. w\<lparr>mw_allow_drain_fallback := fb, mw_draining_started_at_epoch_secs := pe_epoch E (mp_clock p),
      mw_contour := contour_as_u8 Draining, mw_draining := True\<rparr>"
  have "mp_writers (mark_writer_draining_with_timeout E i t fb p) = on_writer i ?f (mp_writers p)"
    using Some by (simp add: mark_writer_draining_with_timeout_def Let_def)
  also have "\<dots> = map (\<lambda>w. if mw_id w = i then ?f w else w) (mp_writers p)" by (rule on_writer_map [OF assms])
  finally show ?thesis by (intro exI [of _ "\<lambda>w. if mw_id w = i then ?f w else w"]) (simp add: only_marks_def)
qed

lemma mark_all:
  "distinct (map mw_id (mp_writers p)) \<Longrightarrow>
   \<exists>g. mp_writers (fold (\<lambda>i. mark_writer_draining_with_timeout E i t fb) ids p) = map g (mp_writers p) \<and> only_marks ids (mp_writers p) g"
proof (induction ids arbitrary: p)
  case Nil
  show ?case by (intro exI [of _ id]) (simp add: only_marks_def)
next
  case (Cons i ids)
  let ?q = "mark_writer_draining_with_timeout E i t fb p"
  obtain g where g: "mp_writers ?q = map g (mp_writers p)" "only_marks [i] (mp_writers p) g" using mark_one [OF Cons.prems] by blast
  have "map mw_id (mp_writers ?q) = map mw_id (mp_writers p)" using g by (simp add: only_marks_def)
  then obtain h where h: "mp_writers (fold (\<lambda>i. mark_writer_draining_with_timeout E i t fb) ids ?q) = map h (mp_writers ?q)" "only_marks ids (mp_writers ?q) h"
    using Cons by metis
  show ?case using g h by (intro exI [of _ "h \<circ> g"]) (auto simp: only_marks_def)
qed

lemma mark_all_generation: "mp_active_generation (fold (\<lambda>i. mark_writer_draining_with_timeout E i t fb) ids p) = mp_active_generation p"
  by (induction ids arbitrary: p) (simp_all add: mark_writer_draining_with_timeout_def Let_def split: option.split)

lemma only_marks_others:
  assumes "only_marks (stale_writers hardswap gen desired q) ws g" "distinct (map mw_id ws)" "w \<in> set ws"
    and "map mw_id ws = map mw_id (mp_writers q)" "\<And>v. v \<in> set (mp_writers q) \<Longrightarrow> mw_id v = mw_id w \<Longrightarrow>
      mw_draining v \<or> \<not> (if hardswap then mw_generation v < gen else mw_addr v \<notin> set (concat (map snd desired)))"
  shows "g w = w"
  using assms unfolding only_marks_def stale_writers_def by fastforce

lemma clear_pending_writers [simp]:
  "mp_writers (clear_pending_hardswap_state p) = mp_writers p" "mp_active_generation (clear_pending_hardswap_state p) = mp_active_generation p"
  by (simp_all add: clear_pending_hardswap_state_def)

subsection \<open>A reinitialization never drains a datacenter dry\<close>

lemma same_id: "distinct (map mw_id ws) \<Longrightarrow> v \<in> set ws \<Longrightarrow> w \<in> set ws \<Longrightarrow> mw_id v = mw_id w \<Longrightarrow> v = w"
  by (auto simp: distinct_map inj_on_def)

definition all_covered :: "bool \<Rightarrow> u64 \<Rightarrow> dc_endpoints \<Rightarrow> me_pool \<Rightarrow> bool" where
  "all_covered hardswap gen desired q \<longleftrightarrow>
     (if hardswap then missing_fresh gen desired q = []
      else \<forall>(dc, endpoints) \<in> set desired. endpoints \<noteq> [] \<longrightarrow> (\<exists>w \<in> set (mp_writers q). \<not> mw_draining w \<and> mw_addr w \<in> set endpoints))"

lemma reinit_finish_uncovered: "\<not> all_covered hardswap gen desired q \<Longrightarrow> reinit_finish E F hardswap gen desired q = q"
proof -
  assume n: "\<not> all_covered hardswap gen desired q"
  let ?active = "map mw_addr (filter (\<lambda>w. \<not> mw_draining w) (mp_writers q))"
  have "snd (coverage_ratio F desired ?active) \<noteq> []" if h: "\<not> hardswap"
  proof -
    obtain dc eps where e: "(dc, eps) \<in> set desired" "eps \<noteq> []" "\<not> list_ex (\<lambda>a. a \<in> set ?active) eps"
      using n h unfolding all_covered_def list_ex_iff by auto
    then have "dc \<in> set (snd (coverage_ratio F desired ?active))" unfolding coverage_ratio_def Let_def by (force simp: list_ex_iff)
    then show ?thesis by auto
  qed
  then have c: "hardswap \<or> snd (coverage_ratio F desired ?active) \<noteq> []" by blast
  obtain r ms where "coverage_ratio F desired ?active = (r, ms)" by fastforce
  with c n show ?thesis by (cases hardswap) (simp_all add: reinit_finish_def all_covered_def)
qed

lemma reinit_finish_writers:
  fixes E F hardswap gen desired q
  defines "prom \<equiv> \<lambda>w. if hardswap \<and> \<not> mw_draining w \<and> mw_generation w = gen then w\<lparr>mw_contour := contour_as_u8 Active\<rparr> else w"
  assumes "distinct (map mw_id (mp_writers q))" "reinit_finish E F hardswap gen desired q \<noteq> q"
  shows "\<exists>g. mp_writers (reinit_finish E F hardswap gen desired q) = map g (map prom (mp_writers q)) \<and>
      only_marks (stale_writers hardswap gen desired q) (map prom (mp_writers q)) g"
    and "hardswap \<Longrightarrow> mp_active_generation (reinit_finish E F hardswap gen desired q) = gen"
proof -
  let ?p = "if hardswap then promote_warm_generation_to_active gen q else q"
  let ?stale = "stale_writers hardswap gen desired q"
  let ?m = "fold (\<lambda>i. mark_writer_draining_with_timeout E i (force_close_timeout ?p) (\<not> hardswap)) ?stale (bump PoolSwap ?p)"
  have ws: "mp_writers (bump PoolSwap ?p) = map prom (mp_writers q)" "mp_writers ?p = map prom (mp_writers q)"
    by (simp_all add: promote_warm_generation_to_active_def prom_def)
  have ids: "map mw_id (map prom (mp_writers q)) = map mw_id (mp_writers q)" by (simp add: prom_def)
  have r: "reinit_finish E F hardswap gen desired q =
      (if ?stale = [] then (if hardswap then clear_pending_hardswap_state ?p else ?p) else (if hardswap then clear_pending_hardswap_state ?m else ?m))"
    using assms(3) unfolding reinit_finish_def Let_def by (auto split: prod.splits if_splits)
  have "distinct (map mw_id (mp_writers (bump PoolSwap ?p)))" unfolding ws ids by (rule assms(2))
  then obtain g where g: "mp_writers ?m = map g (map prom (mp_writers q))" "only_marks ?stale (map prom (mp_writers q)) g"
    using mark_all [of "bump PoolSwap ?p" E "force_close_timeout ?p" "\<not> hardswap" ?stale] unfolding ws by blast
  show "\<exists>g. mp_writers (reinit_finish E F hardswap gen desired q) = map g (map prom (mp_writers q)) \<and>
      only_marks ?stale (map prom (mp_writers q)) g"
  proof (cases "?stale = []")
    case True
    then have "mp_writers (reinit_finish E F hardswap gen desired q) = map id (map prom (mp_writers q))"
      using ws(2) unfolding r by (cases hardswap) simp_all
    then show ?thesis by (intro exI [of _ id]) (simp only: only_marks_def id_apply simp_thms ball_triv)
  next
    case False
    then show ?thesis using g unfolding r by (intro exI [of _ g]) (cases hardswap, simp_all)
  qed
  show "hardswap \<Longrightarrow> mp_active_generation (reinit_finish E F hardswap gen desired q) = gen"
    unfolding r by (simp add: mark_all_generation promote_warm_generation_to_active_def)
qed

lemma next_generation_keeps: "keeps p (snd (next_generation p))"
  unfolding next_generation_def snd_conv by (rule keepsI) (simp_all add: same_core_def same_claims_def)

lemma clear_pending_keeps: "keeps p (clear_pending_hardswap_state p)"
  unfolding clear_pending_hardswap_state_def by (rule keepsI) (simp_all add: same_core_def same_claims_def)

lemma reinit_generation_keeps: "keeps p (snd (reinit_generation E H desired p))"
proof -
  have pend: "keeps p (p\<lparr>mp_generation := g, mp_pending_generation := g, mp_pending_started_at := t, mp_pending_map_hash := h, mp_warm_generation := g\<rparr>)" for p g t h
    by (rule keepsI) (simp_all add: same_core_def same_claims_def)
  show ?thesis
    using keeps_trans [OF clear_pending_keeps next_generation_keeps] keeps_trans [OF bump_keeps pend] pend bump_keeps
    by (auto simp: reinit_generation_def next_generation_def Let_def)
qed

lemma warm_attempts_keeps:
  assumes "\<And>n p. keeps p (I n p)"
  shows "keeps (snd s) (snd (warm_attempts E I endpoints gen k s))"
proof (induction k arbitrary: s)
  case (Suc k)
  obtain n p where s: "s = (n, p)" by fastforce
  have "keeps p (I n p)" by (rule assms)
  also have "keeps (I n p) (snd (connect_endpoints_round_robin_with_generation_contour E endpoints gen Warm (I n p)))"
    using round_robin_quiet by (simp add: quiet_def)
  also note Suc.IH [of "(Suc n, snd (connect_endpoints_round_robin_with_generation_contour E endpoints gen Warm (I n p)))", unfolded snd_conv]
  finally show ?case by (simp add: s)
qed simp

lemma warm_passes_keeps:
  assumes "\<And>n p. keeps p (I n p)"
  shows "keeps (snd s) (snd (warm_passes E I endpoints gen required k last_fresh s))"
proof (induction k arbitrary: s last_fresh)
  case (Suc k)
  obtain n p where a: "warm_attempts E I endpoints gen (required - last_fresh) s = (n, p)" by fastforce
  have k: "keeps (snd s) p" using warm_attempts_keeps [where I = I and s = s, OF assms] a by (metis snd_conv)
  have "keeps p (I n p)" by (rule assms)
  also note Suc.IH [of "(Suc n, I n p)", unfolded snd_conv]
  finally show ?case using k keeps_trans [OF k] by (simp add: a Let_def)
qed simp

lemma warm_dcs_keeps:
  assumes "\<And>n p. keeps p (I n p)"
  shows "keeps (snd s) (snd (warm_dcs E I gen passes es s))"
proof (induction es arbitrary: s)
  case (Cons e es)
  obtain dc eps where e: "e = (dc, eps)" by fastforce
  show ?case using Cons.IH keeps_trans [OF warm_passes_keeps [where I = I, OF assms] Cons.IH] by (simp add: e)
qed simp

lemma reconcile_dcs_keeps: "keeps p (reconcile_dcs E current m p)"
proof (induction m arbitrary: p)
  case (Cons e m)
  obtain dc addrs where e: "e = (dc, addrs)" by fastforce
  have "keeps p (snd (connect_first E g c as p))" for g c as using connect_first_quiet by (simp add: quiet_def)
  from keeps_trans [OF this Cons.IH] show ?case using Cons.IH by (simp add: e)
qed simp

lemma reconcile_keeps: "keeps p (reconcile_connections E p)"
proof -
  have "keeps p (reconcile_families E current fs p)" for current fs
  proof (induction fs arbitrary: p)
    case (Cons f fs)
    show ?case using keeps_trans [OF reconcile_dcs_keeps Cons.IH] reconcile_dcs_keeps by (simp add: Let_def)
  qed simp
  then show ?thesis by (simp add: reconcile_connections_def)
qed

lemma reinit_prepare_keeps:
  assumes "\<And>n p. keeps p (I n p)"
  shows "keeps p (snd (reinit_prepare E H I desired p))"
proof -
  obtain gen q where g: "reinit_generation E H desired p = (gen, q)" by fastforce
  have k: "keeps p q" using reinit_generation_keeps [of p E H desired] g by simp
  have w: "keeps q (q\<lparr>mp_warm_generation := gen\<rparr>)" by (rule keepsI) (simp_all add: same_core_def same_claims_def)
  have "keeps (q\<lparr>mp_warm_generation := gen\<rparr>) (snd (warmup_generation_for_all_dcs E I gen desired (0, q\<lparr>mp_warm_generation := gen\<rparr>)))"
    unfolding warmup_generation_for_all_dcs_def using warm_dcs_keeps [where I = I and s = "(0, q\<lparr>mp_warm_generation := gen\<rparr>)", OF assms] by simp
  then show ?thesis
    using keeps_trans [OF keeps_trans [OF k w]] keeps_trans [OF k reconcile_keeps] by (simp add: reinit_prepare_def g)
qed

lemma promote_keeps: "keeps p (promote_warm_generation_to_active gen p)"
proof -
  let ?f = "\<lambda>w :: me_writer. if \<not> mw_draining w \<and> mw_generation w = gen then w\<lparr>mw_contour := contour_as_u8 Active\<rparr> else w"
  let ?q = "promote_warm_generation_to_active gen p"
  have "mw_id \<circ> ?f = mw_id" "mw_draining \<circ> ?f = mw_draining" by (simp_all add: fun_eq_iff)
  then have "writers_ok p \<Longrightarrow> writers_ok ?q"
    by (auto simp: writers_ok_def writer_ok_def promote_warm_generation_to_active_def filter_map)
  moreover have "same_claims p ?q" by (simp add: same_claims_def promote_warm_generation_to_active_def)
  ultimately show ?thesis
    using same_claims_refills_ok by (auto simp: keeps_def pool_wf_def promote_warm_generation_to_active_def)
qed

lemma reinit_finish_keeps: "keeps q (reinit_finish E F hardswap gen desired q)"
proof -
  have f: "keeps p (fold (\<lambda>i. mark_writer_draining_with_timeout E i t fb) ids (bump PoolSwap p))" for p t fb ids
    using bump_keeps keeps_fold by (rule keeps_trans) (rule mark_draining_keeps)
  show ?thesis
    using f keeps_trans [OF promote_keeps clear_pending_keeps] keeps_trans [OF keeps_trans [OF promote_keeps f] clear_pending_keeps]
    by (cases hardswap) (simp_all add: reinit_finish_def Let_def split: prod.split)
qed

lemma reinit_keeps:
  assumes "\<And>n p. keeps p (I n p)"
  shows "keeps p (zero_downtime_reinit_after_map_change E F H I p)"
proof -
  obtain gen q where g: "reinit_prepare E H I (desired_dc_endpoints p) p = (gen, q)" by fastforce
  then have "keeps p q" using reinit_prepare_keeps [where I = I and p = p and desired = "desired_dc_endpoints p", OF assms] by (metis snd_conv)
  from keeps_trans [OF this reinit_finish_keeps [of q E F "rp_hardswap (mp_policy p)" gen "desired_dc_endpoints p"]] show ?thesis by (simp add: zero_downtime_reinit_after_map_change_def Let_def g)
qed

lemma reinit_finish_safe:
  fixes E F h gen D q
  defines "p' \<equiv> reinit_finish E F h gen D q"
  assumes d: "distinct (map mw_id (mp_writers q))"
    and w: "w \<in> set (mp_writers q)" "\<not> mw_draining w" and w': "w' \<in> set (mp_writers p')" "mw_id w' = mw_id w" "mw_draining w'"
    and dc: "(dc, endpoints) \<in> set D" "endpoints \<noteq> []"
  shows "if h then mw_generation w < gen \<and> mp_active_generation p' = gen \<and>
      required_writers_for_dc (length endpoints) q
        \<le> length (filter (\<lambda>v. is_fresh gen endpoints v \<and> mw_contour v = contour_as_u8 Active) (mp_writers p'))
    else (\<forall>(d, eps) \<in> set D. mw_addr w \<notin> set eps) \<and> (\<exists>v \<in> set (mp_writers p'). \<not> mw_draining v \<and> mw_addr v \<in> set endpoints)"
proof -
  define prom :: "me_writer \<Rightarrow> me_writer" where
    "prom \<equiv> \<lambda>w. if h \<and> \<not> mw_draining w \<and> mw_generation w = gen then w\<lparr>mw_contour := contour_as_u8 Active\<rparr> else w"
  let ?stale = "\<lambda>v. if h then mw_generation v < gen else mw_addr v \<notin> set (concat (map snd D))"
  have ne: "reinit_finish E F h gen D q \<noteq> q" using w w' same_id [OF d] unfolding p'_def by metis
  then have cov: "all_covered h gen D q" using reinit_finish_uncovered by blast
  obtain g where g: "mp_writers p' = map g (map prom (mp_writers q))" "only_marks (stale_writers h gen D q) (map prom (mp_writers q)) g"
    using reinit_finish_writers(1) [OF d ne] unfolding p'_def prom_def by blast
  have same [simp]: "mw_id (prom v) = mw_id v" "mw_addr (prom v) = mw_addr v" "mw_draining (prom v) = mw_draining v" "mw_generation (prom v) = mw_generation v" for v
    by (simp_all add: prom_def)
  have stay: "g (prom v) = prom v" if "v \<in> set (mp_writers q)" "mw_draining v \<or> \<not> ?stale v" for v
    using g(2) that same_id [OF d] unfolding only_marks_def stale_writers_def by auto
  obtain v where v: "v \<in> set (mp_writers q)" "w' = g (prom v)" using w' g(1) by auto
  then have "v = w" using g(2) w w' same_id [OF d, of v w] unfolding only_marks_def by simp
  then have stale: "?stale w" using stay [of w] v w w'(3) same(3) [of w] by metis
  show ?thesis
  proof (cases h)
    case True
    have gen: "mp_active_generation p' = gen" unfolding p'_def by (rule reinit_finish_writers(2) [OF d ne True])
    have "required_writers_for_dc (length endpoints) q \<le> length (filter (is_fresh gen endpoints) (mp_writers q))"
      using cov dc True by (auto simp: all_covered_def missing_fresh_def filter_empty_conv fresh_writer_count_for_endpoints_def not_less)
    also have "\<dots> \<le> length (filter (\<lambda>v. is_fresh gen endpoints (g (prom v)) \<and> mw_contour (g (prom v)) = contour_as_u8 Active) (mp_writers q))"
    proof (rule length_filter_mono)
      fix v assume v: "v \<in> set (mp_writers q)" "is_fresh gen endpoints v"
      then have "g (prom v) = prom v" using stay True by (simp add: is_fresh_def)
      then show "is_fresh gen endpoints (g (prom v)) \<and> mw_contour (g (prom v)) = contour_as_u8 Active"
        using v True by (simp add: is_fresh_def) (simp add: prom_def)
    qed
    finally show ?thesis using True stale gen by (simp add: g(1) filter_map o_def)
  next
    case False
    then obtain v where v: "v \<in> set (mp_writers q)" "\<not> mw_draining v" "mw_addr v \<in> set endpoints" using cov dc by (auto simp: all_covered_def)
    then have "g (prom v) = prom v" using stay False dc by force
    then have "\<exists>v \<in> set (mp_writers p'). \<not> mw_draining v \<and> mw_addr v \<in> set endpoints"
      using v g(1) by (metis imageI list.set_map same(2,3))
    then show ?thesis using False stale by auto
  qed
qed

subsection \<open>Properties\<close>

text \<open>C10: A reinitialization of the pool after a change of the maps is without downtime. If it begins to drain any writer, that writer was out of date
  (of an earlier generation, or on an address that is in no map any more) and, in a hard swap, every datacenter of the maps is left with as many writers of the new
  generation as the floor requires, none of them draining and all of them active, and that generation is the active one; otherwise, with a writer that is not draining. What other tasks do
  to the pool while the reinitialization sleeps is arbitrary, but keeps the pool well-formed.\<close>

theorem reinit_without_downtime:
  fixes E F H I p
  defines "p' \<equiv> zero_downtime_reinit_after_map_change E F H I p"
  assumes "pool_wf p" "\<And>n p. keeps p (I n p)"
    and prep: "reinit_prepare E H I (desired_dc_endpoints p) p = (gen, q)" and "Suc (mp_clock q) < 2 ^ 64"
    and w: "w \<in> set (mp_writers q)" "\<not> mw_draining w" and w': "w' \<in> set (mp_writers p')" "mw_id w' = mw_id w" "mw_draining w'"
    and dc: "(dc, endpoints) \<in> set (desired_dc_endpoints p)" "endpoints \<noteq> []"
  shows "if rp_hardswap (mp_policy p)
    then mw_generation w < gen \<and> mp_active_generation p' = gen \<and>
      required_writers_for_dc (length endpoints) q
        \<le> length (filter (\<lambda>v. is_fresh gen endpoints v \<and> mw_contour v = contour_as_u8 Active) (mp_writers p'))
    else (\<forall>(d, eps) \<in> set (desired_dc_endpoints p). mw_addr w \<notin> set eps) \<and>
      (\<exists>v \<in> set (mp_writers p'). \<not> mw_draining v \<and> mw_addr v \<in> set endpoints)"
proof -
  have f: "p' = reinit_finish E F (rp_hardswap (mp_policy p)) gen (desired_dc_endpoints p) q"
    using dc(1) by (auto simp: p'_def zero_downtime_reinit_after_map_change_def Let_def prep)
  have "pool_wf q"
    using reinit_prepare_keeps [where I = I and p = p and desired = "desired_dc_endpoints p", OF assms(3)] assms(2,5) prep unfolding keeps_def by (metis snd_conv)
  then have "distinct (map mw_id (mp_writers q))" by (simp add: pool_wf_def writers_ok_def)
  from reinit_finish_safe [OF this w w' [unfolded f] dc] show ?thesis unfolding f .
qed


definition demo_state :: "nat \<Rightarrow> me_pool \<Rightarrow> bool" where
  "demo_state n p \<longleftrightarrow> mp_quarantine p = Map.empty \<and> length (ss_secret (mp_secret p)) = 32 \<and> mp_policy p = demo_policy \<and> mp_next_writer_id p = word_of_nat (Suc n) \<and>
     mp_clock p = n \<and> mp_writers p = demo_writer #
       map (\<lambda>k. demo_writer\<lparr>mw_id := word_of_nat (Suc k), mw_generation := 2, mw_contour := 0, mw_created_at := k\<rparr>) [1 ..< n]"

lemma demo_step:
  assumes "demo_state n p" "0 < n"
  shows "demo_state (Suc n) (snd (connect_endpoints_round_robin_with_generation_contour demo_pool_env [SocketAddr (IpV4 0x01020304) 8888] 2 Warm p))"
  using assms
  by (simp add: demo_state_def connect_endpoints_round_robin_with_generation_contour_def connectable_endpoints_def retain_quarantined_def rotate_from_def
      connect_one_with_generation_contour_def demo_pool_env_def Let_def demo_writer_def add.commute)

lemma demo_desired: "desired_dc_endpoints demo_connected = [(2, [SocketAddr (IpV4 0x01020304) 8888])]"
  by (simp add: desired_dc_endpoints_def demo_connected_def connect_one_def connect_one_with_generation_contour_def demo_pool_def me_pool_new_def demo_pool_env_def Let_def
      add_map_def endpoints_of_def)

lemma demo_start:
  "\<exists>q. reinit_generation demo_pool_env (\<lambda>_. 5) (desired_dc_endpoints demo_connected) demo_connected = (2, q) \<and> demo_state 1 (q\<lparr>mp_warm_generation := 2\<rparr>)"
  by (simp add: reinit_generation_def next_generation_def Let_def demo_connected_def connect_one_def connect_one_with_generation_contour_def demo_pool_def me_pool_new_def
      demo_pool_env_def demo_state_def demo_writer_def demo_policy_def current_generation_def)

lemma demo_prepared:
  "\<exists>q. reinit_prepare demo_pool_env (\<lambda>_. 5) (\<lambda>n p. p) (desired_dc_endpoints demo_connected) demo_connected = (2, q) \<and> demo_state 4 q"
proof -
  obtain q where q: "reinit_generation demo_pool_env (\<lambda>_. 5) (desired_dc_endpoints demo_connected) demo_connected = (2, q)" "demo_state 1 (q\<lparr>mp_warm_generation := 2\<rparr>)"
    using demo_start by blast
  let ?as = "[SocketAddr (IpV4 0x01020304) 8888]" and ?q = "q\<lparr>mp_warm_generation := 2\<rparr>"
  let ?f = "\<lambda>p. snd (connect_endpoints_round_robin_with_generation_contour demo_pool_env ?as 2 Warm p)"
  have 4: "demo_state 4 (?f (?f (?f ?q)))"
    using demo_step [OF demo_step [OF demo_step [OF q(2)]]] by (simp add: numeral_eq_Suc)
  have fresh: "fresh_writer_count_for_endpoints 2 ?as ?q = 0" "required_writers_for_dc 1 ?q = 3" "fresh_writer_count_for_endpoints 2 ?as (?f (?f (?f ?q))) = 3"
    using q(2) 4 by (simp_all add: fresh_writer_count_for_endpoints_def demo_state_def is_fresh_def demo_writer_def required_writers_for_dc_def demo_policy_def upt_rec)
  have "warm_attempts demo_pool_env (\<lambda>n p. p) ?as 2 3 (0, ?q) = (3, ?f (?f (?f ?q)))" by (simp add: numeral_3_eq_3)
  then have "warm_passes demo_pool_env (\<lambda>n p. p) ?as 2 3 k 0 (0, ?q) = (3, ?f (?f (?f ?q)))" if "0 < k" for k
    using fresh(3) that by (cases k) simp_all
  then show ?thesis using 4 fresh
    by (simp add: reinit_prepare_def q(1) [unfolded demo_desired] demo_connected_fields demo_policy_def warmup_generation_for_all_dcs_def demo_desired sort_key_def del: warm_passes.simps)
qed

lemma demo_finish:
  assumes "demo_state 4 q"
  shows "\<exists>w' \<in> set (mp_writers (reinit_finish demo_pool_env F True 2 [(2, [SocketAddr (IpV4 0x01020304) 8888])] q)). mw_id w' = mw_id demo_writer \<and> mw_draining w'"
proof -
  have ws: "mp_writers q = demo_writer # map (\<lambda>k. demo_writer\<lparr>mw_id := word_of_nat (Suc k), mw_generation := 2, mw_contour := 0, mw_created_at := k\<rparr>) [1, 2, 3]"
    using assms by (simp add: demo_state_def upt_rec)
  have "missing_fresh 2 [(2, [SocketAddr (IpV4 0x01020304) 8888])] q = []" "stale_writers True 2 [(2, [SocketAddr (IpV4 0x01020304) 8888])] q = [1]"
    using assms by (simp_all add: missing_fresh_def fresh_writer_count_for_endpoints_def required_writers_for_dc_def stale_writers_def ws is_fresh_def demo_writer_def
        demo_state_def demo_policy_def)
  then show ?thesis
    by (simp add: reinit_finish_def Let_def split: prod.split)
      (simp add: mark_writer_draining_with_timeout_def find_writer_def promote_warm_generation_to_active_def ws on_writer_def demo_writer_def Let_def)
qed

theorem reinit_without_downtime_witness:
  "3 \<le> length (filter (\<lambda>v. is_fresh 2 [SocketAddr (IpV4 0x01020304) 8888] v \<and> mw_contour v = contour_as_u8 Active)
    (mp_writers (zero_downtime_reinit_after_map_change demo_pool_env int_ops (\<lambda>_. 5) (\<lambda>n p. p) demo_connected)))"
proof -
  obtain q where q: "reinit_prepare demo_pool_env (\<lambda>_. 5) (\<lambda>n p. p) (desired_dc_endpoints demo_connected) demo_connected = (2, q)" "demo_state 4 q"
    using demo_prepared by blast
  let ?p' = "zero_downtime_reinit_after_map_change demo_pool_env int_ops (\<lambda>_. 5) (\<lambda>n p. p) demo_connected"
  have w: "demo_writer \<in> set (mp_writers q)" "\<not> mw_draining demo_writer" "Suc (mp_clock q) < 2 ^ 64"
    using q(2) by (simp_all add: demo_state_def demo_writer_def)
  have "\<exists>w' \<in> set (mp_writers ?p'). mw_id w' = mw_id demo_writer \<and> mw_draining w'"
    using demo_finish [OF q(2)] by (simp add: zero_downtime_reinit_after_map_change_def q(1) [unfolded demo_desired] demo_desired demo_connected_fields demo_policy_def)
  then obtain w' where w': "w' \<in> set (mp_writers ?p')" "mw_id w' = mw_id demo_writer" "mw_draining w'" by blast
  have "required_writers_for_dc 1 q = 3" using q(2) by (simp add: demo_state_def required_writers_for_dc_def demo_policy_def)
  then show ?thesis
    using reinit_without_downtime [OF demo_pool_wf _ q(1) w(3,1,2) w', of 2 "[SocketAddr (IpV4 0x01020304) 8888]"]
    by (simp add: demo_desired demo_connected_fields demo_policy_def)
qed

end
