(* ===== verification/Me_Steps.thy ===== *)
theory Me_Steps
  imports Me_Send Me_Reinit
begin

section \<open>The pool under all of its tasks\<close>

text \<open>
  Every task of the program works on one pool: clients register, send and close, readers route answers, writers take commands from their channels, monitors drain and
  remove writers, refills and reinitializations connect new ones, and the configuration changes. The relation \<open>pool_run\<close> has a rule for each of
  these, and what happens during the waits of an operation is again a run. The invariant of the pool is that of \<open>Me_Pool\<close>. The reader task of a writer
  removes its writer from the list once more at its very end; the step is not a rule, as it changes nothing when the writer has been removed by then.
\<close>

subsection \<open>Requests keep pools well-formed\<close>

lemma channel_keeps:
  assumes "mp_channels p i = Some ch"
  shows "keeps p (p\<lparr>mp_channels := (mp_channels p)(i \<mapsto> ch')\<rparr>)"
proof -
  let ?q = "p\<lparr>mp_channels := (mp_channels p)(i \<mapsto> ch')\<rparr>"
  have "writers_ok p \<Longrightarrow> writers_ok ?q" by (auto simp: writers_ok_def writer_ok_def)
  moreover have "refills_ok ?q = refills_ok p" by (rule same_claims_refills_ok) (simp add: same_claims_def)
  ultimately show ?thesis by (simp add: keeps_def pool_wf_def)
qed

lemma push_keeps: "keeps p (push_command i cmd p)"
  using channel_keeps by (auto simp: push_command_def split: option.split)

lemma bind_keeps: "keeps p (bind_to q w p)"
proof -
  have "keeps p (p\<lparr>mp_registry := reg_bind_writer (sq_conn_id q) (mw_id w) (mw_id w) (sq_meta q) (mp_registry p)\<rparr>)"
    by (rule registry_keeps) (rule reg_wf_bind)
  from this keeps_trans [OF this bump_keeps] show ?thesis by (simp add: bind_to_def Let_def)
qed

lemma blocking_keeps: "blocking_send i cmd p = Some (ok, p') \<Longrightarrow> keeps p p'"
  using push_keeps by (auto simp: blocking_send_def split: send_outcome.splits)

lemma try_candidates_keeps: "keeps p (snd (snd (try_candidates E q ws fb p)))"
proof (induction ws arbitrary: fb p)
  case (Cons w ws)
  show ?case
    using Cons.IH keeps_trans [OF push_keeps bind_keeps] keeps_trans [OF remove_and_close_keeps Cons.IH]
    by (simp split: send_outcome.split)
qed simp

lemma recover_keeps: "keeps p (recover_writers E p)"
proof -
  have "keeps p (recover_dcs E m p)" for m p
  proof (induction m arbitrary: p)
    case (Cons e m)
    obtain dc addrs where e: "e = (dc, addrs)" by fastforce
    have "keeps p (snd (connect_first E (current_generation p) Active (endpoints_of addrs) p))" using connect_first_quiet by (simp add: quiet_def)
    from keeps_trans [OF this Cons.IH] show ?case by (simp add: e)
  qed simp
  then show ?thesis unfolding recover_writers_def by (intro keeps_fold)
qed

lemma emergency_keeps:
  assumes "\<And>n p. keeps p (I n p)"
  shows "keeps p (snd (snd (emergency E I dc families n p)))"
proof (induction families arbitrary: n p)
  case (Cons f fs)
  show ?case
  proof (cases "map_of (proxy_map_for_family f p) dc")
    case (Some addrs)
    let ?p = "snd (connect_first E (current_generation p) Active (pe_shuffle E (mp_clock p) (endpoints_of addrs)) p)"
    have "keeps p ?p" using connect_first_quiet by (simp add: quiet_def)
    from keeps_trans [OF this assms] have k: "keeps p (I n ?p)" .
    from k keeps_trans [OF k Cons.IH] show ?thesis using Some by (simp add: Let_def)
  qed (use Cons.IH in simp)
qed simp

lemma send_to_candidates_keeps:
  assumes "\<And>n p. keeps p (I n p)" "send_to_candidates E I q snapshot cs n p = Some (r, n', p')"
  shows "keeps p p'"
proof -
  let ?p = "p\<lparr>mp_rr := mp_rr p + 1\<rparr>"
  let ?ws = "map ((!) snapshot) (rotate_from (unat (mp_rr p) mod length (sort_candidates p snapshot cs)) (sort_candidates p snapshot cs))"
  obtain b fb t where t: "try_candidates E q ?ws None ?p = (b, fb, t)" by (rule prod_cases3)
  have "keeps p ?p" by (rule keepsI) (simp_all add: same_core_def same_claims_def)
  also have "keeps ?p t" using try_candidates_keeps [of ?p E q ?ws None] by (simp add: t)
  finally have T: "keeps p t" .
  have wait: "keeps p u" if "blocking_send i cmd (I n t) = Some (ok, u)" for i cmd ok u
    using keeps_trans [OF keeps_trans [OF T assms(1)] blocking_keeps [OF that]] .
  show ?thesis
    using assms(2) T keeps_trans [OF wait bind_keeps] keeps_trans [OF wait remove_and_close_keeps]
    unfolding send_to_candidates_def Let_def t by (auto split: option.splits bool.splits if_splits)
qed

lemma send_bound_keeps:
  assumes "\<And>n p. keeps p (I n p)" "send_bound E I q cw n p = Some (r, n', p')"
  shows "keeps p p'"
proof -
  have wait: "keeps p u" if "blocking_send i cmd (I n p) = Some (ok, u)" for i cmd ok u
    using keeps_trans [OF assms(1) blocking_keeps [OF that]] .
  show ?thesis
    using assms(2) wait push_keeps remove_and_close_keeps keeps_trans [OF wait remove_and_close_keeps]
    unfolding send_bound_def by (auto split: option.splits bool.splits send_outcome.splits)
qed

lemma send_round_keeps:
  assumes "\<And>n p. keeps p (I n p)" "send_round E I notified q attempts n p = Some ((r, n', p'), attempts')"
  shows "keeps p p'"
proof (cases "reg_get_writer (sq_conn_id q) (mp_registry p)")
  case (Some cw)
  then show ?thesis using assms send_bound_keeps [OF assms(1)] by (auto simp: send_round_def)
next
  case None
  obtain res k u where e: "emergency E I (sq_target_dc q) (family_order p) n p = (res, k, u)" by (rule prod_cases3)
  have u: "keeps p u" using emergency_keeps [where I = I and p = p, OF assms(1)] e by (metis snd_conv)
  show ?thesis
    using assms(2) keeps_trans [OF recover_keeps assms(1)] recover_keeps send_to_candidates_keeps [OF assms(1)] u
      keeps_trans [OF u send_to_candidates_keeps [OF assms(1)]]
    unfolding send_round_def None by (auto simp: Let_def e split: if_splits option.splits)
qed

lemma send_loop_keeps:
  assumes "\<And>n p. keeps p (I n p)"
  shows "send_loop E I notified q fuel attempts n p = Some (res, p') \<Longrightarrow> keeps p p'"
proof (induction fuel arbitrary: attempts n p)
  case (Suc fuel)
  then obtain r n1 p1 a1 where r: "send_round E I notified q attempts n p = Some ((r, n1, p1), a1)" by (auto split: option.splits)
  have k: "keeps p p1" by (rule send_round_keeps [OF assms r])
  show ?case using Suc r k keeps_trans [OF k] by (auto split: round_result.splits)
qed simp

lemma send_close_keeps:
  assumes "\<And>p. keeps p (I p)" "send_close E I c p = Some p'"
  shows "keeps p p'"
proof -
  have un: "keeps p (p\<lparr>mp_registry := snd (reg_unregister c (mp_registry p))\<rparr>)" for p
    by (rule registry_keeps) (rule reg_wf_unregister)
  have wait: "keeps p u" if "blocking_send i cmd (I p) = Some (ok, u)" for i cmd ok u
    using keeps_trans [OF assms(1) blocking_keeps [OF that]] .
  show ?thesis
    using assms(2) un keeps_trans [OF wait un] keeps_trans [OF keeps_trans [OF wait remove_and_close_keeps] un]
    unfolding send_close_def by (auto split: option.splits bool.splits)
qed

subsection \<open>The configuration changes\<close>

lemma update_maps_keeps: "keeps p (snd (update_proxy_maps m4 m6 p))"
  by (rule keepsI) (simp_all add: update_proxy_maps_def Let_def same_core_def same_claims_def)

lemma update_policy_keeps: "keeps p (update_runtime_reinit_policy policy p)"
  by (rule keepsI) (simp_all add: update_runtime_reinit_policy_def Let_def same_core_def same_claims_def split: me_floor_mode.split)

lemma update_secret_keeps:
  assumes "\<And>n p. keeps p (I n p)"
  shows "keeps p (snd (update_secret E I new_secret p))"
proof -
  have r: "keeps p (reconnect_each E I ws n p)" for ws n p
  proof (induction ws arbitrary: n p)
    case (Cons w ws)
    obtain res q where q: "connect_one E (mw_addr w) p = (res, q)" by fastforce
    have k: "keeps p q" using connect_keeps [of p] q unfolding connect_one_def by (metis snd_conv)
    have "keeps q (mark_writer_draining E (mw_id w) q)" unfolding mark_writer_draining_def by (rule mark_draining_keeps)
    from keeps_trans [OF keeps_trans [OF k this] assms] have "keeps p (I n (mark_writer_draining E (mw_id w) q))" .
    from keeps_trans [OF this Cons.IH] keeps_trans [OF k Cons.IH] show ?case by (simp add: q split: sum.split)
  qed simp
  have "keeps p (p\<lparr>mp_secret := x\<rparr>)" for x by (rule keepsI) (simp_all add: same_core_def same_claims_def)
  from keeps_trans [OF this r] show ?thesis by (simp add: update_secret_def reconnect_all_def)
qed

subsection \<open>Runs\<close>

inductive pool_run :: "pool_env \<Rightarrow> 'f float_ops \<Rightarrow> (hash_token list \<Rightarrow> u64) \<Rightarrow> me_pool \<Rightarrow> me_pool \<Rightarrow> bool"
  for E :: pool_env and F :: "'f float_ops" and H :: "hash_token list \<Rightarrow> u64" where
  run_start: "pool_run E F H p p"
| run_then: "pool_run E F H p q \<Longrightarrow> pool_run E F H q r \<Longrightarrow> pool_run E F H p r"
| run_connect: "pool_run E F H p (snd (connect_one_with_generation_contour E addr gen contour p))"
| run_round_robin: "pool_run E F H p (snd (connect_endpoints_round_robin E endpoints p))"
| run_remove: "pool_run E F H p (snd (remove_writer_only E i p))"
| run_remove_close: "pool_run E F H p (remove_writer_and_close_clients E i p)"
| run_prune: "pool_run E F H p (prune_closed_writers E p)"
| run_mark: "pool_run E F H p (mark_writer_draining_with_timeout E i timeout fallback p)"
| run_drain: "d \<in> set (mp_drains p) \<Longrightarrow> drain_turn E now d p = (over, q) \<Longrightarrow>
    pool_run E F H p (q\<lparr>mp_drains := (if over then remove1 d (mp_drains q) else mp_drains q)\<rparr>)"
| run_refill: "i < length (mp_refills p) \<Longrightarrow> pool_run E F H p (refill_turn E i p)"
| run_writer_task: "mp_channels p i = Some ch \<Longrightarrow> pool_run E F H p (p\<lparr>mp_channels := (mp_channels p)(i \<mapsto> ch')\<rparr>)"
| run_registry: "pool_run E F H p (p\<lparr>mp_registry := reg_exec op (mp_registry p)\<rparr>)"
| run_send: "(\<And>n p. pool_run E F H p (I n p)) \<Longrightarrow> send_proxy_req E I notified fuel conn_id dc client ours data flags tag p = Some (res, q) \<Longrightarrow> pool_run E F H p q"
| run_close: "(\<And>p. pool_run E F H p (I p)) \<Longrightarrow> send_close E I conn_id p = Some q \<Longrightarrow> pool_run E F H p q"
| run_reinit: "(\<And>n p. pool_run E F H p (I n p)) \<Longrightarrow> pool_run E F H p (zero_downtime_reinit_after_map_change E F H I p)"
| run_maps: "pool_run E F H p (snd (update_proxy_maps m4 m6 p))"
| run_secret: "(\<And>n p. pool_run E F H p (I n p)) \<Longrightarrow> pool_run E F H p (snd (update_secret E I new_secret p))"
| run_policy: "pool_run E F H p (update_runtime_reinit_policy policy p)"
| run_count: "pool_run E F H p (bump c p)"

lemma run_keeps: "pool_run E F H p q \<Longrightarrow> keeps p q"
proof (induction rule: pool_run.induct)
  case (run_drain d p now over q)
  have "keeps p q" using drain_turn_keeps [of p E now d] run_drain by simp
  also have "keeps q (q\<lparr>mp_drains := x\<rparr>)" for x by (rule keepsI) (simp_all add: same_core_def same_claims_def)
  finally show ?case .
next
  case (run_round_robin p endpoints)
  then show ?case using round_robin_quiet unfolding connect_endpoints_round_robin_def quiet_def by blast
next
  case (run_send I notified fuel conn_id dc client ours data flags tag p res q)
  then show ?case using send_loop_keeps [where I = I and p = p and p' = q and res = res, OF run_send.IH] unfolding send_proxy_req_def Let_def by blast
next
  case (run_registry op p)
  show ?case by (rule registry_keeps) (rule reg_wf_exec)
qed (auto intro: keeps_trans connect_keeps remove_writer_keeps remove_and_close_keeps prune_keeps mark_draining_keeps refill_turn_keeps channel_keeps
    send_close_keeps reinit_keeps update_maps_keeps update_secret_keeps update_policy_keeps)



end
