(* ===== verification/Me_Config.thy ===== *)
theory Me_Config
  imports Me_Reinit Dns_Overrides
begin

section \<open>Where the maps and the secret come from (\<open>transport/middle_proxy/config_updater.rs\<close>, \<open>secret.rs\<close>, \<open>rotation.rs\<close>)\<close>

text \<open>
  The updater downloads the lists of middle proxies and the proxy secret and applies a download to the pool once it has seen it often enough in a row, not too
  soon after the last one. The downloads themselves (HTTP) and the hash function are parameters. Text is a list of UTF-8 bytes.
\<close>

subsection \<open>Text\<close>

text \<open>\<open>i32::from_str\<close>: an optional sign and at least one digit, without overflow.\<close>

fun parse_dec :: "nat \<Rightarrow> nat \<Rightarrow> bytes \<Rightarrow> nat option" where
  "parse_dec limit acc [] = Some acc"
| "parse_dec limit acc (b # bs) =
     (case digit_value 10 b of
        None \<Rightarrow> None
      | Some d \<Rightarrow> if acc * 10 + d \<le> limit then parse_dec limit (acc * 10 + d) bs else None)"

definition parse_i32 :: "bytes \<Rightarrow> int option" where
  "parse_i32 bs =
     (case bs of
        [] \<Rightarrow> None
      | b # r \<Rightarrow>
          let neg = (b = 0x2d); ds = (if neg \<or> b = 0x2b then r else bs) in
          if ds = [] then None
          else if neg then map_option (\<lambda>v. - int v) (parse_dec (2 ^ 31) 0 ds)
          else map_option int (parse_dec (2 ^ 31 - 1) 0 ds))"

text \<open>\<open>str::lines\<close>: a line ends at a line feed, with the carriage return before it; \<open>cur\<close> is the line being read.\<close>

definition strip_cr :: "bytes \<Rightarrow> bytes" where
  "strip_cr bs = (if bs \<noteq> [] \<and> last bs = 0x0d then butlast bs else bs)"

fun lines_from :: "bytes \<Rightarrow> bytes \<Rightarrow> bytes list" where
  "lines_from cur [] = (if cur = [] then [] else [cur])"
| "lines_from cur (b # bs) = (if b = 0x0a then strip_cr cur # lines_from [] bs else lines_from (cur @ [b]) bs)"

definition str_lines :: "bytes \<Rightarrow> bytes list" where
  "str_lines bs = lines_from [] bs"

definition strip_prefix :: "bytes \<Rightarrow> bytes \<Rightarrow> bytes option" where
  "strip_prefix pre bs = (if take (length pre) bs = pre then Some (drop (length pre) bs) else None)"

text \<open>\<open>trim_start_matches\<close> with a string takes the prefix off as often as it is there.\<close>

function trim_start_matches :: "bytes \<Rightarrow> bytes \<Rightarrow> bytes" where
  "trim_start_matches pre bs =
     (if pre = [] \<or> bs = [] then bs
      else case strip_prefix pre bs of None \<Rightarrow> bs | Some r \<Rightarrow> trim_start_matches pre r)"
  by pat_completeness auto
termination
  by (relation "measure (\<lambda>(pre, bs). length bs)") (auto simp: strip_prefix_def split: if_splits)

declare trim_start_matches.simps [simp del]

definition trim_end_semicolons :: "bytes \<Rightarrow> bytes" where
  "trim_end_semicolons bs = rev (dropWhile (\<lambda>b. b = 0x3b) (rev bs))"

subsection \<open>Proxy lists\<close>

definition parse_host_port :: "bytes \<Rightarrow> (ip_addr \<times> u16) option" where
  "parse_host_port s =
     (let plain = (case rfind_byte 0x3a s of
                     None \<Rightarrow> None
                   | Some i \<Rightarrow>
                       (case parse_ip (take i s) of
                          None \<Rightarrow> None
                        | Some ip \<Rightarrow> (case parse_u16 (drop (i + 1) s) of None \<Rightarrow> None | Some port \<Rightarrow> Some (ip, port))))
      in case rfind_byte 0x5d s of
           None \<Rightarrow> plain
         | Some bracket_end \<Rightarrow>
             if hd s = 0x5b \<and> bracket_end + 1 < length s \<and> s ! (bracket_end + 1) = 0x3a
             then (case parse_ip (subslice s 1 bracket_end) of
                     None \<Rightarrow> None
                   | Some ip \<Rightarrow> (case parse_u16 (drop (bracket_end + 2) s) of None \<Rightarrow> None | Some port \<Rightarrow> Some (ip, port)))
             else plain)"

definition parse_proxy_line :: "bytes \<Rightarrow> (int \<times> ip_addr \<times> u16) option" where
  "parse_proxy_line line =
     (let trimmed = trim line in
      if strip_prefix (ascii ''proxy_for'') trimmed = None then None
      else case split_whitespace (trim (trim_start_matches (ascii ''proxy_for'') trimmed)) of
          dc_str # rest # _ \<Rightarrow>
            (case parse_i32 dc_str of
               None \<Rightarrow> None
             | Some dc \<Rightarrow> (case parse_host_port (trim_end_semicolons rest) of None \<Rightarrow> None | Some (ip, port) \<Rightarrow> Some (dc, ip, port)))
        | _ \<Rightarrow> None)"

record proxy_config_data =
  pc_map :: proxy_map
  pc_default_dc :: "int option"
  pc_http_status :: u16
  pc_proxy_for_lines :: u32

fun push_entry :: "int \<Rightarrow> ip_addr \<times> u16 \<Rightarrow> proxy_map \<Rightarrow> proxy_map" where
  "push_entry dc a [] = [(dc, [a])]"
| "push_entry dc a ((d, as) # m) = (if d = dc then (d, as @ [a]) # m else (d, as) # push_entry dc a m)"

definition add_line :: "bytes \<Rightarrow> proxy_map \<times> u32 \<Rightarrow> proxy_map \<times> u32" where
  "add_line line s =
     (case parse_proxy_line line of
        None \<Rightarrow> s
      | Some (dc, ip, port) \<Rightarrow> (push_entry dc (ip, port) (fst s), if snd s = - 1 then snd s else snd s + 1))"

definition parse_default_line :: "bytes \<Rightarrow> int option" where
  "parse_default_line line =
     (case strip_prefix (ascii ''default'') (trim line) of
        None \<Rightarrow> None
      | Some rest \<Rightarrow> parse_i32 (trim_end_semicolons (trim rest)))"

fun find_map :: "('a \<Rightarrow> 'b option) \<Rightarrow> 'a list \<Rightarrow> 'b option" where
  "find_map f [] = None"
| "find_map f (x # xs) = (case f x of Some y \<Rightarrow> Some y | None \<Rightarrow> find_map f xs)"

text \<open>The answer of the server: an error, or a status and a body that may fail to arrive.\<close>

type_synonym http_answer = "string + u16 \<times> (string + bytes)"

definition fetch_proxy_config :: "http_answer \<Rightarrow> proxy_error + proxy_config_data" where
  "fetch_proxy_config resp =
     (case resp of
        Inl e \<Rightarrow> Inl (ProxyMsg (Msg ''fetch_proxy_config GET failed: {e}'' []))
      | Inr (status, Inl e) \<Rightarrow> Inl (ProxyMsg (Msg ''fetch_proxy_config read failed: {e}'' []))
      | Inr (status, Inr body) \<Rightarrow>
          (case fold add_line (str_lines body) ([], 0) of (m, proxy_for_lines) \<Rightarrow>
             Inr \<lparr>pc_map = m, pc_default_dc = find_map parse_default_line (str_lines body), pc_http_status = status, pc_proxy_for_lines = proxy_for_lines\<rparr>))"

text \<open>Three tries; \<open>get i\<close> is the answer to try \<open>i\<close>.\<close>

definition retry_fetch :: "(nat \<Rightarrow> http_answer) \<Rightarrow> proxy_config_data option" where
  "retry_fetch get = find_map (\<lambda>i. case fetch_proxy_config (get i) of Inr cfg \<Rightarrow> Some cfg | Inl _ \<Rightarrow> None) [0 ..< 3]"

subsection \<open>The proxy secret\<close>

definition PROXY_SECRET_MIN_LEN :: nat where "PROXY_SECRET_MIN_LEN = 32"

definition validate_proxy_secret_len :: "nat \<Rightarrow> nat \<Rightarrow> proxy_error + unit" where
  "validate_proxy_secret_len data_len max_len =
     (if max_len < PROXY_SECRET_MIN_LEN
      then Inl (ProxyMsg (Msg ''proxy-secret max length is invalid: {} bytes (must be >= {})'' [max_len, PROXY_SECRET_MIN_LEN]))
      else if data_len < PROXY_SECRET_MIN_LEN
      then Inl (ProxyMsg (Msg ''proxy-secret too short: {} bytes (need >= {})'' [data_len, PROXY_SECRET_MIN_LEN]))
      else if max_len < data_len then Inl (ProxyMsg (Msg ''proxy-secret too long: {} bytes (limit = {})'' [data_len, max_len]))
      else Inr ())"

definition download_proxy_secret_with_max_len :: "http_answer \<Rightarrow> nat \<Rightarrow> proxy_error + bytes" where
  "download_proxy_secret_with_max_len resp max_len =
     (case resp of
        Inl e \<Rightarrow> Inl (ProxyMsg (Msg ''Failed to download proxy-secret: {e}'' []))
      | Inr (status, body) \<Rightarrow>
          if \<not> (200 \<le> status \<and> status \<le> 299) then Inl (ProxyMsg (Msg ''proxy-secret download HTTP {}'' [unat status]))
          else case body of
              Inl e \<Rightarrow> Inl (ProxyMsg (Msg ''Read proxy-secret body: {e}'' []))
            | Inr data \<Rightarrow> (case validate_proxy_secret_len (length data) max_len of Inl e \<Rightarrow> Inl e | Inr _ \<Rightarrow> Inr data))"

text \<open>The secret, and the contents of the cache file afterwards; \<open>writes\<close> tells whether the file can be written.\<close>

definition fetch_proxy_secret :: "http_answer \<Rightarrow> bool \<Rightarrow> bytes option \<Rightarrow> nat \<Rightarrow> (proxy_error + bytes) \<times> bytes option" where
  "fetch_proxy_secret resp writes cache max_len =
     (case download_proxy_secret_with_max_len resp max_len of
        Inr data \<Rightarrow> (Inr data, if writes then Some data else cache)
      | Inl _ \<Rightarrow>
          (case cache of
             None \<Rightarrow> Inl (ProxyMsg (Msg ''Failed to read proxy-secret cache after download failure: {e}'' []))
           | Some data \<Rightarrow> (case validate_proxy_secret_len (length data) max_len of Inl e \<Rightarrow> Inl e | Inr _ \<Rightarrow> Inr data), cache))"

subsection \<open>Triggers of reinitializations\<close>

datatype me_reinit_trigger = Periodic | MapChanged

record trigger_queue =
  tq_items :: "me_reinit_trigger list"
  tq_capacity :: nat
  tq_closed :: bool

definition enqueue_reinit_trigger :: "me_reinit_trigger \<Rightarrow> trigger_queue \<Rightarrow> trigger_queue" where
  "enqueue_reinit_trigger t q = (if tq_closed q \<or> tq_capacity q \<le> length (tq_items q) then q else q\<lparr>tq_items := tq_items q @ [t]\<rparr>)"

text \<open>Triggers that come before the deadline are taken together; an event is the clock at the head of the loop and what the wait for the next trigger gives,
  \<open>None\<close> standing for the timeout and for the closed channel.\<close>

fun coalesce :: "nat \<Rightarrow> (nat \<times> me_reinit_trigger option) list \<Rightarrow> bool \<times> bool \<Rightarrow> bool \<times> bool" where
  "coalesce deadline [] seen = seen"
| "coalesce deadline ((now, event) # events) (map_change_seen, periodic_seen) =
     (if deadline \<le> now then (map_change_seen, periodic_seen)
      else case event of
          None \<Rightarrow> (map_change_seen, periodic_seen)
        | Some MapChanged \<Rightarrow> coalesce deadline events (True, periodic_seen)
        | Some Periodic \<Rightarrow> coalesce deadline events (map_change_seen, True))"

definition reinit_reason :: "nat \<Rightarrow> nat \<Rightarrow> (nat \<times> me_reinit_trigger option) list \<Rightarrow> me_reinit_trigger \<Rightarrow> string" where
  "reinit_reason window_ms now events first =
     (let seen = (first = MapChanged, first = Periodic);
          (map_change_seen, periodic_seen) = (if window_ms = 0 then seen else coalesce (now + window_ms) events seen)
      in if map_change_seen \<and> periodic_seen then ''map-change+periodic'' else if map_change_seen then ''map-change'' else ''periodic'')"

text \<open>The periodic task: its interval in seconds and its next tick in milliseconds; it wakes at its tick or when the settings change.\<close>

datatype rotation_event = Tick | SettingsChanged

definition rotation_step :: "nat \<Rightarrow> u64 \<Rightarrow> rotation_event \<Rightarrow> u64 \<times> nat \<Rightarrow> trigger_queue \<Rightarrow> (u64 \<times> nat) \<times> trigger_queue" where
  "rotation_step now reinit_every_secs event s q =
     (let secs = max reinit_every_secs 1; fresh = (secs, now + unat secs * 1000) in
      case event of
        Tick \<Rightarrow> (fresh, enqueue_reinit_trigger Periodic q)
      | SettingsChanged \<Rightarrow>
          if secs = fst s then (s, q)
          else if secs < fst s then (fresh, enqueue_reinit_trigger Periodic q)
          else (fresh, q))"

subsection \<open>The updater\<close>

record stable_snapshot =
  sn_candidate_hash :: "u64 option"
  sn_candidate_hits :: byte
  sn_applied_hash :: "u64 option"

definition observe :: "u64 \<Rightarrow> stable_snapshot \<Rightarrow> byte \<times> stable_snapshot" where
  "observe hash s =
     (let s = (if sn_candidate_hash s = Some hash
               then s\<lparr>sn_candidate_hits := (if sn_candidate_hits s = - 1 then sn_candidate_hits s else sn_candidate_hits s + 1)\<rparr>
               else s\<lparr>sn_candidate_hash := Some hash, sn_candidate_hits := 1\<rparr>)
      in (sn_candidate_hits s, s))"

definition is_applied :: "u64 \<Rightarrow> stable_snapshot \<Rightarrow> bool" where
  "is_applied hash s \<longleftrightarrow> sn_applied_hash s = Some hash"

definition mark_applied :: "u64 \<Rightarrow> stable_snapshot \<Rightarrow> stable_snapshot" where
  "mark_applied hash s = s\<lparr>sn_applied_hash := Some hash\<rparr>"

record updater_state =
  us_config_v4 :: stable_snapshot
  us_config_v6 :: stable_snapshot
  us_secret :: stable_snapshot
  us_last_map_apply_at :: "nat option"

definition updater_new :: updater_state where
  "updater_new =
     (let s = \<lparr>sn_candidate_hash = None, sn_candidate_hits = 0, sn_applied_hash = None\<rparr> in
      \<lparr>us_config_v4 = s, us_config_v6 = s, us_secret = s, us_last_map_apply_at = None\<rparr>)"

text \<open>The settings it reads; \<open>uc_policy\<close> are those of the pool.\<close>

record update_settings =
  uc_policy :: reinit_policy
  uc_config_stable_snapshots :: byte
  uc_secret_stable_snapshots :: byte
  uc_apply_cooldown_secs :: u64
  uc_require_http_2xx :: bool
  uc_min_proxy_for_lines :: u32
  uc_reject_empty_map :: bool
  uc_secret_rotate_runtime :: bool
  uc_secret_len_max :: nat

text \<open>The hash functions, on what is fed to the hasher.\<close>

datatype config_token = CfDefault "int option" | CfDc int | CfAddr ip_addr | CfPort u16

record config_hashes =
  ch_config :: "config_token list \<Rightarrow> u64"
  ch_secret :: "bytes \<Rightarrow> u64"

definition hash_proxy_config :: "config_hashes \<Rightarrow> proxy_config_data \<Rightarrow> u64" where
  "hash_proxy_config H cfg =
     ch_config H (CfDefault (pc_default_dc cfg) #
       concat (map (\<lambda>(dc, addrs). CfDc dc # concat (map (\<lambda>(ip, port). [CfAddr ip, CfPort port]) (sort_key (\<lambda>(ip, port). addr_key (SocketAddr ip port)) addrs)))
         (sort_key fst (pc_map cfg))))"

definition map_apply_cooldown_ready :: "nat \<Rightarrow> nat option \<Rightarrow> u64 \<Rightarrow> bool" where
  "map_apply_cooldown_ready now last_applied cooldown_secs \<longleftrightarrow>
     cooldown_secs = 0 \<or> (case last_applied of Some ts \<Rightarrow> unat cooldown_secs * 1000 \<le> now - ts | None \<Rightarrow> True)"

definition snapshot_passes_guards :: "update_settings \<Rightarrow> proxy_config_data \<Rightarrow> bool" where
  "snapshot_passes_guards cfg snapshot \<longleftrightarrow>
     \<not> (uc_require_http_2xx cfg \<and> \<not> (200 \<le> pc_http_status snapshot \<and> pc_http_status snapshot \<le> 299)) \<and>
     \<not> pc_proxy_for_lines snapshot < uc_min_proxy_for_lines cfg"

text \<open>What the world gives during a cycle: the answers to the downloads, and the clock when the cooldown is checked and when a map has been applied.\<close>

record cycle_world =
  cy_v4 :: "nat \<Rightarrow> http_answer"
  cy_v6 :: "nat \<Rightarrow> http_answer"
  cy_secret :: http_answer
  cy_checked_at :: nat
  cy_applied_at :: nat

text \<open>The snapshot that passes the guards, if any, and the one that is ready to be applied.\<close>

definition accepted_snapshot :: "update_settings \<Rightarrow> (nat \<Rightarrow> http_answer) \<Rightarrow> proxy_config_data option" where
  "accepted_snapshot cfg get =
     (case retry_fetch get of Some snapshot \<Rightarrow> if snapshot_passes_guards cfg snapshot then Some snapshot else None | None \<Rightarrow> None)"

definition ready_snapshot :: "config_hashes \<Rightarrow> update_settings \<Rightarrow> (nat \<Rightarrow> http_answer) \<Rightarrow> stable_snapshot \<Rightarrow> (proxy_config_data \<times> u64) option \<times> stable_snapshot" where
  "ready_snapshot H cfg get s =
     (case accepted_snapshot cfg get of
        None \<Rightarrow> (None, s)
      | Some snapshot \<Rightarrow>
          let hash = hash_proxy_config H snapshot; (stable_hits, s) = observe hash s in
          if stable_hits < max (uc_config_stable_snapshots cfg) 1 then (None, s)
          else if is_applied hash s then (None, s)
          else (Some (snapshot, hash), s))"

definition apply_maps :: "update_settings \<Rightarrow> cycle_world \<Rightarrow> (proxy_config_data \<times> u64) option \<Rightarrow> (proxy_config_data \<times> u64) option \<Rightarrow>
    me_pool \<times> updater_state \<Rightarrow> bool \<times> me_pool \<times> updater_state" where
  "apply_maps cfg W ready_v4 ready_v6 ps =
     (case ps of (p, us) \<Rightarrow>
        if ready_v4 = None \<and> ready_v6 = None then (False, p, us)
        else if \<not> map_apply_cooldown_ready (cy_checked_at W) (us_last_map_apply_at us) (uc_apply_cooldown_secs cfg) then (False, p, us)
        else
          let update_v4 = (case ready_v4 of Some (snapshot, _) \<Rightarrow> pc_map snapshot | None \<Rightarrow> []);
              update_v6 = map_option (\<lambda>(snapshot, _). pc_map snapshot) ready_v6;
              update_is_empty = (update_v4 = [] \<and> (case update_v6 of None \<Rightarrow> True | Some m \<Rightarrow> m = []));
              (outcome, p) = (if update_is_empty \<and> \<not> uc_reject_empty_map cfg then (AppliedNoDelta, p) else update_proxy_maps update_v4 update_v6 p)
          in if outcome = RejectedEmpty then (False, p, us)
             else
               let p = (case ready_v4 of Some (snapshot, _) \<Rightarrow> (case pc_default_dc snapshot of Some dc \<Rightarrow> p\<lparr>mp_default_dc := dc\<rparr> | None \<Rightarrow> p) | None \<Rightarrow> p);
                   us = (case ready_v4 of Some (_, hash) \<Rightarrow> us\<lparr>us_config_v4 := mark_applied hash (us_config_v4 us)\<rparr> | None \<Rightarrow> us);
                   us = (case ready_v6 of Some (_, hash) \<Rightarrow> us\<lparr>us_config_v6 := mark_applied hash (us_config_v6 us)\<rparr> | None \<Rightarrow> us)
               in (outcome = AppliedChanged, p, us\<lparr>us_last_map_apply_at := Some (cy_applied_at W)\<rparr>))"

text \<open>While the updater waits for a download or sleeps, other tasks run: \<open>I n\<close> is what they do to the pool.\<close>

definition rotate_secret :: "pool_env \<Rightarrow> (nat \<Rightarrow> me_pool \<Rightarrow> me_pool) \<Rightarrow> config_hashes \<Rightarrow> update_settings \<Rightarrow> cycle_world \<Rightarrow> me_pool \<times> updater_state \<Rightarrow> me_pool \<times> updater_state" where
  "rotate_secret E I H cfg W ps =
     (case ps of (p, us) \<Rightarrow>
        if \<not> uc_secret_rotate_runtime cfg then (p, us)
        else case download_proxy_secret_with_max_len (cy_secret W) (uc_secret_len_max cfg) of
            Inl _ \<Rightarrow> (I 1 p, us)
          | Inr secret \<Rightarrow>
              let hash = ch_secret H secret; (stable_hits, s) = observe hash (us_secret us) in
              if stable_hits < max (uc_secret_stable_snapshots cfg) 1 then (I 1 p, us\<lparr>us_secret := s\<rparr>)
              else if is_applied hash s then (I 1 p, us\<lparr>us_secret := s\<rparr>)
              else (snd (update_secret E (\<lambda>n. I (n + 2)) secret (I 1 p)), us\<lparr>us_secret := mark_applied hash s\<rparr>))"

definition run_update_cycle :: "pool_env \<Rightarrow> (nat \<Rightarrow> me_pool \<Rightarrow> me_pool) \<Rightarrow> config_hashes \<Rightarrow> update_settings \<Rightarrow> cycle_world \<Rightarrow>
    me_pool \<Rightarrow> updater_state \<Rightarrow> trigger_queue \<Rightarrow> me_pool \<times> updater_state \<times> trigger_queue" where
  "run_update_cycle E I H cfg W p us q =
     (let p = update_runtime_reinit_policy (uc_policy cfg) p;
          (ready_v4, s4) = ready_snapshot H cfg (cy_v4 W) (us_config_v4 us);
          (ready_v6, s6) = ready_snapshot H cfg (cy_v6 W) (us_config_v6 us);
          (maps_changed, p, us) = apply_maps cfg W ready_v4 ready_v6 (I 0 p, us\<lparr>us_config_v4 := s4, us_config_v6 := s6\<rparr>);
          q = (if maps_changed then enqueue_reinit_trigger MapChanged q else q);
          (p, us) = rotate_secret E I H cfg W (p, us)
      in (p, us, q))"

subsection \<open>The stable gate\<close>

text \<open>The hashes seen so far, the newest first: a snapshot's hits are at most the number of times its hash has been seen in a row.\<close>

definition tracks :: "u64 list \<Rightarrow> stable_snapshot \<Rightarrow> bool" where
  "tracks hist s \<longleftrightarrow> (\<forall>h. sn_candidate_hash s = Some h \<longrightarrow> unat (sn_candidate_hits s) \<le> length (takeWhile (\<lambda>x. x = h) hist))"

lemma observe_tracks:
  assumes "tracks hist s" "observe h s = (k, s')"
  shows "tracks (h # hist) s'" "unat k \<le> Suc (length (takeWhile (\<lambda>x. x = h) hist))" "sn_applied_hash s' = sn_applied_hash s"
proof -
  have u: "unat (b + 1) \<le> Suc (unat b)" for b :: byte by (simp add: unat_word_ariths)
  show "tracks (h # hist) s'"
  proof (cases "sn_candidate_hash s = Some h")
    case True
    then show ?thesis using assms u [of "sn_candidate_hits s"] by (auto simp: tracks_def observe_def Let_def)
  qed (use assms in \<open>auto simp: tracks_def observe_def Let_def\<close>)
  show "unat k \<le> Suc (length (takeWhile (\<lambda>x. x = h) hist))"
  proof (cases "sn_candidate_hash s = Some h")
    case True
    then show ?thesis using assms u [of "sn_candidate_hits s"] by (auto simp: tracks_def observe_def Let_def)
  qed (use assms in \<open>auto simp: tracks_def observe_def Let_def\<close>)
  show "sn_applied_hash s' = sn_applied_hash s" using assms(2) by (auto simp: observe_def Let_def)
qed

text \<open>A snapshot is confirmed when it has been seen as often in a row as the settings ask for, the present time included.\<close>

definition confirmed :: "byte \<Rightarrow> u64 \<Rightarrow> u64 list \<Rightarrow> bool" where
  "confirmed stable_snapshots h hist \<longleftrightarrow> (let k = unat (max stable_snapshots 1) in take (k - 1) hist = replicate (k - 1) h)"

lemma take_run: "n \<le> length (takeWhile (\<lambda>x. x = h) hist) \<Longrightarrow> take n hist = replicate n h"
proof (induction hist arbitrary: n)
  case (Cons x hist)
  then show ?case by (cases n) (auto split: if_splits)
qed simp

lemma hits_confirmed:
  assumes "tracks hist s" "observe h s = (k, s')" "\<not> k < max n 1"
  shows "confirmed n h hist"
proof -
  have "unat (max n 1) \<le> Suc (length (takeWhile (\<lambda>x. x = h) hist))"
    using observe_tracks(2) [OF assms(1,2)] assms(3) by (simp add: word_less_nat_alt)
  then show ?thesis unfolding confirmed_def Let_def by (intro take_run) simp
qed

definition observed :: "config_hashes \<Rightarrow> update_settings \<Rightarrow> (nat \<Rightarrow> http_answer) \<Rightarrow> u64 list" where
  "observed H cfg get = (case accepted_snapshot cfg get of Some d \<Rightarrow> [hash_proxy_config H d] | None \<Rightarrow> [])"

definition observed_secret :: "config_hashes \<Rightarrow> update_settings \<Rightarrow> http_answer \<Rightarrow> u64 list" where
  "observed_secret H cfg resp =
     (if uc_secret_rotate_runtime cfg
      then case download_proxy_secret_with_max_len resp (uc_secret_len_max cfg) of Inr secret \<Rightarrow> [ch_secret H secret] | Inl _ \<Rightarrow> [] else [])"

lemma ready_snapshot_spec:
  assumes "ready_snapshot H cfg get s = (r, s')" "tracks hist s"
  shows "tracks (observed H cfg get @ hist) s'"
    "r = Some (d, h) \<Longrightarrow> accepted_snapshot cfg get = Some d \<and> h = hash_proxy_config H d \<and> confirmed (uc_config_stable_snapshots cfg) h hist \<and> sn_applied_hash s \<noteq> Some h"
proof -
  have "tracks (observed H cfg get @ hist) s' \<and> (r = Some (d, h) \<longrightarrow> accepted_snapshot cfg get = Some d \<and> h = hash_proxy_config H d \<and>
      confirmed (uc_config_stable_snapshots cfg) h hist \<and> sn_applied_hash s \<noteq> Some h)"
  proof (cases "accepted_snapshot cfg get")
    case (Some e)
    obtain k t where o: "observe (hash_proxy_config H e) s = (k, t)" by fastforce
    note O = observe_tracks [OF assms(2) o]
    show ?thesis
      using assms(1) Some o O hits_confirmed [OF assms(2) o]
      by (auto simp: ready_snapshot_def Let_def observed_def is_applied_def split: if_splits)
  qed (use assms in \<open>simp add: ready_snapshot_def observed_def\<close>)
  then show "tracks (observed H cfg get @ hist) s'"
    "r = Some (d, h) \<Longrightarrow> accepted_snapshot cfg get = Some d \<and> h = hash_proxy_config H d \<and> confirmed (uc_config_stable_snapshots cfg) h hist \<and> sn_applied_hash s \<noteq> Some h"
    by blast+
qed

lemma tracks_applied [simp]: "tracks hist (mark_applied h s) = tracks hist s"
  by (simp add: tracks_def mark_applied_def)

lemma update_maps_fields:
  assumes "update_proxy_maps m4 m6 p = (r, p')"
  shows "mp_secret p' = mp_secret p" "mp_map_v4 p' = mp_map_v4 p \<or> mp_map_v4 p' = mirror_negative (mp_map_v4 p) \<or> m4 \<noteq> [] \<and> mp_map_v4 p' = mirror_negative m4"
    "mp_map_v6 p' = mp_map_v6 p \<or> mp_map_v6 p' = mirror_negative (mp_map_v6 p) \<or> (\<exists>m. m6 = Some m \<and> mp_map_v6 p' = mirror_negative m)"
  using assms by (auto simp: update_proxy_maps_def Let_def split: if_splits option.splits)

lemma apply_maps_spec:
  assumes "apply_maps cfg W r4 r6 (p, us) = (c, p', us')"
  shows "us_secret us' = us_secret us" "mp_secret p' = mp_secret p"
    "tracks hist (us_config_v4 us') = tracks hist (us_config_v4 us)" "tracks hist (us_config_v6 us') = tracks hist (us_config_v6 us)"
    "mp_map_v4 p' = mp_map_v4 p \<or> map_apply_cooldown_ready (cy_checked_at W) (us_last_map_apply_at us) (uc_apply_cooldown_secs cfg) \<and>
       (mp_map_v4 p' = mirror_negative (mp_map_v4 p) \<or> (\<exists>d h. r4 = Some (d, h) \<and> mp_map_v4 p' = mirror_negative (pc_map d)))"
    "mp_map_v6 p' = mp_map_v6 p \<or> map_apply_cooldown_ready (cy_checked_at W) (us_last_map_apply_at us) (uc_apply_cooldown_secs cfg) \<and>
       (mp_map_v6 p' = mirror_negative (mp_map_v6 p) \<or> (\<exists>d h. r6 = Some (d, h) \<and> mp_map_v6 p' = mirror_negative (pc_map d)))"
proof -
  let ?m4 = "case r4 of Some (snapshot, _) \<Rightarrow> pc_map snapshot | None \<Rightarrow> []" and ?m6 = "map_option (\<lambda>(snapshot, _). pc_map snapshot) r6"
  obtain r q where q: "update_proxy_maps ?m4 ?m6 p = (r, q)" by fastforce
  note U = update_maps_fields [OF q]
  have m4: "?m4 \<noteq> [] \<Longrightarrow> \<exists>d h. r4 = Some (d, h) \<and> ?m4 = pc_map d" by (auto split: option.splits)
  have m6: "?m6 = Some m \<Longrightarrow> \<exists>d h. r6 = Some (d, h) \<and> m = pc_map d" for m by auto
  show "us_secret us' = us_secret us" "mp_secret p' = mp_secret p"
    "tracks hist (us_config_v4 us') = tracks hist (us_config_v4 us)" "tracks hist (us_config_v6 us') = tracks hist (us_config_v6 us)"
    using assms U(1) by (auto simp: apply_maps_def Let_def q split: if_splits option.splits)
  have f: "p' = p \<or> map_apply_cooldown_ready (cy_checked_at W) (us_last_map_apply_at us) (uc_apply_cooldown_secs cfg) \<and>
      (mp_map_v4 p' = mp_map_v4 p \<and> mp_map_v6 p' = mp_map_v6 p \<or> mp_map_v4 p' = mp_map_v4 q \<and> mp_map_v6 p' = mp_map_v6 q)"
    using assms by (auto simp: apply_maps_def Let_def q split: if_splits option.splits)
  show "mp_map_v4 p' = mp_map_v4 p \<or> map_apply_cooldown_ready (cy_checked_at W) (us_last_map_apply_at us) (uc_apply_cooldown_secs cfg) \<and>
       (mp_map_v4 p' = mirror_negative (mp_map_v4 p) \<or> (\<exists>d h. r4 = Some (d, h) \<and> mp_map_v4 p' = mirror_negative (pc_map d)))"
    using f U(2) m4 by metis
  show "mp_map_v6 p' = mp_map_v6 p \<or> map_apply_cooldown_ready (cy_checked_at W) (us_last_map_apply_at us) (uc_apply_cooldown_secs cfg) \<and>
       (mp_map_v6 p' = mirror_negative (mp_map_v6 p) \<or> (\<exists>d h. r6 = Some (d, h) \<and> mp_map_v6 p' = mirror_negative (pc_map d)))"
    using f U(3) m6 by metis
qed

text \<open>Nothing but the updater writes the maps and the secret.\<close>

definition leaves_config :: "(nat \<Rightarrow> me_pool \<Rightarrow> me_pool) \<Rightarrow> bool" where
  "leaves_config I \<longleftrightarrow> (\<forall>n p. mp_map_v4 (I n p) = mp_map_v4 p \<and> mp_map_v6 (I n p) = mp_map_v6 p \<and> mp_secret (I n p) = mp_secret p)"

lemma connect_config:
  "mp_map_v4 (snd (connect_one E a p)) = mp_map_v4 p" "mp_map_v6 (snd (connect_one E a p)) = mp_map_v6 p" "mp_secret (snd (connect_one E a p)) = mp_secret p"
  by (auto simp: connect_one_def connect_one_with_generation_contour_def Let_def split: sum.split)

lemma mark_config:
  "mp_map_v4 (mark_writer_draining E i p) = mp_map_v4 p" "mp_map_v6 (mark_writer_draining E i p) = mp_map_v6 p" "mp_secret (mark_writer_draining E i p) = mp_secret p"
  by (auto simp: mark_writer_draining_def mark_writer_draining_with_timeout_def Let_def split: option.split)

lemma reconnect_config:
  assumes "leaves_config I"
  shows "mp_map_v4 (reconnect_each E I ws n p) = mp_map_v4 p \<and> mp_map_v6 (reconnect_each E I ws n p) = mp_map_v6 p \<and> mp_secret (reconnect_each E I ws n p) = mp_secret p"
proof (induction ws arbitrary: n p)
  case (Cons w ws)
  obtain r q where q: "connect_one E (mw_addr w) p = (r, q)" by fastforce
  then show ?case
    using Cons.IH assms connect_config [of E "mw_addr w" p] by (auto simp: leaves_config_def mark_config split: sum.split)
qed simp

lemma update_secret_config:
  assumes "leaves_config I"
  shows "mp_map_v4 (snd (update_secret E I new p)) = mp_map_v4 p" "mp_map_v6 (snd (update_secret E I new p)) = mp_map_v6 p"
    "mp_secret (snd (update_secret E I new p)) = mp_secret p \<or> ss_secret (mp_secret (snd (update_secret E I new p))) = new"
  using reconnect_config [OF assms] by (simp_all add: update_secret_def reconnect_all_def)

lemma rotate_secret_spec:
  assumes "rotate_secret E I H cfg W (p, us) = (p', us')" "leaves_config I" "tracks hist (us_secret us)"
  shows "tracks (observed_secret H cfg (cy_secret W) @ hist) (us_secret us') \<and> us_config_v4 us' = us_config_v4 us \<and> us_config_v6 us' = us_config_v6 us \<and>
    mp_map_v4 p' = mp_map_v4 p \<and> mp_map_v6 p' = mp_map_v6 p \<and>
    (mp_secret p' = mp_secret p \<or> (\<exists>secret. download_proxy_secret_with_max_len (cy_secret W) (uc_secret_len_max cfg) = Inr secret \<and>
       ss_secret (mp_secret p') = secret \<and> confirmed (uc_secret_stable_snapshots cfg) (ch_secret H secret) hist))"
proof -
  have I: "mp_map_v4 (I n q) = mp_map_v4 q" "mp_map_v6 (I n q) = mp_map_v6 q" "mp_secret (I n q) = mp_secret q" for n q
    using assms(2) by (simp_all add: leaves_config_def)
  have I2: "leaves_config (\<lambda>n. I (n + 2))" using I by (simp add: leaves_config_def)
  consider "\<not> uc_secret_rotate_runtime cfg"
    | e where "uc_secret_rotate_runtime cfg" "download_proxy_secret_with_max_len (cy_secret W) (uc_secret_len_max cfg) = Inl e"
    | secret where "uc_secret_rotate_runtime cfg" "download_proxy_secret_with_max_len (cy_secret W) (uc_secret_len_max cfg) = Inr secret"
    by (cases "download_proxy_secret_with_max_len (cy_secret W) (uc_secret_len_max cfg)") blast+
  then show ?thesis
  proof cases
    case (3 secret)
    obtain k s where o: "observe (ch_secret H secret) (us_secret us) = (k, s)" by fastforce
    note O = observe_tracks(1) [OF assms(3) o] hits_confirmed [OF assms(3) o, of "uc_secret_stable_snapshots cfg"]
    show ?thesis
      using assms(1) 3 o O I update_secret_config [OF I2, of E secret "I 1 p"]
      by (auto simp: rotate_secret_def observed_secret_def Let_def split: if_splits)
  qed (use assms I in \<open>auto simp: rotate_secret_def observed_secret_def\<close>)
qed

text \<open>The histories of the updater, with the hashes it has seen.\<close>

inductive updater_reach :: "config_hashes \<Rightarrow> u64 list \<Rightarrow> u64 list \<Rightarrow> u64 list \<Rightarrow> updater_state \<Rightarrow> bool" for H :: config_hashes where
  updater_start: "updater_reach H [] [] [] updater_new"
| updater_cycle: "updater_reach H h4 h6 hs us \<Longrightarrow> leaves_config I \<Longrightarrow> run_update_cycle E I H cfg W p us q = (p', us', q') \<Longrightarrow>
    updater_reach H (observed H cfg (cy_v4 W) @ h4) (observed H cfg (cy_v6 W) @ h6) (observed_secret H cfg (cy_secret W) @ hs) us'"

lemma policy_config [simp]:
  "mp_map_v4 (update_runtime_reinit_policy c p) = mp_map_v4 p" "mp_map_v6 (update_runtime_reinit_policy c p) = mp_map_v6 p"
  "mp_secret (update_runtime_reinit_policy c p) = mp_secret p"
  by (simp_all add: update_runtime_reinit_policy_def Let_def split: me_floor_mode.split)

definition gated :: "bool \<Rightarrow> byte \<Rightarrow> config_hashes \<Rightarrow> update_settings \<Rightarrow> (nat \<Rightarrow> http_answer) \<Rightarrow> u64 list \<Rightarrow> proxy_map \<Rightarrow> proxy_map \<Rightarrow> bool" where
  "gated cooled n H cfg get hist m m' \<longleftrightarrow> m' = m \<or> cooled \<and> (m' = mirror_negative m \<or>
     (\<exists>d. accepted_snapshot cfg get = Some d \<and> confirmed n (hash_proxy_config H d) hist \<and> m' = mirror_negative (pc_map d)))"

lemma cycle_spec:
  assumes "run_update_cycle E I H cfg W p us q = (p', us', q')" "leaves_config I"
    and "tracks h4 (us_config_v4 us)" "tracks h6 (us_config_v6 us)" "tracks hs (us_secret us)"
  shows "tracks (observed H cfg (cy_v4 W) @ h4) (us_config_v4 us') \<and> tracks (observed H cfg (cy_v6 W) @ h6) (us_config_v6 us') \<and>
      tracks (observed_secret H cfg (cy_secret W) @ hs) (us_secret us')"
    and "gated (map_apply_cooldown_ready (cy_checked_at W) (us_last_map_apply_at us) (uc_apply_cooldown_secs cfg)) (uc_config_stable_snapshots cfg) H cfg (cy_v4 W) h4
      (mp_map_v4 p) (mp_map_v4 p')"
    and "gated (map_apply_cooldown_ready (cy_checked_at W) (us_last_map_apply_at us) (uc_apply_cooldown_secs cfg)) (uc_config_stable_snapshots cfg) H cfg (cy_v6 W) h6
      (mp_map_v6 p) (mp_map_v6 p')"
    and "mp_secret p' = mp_secret p \<or> (\<exists>secret. download_proxy_secret_with_max_len (cy_secret W) (uc_secret_len_max cfg) = Inr secret \<and>
       ss_secret (mp_secret p') = secret \<and> confirmed (uc_secret_stable_snapshots cfg) (ch_secret H secret) hs)"
proof -
  let ?p = "I 0 (update_runtime_reinit_policy (uc_policy cfg) p)"
  obtain r4 s4 where 4: "ready_snapshot H cfg (cy_v4 W) (us_config_v4 us) = (r4, s4)" by fastforce
  obtain r6 s6 where 6: "ready_snapshot H cfg (cy_v6 W) (us_config_v6 us) = (r6, s6)" by fastforce
  let ?us = "us\<lparr>us_config_v4 := s4, us_config_v6 := s6\<rparr>"
  obtain c p1 us1 where a: "apply_maps cfg W r4 r6 (?p, ?us) = (c, p1, us1)" by (rule prod_cases3)
  have r: "rotate_secret E I H cfg W (p1, us1) = (p', us')"
    using assms(1) unfolding run_update_cycle_def by (simp add: 4 6 a Let_def split: prod.splits)
  note A = apply_maps_spec [OF a]
  have p: "mp_map_v4 ?p = mp_map_v4 p" "mp_map_v6 ?p = mp_map_v6 p" "mp_secret ?p = mp_secret p" using assms(2) by (simp_all add: leaves_config_def)
  have "tracks hs (us_secret us1)" using A(1) assms(5) by simp
  note R = rotate_secret_spec [OF r assms(2) this]
  note S4 = ready_snapshot_spec [OF 4 assms(3)] and S6 = ready_snapshot_spec [OF 6 assms(4)]
  show "tracks (observed H cfg (cy_v4 W) @ h4) (us_config_v4 us') \<and> tracks (observed H cfg (cy_v6 W) @ h6) (us_config_v6 us') \<and>
      tracks (observed_secret H cfg (cy_secret W) @ hs) (us_secret us')"
    using A(3,4) R S4(1) S6(1) by simp
  show "gated (map_apply_cooldown_ready (cy_checked_at W) (us_last_map_apply_at us) (uc_apply_cooldown_secs cfg)) (uc_config_stable_snapshots cfg) H cfg (cy_v4 W) h4
      (mp_map_v4 p) (mp_map_v4 p')"
    using A(5) R S4(2) p(1) unfolding gated_def by auto
  show "gated (map_apply_cooldown_ready (cy_checked_at W) (us_last_map_apply_at us) (uc_apply_cooldown_secs cfg)) (uc_config_stable_snapshots cfg) H cfg (cy_v6 W) h6
      (mp_map_v6 p) (mp_map_v6 p')"
    using A(6) R S6(2) p(2) unfolding gated_def by auto
  show "mp_secret p' = mp_secret p \<or> (\<exists>secret. download_proxy_secret_with_max_len (cy_secret W) (uc_secret_len_max cfg) = Inr secret \<and>
       ss_secret (mp_secret p') = secret \<and> confirmed (uc_secret_stable_snapshots cfg) (ch_secret H secret) hs)"
    using A(2) R p(3) by auto
qed

lemma updater_tracks:
  "updater_reach H h4 h6 hs us \<Longrightarrow> tracks h4 (us_config_v4 us) \<and> tracks h6 (us_config_v6 us) \<and> tracks hs (us_secret us)"
proof (induction rule: updater_reach.induct)
  case (updater_cycle h4 h6 hs us I E cfg W p q p' us' q')
  then show ?case using cycle_spec(1) by blast
qed (simp add: updater_new_def tracks_def Let_def)

subsection \<open>Printed lists are read back\<close>

lemma parse_dec_show:
  "a * 10 ^ length (show_radix 10 n) + n \<le> limit \<Longrightarrow>
   parse_dec limit a (show_radix 10 n @ rest) = parse_dec limit (a * 10 ^ length (show_radix 10 n) + n) rest"
proof (induction "10 :: nat" n arbitrary: rest rule: show_radix.induct)
  case (1 n)
  show ?case
  proof (cases "n < 10")
    case True
    then have "show_radix 10 n = [digit_char n]" by (subst show_radix.simps) simp
    then show ?thesis using 1(2) True by (simp add: digit_value_char)
  next
    case False
    let ?k = "length (show_radix 10 (n div 10))"
    have s: "show_radix 10 n = show_radix 10 (n div 10) @ [digit_char (n mod 10)]" using False by (simp add: show_radix_step)
    have e: "(a * 10 ^ ?k + n div 10) * 10 + n mod 10 = a * 10 ^ Suc ?k + n" by simp
    then have "a * 10 ^ ?k + n div 10 \<le> limit" using 1(2) unfolding s by simp
    then show ?thesis
      using 1(1) [of "digit_char (n mod 10) # rest"] False digit_value_char [of "n mod 10" 10] e 1(2) by (simp add: s ac_simps)
  qed
qed

definition is_i32 :: "int \<Rightarrow> bool" where
  "is_i32 z \<longleftrightarrow> - (2 ^ 31) \<le> z \<and> z < 2 ^ 31"

lemma parse_i32_show: "is_i32 z \<Longrightarrow> parse_i32 (dec_int z) = Some z"
proof -
  assume z: "is_i32 z"
  have p: "n \<le> l \<Longrightarrow> parse_dec l 0 (show_radix 10 n) = Some n" for n l using parse_dec_show [of 0 n l "[]"] by simp
  show ?thesis
  proof (cases "z < 0")
    case True
    then have "nat (- z) \<le> 2 ^ 31" using z by (simp add: is_i32_def)
    then show ?thesis using p [of "nat (- z)" "2 ^ 31"] True by (simp add: parse_i32_def dec_int_def dec_nat_def)
  next
    case False
    obtain b r where s: "show_radix 10 (nat z) = b # r" by (cases "show_radix 10 (nat z)") simp_all
    have "digit_value 10 b \<noteq> None" using show_radix_digits [of 10 b "nat z"] s by simp
    then have b: "b \<noteq> 0x2b" "b \<noteq> 0x2d" by (auto simp: digit_value_def)
    have "nat z \<le> 2 ^ 31 - 1" using z False by (simp add: is_i32_def)
    from p [OF this] show ?thesis using False b by (simp add: parse_i32_def dec_int_def dec_nat_def s del: parse_dec.simps)
  qed
qed

lemma dec_int_plain: "list_all plain_char (dec_int z)" "dec_int z \<noteq> []"
  using show_radix_plain [of 10] by (simp_all add: dec_int_def dec_nat_def plain_char_def)

text \<open>Words with single spaces between them.\<close>

lemma trim_end_words:
  "list_all (\<lambda>b. plain_char b \<or> b = 0x20) bs \<Longrightarrow> bs \<noteq> [] \<Longrightarrow> plain_char (last bs) \<Longrightarrow> trim_end_from k p bs = k @ p @ bs"
proof (induction bs arbitrary: k p)
  case (Cons b bs)
  show ?case
  proof (cases "bs = []")
    case True
    then show ?thesis
      using Cons.prems ws_len_plain [of b "[]"] trim_end_from.simps [of "k @ p @ [b]" "[]" "[]"] trim_end_from.simps [of k p "[b]"] by (simp del: ws_len.simps)
  next
    case False
    show ?thesis
    proof (cases "plain_char b")
      case True
      then show ?thesis using Cons False by (subst trim_end_from.simps) (simp add: ws_len_plain)
    next
      case False
      then have "b = 0x20" using Cons.prems by simp
      then show ?thesis using Cons \<open>bs \<noteq> []\<close> by (subst trim_end_from.simps) (simp add: ws_len_space)
    qed
  qed
qed simp

lemma trim_words:
  assumes "list_all (\<lambda>b. plain_char b \<or> b = 0x20) bs" "bs \<noteq> []" "plain_char (hd bs)" "plain_char (last bs)"
  shows "trim bs = bs" "trim (0x20 # bs) = bs"
proof -
  have t: "trim_start bs = bs" using assms(2,3) by (cases bs) (simp, subst trim_start.simps, simp add: ws_len_plain)
  have "trim_start (0x20 # bs) = trim_start bs" by (subst trim_start.simps) (simp add: ws_len_space)
  then show "trim bs = bs" "trim (0x20 # bs) = bs" using trim_end_words [OF assms(1,2,4), of "[]" "[]"] t by (simp_all add: trim_def)
qed

lemma rfind_byte_at: "c \<notin> set ys \<Longrightarrow> rfind_byte c (xs @ c # ys) = Some (length xs)"
  using find_byte_at [of c "rev ys" "rev xs"] by (simp add: rfind_byte_def)

text \<open>An address and a port, with the address in brackets or not.\<close>

definition show_host_port :: "bool \<Rightarrow> ip_addr \<Rightarrow> u16 \<Rightarrow> bytes" where
  "show_host_port bracketed ip port = (if bracketed then [0x5b] @ show_ip ip @ [0x5d] else show_ip ip) @ [0x3a] @ show_u16 port"

lemma u16_digits: "b \<in> set (show_u16 p) \<Longrightarrow> digit_value 10 b \<noteq> None"
  using show_radix_digits [of 10 b "unat p"] by (simp add: show_u16_def dec_nat_def)

lemma set_join: "set (join sep ws) \<subseteq> set sep \<union> \<Union> (set ` set ws)"
  by (induction sep ws rule: join.induct) auto

lemma ip_no_bracket: "0x5d \<notin> set (show_ip ip)"
proof -
  have d: "0x5d \<notin> set (show_radix r n)" if "r = 10 \<or> r = 16" for r n
    using show_radix_digits [of r "0x5d" n] that by (auto simp: digit_value_def)
  have v4: "0x5d \<notin> set (show_v4 a)" for a
    using set_join [of "[0x2e]" "map (\<lambda>b. dec_nat (unat b)) (v4_octets a)"] d by (auto simp: show_v4_def dec_nat_def)
  have g: "0x5d \<notin> set (show_groups gs)" for gs
    using set_join [of "[0x3a]" "map (\<lambda>g. hex_nat (unat g)) gs"] d by (auto simp: show_groups_def hex_nat_def)
  have "0x5d \<notin> set (show_v6 a)" for a
    using v4 g by (auto simp: show_v6_def Let_def ascii_def split: option.split prod.split)
  then show ?thesis using v4 by (cases ip) auto
qed

lemma rfind_byte_none: "c \<notin> set bs \<Longrightarrow> rfind_byte c bs = None"
proof -
  assume "c \<notin> set bs"
  then have t: "takeWhile (\<lambda>b. b \<noteq> c) (rev bs) = rev bs" by (subst takeWhile_eq_all_conv) auto
  show ?thesis unfolding rfind_byte_def find_byte_def Let_def t by simp
qed

lemma parse_host_port_show: "parse_host_port (show_host_port bracketed ip port) = Some (ip, port)"
proof -
  let ?s = "show_host_port bracketed ip port"
  have u: "0x5d \<notin> set (show_u16 port)" "0x3a \<notin> set (show_u16 port)" using u16_digits [of "0x5d" port] u16_digits [of "0x3a" port] by (auto simp: digit_value_def)
  show ?thesis
  proof (cases bracketed)
    case True
    have s: "?s = 0x5b # show_ip ip @ 0x5d # 0x3a # show_u16 port" using True by (simp add: show_host_port_def)
    have "rfind_byte 0x5d ?s = Some (length (0x5b # show_ip ip))"
      using rfind_byte_at [of "0x5d" "0x3a # show_u16 port" "0x5b # show_ip ip"] u(1) s by simp
    moreover have "subslice ?s 1 (length (0x5b # show_ip ip)) = show_ip ip" by (simp add: s subslice_def)
    moreover have "?s ! (length (0x5b # show_ip ip) + 1) = 0x3a" "drop (length (0x5b # show_ip ip) + 2) ?s = show_u16 port"
      by (simp_all add: s nth_append)
    moreover have "hd ?s = 0x5b" "length (0x5b # show_ip ip) + 1 < length ?s" by (simp_all add: s)
    ultimately show ?thesis unfolding parse_host_port_def Let_def by (simp add: parse_ip_show)
  next
    case False
    have s: "?s = show_ip ip @ 0x3a # show_u16 port" using False by (simp add: show_host_port_def)
    have "rfind_byte 0x5d ?s = None" using ip_no_bracket u(1) by (intro rfind_byte_none) (simp add: s)
    moreover have "rfind_byte 0x3a ?s = Some (length (show_ip ip))" unfolding s by (rule rfind_byte_at [OF u(2)])
    ultimately show ?thesis unfolding parse_host_port_def Let_def by (simp add: s parse_ip_show)
  qed
qed

text \<open>A line of a list.\<close>

type_synonym proxy_entry = "bool \<times> int \<times> ip_addr \<times> u16"

fun show_proxy_line :: "proxy_entry \<Rightarrow> bytes" where
  "show_proxy_line (bracketed, dc, ip, port) = ascii ''proxy_for '' @ dec_int dc @ [0x20] @ show_host_port bracketed ip port @ [0x3b]"

lemma host_port_plain: "list_all plain_char (show_host_port b ip port)" "show_host_port b ip port \<noteq> []" "last (show_host_port b ip port) \<noteq> 0x3b"
proof -
  show "list_all plain_char (show_host_port b ip port)"
    using show_ip_short [of ip] show_u16_short [of port] by (auto simp: show_host_port_def short_word_def plain_char_def)
  have "last (show_host_port b ip port) = last (show_u16 port)" by (simp add: show_host_port_def show_nonempty)
  then show "last (show_host_port b ip port) \<noteq> 0x3b"
    using u16_digits [of "last (show_u16 port)" port] show_nonempty(2) [of port] by (auto simp: digit_value_def)
qed (simp add: show_host_port_def)

lemma trim_semicolon: "xs \<noteq> [] \<Longrightarrow> last xs \<noteq> 0x3b \<Longrightarrow> trim_end_semicolons (xs @ [0x3b]) = xs"
  by (cases xs rule: rev_cases) (simp_all add: trim_end_semicolons_def)

lemma parse_proxy_line_show:
  assumes "is_i32 dc"
  shows "parse_proxy_line (show_proxy_line (b, dc, ip, port)) = Some (dc, ip, port)"
proof -
  let ?l = "show_proxy_line (b, dc, ip, port)" and ?r = "dec_int dc @ 0x20 # show_host_port b ip port @ [0x3b]"
  let ?pre = "ascii ''proxy_for''"
  have l: "?l = ?pre @ 0x20 # ?r" by (simp add: ascii_def)
  have words: "list_all (\<lambda>b. plain_char b \<or> b = 0x20) ?r" "list_all (\<lambda>b. plain_char b \<or> b = 0x20) ?pre" "plain_char (0x3b :: byte)"
    using dec_int_plain(1) [of dc] host_port_plain(1) [of b ip port] by (auto simp: list_all_iff ascii_def plain_char_def)
  have hd: "plain_char (hd ?r)" using dec_int_plain [of dc] by (cases "dec_int dc") simp_all
  have t: "trim ?l = ?l" unfolding l using words by (intro trim_words) (simp_all add: ascii_def plain_char_def)
  have r: "trim (0x20 # ?r) = ?r" using words hd by (intro trim_words) simp_all
  have s: "strip_prefix ?pre ?l = Some (0x20 # ?r)" unfolding l by (simp add: strip_prefix_def)
  have "strip_prefix ?pre (0x20 # ?r) = None" by (simp add: strip_prefix_def ascii_def)
  then have m: "trim_start_matches ?pre ?l = 0x20 # ?r"
    using s trim_start_matches.simps [of ?pre ?l] trim_start_matches.simps [of ?pre "0x20 # ?r"] by (simp add: l ascii_def)
  have w: "split_whitespace ?r = [dec_int dc, show_host_port b ip port @ [0x3b]]"
    using split_whitespace_join [of "[dec_int dc, show_host_port b ip port @ [0x3b]]"] dec_int_plain [of dc] host_port_plain [of b ip port] words(3) by simp
  show ?thesis
    unfolding parse_proxy_line_def Let_def t s m r w
    using assms host_port_plain(2,3) by (simp add: parse_i32_show trim_semicolon parse_host_port_show)
qed

text \<open>Lists are printed with one entry on a line, whose end is a line feed or a carriage return and a line feed, and then the default datacenter.\<close>

definition show_default :: "int \<Rightarrow> bytes" where
  "show_default dc = ascii ''default '' @ dec_int dc @ [0x3b]"

definition show_proxy_config :: "bool \<Rightarrow> proxy_entry list \<Rightarrow> int option \<Rightarrow> bytes" where
  "show_proxy_config crlf es d =
     concat (map (\<lambda>l. l @ (if crlf then [0x0d, 0x0a] else [0x0a])) (map show_proxy_line es @ (case d of Some dc \<Rightarrow> [show_default dc] | None \<Rightarrow> [])))"

lemma lines_from_line: "0x0a \<notin> set l \<Longrightarrow> lines_from cur (l @ 0x0a # r) = strip_cr (cur @ l) # lines_from [] r"
  by (induction l arbitrary: cur) simp_all

lemma str_lines_concat:
  assumes "\<forall>l \<in> set ls. list_all (\<lambda>b. plain_char b \<or> b = 0x20) l"
  shows "str_lines (concat (map (\<lambda>l. l @ (if crlf then [0x0d, 0x0a] else [0x0a])) ls)) = ls"
  using assms unfolding str_lines_def
proof (induction ls)
  case (Cons l ls)
  have n: "0x0a \<notin> set l" "0x0d \<notin> set l" using Cons.prems by (auto simp: list_all_iff plain_char_def)
  then have "strip_cr l = l" by (auto simp: strip_cr_def dest: last_in_set)
  then show ?case
    using Cons lines_from_line [of "l @ [0x0d]" "[]"] lines_from_line [of l "[]"] n by (cases crlf) (simp_all add: strip_cr_def)
qed simp

lemma show_line_words: "list_all (\<lambda>b. plain_char b \<or> b = 0x20) (show_proxy_line e)" "list_all (\<lambda>b. plain_char b \<or> b = 0x20) (show_default dc)"
  using dec_int_plain(1) host_port_plain(1) by (cases e, auto simp: list_all_iff ascii_def plain_char_def show_default_def)

lemma trim_shown: "trim (show_proxy_line e) = show_proxy_line e" "trim (show_default dc) = show_default dc"
  using show_line_words(1) [of e] show_line_words(2) [of dc] by (cases e, auto intro!: trim_words(1) simp: ascii_def plain_char_def show_default_def)

lemma other_lines: "parse_default_line (show_proxy_line e) = None" "parse_proxy_line (show_default dc) = None"
proof -
  have "strip_prefix (ascii ''default'') (show_proxy_line e) = None" by (cases e) (simp add: strip_prefix_def ascii_def)
  then show "parse_default_line (show_proxy_line e) = None" by (simp add: parse_default_line_def trim_shown)
  show "parse_proxy_line (show_default dc) = None" unfolding parse_proxy_line_def trim_shown Let_def by (simp add: strip_prefix_def ascii_def show_default_def)
qed

lemma parse_default_show: "is_i32 dc \<Longrightarrow> parse_default_line (show_default dc) = Some dc"
proof -
  assume dc: "is_i32 dc"
  have p: "list_all plain_char (dec_int dc)" "dec_int dc \<noteq> []" by (rule dec_int_plain)+
  have "strip_prefix (ascii ''default'') (show_default dc) = Some (0x20 # dec_int dc @ [0x3b])" by (simp add: strip_prefix_def ascii_def show_default_def)
  moreover have "trim (0x20 # dec_int dc @ [0x3b]) = dec_int dc @ [0x3b]"
    using p by (intro trim_words) (auto simp: list_all_iff plain_char_def hd_append)
  moreover have "0x3b \<notin> set (dec_int dc)"
    using show_radix_digits [of 10 "0x3b"] by (auto simp: dec_int_def dec_nat_def digit_value_def)
  then have "last (dec_int dc) \<noteq> 0x3b" using last_in_set [OF p(2)] by metis
  ultimately show ?thesis using dc p(2) by (simp add: parse_default_line_def trim_shown trim_semicolon parse_i32_show)
qed

definition entries_for :: "int \<Rightarrow> proxy_entry list \<Rightarrow> (ip_addr \<times> u16) list" where
  "entries_for dc es = map (\<lambda>e. snd (snd e)) (filter (\<lambda>e. fst (snd e) = dc) es)"

lemma map_of_push: "map_of (push_entry dc a m) d = (if d = dc then Some ((case map_of m dc of Some as \<Rightarrow> as | None \<Rightarrow> []) @ [a]) else map_of m d)"
  by (induction dc a m rule: push_entry.induct) auto

lemma fold_lines:
  assumes "\<forall>e \<in> set es. is_i32 (fst (snd e))" "unat n + length es < 2 ^ 32"
  shows "\<exists>m'. fold add_line (map show_proxy_line es) (m, n) = (m', n + word_of_nat (length es)) \<and>
    (\<forall>dc. map_of m' dc = (if entries_for dc es = [] then map_of m dc else Some ((case map_of m dc of Some as \<Rightarrow> as | None \<Rightarrow> []) @ entries_for dc es)))"
  using assms
proof (induction es arbitrary: m n)
  case (Cons e es)
  obtain b dc ip port where e: "e = (b, dc, ip, port)" by (cases e)
  have "n \<noteq> - 1"
  proof
    assume "n = - 1"
    then show False using Cons.prems(2) by (simp add: unsigned_minus_1_eq_mask mask_eq_exp_minus_1)
  qed
  then have l: "add_line (show_proxy_line e) (m, n) = (push_entry dc (ip, port) m, n + 1)"
    using Cons.prems(1) by (simp add: add_line_def e parse_proxy_line_show del: show_proxy_line.simps)
  have "unat (n + 1) + length es < 2 ^ 32" using Cons.prems(2) by (simp add: unat_word_ariths)
  from Cons.IH [OF _ this, of "push_entry dc (ip, port) m"] Cons.prems(1) obtain m' where
    m': "fold add_line (map show_proxy_line es) (push_entry dc (ip, port) m, n + 1) = (m', n + 1 + word_of_nat (length es))"
    "\<forall>d. map_of m' d = (if entries_for d es = [] then map_of (push_entry dc (ip, port) m) d
      else Some ((case map_of (push_entry dc (ip, port) m) d of Some as \<Rightarrow> as | None \<Rightarrow> []) @ entries_for d es))" by auto
  have "entries_for d (e # es) = (if d = dc then [(ip, port)] else []) @ entries_for d es" for d by (simp add: entries_for_def e)
  then show ?case using m' l by (intro exI [of _ m']) (simp add: map_of_push)
qed (simp add: entries_for_def)

subsection \<open>Properties\<close>

text \<open>C37: A list of middle proxies in the published format is understood completely: from its text, with any addresses (IPv6 ones with or without brackets), ports and
  datacenters and either kind of line end, the updater gets for each datacenter exactly its endpoints, in their order, and the default datacenter, and counts the entries.\<close>

theorem proxy_config_roundtrip:
  assumes "\<forall>e \<in> set es. is_i32 (fst (snd e))" "\<forall>dc. d = Some dc \<longrightarrow> is_i32 dc" "length es < 2 ^ 32"
  shows "\<exists>cfg. fetch_proxy_config (Inr (status, Inr (show_proxy_config crlf es d))) = Inr cfg \<and> pc_http_status cfg = status \<and>
    pc_default_dc cfg = d \<and> pc_proxy_for_lines cfg = word_of_nat (length es) \<and>
    (\<forall>dc. map_of (pc_map cfg) dc = (if entries_for dc es = [] then None else Some (entries_for dc es)))"
proof -
  let ?ds = "case d of Some dc \<Rightarrow> [show_default dc] | None \<Rightarrow> []"
  have ls: "str_lines (show_proxy_config crlf es d) = map show_proxy_line es @ ?ds"
    unfolding show_proxy_config_def using show_line_words by (intro str_lines_concat) (auto split: option.splits)
  obtain m where m: "fold add_line (map show_proxy_line es) ([], 0) = (m, word_of_nat (length es))"
    "\<forall>dc. map_of m dc = (if entries_for dc es = [] then None else Some (entries_for dc es))"
    using fold_lines [OF assms(1), of 0 "[]"] assms(3) by auto
  have "fold add_line ?ds s = s" for s by (auto simp: add_line_def other_lines split: option.split)
  moreover have "find_map parse_default_line (map show_proxy_line es @ ?ds) = d"
    using assms(2) by (induction es) (auto simp: other_lines parse_default_show split: option.split)
  ultimately show ?thesis using m by (simp add: fetch_proxy_config_def ls)
qed

theorem proxy_config_roundtrip_witness:
  "\<exists>cfg. fetch_proxy_config (Inr (200, Inr (show_proxy_config True [(False, 2, IpV4 0x5b6c04c3, 8888), (True, - 2, IpV6 1, 80)] (Some 2)))) = Inr cfg \<and>
    map_of (pc_map cfg) (- 2) = Some [(IpV6 1, 80)] \<and> pc_default_dc cfg = Some 2"
  using proxy_config_roundtrip [of "[(False, 2, IpV4 0x5b6c04c3, 8888), (True, - 2, IpV6 1, 80)]" "Some 2" 200 True]
  by (auto simp: is_i32_def entries_for_def)


text \<open>Settings that ask for two equal downloads, and a server that always gives the same list.\<close>

definition demo_settings :: update_settings where
  "demo_settings = \<lparr>uc_policy = demo_policy, uc_config_stable_snapshots = 2, uc_secret_stable_snapshots = 2, uc_apply_cooldown_secs = 0, uc_require_http_2xx = True,
     uc_min_proxy_for_lines = 1, uc_reject_empty_map = True, uc_secret_rotate_runtime = True, uc_secret_len_max = 256\<rparr>"

definition demo_world :: cycle_world where
  "demo_world = \<lparr>cy_v4 = \<lambda>i. Inr (200, Inr (show_proxy_config False [(False, 2, IpV4 0x5b6c04c3, 8888)] None)), cy_v6 = \<lambda>i. Inl ''down'', cy_secret = Inl ''down'',
     cy_checked_at = 5, cy_applied_at = 6\<rparr>"

definition demo_cycle :: "updater_state \<Rightarrow> me_pool \<times> updater_state \<times> trigger_queue" where
  "demo_cycle us = run_update_cycle demo_pool_env (\<lambda>n p. p) \<lparr>ch_config = \<lambda>ts. 7, ch_secret = \<lambda>s. 7\<rparr> demo_settings demo_world demo_pool us
     \<lparr>tq_items = [], tq_capacity = 64, tq_closed = False\<rparr>"


end
