(* ===== verification/Spec2Isabelle.thy ===== *)
theory Spec2Isabelle
  imports Frame_Codec Crypto_Writer Rpc_Wire Rpc_Session User_Limits Client_Handler Middle_Relay Direct_Relay Net_Probe Me_Steps Me_Config
begin

text \<open>
  Telemt is a proxy for Telegram's MTProto transport. A client connects, plainly obfuscated or disguised as a TLS 1.3
  connection, authenticates with a user's secret, and is relayed to a Telegram datacenter, directly or through a pool of
  Telegram's middle proxies; a client that does not authenticate is relayed to an ordinary web server. This
  library models the program's protocol code, one theory per component, over the bytes on its sockets, and
  proves what makes each component, and their composition, correct. Sources are named relative to \<open>src/src\<close>.

  \<^bold>\<open>Conventions.\<close> Machine integers are words of their width. Errors are the enumerations of \<open>error.rs\<close> as the left side
  of a sum. A socket is a script: what each poll of the reading side delivers (bytes, nothing yet, an error, the end), how
  much each poll of the writing side takes, and what has been written. So every theorem over sockets holds for all ways in
  which the bytes are cut and delayed. Loops that wait for a socket carry fuel; \<open>None\<close> is a loop that still waits when the
  fuel ends, and the theorems on success give a fuel that is enough: a bound by the length of the script and the
  data. SHA-256, HMAC, the AES block function and keystream, checksums, the hex decoder, the generator and the LRU cache are
  crates: they are arguments of the definitions, and the few facts used of them (lengths, the inverse of a block function,
  the documented order of an LRU cache) are named hypotheses. Logging is left out everywhere.

  \<^bold>\<open>Foundations.\<close> \<open>Prelude\<close>: bytes, integer conversions, slices. \<open>Errors\<close> (\<open>error.rs\<close>). \<open>Constants\<close>
  (\<open>protocol/constants.rs\<close>). \<open>Net_Text\<close>: numbers and addresses as text, as the standard library reads and prints them.
  \<open>Async_Io\<close>: sockets, the loops of the standard library over polls, and the contracts \<open>byte_reader\<close>, \<open>complete_reader\<close>,
  \<open>byte_writer\<close> and \<open>live_writer\<close> as locales, interpreted on the bare sockets and on every wrapper below. \<open>Raw_Io\<close>: exact
  reads of a bare socket.

  \<^bold>\<open>Cryptography.\<close> \<open>Aes\<close> (\<open>crypto/aes.rs\<close>): CTR and CBC; encrypting and decrypting are inverse and the in-place variants
  agree with the copying ones. \<open>Secure_Random\<close> (\<open>crypto/random.rs\<close>). \<open>Obfuscation\<close> (\<open>protocol/obfuscation.rs\<close> and the
  datacenter nonce of \<open>proxy/handshake.rs\<close>): the 64 bytes that open a session, in both directions.

  \<^bold>\<open>Frames.\<close> \<open>Frame\<close>, \<open>Frame_Codec\<close> (\<open>stream/frame.rs\<close>, \<open>stream/frame_codec.rs\<close>, \<open>protocol/frame.rs\<close>): the three transports,
  reassembled from any chunking without loss.

  \<^bold>\<open>Streams.\<close> \<open>Stream_State\<close> (\<open>stream/state.rs\<close>): the buffers the state machines use. \<open>Tls_Stream\<close>, \<open>Tls_Writer\<close>
  (\<open>stream/tls_stream.rs\<close>) and \<open>Crypto_Stream\<close>, \<open>Crypto_Writer\<close> (\<open>stream/crypto_stream.rs\<close>): the reader and writer state
  machines of the FakeTLS and AES-CTR layers, each interpreting the contracts over the layer below, so that the stack of both
  is proved in the last section of this theory by instantiation only.

  \<^bold>\<open>Authentication.\<close> \<open>Replay_Checker\<close> (\<open>stats/mod.rs\<close>): what was seen within the window is found, what was not seen is not.
  \<open>Tls_Hello\<close>, \<open>Client_Hello\<close> (\<open>protocol/tls.rs\<close>): validation of a hello is exact, its parsers never leave their input.
  \<open>Tls_Front\<close> (\<open>tls_front/{types,cache,emulator}.rs\<close>): the profile cache and the emulated answer. \<open>Handshake\<close>,
  \<open>Tls_Handshake\<close> (\<open>proxy/handshake.rs\<close>): both handshakes, sound and complete. \<open>User_Limits\<close> (\<open>ip_tracker.rs\<close>, the user
  counters of \<open>stats/mod.rs\<close>, the limits of \<open>proxy/client.rs\<close>): admission of authenticated users.

  \<^bold>\<open>A connection.\<close> \<open>Proxy_Protocol\<close> (\<open>transport/proxy_protocol.rs\<close>), \<open>Dns_Overrides\<close> (\<open>network/dns_overrides.rs\<close>), \<open>Masking\<close>
  (\<open>proxy/masking.rs\<close>, \<open>stats/beobachten.rs\<close>): the relay to the mask host as a step relation over its two concurrent
  tasks, transparent in every interleaving. \<open>Client_Handler\<close> (\<open>proxy/client.rs\<close>) composes all of it from the first byte of a
  connection: who is served, and what everyone else sees.

  \<^bold>\<open>Middle proxies.\<close> \<open>Rpc_Codec\<close>, \<open>Rpc_Wire\<close>, \<open>Registry\<close>, \<open>Rpc_Reader\<close>, \<open>Rpc_Session\<close>
  (\<open>transport/middle_proxy/{codec,wire,registry,reader}.rs\<close>, \<open>crypto/hash.rs\<close>): the encrypted RPC connection, the table of client
  connections, the reader task as steps over both, and the composition of writer and reader into a lossless session.

  \<^bold>\<open>Relay.\<close> \<open>Client_Frames\<close> (\<open>proxy/middle_relay.rs\<close>): the relay's own reading and writing of client frames; it refines the
  codec of \<open>Frame_Codec\<close> on every stream the codec accepts. \<open>Middle_Relay\<close> (the rest of that file): a session as a step
  relation over its three tasks, a bounded queue between two of them and the pool as environment; in every interleaving the
  pool is sent the client's frames in order, and the client receives the pool's answers in order. \<open>Relay\<close>
  (\<open>proxy/relay.rs\<close>): the wrappers around both sides, their counters, the watchdog and the copy, whose schedule (tokio's) is
  arbitrary; the locale \<open>relay_pair\<close> proves both directions transparent over any readers and writers of the stream layer.
  \<open>Direct_Relay\<close> (\<open>proxy/direct_relay.rs\<close>): the datacenter's address, the handshake with it and the session, end to end.

  \<^bold>\<open>Reaching a datacenter.\<close> \<open>Socks\<close> (\<open>transport/socks.rs\<close>): both handshakes over a connection that reads and writes in
  arbitrary pieces; the server reads back target and credentials. \<open>Upstream\<close> (\<open>transport/upstream.rs\<close>): selection by scope, health and
  weight, connections with retries, health checks with their rotation over endpoints, the ping at start-up; the network and the arithmetic of
  floating-point numbers are parameters. Health is an invariant of every history of a manager, and a check finds exactly the groups that
  can be reached.

  \<^bold>\<open>Probing the network.\<close> \<open>Net_Probe\<close> (\<open>network/{probe,stun}.rs\<close>): the local addresses, STUN exchanges with many servers at a time and the vote on
  their answers, the addresses that are not public, and the decision which families are used. The parser of answers is safe and reads the
  address a server sends; the vote does not depend on scheduling; the octet tests are the reserved prefixes.

  \<^bold>\<open>The pool of middle proxies.\<close> \<open>Me_Pool\<close> (\<open>transport/middle_proxy/{pool,pool_writer,pool_refill}.rs\<close>): its state, the life of a
  writer from connection over draining to removal, quarantine of endpoints, refills. \<open>Me_Send\<close> (\<open>send.rs\<close>): requests and closes; a request that
  returns has been delivered and bound, or no writer was left. \<open>Me_Reinit\<close> (\<open>pool_reinit.rs\<close>, \<open>pool_config.rs\<close>): generations and maps; no
  reinitialization drains a datacenter dry. \<open>Me_Steps\<close>: all of these, interleaved, as one relation between pools, with the invariant of the pool.
  \<open>Me_Config\<close> (\<open>config_updater.rs\<close>, \<open>secret.rs\<close>, \<open>rotation.rs\<close>): the lists and the secret, from the text that is downloaded to the
  stable gate in front of the pool. An operation of the pool is atomic between its waits, and what happens during a wait is an argument; connecting is a parameter. The
  loop of a request has no bound of its own (it waits for writers), so it has fuel and its theorem speaks of requests that return.
  \<^bold>\<open>Not modelled.\<close> Start-up, the command line, the metrics endpoint and configuration files (\<open>main.rs\<close>, \<open>cli.rs\<close>,
  \<open>metrics.rs\<close>, \<open>config\<close>): glue around what is here; where a component reads the configuration, the fields it reads are
  a record. Code whose subject is the network itself: connecting, socket options, name resolution, the fetcher of
  certificates, the start, the health monitor, the NAT detection and the connection handshake of the middle-proxy pool
  (\<open>transport/{pool,socket}.rs\<close>, \<open>tls_front/fetcher.rs\<close>, 
  \<open>transport/middle_proxy/{pool_init,pool_nat,health,ping,handshake}.rs\<close>). Wall-clock waiting: a timeout is
  modelled only where its branch changes state.
\<close>

section \<open>The client stream stack, end to end\<close>

text \<open>What the relay does with the stack: write everything, then flush.\<close>

definition stack_send :: "nat \<Rightarrow> tls_writer crypto_writer \<Rightarrow> bytes \<Rightarrow>
    (unit io_result \<times> tls_writer crypto_writer) option" where
  "stack_send fuel w data =
     (case write_loop (cw_poll_write tls_poll_write) fuel data w of
        None \<Rightarrow> None
      | Some (Inl e, w') \<Rightarrow> Some (Inl e, w')
      | Some (Inr _, w') \<Rightarrow> flush_loop (cw_poll_flush tls_poll_write tls_poll_flush) fuel w')"

lemma stack_send_result:
  assumes "sink_live k" "6 * length data < ok_count k" "length (sk_script k) + length data < fuel"
  shows "\<exists>w'. stack_send fuel (crypto_writer_new (tls_writer_new k) c m) data = Some (Inr (), w') \<and>
    cw_inv (tls_writer_inv (length (sk_written k))) tls_writer_broken (tls_accepted (length (sk_written k))) 0 c w' \<and>
    cw_queued w' = [] \<and> tls_queued (cw_upstream w') = [] \<and> \<not> cw_broken tls_writer_broken w' \<and>
    cw_plain (tls_accepted (length (sk_written k))) 0 c w' = data"
proof -
  let ?b = "length (sk_written k)" and ?w = "crypto_writer_new (tls_writer_new k) c m"
  note inv = stack_writer_new(1) [of k c m] and plain = stack_writer_new(4) [of k c m]
  have live: "cw_live tls_writer_live 6 ?w (ok_count k)"
    using assms(1) by (simp add: cw_live_def cw_queued_def crypto_writer_new_def tls_writer_live_def
        tls_writer_new_def tls_queued_def Let_def)
  have meas: "cw_meas tls_writer_meas ?w + length data < fuel"
    using assms(3) by (simp add: cw_meas_def crypto_writer_new_def tls_writer_meas_def tls_writer_new_def Let_def)
  obtain w1 where w1: "write_loop (cw_poll_write tls_poll_write) fuel data ?w = Some (Inr (), w1)"
    "cw_live tls_writer_live 6 w1 (ok_count k - 6 * length data)" "cw_meas tls_writer_meas w1 \<le> cw_meas tls_writer_meas ?w"
    using crypto_tls_out.crypto_live.write_loop_live [OF inv live assms(2) meas] by blast
  note p = crypto_tls_out.crypto.write_loop_plain [OF inv w1(1)]
  obtain w2 where w2: "flush_loop (cw_poll_flush tls_poll_write tls_poll_flush) fuel w1 = Some (Inr (), w2)"
    using crypto_tls_out.crypto_live.flush_loop_live [OF conjunct1 [OF p] w1(2), of fuel] assms(2) meas w1(3) by auto
  have "\<not> cw_broken tls_writer_broken w1"
    using crypto_tls_out.crypto.write_loop_alive [OF inv stack_writer_new(2) w1(1)] by blast
  then have "\<not> cw_broken tls_writer_broken w2"
    using crypto_tls_out.crypto.flush_loop_alive [OF conjunct1 [OF p] _ w2] by blast
  then show ?thesis
    using crypto_tls_out.crypto.flush_loop_plain [OF conjunct1 [OF p] w2] p w1(1) w2 plain
    by (simp add: stack_send_def)
qed

text \<open>C4: The whole client-facing stack is transparent. Data written through AES-CTR over FakeTLS on
  fresh writers, to a socket that keeps accepting in pieces of any size and with any pending polls, is
  sent completely; and a FakeTLS reader below an AES-CTR reader with the same key and IV, over any
  chunking of the bytes sent, reads back exactly that data.\<close>

theorem stack_roundtrip:
  assumes "sink_live k" "6 * length data < ok_count k" "length (sk_script k) + length data < fuel"
  shows "\<exists>w'. stack_send fuel (crypto_writer_new (tls_writer_new k) c m) data = Some (Inr (), w') \<and>
    (\<forall>u. source_wf u \<and>
        source_bytes u = drop (length (sk_written k)) (sk_written (tw_upstream (cw_upstream w'))) \<longrightarrow>
      (\<exists>r'. read_exact_decrypt tls_poll_read (Suc (tls_reader_meas (tls_reader_new u)))
          (crypto_reader_new (tls_reader_new u) c) (length data) = Some (Inr data, r')))"
proof -
  let ?b = "length (sk_written k)"
  obtain w' where w': "stack_send fuel (crypto_writer_new (tls_writer_new k) c m) data = Some (Inr (), w')"
    "cw_inv (tls_writer_inv ?b) tls_writer_broken (tls_accepted ?b) 0 c w'"
    "cw_queued w' = []" "tls_queued (cw_upstream w') = []" "\<not> cw_broken tls_writer_broken w'"
    "cw_plain (tls_accepted ?b) 0 c w' = data"
    using stack_send_result [OF assms, of c m] by blast
  have "\<exists>r'. read_exact_decrypt tls_poll_read (Suc (tls_reader_meas (tls_reader_new u)))
      (crypto_reader_new (tls_reader_new u) c) (length data) = Some (Inr data, r')"
    if u: "source_wf u" "source_bytes u = drop ?b (sk_written (tw_upstream (cw_upstream w')))" for u
  proof -
    let ?r = "crypto_reader_new (tls_reader_new u) c"
    note R = stack_wire_content [OF w'(2,5) _ u]
    have wf: "crypto_reader_wf tls_clean ?r" using R(1) w'(3,4) by simp
    have c: "crypto_content tls_content ?r = data" using R(2) w'(3,4,6) by simp
    have m: "crypto_reader_meas tls_reader_meas ?r < Suc (tls_reader_meas (tls_reader_new u))"
      by (simp add: crypto_reader_meas_def crypto_reader_new_def)
    obtain xs r' where xs: "read_loop (crypto_poll_read tls_poll_read) (Suc (tls_reader_meas (tls_reader_new u)))
        (length data) [] ?r = Some (Inr xs, r')"
      using crypto_tls_full.crypto_full.read_loop_succeeds [OF wf m, of "[]" "length data"] c
      by (simp del: read_loop.simps) blast
    have rc: "[] @ crypto_content tls_content ?r = xs @ crypto_content tls_content r' \<and>
        length xs = length data \<and> crypto_reader_wf tls_clean r'"
      by (rule crypto_tls_full.crypto.read_loop_content [OF wf _ xs]) simp
    have "xs = data"
      by (rule append_same_length [THEN conjunct1, OF conjunct1 [OF rc, unfolded append_Nil c, symmetric]
            conjunct1 [OF conjunct2 [OF rc]]])
    then show ?thesis
      using xs by (simp add: read_exact_decrypt_def cr_drain_def crypto_reader_new_def del: read_loop.simps)
  qed
  with w'(1) show ?thesis by blast
qed

theorem stack_roundtrip_witness:
  "\<exists>w'. stack_send 40 (crypto_writer_new (tls_writer_new
       \<lparr>sk_script = WrPending # replicate 20 (WrOk 1), sk_written = []\<rparr>)
       \<lparr>keystream = (\<lambda>i. word_of_nat i), ctr_pos = 0\<rparr> 0) [7, 8] = Some (Inr (), w')"
  using stack_roundtrip [of "\<lparr>sk_script = WrPending # replicate 20 (WrOk 1), sk_written = []\<rparr>" "[7, 8]" 40
      "\<lparr>keystream = (\<lambda>i. word_of_nat i), ctr_pos = 0\<rparr>" 0]
  by (auto simp: sink_live_def ok_count_def list_all_iff)

end
